(* ===== verification/Prelude.thy ===== *)
theory Prelude
  imports Main "HOL-Library.Word"
begin

text \<open>
  Shared vocabulary of the development: the machine integers of the Rust sources, results of
  fallible functions, byte strings, and the generic facts on lists, slices and transition
  systems that the components use.

  Integers. Fields with a layout (disk records, rights masks, device words) are words of the
  source's width, so that arithmetic wraps as it does in the release build. Indices, lengths and
  counters that cannot reach \<open>2 ^ 64\<close> on the machine (lengths of vectors, ticks) are \<open>nat\<close>.
\<close>

unbundle bit_operations_syntax

type_synonym u8 = "8 word"
type_synonym u16 = "16 word"
type_synonym u32 = "32 word"
type_synonym u64 = "64 word"
type_synonym bytes = "u8 list"

text \<open>\<open>Result<T, &'static str>\<close>: \<open>Inl\<close> carries the message of the error.\<close>

type_synonym 'a result = "string + 'a"

named_theorems layout \<open>facts that resolve reads of a field of a byte record after writes to fields\<close>
named_theorems lens \<open>lengths of byte records\<close>
named_theorems frame_rules \<open>what an operation leaves unchanged\<close>

section \<open>Slices\<close>

text \<open>\<open>b[at..at + n]\<close> as a value, and \<open>b[at..at + xs.len()].copy_from_slice(xs)\<close>.\<close>

definition subslice :: "'a list \<Rightarrow> nat \<Rightarrow> nat \<Rightarrow> 'a list" where
  "subslice b at n = take n (drop at b)"

definition overwrite :: "'a list \<Rightarrow> nat \<Rightarrow> 'a list \<Rightarrow> 'a list" where
  "overwrite b at xs = take at b @ xs @ drop (at + length xs) b"

text \<open>\<open>usize::div_ceil\<close>.\<close>

definition div_ceil :: "nat \<Rightarrow> nat \<Rightarrow> nat" where
  "div_ceil a b = (a + b - 1) div b"

text \<open>\<open>iter().position(p)\<close>.\<close>

primrec position :: "('a \<Rightarrow> bool) \<Rightarrow> 'a list \<Rightarrow> nat option" where
  "position p [] = None"
| "position p (x # xs) = (if p x then Some 0 else map_option Suc (position p xs))"

text \<open>Reachability in a transition system.\<close>

inductive reach :: "('s \<Rightarrow> bool) \<Rightarrow> ('s \<Rightarrow> 's \<Rightarrow> bool) \<Rightarrow> 's \<Rightarrow> bool" for init step where
  reach_init: "init s \<Longrightarrow> reach init step s"
| reach_step: "reach init step s \<Longrightarrow> step s t \<Longrightarrow> reach init step t"

subsection \<open>Lemmas on slices\<close>

lemma length_subslice [simp]: "length (subslice b at n) = min n (length b - at)"
  by (simp add: subslice_def min.commute)

lemma nth_subslice: "i < n \<Longrightarrow> at + i < length b \<Longrightarrow> subslice b at n ! i = b ! (at + i)"
  by (simp add: subslice_def)

lemma length_overwrite [lens]: "at + length xs \<le> length b \<Longrightarrow> length (overwrite b at xs) = length b"
  by (simp add: overwrite_def)

lemma nth_overwrite:
  assumes "at + length xs \<le> length b" and "i < length b"
  shows "overwrite b at xs ! i =
    (if i < at then b ! i else if i < at + length xs then xs ! (i - at) else b ! i)"
  using assms by (auto simp: overwrite_def nth_append)

lemma subslice_overwrite_same [layout]:
  "at + length xs \<le> length b \<Longrightarrow> n = length xs \<Longrightarrow> subslice (overwrite b at xs) at n = xs"
  by (simp add: subslice_def overwrite_def)

lemma subslice_overwrite_disj [layout]:
  assumes "at + length xs \<le> length b" and "at' + n \<le> at \<or> at + length xs \<le> at'"
  shows "subslice (overwrite b at xs) at' n = subslice b at' n"
proof (rule nth_equalityI)
  show "length (subslice (overwrite b at xs) at' n) = length (subslice b at' n)"
    using assms(1) by (simp add: length_overwrite)
next
  fix i assume "i < length (subslice (overwrite b at xs) at' n)"
  then have i: "i < n" "at' + i < length b"
    using assms(1) by (auto simp: length_overwrite)
  then show "subslice (overwrite b at xs) at' n ! i = subslice b at' n ! i"
    using assms by (auto simp: nth_subslice nth_overwrite length_overwrite)
qed

lemma subslice_overwrite_prefix:
  assumes "at + length xs \<le> length b" and "length xs \<le> n"
  shows "subslice (overwrite b at xs) at n = xs @ subslice b (at + length xs) (n - length xs)"
  using assms by (simp add: subslice_def overwrite_def)

lemma subslice_replicate [simp]: "at + n \<le> k \<Longrightarrow> subslice (replicate k x) at n = replicate n x"
  by (simp add: subslice_def min_def)

lemma subslice_list_update_disj [layout]:
  "i < at \<or> at + n \<le> i \<Longrightarrow> subslice (b[i := x]) at n = subslice b at n"
  by (auto simp: subslice_def drop_update_swap)

lemma take_overwrite_below [layout]:
  assumes "at + length xs \<le> length b" and "n \<le> at"
  shows "take n (overwrite b at xs) = take n b"
  using subslice_overwrite_disj [OF assms(1), of 0 n] assms(2) by (simp add: subslice_def)

lemma concat_replicate_replicate: "concat (replicate n (replicate k x)) = replicate (n * k) x"
  by (induction n) (simp_all add: replicate_add)

lemma take_length_append: "length xs = n \<Longrightarrow> take n (xs @ ys) = xs"
  by simp

lemma subslice_all [simp]: "subslice b 0 (length b) = b"
  by (simp add: subslice_def)

subsection \<open>Lemmas on positions\<close>

lemma position_Some:
  "position p xs = Some i \<Longrightarrow> i < length xs \<and> p (xs ! i) \<and> (\<forall>j<i. \<not> p (xs ! j))"
proof (induction xs arbitrary: i)
  case (Cons x xs)
  then show ?case
    by (cases i) (auto split: if_splits simp: nth_Cons' less_Suc_eq_0_disj)
qed simp

lemma position_None_iff: "position p xs = None \<longleftrightarrow> (\<forall>x\<in>set xs. \<not> p x)"
  by (induction xs) auto

lemma position_SomeI:
  assumes "i < length xs" "p (xs ! i)" "\<And>j. j < i \<Longrightarrow> \<not> p (xs ! j)"
  shows "position p xs = Some i"
proof (cases "position p xs")
  case None
  with assms(1,2) show ?thesis by (auto simp: position_None_iff)
next
  case (Some k)
  from position_Some [OF Some] assms have "\<not> k < i" "\<not> i < k" by auto
  with Some show ?thesis by simp
qed

lemma div_ceil_bounds:
  assumes "0 < b"
  shows "a \<le> div_ceil a b * b" and "div_ceil a b * b < a + b"
proof -
  have eq: "div_ceil a b * b + (a + b - 1) mod b = a + b - 1"
    unfolding div_ceil_def by (rule div_mult_mod_eq)
  have lt: "(a + b - 1) mod b < b" using assms by (rule mod_less_divisor)
  from eq lt assms show "a \<le> div_ceil a b * b" by linarith
  from eq lt assms show "div_ceil a b * b < a + b" by linarith
qed

subsection \<open>Words\<close>

lemma unat_add_of_nat:
  "unat (w :: 'a::len word) + i < 2 ^ LENGTH('a) \<Longrightarrow> unat (w + of_nat i) = unat w + i"
  by (simp add: unat_word_ariths unat_of_nat)

lemma ucast_up_inj:
  assumes "(ucast (a :: 'a::len word) :: 'b::len word) = ucast b" and "LENGTH('a) \<le> LENGTH('b)"
  shows "a = b"
proof (rule bit_word_eqI)
  fix n assume n: "n < LENGTH('a)"
  have "bit (ucast a :: 'b word) n = bit (ucast b :: 'b word) n" by (simp add: assms(1))
  with n assms(2) show "bit a n = bit b n" by (simp add: bit_ucast_iff)
qed

lemma xor_neq_self: "v \<noteq> 0 \<Longrightarrow> (x :: 'a::len word) XOR v \<noteq> x"
proof
  assume "v \<noteq> 0" and "x XOR v = x"
  then have "x XOR (x XOR v) = x XOR x" by simp
  then show False using \<open>v \<noteq> 0\<close> by (simp add: xor.assoc [symmetric])
qed

lemma inj_on_add_of_nat:
  assumes "unat (w :: 'a::len word) + n \<le> 2 ^ LENGTH('a)"
  shows "inj_on (\<lambda>i. w + of_nat i) {0..<n}"
proof (rule inj_onI)
  fix i j assume ij: "i \<in> {0..<n}" "j \<in> {0..<n}" and eq: "w + of_nat i = w + of_nat j"
  have *: "unat (w + of_nat k) = unat w + k" if "k \<in> {0..<n}" for k
  proof (rule unat_add_of_nat)
    have "k < n" using that by simp
    with assms show "unat w + k < 2 ^ LENGTH('a)" by linarith
  qed
  have "unat w + i = unat w + j" using * [OF ij(1)] * [OF ij(2)] eq by metis
  then show "i = j" by simp
qed

subsection \<open>Transition systems and their invariants\<close>

text \<open>
  The contract of an inductive invariant: it holds initially and every step keeps it. The
  clients are the state machines of the scheduler, the lock and the channels.
\<close>

locale invariant_of =
  fixes init :: "'s \<Rightarrow> bool" and step :: "'s \<Rightarrow> 's \<Rightarrow> bool" and inv :: "'s \<Rightarrow> bool"
  assumes inv_init: "init s \<Longrightarrow> inv s"
    and inv_step: "inv s \<Longrightarrow> step s t \<Longrightarrow> inv t"
begin

lemma inv_reach: "reach init step s \<Longrightarrow> inv s"
  by (induction rule: reach.induct) (auto intro: inv_init inv_step)

lemma inv_rtranclp: "step\<^sup>*\<^sup>* s t \<Longrightarrow> inv s \<Longrightarrow> inv t"
  by (induction rule: rtranclp_induct) (auto intro: inv_step)

end

subsection \<open>Chained checksums\<close>

text \<open>
  A checksum that folds bytes into a state. When a step is injective in the state and in the byte,
  two inputs of the same length that differ in exactly one byte never collide. The clients are the
  CRC of sealed sectors and the FNV-1a chains of the action log and the model store.
\<close>

locale mixer =
  fixes mix :: "'b \<Rightarrow> 's \<Rightarrow> 's"
  assumes mix_inj_state: "mix x s = mix x t \<Longrightarrow> s = t"
    and mix_inj_byte: "mix x s = mix y s \<Longrightarrow> x = y"
begin

lemma fold_inj_state: "fold mix xs s = fold mix xs t \<Longrightarrow> s = t"
  by (induction xs arbitrary: s t) (auto dest: mix_inj_state)

lemma fold_single_diff:
  assumes "length a = length b" and "k < length a" and "a ! k \<noteq> b ! k"
    and "\<And>j. j < length a \<Longrightarrow> j \<noteq> k \<Longrightarrow> a ! j = b ! j"
  shows "fold mix a s \<noteq> fold mix b s"
proof
  assume eq: "fold mix a s = fold mix b s"
  have pre: "take k a = take k b"
    using assms by (intro nth_equalityI) auto
  have post: "drop (Suc k) a = drop (Suc k) b"
    using assms by (intro nth_equalityI) auto
  have a: "a = take k a @ a ! k # drop (Suc k) a"
    using assms(2) by (rule id_take_nth_drop)
  have b: "b = take k a @ b ! k # drop (Suc k) a"
    unfolding pre post using assms(1,2) by (intro id_take_nth_drop) simp
  have "fold mix (drop (Suc k) a) (mix (a ! k) (fold mix (take k a) s)) =
        fold mix (drop (Suc k) a) (mix (b ! k) (fold mix (take k a) s))"
    using eq by (subst (asm) a, subst (asm) b) simp
  then have "mix (a ! k) (fold mix (take k a) s) = mix (b ! k) (fold mix (take k a) s)"
    by (rule fold_inj_state)
  with assms(3) show False by (auto dest: mix_inj_byte)
qed

lemma fold_prefix_inj: "fold mix xs (mix x s) = fold mix xs (mix y s) \<Longrightarrow> x = y"
  by (blast dest: fold_inj_state mix_inj_byte)

end

end
