(* ===== verification/Bytes.thy ===== *)
theory Bytes
  imports Prelude
begin

text \<open>
  Byte-level encodings the sources take from the standard library: \<open>to_le_bytes\<close>,
  \<open>from_le_bytes\<close> and their big-endian forms at any width, and the check of
  \<open>core::str::from_utf8\<close>. A \<open>&str\<close> is modelled by its UTF-8 bytes.
\<close>

section \<open>Integers as bytes\<close>

definition le_bytes :: "nat \<Rightarrow> 'a::len word \<Rightarrow> bytes" where
  "le_bytes n w = map (\<lambda>i. ucast (drop_bit (8 * i) w)) [0..<n]"

primrec le_word :: "bytes \<Rightarrow> 'a::len word" where
  "le_word [] = 0"
| "le_word (b # bs) = ucast b OR push_bit 8 (le_word bs)"

definition be_bytes :: "nat \<Rightarrow> 'a::len word \<Rightarrow> bytes" where
  "be_bytes n w = rev (le_bytes n w)"

definition be_word :: "bytes \<Rightarrow> 'a::len word" where
  "be_word bs = le_word (rev bs)"

text \<open>The bytes of an ASCII literal \<open>b"..."\<close>.\<close>

definition ascii :: "string \<Rightarrow> bytes" where
  "ascii s = map of_char s"

section \<open>UTF-8\<close>

text \<open>
  The well-formed sequences of the standard (Unicode table 3-7), which is what
  \<open>core::str::from_utf8\<close> accepts: no overlong forms, no surrogates, nothing above U+10FFFF.
\<close>

definition cont :: "u8 \<Rightarrow> bool" where
  "cont b \<longleftrightarrow> 0x80 \<le> b \<and> b \<le> 0xBF"

fun utf8_valid :: "bytes \<Rightarrow> bool" where
  "utf8_valid [] = True"
| "utf8_valid (a # bs) =
     (if a \<le> 0x7F then utf8_valid bs
      else if 0xC2 \<le> a \<and> a \<le> 0xDF then
        (case bs of b # r \<Rightarrow> cont b \<and> utf8_valid r | _ \<Rightarrow> False)
      else if 0xE0 \<le> a \<and> a \<le> 0xEF then
        (case bs of b # c # r \<Rightarrow>
           cont b \<and> (a = 0xE0 \<longrightarrow> 0xA0 \<le> b) \<and> (a = 0xED \<longrightarrow> b \<le> 0x9F) \<and> cont c \<and> utf8_valid r
         | _ \<Rightarrow> False)
      else if 0xF0 \<le> a \<and> a \<le> 0xF4 then
        (case bs of b # c # d # r \<Rightarrow>
           cont b \<and> (a = 0xF0 \<longrightarrow> 0x90 \<le> b) \<and> (a = 0xF4 \<longrightarrow> b \<le> 0x8F) \<and> cont c \<and> cont d
           \<and> utf8_valid r
         | _ \<Rightarrow> False)
      else False)"

text \<open>\<open>core::str::from_utf8(b).unwrap_or("<invalid>")\<close>, the idiom of \<open>name_str\<close> and \<open>as_str\<close>.\<close>

definition str_or_invalid :: "bytes \<Rightarrow> bytes" where
  "str_or_invalid b = (if utf8_valid b then b else ascii ''<invalid>'')"

text \<open>The bytes before the first NUL: \<open>b[..b.iter().position(|&c| c == 0).unwrap_or(b.len())]\<close>.\<close>

definition until_nul :: "bytes \<Rightarrow> bytes" where
  "until_nul b = take (case position (\<lambda>c. c = 0) b of Some i \<Rightarrow> i | None \<Rightarrow> length b) b"

section \<open>Lemmas\<close>

lemma length_le_bytes [simp]: "length (le_bytes n w) = n"
  by (simp add: le_bytes_def)

lemma length_be_bytes [simp]: "length (be_bytes n w) = n"
  by (simp add: be_bytes_def)

lemma bit_le_word:
  "bit (le_word bs :: 'a::len word) n \<longleftrightarrow>
     n < LENGTH('a) \<and> n div 8 < length bs \<and> bit (bs ! (n div 8)) (n mod 8)"
proof (induction bs arbitrary: n)
  case (Cons b bs)
  show ?case
  proof (cases "n < 8")
    case True
    then show ?thesis
      by (auto simp: bit_or_iff bit_push_bit_iff bit_ucast_iff)
  next
    case False
    then obtain m where m: "n = m + 8" using le_Suc_ex by (metis add.commute not_less)
    have "\<not> bit b n" using False by (auto dest: bit_imp_le_length)
    then have "bit (le_word (b # bs) :: 'a word) n \<longleftrightarrow>
        n < LENGTH('a) \<and> bit (le_word bs :: 'a word) m"
      by (auto simp: m bit_or_iff bit_push_bit_iff bit_ucast_iff)
    moreover have "(m + 8) div 8 = Suc (m div 8)" and "(m + 8) mod 8 = m mod 8" by simp_all
    ultimately show ?thesis unfolding Cons.IH by (simp add: m) auto
  qed
qed simp

lemma le_word_bytes:
  assumes "LENGTH('a::len) \<le> 8 * n"
  shows "le_word (le_bytes n (w :: 'a word)) = w"
proof (rule bit_word_eqI)
  fix k assume k: "k < LENGTH('a)"
  then have "k div 8 < n" using assms by (simp add: less_mult_imp_div_less mult.commute)
  moreover have "8 * (k div 8) + k mod 8 = k" by simp
  ultimately show "bit (le_word (le_bytes n w) :: 'a word) k \<longleftrightarrow> bit w k"
    using k by (auto simp: bit_le_word le_bytes_def bit_ucast_iff bit_drop_bit_eq)
qed

lemma le_bytes_word:
  assumes "8 * n \<le> LENGTH('a::len)" and "length bs = n"
  shows "le_bytes n (le_word bs :: 'a word) = bs"
proof (rule nth_equalityI)
  fix i assume "i < length (le_bytes n (le_word bs :: 'a word))"
  then have i: "i < n" by simp
  have "(ucast (drop_bit (8 * i) (le_word bs :: 'a word)) :: u8) = bs ! i"
  proof (rule bit_word_eqI)
    fix k assume "k < LENGTH(8)"
    then have k: "k < 8" by simp
    have len: "8 * i + k < LENGTH('a)" using k i assms(1) by linarith
    have "(8 * i + k) div 8 = i" and "(8 * i + k) mod 8 = k" using k by simp_all
    with len show "bit (ucast (drop_bit (8 * i) (le_word bs :: 'a word)) :: u8) k \<longleftrightarrow> bit (bs ! i) k"
      using i k assms(2) by (simp add: bit_ucast_iff bit_drop_bit_eq bit_le_word add.commute)
  qed
  then show "le_bytes n (le_word bs :: 'a word) ! i = bs ! i"
    using i by (simp add: le_bytes_def)
qed (simp add: assms(2))

lemma le_word_bytes_64 [simp]: "le_word (le_bytes 8 (w :: u64)) = w"
  by (rule le_word_bytes) simp

lemma le_word_bytes_32 [simp]: "le_word (le_bytes 4 (w :: u32)) = w"
  by (rule le_word_bytes) simp

lemma le_bytes_word_64 [simp]: "length bs = 8 \<Longrightarrow> le_bytes 8 (le_word bs :: u64) = bs"
  by (rule le_bytes_word) simp

lemma le_bytes_word_32 [simp]: "length bs = 4 \<Longrightarrow> le_bytes 4 (le_word bs :: u32) = bs"
  by (rule le_bytes_word) simp

lemma be_word_bytes_32 [simp]: "be_word (be_bytes 4 (w :: u32)) = w"
  by (simp add: be_word_def be_bytes_def)

lemma be_word_bytes_64 [simp]: "be_word (be_bytes 8 (w :: u64)) = w"
  by (simp add: be_word_def be_bytes_def)

lemma be_word_bytes_16 [simp]: "be_word (be_bytes 2 (w :: u16)) = w"
  by (simp add: be_word_def be_bytes_def le_word_bytes)

lemma le_word_replicate0 [simp]: "le_word (replicate k 0) = 0"
  by (induction k) auto

lemma until_nul_padded:
  assumes "0 \<notin> set name"
  shows "until_nul (name @ replicate k 0) = name"
proof (cases k)
  case 0
  have "position (\<lambda>c. c = 0) name = None"
    using assms by (auto simp: position_None_iff)
  with 0 show ?thesis by (simp add: until_nul_def)
next
  case (Suc m)
  have "position (\<lambda>c. c = 0) (name @ replicate k 0) = Some (length name)"
    using assms Suc by (intro position_SomeI) (auto simp: nth_append in_set_conv_nth)
  then show ?thesis by (simp add: until_nul_def)
qed

lemma length_until_nul [simp]: "length (until_nul b) \<le> length b"
  by (simp add: until_nul_def split: option.split)

end
