(* ===== verification/Sector.thy ===== *)
theory Sector
  imports Bytes
begin

text \<open>
  The sealed 512-byte sectors of \<open>kernel/src/fs.rs\<close>: little-endian field access, the bitwise
  CRC-32, and \<open>seal\<close>/\<open>intact\<close>, which the file system's superblock and checkpoints and the update
  mechanism's control block share. The lemmas show that a sealed sector is intact, that sealing
  touches nothing but the last four bytes, and that no change confined to one byte of the payload
  escapes the checksum.
\<close>

definition SECTOR_SIZE :: nat where
  "SECTOR_SIZE = 512"

definition CRC_OFF :: nat where
  "CRC_OFF = SECTOR_SIZE - 4"

definition put_u32 :: "bytes \<Rightarrow> nat \<Rightarrow> u32 \<Rightarrow> bytes" where
  "put_u32 b at v = overwrite b at (le_bytes 4 v)"

definition put_u64 :: "bytes \<Rightarrow> nat \<Rightarrow> u64 \<Rightarrow> bytes" where
  "put_u64 b at v = overwrite b at (le_bytes 8 v)"

definition get_u32 :: "bytes \<Rightarrow> nat \<Rightarrow> u32" where
  "get_u32 b at = le_word [b ! at, b ! (at + 1), b ! (at + 2), b ! (at + 3)]"

definition get_u64 :: "bytes \<Rightarrow> nat \<Rightarrow> u64" where
  "get_u64 b at = le_word (subslice b at 8)"

text \<open>One bit of the division: \<open>mask\<close> is all ones when the low bit is set.\<close>

definition crc_bit :: "u32 \<Rightarrow> u32" where
  "crc_bit crc = (let mask = - (crc AND 1) in drop_bit 1 crc XOR (0xEDB88320 AND mask))"

definition crc_byte :: "u8 \<Rightarrow> u32 \<Rightarrow> u32" where
  "crc_byte byte crc = (crc_bit ^^ 8) (crc XOR ucast byte)"

definition crc32 :: "bytes \<Rightarrow> u32" where
  "crc32 data = NOT (fold crc_byte data 0xFFFFFFFF)"

definition seal :: "bytes \<Rightarrow> bytes" where
  "seal sector = put_u32 sector CRC_OFF (crc32 (take CRC_OFF sector))"

definition intact :: "bytes \<Rightarrow> bool" where
  "intact sector \<longleftrightarrow> crc32 (take CRC_OFF sector) = get_u32 sector CRC_OFF"

section \<open>Fields\<close>

lemma length_put_u32 [lens]: "at + 4 \<le> length b \<Longrightarrow> length (put_u32 b at v) = length b"
  by (simp add: put_u32_def length_overwrite)

lemma length_put_u64 [lens]: "at + 8 \<le> length b \<Longrightarrow> length (put_u64 b at v) = length b"
  by (simp add: put_u64_def length_overwrite)

lemma get_u32_subslice: "at + 4 \<le> length b \<Longrightarrow> get_u32 b at = le_word (subslice b at 4)"
proof -
  assume a: "at + 4 \<le> length b"
  have "subslice b at 4 = [b ! at, b ! (at + 1), b ! (at + 2), b ! (at + 3)]"
    by (rule nth_equalityI)
      (use a in \<open>auto simp: nth_subslice less_Suc_eq numeral_eq_Suc\<close>)
  then show ?thesis by (simp add: get_u32_def)
qed

lemma subslice_put_u32_disj [layout]:
  "at + 4 \<le> length b \<Longrightarrow> at' + n \<le> at \<or> at + 4 \<le> at' \<Longrightarrow>
   subslice (put_u32 b at v) at' n = subslice b at' n"
  by (simp add: put_u32_def subslice_overwrite_disj)

lemma subslice_put_u64_disj [layout]:
  "at + 8 \<le> length b \<Longrightarrow> at' + n \<le> at \<or> at + 8 \<le> at' \<Longrightarrow>
   subslice (put_u64 b at v) at' n = subslice b at' n"
  by (simp add: put_u64_def subslice_overwrite_disj)

lemma get_put_u32 [layout]: "at + 4 \<le> length b \<Longrightarrow> get_u32 (put_u32 b at v) at = v"
  by (simp add: get_u32_subslice length_put_u32)
    (simp add: put_u32_def subslice_overwrite_same)

lemma get_put_u64 [layout]: "at + 8 \<le> length b \<Longrightarrow> get_u64 (put_u64 b at v) at = v"
  by (simp add: get_u64_def put_u64_def subslice_overwrite_same)

lemma get_u32_cong: "subslice a at 4 = subslice b at 4 \<Longrightarrow> length a = length b \<Longrightarrow>
    at + 4 \<le> length b \<Longrightarrow> get_u32 a at = get_u32 b at"
  by (simp add: get_u32_subslice)

lemma get_u64_cong: "subslice a at 8 = subslice b at 8 \<Longrightarrow> get_u64 a at = get_u64 b at"
  by (simp add: get_u64_def)

section \<open>Sealing\<close>

lemma length_seal [lens]: "length s = SECTOR_SIZE \<Longrightarrow> length (seal s) = SECTOR_SIZE"
  by (simp add: seal_def lens CRC_OFF_def SECTOR_SIZE_def)

lemma take_seal: "length s = SECTOR_SIZE \<Longrightarrow> n \<le> CRC_OFF \<Longrightarrow> take n (seal s) = take n s"
  by (simp add: seal_def put_u32_def take_overwrite_below CRC_OFF_def SECTOR_SIZE_def)

lemma subslice_seal [layout]:
  "length s = SECTOR_SIZE \<Longrightarrow> at + n \<le> CRC_OFF \<Longrightarrow> subslice (seal s) at n = subslice s at n"
  by (simp add: seal_def subslice_put_u32_disj CRC_OFF_def SECTOR_SIZE_def)

lemma nth_seal: "length s = SECTOR_SIZE \<Longrightarrow> i < CRC_OFF \<Longrightarrow> seal s ! i = s ! i"
  using take_seal [of s "Suc i"] by (metis Suc_leI lessI nth_take)

lemma intact_seal: "length s = SECTOR_SIZE \<Longrightarrow> intact (seal s)"
  by (simp add: intact_def take_seal)
    (simp add: seal_def get_put_u32 CRC_OFF_def SECTOR_SIZE_def)

section \<open>What the checksum detects\<close>

text \<open>
  One bit step is injective: the polynomial has its top bit set, so the top bit of the result
  tells which branch was taken and the rest gives back the other bits.
\<close>

lemma bit_crc_bit:
  "bit (crc_bit c) n \<longleftrightarrow> n < 32 \<and> (bit c (Suc n) \<noteq> (bit c 0 \<and> bit (0xEDB88320 :: u32) n))"
proof -
  have m: "- (c AND 1) = (if bit c 0 then - 1 else 0)"
    by (simp add: and_one_eq mod2_eq_if bit_0)
  show ?thesis
    by (cases "bit c 0")
      (auto simp: crc_bit_def m bit_xor_iff bit_and_iff bit_drop_bit_eq dest: bit_imp_le_length)
qed

lemma crc_bit_inj: "crc_bit a = crc_bit b \<Longrightarrow> a = b"
proof -
  assume eq: "crc_bit a = crc_bit b"
  have top: "bit (0xEDB88320 :: u32) 31" by simp
  have "\<not> bit a 32" "\<not> bit b 32" by (auto dest: bit_imp_le_length)
  moreover have "bit (crc_bit a) 31 = bit (crc_bit b) 31" by (simp add: eq)
  ultimately have low: "bit a 0 = bit b 0" using top by (simp add: bit_crc_bit)
  show ?thesis
  proof (rule bit_word_eqI)
    fix n assume n: "n < LENGTH(32)"
    show "bit a n = bit b n"
    proof (cases n)
      case (Suc m)
      have "bit (crc_bit a) m = bit (crc_bit b) m" by (simp add: eq)
      with low n Suc show ?thesis by (auto simp: bit_crc_bit)
    qed (simp add: low)
  qed
qed

lemma crc_bits_inj: "(crc_bit ^^ k) a = (crc_bit ^^ k) b \<Longrightarrow> a = b"
  by (induction k arbitrary: a b) (auto dest: crc_bit_inj)

lemma crc_byte_inj_state: "crc_byte x a = crc_byte x b \<Longrightarrow> a = b"
proof -
  assume "crc_byte x a = crc_byte x b"
  then have "a XOR ucast x = b XOR ucast x"
    unfolding crc_byte_def by (rule crc_bits_inj)
  then have "(a XOR ucast x) XOR ucast x = (b XOR ucast x) XOR ucast x" by simp
  then show "a = b" by (simp add: xor.assoc)
qed

lemma crc_byte_inj_byte: "crc_byte x a = crc_byte y a \<Longrightarrow> x = y"
proof -
  assume "crc_byte x a = crc_byte y a"
  then have "a XOR ucast x = a XOR ucast y"
    unfolding crc_byte_def by (rule crc_bits_inj)
  then have "a XOR (a XOR ucast x) = a XOR (a XOR (ucast y :: u32))" by simp
  then have "(ucast x :: u32) = ucast y" by (simp add: xor.assoc [symmetric])
  then show "x = y" by (rule ucast_up_inj) simp
qed

interpretation crc: mixer crc_byte
  by unfold_locales (auto dest: crc_byte_inj_state crc_byte_inj_byte)

lemma crc32_single_byte:
  assumes "length a = length b" and "k < length a" and "a ! k \<noteq> b ! k"
    and "\<And>j. j < length a \<Longrightarrow> j \<noteq> k \<Longrightarrow> a ! j = b ! j"
  shows "crc32 a \<noteq> crc32 b"
  using crc.fold_single_diff [OF assms] by (simp add: crc32_def)

text \<open>Changing one byte of the payload of an intact sector leaves a sector that is not intact.\<close>

lemma intact_single_byte:
  assumes "intact s" and "length s = SECTOR_SIZE" and "k < CRC_OFF" and "v \<noteq> s ! k"
  shows "\<not> intact (s[k := v])"
proof -
  have len: "length (take CRC_OFF s) = CRC_OFF"
    using assms(2) by (simp add: CRC_OFF_def SECTOR_SIZE_def)
  have "crc32 ((take CRC_OFF s)[k := v]) \<noteq> crc32 (take CRC_OFF s)"
    using assms(3,4) len by (intro crc32_single_byte [of _ _ k]) auto
  moreover have "get_u32 (s[k := v]) CRC_OFF = get_u32 s CRC_OFF"
    using assms(3) by (simp add: get_u32_def)
  ultimately show ?thesis
    using assms(1) by (simp add: intact_def take_update_swap)
qed

end
