(* ===== verification/Disk.thy ===== *)
theory Disk
  imports Sector
begin

text \<open>
  Storage as the kernel's clients see it, and computations that use it. The device behind
  \<open>blk::read_sector\<close> and \<open>blk::write_sector\<close> is hardware: it appears as the state \<open>disk\<close>, whose
  contents, failing sectors and moment of power loss are arbitrary. A sector write lands whole or
  not at all, which is the assumption \<open>kernel/src/fs.rs\<close> states; the contract \<open>block_store\<close> below
  is that assumption, and \<open>disk\<close> is shown to meet it.

  A computation returns \<open>Done\<close>, \<open>Fail\<close> with the error's message, or \<open>PowerOff\<close> when the machine
  lost power inside it; \<open>power = Some k\<close> lets \<open>k\<close> more sector writes through and cuts the power at
  the next one.
\<close>

datatype 'a outcome = Done 'a | Fail string | PowerOff

type_synonym ('d, 'a) io = "'d \<Rightarrow> 'a outcome \<times> 'd"

definition io_return :: "'a \<Rightarrow> ('d, 'a) io" where
  "io_return x d = (Done x, d)"

definition io_fail :: "string \<Rightarrow> ('d, 'a) io" where
  "io_fail e d = (Fail e, d)"

definition io_off :: "('d, 'a) io" where
  "io_off d = (PowerOff, d)"

text \<open>Sequencing, with Rust's \<open>?\<close>: an error or a power cut ends the computation.\<close>

definition io_bind :: "('d, 'a) io \<Rightarrow> ('a \<Rightarrow> ('d, 'b) io) \<Rightarrow> ('d, 'b) io" where
  "io_bind m f d = (case m d of
      (Done x, d') \<Rightarrow> f x d'
    | (Fail e, d') \<Rightarrow> (Fail e, d')
    | (PowerOff, d') \<Rightarrow> (PowerOff, d'))"

text \<open>A \<open>for\<close> loop over a list, with and without a loop variable carried along.\<close>

primrec io_each :: "('a \<Rightarrow> ('d, unit) io) \<Rightarrow> 'a list \<Rightarrow> ('d, unit) io" where
  "io_each f [] = io_return ()"
| "io_each f (x # xs) = io_bind (f x) (\<lambda>_. io_each f xs)"

primrec io_fold :: "('a \<Rightarrow> 's \<Rightarrow> ('d, 's) io) \<Rightarrow> 'a list \<Rightarrow> 's \<Rightarrow> ('d, 's) io" where
  "io_fold f [] s = io_return s"
| "io_fold f (x # xs) s = io_bind (f x s) (io_fold f xs)"

text \<open>\<open>.ok()\<close> and \<open>let _ =\<close>: an error is turned into a value, a power cut is not.\<close>

definition io_catch :: "('d, 'a) io \<Rightarrow> ('d, 'a option) io" where
  "io_catch m d = (case m d of
      (Done x, d') \<Rightarrow> (Done (Some x), d')
    | (Fail e, d') \<Rightarrow> (Done None, d')
    | (PowerOff, d') \<Rightarrow> (PowerOff, d'))"

record disk =
  store :: "u64 \<Rightarrow> bytes"
  bad :: "u64 \<Rightarrow> string option"
  power :: "nat option"

definition read_sector :: "u64 \<Rightarrow> (disk, bytes) io" where
  "read_sector s d = (case bad d s of Some e \<Rightarrow> (Fail e, d) | None \<Rightarrow> (Done (store d s), d))"

definition write_sector :: "u64 \<Rightarrow> bytes \<Rightarrow> (disk, unit) io" where
  "write_sector s v d =
    (if length v \<noteq> SECTOR_SIZE then (Fail ''writes are one sector'', d)
     else if power d = Some 0 then (PowerOff, d)
     else case bad d s of Some e \<Rightarrow> (Fail e, d)
       | None \<Rightarrow> (Done (), d\<lparr>store := (store d)(s := v), power := map_option (\<lambda>k. k - 1) (power d)\<rparr>))"

text \<open>The next boot: what was on the disk is still there, and power is back.\<close>

definition reboot :: "disk \<Rightarrow> disk" where
  "reboot d = d\<lparr>power := None\<rparr>"

definition apply_writes :: "(u64 \<times> bytes) list \<Rightarrow> (u64 \<Rightarrow> bytes) \<Rightarrow> u64 \<Rightarrow> bytes" where
  "apply_writes ws m = fold (\<lambda>(s, v) m. m(s := v)) ws m"

section \<open>Sequencing\<close>

lemma io_simps [simp]:
  "io_return x d = (Done x, d)" "io_fail e d = (Fail e, d)" "io_off d = (PowerOff, d)"
  by (simp_all add: io_return_def io_fail_def io_off_def)

lemma io_bind_Done: "m d = (Done x, d') \<Longrightarrow> io_bind m f d = f x d'"
  by (simp add: io_bind_def)

lemma io_bind_DoneE:
  assumes "io_bind m f d = (Done y, d'')"
  obtains x d' where "m d = (Done x, d')" and "f x d' = (Done y, d'')"
  using assms by (auto simp: io_bind_def split: prod.splits outcome.splits)

lemma io_bindE:
  assumes "io_bind m f d = (r, d'')"
  obtains (cont) x d' where "m d = (Done x, d')" and "f x d' = (r, d'')"
    | (fail) e where "m d = (Fail e, d'')" and "r = Fail e"
    | (off) "m d = (PowerOff, d'')" and "r = PowerOff"
  using assms by (auto simp: io_bind_def split: prod.splits outcome.splits)

text \<open>A loop keeps what its body keeps, however it ends.\<close>

lemma io_each_keeps:
  assumes "io_each f xs d = (r, d')" and "P d"
    and "\<And>x d r d'. P d \<Longrightarrow> f x d = (r, d') \<Longrightarrow> P d'"
  shows "P d'"
  using assms(1,2)
proof (induction xs arbitrary: d)
  case (Cons x xs)
  from Cons.prems(1) have "io_bind (f x) (\<lambda>_. io_each f xs) d = (r, d')" by simp
  then show ?case
    by (cases rule: io_bindE) (use Cons assms(3) in blast)+
qed simp

lemma io_each_not_fail:
  assumes "io_each f xs d = (Fail e, d')" and "P d"
    and "\<And>x d r d'. P d \<Longrightarrow> x \<in> set xs \<Longrightarrow> f x d = (r, d') \<Longrightarrow> P d' \<and> (\<forall>e. r \<noteq> Fail e)"
  shows False
  using assms
proof (induction xs arbitrary: d)
  case (Cons x xs)
  from Cons.prems(1) have "io_bind (f x) (\<lambda>_. io_each f xs) d = (Fail e, d')" by simp
  then show ?case
  proof (cases rule: io_bindE)
    case (cont y d1)
    then have d1: "P d1" using Cons.prems(3) [OF Cons.prems(2), of x "Done y" d1] by simp
    show ?thesis by (rule Cons.IH [OF cont(2) d1], rule Cons.prems(3)) simp_all
  next
    case (fail e')
    then show ?thesis using Cons.prems(3) [OF Cons.prems(2), of x "Fail e'" d'] by simp
  qed simp
qed simp

lemma apply_writes_simps [simp]:
  "apply_writes [] m = m"
  "apply_writes ((s, v) # ws) m = apply_writes ws (m(s := v))"
  by (simp_all add: apply_writes_def)

lemma apply_writes_append: "apply_writes (vs @ ws) m = apply_writes ws (apply_writes vs m)"
  by (simp add: apply_writes_def)

lemma apply_writes_other: "s \<notin> fst ` set ws \<Longrightarrow> apply_writes ws m s = m s"
  by (induction ws arbitrary: m) auto

lemma apply_writes_distinct:
  "distinct (map fst ws) \<Longrightarrow> (s, v) \<in> set ws \<Longrightarrow> apply_writes ws m s = v"
proof (induction ws arbitrary: m)
  case (Cons w ws)
  then show ?case
    by (cases w) (force simp: apply_writes_other)
qed simp

section \<open>The contract of a block store\<close>

text \<open>
  What the file system, the action log and the update mechanism rely on: reads return the
  contents and change nothing, a completed write changes one sector, and a write that does not
  complete changes none.
\<close>

locale block_store =
  fixes rd :: "u64 \<Rightarrow> ('d, bytes) io" and wr :: "u64 \<Rightarrow> bytes \<Rightarrow> ('d, unit) io"
    and content :: "'d \<Rightarrow> u64 \<Rightarrow> bytes"
  assumes rd_same: "rd s d = (r, d') \<Longrightarrow> d' = d"
    and rd_content: "rd s d = (Done v, d') \<Longrightarrow> v = content d s"
    and wr_done: "wr s v d = (Done (), d') \<Longrightarrow> content d' = (content d)(s := v)"
    and wr_atomic: "wr s v d = (q, d') \<Longrightarrow> q \<noteq> Done () \<Longrightarrow> content d' = content d"
begin

text \<open>
  A loop of sector writes whose body may also stop short of its write (an error, a planned power
  cut) leaves, when it is interrupted anywhere, the effect of a prefix of the writes.
\<close>

lemma each_write_prefix:
  assumes "io_each f xs d = (r, d')"
    and body: "\<And>x d. x \<in> set xs \<Longrightarrow> f x d = wr (a x) (v x) d \<or> (\<exists>q. q \<noteq> Done () \<and> f x d = (q, d))"
  shows "\<exists>j\<le>length xs. content d' = apply_writes (map (\<lambda>x. (a x, v x)) (take j xs)) (content d)
           \<and> (r = Done () \<longrightarrow> j = length xs)"
  using assms
proof (induction xs arbitrary: d)
  case (Cons x xs)
  have *: "io_bind (f x) (\<lambda>_. io_each f xs) d = (r, d')"
    using Cons.prems by simp
  have stop: "content d' = content d" if "f x d = (q, d')" "q \<noteq> Done ()" for q
    using Cons.prems(2) [of x d] that wr_atomic [of "a x" "v x" d q d'] by auto
  from * show ?case
  proof (cases rule: io_bindE)
    case (cont y d1)
    from Cons.IH [OF cont(2)] Cons.prems(2) obtain j where
      "j \<le> length xs" "content d' = apply_writes (map (\<lambda>x. (a x, v x)) (take j xs)) (content d1)"
      "r = Done () \<longrightarrow> j = length xs" by auto
    moreover have "content d1 = (content d)(a x := v x)"
      using cont(1) Cons.prems(2) [of x d] wr_done by auto
    ultimately show ?thesis by (intro exI [of _ "Suc j"]) simp
  next
    case (fail e)
    then show ?thesis using stop [of "Fail e"] by (intro exI [of _ 0]) auto
  next
    case off
    then show ?thesis using stop [of PowerOff] by (intro exI [of _ 0]) auto
  qed
qed (simp add: io_return_def)

lemma each_write_other:
  assumes "io_each f xs d = (r, d')"
    and body: "\<And>x d. x \<in> set xs \<Longrightarrow> f x d = wr (a x) (v x) d \<or> (\<exists>q. q \<noteq> Done () \<and> f x d = (q, d))"
    and "s \<notin> a ` set xs"
  shows "content d' s = content d s"
proof -
  obtain j where "content d' = apply_writes (map (\<lambda>x. (a x, v x)) (take j xs)) (content d)"
    using each_write_prefix [of f xs d r d' a v] assms(1) body by blast
  moreover have "s \<notin> fst ` set (map (\<lambda>x. (a x, v x)) (take j xs))"
    using assms(3) set_take_subset [of j xs] by (auto simp: image_image)
  ultimately show ?thesis by (simp add: apply_writes_other)
qed

lemma each_write_done:
  assumes "io_each f xs d = (Done (), d')"
    and body: "\<And>x d. x \<in> set xs \<Longrightarrow> f x d = wr (a x) (v x) d \<or> (\<exists>q. q \<noteq> Done () \<and> f x d = (q, d))"
    and "inj_on a (set xs)" and "distinct xs" and "x \<in> set xs"
  shows "content d' (a x) = v x"
proof -
  have "content d' = apply_writes (map (\<lambda>x. (a x, v x)) xs) (content d)"
    using each_write_prefix [of f xs d "Done ()" d' a v] assms(1) body by auto
  moreover have "distinct (map fst (map (\<lambda>x. (a x, v x)) xs))"
    using assms(3,4) by (simp add: distinct_map comp_def)
  ultimately show ?thesis
    using assms(5) by (simp add: apply_writes_distinct)
qed

end

interpretation dev: block_store read_sector write_sector store
  by unfold_locales
    (auto simp: read_sector_def write_sector_def split: option.splits if_splits)

subsection \<open>Facts on the device itself\<close>

lemma read_sector_cases:
  obtains "read_sector s d = (Done (store d s), d)" "bad d s = None"
    | e where "read_sector s d = (Fail e, d)" "bad d s = Some e"
  by (cases "bad d s") (auto simp: read_sector_def)

lemma read_sector_ok [simp]: "bad d s = None \<Longrightarrow> read_sector s d = (Done (store d s), d)"
  by (simp add: read_sector_def)

lemma write_sector_ok [simp]:
  "length v = SECTOR_SIZE \<Longrightarrow> power d = None \<Longrightarrow> bad d s = None \<Longrightarrow>
   write_sector s v d = (Done (), d\<lparr>store := (store d)(s := v)\<rparr>)"
  by (cases d) (simp add: write_sector_def)

lemma write_sector_frame [frame_rules]:
  "write_sector s v d = (r, d') \<Longrightarrow> bad d' = bad d"
  by (auto simp: write_sector_def split: if_splits option.splits)

lemma write_sector_store:
  "write_sector s v d = (r, d') \<Longrightarrow> store d' = (if r = Done () then (store d)(s := v) else store d)"
  by (cases "r = Done ()") (auto dest: dev.wr_done dev.wr_atomic)

lemma write_sector_power: "write_sector s v d = (r, d') \<Longrightarrow> power d = None \<Longrightarrow>
    power d' = None \<and> r \<noteq> PowerOff"
  by (auto simp: write_sector_def split: if_splits option.splits)

lemma reboot_simps [simp]:
  "store (reboot d) = store d" "bad (reboot d) = bad d" "power (reboot d) = None"
  by (simp_all add: reboot_def)

lemma reads_unaffected_by_power: "read_sector s (reboot d) = (fst (read_sector s d), reboot d)"
  by (simp add: read_sector_def split: option.splits)

end
