(* ===== verification/Fs.thy ===== *)
theory Fs
  imports Disk
begin

text \<open>
  JLFS, the log-structured file system of \<open>kernel/src/fs.rs\<close>: checkpoints and their on-disk form,
  \<open>format\<close>, \<open>mount\<close>, \<open>read\<close>, \<open>write\<close> with its two-step commit, \<open>set_entry\<close> and the test-state
  sector. Every operation that touches the disk is a computation over \<open>disk\<close>, so each error and
  each place where power can be lost is a branch of the model.

  The lemmas here are about the data: the checkpoint codec, directory lookup and the effect of
  updates on a directory. Crash consistency is in \<open>Fs_Crash\<close>.
\<close>

section \<open>Layout\<close>

definition SPILL_SECTORS :: u64 where "SPILL_SECTORS = 16 * 1024"
definition AUDIT_SECTORS :: u64 where "AUDIT_SECTORS = 2048"
definition OTA_SLOT_SECTORS :: u64 where "OTA_SLOT_SECTORS = 64"
definition OTA_SECTORS :: u64 where "OTA_SECTORS = 1 + 2 * OTA_SLOT_SECTORS"
definition SB_SECTOR :: u64 where "SB_SECTOR = 0"
definition CP_SECTORS :: "u64 list" where "CP_SECTORS = [1, 2]"
definition TEST_STATE_SECTOR :: u64 where "TEST_STATE_SECTOR = 4"
definition LOG_START :: u64 where "LOG_START = 8"
definition SB_MAGIC :: u64 where "SB_MAGIC = 0x4A4C46535F534230"
definition CP_MAGIC :: u64 where "CP_MAGIC = 0x4A4C46535F435030"
definition MAX_FILES :: nat where "MAX_FILES = 8"
definition MAX_NAME :: nat where "MAX_NAME = 28"
definition ENTRY_SIZE :: nat where "ENTRY_SIZE = 48"
definition ENTRIES_OFF :: nat where "ENTRIES_OFF = 32"

lemmas fs_consts = SPILL_SECTORS_def AUDIT_SECTORS_def OTA_SLOT_SECTORS_def OTA_SECTORS_def
  SB_SECTOR_def CP_SECTORS_def TEST_STATE_SECTOR_def LOG_START_def MAX_FILES_def MAX_NAME_def
  ENTRY_SIZE_def ENTRIES_OFF_def CRC_OFF_def SECTOR_SIZE_def

section \<open>Checkpoints\<close>

record FileEntry =
  fe_name :: bytes
  fe_size :: u32
  fe_start :: u64
  fe_sectors :: u32

definition FileEntry_empty :: FileEntry where
  "FileEntry_empty = \<lparr>fe_name = replicate MAX_NAME 0, fe_size = 0, fe_start = 0, fe_sectors = 0\<rparr>"

definition name_str :: "FileEntry \<Rightarrow> bytes" where
  "name_str e = str_or_invalid (until_nul (fe_name e))"

record Checkpoint =
  cp_seq :: u64
  cp_log_head :: u64
  cp_files :: "FileEntry list"
  cp_count :: nat

definition Checkpoint_new :: Checkpoint where
  "Checkpoint_new = \<lparr>cp_seq = 1, cp_log_head = LOG_START,
     cp_files = replicate MAX_FILES FileEntry_empty, cp_count = 0\<rparr>"

definition get_entry :: "bytes \<Rightarrow> nat \<Rightarrow> FileEntry" where
  "get_entry raw i = (let at = ENTRIES_OFF + i * ENTRY_SIZE in
     \<lparr>fe_name = subslice raw at MAX_NAME, fe_size = get_u32 raw (at + 28),
      fe_start = get_u64 raw (at + 32), fe_sectors = get_u32 raw (at + 40)\<rparr>)"

definition put_entry :: "nat \<Rightarrow> FileEntry \<Rightarrow> bytes \<Rightarrow> bytes" where
  "put_entry i e raw = (let at = ENTRIES_OFF + i * ENTRY_SIZE;
     raw = overwrite raw at (fe_name e);
     raw = put_u32 raw (at + 28) (fe_size e);
     raw = put_u64 raw (at + 32) (fe_start e)
   in put_u32 raw (at + 40) (fe_sectors e))"

definition cp_decode :: "bytes \<Rightarrow> Checkpoint option" where
  "cp_decode raw =
    (if get_u64 raw 0 \<noteq> CP_MAGIC \<or> \<not> intact raw then None
     else let count = unat (get_u32 raw 24) in
       if count > MAX_FILES then None
       else Some \<lparr>cp_seq = get_u64 raw 8, cp_log_head = get_u64 raw 16,
         cp_files = fold (\<lambda>i fs. fs[i := get_entry raw i]) [0..<count]
                      (replicate MAX_FILES FileEntry_empty),
         cp_count = count\<rparr>)"

definition cp_encode :: "Checkpoint \<Rightarrow> bytes" where
  "cp_encode cp = (let
     raw = replicate SECTOR_SIZE 0;
     raw = put_u64 raw 0 CP_MAGIC;
     raw = put_u64 raw 8 (cp_seq cp);
     raw = put_u64 raw 16 (cp_log_head cp);
     raw = put_u32 raw 24 (of_nat (cp_count cp));
     raw = fold (\<lambda>i. put_entry i (cp_files cp ! i)) [0..<cp_count cp] raw
   in seal raw)"

section \<open>The mounted file system\<close>

record Fs =
  fs_cp :: Checkpoint
  spill_start :: u64
  spill_sectors :: u64
  audit_start :: u64
  audit_sectors :: u64
  ota_start :: u64
  ota_sectors :: u64
  fs_slot :: nat
  total_sectors :: u64

text \<open>The superblock \<open>format\<close> lays down; the subtractions wrap as \<open>u64\<close> does.\<close>

definition superblock :: "u64 \<Rightarrow> bytes" where
  "superblock tot = (let
     sb = replicate SECTOR_SIZE 0;
     sb = put_u64 sb 0 SB_MAGIC;
     sb = put_u32 sb 8 1;
     sb = put_u64 sb 12 tot;
     spill = tot - SPILL_SECTORS;
     audit = spill - AUDIT_SECTORS;
     ota = audit - OTA_SECTORS;
     sb = put_u64 sb 20 LOG_START;
     sb = put_u64 sb 28 (ota - LOG_START);
     sb = put_u64 sb 36 spill;
     sb = put_u64 sb 44 SPILL_SECTORS;
     sb = put_u64 sb 52 audit;
     sb = put_u64 sb 60 AUDIT_SECTORS;
     sb = put_u64 sb 68 ota;
     sb = put_u64 sb 76 OTA_SECTORS
   in seal sb)"

definition fs_format :: "u64 \<Rightarrow> (disk, unit) io" where
  "fs_format tot = (let
     spill = tot - SPILL_SECTORS;
     audit = spill - AUDIT_SECTORS;
     ota = audit - OTA_SECTORS;
     blank = replicate SECTOR_SIZE 0
   in io_bind (write_sector SB_SECTOR (superblock tot)) (\<lambda>_.
      io_bind (write_sector (CP_SECTORS ! 1) blank) (\<lambda>_.
      io_bind (write_sector (CP_SECTORS ! 0) (cp_encode Checkpoint_new)) (\<lambda>_.
      io_bind (write_sector audit blank) (\<lambda>_.
      write_sector ota blank)))))"

text \<open>One turn of \<open>mount\<close>'s loop: keep the valid checkpoint with the larger sequence number.\<close>

definition adopt :: "nat \<Rightarrow> bytes \<Rightarrow> (nat \<times> Checkpoint) option \<Rightarrow> (nat \<times> Checkpoint) option" where
  "adopt i raw best = (case cp_decode raw of
      None \<Rightarrow> best
    | Some cp \<Rightarrow> (case best of
        None \<Rightarrow> Some (i, cp)
      | Some (j, b) \<Rightarrow> if cp_seq cp > cp_seq b then Some (i, cp) else best))"

definition fs_mount :: "(disk, Fs) io" where
  "fs_mount = io_bind (read_sector SB_SECTOR) (\<lambda>sb.
     if get_u64 sb 0 \<noteq> SB_MAGIC then io_fail ''not a JLFS filesystem''
     else if \<not> intact sb then io_fail ''superblock checksum mismatch''
     else io_bind
       (io_fold (\<lambda>(i, sector) best.
           io_bind (read_sector sector) (\<lambda>raw. io_return (adopt i raw best)))
         (List.enumerate 0 CP_SECTORS) None)
       (\<lambda>best. case best of
          None \<Rightarrow> io_fail ''no valid checkpoint: filesystem is unrecoverable''
        | Some (slot, cp) \<Rightarrow> io_return
            \<lparr>fs_cp = cp, spill_start = get_u64 sb 36, spill_sectors = get_u64 sb 44,
             audit_start = get_u64 sb 52, audit_sectors = get_u64 sb 60,
             ota_start = get_u64 sb 68, ota_sectors = get_u64 sb 76,
             fs_slot = slot, total_sectors = get_u64 sb 12\<rparr>))"

definition log_limit :: "Fs \<Rightarrow> u64" where
  "log_limit f = fold (\<lambda>r limit. if r \<noteq> 0 \<and> r < limit then r else limit)
     [ota_start f, audit_start f, spill_start f] (total_sectors f)"

definition fs_files :: "Fs \<Rightarrow> FileEntry list" where
  "fs_files f = take (cp_count (fs_cp f)) (cp_files (fs_cp f))"

definition fs_find :: "Fs \<Rightarrow> bytes \<Rightarrow> nat option" where
  "fs_find f name = position (\<lambda>e. name_str e = name) (fs_files f)"

definition fs_entry :: "Fs \<Rightarrow> bytes \<Rightarrow> FileEntry option" where
  "fs_entry f name = map_option (\<lambda>i. cp_files (fs_cp f) ! i) (fs_find f name)"

section \<open>Reading\<close>

text \<open>The loop of \<open>read\<close> over the sectors still to visit; \<open>dn\<close> bytes of \<open>out\<close> are filled.\<close>

fun read_loop :: "u64 \<Rightarrow> nat \<Rightarrow> nat list \<Rightarrow> nat \<Rightarrow> bytes \<Rightarrow> (disk, bytes) io" where
  "read_loop start sz [] dn out = io_return out"
| "read_loop start sz (s # ss) dn out =
     io_bind (read_sector (start + of_nat s)) (\<lambda>sector.
       let n = min (sz - dn) SECTOR_SIZE;
           out' = overwrite out dn (take n sector)
       in if dn + n = sz then io_return out' else read_loop start sz ss (dn + n) out')"

text \<open>Returns the size and the caller's buffer as \<open>read\<close> leaves it.\<close>

definition fs_read :: "Fs \<Rightarrow> bytes \<Rightarrow> bytes \<Rightarrow> (disk, nat \<times> bytes) io" where
  "fs_read f name out = (case fs_find f name of
      None \<Rightarrow> io_fail ''no such file''
    | Some i \<Rightarrow>
        let entry = cp_files (fs_cp f) ! i; sz = unat (fe_size entry) in
        if length out < sz then io_fail ''buffer too small''
        else io_bind (read_loop (fe_start entry) sz [0..<unat (fe_sectors entry)] 0 out)
          (\<lambda>out'. io_return (sz, out')))"

section \<open>Writing\<close>

definition data_sector :: "bytes \<Rightarrow> nat \<Rightarrow> bytes" where
  "data_sector data s = (let from = s * SECTOR_SIZE; n = min (length data - from) SECTOR_SIZE
     in subslice data from n @ replicate (SECTOR_SIZE - n) 0)"

text \<open>Step one of \<open>write\<close>; \<open>crash_after = Some k\<close> powers the machine off before sector \<open>k\<close>.\<close>

definition write_data :: "u64 \<Rightarrow> bytes \<Rightarrow> u32 \<Rightarrow> u32 option \<Rightarrow> (disk, unit) io" where
  "write_data start data sectors crash_after =
     io_each (\<lambda>s. if crash_after = Some (of_nat s) then io_off
                  else write_sector (start + of_nat s) (data_sector data s))
       [0..<unat sectors]"

text \<open>The entry \<open>write\<close> installs, and step two: one sector for the new root.\<close>

definition new_entry :: "bytes \<Rightarrow> bytes \<Rightarrow> u64 \<Rightarrow> u32 \<Rightarrow> FileEntry" where
  "new_entry name data start sectors =
     FileEntry_empty\<lparr>fe_name := overwrite (fe_name FileEntry_empty) 0 name,
       fe_size := of_nat (length data), fe_start := start, fe_sectors := sectors\<rparr>"

definition commit :: "Fs \<Rightarrow> Checkpoint \<Rightarrow> (disk, Fs) io" where
  "commit f next = (let target = 1 - fs_slot f in
     io_bind (write_sector (CP_SECTORS ! target) (cp_encode next))
       (\<lambda>_. io_return (f\<lparr>fs_cp := next, fs_slot := target\<rparr>)))"

definition fs_write :: "Fs \<Rightarrow> bytes \<Rightarrow> bytes \<Rightarrow> u32 option \<Rightarrow> (disk, Fs) io" where
  "fs_write f name data crash_after =
    (if length name > MAX_NAME then io_fail ''name too long''
     else let sectors = of_nat (div_ceil (length data) SECTOR_SIZE) :: u32;
              start = cp_log_head (fs_cp f) in
       if start + ucast sectors > log_limit f then io_fail ''log is full''
       else io_bind (write_data start data sectors crash_after) (\<lambda>_.
         if crash_after = Some sectors then io_off
         else let next = (fs_cp f)\<lparr>cp_seq := cp_seq (fs_cp f) + 1,
                                   cp_log_head := start + ucast sectors\<rparr>;
                  e = new_entry name data start sectors in
           case fs_find f name of
             Some i \<Rightarrow> commit f (next\<lparr>cp_files := (cp_files next)[i := e]\<rparr>)
           | None \<Rightarrow>
               if cp_count next = MAX_FILES then io_fail ''directory is full''
               else commit f (next\<lparr>cp_count := cp_count next + 1,
                                   cp_files := (cp_files next)[cp_count next := e]\<rparr>)))"

text \<open>Removal shifts the tail down, as the loop over \<open>j\<close> does.\<close>

definition remove_at :: "FileEntry list \<Rightarrow> nat \<Rightarrow> nat \<Rightarrow> FileEntry list" where
  "remove_at fs i count =
     (fold (\<lambda>j fs. fs[j := fs ! (j + 1)]) [i..<count - 1] fs)[count - 1 := FileEntry_empty]"

definition set_entry :: "Fs \<Rightarrow> bytes \<Rightarrow> FileEntry option \<Rightarrow> (disk, Fs) io" where
  "set_entry f name entry = (let next = (fs_cp f)\<lparr>cp_seq := cp_seq (fs_cp f) + 1\<rparr> in
     case (fs_find f name, entry) of
       (Some i, Some e) \<Rightarrow> commit f (next\<lparr>cp_files := (cp_files next)[i := e]\<rparr>)
     | (Some i, None) \<Rightarrow>
         commit f (next\<lparr>cp_count := cp_count next - 1,
                        cp_files := remove_at (cp_files next) i (cp_count next)\<rparr>)
     | (None, Some e) \<Rightarrow>
         if cp_count next = MAX_FILES then io_fail ''directory is full''
         else commit f (next\<lparr>cp_count := cp_count next + 1,
                             cp_files := (cp_files next)[cp_count next := e]\<rparr>)
     | (None, None) \<Rightarrow> io_return f)"

definition fs_usage :: "Fs \<Rightarrow> u64 \<times> u64" where
  "fs_usage f = (let used = cp_log_head (fs_cp f) - LOG_START;
     live = sum_list (map (\<lambda>e. ucast (fe_sectors e)) (fs_files f)) in (used, used - live))"

section \<open>The test-state sector\<close>

definition TEST_MAGIC :: u64 where "TEST_MAGIC = 0x4A4C465354455354"

definition read_phase :: "(disk, u64) io" where
  "read_phase = io_bind (io_catch (read_sector TEST_STATE_SECTOR)) (\<lambda>r. io_return (case r of
      None \<Rightarrow> 0
    | Some raw \<Rightarrow> if get_u64 raw 0 \<noteq> TEST_MAGIC \<or> \<not> intact raw then 0 else get_u64 raw 8))"

definition write_phase :: "u64 \<Rightarrow> (disk, unit) io" where
  "write_phase phase = (let raw = replicate SECTOR_SIZE 0; raw = put_u64 raw 0 TEST_MAGIC;
     raw = put_u64 raw 8 phase in write_sector TEST_STATE_SECTOR (seal raw))"

section \<open>The checkpoint codec\<close>

text \<open>
  The shape of the checkpoints the kernel builds: eight entries whose names are 28 bytes long, and
  nothing in the entries past the count.
\<close>

definition cp_wf :: "Checkpoint \<Rightarrow> bool" where
  "cp_wf cp \<longleftrightarrow> length (cp_files cp) = MAX_FILES \<and> cp_count cp \<le> MAX_FILES
     \<and> (\<forall>e\<in>set (cp_files cp). length (fe_name e) = MAX_NAME)
     \<and> (\<forall>i<MAX_FILES. cp_count cp \<le> i \<longrightarrow> cp_files cp ! i = FileEntry_empty)"

lemma length_fe_name_empty [simp]: "length (fe_name FileEntry_empty) = MAX_NAME"
  by (simp add: FileEntry_empty_def)

lemma cp_wf_new [simp]: "cp_wf Checkpoint_new"
  by (simp add: cp_wf_def Checkpoint_new_def)

lemma length_put_entry [lens]:
  assumes "i < MAX_FILES" and "length (fe_name e) = MAX_NAME" and "length raw = SECTOR_SIZE"
  shows "length (put_entry i e raw) = SECTOR_SIZE"
  using assms by (simp add: put_entry_def Let_def lens fs_consts)

lemma subslice_put_entry_disj [layout]:
  assumes "i < MAX_FILES" and "length (fe_name e) = MAX_NAME" and "length raw = SECTOR_SIZE"
    and "at + n \<le> ENTRIES_OFF + i * ENTRY_SIZE \<or> ENTRIES_OFF + i * ENTRY_SIZE + 44 \<le> at"
  shows "subslice (put_entry i e raw) at n = subslice raw at n"
  using assms(4) assms(1-3) by (elim disjE) (simp_all add: put_entry_def Let_def lens fs_consts layout)

lemma get_put_entry:
  assumes "i < MAX_FILES" and "length (fe_name e) = MAX_NAME" and "length raw = SECTOR_SIZE"
  shows "get_entry (put_entry i e raw) i = e"
proof -
  have at: "32 + i * 48 + 44 \<le> 512" using assms(1) by (simp add: fs_consts)
  show ?thesis
    using assms at
    by (simp add: get_entry_def put_entry_def Let_def lens fs_consts layout
        get_u32_subslice get_u64_def)
      (simp add: put_u32_def put_u64_def overwrite_def subslice_def)
qed

lemma get_entry_cong:
  assumes "subslice a (ENTRIES_OFF + i * ENTRY_SIZE) 44 = subslice b (ENTRIES_OFF + i * ENTRY_SIZE) 44"
    and "length a = SECTOR_SIZE" and "length b = SECTOR_SIZE" and "i < MAX_FILES"
  shows "get_entry a i = get_entry b i"
proof -
  let ?at = "ENTRIES_OFF + i * ENTRY_SIZE"
  have sub: "subslice c (?at + k) n = take n (drop k (subslice c ?at 44))"
    if "k + n \<le> 44" for c :: bytes and k n
    using that by (simp add: subslice_def drop_take add.commute)
  have "subslice a (?at + k) n = subslice b (?at + k) n" if "k + n \<le> 44" for k n
    using that assms(1) by (simp add: sub)
  from this [of 0 28] this [of 28 4] this [of 32 8] this [of 40 4] assms(2-4) show ?thesis
    by (simp add: get_entry_def Let_def get_u32_subslice get_u64_def fs_consts)
qed

lemma put_entries:
  assumes "n \<le> MAX_FILES" and "length es = MAX_FILES" and "\<forall>e\<in>set es. length (fe_name e) = MAX_NAME"
    and "length raw = SECTOR_SIZE"
  shows "length (fold (\<lambda>i. put_entry i (es ! i)) [0..<n] raw) = SECTOR_SIZE
    \<and> (\<forall>at k. at + k \<le> ENTRIES_OFF \<longrightarrow>
         subslice (fold (\<lambda>i. put_entry i (es ! i)) [0..<n] raw) at k = subslice raw at k)
    \<and> (\<forall>i<n. get_entry (fold (\<lambda>i. put_entry i (es ! i)) [0..<n] raw) i = es ! i)"
  using assms(1)
proof (induction n)
  case (Suc n)
  let ?r = "fold (\<lambda>i. put_entry i (es ! i)) [0..<n] raw"
  have n: "n < MAX_FILES" "length (fe_name (es ! n)) = MAX_NAME" "length ?r = SECTOR_SIZE"
    using Suc assms(2,3) by auto
  have "get_entry (put_entry n (es ! n) ?r) i = es ! i" if "i < Suc n" for i
  proof (cases "i = n")
    case True
    then show ?thesis using n by (simp add: get_put_entry)
  next
    case False
    with that have i: "i < n" by simp
    then have "ENTRIES_OFF + i * ENTRY_SIZE + 44 \<le> ENTRIES_OFF + n * ENTRY_SIZE"
      by (simp add: fs_consts)
    then have "get_entry (put_entry n (es ! n) ?r) i = get_entry ?r i"
      using n i by (intro get_entry_cong) (simp_all add: layout lens)
    with i Suc show ?thesis by simp
  qed
  moreover have "subslice (put_entry n (es ! n) ?r) at k = subslice raw at k"
    if "at + k \<le> ENTRIES_OFF" for at k
    using n that Suc by (simp add: layout)
  ultimately show ?case using n by (simp add: lens)
qed (simp add: assms(4))

lemma fold_update_upt:
  "n \<le> length xs \<Longrightarrow> fold (\<lambda>i ys. ys[i := f i]) [0..<n] xs = map f [0..<n] @ drop n xs"
proof (induction n)
  case (Suc n)
  then have "drop n xs = xs ! n # drop (Suc n) xs" by (simp add: Cons_nth_drop_Suc)
  with Suc show ?case by (simp add: list_update_append)
qed simp

lemma length_cp_encode [lens]: "cp_wf cp \<Longrightarrow> length (cp_encode cp) = SECTOR_SIZE"
  unfolding cp_encode_def Let_def
  by (rule length_seal, rule put_entries [THEN conjunct1])
    (simp_all add: cp_wf_def lens fs_consts)

lemma cp_decode_encode:
  assumes wf: "cp_wf cp"
  shows "cp_decode (cp_encode cp) = Some cp"
proof -
  define raw0 :: bytes where "raw0 = put_u32 (put_u64 (put_u64 (put_u64 (replicate SECTOR_SIZE 0) 0
    CP_MAGIC) 8 (cp_seq cp)) 16 (cp_log_head cp)) 24 (of_nat (cp_count cp))"
  define raw where "raw = fold (\<lambda>i. put_entry i (cp_files cp ! i)) [0..<cp_count cp] raw0"
  have enc: "cp_encode cp = seal raw" by (simp add: cp_encode_def raw_def raw0_def)
  have len0: "length raw0 = SECTOR_SIZE" by (simp add: raw0_def lens fs_consts)
  note P = put_entries [OF _ _ _ len0, of "cp_count cp" "cp_files cp"]
  have wf': "cp_count cp \<le> MAX_FILES" "length (cp_files cp) = MAX_FILES"
    "\<forall>e\<in>set (cp_files cp). length (fe_name e) = MAX_NAME"
    "\<And>i. i < MAX_FILES \<Longrightarrow> cp_count cp \<le> i \<Longrightarrow> cp_files cp ! i = FileEntry_empty"
    using wf by (auto simp: cp_wf_def)
  have len: "length raw = SECTOR_SIZE"
    and hdr: "\<And>at k. at + k \<le> ENTRIES_OFF \<Longrightarrow> subslice raw at k = subslice raw0 at k"
    and ent: "\<And>i. i < cp_count cp \<Longrightarrow> get_entry raw i = cp_files cp ! i"
    using P [OF wf'(1-3)] by (auto simp: raw_def)
  have lens': "length (seal raw) = SECTOR_SIZE" using len by (rule length_seal)
  have sub: "subslice (seal raw) at k = subslice raw0 at k" if "at + k \<le> ENTRIES_OFF" for at k
    using that len hdr [OF that] by (subst subslice_seal) (simp_all add: fs_consts)
  have g64: "get_u64 (seal raw) at = get_u64 raw0 at" if "at + 8 \<le> ENTRIES_OFF" for at
    using sub [OF that] by (rule get_u64_cong)
  have g32: "get_u32 (seal raw) 24 = get_u32 raw0 24"
    using sub [of 24 4] lens' len0 by (intro get_u32_cong) (simp_all add: fs_consts)
  have vals: "get_u64 raw0 0 = CP_MAGIC" "get_u64 raw0 8 = cp_seq cp"
    "get_u64 raw0 16 = cp_log_head cp" "get_u32 raw0 24 = of_nat (cp_count cp)"
    unfolding raw0_def by (simp_all add: get_u64_def get_u32_subslice lens layout fs_consts)
      (simp_all add: put_u64_def put_u32_def layout lens)
  have cnt: "unat (of_nat (cp_count cp) :: u32) = cp_count cp"
    using wf'(1) by (simp add: unat_of_nat take_bit_nat_eq_self fs_consts)
  have ent': "get_entry (seal raw) i = cp_files cp ! i" if "i < cp_count cp" for i
  proof -
    have "i < MAX_FILES" using that wf'(1) by simp
    then have "get_entry (seal raw) i = get_entry raw i"
      using len lens' by (intro get_entry_cong) (simp_all add: layout fs_consts)
    with ent [OF that] show ?thesis by simp
  qed
  have "map (get_entry (seal raw)) [0..<cp_count cp] @
      drop (cp_count cp) (replicate MAX_FILES FileEntry_empty) = cp_files cp"
  proof (rule nth_equalityI)
    fix i assume "i < length (map (get_entry (seal raw)) [0..<cp_count cp] @
      drop (cp_count cp) (replicate MAX_FILES FileEntry_empty))"
    then show "(map (get_entry (seal raw)) [0..<cp_count cp] @
      drop (cp_count cp) (replicate MAX_FILES FileEntry_empty)) ! i = cp_files cp ! i"
      using wf' by (auto simp: nth_append ent')
  qed (use wf' in simp)
  then show ?thesis
    unfolding enc cp_decode_def
    using wf'(1) intact_seal [OF len] vals cnt
    by (simp add: g64 g32 fold_update_upt ENTRIES_OFF_def)
qed

end
