(* ===== verification/Fs_Crash.thy ===== *)
theory Fs_Crash
  imports Fs
begin

text \<open>
  Crash consistency of JLFS. The abstract file system is a map from names to contents
  (\<open>fs_abs\<close>). \<open>fs_inv\<close> is what holds of a mounted \<open>Fs\<close>, \<open>on_disk\<close> relates it to the sectors. The
  results: \<open>mount\<close> recovers exactly the mounted state; \<open>read\<close> returns the abstract contents;
  \<open>write\<close> and \<open>set_entry\<close> are single updates of the map that either happen or leave no trace,
  wherever power is lost or the device fails; and any history of writes, removals, power cuts and
  remounts keeps all of it.
\<close>

section \<open>The abstract view and the invariant\<close>

definition file_contents :: "(u64 \<Rightarrow> bytes) \<Rightarrow> FileEntry \<Rightarrow> bytes" where
  "file_contents m e = take (unat (fe_size e))
     (concat (map (\<lambda>s. m (fe_start e + of_nat s)) [0..<unat (fe_sectors e)]))"

definition fs_abs :: "Fs \<Rightarrow> (u64 \<Rightarrow> bytes) \<Rightarrow> bytes \<Rightarrow> bytes option" where
  "fs_abs f m name = map_option (file_contents m) (fs_entry f name)"

text \<open>An entry's extent lies in the used part of the log and holds the file.\<close>

definition entry_ok :: "u64 \<Rightarrow> FileEntry \<Rightarrow> bool" where
  "entry_ok head e \<longleftrightarrow> length (fe_name e) = MAX_NAME \<and> unat LOG_START \<le> unat (fe_start e)
     \<and> unat (fe_start e) + unat (fe_sectors e) \<le> unat head
     \<and> unat (fe_size e) \<le> unat (fe_sectors e) * SECTOR_SIZE"

definition fs_inv :: "Fs \<Rightarrow> bool" where
  "fs_inv f \<longleftrightarrow> cp_wf (fs_cp f) \<and> fs_slot f < 2
     \<and> (\<forall>e\<in>set (fs_files f). entry_ok (cp_log_head (fs_cp f)) e)
     \<and> distinct (map name_str (fs_files f))
     \<and> LOG_START \<le> cp_log_head (fs_cp f) \<and> cp_log_head (fs_cp f) \<le> log_limit f
     \<and> unat (log_limit f) < 2 ^ 63"

definition sb_matches :: "Fs \<Rightarrow> bytes \<Rightarrow> bool" where
  "sb_matches f sb \<longleftrightarrow> get_u64 sb 0 = SB_MAGIC \<and> intact sb
     \<and> spill_start f = get_u64 sb 36 \<and> spill_sectors f = get_u64 sb 44
     \<and> audit_start f = get_u64 sb 52 \<and> audit_sectors f = get_u64 sb 60
     \<and> ota_start f = get_u64 sb 68 \<and> ota_sectors f = get_u64 sb 76
     \<and> total_sectors f = get_u64 sb 12"

definition on_disk :: "Fs \<Rightarrow> disk \<Rightarrow> bool" where
  "on_disk f d \<longleftrightarrow> sb_matches f (store d SB_SECTOR)
     \<and> store d (CP_SECTORS ! fs_slot f) = cp_encode (fs_cp f)
     \<and> (\<forall>cp. cp_decode (store d (CP_SECTORS ! (1 - fs_slot f))) = Some cp \<longrightarrow>
           cp_seq cp < cp_seq (fs_cp f))
     \<and> (\<forall>s. length (store d s) = SECTOR_SIZE)
     \<and> (\<forall>s<LOG_START. bad d s = None)"

lemma sb_matches_cong:
  "sb_matches f sb \<Longrightarrow> sb_matches (f\<lparr>fs_cp := cp, fs_slot := i\<rparr>) sb"
  by (simp add: sb_matches_def)

lemma log_limit_update [simp]: "log_limit (f\<lparr>fs_cp := cp, fs_slot := i\<rparr>) = log_limit f"
  by (simp add: log_limit_def)

lemma slot_cases: "i < 2 \<Longrightarrow> (i = 0 \<Longrightarrow> P) \<Longrightarrow> (i = Suc 0 \<Longrightarrow> P) \<Longrightarrow> P"
  by (cases i) auto

section \<open>Mounting\<close>

lemma fs_mount_on_disk:
  assumes inv: "fs_inv f" and disk: "on_disk f d"
  shows "fs_mount d = (Done f, d)"
proof -
  have dec: "cp_decode (cp_encode (fs_cp f)) = Some (fs_cp f)"
    using inv by (simp add: fs_inv_def cp_decode_encode)
  have ok: "bad d 0 = None" "bad d 1 = None" "bad d 2 = None"
    using disk by (simp_all add: on_disk_def LOG_START_def)
  have sb: "sb_matches f (store d 0)" using disk by (simp add: on_disk_def SB_SECTOR_def)
  have "io_fold (\<lambda>(i, sector) best.
           io_bind (read_sector sector) (\<lambda>raw. io_return (adopt i raw best)))
         (List.enumerate 0 CP_SECTORS) None d = (Done (Some (fs_slot f, fs_cp f)), d)"
  proof (rule slot_cases [of "fs_slot f"])
    show "fs_slot f < 2" using inv by (simp add: fs_inv_def)
  next
    assume s: "fs_slot f = 0"
    then have "store d 1 = cp_encode (fs_cp f)"
      and "\<And>cp. cp_decode (store d 2) = Some cp \<Longrightarrow> cp_seq cp < cp_seq (fs_cp f)"
      using disk by (simp_all add: on_disk_def CP_SECTORS_def)
    then show ?thesis
      using ok dec s by (auto simp: CP_SECTORS_def io_bind_def adopt_def split: option.splits)
  next
    assume s: "fs_slot f = Suc 0"
    then have "store d 2 = cp_encode (fs_cp f)"
      and "\<And>cp. cp_decode (store d 1) = Some cp \<Longrightarrow> cp_seq cp < cp_seq (fs_cp f)"
      using disk by (simp_all add: on_disk_def CP_SECTORS_def)
    then show ?thesis
      using ok dec s by (auto simp: CP_SECTORS_def io_bind_def adopt_def split: option.splits)
  qed
  then show ?thesis
    using ok sb by (simp add: fs_mount_def io_bind_def SB_SECTOR_def sb_matches_def)
qed

lemma fs_mount_reboot:
  "fs_inv f \<Longrightarrow> on_disk f d \<Longrightarrow> fs_mount (reboot d) = (Done f, reboot d)"
  by (rule fs_mount_on_disk) (simp_all add: on_disk_def)

section \<open>Committing\<close>

lemma commit_cases:
  assumes "commit f next d = (r, d')"
  obtains (committed) "r = Done (f\<lparr>fs_cp := next, fs_slot := 1 - fs_slot f\<rparr>)"
      "store d' = (store d)(CP_SECTORS ! (1 - fs_slot f) := cp_encode next)" "bad d' = bad d"
    | (stopped) "\<And>g. r \<noteq> Done g" "store d' = store d" "bad d' = bad d"
proof -
  obtain q d1 where w: "write_sector (CP_SECTORS ! (1 - fs_slot f)) (cp_encode next) d = (q, d1)"
    by (cases "write_sector (CP_SECTORS ! (1 - fs_slot f)) (cp_encode next) d") auto
  note * = write_sector_store [OF w] write_sector_frame [OF w]
  show ?thesis
  proof (cases q)
    case (Done u)
    with w * assms show ?thesis
      by (intro committed) (auto simp: commit_def Let_def io_bind_def)
  qed (use w * assms in \<open>auto simp: commit_def Let_def io_bind_def intro: stopped\<close>)
qed

lemma on_disk_commit:
  assumes "fs_inv f" and disk: "on_disk f d" and "cp_wf next"
    and "cp_seq (fs_cp f) < cp_seq next"
    and st: "store d' = (store d)(CP_SECTORS ! (1 - fs_slot f) := cp_encode next)"
    and "bad d' = bad d"
  shows "on_disk (f\<lparr>fs_cp := next, fs_slot := 1 - fs_slot f\<rparr>) d'"
proof -
  have "fs_slot f < 2" using assms(1) by (simp add: fs_inv_def)
  moreover have "cp_decode (cp_encode (fs_cp f)) = Some (fs_cp f)"
    using assms(1) by (simp add: fs_inv_def cp_decode_encode)
  ultimately show ?thesis
    using assms(2-) length_cp_encode [OF assms(3)]
    by (elim slot_cases) (auto simp: on_disk_def CP_SECTORS_def SB_SECTOR_def sb_matches_def)
qed

text \<open>Writes outside the first eight sectors do not touch what \<open>on_disk\<close> speaks of.\<close>

lemma on_disk_frame:
  assumes "on_disk f d" and "fs_slot f < 2" and "bad d' = bad d"
    and "\<And>s. s < LOG_START \<Longrightarrow> store d' s = store d s" and "\<And>s. length (store d' s) = SECTOR_SIZE"
  shows "on_disk f d'"
  using assms by (elim slot_cases) (auto simp: on_disk_def CP_SECTORS_def SB_SECTOR_def LOG_START_def)

section \<open>Reading\<close>

lemma overwrite_overwrite_adjacent:
  assumes "at + length xs + length ys \<le> length b"
  shows "overwrite (overwrite b at xs) (at + length xs) ys = overwrite b at (xs @ ys)"
  using assms by (simp add: overwrite_def ac_simps)

lemma overwrite_nil [simp]: "overwrite b at [] = b"
  by (simp add: overwrite_def)

lemma read_loop_correct:
  assumes "k \<le> n" and "k * SECTOR_SIZE \<le> sz" and "sz \<le> n * SECTOR_SIZE" and "sz \<le> length out"
    and "\<And>s. s < n \<Longrightarrow> bad d (start + of_nat s) = None"
    and "\<And>s. length (store d s) = SECTOR_SIZE"
  shows "read_loop start sz [k..<n] (k * SECTOR_SIZE) out d =
    (Done (overwrite out (k * SECTOR_SIZE) (take (sz - k * SECTOR_SIZE)
       (concat (map (\<lambda>s. store d (start + of_nat s)) [k..<n])))), d)"
  using assms(1,2,4)
proof (induction "n - k" arbitrary: k out)
  case 0
  then show ?case using assms(3) by simp
next
  case (Suc m)
  then have kn: "k < n" by simp
  let ?S = SECTOR_SIZE and ?sec = "store d (start + of_nat k)"
  let ?n = "min (sz - k * ?S) ?S"
  have list: "[k..<n] = k # [Suc k..<n]" using kn by (rule upt_conv_Cons)
  show ?case
  proof (cases "k * ?S + ?n = sz")
    case True
    then have "sz - k * ?S \<le> ?S" by (metis add_diff_cancel_left' min.cobounded2)
    with kn assms(5,6) Suc.prems show ?thesis
      by (simp add: list io_bind_def Let_def min_absorb1)
  next
    case False
    then have n: "?n = ?S" and lt: "Suc k * ?S < sz" using Suc.prems(2) by (auto simp: min_def split: if_splits)
    have len: "length (overwrite out (k * ?S) ?sec) = length out"
      using lt Suc.prems assms(6) by (intro length_overwrite) simp
    have IH: "read_loop start sz [Suc k..<n] (Suc k * ?S) (overwrite out (k * ?S) ?sec) d =
      (Done (overwrite (overwrite out (k * ?S) ?sec) (k * ?S + length ?sec) (take (sz - Suc k * ?S)
         (concat (map (\<lambda>s. store d (start + of_nat s)) [Suc k..<n])))), d)"
      using Suc.hyps(1) [of "Suc k" "overwrite out (k * ?S) ?sec"] Suc.hyps(2) Suc.prems lt kn len
        assms(6) by (simp add: add.commute)
    have fit: "k * ?S + length ?sec + length (take (sz - Suc k * ?S)
        (concat (map (\<lambda>s. store d (start + of_nat s)) [Suc k..<n]))) \<le> length out"
    proof -
      have "length (take (sz - Suc k * ?S) (concat (map (\<lambda>s. store d (start + of_nat s)) [Suc k..<n])))
        \<le> sz - Suc k * ?S" unfolding length_take by (rule min.cobounded2)
      moreover have "k * ?S + length ?sec = Suc k * ?S" using assms(6) by simp
      ultimately show ?thesis using lt Suc.prems(3) by linarith
    qed
    have app: "?sec @ take (sz - Suc k * ?S) (concat (map (\<lambda>s. store d (start + of_nat s)) [Suc k..<n]))
       = take (sz - k * ?S) (concat (map (\<lambda>s. store d (start + of_nat s)) [k..<n]))"
      using lt assms(6) by (simp add: list add.commute)
    have bad: "bad d (start + of_nat k) = None" using kn assms(5) by simp
    have "read_loop start sz [k..<n] (k * ?S) out d =
        read_loop start sz [Suc k..<n] (Suc k * ?S) (overwrite out (k * ?S) ?sec) d"
      unfolding list using bad n False lt assms(6)
      by (simp add: io_bind_def Let_def add.commute)
    also have "\<dots> = (Done (overwrite out (k * ?S) (?sec @ take (sz - Suc k * ?S)
         (concat (map (\<lambda>s. store d (start + of_nat s)) [Suc k..<n])))), d)"
      unfolding IH overwrite_overwrite_adjacent [OF fit] ..
    finally show ?thesis unfolding app .
  qed
qed

lemma length_concat_sectors:
  assumes "\<And>s. length (m s) = k"
  shows "length (concat (map (\<lambda>s. m (g s)) xs)) = length xs * k"
  using assms by (induction xs) auto

lemma length_file_contents:
  assumes "entry_ok head e" and "\<And>s. length (m s) = SECTOR_SIZE"
  shows "length (file_contents m e) = unat (fe_size e)"
  using assms(1) length_concat_sectors [of m SECTOR_SIZE "\<lambda>s. fe_start e + of_nat s"] assms(2)
  by (simp add: file_contents_def entry_ok_def min_def)

lemma fs_find_Some:
  assumes "fs_find f name = Some i" and "cp_wf (fs_cp f)"
  shows "i < cp_count (fs_cp f)" and "name_str (cp_files (fs_cp f) ! i) = name"
    and "cp_files (fs_cp f) ! i \<in> set (fs_files f)" and "fs_files f ! i = cp_files (fs_cp f) ! i"
proof -
  have i: "i < length (fs_files f)" "name_str (fs_files f ! i) = name"
    using position_Some [OF assms(1) [unfolded fs_find_def]] by auto
  then show "i < cp_count (fs_cp f)" by (simp add: fs_files_def)
  from i show e: "fs_files f ! i = cp_files (fs_cp f) ! i" by (simp add: fs_files_def)
  from i e show "name_str (cp_files (fs_cp f) ! i) = name" by simp
  from i e show "cp_files (fs_cp f) ! i \<in> set (fs_files f)" by (metis nth_mem)
qed

text \<open>With distinct names, the directory is a partial function from names to entries.\<close>

lemma fs_entry_iff:
  assumes "cp_wf (fs_cp f)" and "distinct (map name_str (fs_files f))"
  shows "fs_entry f name = Some e \<longleftrightarrow> e \<in> set (fs_files f) \<and> name_str e = name"
proof (cases "fs_find f name")
  case None
  then have "\<forall>x\<in>set (fs_files f). name_str x \<noteq> name"
    by (simp add: fs_find_def position_None_iff)
  with None show ?thesis by (auto simp: fs_entry_def)
next
  case (Some i)
  note i = fs_find_Some [OF Some assms(1)]
  have il: "i < length (fs_files f)" using i(1) assms(1) by (simp add: fs_files_def cp_wf_def)
  have "x = fs_files f ! i" if "x \<in> set (fs_files f)" "name_str x = name" for x
    using that i il assms(2) by (auto simp: in_set_conv_nth distinct_conv_nth)
      (metis length_map nth_map)
  with i Some show ?thesis by (auto simp: fs_entry_def)
qed

lemma fs_read_abs:
  assumes inv: "fs_inv f" and disk: "on_disk f d" and ok: "\<And>s. bad d s = None"
  shows "fs_read f name out d = (case fs_abs f (store d) name of
      None \<Rightarrow> (Fail ''no such file'', d)
    | Some c \<Rightarrow> if length out < length c then (Fail ''buffer too small'', d)
               else (Done (length c, c @ drop (length c) out), d))"
proof (cases "fs_find f name")
  case None
  then show ?thesis by (simp add: fs_read_def fs_abs_def fs_entry_def)
next
  case (Some i)
  have wf: "cp_wf (fs_cp f)" using inv by (simp add: fs_inv_def)
  let ?e = "cp_files (fs_cp f) ! i" and ?c = "file_contents (store d) (cp_files (fs_cp f) ! i)"
  have eok: "entry_ok (cp_log_head (fs_cp f)) ?e"
    using fs_find_Some(3) [OF Some wf] inv by (auto simp: fs_inv_def)
  have len: "length (store d s) = SECTOR_SIZE" for s using disk by (simp add: on_disk_def)
  have lc: "length ?c = unat (fe_size ?e)" using eok len by (rule length_file_contents)
  have "read_loop (fe_start ?e) (unat (fe_size ?e)) [0..<unat (fe_sectors ?e)] 0 out d =
      (Done (overwrite out 0 ?c), d)" if "unat (fe_size ?e) \<le> length out"
    using read_loop_correct [of 0 "unat (fe_sectors ?e)" "unat (fe_size ?e)" out d "fe_start ?e"]
      eok ok len that by (simp add: entry_ok_def file_contents_def)
  then show ?thesis
    using Some lc by (auto simp: fs_read_def Let_def fs_abs_def fs_entry_def io_bind_def overwrite_def)
qed

section \<open>Writing data\<close>

lemma concat_data_sectors:
  "concat (map (data_sector data) [0..<k]) =
     take (k * SECTOR_SIZE) data @ replicate (k * SECTOR_SIZE - length data) 0"
proof (induction k)
  case (Suc k)
  let ?S = SECTOR_SIZE
  have ds: "data_sector data k = take ?S (drop (k * ?S) data) @ replicate (?S - (length data - k * ?S)) 0"
    by (simp add: data_sector_def subslice_def Let_def min_def)
  show ?case
  proof (cases "length data \<le> k * ?S")
    case True
    then show ?thesis
      using Suc by (simp add: ds replicate_add [symmetric] add.commute)
  next
    case False
    then have "take (k * ?S) data @ take ?S (drop (k * ?S) data) = take (Suc k * ?S) data"
      by (simp add: take_add [symmetric] add.commute)
    with False Suc show ?thesis by (simp add: ds)
  qed
qed simp

lemma length_data_sector [simp]: "length (data_sector data s) = SECTOR_SIZE"
  by (simp add: data_sector_def Let_def)

definition log_extent :: "u64 \<Rightarrow> nat \<Rightarrow> u64 set" where
  "log_extent start n = {s. unat start \<le> unat s \<and> unat s < unat start + n}"

lemma image_log_extent:
  assumes "unat (start :: u64) + n < 2 ^ 64"
  shows "(\<lambda>i. start + of_nat i) ` {0..<n} \<subseteq> log_extent start n"
  using assms by (auto simp: log_extent_def unat_add_of_nat)

lemma write_data_effect:
  assumes w: "write_data start data sectors c d = (r, d')"
    and fit: "unat start + unat sectors < 2 ^ 64"
    and len: "\<And>s. length (store d s) = SECTOR_SIZE"
  shows "bad d' = bad d"
    and "s \<notin> log_extent start (unat sectors) \<Longrightarrow> store d' s = store d s"
    and "length (store d' s) = SECTOR_SIZE"
    and "r = Done () \<Longrightarrow> i < unat sectors \<Longrightarrow> store d' (start + of_nat i) = data_sector data i"
proof -
  let ?f = "\<lambda>s. if c = Some (of_nat s) then io_off
                else write_sector (start + of_nat s) (data_sector data s)"
  have w': "io_each ?f [0..<unat sectors] d = (r, d')" using w by (simp add: write_data_def)
  have body: "?f s d = write_sector (start + of_nat s) (data_sector data s) d
      \<or> (\<exists>q. q \<noteq> Done () \<and> ?f s d = (q, d))" for s d by auto
  show "bad d' = bad d"
    by (rule io_each_keeps [OF w', where P = "\<lambda>x. bad x = bad d"])
      (auto split: if_splits dest: write_sector_frame)
  show len': "length (store d' s) = SECTOR_SIZE" for s
    by (rule io_each_keeps [OF w', where P = "\<lambda>x. \<forall>s. length (store x s) = SECTOR_SIZE", THEN spec])
      (auto simp: len split: if_splits dest!: write_sector_store)
  show "store d' s = store d s" if "s \<notin> log_extent start (unat sectors)"
    using image_log_extent [OF fit] that
    by (intro dev.each_write_other [OF w' body]) auto
  assume "r = Done ()" "i < unat sectors"
  moreover have "inj_on (\<lambda>i. start + of_nat i) {0..<unat sectors}"
    using fit by (intro inj_on_add_of_nat) simp
  ultimately show "store d' (start + of_nat i) = data_sector data i"
    using dev.each_write_done [OF w' [unfolded \<open>r = Done ()\<close>] body, of i] by auto
qed

text \<open>Extents below the log head do not meet the sectors a write fills.\<close>

lemma file_contents_frame:
  assumes "entry_ok head e" and "\<And>s. unat s < unat head \<Longrightarrow> LOG_START \<le> s \<Longrightarrow> m' s = m s"
  shows "file_contents m' e = file_contents m e"
proof -
  have "m' (fe_start e + of_nat s) = m (fe_start e + of_nat s)" if "s < unat (fe_sectors e)" for s
  proof -
    have "unat (fe_start e) + s < unat head" using assms(1) that by (simp add: entry_ok_def)
    moreover from this have "unat (fe_start e + of_nat s) = unat (fe_start e) + s"
      using unsigned_less [of head, where ?'a = nat] by (intro unat_add_of_nat) simp
    ultimately show ?thesis
      using assms by (auto simp: entry_ok_def word_le_nat_alt)
  qed
  then have "map (\<lambda>s. m' (fe_start e + of_nat s)) [0..<unat (fe_sectors e)] =
      map (\<lambda>s. m (fe_start e + of_nat s)) [0..<unat (fe_sectors e)]" by simp
  then show ?thesis by (simp only: file_contents_def)
qed

lemma fs_entry_ok:
  assumes "fs_inv f" and "fs_entry f name = Some e"
  shows "entry_ok (cp_log_head (fs_cp f)) e"
  using assms fs_entry_iff [of f name e] by (auto simp: fs_inv_def)

lemma fs_abs_frame:
  assumes "fs_inv f"
    and "\<And>s. unat s < unat (cp_log_head (fs_cp f)) \<Longrightarrow> LOG_START \<le> s \<Longrightarrow> m' s = m s"
  shows "fs_abs f m' = fs_abs f m"
proof
  fix name
  show "fs_abs f m' name = fs_abs f m name"
    using file_contents_frame [OF fs_entry_ok [OF assms(1), of name], of _ m' m] assms(2)
    by (cases "fs_entry f name") (auto simp: fs_abs_def)
qed

section \<open>Updating the directory\<close>

lemma name_str_new_entry:
  assumes "length name \<le> MAX_NAME" and "0 \<notin> set name" and "utf8_valid name"
  shows "name_str (new_entry name data start sectors) = name"
proof -
  have "overwrite (replicate MAX_NAME 0) 0 name = name @ replicate (MAX_NAME - length name) 0"
    by (simp add: overwrite_def)
  then show ?thesis
    using assms by (simp add: name_str_def new_entry_def FileEntry_empty_def until_nul_padded
        str_or_invalid_def)
qed

lemma length_fe_name_new_entry [simp]:
  "length name \<le> MAX_NAME \<Longrightarrow> length (fe_name (new_entry name data start sectors)) = MAX_NAME"
  by (simp add: new_entry_def length_overwrite)

lemma cp_wf_replace:
  assumes "cp_wf cp" and "i < cp_count cp" and "length (fe_name e) = MAX_NAME"
  shows "cp_wf (cp\<lparr>cp_seq := q, cp_log_head := h, cp_files := (cp_files cp)[i := e]\<rparr>)"
  using assms by (auto simp: cp_wf_def nth_list_update dest!: set_update_subset_insert [THEN subsetD])

lemma cp_wf_append:
  assumes "cp_wf cp" and "cp_count cp \<noteq> MAX_FILES" and "length (fe_name e) = MAX_NAME"
  shows "cp_wf (cp\<lparr>cp_seq := q, cp_log_head := h, cp_count := cp_count cp + 1,
    cp_files := (cp_files cp)[cp_count cp := e]\<rparr>)"
  using assms by (auto simp: cp_wf_def nth_list_update dest!: set_update_subset_insert [THEN subsetD])

lemma fold_shift_down:
  "c < length fs \<Longrightarrow> i \<le> c \<Longrightarrow> fold (\<lambda>j fs. fs[j := fs ! (j + 1)]) [i..<c] fs =
     take i fs @ drop (Suc i) (take (Suc c) fs) @ drop c fs"
proof (induction c)
  case 0
  then show ?case by simp
next
  case (Suc c)
  show ?case
  proof (cases "i = Suc c")
    case True
    then show ?thesis by simp
  next
    case False
    let ?ys = "take i fs @ drop (Suc i) (take (Suc c) fs) @ drop c fs"
    have i: "i \<le> c" using False Suc.prems by simp
    have len: "length (take i fs @ drop (Suc i) (take (Suc c) fs)) = c"
      using i Suc.prems by simp
    have dc: "drop c fs = fs ! c # drop (Suc c) fs"
      using Suc.prems by (simp add: Cons_nth_drop_Suc)
    have "?ys[c := ?ys ! (c + 1)] = (take i fs @ drop (Suc i) (take (Suc c) fs)) @
        (drop c fs)[0 := drop c fs ! 1]"
      unfolding append_assoc [symmetric] list_update_append nth_append len by simp
    also have "(drop c fs)[0 := drop c fs ! 1] = fs ! Suc c # drop (Suc c) fs"
      using Suc.prems unfolding dc by simp
    also have "(take i fs @ drop (Suc i) (take (Suc c) fs)) @ fs ! Suc c # drop (Suc c) fs =
        take i fs @ drop (Suc i) (take (Suc (Suc c)) fs) @ drop (Suc c) fs"
      using i Suc.prems by (simp add: take_Suc_conv_app_nth [of "Suc c"])
    finally show ?thesis using Suc i by simp
  qed
qed

lemma remove_at_eq:
  assumes "i < c" and "c \<le> length fs"
  shows "remove_at fs i c = take i fs @ drop (Suc i) (take c fs) @ FileEntry_empty # drop c fs"
proof -
  obtain k where c: "c = Suc k" using assms(1) by (cases c) auto
  have "length (take i fs @ drop (Suc i) (take c fs)) = k" using assms c by simp
  moreover have "drop k fs = fs ! k # drop c fs" using assms c by (simp add: Cons_nth_drop_Suc)
  ultimately show ?thesis
    using assms c fold_shift_down [of k fs i]
    by (simp add: remove_at_def append_assoc [symmetric] list_update_append del: append_assoc)
qed

lemma cp_wf_remove:
  assumes "cp_wf cp" and "i < cp_count cp"
  shows "cp_wf (cp\<lparr>cp_seq := q, cp_count := cp_count cp - 1,
    cp_files := remove_at (cp_files cp) i (cp_count cp)\<rparr>)" (is ?wf)
    and "take (cp_count cp - 1) (remove_at (cp_files cp) i (cp_count cp)) =
      take i (cp_files cp) @ drop (Suc i) (take (cp_count cp) (cp_files cp))" (is ?take)
proof -
  let ?fs = "cp_files cp" and ?c = "cp_count cp"
  have len: "length ?fs = MAX_FILES" "?c \<le> MAX_FILES"
    and names: "\<And>e. e \<in> set ?fs \<Longrightarrow> length (fe_name e) = MAX_NAME"
    and rest: "\<And>i. i < MAX_FILES \<Longrightarrow> ?c \<le> i \<Longrightarrow> ?fs ! i = FileEntry_empty"
    using assms(1) by (auto simp: cp_wf_def)
  have pre: "length (take i ?fs @ drop (Suc i) (take ?c ?fs)) = ?c - 1"
    using len assms(2) by simp
  have eq: "remove_at ?fs i ?c = (take i ?fs @ drop (Suc i) (take ?c ?fs)) @ FileEntry_empty # drop ?c ?fs"
    using len assms(2) by (simp add: remove_at_eq)
  show ?take unfolding eq by (rule take_length_append [OF pre])
  have "set (remove_at ?fs i ?c) \<subseteq> insert FileEntry_empty (set ?fs)"
    unfolding eq using set_take_subset [of i ?fs] set_drop_subset [of ?c ?fs]
      set_drop_subset [of "Suc i" "take ?c ?fs"] set_take_subset [of ?c ?fs] by auto
  moreover have "remove_at ?fs i ?c ! j = FileEntry_empty" if "j < MAX_FILES" "?c - 1 \<le> j" for j
  proof -
    have "remove_at ?fs i ?c ! j = (FileEntry_empty # drop ?c ?fs) ! (j - (?c - 1))"
      unfolding eq nth_append pre using that by simp
    also have "\<dots> = FileEntry_empty"
      using that len rest assms(2) by (cases "j - (?c - 1)") (simp_all add: nth_Cons')
    finally show ?thesis .
  qed
  moreover have "length (remove_at ?fs i ?c) = MAX_FILES"
    unfolding eq length_append pre using len assms(2) by simp
  ultimately show ?wf using names len assms(2) by (auto simp: cp_wf_def)
qed

text \<open>What a change of the list of entries means for lookups.\<close>

lemma fs_entry_update:
  assumes "cp_wf (fs_cp f)" "distinct (map name_str (fs_files f))"
    and "cp_wf (fs_cp f')" "distinct (map name_str (fs_files f'))"
    and "set (fs_files f') = set_option oe \<union> {x \<in> set (fs_files f). name_str x \<noteq> name}"
    and "\<And>e. oe = Some e \<Longrightarrow> name_str e = name"
  shows "fs_entry f' = (fs_entry f)(name := oe)"
proof
  fix n
  have "fs_entry f' n = Some e \<longleftrightarrow> ((fs_entry f)(name := oe)) n = Some e" for e
    using fs_entry_iff [OF assms(1,2), of n e] fs_entry_iff [OF assms(3,4), of n e] assms(5,6)
    by auto
  then show "fs_entry f' n = ((fs_entry f)(name := oe)) n"
    by (metis not_Some_eq)
qed

lemma remove_key:
  assumes "distinct (map key xs)" and "i < length xs"
  shows "distinct (map key (take i xs @ drop (Suc i) xs))"
    and "set (take i xs @ drop (Suc i) xs) = {x \<in> set xs. key x \<noteq> key (xs ! i)}"
proof -
  have *: "distinct (map key (a @ b)) \<and> set (a @ b) = {x \<in> set (a @ y # b). key x \<noteq> key y}"
    if "distinct (map key (a @ y # b))" for a y b
    using that by auto (metis image_eqI)+
  have xs: "take i xs @ xs ! i # drop (Suc i) xs = xs"
    using assms(2) by (rule id_take_nth_drop [symmetric])
  show "distinct (map key (take i xs @ drop (Suc i) xs))"
    and "set (take i xs @ drop (Suc i) xs) = {x \<in> set xs. key x \<noteq> key (xs ! i)}"
    using * [of "take i xs" "xs ! i" "drop (Suc i) xs", unfolded xs, OF assms(1)] by blast+
qed

lemma replace_key:
  assumes "distinct (map key xs)" and "i < length xs" and "key e = key (xs ! i)"
  shows "distinct (map key (xs[i := e]))"
    and "set (xs[i := e]) = insert e {x \<in> set xs. key x \<noteq> key e}"
proof -
  show "distinct (map key (xs[i := e]))"
    using assms list_update_id [of "map key xs" i] by (simp add: map_update)
  have "set (xs[i := e]) = insert e (set (take i xs @ drop (Suc i) xs))"
    using assms(2) by (simp add: upd_conv_take_nth_drop)
  then show "set (xs[i := e]) = insert e {x \<in> set xs. key x \<noteq> key e}"
    unfolding remove_key(2) [OF assms(1,2)] by (simp add: assms(3))
qed

section \<open>Atomic updates\<close>

text \<open>
  \<open>atomic f d r d' upd\<close>: an operation that started from \<open>f\<close> on \<open>d\<close> and ended with \<open>r\<close> on \<open>d'\<close> left
  a consistent file system on the disk, which is the updated one when the operation succeeded and
  exactly the old one otherwise.
\<close>

definition atomic :: "Fs \<Rightarrow> disk \<Rightarrow> Fs outcome \<Rightarrow> disk \<Rightarrow>
    ((bytes \<Rightarrow> bytes option) \<Rightarrow> bytes \<Rightarrow> bytes option) \<Rightarrow> bool" where
  "atomic f d r d' upd \<longleftrightarrow> bad d' = bad d \<and> (case r of
      Done g \<Rightarrow> fs_inv g \<and> on_disk g d' \<and> fs_abs g (store d') = upd (fs_abs f (store d))
    | _ \<Rightarrow> on_disk f d' \<and> fs_abs f (store d') = fs_abs f (store d))"

lemma atomic_unchanged:
  "on_disk f d' \<Longrightarrow> fs_abs f (store d') = fs_abs f (store d) \<Longrightarrow> bad d' = bad d \<Longrightarrow>
   (\<And>g. r \<noteq> Done g) \<Longrightarrow> atomic f d r d' upd"
  by (cases r) (auto simp: atomic_def)

lemma commit_atomic:
  assumes "commit f next d1 = (r, d')" and "fs_inv f" and "on_disk f d1"
    and "cp_seq (fs_cp f) < cp_seq next"
    and inv: "fs_inv (f\<lparr>fs_cp := next, fs_slot := 1 - fs_slot f\<rparr>)"
    and "fs_entry (f\<lparr>fs_cp := next, fs_slot := 1 - fs_slot f\<rparr>) = (fs_entry f)(name := oe)"
    and "fs_abs f (store d1) = fs_abs f (store d)" and "bad d1 = bad d"
    and oe: "\<And>e. oe = Some e \<Longrightarrow> entry_ok (cp_log_head next) e"
  shows "atomic f d r d' (\<lambda>A. A(name := map_option (file_contents (store d1)) oe))"
  using assms(1)
proof (cases rule: commit_cases)
  case committed
  let ?g = "f\<lparr>fs_cp := next, fs_slot := 1 - fs_slot f\<rparr>"
  have slot: "fs_slot f < 2" using assms(2) by (simp add: fs_inv_def)
  have same: "store d' s = store d1 s" if "LOG_START \<le> s" for s
    using that slot committed(2)
    by (elim slot_cases) (auto simp: CP_SECTORS_def LOG_START_def word_le_nat_alt)
  have "on_disk ?g d'"
    using assms(2-4) inv committed by (intro on_disk_commit) (auto simp: fs_inv_def)
  moreover have "fs_abs ?g (store d') = (fs_abs f (store d))(name := map_option (file_contents (store d1)) oe)"
  proof -
    have "fs_abs ?g (store d') = fs_abs ?g (store d1)"
      using same by (intro fs_abs_frame inv)
    also have "\<dots> = (fs_abs f (store d1))(name := map_option (file_contents (store d1)) oe)"
      using assms(6) by (auto simp: fs_abs_def fun_eq_iff)
    finally show ?thesis by (simp add: assms(7))
  qed
  ultimately show ?thesis using inv committed assms(8) by (simp add: atomic_def)
next
  case stopped
  then show ?thesis
    using assms(3,7,8) by (intro atomic_unchanged) (auto simp: on_disk_def)
qed

lemma entry_ok_mono: "entry_ok h e \<Longrightarrow> h \<le> h' \<Longrightarrow> entry_ok h' e"
  by (auto simp: entry_ok_def word_le_nat_alt)

text \<open>The three ways a directory changes, as facts about the file system that results.\<close>

lemma fs_replace:
  assumes inv: "fs_inv f" and i: "fs_find f name = Some i" and e: "name_str e = name" "entry_ok h e"
    and h: "cp_log_head (fs_cp f) \<le> h" "h \<le> log_limit f"
    and g: "g = f\<lparr>fs_cp := (fs_cp f)\<lparr>cp_seq := q, cp_log_head := h,
                    cp_files := (cp_files (fs_cp f))[i := e]\<rparr>, fs_slot := 1 - fs_slot f\<rparr>"
  shows "fs_inv g" and "fs_entry g = (fs_entry f)(name := Some e)"
proof -
  have wf: "cp_wf (fs_cp f)" and dist: "distinct (map name_str (fs_files f))"
    using inv by (auto simp: fs_inv_def)
  note I = fs_find_Some [OF i wf]
  have il: "i < length (fs_files f)" using I(1) wf by (simp add: fs_files_def cp_wf_def)
  have key: "name_str e = name_str (fs_files f ! i)" using I e by simp
  have files: "fs_files g = (fs_files f)[i := e]"
    by (simp add: g fs_files_def take_update_swap)
  have wf': "cp_wf (fs_cp g)"
    using cp_wf_replace [OF wf I(1)] e by (simp add: g entry_ok_def)
  note R = replace_key [OF dist il key]
  have ok: "\<forall>x\<in>set (fs_files g). entry_ok h x"
    using inv e h by (auto simp: files R(2) fs_inv_def intro: entry_ok_mono)
  show "fs_inv g"
    using inv wf' h R(1) ok by (auto simp: fs_inv_def files) (auto simp: g)
  show "fs_entry g = (fs_entry f)(name := Some e)"
    using wf dist wf' R e by (intro fs_entry_update) (auto simp: files)
qed

lemma fs_append:
  assumes inv: "fs_inv f" and i: "fs_find f name = None" and e: "name_str e = name" "entry_ok h e"
    and full: "cp_count (fs_cp f) \<noteq> MAX_FILES"
    and h: "cp_log_head (fs_cp f) \<le> h" "h \<le> log_limit f"
    and g: "g = f\<lparr>fs_cp := (fs_cp f)\<lparr>cp_seq := q, cp_log_head := h, cp_count := cp_count (fs_cp f) + 1,
              cp_files := (cp_files (fs_cp f))[cp_count (fs_cp f) := e]\<rparr>, fs_slot := 1 - fs_slot f\<rparr>"
  shows "fs_inv g" and "fs_entry g = (fs_entry f)(name := Some e)"
proof -
  have wf: "cp_wf (fs_cp f)" and dist: "distinct (map name_str (fs_files f))"
    using inv by (auto simp: fs_inv_def)
  have fresh: "\<forall>x\<in>set (fs_files f). name_str x \<noteq> name"
    using i by (simp add: fs_find_def position_None_iff)
  have lt: "cp_count (fs_cp f) < length (cp_files (fs_cp f))"
    using wf full by (simp add: cp_wf_def)
  have files: "fs_files g = fs_files f @ [e]"
    using lt by (simp add: g fs_files_def take_Suc_conv_app_nth take_update_swap list_update_append)
  have wf': "cp_wf (fs_cp g)"
    using cp_wf_append [OF wf full] e by (simp add: g entry_ok_def)
  have R: "distinct (map name_str (fs_files g))" using dist fresh e by (auto simp: files)
  have ok: "\<forall>x\<in>set (fs_files g). entry_ok h x"
    using inv e h by (auto simp: files fs_inv_def intro: entry_ok_mono)
  show "fs_inv g"
    using inv wf' h R ok by (auto simp: fs_inv_def) (auto simp: g)
  show "fs_entry g = (fs_entry f)(name := Some e)"
    using wf dist wf' R e fresh by (intro fs_entry_update) (auto simp: files)
qed

lemma fs_remove:
  assumes inv: "fs_inv f" and i: "fs_find f name = Some i"
    and g: "g = f\<lparr>fs_cp := (fs_cp f)\<lparr>cp_seq := q, cp_count := cp_count (fs_cp f) - 1,
              cp_files := remove_at (cp_files (fs_cp f)) i (cp_count (fs_cp f))\<rparr>, fs_slot := 1 - fs_slot f\<rparr>"
  shows "fs_inv g" and "fs_entry g = (fs_entry f)(name := None)"
proof -
  have wf: "cp_wf (fs_cp f)" and dist: "distinct (map name_str (fs_files f))"
    using inv by (auto simp: fs_inv_def)
  note I = fs_find_Some [OF i wf]
  have il: "i < length (fs_files f)" using I(1) wf by (simp add: fs_files_def cp_wf_def)
  note C = cp_wf_remove [OF wf I(1)]
  have files: "fs_files g = take i (fs_files f) @ drop (Suc i) (fs_files f)"
    using I(1) C(2) by (simp add: g fs_files_def min_absorb1)
  note R = remove_key [OF dist il]
  have nm: "name_str (fs_files f ! i) = name" using I by simp
  have ok: "\<forall>x\<in>set (fs_files g). entry_ok (cp_log_head (fs_cp f)) x"
    using inv unfolding files R(2) by (auto simp: fs_inv_def)
  have wf': "cp_wf (fs_cp g)" using C(1) by (simp add: g)
  show "fs_inv g"
    using inv wf' R(1) ok by (auto simp: fs_inv_def files) (auto simp: g)
  show "fs_entry g = (fs_entry f)(name := None)"
    using wf dist wf' R(1) by (intro fs_entry_update) (auto simp: files R(2) nm simp del: set_append map_append)
qed

section \<open>The operations are atomic\<close>

lemma fs_write_extent:
  assumes "fs_inv f" and "\<not> cp_log_head (fs_cp f) + ucast (sectors :: u32) > log_limit f"
  shows "unat (cp_log_head (fs_cp f) + ucast sectors) = unat (cp_log_head (fs_cp f)) + unat sectors"
    and "unat (cp_log_head (fs_cp f)) + unat sectors < 2 ^ 64"
proof -
  have "unat (cp_log_head (fs_cp f)) < 2 ^ 63"
    using assms(1) by (auto simp: fs_inv_def word_le_nat_alt)
  moreover have "unat sectors < 2 ^ 32" using unsigned_less [of sectors, where ?'a = nat] by simp
  ultimately show lt: "unat (cp_log_head (fs_cp f)) + unat sectors < 2 ^ 64" by simp
  have u: "unat (ucast sectors :: u64) = unat sectors"
    using unsigned_less [of sectors, where ?'a = nat]
    by (simp add: unsigned_ucast_eq take_bit_nat_eq_self_iff)
  show "unat (cp_log_head (fs_cp f) + ucast sectors) = unat (cp_log_head (fs_cp f)) + unat sectors"
    using lt by (simp add: unat_word_ariths u)
qed

lemma file_contents_new_entry:
  assumes "length data < 2 ^ 32" and sec: "sectors = of_nat (div_ceil (length data) SECTOR_SIZE)"
    and "\<And>i. i < unat sectors \<Longrightarrow> m (start + of_nat i) = data_sector data i"
  shows "file_contents m (new_entry name data start sectors) = data"
    and "unat (fe_size (new_entry name data start sectors)) \<le> unat sectors * SECTOR_SIZE"
proof -
  have n: "unat sectors = div_ceil (length data) SECTOR_SIZE"
    using assms(1) by (simp add: sec unat_of_nat div_ceil_def SECTOR_SIZE_def)
  have l: "length data \<le> unat sectors * SECTOR_SIZE"
    unfolding n by (rule div_ceil_bounds) (simp add: SECTOR_SIZE_def)
  have sz: "unat (of_nat (length data) :: u32) = length data"
    using assms(1) by (simp add: unat_of_nat)
  show "unat (fe_size (new_entry name data start sectors)) \<le> unat sectors * SECTOR_SIZE"
    using l by (simp add: new_entry_def sz)
  have eq: "map (\<lambda>s. m (start + of_nat s)) [0..<unat sectors] = map (data_sector data) [0..<unat sectors]"
    using assms(3) by simp
  have "file_contents m (new_entry name data start sectors) =
      take (length data) (concat (map (data_sector data) [0..<unat sectors]))"
    unfolding file_contents_def new_entry_def by (simp add: sz eq del: map_eq_conv)
  also have "\<dots> = data" unfolding concat_data_sectors using l by simp
  finally show "file_contents m (new_entry name data start sectors) = data" .
qed

text \<open>
  \<open>write\<close> and \<open>set_entry\<close> end in the same way: the entry replaces the one of that name, or is
  appended, or the directory is full.
\<close>

definition dir_put :: "Fs \<Rightarrow> u64 \<Rightarrow> bytes \<Rightarrow> FileEntry \<Rightarrow> (disk, Fs) io" where
  "dir_put f h name e = (let next = (fs_cp f)\<lparr>cp_seq := cp_seq (fs_cp f) + 1, cp_log_head := h\<rparr> in
     case fs_find f name of
       Some i \<Rightarrow> commit f (next\<lparr>cp_files := (cp_files next)[i := e]\<rparr>)
     | None \<Rightarrow>
         if cp_count next = MAX_FILES then io_fail ''directory is full''
         else commit f (next\<lparr>cp_count := cp_count next + 1,
                             cp_files := (cp_files next)[cp_count next := e]\<rparr>))"

lemma seq_grows: "unat (q :: u64) + 1 < 2 ^ 64 \<Longrightarrow> q < q + 1"
  using unat_add_of_nat [of q 1] by (simp add: word_less_nat_alt)

lemma dir_put_atomic:
  assumes inv: "fs_inv f" and D1: "on_disk f d1" and seq: "unat (cp_seq (fs_cp f)) + 1 < 2 ^ 64"
    and e: "name_str e = name" "entry_ok h e"
    and h: "cp_log_head (fs_cp f) \<le> h" "h \<le> log_limit f"
    and A1: "fs_abs f (store d1) = fs_abs f (store d)" and B1: "bad d1 = bad d"
    and p: "dir_put f h name e d1 = (r, d')"
  shows "atomic f d r d' (\<lambda>A. A(name \<mapsto> file_contents (store d1) e))"
proof (cases "fs_find f name")
  case (Some i)
  then have "commit f ((fs_cp f)\<lparr>cp_seq := cp_seq (fs_cp f) + 1, cp_log_head := h,
      cp_files := (cp_files (fs_cp f))[i := e]\<rparr>) d1 = (r, d')"
    using p by (simp add: dir_put_def)
  from commit_atomic [OF this inv D1 _ _ _ A1 B1, of name "Some e"]
    fs_replace [OF inv Some e h refl] e(2) seq_grows [OF seq]
  show ?thesis by simp
next
  case None
  show ?thesis
  proof (cases "cp_count (fs_cp f) = MAX_FILES")
    case True
    with None p D1 A1 B1 show ?thesis by (auto simp: dir_put_def intro!: atomic_unchanged)
  next
    case False
    with None have "commit f ((fs_cp f)\<lparr>cp_seq := cp_seq (fs_cp f) + 1, cp_log_head := h,
        cp_count := cp_count (fs_cp f) + 1,
        cp_files := (cp_files (fs_cp f))[cp_count (fs_cp f) := e]\<rparr>) d1 = (r, d')"
      using p by (simp add: dir_put_def)
    from commit_atomic [OF this inv D1 _ _ _ A1 B1, of name "Some e"]
      fs_append [OF inv None e False h refl] e(2) seq_grows [OF seq]
    show ?thesis by simp
  qed
qed

lemma fs_write_unfold:
  fixes name data f
  defines "sectors \<equiv> of_nat (div_ceil (length data) SECTOR_SIZE) :: u32"
  defines "start \<equiv> cp_log_head (fs_cp f)"
  shows "fs_write f name data crash_after =
    (if length name > MAX_NAME then io_fail ''name too long''
     else if start + ucast sectors > log_limit f then io_fail ''log is full''
     else io_bind (write_data start data sectors crash_after) (\<lambda>_.
       if crash_after = Some sectors then io_off
       else dir_put f (start + ucast sectors) name (new_entry name data start sectors)))"
  by (simp add: fs_write_def dir_put_def sectors_def start_def Let_def)

text \<open>The data phase of a write that fits: nothing below the log head changes.\<close>

lemma fs_write_data_phase:
  fixes f name data
  defines "sectors \<equiv> of_nat (div_ceil (length data) SECTOR_SIZE) :: u32"
  defines "start \<equiv> cp_log_head (fs_cp f)"
  defines "h \<equiv> start + ucast sectors" and "e \<equiv> new_entry name data start sectors"
  assumes inv: "fs_inv f" and disk: "on_disk f d" and "length data < 2 ^ 32"
    and "length name \<le> MAX_NAME" and "\<not> h > log_limit f"
    and wd: "write_data start data sectors c d = (r1, d1)"
  shows "on_disk f d1" and "bad d1 = bad d"
    and "\<And>s. unat s < unat start \<Longrightarrow> store d1 s = store d s"
    and "fs_abs f (store d1) = fs_abs f (store d)" and "start \<le> h" "h \<le> log_limit f"
    and "r1 = Done () \<Longrightarrow> file_contents (store d1) e = data \<and> entry_ok h e"
proof -
  note E = fs_write_extent [OF inv, of sectors, folded start_def h_def, OF assms(9)]
  show "start \<le> h" "h \<le> log_limit f" using E assms(9) by (auto simp: word_le_nat_alt not_less)
  have lens: "\<And>s. length (store d s) = SECTOR_SIZE" using disk by (auto simp: on_disk_def)
  note W = write_data_effect [OF wd E(2) lens]
  show "bad d1 = bad d" by (rule W(1))
  have low: "unat LOG_START \<le> unat start"
    using inv by (auto simp: fs_inv_def start_def word_le_nat_alt)
  show below: "store d1 s = store d s" if "unat s < unat start" for s
    using that by (intro W(2)) (auto simp: log_extent_def)
  show "on_disk f d1"
    using low below W(1,3) inv disk
    by (intro on_disk_frame [of f d d1]) (auto simp: word_less_nat_alt fs_inv_def)
  show "fs_abs f (store d1) = fs_abs f (store d)"
    using below by (intro fs_abs_frame inv) (simp add: start_def)
  assume "r1 = Done ()"
  with file_contents_new_entry [OF assms(7) sectors_def [THEN meta_eq_to_obj_eq], of "store d1" start name] W(4)
  have FC: "file_contents (store d1) e = data" "unat (fe_size e) \<le> unat sectors * SECTOR_SIZE"
    by (auto simp: e_def)
  have "entry_ok h e"
    using FC(2) E low assms(8) by (simp add: entry_ok_def e_def) (simp add: new_entry_def)
  with FC(1) show "file_contents (store d1) e = data \<and> entry_ok h e" by simp
qed

lemma fs_write_atomic:
  assumes inv: "fs_inv f" and disk: "on_disk f d" and seq: "unat (cp_seq (fs_cp f)) + 1 < 2 ^ 64"
    and name: "0 \<notin> set name" "utf8_valid name" and len: "length data < 2 ^ 32"
    and w: "fs_write f name data crash_after d = (r, d')"
  shows "atomic f d r d' (\<lambda>A. A(name \<mapsto> data))"
proof -
  define sectors :: u32 where "sectors = of_nat (div_ceil (length data) SECTOR_SIZE)"
  define start where "start = cp_log_head (fs_cp f)"
  define h where "h = start + ucast sectors"
  define e where "e = new_entry name data start sectors"
  note U = w [unfolded fs_write_unfold, folded sectors_def start_def, folded h_def e_def]
  show ?thesis
  proof (cases "length name > MAX_NAME \<or> h > log_limit f")
    case True
    with U disk show ?thesis by (auto simp: atomic_def split: if_splits)
  next
    case False
    obtain r1 d1 where wd: "write_data start data sectors crash_after d = (r1, d1)"
      by (cases "write_data start data sectors crash_after d") auto
    note P = fs_write_data_phase [OF inv disk len, of name crash_after r1 d1,
        folded sectors_def start_def, folded h_def e_def, OF _ _ wd]
    have D: "on_disk f d1" "bad d1 = bad d" "fs_abs f (store d1) = fs_abs f (store d)"
      "start \<le> h" "h \<le> log_limit f"
      using P False by auto
    show ?thesis
    proof (cases "r1 = Done () \<and> crash_after \<noteq> Some sectors")
      case stop: False
      then have "d' = d1 \<and> (\<forall>g. r \<noteq> Done g)"
        using U wd False by (auto simp: io_bind_def split: outcome.splits if_splits)
      then show ?thesis using D by (intro atomic_unchanged) auto
    next
      case True
      then have put: "dir_put f h name e d1 = (r, d')" "file_contents (store d1) e = data" "entry_ok h e"
        using U wd False P(7) by (auto simp: io_bind_def)
      have "name_str e = name" using name False by (simp add: e_def name_str_new_entry)
      from dir_put_atomic [OF inv D(1) seq this put(3) D(4,5) [unfolded start_def] D(3,2) put(1)] put(2)
      show ?thesis by simp
    qed
  qed
qed

lemma set_entry_atomic:
  assumes inv: "fs_inv f" and disk: "on_disk f d" and seq: "unat (cp_seq (fs_cp f)) + 1 < 2 ^ 64"
    and e: "\<And>x. entry = Some x \<Longrightarrow> name_str x = name \<and> entry_ok (cp_log_head (fs_cp f)) x"
    and s: "set_entry f name entry d = (r, d')"
  shows "atomic f d r d' (\<lambda>A. A(name := map_option (file_contents (store d)) entry))"
proof (cases entry)
  case (Some x)
  have same: "(fs_cp f)\<lparr>cp_seq := q, cp_log_head := cp_log_head (fs_cp f)\<rparr> = (fs_cp f)\<lparr>cp_seq := q\<rparr>" for q
    by simp
  have "dir_put f (cp_log_head (fs_cp f)) name x d = (r, d')"
    using s Some by (cases "fs_find f name") (simp_all add: set_entry_def dir_put_def same Let_def split: if_splits)
  from dir_put_atomic [OF inv disk seq _ _ _ _ refl refl this] e [OF Some] inv
  show ?thesis by (simp add: Some fs_inv_def)
next
  case None
  show ?thesis
  proof (cases "fs_find f name")
    case (Some i)
    with None s have "commit f ((fs_cp f)\<lparr>cp_seq := cp_seq (fs_cp f) + 1,
        cp_count := cp_count (fs_cp f) - 1,
        cp_files := remove_at (cp_files (fs_cp f)) i (cp_count (fs_cp f))\<rparr>) d = (r, d')"
      by (simp add: set_entry_def Let_def)
    from commit_atomic [OF this inv disk _ _ _ refl refl, of name None]
      fs_remove [OF inv Some refl] seq_grows [OF seq]
    show ?thesis by (simp add: None)
  next
    case absent: None
    then have "fs_abs f (store d) name = None" by (simp add: fs_abs_def fs_entry_def)
    with s None absent inv disk show ?thesis
      by (auto simp: set_entry_def atomic_def fun_upd_idem)
  qed
qed

section \<open>A fresh file system\<close>

definition formatted :: "u64 \<Rightarrow> Fs" where
  "formatted tot = (let spill = tot - SPILL_SECTORS; audit = spill - AUDIT_SECTORS;
       ota = audit - OTA_SECTORS in
     \<lparr>fs_cp = Checkpoint_new, spill_start = spill, spill_sectors = SPILL_SECTORS,
      audit_start = audit, audit_sectors = AUDIT_SECTORS, ota_start = ota,
      ota_sectors = OTA_SECTORS, fs_slot = 0, total_sectors = tot\<rparr>)"

text \<open>The reserved regions are 16384, 2048 and 129 sectors, and the log starts at sector 8.\<close>

definition disk_size_ok :: "u64 \<Rightarrow> bool" where
  "disk_size_ok tot \<longleftrightarrow> 18570 \<le> unat tot \<and> unat tot < 2 ^ 63"

lemma length_superblock [lens]: "length (superblock tot) = SECTOR_SIZE"
  unfolding superblock_def Let_def by (rule length_seal) (simp add: lens fs_consts)

lemma sb_matches_superblock: "sb_matches (formatted tot) (superblock tot)"
proof -
  define sb where "sb = put_u64 (put_u64 (put_u64 (put_u64 (put_u64 (put_u64 (put_u64 (put_u64
    (put_u64 (put_u32 (put_u64 (replicate SECTOR_SIZE 0) 0 SB_MAGIC) 8 1) 12 tot)
    20 LOG_START) 28 (tot - SPILL_SECTORS - AUDIT_SECTORS - OTA_SECTORS - LOG_START))
    36 (tot - SPILL_SECTORS)) 44 SPILL_SECTORS) 52 (tot - SPILL_SECTORS - AUDIT_SECTORS))
    60 AUDIT_SECTORS) 68 (tot - SPILL_SECTORS - AUDIT_SECTORS - OTA_SECTORS)) 76 OTA_SECTORS"
  have eq: "superblock tot = seal sb" by (simp add: superblock_def sb_def Let_def)
  have len: "length sb = SECTOR_SIZE" by (simp add: sb_def lens fs_consts)
  have g: "get_u64 (seal sb) at = get_u64 sb at" if "at + 8 \<le> CRC_OFF" for at
    using subslice_seal [OF len that] by (rule get_u64_cong)
  have "get_u64 sb 0 = SB_MAGIC" "get_u64 sb 12 = tot" "get_u64 sb 36 = tot - SPILL_SECTORS"
    "get_u64 sb 44 = SPILL_SECTORS" "get_u64 sb 52 = tot - SPILL_SECTORS - AUDIT_SECTORS"
    "get_u64 sb 60 = AUDIT_SECTORS" "get_u64 sb 68 = tot - SPILL_SECTORS - AUDIT_SECTORS - OTA_SECTORS"
    "get_u64 sb 76 = OTA_SECTORS"
    unfolding sb_def by (simp_all add: get_u64_def lens layout SECTOR_SIZE_def)
      (simp_all add: put_u64_def lens layout)
  with len show ?thesis
    unfolding eq by (simp add: sb_matches_def g intact_seal formatted_def Let_def CRC_OFF_def SECTOR_SIZE_def)
qed

lemma unat_minus: "(b :: u64) \<le> a \<Longrightarrow> unat (a - b) = unat a - unat b"
  by (simp add: unat_sub)

lemma formatted_regions:
  assumes "disk_size_ok tot"
  shows "unat (spill_start (formatted tot)) = unat tot - 16384"
    and "unat (audit_start (formatted tot)) = unat tot - 18432"
    and "unat (ota_start (formatted tot)) = unat tot - 18561"
proof -
  have t: "18570 \<le> unat tot" using assms by (simp add: disk_size_ok_def)
  show a: "unat (spill_start (formatted tot)) = unat tot - 16384"
    using t by (simp add: formatted_def Let_def fs_consts unat_minus word_le_nat_alt)
  then show b: "unat (audit_start (formatted tot)) = unat tot - 18432"
    using t by (simp add: formatted_def Let_def fs_consts unat_minus word_le_nat_alt)
  then show "unat (ota_start (formatted tot)) = unat tot - 18561"
    using t by (simp add: formatted_def Let_def fs_consts unat_minus word_le_nat_alt)
qed

lemma fs_inv_formatted:
  assumes "disk_size_ok tot"
  shows "fs_inv (formatted tot)" and "fs_abs (formatted tot) m = Map.empty"
proof -
  note R = formatted_regions [OF assms]
  have t: "18570 \<le> unat tot" "unat tot < 2 ^ 63" using assms by (auto simp: disk_size_ok_def)
  have tot: "total_sectors (formatted tot) = tot" by (simp add: formatted_def Let_def)
  have "log_limit (formatted tot) = ota_start (formatted tot)"
    using R t by (auto simp: log_limit_def tot word_less_nat_alt unat_eq_0 [symmetric] simp del: unat_eq_0)
  moreover have head: "cp_log_head Checkpoint_new = 8" by (simp add: Checkpoint_new_def LOG_START_def)
  moreover have "fs_files (formatted tot) = []"
    by (simp add: fs_files_def formatted_def Let_def Checkpoint_new_def)
  moreover have "fs_cp (formatted tot) = Checkpoint_new" "fs_slot (formatted tot) = 0"
    by (simp_all add: formatted_def Let_def)
  ultimately show "fs_inv (formatted tot)" "fs_abs (formatted tot) m = Map.empty"
    using R t by (auto simp: fs_inv_def head LOG_START_def word_le_nat_alt
        fs_abs_def fs_entry_def fs_find_def fun_eq_iff)
qed

lemma fs_format_on_disk:
  assumes "disk_size_ok tot" and "\<And>s. bad d s = None" and "\<And>s. length (store d s) = SECTOR_SIZE"
    and "power d = None"
  shows "\<exists>d'. fs_format tot d = (Done (), d') \<and> on_disk (formatted tot) d' \<and> power d' = None \<and> bad d' = bad d"
proof -
  let ?audit = "tot - SPILL_SECTORS - AUDIT_SECTORS" and ?ota = "tot - SPILL_SECTORS - AUDIT_SECTORS - OTA_SECTORS"
  let ?blank = "replicate SECTOR_SIZE 0 :: bytes"
  define m where "m = (store d)(0 := superblock tot, 2 := ?blank, 1 := cp_encode Checkpoint_new,
    ?audit := ?blank, ?ota := ?blank)"
  have "fs_format tot d = (Done (), d\<lparr>store := m\<rparr>)"
    using assms by (simp add: fs_format_def Let_def io_bind_def lens SB_SECTOR_def CP_SECTORS_def m_def)
  moreover have "unat ?audit \<ge> 8" "unat ?ota \<ge> 8"
    using formatted_regions [OF assms(1)] assms(1) by (auto simp: formatted_def Let_def disk_size_ok_def)
  then have "?audit \<notin> {0, 1, 2}" "?ota \<notin> {0, 1, 2}" by auto
  then have m: "m 0 = superblock tot" "m 1 = cp_encode Checkpoint_new" "m 2 = ?blank" by (auto simp: m_def)
  have "cp_decode ?blank = None"
    by (simp add: cp_decode_def get_u64_def subslice_def CP_MAGIC_def SECTOR_SIZE_def le_word_replicate0)
  then have "on_disk (formatted tot) (d\<lparr>store := m\<rparr>)"
    using m assms sb_matches_superblock
    by (simp add: on_disk_def SB_SECTOR_def CP_SECTORS_def)
      (simp add: formatted_def Let_def m_def lens)
  ultimately show ?thesis using assms by auto
qed

section \<open>Histories\<close>

text \<open>
  A history of the machine: writes and directory changes that succeed, fail or are cut off by a
  loss of power, changes of the moment power will be lost, and remounts. The third component is
  the specification: the map from names to contents that the caller has been told is stored. The
  guards are those of \<open>fs_write_atomic\<close> and \<open>set_entry_atomic\<close>: names are \<open>&str\<close> without NUL bytes,
  a file is shorter than 4 GiB, an installed entry is one of the log's extents, and there are fewer
  than \<open>2 ^ 64\<close> commits.
\<close>

type_synonym fs_world = "Fs \<times> disk \<times> (bytes \<Rightarrow> bytes option)"

definition write_guard :: "Fs \<Rightarrow> bytes \<Rightarrow> bytes \<Rightarrow> bool" where
  "write_guard f name data \<longleftrightarrow> unat (cp_seq (fs_cp f)) + 1 < 2 ^ 64 \<and> 0 \<notin> set name
     \<and> utf8_valid name \<and> length data < 2 ^ 32"

definition set_guard :: "Fs \<Rightarrow> bytes \<Rightarrow> FileEntry option \<Rightarrow> bool" where
  "set_guard f name entry \<longleftrightarrow> unat (cp_seq (fs_cp f)) + 1 < 2 ^ 64 \<and>
     (case entry of None \<Rightarrow> True | Some x \<Rightarrow> name_str x = name \<and> entry_ok (cp_log_head (fs_cp f)) x)"

inductive fs_step :: "fs_world \<Rightarrow> fs_world \<Rightarrow> bool" where
  write_done: "write_guard f name data \<Longrightarrow> fs_write f name data c d = (Done g, d') \<Longrightarrow>
    fs_step (f, d, A) (g, d', A(name \<mapsto> data))"
| write_fail: "write_guard f name data \<Longrightarrow> fs_write f name data c d = (Fail e, d') \<Longrightarrow>
    fs_step (f, d, A) (f, d', A)"
| write_off: "write_guard f name data \<Longrightarrow> fs_write f name data c d = (PowerOff, d') \<Longrightarrow>
    fs_mount (reboot d') = (Done g, d'') \<Longrightarrow> fs_step (f, d, A) (g, d'', A)"
| set_done: "set_guard f name entry \<Longrightarrow> set_entry f name entry d = (Done g, d') \<Longrightarrow>
    fs_step (f, d, A) (g, d', A(name := map_option (file_contents (store d)) entry))"
| set_fail: "set_guard f name entry \<Longrightarrow> set_entry f name entry d = (Fail e, d') \<Longrightarrow>
    fs_step (f, d, A) (f, d', A)"
| set_off: "set_guard f name entry \<Longrightarrow> set_entry f name entry d = (PowerOff, d') \<Longrightarrow>
    fs_mount (reboot d') = (Done g, d'') \<Longrightarrow> fs_step (f, d, A) (g, d'', A)"
| remount: "fs_mount (reboot d) = (Done g, d') \<Longrightarrow> fs_step (f, d, A) (g, d', A)"
| power_plan: "fs_step (f, d, A) (f, d\<lparr>power := p\<rparr>, A)"

inductive_cases fs_stepE: "fs_step (f, d, A) w"

definition fs_init :: "fs_world \<Rightarrow> bool" where
  "fs_init w \<longleftrightarrow> (\<exists>tot d0 d1. disk_size_ok tot \<and> (\<forall>s. bad d0 s = None)
     \<and> (\<forall>s. length (store d0 s) = SECTOR_SIZE) \<and> power d0 = None
     \<and> fs_format tot d0 = (Done (), d1)
     \<and> fs_mount d1 = (Done (fst w), fst (snd w)) \<and> snd (snd w) = Map.empty)"

definition fs_world_ok :: "fs_world \<Rightarrow> bool" where
  "fs_world_ok = (\<lambda>(f, d, A). fs_inv f \<and> on_disk f d \<and> fs_abs f (store d) = A)"

lemma fs_world_ok_remount:
  assumes "fs_inv f" "on_disk f d" "fs_abs f (store d) = A" "fs_mount (reboot d) = (Done g, d')"
  shows "fs_world_ok (g, d', A)"
  using assms fs_mount_reboot [OF assms(1,2)] by (auto simp: fs_world_ok_def on_disk_def)

lemma fs_step_ok:
  assumes "fs_step (f, d, A) w" and ok: "fs_world_ok (f, d, A)"
  shows "fs_world_ok w"
proof -
  have inv: "fs_inv f" "on_disk f d" "fs_abs f (store d) = A"
    using ok by (auto simp: fs_world_ok_def)
  have W: "atomic f d r d' (\<lambda>A. A(name \<mapsto> data))"
    if "write_guard f name data" "fs_write f name data c d = (r, d')" for name data c r d'
    using that inv(1,2) by (intro fs_write_atomic) (auto simp: write_guard_def)
  have S: "atomic f d r d' (\<lambda>A. A(name := map_option (file_contents (store d)) entry))"
    if "set_guard f name entry" "set_entry f name entry d = (r, d')" for name entry r d'
    using that inv(1,2) by (intro set_entry_atomic) (auto simp: set_guard_def split: option.splits)
  from assms(1) show ?thesis
  proof (elim fs_stepE)
    fix name data c g d'
    assume "w = (g, d', A(name \<mapsto> data))" "write_guard f name data" "fs_write f name data c d = (Done g, d')"
    then show ?thesis using W [of name data c "Done g" d'] by (simp add: atomic_def fs_world_ok_def inv)
  next
    fix name data c e d'
    assume "w = (f, d', A)" "write_guard f name data" "fs_write f name data c d = (Fail e, d')"
    then show ?thesis using W [of name data c "Fail e" d'] by (simp add: atomic_def fs_world_ok_def inv)
  next
    fix name data c d' g d''
    assume "w = (g, d'', A)" "write_guard f name data" "fs_write f name data c d = (PowerOff, d')"
      "fs_mount (reboot d') = (Done g, d'')"
    then show ?thesis
      using W [of name data c PowerOff d'] fs_world_ok_remount [OF inv(1), of d' A g d'']
      by (simp add: atomic_def inv)
  next
    fix name entry g d'
    assume "w = (g, d', A(name := map_option (file_contents (store d)) entry))"
      "set_guard f name entry" "set_entry f name entry d = (Done g, d')"
    then show ?thesis using S [of name entry "Done g" d'] by (simp add: atomic_def fs_world_ok_def inv)
  next
    fix name entry e d'
    assume "w = (f, d', A)" "set_guard f name entry" "set_entry f name entry d = (Fail e, d')"
    then show ?thesis using S [of name entry "Fail e" d'] by (simp add: atomic_def fs_world_ok_def inv)
  next
    fix name entry d' g d''
    assume "w = (g, d'', A)" "set_guard f name entry" "set_entry f name entry d = (PowerOff, d')"
      "fs_mount (reboot d') = (Done g, d'')"
    then show ?thesis
      using S [of name entry PowerOff d'] fs_world_ok_remount [OF inv(1), of d' A g d'']
      by (simp add: atomic_def inv)
  qed (use inv fs_world_ok_remount [OF inv] in \<open>auto simp: fs_world_ok_def on_disk_def\<close>)
qed

lemma fs_init_ok:
  assumes "fs_init w"
  shows "fs_world_ok w"
proof -
  obtain tot d0 d1 where t: "disk_size_ok tot" and d0: "\<And>s. bad d0 s = None"
      "\<And>s. length (store d0 s) = SECTOR_SIZE" "power d0 = None"
    and d1: "fs_format tot d0 = (Done (), d1)" "fs_mount d1 = (Done (fst w), fst (snd w))"
    and A: "snd (snd w) = Map.empty"
    using assms by (auto simp: fs_init_def)
  have "on_disk (formatted tot) d1" using fs_format_on_disk [OF t d0] d1 by auto
  with fs_mount_on_disk [OF fs_inv_formatted(1) [OF t] this] d1 A fs_inv_formatted [OF t]
  show ?thesis by (cases w) (auto simp: fs_world_ok_def)
qed

interpretation fs_hist: invariant_of fs_init fs_step fs_world_ok
proof
  fix s t show "fs_world_ok s \<Longrightarrow> fs_step s t \<Longrightarrow> fs_world_ok t"
    using fs_step_ok by (cases s) auto
qed (rule fs_init_ok)

section \<open>Progress\<close>

lemma write_data_succeeds:
  assumes "power d = None" and "\<And>s. bad d s = None"
  shows "\<exists>d'. write_data start data sectors None d = (Done (), d') \<and> power d' = None \<and> bad d' = bad d"
proof -
  have "\<exists>d'. io_each (\<lambda>s. write_sector (start + of_nat s) (data_sector data s)) xs d = (Done (), d')
      \<and> power d' = None \<and> bad d' = bad d" for xs
    using assms
  proof (induction xs arbitrary: d)
    case (Cons x xs)
    let ?d = "d\<lparr>store := (store d)(start + of_nat x := data_sector data x)\<rparr>"
    from Cons.IH [of ?d] Cons.prems show ?case by (simp add: io_bind_def)
  qed simp
  then show ?thesis by (simp add: write_data_def)
qed

lemma commit_succeeds:
  "power d = None \<Longrightarrow> (\<And>s. bad d s = None) \<Longrightarrow> cp_wf next \<Longrightarrow>
   \<exists>d'. commit f next d = (Done (f\<lparr>fs_cp := next, fs_slot := 1 - fs_slot f\<rparr>), d')"
  by (simp add: commit_def Let_def io_bind_def lens)

lemma fs_write_succeeds:
  assumes inv: "fs_inv f" and "power d = None" and "\<And>s. bad d s = None" and "length name \<le> MAX_NAME"
    and "fs_find f name = None \<Longrightarrow> cp_count (fs_cp f) < MAX_FILES"
    and "\<not> cp_log_head (fs_cp f) + ucast (of_nat (div_ceil (length data) SECTOR_SIZE) :: u32) > log_limit f"
  shows "\<exists>g d'. fs_write f name data None d = (Done g, d')"
proof -
  define sectors :: u32 where "sectors = of_nat (div_ceil (length data) SECTOR_SIZE)"
  define start where "start = cp_log_head (fs_cp f)"
  define h where "h = start + ucast sectors"
  obtain d1 where d1: "write_data start data sectors None d = (Done (), d1)" "power d1 = None"
      "bad d1 = bad d"
    using write_data_succeeds [OF assms(2,3), of start data sectors] by blast
  have wf: "cp_wf (fs_cp f)" using inv by (simp add: fs_inv_def)
  let ?e = "new_entry name data start sectors"
  have "\<exists>g d'. dir_put f h name ?e d1 = (Done g, d')"
  proof (cases "fs_find f name")
    case (Some i)
    then show ?thesis
      using commit_succeeds [OF d1(2) _ cp_wf_replace [OF wf fs_find_Some(1) [OF Some wf], of ?e]]
        d1(3) assms(3,4) by (fastforce simp: dir_put_def)
  next
    case None
    then show ?thesis
      using commit_succeeds [OF d1(2) _ cp_wf_append [OF wf, of ?e]] d1(3) assms(3-5)
      by (fastforce simp: dir_put_def)
  qed
  then show ?thesis
    using d1 assms(4,6)
    by (auto simp: fs_write_unfold io_bind_def sectors_def start_def h_def)
qed

section \<open>Properties\<close>

text \<open>
  C1: Crash safety of \<open>Fs::write\<close>. Whatever happens during a write (an error, a loss of power at
  any sector, the planned crash of the tests), the next mount succeeds and finds either the file
  system \<open>write\<close> returned, with exactly the new contents under the name and every other file as it
  was, or exactly the file system before the call.
\<close>

theorem fs_write_crash_safe:
  assumes "fs_inv f" and "on_disk f d" and "write_guard f name data"
    and "fs_write f name data crash_after d = (r, d')"
  shows "\<exists>g. fs_mount (reboot d') = (Done g, reboot d') \<and> fs_inv g \<and> on_disk g d' \<and>
    (if \<exists>h. r = Done h then r = Done g \<and> fs_abs g (store d') = (fs_abs f (store d))(name \<mapsto> data)
     else g = f \<and> fs_abs g (store d') = fs_abs f (store d))"
proof -
  have "atomic f d r d' (\<lambda>A. A(name \<mapsto> data))"
    using assms by (intro fs_write_atomic) (auto simp: write_guard_def)
  then show ?thesis
    using assms(1) fs_mount_reboot by (cases r) (auto simp: atomic_def)
qed

definition blank_disk :: disk where
  "blank_disk = \<lparr>store = \<lambda>_. replicate SECTOR_SIZE 0, bad = \<lambda>_. None, power = None\<rparr>"

definition fresh_disk :: disk where
  "fresh_disk = snd (fs_format 20000 blank_disk)"

lemma fresh_disk:
  "on_disk (formatted 20000) fresh_disk" "power fresh_disk = None" "bad fresh_disk = (\<lambda>_. None)"
  "fs_inv (formatted 20000)"
proof -
  have ok: "disk_size_ok 20000" by (simp add: disk_size_ok_def)
  show "fs_inv (formatted 20000)" using ok by (rule fs_inv_formatted)
  show "on_disk (formatted 20000) fresh_disk" "power fresh_disk = None" "bad fresh_disk = (\<lambda>_. None)"
    using fs_format_on_disk [OF ok, of blank_disk] by (auto simp: blank_disk_def fresh_disk_def)
qed

lemma formatted_seq [simp]: "cp_seq (fs_cp (formatted tot)) = 1"
  by (simp add: formatted_def Let_def Checkpoint_new_def)

theorem fs_write_crash_safe_witness:
  "write_guard (formatted 20000) (ascii ''a'') [1, 2, 3] \<and>
   (\<exists>g. fs_mount (reboot (snd (fs_write (formatted 20000) (ascii ''a'') [1, 2, 3] (Some 0) fresh_disk))) =
     (Done g, reboot (snd (fs_write (formatted 20000) (ascii ''a'') [1, 2, 3] (Some 0) fresh_disk))))"
proof -
  have g: "write_guard (formatted 20000) (ascii ''a'') [1, 2, 3]"
    by (simp add: write_guard_def ascii_def word_le_nat_alt)
  show ?thesis
    using g fs_write_crash_safe [OF fresh_disk(4,1) g, of "Some 0"] by (metis prod.collapse)
qed

text \<open>
  C3: A write that is not interrupted succeeds whenever the name fits, the directory has room and
  the log has room, and from then on \<open>read\<close> returns exactly the bytes written, while every other
  name reads as before.
\<close>

theorem fs_read_after_write:
  assumes "fs_inv f" and "on_disk f d" and "write_guard f name data"
    and "power d = None" and "bad d = (\<lambda>_. None)" and "length name \<le> MAX_NAME"
    and "fs_find f name = None \<longrightarrow> cp_count (fs_cp f) < MAX_FILES"
    and "cp_log_head (fs_cp f) + ucast (of_nat (div_ceil (length data) SECTOR_SIZE) :: u32) \<le> log_limit f"
  shows "\<exists>g d'. fs_write f name data None d = (Done g, d')
    \<and> (\<forall>out. length data \<le> length out \<longrightarrow>
         fs_read g name out d' = (Done (length data, data @ drop (length data) out), d'))
    \<and> (\<forall>other out. other \<noteq> name \<longrightarrow> fst (fs_read g other out d') = fst (fs_read f other out d))"
proof -
  obtain g d' where w: "fs_write f name data None d = (Done g, d')"
    using fs_write_succeeds [OF assms(1,4), of name data] assms by (auto simp: not_less)
  have A: "atomic f d (Done g) d' (\<lambda>A. A(name \<mapsto> data))"
    using assms w by (intro fs_write_atomic [of f d name data None]) (auto simp: write_guard_def)
  then have g: "fs_inv g" "on_disk g d'" "\<And>s. bad d' s = None"
    "fs_abs g (store d') = (fs_abs f (store d))(name \<mapsto> data)"
    using assms(5) by (auto simp: atomic_def)
  have ok: "\<And>s. bad d s = None" using assms(5) by simp
  show ?thesis
    using w g(4) by (intro exI [of _ g] exI [of _ d'])
      (auto simp: fs_read_abs [OF g(1-3)] fs_read_abs [OF assms(1,2) ok] split: option.split)
qed

theorem fs_read_after_write_witness:
  "\<exists>g d'. fs_write (formatted 20000) (ascii ''a'') [1, 2, 3] None fresh_disk = (Done g, d')
     \<and> fs_read g (ascii ''a'') [0, 0, 0, 9] d' = (Done (3, [1, 2, 3, 9]), d')"
proof -
  have g: "write_guard (formatted 20000) (ascii ''a'') [1, 2, 3]"
    by (simp add: write_guard_def ascii_def word_le_nat_alt)
  have lim: "cp_log_head (fs_cp (formatted 20000)) +
      ucast (of_nat (div_ceil (length [1 :: u8, 2, 3]) SECTOR_SIZE) :: u32) \<le> log_limit (formatted 20000)"
    by (simp add: formatted_def Let_def Checkpoint_new_def fs_consts div_ceil_def log_limit_def
        word_le_nat_alt word_less_nat_alt)
  have n: "length (ascii ''a'') \<le> MAX_NAME" "cp_count (fs_cp (formatted 20000)) < MAX_FILES"
    by (simp_all add: ascii_def MAX_NAME_def MAX_FILES_def formatted_def Let_def Checkpoint_new_def)
  from fs_read_after_write [OF fresh_disk(4,1) g fresh_disk(2,3) n(1) _ lim] n(2)
  show ?thesis by fastforce
qed



text \<open>
  A checkpoint sector holds exactly one checkpoint: decoding an encoded checkpoint gives it
  back, and no damage confined to one byte of the sector's payload is ever mistaken for a
  checkpoint.
\<close>

theorem checkpoint_codec:
  assumes "cp_wf cp"
  shows "cp_decode (cp_encode cp) = Some cp \<and>
    (\<forall>k v. k < CRC_OFF \<and> v \<noteq> cp_encode cp ! k \<longrightarrow> cp_decode ((cp_encode cp)[k := v]) = None)"
proof -
  have dec: "cp_decode (cp_encode cp) = Some cp" using assms by (rule cp_decode_encode)
  then have "intact (cp_encode cp)" by (auto simp: cp_decode_def split: if_splits)
  then have "\<not> intact ((cp_encode cp)[k := v])" if "k < CRC_OFF" "v \<noteq> cp_encode cp ! k" for k v
    using that assms by (intro intact_single_byte) (simp_all add: lens)
  then have "cp_decode ((cp_encode cp)[k := v]) = None" if "k < CRC_OFF" "v \<noteq> cp_encode cp ! k" for k v
    using that by (simp add: cp_decode_def)
  with dec show ?thesis by blast
qed

theorem checkpoint_codec_witness:
  "cp_wf Checkpoint_new \<and> cp_decode (cp_encode Checkpoint_new) = Some Checkpoint_new"
  using checkpoint_codec [OF cp_wf_new] by simp

text \<open>
  The checkpoint that is not being replaced survives any damage to the other one. If the sector
  a commit was writing is left holding anything that is not a checkpoint, the file system before
  the commit is mounted, with every file readable as before.
\<close>

theorem torn_commit_recovers:
  assumes "fs_inv f" and "on_disk f d" and "cp_decode torn = None" and "length torn = SECTOR_SIZE"
  shows "fs_mount (d\<lparr>store := (store d)(CP_SECTORS ! (1 - fs_slot f) := torn)\<rparr>) =
      (Done f, d\<lparr>store := (store d)(CP_SECTORS ! (1 - fs_slot f) := torn)\<rparr>)
    \<and> fs_abs f ((store d)(CP_SECTORS ! (1 - fs_slot f) := torn)) = fs_abs f (store d)"
proof
  have slot: "fs_slot f < 2" using assms(1) by (simp add: fs_inv_def)
  let ?d = "d\<lparr>store := (store d)(CP_SECTORS ! (1 - fs_slot f) := torn)\<rparr>"
  have "on_disk f ?d"
    using slot assms by (elim slot_cases) (auto simp: on_disk_def CP_SECTORS_def SB_SECTOR_def)
  then show "fs_mount ?d = (Done f, ?d)" using assms(1) by (intro fs_mount_on_disk)
  show "fs_abs f ((store d)(CP_SECTORS ! (1 - fs_slot f) := torn)) = fs_abs f (store d)"
    using slot by (intro fs_abs_frame assms(1)) (elim slot_cases; auto simp: CP_SECTORS_def LOG_START_def word_le_nat_alt)
qed

theorem torn_commit_recovers_witness:
  "cp_decode (replicate SECTOR_SIZE 255) = None \<and>
   fst (fs_mount (fresh_disk\<lparr>store := (store fresh_disk)(2 := replicate SECTOR_SIZE 255)\<rparr>)) =
     Done (formatted 20000)"
proof -
  have slot: "CP_SECTORS ! (1 - fs_slot (formatted 20000)) = 2"
    by (simp add: formatted_def Let_def CP_SECTORS_def)
  have "get_u64 (replicate SECTOR_SIZE 255) 0 \<noteq> CP_MAGIC"
    by code_simp
  then have n: "cp_decode (replicate SECTOR_SIZE 255) = None" by (simp add: cp_decode_def)
  with torn_commit_recovers [OF fresh_disk(4,1) n] slot show ?thesis by simp
qed

end
