(* ===== verification/Intent.thy ===== *)
theory Intent
  imports Fs_Crash
begin

text \<open>
  Typed operations and transactional intents, \<open>kernel/src/intent.rs\<close>: the registry of published
  operations with \<open>find\<close> and \<open>plan\<close>, the table of intents with \<open>begin\<close>, \<open>record\<close>, \<open>commit\<close> and
  \<open>undo\<close>. Strings the code only stores and compares are \<open>bytes\<close>; the two statics guarded by locks
  are the fields of a record. The result is that undoing an intent restores every name it wrote to
  the contents it had, and that what it could not reverse is counted.
\<close>

datatype Effect = ReadOnly | Mutates | External

record Operation =
  op_name :: bytes
  op_provider :: bytes
  op_args :: bytes
  op_effect :: Effect
  op_confirm :: bool

definition publish :: "Operation \<Rightarrow> Operation list \<Rightarrow> Operation list" where
  "publish op reg = reg @ [op]"

definition op_find :: "bytes \<Rightarrow> Operation list \<Rightarrow> Operation option" where
  "op_find name reg = List.find (\<lambda>q. op_name q = name) reg"

text \<open>The loop of \<open>plan\<close>; \<open>n\<close> entries of \<open>out\<close> are filled.\<close>

fun plan_loop :: "Operation list \<Rightarrow> Effect list \<Rightarrow> nat \<Rightarrow> Operation list \<Rightarrow> nat \<times> Operation list" where
  "plan_loop reg [] n out = (n, out)"
| "plan_loop reg (effect # wanted) n out =
     (if n \<ge> length out then (n, out)
      else case List.find (\<lambda>q. op_effect q = effect) reg of
        Some op \<Rightarrow> plan_loop reg wanted (n + 1) (out[n := op])
      | None \<Rightarrow> plan_loop reg wanted n out)"

definition plan :: "Operation list \<Rightarrow> Effect list \<Rightarrow> Operation list \<Rightarrow> nat \<times> Operation list" where
  "plan reg wanted out = plan_loop reg wanted 0 out"

datatype IntentState = Open | Committed | Undone

record Step =
  st_op :: bytes
  st_target :: bytes
  st_before :: "FileEntry option"
  st_undoable :: bool

record Intent =
  in_id :: u64
  in_goal :: bytes
  in_actor :: bytes
  in_cap :: u64
  in_steps :: "Step list"
  in_state :: IntentState

record intents =
  INTENTS :: "Intent list"
  NEXT_ID :: u64

definition intent_begin :: "bytes \<Rightarrow> bytes \<Rightarrow> u64 \<Rightarrow> intents \<Rightarrow> u64 \<times> intents" where
  "intent_begin goal actor cap st = (let ident = NEXT_ID st in
     (ident, st\<lparr>NEXT_ID := ident + 1, INTENTS := INTENTS st @
        [\<lparr>in_id = ident, in_goal = goal, in_actor = actor, in_cap = cap, in_steps = [], in_state = Open\<rparr>]\<rparr>))"

text \<open>\<open>iter_mut().find(|i| i.id == id)\<close> followed by a change of what was found.\<close>

primrec update_first :: "('a \<Rightarrow> bool) \<Rightarrow> ('a \<Rightarrow> 'a) \<Rightarrow> 'a list \<Rightarrow> 'a list" where
  "update_first p f [] = []"
| "update_first p f (x # xs) = (if p x then f x # xs else x # update_first p f xs)"

definition intent_record :: "u64 \<Rightarrow> bytes \<Rightarrow> bytes \<Rightarrow> FileEntry option \<Rightarrow> bool \<Rightarrow> intents \<Rightarrow> intents" where
  "intent_record ident op target before undoable st =
     st\<lparr>INTENTS := update_first (\<lambda>i. in_id i = ident)
        (\<lambda>i. i\<lparr>in_steps := in_steps i @
           [\<lparr>st_op = op, st_target = target, st_before = before, st_undoable = undoable\<rparr>]\<rparr>) (INTENTS st)\<rparr>"

definition intent_commit :: "u64 \<Rightarrow> intents \<Rightarrow> intents" where
  "intent_commit ident st = st\<lparr>INTENTS := update_first (\<lambda>i. in_id i = ident)
     (\<lambda>i. i\<lparr>in_state := Committed\<rparr>) (INTENTS st)\<rparr>"

text \<open>
  The loop of \<open>undo\<close>. The file system is the caller's \<open>&mut Fs\<close>, so it is returned on every path:
  an error in the middle leaves the steps already put back in place.
\<close>

fun undo_loop :: "(bytes \<times> FileEntry option \<times> bool) list \<Rightarrow> nat \<Rightarrow> nat \<Rightarrow> Fs \<Rightarrow> disk \<Rightarrow>
    (nat \<times> nat) outcome \<times> Fs \<times> disk" where
  "undo_loop [] reversed refused f d = (Done (reversed, refused), f, d)"
| "undo_loop ((target, before, undoable) # todo) reversed refused f d =
     (if \<not> undoable then undo_loop todo reversed (refused + 1) f d
      else case set_entry f target before d of
        (Done g, d') \<Rightarrow> undo_loop todo (reversed + 1) refused g d'
      | (Fail e, d') \<Rightarrow> (Fail e, f, d')
      | (PowerOff, d') \<Rightarrow> (PowerOff, f, d'))"

definition intent_undo :: "u64 \<Rightarrow> intents \<Rightarrow> Fs \<Rightarrow> disk \<Rightarrow> (nat \<times> nat) outcome \<times> intents \<times> Fs \<times> disk" where
  "intent_undo ident st f d = (case List.find (\<lambda>i. in_id i = ident) (INTENTS st) of
      None \<Rightarrow> (Fail ''no such intent'', st, f, d)
    | Some i \<Rightarrow>
        if in_state i = Undone then (Fail ''already undone'', st, f, d)
        else case undo_loop (map (\<lambda>s. (st_target s, st_before s, st_undoable s)) (rev (in_steps i))) 0 0 f d of
          (Done r, f', d') \<Rightarrow> (Done r, st\<lparr>INTENTS := update_first (\<lambda>i. in_id i = ident)
              (\<lambda>i. i\<lparr>in_state := Undone\<rparr>) (INTENTS st)\<rparr>, f', d')
        | (r, f', d') \<Rightarrow> (r, st, f', d'))"

definition intent_steps :: "u64 \<Rightarrow> intents \<Rightarrow> nat" where
  "intent_steps ident st = (case List.find (\<lambda>i. in_id i = ident) (INTENTS st) of
     Some i \<Rightarrow> length (in_steps i) | None \<Rightarrow> 0)"

section \<open>Successful updates, entry by entry\<close>

lemma commit_Done:
  assumes "commit f next d = (Done g, d')" and "fs_slot f < 2"
  shows "g = f\<lparr>fs_cp := next, fs_slot := 1 - fs_slot f\<rparr>"
    and "LOG_START \<le> s \<Longrightarrow> store d' s = store d s" and "bad d' = bad d"
    and "power d = None \<Longrightarrow> power d' = None"
proof -
  from assms(1) have c: "g = f\<lparr>fs_cp := next, fs_slot := 1 - fs_slot f\<rparr> \<and> bad d' = bad d
      \<and> store d' = (store d)(CP_SECTORS ! (1 - fs_slot f) := cp_encode next)"
    by (cases rule: commit_cases) auto
  then show "g = f\<lparr>fs_cp := next, fs_slot := 1 - fs_slot f\<rparr>" and "bad d' = bad d" by auto
  show "store d' s = store d s" if "LOG_START \<le> s"
    using that c assms(2) by (elim slot_cases) (auto simp: CP_SECTORS_def LOG_START_def word_le_nat_alt)
  show "power d' = None" if "power d = None"
    using assms(1) that
    by (auto simp: commit_def Let_def elim!: io_bind_DoneE dest: write_sector_power)
qed

text \<open>
  \<open>puts f d name oe g d'\<close>: from \<open>f\<close> on \<open>d\<close> to \<open>g\<close> on \<open>d'\<close> the directory changed at \<open>name\<close> only, the
  used part of the log is untouched and did not shrink.
\<close>

definition puts :: "Fs \<Rightarrow> disk \<Rightarrow> bytes \<Rightarrow> FileEntry option \<Rightarrow> Fs \<Rightarrow> disk \<Rightarrow> bool" where
  "puts f d name oe g d' \<longleftrightarrow> fs_inv g \<and> on_disk g d' \<and> fs_entry g = (fs_entry f)(name := oe)
     \<and> cp_log_head (fs_cp f) \<le> cp_log_head (fs_cp g)
     \<and> unat (cp_seq (fs_cp g)) \<le> unat (cp_seq (fs_cp f)) + 1
     \<and> (\<forall>s. LOG_START \<le> s \<and> unat s < unat (cp_log_head (fs_cp f)) \<longrightarrow> store d' s = store d s)
     \<and> bad d' = bad d \<and> (power d = None \<longrightarrow> power d' = None)"

lemma unat_seq_grows: "unat (q + 1 :: u64) \<le> unat q + 1"
  by (simp add: unat_word_ariths)

lemma dir_put_Done:
  assumes inv: "fs_inv f" and D1: "on_disk f d1" and seq: "unat (cp_seq (fs_cp f)) + 1 < 2 ^ 64"
    and e: "name_str e = name" "entry_ok h e"
    and h: "cp_log_head (fs_cp f) \<le> h" "h \<le> log_limit f"
    and p: "dir_put f h name e d1 = (Done g, d')"
  shows "puts f d1 name (Some e) g d'"
proof -
  have slot: "fs_slot f < 2" using inv by (simp add: fs_inv_def)
  have "atomic f d1 (Done g) d' (\<lambda>A. A(name \<mapsto> file_contents (store d1) e))"
    using dir_put_atomic [OF inv D1 seq e h refl refl p] .
  then have g: "fs_inv g" "on_disk g d'" by (auto simp: atomic_def)
  show ?thesis
  proof (cases "fs_find f name")
    case (Some i)
    then have "commit f ((fs_cp f)\<lparr>cp_seq := cp_seq (fs_cp f) + 1, cp_log_head := h,
        cp_files := (cp_files (fs_cp f))[i := e]\<rparr>) d1 = (Done g, d')"
      using p by (simp add: dir_put_def)
    note C = commit_Done [OF this slot]
    from fs_replace(2) [OF inv Some e h C(1)] C g h show ?thesis
      using unat_seq_grows by (simp add: puts_def)
  next
    case None
    with p have full: "cp_count (fs_cp f) \<noteq> MAX_FILES" by (auto simp: dir_put_def)
    with None have "commit f ((fs_cp f)\<lparr>cp_seq := cp_seq (fs_cp f) + 1, cp_log_head := h,
        cp_count := cp_count (fs_cp f) + 1,
        cp_files := (cp_files (fs_cp f))[cp_count (fs_cp f) := e]\<rparr>) d1 = (Done g, d')"
      using p by (simp add: dir_put_def)
    note C = commit_Done [OF this slot]
    from fs_append(2) [OF inv None e full h C(1)] C g h show ?thesis
      using unat_seq_grows by (simp add: puts_def)
  qed
qed

lemma fs_write_Done:
  assumes inv: "fs_inv f" and disk: "on_disk f d" and g: "write_guard f name data"
    and pow: "power d = None" and w: "fs_write f name data None d = (Done g, d')"
  shows "\<exists>e. puts f d name (Some e) g d'"
proof -
  define sectors :: u32 where "sectors = of_nat (div_ceil (length data) SECTOR_SIZE)"
  define start where "start = cp_log_head (fs_cp f)"
  define h where "h = start + ucast sectors"
  define e where "e = new_entry name data start sectors"
  have G: "unat (cp_seq (fs_cp f)) + 1 < 2 ^ 64" "0 \<notin> set name" "utf8_valid name" "length data < 2 ^ 32"
    using g by (auto simp: write_guard_def)
  note U = w [unfolded fs_write_unfold, folded sectors_def start_def, folded h_def e_def]
  from U have ok: "length name \<le> MAX_NAME" "\<not> h > log_limit f" by (auto split: if_splits)
  with U obtain d1 where wd: "write_data start data sectors None d = (Done (), d1)"
    and put: "dir_put f h name e d1 = (Done g, d')"
    by (auto elim!: io_bind_DoneE)
  note P = fs_write_data_phase [OF inv disk G(4) ok(1), of None "Done ()" d1,
      folded sectors_def start_def, folded h_def e_def, OF ok(2) wd]
  have "power d1 = None"
    by (rule io_each_keeps [OF wd [unfolded write_data_def], where P = "\<lambda>x. power x = None"])
      (auto simp: pow dest: write_sector_power)
  moreover have "puts f d1 name (Some e) g d'"
    using P(7) G ok(1)
    by (intro dir_put_Done [OF inv P(1) G(1) _ _ P(5,6) [unfolded start_def] put])
      (auto simp: e_def name_str_new_entry)
  ultimately show ?thesis
    using P(2,3) by (intro exI [of _ e]) (auto simp: puts_def start_def)
qed

lemma set_entry_Done:
  assumes inv: "fs_inv f" and disk: "on_disk f d" and g: "set_guard f name entry"
    and ok: "\<And>s. bad d s = None" "power d = None"
    and room: "entry = None \<or> fs_find f name \<noteq> None"
  shows "\<exists>g d'. set_entry f name entry d = (Done g, d') \<and> puts f d name entry g d'"
proof -
  have seq: "unat (cp_seq (fs_cp f)) + 1 < 2 ^ 64" using g by (simp add: set_guard_def)
  have wf: "cp_wf (fs_cp f)" and slot: "fs_slot f < 2" using inv by (auto simp: fs_inv_def)
  show ?thesis
  proof (cases "fs_find f name")
    case (Some i)
    note I = fs_find_Some [OF Some wf]
    show ?thesis
    proof (cases entry)
      case (Some e)
      then have e: "name_str e = name" "entry_ok (cp_log_head (fs_cp f)) e"
        using g by (auto simp: set_guard_def)
      have "cp_wf ((fs_cp f)\<lparr>cp_seq := cp_seq (fs_cp f) + 1, cp_files := (cp_files (fs_cp f))[i := e]\<rparr>)"
        using cp_wf_replace [OF wf I(1), where e = e and q = "cp_seq (fs_cp f) + 1" and h = "cp_log_head (fs_cp f)"] e
        by (simp add: entry_ok_def)
      from commit_succeeds [OF ok(2,1) this, of f]
      obtain g' d' where p: "dir_put f (cp_log_head (fs_cp f)) name e d = (Done g', d')"
        using \<open>fs_find f name = Some i\<close> by (auto simp: dir_put_def Let_def)
      moreover have "set_entry f name entry d = dir_put f (cp_log_head (fs_cp f)) name e d"
        using Some \<open>fs_find f name = Some i\<close> by (simp add: set_entry_def dir_put_def Let_def)
      moreover have "puts f d name (Some e) g' d'"
        using inv p by (intro dir_put_Done [OF inv disk seq e]) (auto simp: fs_inv_def)
      ultimately show ?thesis using Some by auto
    next
      case None
      let ?next = "(fs_cp f)\<lparr>cp_seq := cp_seq (fs_cp f) + 1, cp_count := cp_count (fs_cp f) - 1,
          cp_files := remove_at (cp_files (fs_cp f)) i (cp_count (fs_cp f))\<rparr>"
      obtain d' where p: "commit f ?next d = (Done (f\<lparr>fs_cp := ?next, fs_slot := 1 - fs_slot f\<rparr>), d')"
        using commit_succeeds [OF ok(2,1) cp_wf_remove(1) [OF wf I(1)], of f] by blast
      then have s: "set_entry f name None d = (Done (f\<lparr>fs_cp := ?next, fs_slot := 1 - fs_slot f\<rparr>), d')"
        using Some by (simp add: set_entry_def Let_def)
      note C = commit_Done [OF p slot]
      have "atomic f d (Done (f\<lparr>fs_cp := ?next, fs_slot := 1 - fs_slot f\<rparr>)) d'
          (\<lambda>A. A(name := map_option (file_contents (store d)) None))"
        by (rule set_entry_atomic [OF inv disk seq _ s]) simp
      then show ?thesis
        using s None C fs_remove(2) [OF inv Some refl] unat_seq_grows by (auto simp: puts_def atomic_def)
    qed
  next
    case None
    with room have "entry = None" by simp
    moreover have "fs_entry f name = None" using None by (simp add: fs_entry_def)
    ultimately show ?thesis
      using None inv disk by (auto simp: set_entry_def puts_def fun_upd_idem)
  qed
qed

section \<open>Undo\<close>

text \<open>
  What an agent does under an intent: each mutating step records the entry it is about to replace
  and then writes; an external step is recorded as not undoable and touches nothing here.
\<close>

inductive carried_out :: "Fs \<Rightarrow> disk \<Rightarrow> Step list \<Rightarrow> Fs \<Rightarrow> disk \<Rightarrow> bool" for f d where
  start: "carried_out f d [] f d"
| mutate: "carried_out f d ss g d1 \<Longrightarrow> write_guard g name data \<Longrightarrow>
    fs_write g name data None d1 = (Done h, d2) \<Longrightarrow>
    carried_out f d (ss @ [\<lparr>st_op = op, st_target = name, st_before = fs_entry g name, st_undoable = True\<rparr>]) h d2"
| external: "carried_out f d ss g d1 \<Longrightarrow>
    carried_out f d (ss @ [\<lparr>st_op = op, st_target = name, st_before = b, st_undoable = False\<rparr>]) g d1"

definition undo_plan :: "Step list \<Rightarrow> (bytes \<times> FileEntry option \<times> bool) list" where
  "undo_plan ss = map (\<lambda>s. (st_target s, st_before s, st_undoable s)) (rev ss)"

text \<open>\<open>covers g d1 h d\<close>: \<open>h\<close> on \<open>d\<close> has the directory of \<open>g\<close> on \<open>d1\<close>, and its log still holds the data.\<close>

definition covers :: "Fs \<Rightarrow> disk \<Rightarrow> Fs \<Rightarrow> disk \<Rightarrow> bool" where
  "covers g d1 h d \<longleftrightarrow> fs_inv h \<and> on_disk h d \<and> fs_entry h = fs_entry g
     \<and> cp_log_head (fs_cp g) \<le> cp_log_head (fs_cp h)
     \<and> (\<forall>s. LOG_START \<le> s \<and> unat s < unat (cp_log_head (fs_cp g)) \<longrightarrow> store d s = store d1 s)
     \<and> (\<forall>s. bad d s = None) \<and> power d = None"

lemma carried_out_inv:
  assumes "carried_out f d ss g d1" and "fs_inv f" "on_disk f d" "power d = None"
  shows "fs_inv g \<and> on_disk g d1 \<and> power d1 = None \<and> bad d1 = bad d"
  using assms(1)
proof (induction rule: carried_out.induct)
  case (mutate ss g d1 name data h d2 op)
  then obtain e where "puts g d1 name (Some e) h d2"
    using fs_write_Done [of g d1 name data h d2] by auto
  with mutate show ?case by (simp add: puts_def)
qed (use assms in auto)

lemma undo_loop_covers:
  assumes "carried_out f d ss g d1" and "fs_inv f" "on_disk f d" "power d = None"
    and "covers g d1 h dd" and "unat (cp_seq (fs_cp h)) + length ss + 1 < 2 ^ 64"
  shows "\<exists>f' d'. undo_loop (undo_plan ss) r q h dd =
      (Done (r + length (filter st_undoable ss), q + length (filter (Not \<circ> st_undoable) ss)), f', d')
    \<and> covers f d f' d'"
  using assms
proof (induction arbitrary: h dd r q rule: carried_out.induct)
  case start
  then show ?case by (simp add: undo_plan_def)
next
  case (mutate ss g d1 name data h0 d2 op)
  have inv: "fs_inv g" "on_disk g d1" "power d1 = None"
    using carried_out_inv [OF mutate.hyps(1) mutate.prems(1-3)] by auto
  obtain e where e: "puts g d1 name (Some e) h0 d2"
    using fs_write_Done [OF inv(1,2) mutate.hyps(2) inv(3) mutate.hyps(3)] by blast
  have C: "fs_inv h" "on_disk h dd" "fs_entry h = fs_entry h0" "\<And>s. bad dd s = None" "power dd = None"
    "cp_log_head (fs_cp h0) \<le> cp_log_head (fs_cp h)"
    using mutate.prems(4) by (auto simp: covers_def)
  have "cp_log_head (fs_cp g) \<le> cp_log_head (fs_cp h)" using C(6) e by (auto simp: puts_def)
  then have guard: "set_guard h name (fs_entry g name)"
    using mutate.prems(5) fs_entry_ok [OF inv(1)] fs_entry_iff [of g name] inv(1)
    by (auto simp: set_guard_def fs_inv_def split: option.split intro: entry_ok_mono)
  have "fs_entry h name = Some e" using C(3) e by (simp add: puts_def)
  then have "fs_find h name \<noteq> None" by (auto simp: fs_entry_def)
  then obtain h' d' where s: "set_entry h name (fs_entry g name) dd = (Done h', d')"
    and p: "puts h dd name (fs_entry g name) h' d'"
    using set_entry_Done [OF C(1,2) guard C(4,5)] by blast
  have "covers g d1 h' d'"
    using p e mutate.prems(4) unfolding covers_def puts_def
    by (auto simp: word_le_nat_alt)
  moreover have "unat (cp_seq (fs_cp h')) + length ss + 1 < 2 ^ 64"
    using p mutate.prems(5) by (simp add: puts_def)
  ultimately obtain f' d'' where
    "undo_loop (undo_plan ss) (r + 1) q h' d' =
      (Done (r + 1 + length (filter st_undoable ss), q + length (filter (Not \<circ> st_undoable) ss)), f', d'')"
    "covers f d f' d''"
    using mutate.IH [OF mutate.prems(1-3)] by blast
  then show ?case using s by (simp add: undo_plan_def comp_def)
next
  case (external ss g d1 op name b)
  then have "unat (cp_seq (fs_cp h)) + length ss + 1 < 2 ^ 64" by simp
  from external.IH [OF external.prems(1-4) this, of r "q + 1"] show ?case
    by (auto simp: undo_plan_def comp_def)
qed

lemma find_update_first:
  "(\<And>x. P x \<Longrightarrow> P (g x)) \<Longrightarrow> List.find P (update_first P g xs) = map_option g (List.find P xs)"
  by (induction xs) auto

section \<open>Properties\<close>

text \<open>
  C4: Undoing an intent puts everything back. If the intent's recorded steps are the ones carried
  out, \<open>undo\<close> reverses every undoable step and counts the others as refused, leaves every name with
  the contents it had when the intent began, files that did not exist included, and marks the
  intent undone so that a second \<open>undo\<close> is refused.
\<close>

theorem undo_restores:
  assumes "carried_out f d ss g d1" and "fs_inv f" and "on_disk f d"
    and "power d = None" and "bad d = (\<lambda>_. None)"
    and "List.find (\<lambda>i. in_id i = ident) (INTENTS st) = Some i" and "in_steps i = ss"
    and "in_state i \<noteq> Undone" and "unat (cp_seq (fs_cp g)) + length ss + 1 < 2 ^ 64"
  shows "\<exists>st' f' d'. intent_undo ident st g d1 =
      (Done (length (filter st_undoable ss), length (filter (Not \<circ> st_undoable) ss)), st', f', d')
    \<and> fs_abs f' (store d') = fs_abs f (store d)
    \<and> fst (intent_undo ident st' f' d') = Fail ''already undone''"
proof -
  have I: "fs_inv g" "on_disk g d1" "power d1 = None" "bad d1 = bad d"
    using carried_out_inv [OF assms(1-4)] by auto
  then have "covers g d1 g d1" using assms(5) by (simp add: covers_def)
  then obtain f' d' where u: "undo_loop (undo_plan ss) 0 0 g d1 =
      (Done (length (filter st_undoable ss), length (filter (Not \<circ> st_undoable) ss)), f', d')"
    and c: "covers f d f' d'"
    using undo_loop_covers [OF assms(1-4) _ assms(9), of d1 0 0] by auto
  have "fs_abs f' (store d') = fs_abs f (store d')"
    using c by (simp add: fs_abs_def covers_def fun_eq_iff)
  also have "\<dots> = fs_abs f (store d)"
    using c by (intro fs_abs_frame assms(2)) (auto simp: covers_def)
  finally have "fs_abs f' (store d') = fs_abs f (store d)" .
  then show ?thesis
    using u assms(6-8) by (auto simp: intent_undo_def undo_plan_def find_update_first)
qed

definition demo_intents :: "Step list \<Rightarrow> intents" where
  "demo_intents ss = \<lparr>INTENTS = [\<lparr>in_id = 1, in_goal = [], in_actor = [], in_cap = 0,
     in_steps = ss, in_state = Open\<rparr>], NEXT_ID = 2\<rparr>"

theorem undo_restores_witness:
  "\<exists>g d1 st' f' d'. fs_write (formatted 20000) (ascii ''a'') [1, 2, 3] None fresh_disk = (Done g, d1)
    \<and> intent_undo 1 (demo_intents [\<lparr>st_op = [], st_target = ascii ''a'', st_before = None, st_undoable = True\<rparr>])
        g d1 = (Done (1, 0), st', f', d')
    \<and> fs_abs f' (store d') = fs_abs (formatted 20000) (store fresh_disk)"
proof -
  let ?f = "formatted 20000"
  have guard: "write_guard ?f (ascii ''a'') [1, 2, 3]"
    by (simp add: write_guard_def ascii_def word_le_nat_alt)
  have lim: "\<not> cp_log_head (fs_cp ?f) + ucast (of_nat (div_ceil (length [1 :: u8, 2, 3]) SECTOR_SIZE) :: u32)
      > log_limit ?f"
    by (simp add: formatted_def Let_def Checkpoint_new_def fs_consts div_ceil_def log_limit_def
        word_less_nat_alt)
  have n: "length (ascii ''a'') \<le> MAX_NAME" "cp_count (fs_cp ?f) < MAX_FILES" "fs_entry ?f (ascii ''a'') = None"
    by (simp_all add: ascii_def MAX_NAME_def MAX_FILES_def formatted_def Let_def Checkpoint_new_def
        fs_entry_def fs_find_def fs_files_def)
  obtain g d1 where w: "fs_write ?f (ascii ''a'') [1, 2, 3] None fresh_disk = (Done g, d1)"
    using fs_write_succeeds [OF fresh_disk(4,2) _ n(1) _ lim] n(2) fresh_disk(3) by auto
  obtain e where "puts ?f fresh_disk (ascii ''a'') (Some e) g d1"
    using fs_write_Done [OF fresh_disk(4,1) guard fresh_disk(2) w] by blast
  then have seq: "unat (cp_seq (fs_cp g)) \<le> 2" by (simp add: puts_def)
  let ?ss = "[] @ [\<lparr>st_op = [], st_target = ascii ''a'', st_before = fs_entry ?f (ascii ''a''), st_undoable = True\<rparr>]"
  have c: "carried_out ?f fresh_disk ?ss g d1"
    by (rule mutate [OF start guard w])
  show ?thesis
    using undo_restores [OF c fresh_disk(4,1,2,3), of 1 "demo_intents ?ss"] w seq n(3)
    by (fastforce simp: demo_intents_def)
qed

end
