(* ===== verification/Action_Log.thy ===== *)
theory Action_Log
  imports Disk
begin

text \<open>
  The action log, \<open>kernel/src/audit.rs\<close>: hash-chained records, four to a sector. The log's state is
  a record; \<open>init\<close>, \<open>append\<close>, \<open>verify\<close>, \<open>read\<close> and \<open>corrupt_for_test\<close> are computations over the
  disk, with the clock of \<open>append\<close> as an argument. \<open>first_break\<close> is the reference: the first record
  of a list that is not a record, does not follow its predecessor or does not match its own hash.
  \<open>verify\<close> computes it; appending never breaks the chain; changing any one byte of any record is
  reported at exactly that record.
\<close>

definition RECORD_BYTES :: nat where "RECORD_BYTES = 128"
definition RECORDS_PER_SECTOR :: nat where "RECORDS_PER_SECTOR = SECTOR_SIZE div RECORD_BYTES"
definition NAME_BYTES :: nat where "NAME_BYTES = 32"
definition DETAIL_BYTES :: nat where "DETAIL_BYTES = 40"
definition AUDIT_MAGIC :: u64 where "AUDIT_MAGIC = 0x4A5F415544495430"
definition OFF_MAGIC :: nat where "OFF_MAGIC = 0"
definition OFF_SEQ :: nat where "OFF_SEQ = 8"
definition OFF_PREV :: nat where "OFF_PREV = 16"
definition OFF_TICK :: nat where "OFF_TICK = 24"
definition OFF_ACTOR :: nat where "OFF_ACTOR = 32"
definition OFF_CAP :: nat where "OFF_CAP = 40"
definition OFF_NAME :: nat where "OFF_NAME = 48"
definition OFF_DETAIL :: nat where "OFF_DETAIL = 48 + NAME_BYTES"
definition OFF_HASH :: nat where "OFF_HASH = RECORD_BYTES - 8"

lemmas audit_consts = RECORD_BYTES_def RECORDS_PER_SECTOR_def NAME_BYTES_def DETAIL_BYTES_def
  OFF_MAGIC_def OFF_SEQ_def OFF_PREV_def OFF_TICK_def OFF_ACTOR_def OFF_CAP_def OFF_NAME_def
  OFF_DETAIL_def OFF_HASH_def SECTOR_SIZE_def

record Log =
  lg_start :: u64
  lg_sectors :: u64
  next_seq :: u64
  last_hash :: u64
  lg_ready :: bool
  APPENDED :: u64

definition hash_byte :: "u8 \<Rightarrow> u64 \<Rightarrow> u64" where
  "hash_byte b h = (h XOR ucast b) * 0x100000001B3"

definition hash_record :: "bytes \<Rightarrow> u64 \<Rightarrow> u64" where
  "hash_record rec prev = fold hash_byte (take OFF_HASH rec) (prev XOR 0xcbf29ce484222325)"

definition record_slot :: "bytes \<Rightarrow> nat \<Rightarrow> bytes" where
  "record_slot buf slot = subslice buf (slot * RECORD_BYTES) RECORD_BYTES"

section \<open>Operations\<close>

text \<open>The scan of \<open>init\<close>: the inner loop says whether it broke out of the whole scan.\<close>

fun scan_records :: "bytes \<Rightarrow> nat list \<Rightarrow> u64 \<Rightarrow> u64 \<Rightarrow> bool \<times> u64 \<times> u64" where
  "scan_records buf [] seq hash = (False, seq, hash)"
| "scan_records buf (r # rs) seq hash = (let rec = record_slot buf r in
     if get_u64 rec OFF_MAGIC \<noteq> AUDIT_MAGIC then (True, seq, hash)
     else scan_records buf rs (get_u64 rec OFF_SEQ + 1) (get_u64 rec OFF_HASH))"

fun scan_sectors :: "u64 \<Rightarrow> nat list \<Rightarrow> u64 \<Rightarrow> u64 \<Rightarrow> (disk, u64 \<times> u64) io" where
  "scan_sectors start [] seq hash = io_return (seq, hash)"
| "scan_sectors start (s # ss) seq hash =
     io_bind (io_catch (read_sector (start + of_nat s))) (\<lambda>r. case r of
       None \<Rightarrow> io_return (seq, hash)
     | Some buf \<Rightarrow> (case scan_records buf [0..<RECORDS_PER_SECTOR] seq hash of
         (stop, seq', hash') \<Rightarrow>
           if stop then io_return (seq', hash') else scan_sectors start ss seq' hash'))"

definition audit_init :: "u64 \<Rightarrow> u64 \<Rightarrow> Log \<Rightarrow> (disk, Log) io" where
  "audit_init start sectors log = (let capacity = sectors * of_nat RECORDS_PER_SECTOR in
     io_bind (scan_sectors start [0..<unat sectors] 0 0) (\<lambda>(seq, hash).
       io_return (log\<lparr>lg_start := start, lg_sectors := sectors, next_seq := min seq capacity,
                      last_hash := hash, lg_ready := True\<rparr>)))"

definition new_record :: "u64 \<Rightarrow> u64 \<Rightarrow> u64 \<Rightarrow> bytes \<Rightarrow> u64 \<Rightarrow> bytes \<Rightarrow> bytes \<Rightarrow> bytes" where
  "new_record seq prev now actor cap name detail = (let
     rec = replicate RECORD_BYTES 0;
     rec = put_u64 rec OFF_MAGIC AUDIT_MAGIC;
     rec = put_u64 rec OFF_SEQ seq;
     rec = put_u64 rec OFF_PREV prev;
     rec = put_u64 rec OFF_TICK now;
     rec = put_u64 rec OFF_ACTOR (of_nat (length actor));
     rec = put_u64 rec OFF_CAP cap;
     rec = overwrite rec OFF_NAME (take NAME_BYTES name);
     rec = overwrite rec OFF_DETAIL (take DETAIL_BYTES detail)
   in put_u64 rec OFF_HASH (hash_record rec prev))"

definition audit_append :: "u64 \<Rightarrow> bytes \<Rightarrow> u64 \<Rightarrow> bytes \<Rightarrow> bytes \<Rightarrow> Log \<Rightarrow> (disk, u64 \<times> Log) io" where
  "audit_append now actor cap name detail log =
    (if \<not> lg_ready log then io_fail ''no audit log''
     else let start = lg_start log; seq = next_seq log; prev = last_hash log; sectors = lg_sectors log in
       if seq \<ge> sectors * of_nat RECORDS_PER_SECTOR then io_fail ''audit log is full''
       else let rec = new_record seq prev now actor cap name detail;
                hash = get_u64 rec OFF_HASH;
                sector = start + of_nat (unat seq div RECORDS_PER_SECTOR);
                slot = unat seq mod RECORDS_PER_SECTOR in
         io_bind (read_sector sector) (\<lambda>buf.
         io_bind (write_sector sector (overwrite buf (slot * RECORD_BYTES) rec)) (\<lambda>_.
         io_return (seq, log\<lparr>next_seq := seq + 1, last_hash := hash, APPENDED := APPENDED log + 1\<rparr>))))"

record Verified =
  vf_records :: nat
  vf_first_bad :: "nat option"

definition bad_record :: "bytes \<Rightarrow> u64 \<Rightarrow> bool" where
  "bad_record rec prev \<longleftrightarrow> get_u64 rec OFF_MAGIC \<noteq> AUDIT_MAGIC \<or> get_u64 rec OFF_PREV \<noteq> prev
     \<or> hash_record rec prev \<noteq> get_u64 rec OFF_HASH"

fun verify_loop :: "u64 \<Rightarrow> nat list \<Rightarrow> u64 \<Rightarrow> bytes \<Rightarrow> nat \<Rightarrow> (disk, Verified) io" where
  "verify_loop start [] prev buf checked = io_return \<lparr>vf_records = checked, vf_first_bad = None\<rparr>"
| "verify_loop start (seq # seqs) prev buf checked =
     io_bind (if seq mod RECORDS_PER_SECTOR = 0
              then io_catch (read_sector (start + of_nat (seq div RECORDS_PER_SECTOR)))
              else io_return (Some buf)) (\<lambda>r. case r of
       None \<Rightarrow> io_return \<lparr>vf_records = checked, vf_first_bad = Some seq\<rparr>
     | Some buf \<Rightarrow>
         let rec = record_slot buf (seq mod RECORDS_PER_SECTOR) in
         if bad_record rec prev then io_return \<lparr>vf_records = checked, vf_first_bad = Some seq\<rparr>
         else verify_loop start seqs (get_u64 rec OFF_HASH) buf (checked + 1))"

definition audit_verify :: "Log \<Rightarrow> (disk, Verified) io" where
  "audit_verify log = verify_loop (lg_start log) [0..<unat (next_seq log)] 0 (replicate SECTOR_SIZE 0) 0"

text \<open>Returns \<open>(seq, tick, cap)\<close> with the name and detail fields the caller's buffers receive.\<close>

definition audit_read :: "Log \<Rightarrow> u64 \<Rightarrow> (disk, (u64 \<times> u64 \<times> u64 \<times> bytes \<times> bytes) option) io" where
  "audit_read log seq = io_bind
     (io_catch (read_sector (lg_start log + of_nat (unat seq div RECORDS_PER_SECTOR)))) (\<lambda>r. io_return
       (case r of None \<Rightarrow> None
        | Some buf \<Rightarrow> let rec = record_slot buf (unat seq mod RECORDS_PER_SECTOR) in
            if get_u64 rec OFF_MAGIC \<noteq> AUDIT_MAGIC then None
            else Some (get_u64 rec OFF_SEQ, get_u64 rec OFF_TICK, get_u64 rec OFF_CAP,
                       subslice rec OFF_NAME NAME_BYTES, subslice rec OFF_DETAIL DETAIL_BYTES)))"

definition audit_as_str :: "bytes \<Rightarrow> bytes" where
  "audit_as_str b = str_or_invalid (until_nul b)"

definition corrupt_for_test :: "Log \<Rightarrow> u64 \<Rightarrow> nat \<Rightarrow> (disk, unit) io" where
  "corrupt_for_test log seq byte = (let
     sector = lg_start log + of_nat (unat seq div RECORDS_PER_SECTOR);
     slot = unat seq mod RECORDS_PER_SECTOR in
     io_bind (read_sector sector) (\<lambda>buf.
       let at = slot * RECORD_BYTES + min byte (OFF_HASH - 1) in
       write_sector sector (buf[at := buf ! at XOR 0xff])))"

section \<open>The hash\<close>

text \<open>The FNV prime is odd, so multiplying by it is injective: its inverse modulo \<open>2 ^ 64\<close> is below.\<close>

lemma fnv_prime_unit: "(0x100000001B3 :: u64) * 0xCE965057AFF6957B = 1"
  by simp

lemma fnv_inverse: "(x :: u64) * 0x100000001B3 * 0xCE965057AFF6957B = x"
  by (simp only: mult.assoc fnv_prime_unit mult_1_right)

lemma hash_byte_inj_state: "hash_byte b s = hash_byte b t \<Longrightarrow> s = t"
proof -
  assume "hash_byte b s = hash_byte b t"
  then have "s XOR ucast b = t XOR ucast b" unfolding hash_byte_def by (metis fnv_inverse)
  then have "(s XOR ucast b) XOR ucast b = (t XOR ucast b) XOR ucast b" by simp
  then show "s = t" by (simp add: xor.assoc)
qed

lemma hash_byte_inj_byte: "hash_byte a s = hash_byte b s \<Longrightarrow> a = b"
proof -
  assume "hash_byte a s = hash_byte b s"
  then have "s XOR ucast a = s XOR ucast b" unfolding hash_byte_def by (metis fnv_inverse)
  then have "s XOR (s XOR ucast a) = s XOR (s XOR (ucast b :: u64))" by simp
  then have "(ucast a :: u64) = ucast b" by (simp add: xor.assoc [symmetric])
  then show "a = b" by (rule ucast_up_inj) simp
qed

interpretation fnv: mixer hash_byte
  by unfold_locales (auto dest: hash_byte_inj_state hash_byte_inj_byte)

section \<open>The reference: a list of records\<close>

fun first_break :: "bytes list \<Rightarrow> u64 \<Rightarrow> nat option" where
  "first_break [] prev = None"
| "first_break (r # rs) prev =
     (if bad_record r prev then Some 0 else map_option Suc (first_break rs (get_u64 r OFF_HASH)))"

definition chain_end :: "bytes list \<Rightarrow> u64 \<Rightarrow> u64" where
  "chain_end rs prev = (if rs = [] then prev else get_u64 (last rs) OFF_HASH)"

lemma chain_end_simps [simp]:
  "chain_end [] prev = prev"
  "chain_end (r # rs) prev = chain_end rs (get_u64 r OFF_HASH)"
  by (auto simp: chain_end_def)

lemma first_break_append:
  "first_break (rs @ ss) prev = (case first_break rs prev of
      Some k \<Rightarrow> Some k
    | None \<Rightarrow> (case first_break ss (chain_end rs prev) of
        None \<Rightarrow> None | Some j \<Rightarrow> Some (length rs + j)))"
  by (induction rs arbitrary: prev)
    (auto split: option.split)

lemma first_break_replace:
  assumes "first_break rs prev = None" and "k < length rs"
    and "\<And>q. \<not> bad_record (rs ! k) q \<Longrightarrow> bad_record r q"
  shows "first_break (rs[k := r]) prev = Some k"
proof -
  have rs: "rs = take k rs @ rs ! k # drop (Suc k) rs" using assms(2) by (rule id_take_nth_drop)
  have "first_break (take k rs @ rs ! k # drop (Suc k) rs) prev = None" using assms(1) rs by simp
  then have "first_break (take k rs) prev = None" "\<not> bad_record (rs ! k) (chain_end (take k rs) prev)"
    by (auto simp: first_break_append split: option.splits if_splits)
  with assms(2,3) show ?thesis
    by (simp add: upd_conv_take_nth_drop first_break_append)
qed

text \<open>Changing one byte of a good record makes it a bad one, whichever byte it is.\<close>

lemma bad_record_single_byte:
  assumes good: "\<not> bad_record rec prev" and len: "length rec = RECORD_BYTES" and k: "k < RECORD_BYTES"
    and v: "v \<noteq> rec ! k"
  shows "bad_record (rec[k := v]) prev"
proof (cases "k < OFF_HASH")
  case True
  have "hash_record (rec[k := v]) prev \<noteq> hash_record rec prev"
    unfolding hash_record_def
    using True v len by (intro fnv.fold_single_diff [of _ _ k]) (auto simp: audit_consts)
  moreover have "get_u64 (rec[k := v]) OFF_HASH = get_u64 rec OFF_HASH"
    using True by (simp add: get_u64_def subslice_def)
  ultimately show ?thesis using good by (auto simp: bad_record_def)
next
  case False
  have "subslice (rec[k := v]) OFF_HASH 8 \<noteq> subslice rec OFF_HASH 8"
  proof
    assume eq: "subslice (rec[k := v]) OFF_HASH 8 = subslice rec OFF_HASH 8"
    have "subslice (rec[k := v]) OFF_HASH 8 ! (k - OFF_HASH) = v"
      using False k len by (simp add: nth_subslice audit_consts)
    moreover have "subslice rec OFF_HASH 8 ! (k - OFF_HASH) = rec ! k"
      using False k len by (simp add: nth_subslice audit_consts)
    ultimately show False using eq v by simp
  qed
  then have "le_bytes 8 (get_u64 (rec[k := v]) OFF_HASH) \<noteq> le_bytes 8 (get_u64 rec OFF_HASH)"
    using len by (simp add: get_u64_def audit_consts)
  then have "get_u64 (rec[k := v]) OFF_HASH \<noteq> get_u64 rec OFF_HASH" by auto
  moreover have "hash_record (rec[k := v]) prev = hash_record rec prev"
    using False by (simp add: hash_record_def)
  ultimately show ?thesis using good by (auto simp: bad_record_def)
qed

section \<open>The log on the disk\<close>

definition slot_of :: "(u64 \<Rightarrow> bytes) \<Rightarrow> u64 \<Rightarrow> nat \<Rightarrow> bytes" where
  "slot_of m start i =
     record_slot (m (start + of_nat (i div RECORDS_PER_SECTOR))) (i mod RECORDS_PER_SECTOR)"

definition slots :: "(u64 \<Rightarrow> bytes) \<Rightarrow> u64 \<Rightarrow> nat \<Rightarrow> bytes list" where
  "slots m start n = map (slot_of m start) [0..<n]"

lemma verify_loop_first_break:
  assumes ok: "\<And>s. bad d s = None"
    and "k mod RECORDS_PER_SECTOR \<noteq> 0 \<longrightarrow> buf = store d (start + of_nat (k div RECORDS_PER_SECTOR))"
  shows "verify_loop start [k..<k + n] prev buf c d =
    (Done (case first_break (map (slot_of (store d) start) [k..<k + n]) prev of
        None \<Rightarrow> \<lparr>vf_records = c + n, vf_first_bad = None\<rparr>
      | Some j \<Rightarrow> \<lparr>vf_records = c + j, vf_first_bad = Some (k + j)\<rparr>), d)"
  using assms(2)
proof (induction n arbitrary: k prev buf c)
  case 0
  then show ?case by simp
next
  case (Suc n)
  let ?sec = "store d (start + of_nat (k div RECORDS_PER_SECTOR))"
  have up: "[k..<k + Suc n] = k # [Suc k..<Suc k + n]" by (simp add: upt_conv_Cons)
  have nxt: "Suc k mod RECORDS_PER_SECTOR \<noteq> 0 \<longrightarrow>
      ?sec = store d (start + of_nat (Suc k div RECORDS_PER_SECTOR))"
    by (simp add: mod_Suc div_Suc RECORDS_PER_SECTOR_def)
  have "verify_loop start [k..<k + Suc n] prev buf c d =
      (if bad_record (slot_of (store d) start k) prev
       then (Done \<lparr>vf_records = c, vf_first_bad = Some k\<rparr>, d)
       else verify_loop start [Suc k..<Suc k + n] (get_u64 (slot_of (store d) start k) OFF_HASH) ?sec (c + 1) d)"
    unfolding up using Suc.prems by (auto simp: io_bind_def io_catch_def ok Let_def slot_of_def simp del: upt_Suc)
  then show ?case
    unfolding Suc.IH [OF nxt] unfolding up by (auto simp del: upt_Suc split: option.split)
qed

lemma audit_verify_eq:
  assumes "\<And>s. bad d s = None"
  shows "audit_verify log d =
    (Done (case first_break (slots (store d) (lg_start log) (unat (next_seq log))) 0 of
        None \<Rightarrow> \<lparr>vf_records = unat (next_seq log), vf_first_bad = None\<rparr>
      | Some j \<Rightarrow> \<lparr>vf_records = j, vf_first_bad = Some j\<rparr>), d)"
  using verify_loop_first_break [OF assms, of 0 _ _ "unat (next_seq log)"]
  by (simp add: audit_verify_def slots_def split: option.split)

text \<open>
  The state \<open>append\<close> relies on and keeps: the region does not wrap around the address space, the
  records so far form a chain, and \<open>last_hash\<close> is the end of it.
\<close>

definition log_ok :: "Log \<Rightarrow> disk \<Rightarrow> bool" where
  "log_ok log d \<longleftrightarrow> lg_ready log \<and> unat (lg_start log) + unat (lg_sectors log) < 2 ^ 64
     \<and> unat (lg_sectors log) * RECORDS_PER_SECTOR < 2 ^ 64
     \<and> unat (next_seq log) \<le> unat (lg_sectors log) * RECORDS_PER_SECTOR
     \<and> (\<forall>s. length (store d s) = SECTOR_SIZE)
     \<and> first_break (slots (store d) (lg_start log) (unat (next_seq log))) 0 = None
     \<and> last_hash log = chain_end (slots (store d) (lg_start log) (unat (next_seq log))) 0
     \<and> (\<forall>i<unat (next_seq log). get_u64 (slot_of (store d) (lg_start log) i) OFF_SEQ = of_nat i)"

lemma length_new_record [lens]: "length (new_record seq prev now actor cap name detail) = RECORD_BYTES"
  by (simp add: new_record_def Let_def lens audit_consts)

lemma new_record_fields:
  shows "get_u64 (new_record seq prev now actor cap name detail) OFF_MAGIC = AUDIT_MAGIC"
    and "get_u64 (new_record seq prev now actor cap name detail) OFF_SEQ = seq"
    and "get_u64 (new_record seq prev now actor cap name detail) OFF_PREV = prev"
    and "get_u64 (new_record seq prev now actor cap name detail) OFF_TICK = now"
    and "get_u64 (new_record seq prev now actor cap name detail) OFF_CAP = cap"
  by (simp_all add: new_record_def Let_def get_u64_def lens audit_consts layout)
    (simp_all add: put_u64_def lens layout)

definition padded :: "nat \<Rightarrow> bytes \<Rightarrow> bytes" where
  "padded n s = take n s @ replicate (n - length s) 0"

lemma new_record_name:
  "subslice (new_record seq prev now actor cap name detail) OFF_NAME NAME_BYTES = padded NAME_BYTES name"
  by (simp add: new_record_def Let_def lens audit_consts layout)
    (simp add: put_u64_def lens layout subslice_overwrite_prefix padded_def min_def)

lemma new_record_detail:
  "subslice (new_record seq prev now actor cap name detail) OFF_DETAIL DETAIL_BYTES = padded DETAIL_BYTES detail"
  by (simp add: new_record_def Let_def lens audit_consts layout)
    (simp add: put_u64_def lens layout subslice_overwrite_prefix padded_def min_def)

lemma new_record_good: "\<not> bad_record (new_record seq prev now actor cap name detail) prev"
proof -
  have "hash_record (put_u64 rec OFF_HASH h) prev = hash_record rec prev"
    if "length rec = RECORD_BYTES" for rec h
    using that by (simp add: hash_record_def put_u64_def take_overwrite_below audit_consts)
  then have "hash_record (new_record seq prev now actor cap name detail) prev =
      get_u64 (new_record seq prev now actor cap name detail) OFF_HASH"
    by (simp add: new_record_def Let_def lens audit_consts get_put_u64)
  then show ?thesis by (simp add: bad_record_def new_record_fields)
qed

lemma slot_of_append:
  assumes "unat start + n < 2 ^ 64" and "i div RECORDS_PER_SECTOR < n" and "j div RECORDS_PER_SECTOR < n"
    and "\<And>s. length (m s) = SECTOR_SIZE" and "length rec = RECORD_BYTES"
    and m': "m' = m(start + of_nat (j div RECORDS_PER_SECTOR) :=
      overwrite (m (start + of_nat (j div RECORDS_PER_SECTOR))) (j mod RECORDS_PER_SECTOR * RECORD_BYTES) rec)"
  shows "slot_of m' start i = (if i = j then rec else slot_of m start i)"
proof (cases "i div RECORDS_PER_SECTOR = j div RECORDS_PER_SECTOR")
  case True
  have mod: "i mod 4 < 4" "j mod 4 < 4" by simp_all
  then have fit: "j mod 4 * 128 + 128 \<le> 512" by linarith
  show ?thesis
  proof (cases "i = j")
    case True
    with fit assms(4,5) m' show ?thesis
      by (simp add: slot_of_def record_slot_def subslice_overwrite_same audit_consts)
  next
    case False
    with True have "i mod 4 \<noteq> j mod 4" by (simp add: audit_consts) (metis div_mult_mod_eq)
    then have "i mod 4 * 128 + 128 \<le> j mod 4 * 128 \<or> j mod 4 * 128 + 128 \<le> i mod 4 * 128"
      by linarith
    with False True fit assms(4,5) m' show ?thesis
      by (simp add: slot_of_def record_slot_def subslice_overwrite_disj audit_consts)
  qed
next
  case False
  then have "start + of_nat (i div RECORDS_PER_SECTOR) \<noteq> start + of_nat (j div RECORDS_PER_SECTOR)"
    using inj_onD [OF inj_on_add_of_nat [of start n], of "i div RECORDS_PER_SECTOR" "j div RECORDS_PER_SECTOR"]
      assms(1-3) by auto
  with False m' show ?thesis by (auto simp: slot_of_def)
qed

lemma slots_Suc: "slots m start (Suc n) = slots m start n @ [slot_of m start n]"
  by (simp add: slots_def)

lemma div_lt_sectors: "(i :: nat) < n * RECORDS_PER_SECTOR \<Longrightarrow> i div RECORDS_PER_SECTOR < n"
  by (simp add: less_mult_imp_div_less)

lemma audit_append_cases:
  assumes ok: "log_ok log d" and a: "audit_append now actor cap name detail log d = (r, d')"
  obtains (appended) log' where "r = Done (next_seq log, log')" "log_ok log' d'"
      "unat (next_seq log') = unat (next_seq log) + 1" "lg_start log' = lg_start log" "lg_sectors log' = lg_sectors log"
      "slots (store d') (lg_start log) (unat (next_seq log) + 1) = slots (store d) (lg_start log) (unat (next_seq log))
         @ [new_record (next_seq log) (last_hash log) now actor cap name detail]" "bad d' = bad d"
    | (stopped) "\<And>x. r \<noteq> Done x" "store d' = store d" "bad d' = bad d"
proof -
  define n where "n = unat (next_seq log)"
  define rec where "rec = new_record (next_seq log) (last_hash log) now actor cap name detail"
  let ?R = RECORDS_PER_SECTOR and ?start = "lg_start log"
  let ?sec = "?start + of_nat (n div ?R)"
  have L: "lg_ready log" "unat ?start + unat (lg_sectors log) < 2 ^ 64" "unat (lg_sectors log) * ?R < 2 ^ 64"
    "n \<le> unat (lg_sectors log) * ?R" "\<And>s. length (store d s) = SECTOR_SIZE"
    "first_break (slots (store d) ?start n) 0 = None" "last_hash log = chain_end (slots (store d) ?start n) 0"
    "\<And>i. i < n \<Longrightarrow> get_u64 (slot_of (store d) ?start i) OFF_SEQ = of_nat i"
    using ok by (auto simp: log_ok_def n_def)
  have cap: "unat (lg_sectors log * of_nat ?R) = unat (lg_sectors log) * ?R"
    using L(3) by (simp add: unat_word_ariths unat_of_nat audit_consts)
  show thesis
  proof (cases "next_seq log \<ge> lg_sectors log * of_nat ?R \<or> bad d ?sec \<noteq> None \<or> power d = Some 0")
    case True
    then show thesis
      using a L(1,5) by (intro stopped) (auto simp: audit_append_def Let_def io_bind_def n_def read_sector_def
          write_sector_def lens length_overwrite split: if_splits option.splits)
  next
    case False
    then have nlt: "n < unat (lg_sectors log) * ?R"
      using cap by (simp add: word_le_nat_alt n_def)
    let ?new = "overwrite (store d ?sec) (n mod ?R * RECORD_BYTES) rec"
    have "n mod 4 < 4" by simp
    then have fit: "n mod ?R * RECORD_BYTES + length rec \<le> length (store d ?sec)"
      using L(5) [of ?sec] by (simp add: rec_def lens audit_consts)
    then have len: "length ?new = SECTOR_SIZE" using L(5) by (simp add: length_overwrite)
    define log' where "log' = log\<lparr>next_seq := next_seq log + 1, last_hash := get_u64 rec OFF_HASH,
        APPENDED := APPENDED log + 1\<rparr>"
    define m' where "m' = (store d)(?sec := ?new)"
    have res: "r = Done (next_seq log, log')" "store d' = m'" "bad d' = bad d"
      using a False L(1) len
      by (auto simp: audit_append_def Let_def io_bind_def n_def [symmetric] rec_def [symmetric] read_sector_def
          write_sector_def log'_def m'_def split: option.splits)
    have S: "slot_of m' ?start i = (if i = n then rec else slot_of (store d) ?start i)" if "i \<le> n" for i
      using L(2,5) that nlt
      by (intro slot_of_append [where n = "unat (lg_sectors log)"])
        (auto simp: m'_def rec_def lens intro!: div_lt_sectors)
    have pre: "slots m' ?start n = slots (store d) ?start n" by (simp add: slots_def S)
    have all: "slots m' ?start (Suc n) = slots (store d) ?start n @ [rec]"
      by (simp add: slots_Suc pre S)
    have seq: "unat (next_seq log + 1) = n + 1"
      using nlt L(3) unat_add_of_nat [of "next_seq log" 1] by (simp add: n_def)
    have "\<not> bad_record rec (last_hash log)" unfolding rec_def by (rule new_record_good)
    then have "first_break (slots m' ?start (Suc n)) 0 = None"
      unfolding all using L(6,7) by (simp add: first_break_append)
    moreover have "get_u64 (slot_of m' ?start i) OFF_SEQ = of_nat i" if "i < n + 1" for i
      using that L(8) S [of i] by (auto simp: rec_def new_record_fields n_def less_Suc_eq)
    moreover have "length (m' s) = SECTOR_SIZE" for s using L(5) len by (simp add: m'_def)
    ultimately have "log_ok log' d'"
      using L(1-3) nlt seq res(2) all by (auto simp: log_ok_def log'_def chain_end_def)
    with res seq all show thesis
      by (intro appended [of log']) (auto simp: log'_def n_def [symmetric] rec_def [symmetric])
  qed
qed

section \<open>Finding the end of the log\<close>

text \<open>The scan of \<open>init\<close> on the list of slots: it follows magic numbers and nothing else.\<close>

fun scan_list :: "bytes list \<Rightarrow> u64 \<Rightarrow> u64 \<Rightarrow> u64 \<times> u64" where
  "scan_list [] seq hash = (seq, hash)"
| "scan_list (r # rs) seq hash =
     (if get_u64 r OFF_MAGIC \<noteq> AUDIT_MAGIC then (seq, hash)
      else scan_list rs (get_u64 r OFF_SEQ + 1) (get_u64 r OFF_HASH))"

lemma scan_records_list:
  "scan_list (map (record_slot buf) js @ ss) seq hash =
     (case scan_records buf js seq hash of (stop, seq', hash') \<Rightarrow>
        if stop then (seq', hash') else scan_list ss seq' hash')"
  by (induction js arbitrary: seq hash) (auto simp: Let_def)

lemma slots_of_sector:
  "map (slot_of m start) [s * RECORDS_PER_SECTOR..<Suc s * RECORDS_PER_SECTOR] =
     map (record_slot (m (start + of_nat s))) [0..<RECORDS_PER_SECTOR]"
  by (rule nth_equalityI) (auto simp: slot_of_def audit_consts)

lemma scan_sectors_list:
  assumes "\<And>s. bad d s = None"
  shows "scan_sectors start [k..<k + n] seq hash d =
    (Done (scan_list (map (slot_of (store d) start)
       [k * RECORDS_PER_SECTOR..<(k + n) * RECORDS_PER_SECTOR]) seq hash), d)"
proof (induction n arbitrary: k seq hash)
  case (Suc n)
  let ?R = RECORDS_PER_SECTOR and ?m = "store d"
  have up: "[k..<k + Suc n] = k # [Suc k..<Suc k + n]" by (simp add: upt_conv_Cons)
  have "[k * ?R..<(k + Suc n) * ?R] = [k * ?R..<Suc k * ?R] @ [Suc k * ?R..<(Suc k + n) * ?R]"
    using upt_add_eq_append [of "k * ?R" "Suc k * ?R" "n * ?R"] by (simp add: algebra_simps)
  then have "map (slot_of ?m start) [k * ?R..<(k + Suc n) * ?R] =
      map (record_slot (?m (start + of_nat k))) [0..<?R] @ map (slot_of ?m start) [Suc k * ?R..<(Suc k + n) * ?R]"
    unfolding slots_of_sector [symmetric] by simp
  then show ?case
    unfolding up using assms Suc.IH [of "Suc k"]
    by (simp add: io_bind_def io_catch_def scan_records_list split: prod.split del: upt_Suc)
qed simp

lemma scan_list_append:
  assumes "\<forall>r\<in>set rs. get_u64 r OFF_MAGIC = AUDIT_MAGIC"
  shows "scan_list (rs @ ss) seq hash =
    scan_list ss (if rs = [] then seq else get_u64 (last rs) OFF_SEQ + 1) (chain_end rs hash)"
  using assms by (induction rs arbitrary: seq hash) auto

lemma first_break_None_magic: "first_break rs prev = None \<Longrightarrow> r \<in> set rs \<Longrightarrow> get_u64 r OFF_MAGIC = AUDIT_MAGIC"
  by (induction rs arbitrary: prev) (auto simp: bad_record_def split: if_splits)

lemma audit_init_scan:
  assumes ok: "log_ok log d" and r: "\<And>s. bad d s = None"
  shows "audit_init (lg_start log) (lg_sectors log) log0 d =
    (let (seq, hash) = scan_list (map (slot_of (store d) (lg_start log))
         [unat (next_seq log)..<unat (lg_sectors log) * RECORDS_PER_SECTOR]) (next_seq log) (last_hash log)
     in (Done (log0\<lparr>lg_start := lg_start log, lg_sectors := lg_sectors log,
           next_seq := min seq (lg_sectors log * of_nat RECORDS_PER_SECTOR), last_hash := hash,
           lg_ready := True\<rparr>), d))"
proof -
  let ?n = "unat (next_seq log)" and ?c = "unat (lg_sectors log) * RECORDS_PER_SECTOR"
  let ?rs = "slots (store d) (lg_start log) ?n"
  have n: "?n \<le> ?c" and fb: "first_break ?rs 0 = None" and le: "last_hash log = chain_end ?rs 0"
    and seqs: "\<And>i. i < ?n \<Longrightarrow> get_u64 (slot_of (store d) (lg_start log) i) OFF_SEQ = of_nat i"
    using ok by (auto simp: log_ok_def)
  have split: "map (slot_of (store d) (lg_start log)) [0..<?c] =
      ?rs @ map (slot_of (store d) (lg_start log)) [?n..<?c]"
    using n upt_add_eq_append [of 0 ?n "?c - ?n"] by (simp add: slots_def map_append [symmetric] del: map_append)
  have last: "(if ?rs = [] then 0 else get_u64 (last ?rs) OFF_SEQ + 1) = next_seq log"
  proof (cases "?n")
    case 0
    then show ?thesis by (simp add: slots_def unat_eq_0)
  next
    case (Suc k)
    have "next_seq log = of_nat (Suc k)" unfolding Suc [symmetric] by simp
    then show ?thesis using Suc seqs [of k] by (simp add: slots_def add.commute)
  qed
  have "scan_list (map (slot_of (store d) (lg_start log)) [0..<?c]) 0 0 =
      scan_list (map (slot_of (store d) (lg_start log)) [?n..<?c]) (next_seq log) (last_hash log)"
    unfolding split using first_break_None_magic [OF fb]
    by (subst scan_list_append) (auto simp only: last le)
  then show ?thesis
    using scan_sectors_list [OF r, of "lg_start log" 0 "unat (lg_sectors log)" 0 0]
    by (simp add: audit_init_def Let_def io_bind_def split: prod.split)
qed

section \<open>Properties\<close>

text \<open>
  C5: Appending to a good log gives a good log. \<open>append\<close> returns the next sequence number, the whole
  chain then verifies with one record more, the record reads back with its time, capability, name
  and detail, and every earlier record is untouched; when \<open>append\<close> fails or power is lost inside it,
  the chain still verifies exactly as before.
\<close>

theorem audit_append_keeps_chain:
  assumes "log_ok log d" and "\<And>s. bad d s = None"
    and "audit_append now actor cap name detail log d = (r, d')"
  shows "case r of
      Done (seq, log') \<Rightarrow> seq = next_seq log \<and> log_ok log' d'
        \<and> audit_verify log' d' = (Done \<lparr>vf_records = unat (next_seq log) + 1, vf_first_bad = None\<rparr>, d')
        \<and> audit_read log' seq d' =
            (Done (Some (seq, now, cap, padded NAME_BYTES name, padded DETAIL_BYTES detail)), d')
        \<and> (\<forall>i<unat seq. slot_of (store d') (lg_start log) i = slot_of (store d) (lg_start log) i)
    | _ \<Rightarrow> log_ok log d' \<and>
        audit_verify log d' = (Done \<lparr>vf_records = unat (next_seq log), vf_first_bad = None\<rparr>, d')"
  using assms(1,3)
proof (cases rule: audit_append_cases)
  case (appended log')
  let ?n = "unat (next_seq log)" and ?rec = "new_record (next_seq log) (last_hash log) now actor cap name detail"
  have ok': "\<And>s. bad d' s = None" using appended assms(2) by simp
  have all: "map (slot_of (store d') (lg_start log)) [0..<?n + 1] =
      map (slot_of (store d) (lg_start log)) [0..<?n] @ [?rec]"
    using appended(6) by (simp add: slots_def)
  then have "slot_of (store d') (lg_start log) ?n = ?rec" by simp
  then have "record_slot (store d' (lg_start log + of_nat (?n div RECORDS_PER_SECTOR))) (?n mod RECORDS_PER_SECTOR) = ?rec"
    by (simp add: slot_of_def)
  then have "audit_read log' (next_seq log) d' =
      (Done (Some (next_seq log, now, cap, padded NAME_BYTES name, padded DETAIL_BYTES detail)), d')"
    using appended(4) ok' by (simp add: audit_read_def io_bind_def io_catch_def Let_def new_record_fields
        new_record_name new_record_detail)
  moreover have "\<forall>i<?n. slot_of (store d') (lg_start log) i = slot_of (store d) (lg_start log) i"
    using all by simp
  moreover have "audit_verify log' d' = (Done \<lparr>vf_records = ?n + 1, vf_first_bad = None\<rparr>, d')"
    using appended(2,3) by (simp add: audit_verify_eq [OF ok'] log_ok_def)
  ultimately show ?thesis using appended(1,2) by simp
next
  case stopped
  then have "\<And>s. bad d' s = None" using assms(2) by simp
  then have "log_ok log d' \<and> audit_verify log d' = (Done \<lparr>vf_records = unat (next_seq log), vf_first_bad = None\<rparr>, d')"
    using stopped assms(1) by (simp add: audit_verify_eq log_ok_def)
  then show ?thesis using stopped(1) by (cases r) auto
qed

definition empty_log :: Log where
  "empty_log = \<lparr>lg_start = 100, lg_sectors = 4, next_seq = 0, last_hash = 0, lg_ready = True, APPENDED = 0\<rparr>"

definition zero_disk :: disk where
  "zero_disk = \<lparr>store = \<lambda>_. replicate SECTOR_SIZE 0, bad = \<lambda>_. None, power = None\<rparr>"

lemma empty_log_ok: "log_ok empty_log zero_disk" "bad zero_disk s = None"
  by (simp_all add: log_ok_def empty_log_def zero_disk_def slots_def audit_consts)

theorem audit_append_keeps_chain_witness:
  "\<exists>log' d'. audit_append 7 [] 3 (ascii ''send'') [] empty_log zero_disk = (Done (0, log'), d')
     \<and> audit_verify log' d' = (Done \<lparr>vf_records = 1, vf_first_bad = None\<rparr>, d')"
proof -
  obtain r d' where a: "audit_append 7 [] 3 (ascii ''send'') [] empty_log zero_disk = (r, d')"
    by (cases "audit_append 7 [] 3 (ascii ''send'') [] empty_log zero_disk") auto
  have "\<exists>x. r = Done x"
    using a by (auto simp: audit_append_def Let_def empty_log_def zero_disk_def io_bind_def read_sector_def
        write_sector_def length_overwrite lens audit_consts word_le_nat_alt)
  then obtain seq log' where r: "r = Done (seq, log')" by auto
  from audit_append_keeps_chain [OF empty_log_ok a] a r show ?thesis
    by (simp add: empty_log_def)
qed

text \<open>
  C6: Tamper evidence. Changing any single byte of any record of a good log, in its fields or in its
  stored hash, is found by \<open>verify\<close>, which names exactly that record as the first bad one. The
  hash is not keyed: this is what it detects, and more than one changed byte can in general be
  hidden.
\<close>

theorem audit_single_byte_tamper:
  assumes "log_ok log d" and "\<And>s. bad d s = None"
    and "k < unat (next_seq log)" and "b < RECORD_BYTES"
    and "sec = lg_start log + of_nat (k div RECORDS_PER_SECTOR)"
    and "at = k mod RECORDS_PER_SECTOR * RECORD_BYTES + b"
    and "v \<noteq> store d sec ! at" and "d' = d\<lparr>store := (store d)(sec := (store d sec)[at := v])\<rparr>"
  shows "audit_verify log d' = (Done \<lparr>vf_records = k, vf_first_bad = Some k\<rparr>, d')"
proof -
  let ?n = "unat (next_seq log)" and ?start = "lg_start log"
  let ?old = "slot_of (store d) ?start k"
  have L: "unat ?start + unat (lg_sectors log) < 2 ^ 64" "?n \<le> unat (lg_sectors log) * RECORDS_PER_SECTOR"
    "\<And>s. length (store d s) = SECTOR_SIZE" "first_break (slots (store d) ?start ?n) 0 = None"
    using assms(1) by (auto simp: log_ok_def)
  have "k mod 4 < 4" by simp
  then have fit: "k mod RECORDS_PER_SECTOR * RECORD_BYTES + RECORD_BYTES \<le> length (store d sec)"
    using L(3) [of sec] by (simp add: audit_consts)
  have new: "(store d sec)[at := v] = overwrite (store d sec) (k mod RECORDS_PER_SECTOR * RECORD_BYTES) (?old[b := v])"
    by (rule nth_equalityI)
      (use fit assms(4-6) in \<open>auto simp: nth_overwrite length_overwrite nth_list_update slot_of_def
        record_slot_def nth_subslice min_def\<close>)
  have lold: "length ?old = RECORD_BYTES"
    using fit assms(5) by (simp add: slot_of_def record_slot_def)
  have m': "store d' = (store d)(?start + of_nat (k div RECORDS_PER_SECTOR) :=
      overwrite (store d (?start + of_nat (k div RECORDS_PER_SECTOR))) (k mod RECORDS_PER_SECTOR * RECORD_BYTES) (?old[b := v]))"
    using assms(5,8) new by simp
  have div: "i div RECORDS_PER_SECTOR < unat (lg_sectors log)" if "i < ?n" for i
    using that L(2) by (intro div_lt_sectors) simp
  have S: "slot_of (store d') ?start i = (if i = k then ?old[b := v] else slot_of (store d) ?start i)" if "i < ?n" for i
    using slot_of_append [OF L(1) div [OF that] div [OF assms(3)] L(3) _ m'] lold by simp
  have "slots (store d') ?start ?n = (slots (store d) ?start ?n)[k := ?old[b := v]]"
    by (rule nth_equalityI) (auto simp: slots_def S nth_list_update)
  moreover have "v \<noteq> ?old ! b"
    using assms(4-7) fit by (simp add: slot_of_def record_slot_def nth_subslice)
  then have "bad_record (?old[b := v]) q" if "\<not> bad_record ?old q" for q
    using that assms(4) lold by (intro bad_record_single_byte)
  ultimately have "first_break (slots (store d') ?start ?n) 0 = Some k"
    using first_break_replace [OF L(4), of k "?old[b := v]"] assms(3) by (simp add: slots_def)
  then show ?thesis using assms(2,8) by (simp add: audit_verify_eq)
qed

definition one_record :: bytes where
  "one_record = new_record 0 0 7 [] 3 (ascii ''send'') []"

definition one_log :: Log where
  "one_log = empty_log\<lparr>next_seq := 1, last_hash := get_u64 one_record OFF_HASH\<rparr>"

definition one_disk :: disk where
  "one_disk = zero_disk\<lparr>store := (store zero_disk)(100 := overwrite (replicate SECTOR_SIZE 0) 0 one_record)\<rparr>"

lemma length_one_record: "length one_record = RECORD_BYTES"
  by (simp add: one_record_def lens)

lemma one_slot: "slot_of (store one_disk) 100 0 = one_record"
  using length_one_record
  by (simp add: slot_of_def record_slot_def one_disk_def subslice_overwrite_same audit_consts)

lemma one_log_ok: "log_ok one_log one_disk" "\<And>s. bad one_disk s = None"
proof -
  have "\<not> bad_record one_record 0" unfolding one_record_def by (rule new_record_good)
  moreover have "get_u64 one_record OFF_SEQ = 0" by (simp add: one_record_def new_record_fields)
  ultimately show "log_ok one_log one_disk"
    using one_slot length_one_record
    by (simp add: log_ok_def one_log_def empty_log_def slots_def)
      (simp add: one_disk_def zero_disk_def length_overwrite audit_consts)
  show "bad one_disk s = None" for s by (simp add: one_disk_def zero_disk_def)
qed

theorem audit_single_byte_tamper_witness:
  "\<exists>d'. store d' 100 ! 40 \<noteq> store one_disk 100 ! 40
     \<and> audit_verify one_log d' = (Done \<lparr>vf_records = 0, vf_first_bad = Some 0\<rparr>, d')"
proof -
  let ?v = "store one_disk 100 ! 40 XOR 1"
  have v: "?v \<noteq> store one_disk 100 ! 40"
    by (rule xor_neq_self) simp
  let ?d = "one_disk\<lparr>store := (store one_disk)(100 := (store one_disk 100)[40 := ?v])\<rparr>"
  have "audit_verify one_log ?d = (Done \<lparr>vf_records = 0, vf_first_bad = Some 0\<rparr>, ?d)"
    by (rule audit_single_byte_tamper [OF one_log_ok, where b = 40 and v = ?v and sec = 100 and at = 40])
      (use v in \<open>simp_all add: one_log_def empty_log_def audit_consts\<close>)
  moreover have "store ?d 100 ! 40 = ?v"
    using length_one_record by (simp add: one_disk_def zero_disk_def length_overwrite audit_consts)
  ultimately show ?thesis using v by (intro exI [of _ ?d]) simp
qed

text \<open>
  After a restart \<open>init\<close> finds the log exactly as it was left, provided the slot after the last
  record is not a record.
\<close>

theorem audit_init_recovers:
  assumes "log_ok log d" and "\<And>s. bad d s = None"
    and "unat (next_seq log) < unat (lg_sectors log) * RECORDS_PER_SECTOR \<longrightarrow>
      get_u64 (slot_of (store d) (lg_start log) (unat (next_seq log))) OFF_MAGIC \<noteq> AUDIT_MAGIC"
  shows "\<exists>log'. audit_init (lg_start log) (lg_sectors log) log0 d = (Done log', d) \<and> log_ok log' d
    \<and> next_seq log' = next_seq log \<and> last_hash log' = last_hash log"
proof -
  let ?n = "unat (next_seq log)" and ?c = "unat (lg_sectors log) * RECORDS_PER_SECTOR"
  have L: "?n \<le> ?c" "?c < 2 ^ 64" using assms(1) by (auto simp: log_ok_def)
  then have cap: "unat (lg_sectors log * of_nat RECORDS_PER_SECTOR) = ?c"
    by (simp add: unat_word_ariths unat_of_nat audit_consts)
  have "scan_list (map (slot_of (store d) (lg_start log)) [?n..<?c]) (next_seq log) (last_hash log) =
      (next_seq log, last_hash log)"
    using assms(3) L(1) by (cases "?n < ?c") (auto simp: upt_conv_Cons)
  moreover have "min (next_seq log) (lg_sectors log * of_nat RECORDS_PER_SECTOR) = next_seq log"
    using L(1) cap by (simp add: min_def word_le_nat_alt)
  ultimately show ?thesis
    using assms(1) by (simp add: audit_init_scan [OF assms(1,2)]) (simp add: log_ok_def)
qed

theorem audit_init_recovers_witness:
  "\<exists>log'. audit_init 100 4 empty_log one_disk = (Done log', one_disk) \<and> next_seq log' = 1"
proof -
  have "slot_of (store one_disk) 100 1 = replicate RECORD_BYTES 0"
    using length_one_record by (simp add: slot_of_def record_slot_def one_disk_def zero_disk_def
        subslice_overwrite_disj audit_consts)
  then have "get_u64 (slot_of (store one_disk) 100 1) OFF_MAGIC \<noteq> AUDIT_MAGIC"
    by (simp add: get_u64_def audit_consts AUDIT_MAGIC_def)
  with audit_init_recovers [OF one_log_ok, of empty_log] show ?thesis
    by (simp add: one_log_def empty_log_def) blast
qed

text \<open>
  \<open>format\<close> clears only the first sector of the region, and a record left over from an earlier
  file system is adopted as soon as that sector is full: \<open>init\<close> looks at magic numbers only, so the
  next sequence number and hash come from the old log, and the next \<open>verify\<close> breaks at the seam
  unless the old record happens to continue the new chain.
\<close>

theorem audit_init_adopts_stale:
  assumes "log_ok log d" and "\<And>s. bad d s = None" and "n = unat (next_seq log)"
    and "n + 1 < unat (lg_sectors log) * RECORDS_PER_SECTOR"
    and "stale = slot_of (store d) (lg_start log) n" and "get_u64 stale OFF_MAGIC = AUDIT_MAGIC"
    and "get_u64 stale OFF_SEQ + 1 \<le> lg_sectors log * of_nat RECORDS_PER_SECTOR"
    and "next_seq log < get_u64 stale OFF_SEQ + 1"
    and "get_u64 (slot_of (store d) (lg_start log) (n + 1)) OFF_MAGIC \<noteq> AUDIT_MAGIC"
    and "bad_record stale (last_hash log)"
  shows "\<exists>log'. audit_init (lg_start log) (lg_sectors log) log0 d = (Done log', d)
    \<and> next_seq log' = get_u64 stale OFF_SEQ + 1 \<and> last_hash log' = get_u64 stale OFF_HASH
    \<and> audit_verify log' d = (Done \<lparr>vf_records = n, vf_first_bad = Some n\<rparr>, d)"
proof -
  let ?s = "get_u64 stale OFF_SEQ + 1" and ?c = "unat (lg_sectors log) * RECORDS_PER_SECTOR"
  have up: "[n..<?c] = n # (n + 1) # [n + 2..<?c]" using assms(4) by (simp add: upt_conv_Cons)
  have scan: "scan_list (map (slot_of (store d) (lg_start log)) [n..<?c]) (next_seq log) (last_hash log) =
      (?s, get_u64 stale OFF_HASH)"
    unfolding up using assms(5,6,9) by simp
  have lt: "n < unat ?s" using assms(3,8) by (simp add: word_less_nat_alt)
  then have "[0..<unat ?s] = [0..<n] @ n # [Suc n..<unat ?s]"
    using upt_add_eq_append [of 0 n "unat ?s - n"] by (simp add: upt_conv_Cons)
  then have sl: "slots (store d) (lg_start log) (unat ?s) = slots (store d) (lg_start log) n @
      stale # map (slot_of (store d) (lg_start log)) [Suc n..<unat ?s]"
    using assms(5) by (simp add: slots_def)
  have "first_break (slots (store d) (lg_start log) (unat ?s)) 0 = Some n"
    unfolding sl using assms(1,3,10) by (simp add: first_break_append log_ok_def) (simp add: slots_def)
  then show ?thesis
    using scan assms(3,7) by (simp add: audit_init_scan [OF assms(1,2)] audit_verify_eq [OF assms(2)] min_def)
qed

definition stale_disk :: disk where
  "stale_disk = zero_disk\<lparr>store := (store zero_disk)(100 := overwrite (replicate SECTOR_SIZE 0) 0
     (new_record 0 5 0 [] 0 [] []))\<rparr>"

theorem audit_init_adopts_stale_witness:
  "\<exists>log'. audit_init 100 4 empty_log stale_disk = (Done log', stale_disk) \<and> next_seq log' = 1
     \<and> audit_verify log' stale_disk = (Done \<lparr>vf_records = 0, vf_first_bad = Some 0\<rparr>, stale_disk)"
proof -
  let ?r = "new_record 0 5 0 [] 0 [] []"
  have s0: "slot_of (store stale_disk) 100 0 = ?r"
    by (simp add: slot_of_def record_slot_def stale_disk_def subslice_overwrite_same audit_consts lens)
  have "slot_of (store stale_disk) 100 1 = replicate RECORD_BYTES 0"
    by (simp add: slot_of_def record_slot_def stale_disk_def zero_disk_def subslice_overwrite_disj audit_consts lens)
  then have s1: "get_u64 (slot_of (store stale_disk) 100 1) OFF_MAGIC \<noteq> AUDIT_MAGIC"
    by (simp add: get_u64_def audit_consts AUDIT_MAGIC_def)
  have ok: "log_ok empty_log stale_disk"
    by (simp add: log_ok_def empty_log_def slots_def)
      (simp add: stale_disk_def zero_disk_def length_overwrite lens audit_consts)
  have r: "\<And>s. bad stale_disk s = None" by (simp add: stale_disk_def zero_disk_def)
  have b: "bad_record ?r 0" by (simp add: bad_record_def new_record_fields)
  from audit_init_adopts_stale [OF ok r, of 0 ?r empty_log] s0 s1 b show ?thesis
    by (simp add: empty_log_def new_record_fields RECORDS_PER_SECTOR_def RECORD_BYTES_def SECTOR_SIZE_def word_le_nat_alt)
      blast
qed

end
