(* ===== verification/Sha256.thy ===== *)
theory Sha256
  imports Bytes
begin

text \<open>
  SHA-256 and measured boot: \<open>kernel/src/sha256.rs\<close> (streaming hasher, hex form) and
  \<open>kernel/src/measure.rs\<close>. The hasher's two loops are \<open>partial_function\<close>s, so that returning is
  something to prove: \<open>None\<close> is a loop that never ends. The reference pads the whole message and
  compresses it block by block; the streaming hasher is shown to return exactly that, however the
  message is cut into calls of \<open>update\<close>.
\<close>

text \<open>The round constants, a row of the source at a time.\<close>

definition K_sha :: "u32 list" where
  "K_sha = concat [
    [0x428a2f98, 0x71374491, 0xb5c0fbcf, 0xe9b5dba5, 0x3956c25b, 0x59f111f1, 0x923f82a4, 0xab1c5ed5],
    [0xd807aa98, 0x12835b01, 0x243185be, 0x550c7dc3, 0x72be5d74, 0x80deb1fe, 0x9bdc06a7, 0xc19bf174],
    [0xe49b69c1, 0xefbe4786, 0x0fc19dc6, 0x240ca1cc, 0x2de92c6f, 0x4a7484aa, 0x5cb0a9dc, 0x76f988da],
    [0x983e5152, 0xa831c66d, 0xb00327c8, 0xbf597fc7, 0xc6e00bf3, 0xd5a79147, 0x06ca6351, 0x14292967],
    [0x27b70a85, 0x2e1b2138, 0x4d2c6dfc, 0x53380d13, 0x650a7354, 0x766a0abb, 0x81c2c92e, 0x92722c85],
    [0xa2bfe8a1, 0xa81a664b, 0xc24b8b70, 0xc76c51a3, 0xd192e819, 0xd6990624, 0xf40e3585, 0x106aa070],
    [0x19a4c116, 0x1e376c08, 0x2748774c, 0x34b0bcb5, 0x391c0cb3, 0x4ed8aa4a, 0x5b9cca4f, 0x682e6ff3],
    [0x748f82ee, 0x78a5636f, 0x84c87814, 0x8cc70208, 0x90befffa, 0xa4506ceb, 0xbef9a3f7, 0xc67178f2]]"

definition INIT_sha :: "u32 list" where
  "INIT_sha = [0x6a09e667, 0xbb67ae85, 0x3c6ef372, 0xa54ff53a, 0x510e527f, 0x9b05688c, 0x1f83d9ab, 0x5be0cd19]"

record Sha256 =
  sh_state :: "u32 list"
  sh_block :: bytes
  filled :: nat
  sh_total :: u64

definition Sha256_new :: Sha256 where
  "Sha256_new = \<lparr>sh_state = INIT_sha, sh_block = replicate 64 0, filled = 0, sh_total = 0\<rparr>"

section \<open>Compression\<close>

definition rotr :: "nat \<Rightarrow> u32 \<Rightarrow> u32" where
  "rotr n w = drop_bit n w OR push_bit (32 - n) w"

definition load_words :: "bytes \<Rightarrow> u32 list" where
  "load_words block = fold (\<lambda>i w. w[i := be_word [block ! (i * 4), block ! (i * 4 + 1),
       block ! (i * 4 + 2), block ! (i * 4 + 3)]]) [0..<16] (replicate 64 0)"

definition extend_word :: "nat \<Rightarrow> u32 list \<Rightarrow> u32 list" where
  "extend_word i w = (let
     s0 = rotr 7 (w ! (i - 15)) XOR rotr 18 (w ! (i - 15)) XOR drop_bit 3 (w ! (i - 15));
     s1 = rotr 17 (w ! (i - 2)) XOR rotr 19 (w ! (i - 2)) XOR drop_bit 10 (w ! (i - 2))
   in w[i := w ! (i - 16) + s0 + w ! (i - 7) + s1])"

definition schedule_words :: "bytes \<Rightarrow> u32 list" where
  "schedule_words block = fold extend_word [16..<64] (load_words block)"

text \<open>One round, on the eight working variables.\<close>

definition sha_round :: "u32 \<Rightarrow> u32 \<Rightarrow> u32 list \<Rightarrow> u32 list" where
  "sha_round k w h = (let
     s1 = rotr 6 (h ! 4) XOR rotr 11 (h ! 4) XOR rotr 25 (h ! 4);
     ch = (h ! 4 AND h ! 5) XOR (NOT (h ! 4) AND h ! 6);
     t1 = h ! 7 + s1 + ch + k + w;
     s0 = rotr 2 (h ! 0) XOR rotr 13 (h ! 0) XOR rotr 22 (h ! 0);
     maj = (h ! 0 AND h ! 1) XOR (h ! 0 AND h ! 2) XOR (h ! 1 AND h ! 2);
     t2 = s0 + maj
   in [t1 + t2, h ! 0, h ! 1, h ! 2, h ! 3 + t1, h ! 4, h ! 5, h ! 6])"

definition compress :: "u32 list \<Rightarrow> bytes \<Rightarrow> u32 list" where
  "compress state block = (let w = schedule_words block;
     h = fold (\<lambda>i. sha_round (K_sha ! i) (w ! i)) [0..<64] state
   in map2 (+) state h)"

section \<open>The streaming hasher\<close>

text \<open>One turn of \<open>update\<close>'s loop: fill the block, and compress it when it is full.\<close>

definition absorb :: "Sha256 \<Rightarrow> bytes \<Rightarrow> Sha256" where
  "absorb s piece = (let block = overwrite (sh_block s) (filled s) piece; m = filled s + length piece in
     if m = 64 then s\<lparr>sh_block := block, sh_state := compress (sh_state s) block, filled := 0\<rparr>
     else s\<lparr>sh_block := block, filled := m\<rparr>)"

partial_function (option) update_loop :: "Sha256 \<Rightarrow> bytes \<Rightarrow> Sha256 option" where
  "update_loop s data =
    (if data = [] then Some s
     else let n = min (64 - filled s) (length data) in
       update_loop (absorb s (take n data)) (drop n data))"

definition sha_update :: "Sha256 \<Rightarrow> bytes \<Rightarrow> Sha256 option" where
  "sha_update s data = update_loop (s\<lparr>sh_total := sh_total s + of_nat (length data)\<rparr>) data"

partial_function (option) pad_loop :: "Sha256 \<Rightarrow> Sha256 option" where
  "pad_loop s =
    (if filled s \<noteq> 56
     then (case sha_update s [0] of None \<Rightarrow> None | Some t \<Rightarrow> pad_loop (t\<lparr>sh_total := sh_total t - 1\<rparr>))
     else Some s)"

definition finish :: "Sha256 \<Rightarrow> bytes option" where
  "finish s = (let bits = sh_total s * 8 in
     Option.bind (sha_update s [0x80]) (\<lambda>s.
     Option.bind (pad_loop (s\<lparr>sh_total := sh_total s - 1\<rparr>)) (\<lambda>s.
       let block = overwrite (sh_block s) 56 (be_bytes 8 bits);
           state = compress (sh_state s) block
       in Some (concat (map (be_bytes 4) state)))))"

definition digest :: "bytes \<Rightarrow> bytes option" where
  "digest data = Option.bind (sha_update Sha256_new data) finish"

section \<open>Hex\<close>

definition DIGITS :: bytes where "DIGITS = ascii ''0123456789abcdef''"

definition hex :: "bytes \<Rightarrow> bytes" where
  "hex d = concat (map (\<lambda>b. [DIGITS ! unat (drop_bit 4 b), DIGITS ! unat (b AND 0xf)]) d)"

definition nibble :: "u8 \<Rightarrow> u8 option" where
  "nibble c = (if 48 \<le> c \<and> c \<le> 57 then Some (c - 48)
     else if 97 \<le> c \<and> c \<le> 102 then Some (c - 97 + 10)
     else if 65 \<le> c \<and> c \<le> 70 then Some (c - 65 + 10)
     else None)"

text \<open>The loop of \<open>from_hex\<close> over \<open>i\<close>; \<open>?\<close> ends it at the first character that is not a digit.\<close>

primrec hex_loop :: "bytes \<Rightarrow> nat \<Rightarrow> bytes option" where
  "hex_loop b 0 = Some []"
| "hex_loop b (Suc i) = Option.bind (hex_loop b i) (\<lambda>out.
     Option.bind (nibble (b ! (i * 2))) (\<lambda>hi.
     Option.bind (nibble (b ! (i * 2 + 1))) (\<lambda>lo. Some (out @ [push_bit 4 hi OR lo]))))"

definition from_hex :: "bytes \<Rightarrow> bytes option" where
  "from_hex b = (if length b \<noteq> 64 then None else hex_loop b 32)"

section \<open>Measured boot\<close>

record Boot =
  bt_kernel :: bytes
  bt_init :: bytes
  bt_expected :: "bytes option"
  bt_ok :: bool

text \<open>The kernel's own bytes and the digest recorded by the build are arguments.\<close>

definition measure_boot :: "bytes \<Rightarrow> bytes \<Rightarrow> bytes \<Rightarrow> Boot option" where
  "measure_boot kernel_image recorded init =
     Option.bind (digest kernel_image) (\<lambda>kernel.
     Option.bind (digest init) (\<lambda>init.
       let expected = from_hex recorded in
       Some \<lparr>bt_kernel = kernel, bt_init = init, bt_expected = expected, bt_ok = (expected = Some init)\<rparr>))"

definition measure_with_flipped_byte :: "bytes \<Rightarrow> nat \<Rightarrow> bytes option" where
  "measure_with_flipped_byte init at = (let at = min at (length init - 1) in
     if at \<ge> length init then None
     else Option.bind (sha_update Sha256_new (take at init)) (\<lambda>h.
       Option.bind (sha_update h [init ! at XOR 0xff]) (\<lambda>h.
       Option.bind (sha_update h (drop (at + 1) init)) finish)))"

section \<open>The reference\<close>

fun process :: "u32 list \<Rightarrow> bytes \<Rightarrow> u32 list" where
  "process st m = (if length m < 64 then st else process (compress st (take 64 m)) (drop 64 m))"

declare process.simps [simp del]

text \<open>FIPS 180-4 padding: a one bit, zeros up to 56 modulo 64, the length in bits.\<close>

definition pad_zeros :: "nat \<Rightarrow> nat" where
  "pad_zeros l = (119 - l mod 64) mod 64"

definition sha_pad :: "bytes \<Rightarrow> bytes" where
  "sha_pad m = m @ [0x80] @ replicate (pad_zeros (length m)) 0 @ be_bytes 8 (of_nat (length m) * 8 :: u64)"

definition sha256_ref :: "bytes \<Rightarrow> bytes" where
  "sha256_ref m = concat (map (be_bytes 4) (process INIT_sha (sha_pad m)))"

lemma process_short: "length m < 64 \<Longrightarrow> process st m = st"
  by (simp add: process.simps)

lemma process_block: "length b = 64 \<Longrightarrow> process st (b @ m) = process (compress st b) m"
  by (subst process.simps) simp

lemma process_append:
  "length a mod 64 = 0 \<Longrightarrow> process st (a @ m) = process (process st a) m"
proof (induction st a rule: process.induct)
  case (1 st a)
  show ?case
  proof (cases "length a < 64")
    case True
    with 1 have "a = []" by simp
    then show ?thesis by (simp add: process_short)
  next
    case False
    then have "length (drop 64 a) mod 64 = 0" using 1(2) by (simp add: mod_if)
    with 1(1) False have IH: "process (compress st (take 64 a)) (drop 64 a @ m) =
        process (process (compress st (take 64 a)) (drop 64 a)) m" by simp
    have "process st (a @ m) = process (compress st (take 64 a)) (drop 64 a @ m)"
      using False process_block [of "take 64 a" st "drop 64 a @ m"] by (simp add: append_assoc [symmetric] del: append_assoc)
    also have "process st a = process (compress st (take 64 a)) (drop 64 a)"
      using False by (subst process.simps) simp
    ultimately show ?thesis using IH by simp
  qed
qed

section \<open>The hasher computes the reference\<close>

text \<open>\<open>absorbed m s\<close>: the hasher is in the state it should have after the bytes \<open>m\<close>.\<close>

definition absorbed :: "bytes \<Rightarrow> Sha256 \<Rightarrow> bool" where
  "absorbed m s \<longleftrightarrow> (\<exists>a b. m = a @ b \<and> length a mod 64 = 0 \<and> length b < 64
     \<and> sh_state s = process INIT_sha a \<and> filled s = length b
     \<and> length (sh_block s) = 64 \<and> take (length b) (sh_block s) = b)"

lemma absorbed_new: "absorbed [] Sha256_new"
  by (simp add: absorbed_def Sha256_new_def process_short)

lemma absorbed_total [simp]: "absorbed m (s\<lparr>sh_total := t\<rparr>) = absorbed m s"
  by (simp add: absorbed_def)

lemma absorbed_filled: "absorbed m s \<Longrightarrow> filled s = length m mod 64 \<and> filled s < 64"
  by (auto simp: absorbed_def)

lemma absorbed_absorb:
  assumes "absorbed m s" and "filled s + length p \<le> 64"
  shows "absorbed (m @ p) (absorb s p)"
proof -
  obtain a b where ab: "m = a @ b" "length a mod 64 = 0" "length b < 64"
    "sh_state s = process INIT_sha a" "filled s = length b" "length (sh_block s) = 64"
    "take (length b) (sh_block s) = b"
    using assms(1) by (auto simp: absorbed_def)
  let ?blk = "overwrite (sh_block s) (filled s) p"
  have len: "length ?blk = 64" using ab assms(2) by (simp add: length_overwrite)
  have tk: "take (length (b @ p)) ?blk = b @ p"
    using ab assms(2) by (simp add: overwrite_def)
  show ?thesis
  proof (cases "filled s + length p = 64")
    case True
    then have "?blk = b @ p" using tk len ab by simp
    with True ab have "process INIT_sha (a @ b @ p) = compress (sh_state s) ?blk"
      using process_append [of a INIT_sha "b @ p"] process_block [of "b @ p" _ "[]"]
      by (simp add: process_short)
    with True ab len show ?thesis
      unfolding absorbed_def absorb_def Let_def
      by (intro exI [of _ "a @ b @ p"] exI [of _ "[]"]) (simp add: mod_add_left_eq [symmetric, of "length a"])
  next
    case False
    with ab len tk assms(2) show ?thesis
      unfolding absorbed_def absorb_def Let_def
      by (intro exI [of _ a] exI [of _ "b @ p"]) simp
  qed
qed

lemma sh_total_absorb [simp]: "sh_total (absorb s p) = sh_total s"
  by (simp add: absorb_def Let_def)

lemma update_loop_absorbed:
  "absorbed m s \<Longrightarrow> \<exists>t. update_loop s data = Some t \<and> absorbed (m @ data) t \<and> sh_total t = sh_total s"
proof (induction data arbitrary: m s rule: length_induct)
  case (1 data)
  show ?case
  proof (cases "data = []")
    case True
    then show ?thesis using 1(2) by (subst update_loop.simps) simp
  next
    case False
    let ?n = "min (64 - filled s) (length data)"
    have n: "0 < ?n" "filled s + length (take ?n data) \<le> 64"
      using absorbed_filled [OF 1(2)] False by auto
    have "length (drop ?n data) < length data" using n False by simp
    then obtain t where
      "update_loop (absorb s (take ?n data)) (drop ?n data) = Some t"
      "absorbed ((m @ take ?n data) @ drop ?n data) t" "sh_total t = sh_total s"
      using 1(1) [rule_format, OF _ absorbed_absorb [OF 1(2) n(2)], of "drop ?n data"] by auto
    moreover have "update_loop s data = update_loop (absorb s (take ?n data)) (drop ?n data)"
      using False by (subst update_loop.simps) (simp add: Let_def)
    ultimately show ?thesis by simp
  qed
qed

lemma sha_update_absorbed:
  assumes "absorbed m s"
  shows "\<exists>t. sha_update s data = Some t \<and> absorbed (m @ data) t
    \<and> sh_total t = sh_total s + of_nat (length data)"
  using update_loop_absorbed [of m "s\<lparr>sh_total := sh_total s + of_nat (length data)\<rparr>" data] assms
  by (simp add: sha_update_def)

lemma pad_count: "r < 64 \<Longrightarrow> (120 - r) mod 64 = (if r \<le> 56 then 56 - r else 120 - r)" for r :: nat
  by (simp add: mod_if)

lemma pad_count_step:
  assumes "Suc k = (120 - l mod 64) mod 64"
  shows "k = (120 - Suc l mod 64) mod 64"
proof -
  define r where "r = l mod 64"
  have "r < 64" by (simp add: r_def)
  moreover have "Suc l mod 64 = (if r = 63 then 0 else Suc r)" by (simp add: r_def mod_Suc)
  ultimately show ?thesis
    using assms pad_count [of "Suc r"] unfolding r_def [symmetric]
    by (auto simp: pad_count split: if_splits)
qed

lemma pad_fills: "(l + (120 - l mod 64) mod 64) mod 64 = (56 :: nat)"
proof -
  have "l = 64 * (l div 64) + l mod 64" and "l mod 64 < 64" by simp_all
  then have e: "l + (120 - l mod 64) = 120 + 64 * (l div 64)" by linarith
  have "(l + (120 - l mod 64) mod 64) mod 64 = (l + (120 - l mod 64)) mod 64" by (simp only: mod_add_right_eq)
  then show ?thesis unfolding e by simp
qed

lemma pad_loop_absorbed:
  assumes "absorbed m s" and "k = (120 - length m mod 64) mod 64"
  shows "\<exists>t. pad_loop s = Some t \<and> absorbed (m @ replicate k 0) t \<and> sh_total t = sh_total s"
  using assms
proof (induction k arbitrary: m s)
  case 0
  have f: "filled s = length m mod 64" using absorbed_filled [OF 0(1)] by simp
  have "length m mod 64 < 64" by simp
  with 0(2) f have "filled s = 56" by (simp add: pad_count split: if_splits)
  then show ?case using 0 by (subst pad_loop.simps) simp
next
  case (Suc k)
  have f: "filled s = length m mod 64" using absorbed_filled [OF Suc(2)] by simp
  with Suc.prems(2) have ne: "filled s \<noteq> 56" by auto
  obtain t where t: "sha_update s [0] = Some t" "absorbed (m @ [0]) t" "sh_total t = sh_total s + 1"
    using sha_update_absorbed [OF Suc.prems(1), of "[0]"] by auto
  have "k = (120 - length (m @ [0]) mod 64) mod 64"
    using pad_count_step [OF Suc.prems(2)] by simp
  with Suc.IH [of "m @ [0]" "t\<lparr>sh_total := sh_total t - 1\<rparr>"] t obtain u where
    "pad_loop (t\<lparr>sh_total := sh_total t - 1\<rparr>) = Some u" "absorbed ((m @ [0]) @ replicate k 0) u"
    "sh_total u = sh_total s" by auto
  with ne t show ?case by (subst pad_loop.simps) simp
qed

lemma finish_absorbed:
  assumes "absorbed m s" and "sh_total s = of_nat (length m)"
  shows "finish s = Some (sha256_ref m)"
proof -
  obtain t where t: "sha_update s [0x80] = Some t" "absorbed (m @ [0x80]) t"
    using sha_update_absorbed [OF assms(1)] by blast
  have k: "pad_zeros (length m) = (120 - length (m @ [0x80]) mod 64) mod 64"
    by (simp add: pad_zeros_def mod_Suc pad_count) 
  obtain u where u: "pad_loop (t\<lparr>sh_total := sh_total t - 1\<rparr>) = Some u"
      "absorbed ((m @ [0x80]) @ replicate (pad_zeros (length m)) 0) u"
    using pad_loop_absorbed [OF _ k, of "t\<lparr>sh_total := sh_total t - 1\<rparr>"] t by auto
  have f: "filled u = 56"
  proof -
    have "(Suc (length m) + pad_zeros (length m)) mod 64 = 56"
      using pad_fills [of "Suc (length m)"] k by simp
    then show ?thesis using absorbed_filled [OF u(2)] by simp
  qed
  let ?bits = "be_bytes 8 (of_nat (length m) * 8 :: u64)"
  have "absorbed (sha_pad m) (absorb u ?bits)"
    using absorbed_absorb [OF u(2), of ?bits] f by (simp add: sha_pad_def)
  moreover have "filled (absorb u ?bits) = 0" using f by (simp add: absorb_def Let_def)
  ultimately have "sh_state (absorb u ?bits) = process INIT_sha (sha_pad m)"
    by (auto simp: absorbed_def)
  then have "compress (sh_state u) (overwrite (sh_block u) 56 ?bits) = process INIT_sha (sha_pad m)"
    using f by (simp add: absorb_def Let_def)
  then show ?thesis
    using t u assms(2) by (simp add: finish_def sha256_ref_def)
qed

lemma update_chain:
  assumes "absorbed m s" and "sh_total s = of_nat (length m)"
  shows "\<exists>t. sha_update s data = Some t \<and> absorbed (m @ data) t \<and> sh_total t = of_nat (length (m @ data))"
  using sha_update_absorbed [OF assms(1), of data] assms(2) by auto

section \<open>Hex\<close>

lemma nibble_DIGITS: "n < 16 \<Longrightarrow> nibble (DIGITS ! n) = Some (of_nat n)"
proof -
  assume "n < 16"
  then have "n \<in> set [0..<16]" by simp
  moreover have "\<forall>n\<in>set [0..<16]. nibble (DIGITS ! n) = Some (of_nat n)" by code_simp
  ultimately show ?thesis by blast
qed

lemma hex_byte:
  "Option.bind (nibble (DIGITS ! unat (drop_bit 4 b))) (\<lambda>hi.
     Option.bind (nibble (DIGITS ! unat (b AND 0xf))) (\<lambda>lo. Some (push_bit 4 hi OR lo))) = Some (b :: u8)"
proof -
  have hi: "unat (drop_bit 4 b) < 16"
    using unsigned_less [of b, where ?'a = nat] by (simp add: drop_bit_eq_div unat_div less_mult_imp_div_less)
  have lo: "unat (b AND 0xf) < 16"
  proof -
    have "b AND 0xf \<le> 0xf" by (rule word_and_le1)
    then show ?thesis by (simp add: word_le_nat_alt)
  qed
  have m: "(0xf :: u8) = mask 4" by (simp add: mask_eq_decr_exp)
  have "push_bit 4 (drop_bit 4 b) OR (b AND 0xf) = b"
    unfolding m by (rule bit_word_eqI) (auto simp: bit_simps)
  then show ?thesis by (simp add: nibble_DIGITS hi lo)
qed

lemma hex_simps [simp]:
  "hex [] = []"
  "hex (b # d) = DIGITS ! unat (drop_bit 4 b) # DIGITS ! unat (b AND 0xf) # hex d"
  by (simp_all add: hex_def)

lemma length_hex [simp]: "length (hex d) = 2 * length d"
  by (induction d) auto

lemma nth_hex:
  "i < length d \<Longrightarrow> hex d ! (i * 2) = DIGITS ! unat (drop_bit 4 (d ! i))
     \<and> hex d ! (i * 2 + 1) = DIGITS ! unat (d ! i AND 0xf)"
proof (induction d arbitrary: i)
  case (Cons b d)
  then show ?case by (cases i) auto
qed simp

lemma hex_loop_hex: "i \<le> length d \<Longrightarrow> hex_loop (hex d) i = Some (take i d)"
proof (induction i)
  case (Suc i)
  then show ?case
    using hex_byte [of "d ! i"] nth_hex [of i d]
    by (auto simp: take_Suc_conv_app_nth bind_eq_Some_conv)
qed simp

section \<open>Whole digests\<close>

lemma digest_ref: "digest m = Some (sha256_ref m)"
proof -
  have "sh_total Sha256_new = of_nat (length [])" by (simp add: Sha256_new_def)
  from update_chain [OF absorbed_new this, of m] show ?thesis
    by (auto simp: digest_def finish_absorbed)
qed

lemma length_sha_rounds: "xs \<noteq> [] \<Longrightarrow> length (fold (\<lambda>i. sha_round (k i) (w i)) xs h) = 8"
  by (induction xs arbitrary: h rule: rev_induct) (auto simp: sha_round_def Let_def)

lemma length_compress [simp]: "length st = 8 \<Longrightarrow> length (compress st b) = 8"
  using length_sha_rounds [of "[0..<64]" "\<lambda>i. K_sha ! i" "\<lambda>i. schedule_words b ! i" st]
  by (simp add: compress_def Let_def)

lemma length_process: "length st = 8 \<Longrightarrow> length (process st m) = 8"
  by (induction st m rule: process.induct) (simp add: process.simps)

lemma length_sha256_ref [simp]: "length (sha256_ref m) = 32"
proof -
  have "length (concat (map (be_bytes 4) ws)) = 4 * length ws" for ws :: "u32 list"
    by (induction ws) auto
  then show ?thesis by (simp add: sha256_ref_def length_process INIT_sha_def)
qed

section \<open>Properties\<close>

text \<open>
  C7: The streaming hasher is SHA-256. Feeding a message in any number of pieces of any size and
  finishing returns the digest of the padded message, block by block; both loops end.
\<close>

theorem sha256_streaming:
  "Option.bind (fold (\<lambda>piece h. Option.bind h (\<lambda>s. sha_update s piece)) pieces (Some Sha256_new)) finish =
     Some (sha256_ref (concat pieces)) \<and> digest data = Some (sha256_ref data)"
proof -
  have *: "\<exists>t. fold (\<lambda>piece h. Option.bind h (\<lambda>s. sha_update s piece)) ps (Some s) = Some t
      \<and> absorbed (m @ concat ps) t \<and> sh_total t = of_nat (length (m @ concat ps))"
    if "absorbed m s" "sh_total s = of_nat (length m)" for m s ps
    using that
  proof (induction ps arbitrary: m s)
    case (Cons p ps)
    from update_chain [OF Cons.prems, of p] obtain t where t: "sha_update s p = Some t"
      "absorbed (m @ p) t" "sh_total t = of_nat (length (m @ p))" by blast
    from Cons.IH [OF t(2,3)] t(1) show ?case by simp
  qed simp
  have z: "sh_total Sha256_new = of_nat (length [])" by (simp add: Sha256_new_def)
  obtain t where "fold (\<lambda>piece h. Option.bind h (\<lambda>s. sha_update s piece)) pieces (Some Sha256_new) = Some t"
    "absorbed (concat pieces) t" "sh_total t = of_nat (length (concat pieces))"
    using * [OF absorbed_new z, of pieces] by auto
  moreover obtain u where "sha_update Sha256_new data = Some u" "absorbed data u"
      "sh_total u = of_nat (length data)"
    using update_chain [OF absorbed_new z, of data] by auto
  ultimately show ?thesis by (simp add: finish_absorbed digest_def)
qed

text \<open>
  The hex form of a digest reads back: \<open>from_hex\<close> inverts \<open>hex\<close> on every 32-byte digest, so the
  digest the build prints is the digest measured boot compares against, and anything that is not
  64 characters is refused.
\<close>

theorem hex_roundtrip:
  assumes "length d = 32"
  shows "from_hex (hex d) = Some d \<and> length (hex d) = 64 \<and> (\<forall>s. length s \<noteq> 64 \<longrightarrow> from_hex s = None)"
  using assms hex_loop_hex [of 32 d] by (simp add: from_hex_def)

theorem hex_roundtrip_witness:
  "from_hex (hex (replicate 32 0xAB)) = Some (replicate 32 0xAB)"
  using hex_roundtrip [of "replicate 32 0xAB"] by simp

text \<open>
  Measured boot accepts exactly the image it was built with. With the digest of \<open>built\<close> recorded
  by the build, \<open>measure\<close> returns and reports success for an image if and only if the image's
  SHA-256 is that of \<open>built\<close>; and the self-test's digest of the image with one byte flipped is the
  digest of exactly that altered image.
\<close>

theorem measured_boot_exact:
  assumes "digest built = Some recorded" and "at < length init"
  shows "(\<exists>b. measure_boot kernel_image (hex recorded) init = Some b \<and>
      bt_ok b = (sha256_ref init = sha256_ref built) \<and> bt_init b = sha256_ref init)
    \<and> measure_with_flipped_byte init at = Some (sha256_ref (init[at := init ! at XOR 0xff]))"
proof
  have d: "digest x = Some (sha256_ref x)" for x by (rule digest_ref)
  have r: "recorded = sha256_ref built" using assms(1) d [of built] by simp
  then have "from_hex (hex recorded) = Some recorded"
    using hex_loop_hex [of 32 recorded] by (simp add: from_hex_def)
  with r d show "\<exists>b. measure_boot kernel_image (hex recorded) init = Some b \<and>
      bt_ok b = (sha256_ref init = sha256_ref built) \<and> bt_init b = sha256_ref init"
    by (auto simp: measure_boot_def)
  have z: "sh_total Sha256_new = of_nat (length [])" by (simp add: Sha256_new_def)
  obtain t where t: "sha_update Sha256_new (take at init) = Some t" "absorbed (take at init) t"
      "sh_total t = of_nat (length (take at init))"
    using update_chain [OF absorbed_new z, of "take at init"] by auto
  obtain u where u: "sha_update t [init ! at XOR 0xff] = Some u" "absorbed (take at init @ [init ! at XOR 0xff]) u"
      "sh_total u = of_nat (length (take at init @ [init ! at XOR 0xff]))"
    using update_chain [OF t(2,3), of "[init ! at XOR 0xff]"] by blast
  obtain v where v: "sha_update u (drop (at + 1) init) = Some v"
      "absorbed ((take at init @ [init ! at XOR 0xff]) @ drop (at + 1) init) v"
      "sh_total v = of_nat (length ((take at init @ [init ! at XOR 0xff]) @ drop (at + 1) init))"
    using update_chain [OF u(2,3), of "drop (at + 1) init"] by blast
  have "(take at init @ [init ! at XOR 0xff]) @ drop (at + 1) init = init[at := init ! at XOR 0xff]"
    using assms(2) by (simp add: upd_conv_take_nth_drop)
  moreover have "min at (length init - 1) = at" using assms(2) by simp
  ultimately show "measure_with_flipped_byte init at = Some (sha256_ref (init[at := init ! at XOR 0xff]))"
    using t(1) u(1) v(1) finish_absorbed [OF v(2,3)] assms(2)
    by (simp add: measure_with_flipped_byte_def Let_def)
qed

theorem measured_boot_exact_witness:
  "\<exists>recorded b. digest (ascii ''init'') = Some recorded
     \<and> measure_boot [] (hex recorded) (ascii ''init'') = Some b \<and> bt_ok b"
proof -
  have d: "digest (ascii ''init'') = Some (sha256_ref (ascii ''init''))" by (rule digest_ref)
  show ?thesis
    using d measured_boot_exact [OF d, of 0 "ascii ''init''" "[]"] by (auto simp: ascii_def)
qed

end
