(* ===== verification/Ota.thy ===== *)
theory Ota
  imports Fs Sha256
begin

text \<open>
  A/B updates, \<open>kernel/src/ota.rs\<close>: the control block and its on-disk form, staging an image into a
  slot, the decision \<open>boot\<close> takes and records, \<open>mark_successful\<close> and \<open>initialise\<close>. A Rust function
  that takes \<open>&mut Control\<close> returns the control block on every path, because the caller keeps the
  changes of a call that failed.

  The result is about whole lives of a device: whatever sequence of boots, installs, reports of
  success and power cuts happens, \<open>boot\<close> always finds a slot that holds what the control block says,
  and an update that never reports success is rolled back after \<open>MAX_TRIES\<close> boots.
\<close>

definition CB_MAGIC :: u64 where "CB_MAGIC = 0x4A424F4F54434230"
definition IMG_MAGIC :: u64 where "IMG_MAGIC = 0x4A535953494D4730"
definition MAX_TRIES :: u8 where "MAX_TRIES = 2"
definition IMAGE_BYTES :: nat where "IMAGE_BYTES = 4096"
definition IMAGE_HEADER :: nat where "IMAGE_HEADER = 32"
definition FLAG_HEALTHY :: u64 where "FLAG_HEALTHY = 1"

datatype SlotState = Empty | Unverified | Successful | Failed

definition SlotState_from :: "u8 \<Rightarrow> SlotState" where
  "SlotState_from v = (if v = 1 then Unverified else if v = 2 then Successful
     else if v = 3 then Failed else Empty)"

primrec SlotState_to :: "SlotState \<Rightarrow> u8" where
  "SlotState_to Empty = 0"
| "SlotState_to Unverified = 1"
| "SlotState_to Successful = 2"
| "SlotState_to Failed = 3"

record Control =
  ct_seq :: u64
  ct_active :: nat
  ct_tries :: u8
  ct_rollbacks :: u8
  ct_state :: "SlotState list"
  ct_version :: "u64 list"
  ct_digest :: "bytes list"

definition Control_blank :: Control where
  "Control_blank = \<lparr>ct_seq = 0, ct_active = 0, ct_tries = 0, ct_rollbacks = 0,
     ct_state = [Empty, Empty], ct_version = [0, 0], ct_digest = [replicate 32 0, replicate 32 0]\<rparr>"

definition ct_other :: "Control \<Rightarrow> nat" where
  "ct_other c = 1 - ct_active c"

definition ct_decode :: "bytes \<Rightarrow> Control option" where
  "ct_decode raw =
    (if le_word (subslice raw 0 8) \<noteq> CB_MAGIC \<or> \<not> intact raw then None
     else Some \<lparr>ct_seq = le_word (subslice raw 8 8), ct_active = unat (raw ! 16 AND 1),
       ct_tries = raw ! 17, ct_rollbacks = raw ! 18,
       ct_state = [SlotState_from (raw ! 19), SlotState_from (raw ! 20)],
       ct_version = map (\<lambda>i. le_word (subslice raw (24 + i * 8) 8)) [0..<2],
       ct_digest = map (\<lambda>i. subslice raw (40 + i * 32) 32) [0..<2]\<rparr>)"

definition ct_encode :: "Control \<Rightarrow> bytes" where
  "ct_encode c = (let
     raw = replicate SECTOR_SIZE 0;
     raw = overwrite raw 0 (le_bytes 8 CB_MAGIC);
     raw = overwrite raw 8 (le_bytes 8 (ct_seq c));
     raw = raw[16 := of_nat (ct_active c)];
     raw = raw[17 := ct_tries c];
     raw = raw[18 := ct_rollbacks c];
     raw = raw[19 := SlotState_to (ct_state c ! 0)];
     raw = raw[20 := SlotState_to (ct_state c ! 1)];
     raw = fold (\<lambda>i raw. overwrite (overwrite raw (24 + i * 8) (le_bytes 8 (ct_version c ! i)))
                   (40 + i * 32) (ct_digest c ! i)) [0..<2] raw
   in seal raw)"

definition control_sector :: "Fs \<Rightarrow> u64" where
  "control_sector f = ota_start f"

definition slot_sector :: "Fs \<Rightarrow> nat \<Rightarrow> u64" where
  "slot_sector f slot = ota_start f + 1 + of_nat slot * OTA_SLOT_SECTORS"

definition read_control :: "Fs \<Rightarrow> (disk, Control option) io" where
  "read_control f = io_bind (io_catch (read_sector (control_sector f)))
     (\<lambda>r. io_return (Option.bind r ct_decode))"

definition write_control :: "Fs \<Rightarrow> Control \<Rightarrow> disk \<Rightarrow> unit outcome \<times> Control \<times> disk" where
  "write_control f c d = (let c' = c\<lparr>ct_seq := ct_seq c + 1\<rparr> in
     case write_sector (control_sector f) (ct_encode c') d of (r, d') \<Rightarrow> (r, c', d'))"

section \<open>Images\<close>

definition image_byte :: "u64 \<Rightarrow> nat \<Rightarrow> u8" where
  "image_byte version offset = ucast ((of_nat offset * 37) XOR (version * 1103))"

definition build_image :: "u64 \<Rightarrow> bool \<Rightarrow> bytes" where
  "build_image version healthy =
     le_bytes 8 IMG_MAGIC @ le_bytes 8 version @ le_bytes 8 (if healthy then FLAG_HEALTHY else 0)
     @ le_bytes 8 (of_nat (IMAGE_BYTES - IMAGE_HEADER) :: u64)
     @ map (image_byte version) [IMAGE_HEADER..<IMAGE_BYTES]"

definition write_image :: "u64 \<Rightarrow> bytes \<Rightarrow> (disk, unit) io" where
  "write_image base img = io_each (\<lambda>s. write_sector (base + of_nat s) (subslice img (s * SECTOR_SIZE) SECTOR_SIZE))
     [0..<IMAGE_BYTES div SECTOR_SIZE]"

definition sha :: "bytes \<Rightarrow> bytes" where
  "sha data = the (digest data)"

definition stage :: "Fs \<Rightarrow> Control \<Rightarrow> nat \<Rightarrow> u64 \<Rightarrow> bool \<Rightarrow> disk \<Rightarrow> unit outcome \<times> Control \<times> disk" where
  "stage f c slot version healthy d = (let img = build_image version healthy in
     case write_image (slot_sector f slot) img d of
       (Done _, d') \<Rightarrow> write_control f (c\<lparr>ct_version := (ct_version c)[slot := version],
           ct_digest := (ct_digest c)[slot := sha img],
           ct_state := (ct_state c)[slot := Unverified], ct_active := slot, ct_tries := MAX_TRIES\<rparr>) d'
     | (r, d') \<Rightarrow> (r, c, d'))"

record Image =
  im_version :: u64
  im_flags :: u64
  im_digest :: bytes

definition load_image :: "Fs \<Rightarrow> nat \<Rightarrow> (disk, Image) io" where
  "load_image f slot = io_bind
     (io_fold (\<lambda>s img. io_bind (read_sector (slot_sector f slot + of_nat s)) (\<lambda>b.
         io_return (overwrite img (s * SECTOR_SIZE) b)))
       [0..<IMAGE_BYTES div SECTOR_SIZE] (replicate IMAGE_BYTES 0))
     (\<lambda>img. if le_word (subslice img 0 8) \<noteq> IMG_MAGIC then io_fail ''slot holds no system image''
       else io_return \<lparr>im_version = le_word (subslice img 8 8), im_flags = le_word (subslice img 16 8),
                       im_digest = sha img\<rparr>)"

section \<open>The decision\<close>

datatype Outcome =
    Fresh
  | Trying (tr_slot: nat) (tr_version: u64) (tries_left: u8) (healthy: bool)
  | RolledBack (rb_from: nat) (rb_to: nat) (rb_version: u64)
  | Running (rn_slot: nat) (rn_version: u64)
  | Corrupt (co_slot: nat)

definition sat_sub1 :: "u8 \<Rightarrow> u8" where "sat_sub1 x = (if x = 0 then 0 else x - 1)"
definition sat_add1 :: "u8 \<Rightarrow> u8" where "sat_add1 x = (if x = 255 then 255 else x + 1)"

text \<open>\<open>let _ = write_control(f, &mut c)\<close>: an error is dropped, a power cut is not.\<close>

definition try_write_control :: "Fs \<Rightarrow> Control \<Rightarrow> (disk, Control) io" where
  "try_write_control f c d = (case write_control f c d of
      (PowerOff, c', d') \<Rightarrow> (PowerOff, d') | (_, c', d') \<Rightarrow> (Done c', d'))"

definition boot_slot :: "Fs \<Rightarrow> Control \<Rightarrow> (disk, Control \<times> Outcome) io" where
  "boot_slot f c = (let slot = ct_active c in
     io_bind (io_catch (load_image f slot)) (\<lambda>r. case r of
       None \<Rightarrow> io_return (c, Corrupt slot)
     | Some img \<Rightarrow>
         if im_digest img \<noteq> ct_digest c ! slot \<or> im_version img \<noteq> ct_version c ! slot
         then io_return (c, Corrupt slot)
         else if ct_state c ! slot = Unverified
         then io_bind (try_write_control f (c\<lparr>ct_tries := sat_sub1 (ct_tries c)\<rparr>)) (\<lambda>c'.
           io_return (c', Trying slot (im_version img) (ct_tries c') (im_flags img AND FLAG_HEALTHY \<noteq> 0)))
         else io_return (c, Running slot (im_version img))))"

definition boot :: "Fs \<Rightarrow> (disk, Control \<times> Outcome) io" where
  "boot f = io_bind (read_control f) (\<lambda>r. case r of
      None \<Rightarrow> io_return (Control_blank, Fresh)
    | Some c \<Rightarrow>
        if ct_state c ! ct_active c = Unverified \<and> ct_tries c = 0 then
          let fr = ct_active c; to = ct_other c in
          if ct_state c ! to = Successful then
            io_bind (try_write_control f (c\<lparr>ct_state := (ct_state c)[fr := Failed], ct_active := to,
                                            ct_rollbacks := sat_add1 (ct_rollbacks c)\<rparr>)) (\<lambda>c'.
              io_return (c', RolledBack fr to (ct_version c' ! to)))
          else io_bind (try_write_control f (c\<lparr>ct_tries := 1\<rparr>)) (boot_slot f)
        else boot_slot f c)"

definition mark_successful :: "Fs \<Rightarrow> Control \<Rightarrow> disk \<Rightarrow> unit outcome \<times> Control \<times> disk" where
  "mark_successful f c = (let
     c = c\<lparr>ct_state := (ct_state c)[ct_active c := Successful], ct_tries := 0\<rparr>;
     oth = ct_other c;
     c = (if ct_state c ! oth = Successful then c\<lparr>ct_state := (ct_state c)[oth := Empty]\<rparr> else c)
   in write_control f c)"

definition initialise :: "Fs \<Rightarrow> (disk, Control) io" where
  "initialise f = (let img = build_image 1 True in
     io_bind (write_image (slot_sector f 0) img) (\<lambda>_. \<lambda>d.
       case write_control f (Control_blank\<lparr>ct_version := (ct_version Control_blank)[0 := 1],
           ct_digest := (ct_digest Control_blank)[0 := sha img],
           ct_state := (ct_state Control_blank)[0 := Successful], ct_active := 0, ct_tries := 0\<rparr>) d of
         (Done _, c, d') \<Rightarrow> (Done c, d')
       | (Fail e, c, d') \<Rightarrow> (Fail e, d')
       | (PowerOff, c, d') \<Rightarrow> (PowerOff, d')))"

section \<open>The control block's codec\<close>

definition ct_wf :: "Control \<Rightarrow> bool" where
  "ct_wf c \<longleftrightarrow> ct_active c < 2 \<and> length (ct_state c) = 2 \<and> length (ct_version c) = 2
     \<and> length (ct_digest c) = 2 \<and> (\<forall>x\<in>set (ct_digest c). length x = 32)"

lemma SlotState_from_to [simp]: "SlotState_from (SlotState_to s) = s"
  by (cases s) (simp_all add: SlotState_from_def)

lemma ct_wf_cases:
  assumes "ct_wf c"
  obtains s0 s1 v0 v1 x0 x1 where "ct_state c = [s0, s1]" "ct_version c = [v0, v1]" "ct_digest c = [x0, x1]"
    "length x0 = 32" "length x1 = 32" "ct_active c < 2"
proof -
  have two: "length xs = 2 \<Longrightarrow> \<exists>a b. xs = [a, b]" for xs :: "'a list"
    by (metis One_nat_def Suc_1 length_0_conv length_Suc_conv)
  obtain s0 s1 v0 v1 x0 x1 where l: "ct_state c = [s0, s1]" "ct_version c = [v0, v1]" "ct_digest c = [x0, x1]"
    using assms by (fastforce simp: ct_wf_def length_Suc_conv eval_nat_numeral)
  then show thesis using that assms by (auto simp: ct_wf_def)
qed

lemma ct_decode_encode:
  assumes "ct_wf c"
  shows "ct_decode (ct_encode c) = Some c" and "length (ct_encode c) = SECTOR_SIZE"
proof -
  from assms obtain s0 s1 v0 v1 x0 x1 where c: "ct_state c = [s0, s1]" "ct_version c = [v0, v1]"
    "ct_digest c = [x0, x1]" "length x0 = 32" "length x1 = 32" "ct_active c < 2"
    by (rule ct_wf_cases)
  define raw :: bytes where "raw = overwrite (overwrite (overwrite (overwrite
    ((overwrite (overwrite (replicate 512 0) 0 (le_bytes 8 CB_MAGIC)) 8 (le_bytes 8 (ct_seq c)))
      [16 := of_nat (ct_active c), 17 := ct_tries c, 18 := ct_rollbacks c,
       19 := SlotState_to s0, 20 := SlotState_to s1])
    24 (le_bytes 8 v0)) 40 x0) 32 (le_bytes 8 v1)) 72 x1"
  have enc: "ct_encode c = seal raw"
    by (simp add: ct_encode_def raw_def c SECTOR_SIZE_def Let_def upt_rec)
  have len: "length raw = SECTOR_SIZE" by (simp add: raw_def lens c SECTOR_SIZE_def)
  then show "length (ct_encode c) = SECTOR_SIZE" unfolding enc by (rule length_seal)
  have sub: "subslice (seal raw) at n = subslice raw at n" if "at + n \<le> 104" for at n
    using len that by (intro subslice_seal) (simp_all add: CRC_OFF_def SECTOR_SIZE_def)
  have nth: "seal raw ! i = raw ! i" if "i < 104" for i
    using len that by (intro nth_seal) (simp_all add: CRC_OFF_def SECTOR_SIZE_def)
  have fields: "subslice raw 0 8 = le_bytes 8 CB_MAGIC" "subslice raw 8 8 = le_bytes 8 (ct_seq c)"
    "subslice raw 24 8 = le_bytes 8 v0" "subslice raw 32 8 = le_bytes 8 v1"
    "subslice raw 40 32 = x0" "subslice raw 72 32 = x1"
    unfolding raw_def by (simp_all add: lens layout c)
  have bytes: "raw ! 16 = of_nat (ct_active c)" "raw ! 17 = ct_tries c" "raw ! 18 = ct_rollbacks c"
    "raw ! 19 = SlotState_to s0" "raw ! 20 = SlotState_to s1"
    unfolding raw_def by (simp_all add: lens c nth_overwrite)
  have act: "unat ((of_nat (ct_active c) :: u8) AND 1) = ct_active c"
    using c(6) by (auto simp: less_2_cases_iff)
  show "ct_decode (ct_encode c) = Some c"
    unfolding enc ct_decode_def using intact_seal [OF len]
    by (simp add: sub nth fields bytes act upt_rec c(1-3) [symmetric])
qed

section \<open>Slots on the disk\<close>

definition slot_image :: "Fs \<Rightarrow> (u64 \<Rightarrow> bytes) \<Rightarrow> nat \<Rightarrow> bytes" where
  "slot_image f m slot = concat (map (\<lambda>s. m (slot_sector f slot + of_nat s)) [0..<IMAGE_BYTES div SECTOR_SIZE])"

definition slot_good :: "Fs \<Rightarrow> (u64 \<Rightarrow> bytes) \<Rightarrow> Control \<Rightarrow> nat \<Rightarrow> bool" where
  "slot_good f m c slot \<longleftrightarrow> (let img = slot_image f m slot in
     le_word (subslice img 0 8) = IMG_MAGIC \<and> (le_word (subslice img 8 8) :: u64) = ct_version c ! slot
     \<and> sha img = ct_digest c ! slot)"

definition ota_region_ok :: "Fs \<Rightarrow> bool" where
  "ota_region_ok f \<longleftrightarrow> unat (ota_start f) + 129 < 2 ^ 64"

lemma load_loop:
  assumes "\<And>s. bad d s = None" and "\<And>s. length (store d s) = SECTOR_SIZE"
    and "n * SECTOR_SIZE \<le> length img"
  shows "io_fold (\<lambda>s img. io_bind (read_sector (base + of_nat s)) (\<lambda>b. io_return (overwrite img (s * SECTOR_SIZE) b)))
      [0..<n] img d = (Done (concat (map (\<lambda>s. store d (base + of_nat s)) [0..<n]) @ drop (n * SECTOR_SIZE) img), d)"
  using assms(3)
proof (induction n)
  case (Suc n)
  have app: "io_fold F (xs @ ys) x d' = io_bind (io_fold F xs x) (io_fold F ys) d'"
    for F :: "nat \<Rightarrow> bytes \<Rightarrow> (disk, bytes) io" and xs ys x d'
    by (induction xs arbitrary: x d') (auto simp: io_bind_def split: prod.splits outcome.splits)
  have len: "length (concat (map (\<lambda>s. store d (base + of_nat s)) [0..<n])) = n * SECTOR_SIZE"
    by (induction n) (simp_all add: assms(2))
  have "overwrite (concat (map (\<lambda>s. store d (base + of_nat s)) [0..<n]) @ drop (n * SECTOR_SIZE) img)
      (n * SECTOR_SIZE) (store d (base + of_nat n)) =
      concat (map (\<lambda>s. store d (base + of_nat s)) [0..<n]) @ store d (base + of_nat n) @ drop (Suc n * SECTOR_SIZE) img"
    unfolding overwrite_def using len Suc.prems by (simp add: assms(2) add.commute)
  with Suc assms(1) show ?case
    by (simp add: app io_bind_def)
qed simp

lemma load_image_eq:
  assumes "\<And>s. bad d s = None" and "\<And>s. length (store d s) = SECTOR_SIZE"
  shows "load_image f slot d = (let img = slot_image f (store d) slot in
    if le_word (subslice img 0 8) \<noteq> IMG_MAGIC then (Fail ''slot holds no system image'', d)
    else (Done \<lparr>im_version = le_word (subslice img 8 8), im_flags = le_word (subslice img 16 8),
                im_digest = sha img\<rparr>, d))"
  using load_loop [OF assms, where n = 8 and img = "replicate IMAGE_BYTES 0" and base = "slot_sector f slot"]
  by (simp add: load_image_def io_bind_def slot_image_def IMAGE_BYTES_def SECTOR_SIZE_def Let_def)

lemma slot_addr:
  assumes "ota_region_ok f" and "slot < 2" and "s < 64"
  shows "unat (slot_sector f slot + of_nat s) = unat (ota_start f) + 1 + slot * 64 + s"
proof -
  have eq: "slot_sector f slot + of_nat s = ota_start f + of_nat (1 + slot * 64 + s)"
    by (simp add: slot_sector_def fs_consts)
  have "1 + slot * 64 + s < 129" using assms by (auto simp: less_2_cases_iff)
  then show ?thesis unfolding eq using assms(1) by (subst unat_add_of_nat) (simp_all add: ota_region_ok_def)
qed

lemma slot_image_frame:
  assumes "\<And>s. s < 8 \<Longrightarrow> m' (slot_sector f slot + of_nat s) = m (slot_sector f slot + of_nat s)"
  shows "slot_image f m' slot = slot_image f m slot"
proof -
  have e: "map (\<lambda>s. m' (slot_sector f slot + of_nat s)) [0..<8] = map (\<lambda>s. m (slot_sector f slot + of_nat s)) [0..<8]"
    using assms by (intro map_cong) auto
  show ?thesis by (simp add: slot_image_def IMAGE_BYTES_def SECTOR_SIZE_def e del: map_eq_conv)
qed

section \<open>Effects of the writes\<close>

lemma length_build_image [simp]: "length (build_image v h) = IMAGE_BYTES"
proof -
  have "IMAGE_HEADER = 32" "IMAGE_HEADER \<le> IMAGE_BYTES" by (simp_all add: IMAGE_BYTES_def IMAGE_HEADER_def)
  then show ?thesis unfolding build_image_def by (simp only: length_append length_le_bytes length_map length_upt)
qed

lemma build_image_fields:
  "le_word (subslice (build_image v h) 0 8) = IMG_MAGIC"
  "(le_word (subslice (build_image v h) 8 8) :: u64) = v"
  "(le_word (subslice (build_image v h) 16 8) :: u64) AND FLAG_HEALTHY \<noteq> 0 \<longleftrightarrow> h"
  by (simp_all add: build_image_def subslice_def FLAG_HEALTHY_def)

lemma concat_sectors:
  "n * SECTOR_SIZE \<le> length img \<Longrightarrow>
   concat (map (\<lambda>s. subslice img (s * SECTOR_SIZE) SECTOR_SIZE) [0..<n]) = take (n * SECTOR_SIZE) img"
  by (induction n) (simp_all add: subslice_def take_add [symmetric] add.commute)

lemma write_image_effect:
  assumes w: "write_image (slot_sector f slot) img d = (r, d')" and "ota_region_ok f" and "slot < 2"
    and len: "length img = IMAGE_BYTES" and lens: "\<And>s. length (store d s) = SECTOR_SIZE"
  shows "bad d' = bad d" and "\<And>s. length (store d' s) = SECTOR_SIZE"
    and "\<And>a. (\<And>s. s < 8 \<Longrightarrow> a \<noteq> slot_sector f slot + of_nat s) \<Longrightarrow> store d' a = store d a"
    and "r = Done () \<Longrightarrow> slot_image f (store d') slot = img"
    and "power d = None \<Longrightarrow> bad d = (\<lambda>_. None) \<Longrightarrow> r = Done () \<and> power d' = None"
    and "bad d = (\<lambda>_. None) \<Longrightarrow> r = Done () \<or> r = PowerOff"
proof -
  let ?b = "slot_sector f slot"
  let ?f = "\<lambda>s. write_sector (?b + of_nat s) (subslice img (s * SECTOR_SIZE) SECTOR_SIZE)"
  have w': "io_each ?f [0..<8] d = (r, d')"
    using w by (simp add: write_image_def IMAGE_BYTES_def SECTOR_SIZE_def)
  show "bad d' = bad d"
    by (rule io_each_keeps [OF w', where P = "\<lambda>x. bad x = bad d"]) (auto dest: write_sector_frame)
  show "length (store d' s) = SECTOR_SIZE" for s
    by (rule io_each_keeps [OF w', where P = "\<lambda>x. \<forall>s. length (store x s) = SECTOR_SIZE", THEN spec])
      (auto simp: lens write_sector_def split: if_splits option.splits)
  show "store d' a = store d a" if "\<And>s. s < 8 \<Longrightarrow> a \<noteq> ?b + of_nat s" for a
  proof (rule dev.each_write_other [OF w', where a = "\<lambda>s. ?b + of_nat s"])
    show "a \<notin> (\<lambda>s. ?b + of_nat s) ` set [0..<8]"
    proof
      assume "a \<in> (\<lambda>s. ?b + of_nat s) ` set [0..<8]"
      then obtain s where "s < 8" "a = ?b + of_nat s" by auto
      with that [of s] show False by simp
    qed
  qed blast
  have inj: "inj_on (\<lambda>s. ?b + of_nat s) {0..<8}"
  proof (rule inj_onI)
    fix x y assume xy: "x \<in> {0..<8}" "y \<in> {0..<8}" "?b + of_nat x = ?b + of_nat y"
    have "unat (?b + of_nat x) = unat (?b + of_nat y)" by (simp only: xy(3))
    moreover have "x < 64" "y < 64" using xy by auto
    ultimately show "x = y" using slot_addr [OF assms(2,3), of x] slot_addr [OF assms(2,3), of y] by linarith
  qed
  show "slot_image f (store d') slot = img" if "r = Done ()"
  proof -
    have "store d' (?b + of_nat s) = subslice img (s * SECTOR_SIZE) SECTOR_SIZE" if "s \<in> set [0..<8]" for s
      using dev.each_write_done [OF w' [unfolded \<open>r = Done ()\<close>], where a = "\<lambda>s. ?b + of_nat s"
        and v = "\<lambda>s. subslice img (s * SECTOR_SIZE) SECTOR_SIZE" and x = s] inj that by auto
    then have e: "map (\<lambda>s. store d' (?b + of_nat s)) [0..<8] =
        map (\<lambda>s. subslice img (s * SECTOR_SIZE) SECTOR_SIZE) [0..<8]"
      by (intro map_cong refl)
    have "slot_image f (store d') slot = concat (map (\<lambda>s. store d' (?b + of_nat s)) [0..<8])"
      by (simp add: slot_image_def IMAGE_BYTES_def SECTOR_SIZE_def)
    also have "\<dots> = img" unfolding e using len by (subst concat_sectors) (simp_all add: IMAGE_BYTES_def SECTOR_SIZE_def)
    finally show ?thesis .
  qed
  have prog: "\<exists>d'. io_each ?f xs d = (Done (), d') \<and> power d' = None" if "set xs \<subseteq> {0..<8}"
    "power d = None" "bad d = (\<lambda>_. None)" for xs d
    using that
  proof (induction xs arbitrary: d)
    case (Cons x xs)
    have "length (subslice img (x * SECTOR_SIZE) SECTOR_SIZE) = SECTOR_SIZE"
      using Cons.prems len by (auto simp: IMAGE_BYTES_def SECTOR_SIZE_def)
    then show ?case using Cons by (simp add: io_bind_def)
  qed simp
  show "r = Done () \<and> power d' = None" if "power d = None" "bad d = (\<lambda>_. None)"
    using prog [OF _ that, of "[0..<8]"] w' by auto
  have one: "length (subslice img (s * SECTOR_SIZE) SECTOR_SIZE) = SECTOR_SIZE" if "s \<in> set [0..<8]" for s
    using that len by (auto simp: IMAGE_BYTES_def SECTOR_SIZE_def)
  show "r = Done () \<or> r = PowerOff" if "bad d = (\<lambda>_. None)"
  proof (cases r)
    case (Fail e)
    show ?thesis
      by (rule io_each_not_fail [OF w' [unfolded Fail], where P = "\<lambda>x. bad x = (\<lambda>_. None)", THEN FalseE, OF that])
        (use one in \<open>auto simp: write_sector_def split: if_splits\<close>)
  qed auto
qed

lemma write_control_cases:
  assumes "write_control f c d = (r, c', d')" and "ct_wf c" and "bad d = (\<lambda>_. None)"
  obtains (written) "r = Done ()" "c' = c\<lparr>ct_seq := ct_seq c + 1\<rparr>" "bad d' = bad d"
      "store d' = (store d)(control_sector f := ct_encode c')" "power d = None \<longrightarrow> power d' = None"
    | (off) "r = PowerOff" "store d' = store d" "bad d' = bad d" "power d = Some 0"
proof -
  have len: "length (ct_encode (c\<lparr>ct_seq := ct_seq c + 1\<rparr>)) = SECTOR_SIZE"
    using assms(2) by (intro ct_decode_encode) (simp add: ct_wf_def)
  show thesis
    using assms len by (cases "power d = Some 0")
      (auto simp: write_control_def Let_def write_sector_def intro: written off)
qed

section \<open>The life of a device\<close>

text \<open>
  \<open>ota_inv f d c\<close>: the control block on the disk is \<open>c\<close>, the slot it names holds the image it
  describes, and either that slot has proved itself or the other one has and is intact.
\<close>

definition ota_inv :: "Fs \<Rightarrow> disk \<Rightarrow> Control \<Rightarrow> bool" where
  "ota_inv f d c \<longleftrightarrow> ota_region_ok f \<and> bad d = (\<lambda>_. None) \<and> (\<forall>s. length (store d s) = SECTOR_SIZE)
     \<and> ct_wf c \<and> ct_decode (store d (control_sector f)) = Some c
     \<and> slot_good f (store d) c (ct_active c)
     \<and> (ct_state c ! ct_active c = Successful
        \<or> ct_state c ! ct_active c = Unverified \<and> ct_state c ! ct_other c = Successful
          \<and> slot_good f (store d) c (ct_other c))"

lemma ct_other_lt: "ct_wf c \<Longrightarrow> ct_other c < 2 \<and> ct_other c \<noteq> ct_active c"
  by (auto simp: ct_wf_def ct_other_def less_2_cases_iff)

lemma slot_good_frame:
  assumes "ota_region_ok f" and "slot < 2" and "m' = m(control_sector f := v)"
    and "ct_version c' ! slot = ct_version c ! slot" and "ct_digest c' ! slot = ct_digest c ! slot"
  shows "slot_good f m' c' slot = slot_good f m c slot"
proof -
  have "slot_sector f slot + of_nat s \<noteq> control_sector f" if "s < 8" for s
    using slot_addr [OF assms(1,2), of s] that by (auto simp: control_sector_def)
  then have "slot_image f m' slot = slot_image f m slot"
    using assms(3) by (intro slot_image_frame) auto
  then show ?thesis using assms(4,5) by (simp add: slot_good_def Let_def)
qed

text \<open>Writing a control block that keeps versions and digests keeps the slots.\<close>

lemma ota_inv_write:
  assumes inv: "ota_inv f d c" and wf: "ct_wf c'"
    and m: "store d' = (store d)(control_sector f := ct_encode c')" and "bad d' = bad d"
    and same: "ct_version c' = ct_version c" "ct_digest c' = ct_digest c"
    and ok: "(ct_active c' = ct_active c \<and> (ct_state c' ! ct_active c = Successful \<or>
          ct_state c' ! ct_active c = Unverified \<and> ct_state c ! ct_active c = Unverified \<and> ct_state c' ! ct_other c = Successful))
      \<or> (ct_active c' = ct_other c \<and> ct_state c ! ct_active c = Unverified \<and> ct_state c' ! ct_other c = Successful)"
  shows "ota_inv f d' c'"
proof -
  have I: "ota_region_ok f" "ct_wf c" "\<And>s. length (store d s) = SECTOR_SIZE" "bad d = (\<lambda>_. None)"
    "slot_good f (store d) c (ct_active c)"
    "ct_state c ! ct_active c = Unverified \<Longrightarrow> slot_good f (store d) c (ct_other c)"
    using inv by (auto simp: ota_inv_def)
  have G: "slot_good f (store d') c' slot = slot_good f (store d) c slot" if "slot < 2" for slot
    using slot_good_frame [OF I(1) that m] same by simp
  have lt: "ct_active c < 2" "ct_other c < 2" using I(2) ct_other_lt by (auto simp: ct_wf_def)
  have "ct_decode (store d' (control_sector f)) = Some c'" using m ct_decode_encode(1) [OF wf] by simp
  moreover have "length (store d' s) = SECTOR_SIZE" for s using m I(3) ct_decode_encode(2) [OF wf] by simp
  moreover have "ct_other c' = ct_other c" if "ct_active c' = ct_active c" using that by (simp add: ct_other_def)
  ultimately show ?thesis
    using ok I lt wf assms(4) G by (auto simp: ota_inv_def)
qed

lemma ota_inv_reads:
  assumes "ota_inv f d c"
  shows "read_control f d = (Done (Some c), d)"
    and "\<And>slot. slot_good f (store d) c slot \<Longrightarrow> load_image f slot d =
      (Done \<lparr>im_version = ct_version c ! slot,
             im_flags = le_word (subslice (slot_image f (store d) slot) 16 8),
             im_digest = ct_digest c ! slot\<rparr>, d)"
proof -
  have ok: "\<And>s. bad d s = None" "\<And>s. length (store d s) = SECTOR_SIZE"
    and dec: "ct_decode (store d (control_sector f)) = Some c"
    using assms by (auto simp: ota_inv_def)
  then show "read_control f d = (Done (Some c), d)"
    by (simp add: read_control_def io_bind_def io_catch_def)
  show "load_image f slot d = (Done \<lparr>im_version = ct_version c ! slot,
      im_flags = le_word (subslice (slot_image f (store d) slot) 16 8), im_digest = ct_digest c ! slot\<rparr>, d)"
    if "slot_good f (store d) c slot" for slot
    using that by (simp add: load_image_eq [OF ok] slot_good_def Let_def)
qed

definition healthy_slot :: "Fs \<Rightarrow> disk \<Rightarrow> nat \<Rightarrow> bool" where
  "healthy_slot f d slot \<longleftrightarrow> (le_word (subslice (slot_image f (store d) slot) 16 8) :: u64) AND FLAG_HEALTHY \<noteq> 0"

lemma boot_cases:
  assumes inv: "ota_inv f d c" and b: "boot f d = (r, d')"
  obtains (running) "ct_state c ! ct_active c = Successful" "d' = d"
      "r = Done (c, Running (ct_active c) (ct_version c ! ct_active c))"
    | (trying) c' where "ct_state c ! ct_active c = Unverified" "ct_tries c \<noteq> 0"
      "c' = c\<lparr>ct_tries := ct_tries c - 1, ct_seq := ct_seq c + 1\<rparr>" "ota_inv f d' c'"
      "r = Done (c', Trying (ct_active c) (ct_version c ! ct_active c) (ct_tries c - 1) (healthy_slot f d (ct_active c)))"
      "power d = None \<longrightarrow> power d' = None" "\<forall>slot<2. slot_image f (store d') slot = slot_image f (store d) slot"
    | (rolled) c' where "ct_state c ! ct_active c = Unverified" "ct_tries c = 0" "ota_inv f d' c'"
      "c' = c\<lparr>ct_state := (ct_state c)[ct_active c := Failed], ct_active := ct_other c,
              ct_rollbacks := sat_add1 (ct_rollbacks c), ct_seq := ct_seq c + 1\<rparr>"
      "r = Done (c', RolledBack (ct_active c) (ct_other c) (ct_version c ! ct_other c))"
      "power d = None \<longrightarrow> power d' = None"
    | (off) "r = PowerOff" "ota_inv f d' c" "power d = Some 0"
proof -
  note R = ota_inv_reads [OF inv]
  have I: "ct_wf c" "bad d = (\<lambda>_. None)" "slot_good f (store d) c (ct_active c)" "ota_region_ok f"
    using inv by (auto simp: ota_inv_def)
  have keep: "ota_inv f dd c" if "store dd = store d" "bad dd = bad d" for dd
    using inv that by (simp add: ota_inv_def)
  consider (S) "ct_state c ! ct_active c = Successful"
    | (U) "ct_state c ! ct_active c = Unverified" "ct_state c ! ct_other c = Successful"
    using inv by (auto simp: ota_inv_def)
  then show thesis
  proof cases
    case S
    then show thesis
      using b R I(3) by (intro running) (auto simp: boot_def boot_slot_def Let_def io_bind_def io_catch_def)
  next
    case U
    show thesis
    proof (cases "ct_tries c = 0")
      case True
      define c1 where "c1 = c\<lparr>ct_state := (ct_state c)[ct_active c := Failed], ct_active := ct_other c,
          ct_rollbacks := sat_add1 (ct_rollbacks c)\<rparr>"
      have wf1: "ct_wf c1" using I(1) ct_other_lt [OF I(1)] by (simp add: c1_def ct_wf_def)
      obtain q c2 d2 where w: "write_control f c1 d = (q, c2, d2)" by (cases "write_control f c1 d") auto
      from w wf1 I(2) show thesis
      proof (cases rule: write_control_cases)
        case written
        have "ota_inv f d2 c2"
          using U wf1 written ct_other_lt [OF I(1)]
          by (intro ota_inv_write [OF inv _ _ written(3)]) (auto simp: c1_def ct_wf_def)
        with written w U True b R show thesis
          by (intro rolled [of c2]) (auto simp: boot_def Let_def io_bind_def try_write_control_def c1_def [symmetric],
              simp_all add: c1_def)
      next
        case off': off
        with w U True b R keep show thesis
          by (intro off) (auto simp: boot_def Let_def io_bind_def try_write_control_def c1_def)
      qed
    next
      case False
      define c1 where "c1 = c\<lparr>ct_tries := ct_tries c - 1\<rparr>"
      have wf1: "ct_wf c1" using I(1) by (simp add: c1_def ct_wf_def)
      have sub: "sat_sub1 (ct_tries c) = ct_tries c - 1" using False by (simp add: sat_sub1_def)
      obtain q c2 d2 where w: "write_control f c1 d = (q, c2, d2)" by (cases "write_control f c1 d") auto
      from w wf1 I(2) show thesis
      proof (cases rule: write_control_cases)
        case written
        have "ota_inv f d2 c2"
          using U wf1 written by (intro ota_inv_write [OF inv _ _ written(3)]) (auto simp: c1_def ct_wf_def)
        moreover have "\<forall>slot<2. slot_image f (store d2) slot = slot_image f (store d) slot"
        proof (intro allI impI slot_image_frame)
          fix slot s :: nat assume "slot < 2" "s < 8"
          then show "store d2 (slot_sector f slot + of_nat s) = store d (slot_sector f slot + of_nat s)"
            using slot_addr [OF I(4), of slot s] written(4) by (auto simp: control_sector_def)
        qed
        ultimately show thesis
          using written w U False b R I(3) sub
          by (intro trying [of c2]) (auto simp: boot_def boot_slot_def Let_def io_bind_def io_catch_def
              try_write_control_def c1_def [symmetric] healthy_slot_def, simp_all add: c1_def)
      next
        case off': off
        with w U False b R I(3) keep sub show thesis
          by (intro off) (auto simp: boot_def boot_slot_def Let_def io_bind_def io_catch_def try_write_control_def c1_def)
      qed
    qed
  qed
qed

text \<open>An install into the other slot, and what an interruption of it leaves.\<close>

lemma stage_cases:
  assumes inv: "ota_inv f d c" and act: "ct_state c ! ct_active c = Successful"
    and s: "stage f c (ct_other c) v h d = (r, c', d')"
  obtains (installed) "r = Done ()" "ota_inv f d' c'" "ct_active c' = ct_other c" "ct_tries c' = MAX_TRIES"
      "ct_state c' ! ct_active c' = Unverified" "ct_version c' = (ct_version c)[ct_other c := v]"
      "healthy_slot f d' (ct_other c) = h" "power d = None \<longrightarrow> power d' = None"
    | (off) "r = PowerOff" "ota_inv f d' c" "power d \<noteq> None"
proof -
  let ?o = "ct_other c" and ?img = "build_image v h"
  have I: "ota_region_ok f" "ct_wf c" "\<And>s. length (store d s) = SECTOR_SIZE" "bad d = (\<lambda>_. None)"
    "slot_good f (store d) c (ct_active c)" "ct_decode (store d (control_sector f)) = Some c"
    using inv by (auto simp: ota_inv_def)
  have o: "?o < 2" "?o \<noteq> ct_active c" "ct_active c < 2" "ct_active c = 1 - ?o"
    using ct_other_lt [OF I(2)] I(2) by (auto simp: ct_wf_def ct_other_def less_2_cases_iff)
  obtain q d1 where w: "write_image (slot_sector f ?o) ?img d = (q, d1)"
    by (cases "write_image (slot_sector f ?o) ?img d") auto
  note W = write_image_effect [OF w I(1) o(1) length_build_image I(3)]
  have q: "q = Done () \<or> q = PowerOff" using W(6) I(4) by simp
  have ctl: "store d1 (control_sector f) = store d (control_sector f)"
  proof (rule W(3))
    fix s :: nat assume "s < 8"
    then show "control_sector f \<noteq> slot_sector f ?o + of_nat s"
      using slot_addr [OF I(1) o(1), of s] by (auto simp: control_sector_def)
  qed
  have img: "slot_image f (store d1) (ct_active c) = slot_image f (store d) (ct_active c)"
  proof (rule slot_image_frame, rule W(3))
    fix s t :: nat assume "s < 8" "t < 8"
    then show "slot_sector f (ct_active c) + of_nat s \<noteq> slot_sector f ?o + of_nat t"
      using slot_addr [OF I(1) o(3), of s] slot_addr [OF I(1) o(1), of t] o
      by (cases "ct_active c") (auto simp: less_2_cases_iff)
  qed
  have keep: "ota_inv f dd c" if "store dd = store d1" "bad dd = bad d1" for dd
    using I W(1,2) ctl img act that by (simp add: ota_inv_def slot_good_def)
  show thesis
  proof (cases "q = Done ()")
    case False
    with q have qo: "q = PowerOff" by simp
    with w s W(5) I(4) keep [of d1] show thesis
      by (intro off) (auto simp: stage_def Let_def)
  next
    case True
    define c1 where "c1 = c\<lparr>ct_version := (ct_version c)[?o := v], ct_digest := (ct_digest c)[?o := sha ?img],
        ct_state := (ct_state c)[?o := Unverified], ct_active := ?o, ct_tries := MAX_TRIES\<rparr>"
    have sl: "length (sha ?img) = 32" by (simp add: sha_def digest_ref)
    have wf1: "ct_wf c1"
      using I(2) o(1-3) sl by (auto simp: c1_def ct_wf_def dest!: set_update_subset_insert [THEN subsetD])
    have wc: "write_control f c1 d1 = (r, c', d')"
      using s w True by (simp add: stage_def Let_def c1_def)
    have bad1: "bad d1 = (\<lambda>_. None)" using W(1) I(4) by simp
    from wc wf1 bad1 show thesis
    proof (cases rule: write_control_cases)
      case written
      have wf': "ct_wf c'" using wf1 written(2) by (simp add: ct_wf_def)
      have G: "slot_image f (store d') slot = slot_image f (store d1) slot" if "slot < 2" for slot
      proof (rule slot_image_frame)
        fix s :: nat assume "s < 8"
        then show "store d' (slot_sector f slot + of_nat s) = store d1 (slot_sector f slot + of_nat s)"
          using slot_addr [OF I(1) that, of s] written(4) by (auto simp: control_sector_def)
      qed
      have new: "slot_image f (store d') ?o = ?img" using G [OF o(1)] W(4) True by simp
      have "slot_good f (store d') c' ?o"
        using new written(2) I(2) o(1-3) by (simp add: slot_good_def build_image_fields c1_def ct_wf_def)
      moreover have "slot_good f (store d') c' (ct_active c)"
        using I(5) G [OF o(3)] img written(2) o(1-3) by (simp add: slot_good_def c1_def)
      moreover have "ct_other c' = ct_active c" using o(4) written(2) by (simp add: ct_other_def c1_def)
      moreover have "ct_state c' ! ?o = Unverified" "ct_state c' ! ct_active c = Successful"
        using written(2) I(2) o(1-3) act by (auto simp: c1_def ct_wf_def)
      moreover have "length (store d' s) = SECTOR_SIZE" for s
        using written(4) W(2) ct_decode_encode(2) [OF wf'] by simp
      ultimately have "ota_inv f d' c'"
        using I(1,4) W(1) wf' written ct_decode_encode(1) [OF wf']
        by (simp add: ota_inv_def c1_def)
      then show thesis
        using written new W(5) I(4) o(1-3) I(2)
        by (intro installed) (auto simp: c1_def ct_wf_def healthy_slot_def build_image_fields)
    next
      case off': off
      then show thesis using keep [of d'] W(5) I(4) by (intro off) auto
    qed
  qed
qed

lemma mark_successful_cases:
  assumes inv: "ota_inv f d c" and m: "mark_successful f c d = (r, c', d')"
  obtains (marked) "r = Done ()" "ota_inv f d' c'" "ct_state c' ! ct_active c' = Successful" "ct_active c' = ct_active c"
    | (off) "r = PowerOff" "ota_inv f d' c"
proof -
  have I: "ct_wf c" "bad d = (\<lambda>_. None)" using inv by (auto simp: ota_inv_def)
  note o = ct_other_lt [OF I(1)]
  define c1 where "c1 = c\<lparr>ct_state := (ct_state c)[ct_active c := Successful], ct_tries := 0\<rparr>"
  define c2 where "c2 = (if ct_state c1 ! ct_other c1 = Successful
      then c1\<lparr>ct_state := (ct_state c1)[ct_other c1 := Empty]\<rparr> else c1)"
  have oth: "ct_other c1 = ct_other c" by (simp add: ct_other_def c1_def)
  have wf2: "ct_wf c2" using I(1) by (simp add: c2_def c1_def ct_wf_def)
  have st: "ct_state c2 ! ct_active c = Successful" "ct_active c2 = ct_active c"
    "ct_version c2 = ct_version c" "ct_digest c2 = ct_digest c"
    using I(1) o by (auto simp: c2_def oth) (auto simp: c1_def ct_wf_def)
  have w: "write_control f c2 d = (r, c', d')"
    using m by (simp add: mark_successful_def Let_def c1_def [symmetric] c2_def [symmetric])
  from w wf2 I(2) show thesis
  proof (cases rule: write_control_cases)
    case written
    have "ota_inv f d' c'"
      using wf2 st written by (intro ota_inv_write [OF inv _ written(4,3)]) (auto simp: ct_wf_def)
    with written st show thesis by (intro marked) auto
  next
    case off': off
    then show thesis using inv by (intro off) (auto simp: ota_inv_def)
  qed
qed

lemma initialise_inv:
  assumes "ota_region_ok f" and "bad d = (\<lambda>_. None)" and lens: "\<And>s. length (store d s) = SECTOR_SIZE"
    and i: "initialise f d = (Done c, d')"
  shows "ota_inv f d' c"
proof -
  let ?img = "build_image 1 True"
  define c1 where "c1 = Control_blank\<lparr>ct_version := [1, 0], ct_digest := [sha ?img, replicate 32 0],
     ct_state := [Successful, Empty], ct_active := 0, ct_tries := 0\<rparr>"
  have "length (sha ?img) = 32" by (simp add: sha_def digest_ref)
  then have wf1: "ct_wf c1" by (simp add: c1_def ct_wf_def Control_blank_def)
  obtain q d1 where w: "write_image (slot_sector f 0) ?img d = (q, d1)"
    by (cases "write_image (slot_sector f 0) ?img d") auto
  note W = write_image_effect [OF w assms(1) _ length_build_image lens]
  have bad1: "bad d1 = (\<lambda>_. None)" using W(1) assms(2) by simp
  obtain r c2 d2 where wc: "write_control f c1 d1 = (r, c2, d2)" by (cases "write_control f c1 d1") auto
  have q: "q = Done ()" "r = Done ()" "c2 = c" "d2 = d'"
    using i w wc by (auto simp: initialise_def Let_def io_bind_def c1_def Control_blank_def
        split: outcome.splits)
  from wc wf1 bad1 show ?thesis
  proof (cases rule: write_control_cases)
    case written
    have wf': "ct_wf c" using wf1 written(2) q by (simp add: ct_wf_def)
    have "slot_image f (store d') 0 = slot_image f (store d1) 0"
    proof (rule slot_image_frame)
      fix s :: nat assume "s < 8"
      then show "store d' (slot_sector f 0 + of_nat s) = store d1 (slot_sector f 0 + of_nat s)"
        using slot_addr [OF assms(1), of 0 s] written(4) q by (auto simp: control_sector_def)
    qed
    then have "slot_image f (store d') 0 = ?img" using W(4) q by simp
    then have "slot_good f (store d') c 0"
      using written(2) q by (auto simp: slot_good_def build_image_fields c1_def)
    moreover have "length (store d' s) = SECTOR_SIZE" for s
      using written(4) q W(2) ct_decode_encode(2) [OF wf'] by simp
    ultimately show ?thesis
      using assms(1) bad1 wf' written q ct_decode_encode(1) [OF wf'] by (auto simp: ota_inv_def c1_def)
  qed (use q in simp)
qed

text \<open>
  The phases of a device: off, running with the control block and outcome \<open>boot\<close> returned, or
  running with an update installed that waits for a restart. As in the kernel's boot sequence, an
  update is staged into the other slot while the running one has proved itself, and only a slot on
  probation that found itself healthy reports success. Power can be lost at any sector write.
\<close>

datatype phase = Off | Up Control Outcome | Staged Control

inductive ota_step :: "Fs \<Rightarrow> phase \<times> disk \<Rightarrow> phase \<times> disk \<Rightarrow> bool" for f where
  power_on: "boot f d = (Done (c, x), d') \<Longrightarrow> ota_step f (Off, d) (Up c x, d')"
| boot_cut: "boot f d = (PowerOff, d') \<Longrightarrow> ota_step f (Off, d) (Off, reboot d')"
| install: "ct_state c ! ct_active c = Successful \<Longrightarrow> stage f c (ct_other c) v h d = (Done (), c', d') \<Longrightarrow>
    ota_step f (Up c x, d) (Staged c', d')"
| install_cut: "ct_state c ! ct_active c = Successful \<Longrightarrow> stage f c (ct_other c) v h d = (PowerOff, c', d') \<Longrightarrow>
    ota_step f (Up c x, d) (Off, reboot d')"
| confirm: "mark_successful f c d = (Done (), c', d') \<Longrightarrow>
    ota_step f (Up c (Trying slot v t True), d) (Up c' (Trying slot v t True), d')"
| confirm_cut: "mark_successful f c d = (PowerOff, c', d') \<Longrightarrow>
    ota_step f (Up c (Trying slot v t True), d) (Off, reboot d')"
| power_cut: "ota_step f (ph, d) (Off, reboot d)"
| cut_planned: "ota_step f (ph, d) (ph, d\<lparr>power := p\<rparr>)"

definition ota_ok :: "Fs \<Rightarrow> phase \<times> disk \<Rightarrow> bool" where
  "ota_ok f = (\<lambda>(ph, d). case ph of Off \<Rightarrow> (\<exists>c. ota_inv f d c) | Up c x \<Rightarrow> ota_inv f d c
     | Staged c \<Rightarrow> ota_inv f d c)"

definition ota_init :: "Fs \<Rightarrow> phase \<times> disk \<Rightarrow> bool" where
  "ota_init f w \<longleftrightarrow> ota_region_ok f \<and> fst w = Off \<and> (\<exists>d c. bad d = (\<lambda>_. None)
     \<and> (\<forall>s. length (store d s) = SECTOR_SIZE) \<and> initialise f d = (Done c, snd w))"

lemma ota_inv_power [simp]: "ota_inv f (d\<lparr>power := p\<rparr>) c = ota_inv f d c"
  by (simp add: ota_inv_def)

lemma ota_inv_reboot [simp]: "ota_inv f (reboot d) c = ota_inv f d c"
  by (simp add: reboot_def)

lemma ota_step_ok: "ota_step f s t \<Longrightarrow> ota_ok f s \<Longrightarrow> ota_ok f t"
proof (induction rule: ota_step.induct)
  case (power_on d c x d')
  then obtain c0 where inv: "ota_inv f d c0" by (auto simp: ota_ok_def)
  from inv power_on(1) show ?case using inv by (cases rule: boot_cases) (auto simp: ota_ok_def)
next
  case (boot_cut d d')
  then obtain c0 where "ota_inv f d c0" by (auto simp: ota_ok_def)
  from this boot_cut(1) show ?case by (cases rule: boot_cases) (auto simp: ota_ok_def)
next
  case (install c v h d c' d' x)
  then have inv: "ota_inv f d c" by (simp add: ota_ok_def)
  from inv install(1,2) show ?case by (cases rule: stage_cases) (auto simp: ota_ok_def)
next
  case (install_cut c v h d c' d' x)
  then have inv: "ota_inv f d c" by (simp add: ota_ok_def)
  from inv install_cut(1,2) show ?case by (cases rule: stage_cases) (auto simp: ota_ok_def)
next
  case (confirm c d c' d' slot v t)
  then have inv: "ota_inv f d c" by (simp add: ota_ok_def)
  from inv confirm(1) show ?case by (cases rule: mark_successful_cases) (auto simp: ota_ok_def)
next
  case (confirm_cut c d c' d' slot v t)
  then have inv: "ota_inv f d c" by (simp add: ota_ok_def)
  from inv confirm_cut(1) show ?case by (cases rule: mark_successful_cases) (auto simp: ota_ok_def)
qed (auto simp: ota_ok_def split: phase.splits)

interpretation ota_life: invariant_of "ota_init f" "ota_step f" "ota_ok f" for f
proof
  fix s show "ota_init f s \<Longrightarrow> ota_ok f s"
    by (cases s) (auto simp: ota_init_def ota_ok_def intro: initialise_inv)
qed (rule ota_step_ok)

section \<open>Properties\<close>

text \<open>
  C8: No update bricks the device. In every life that starts from \<open>initialise\<close> and continues with any
  sequence of boots, installs, reports of success and power cuts at any sector write, a boot that
  completes runs an image that matches the control block's version and digest: it never reports
  \<open>Fresh\<close> or \<open>Corrupt\<close>, and what it does report is a slot that has proved itself, a try that has
  already been counted on the disk, or a rollback to a slot that has proved itself.
\<close>

theorem ota_never_bricks:
  assumes "reach (ota_init f) (ota_step f) (Off, d)" and "boot f d = (Done (c, x), d')"
  shows "(case x of
      Running slot v \<Rightarrow> ct_state c ! slot = Successful \<and> ct_active c = slot \<and> v = ct_version c ! slot
    | Trying slot v t h \<Rightarrow> ct_active c = slot \<and> v = ct_version c ! slot \<and> ct_tries c = t
    | RolledBack fr to v \<Rightarrow> ct_active c = to \<and> fr \<noteq> to \<and> ct_state c ! to = Successful \<and> v = ct_version c ! to
    | Fresh \<Rightarrow> False | Corrupt slot \<Rightarrow> False)
    \<and> slot_good f (store d') c (ct_active c) \<and> ct_decode (store d' (control_sector f)) = Some c"
proof -
  obtain c0 where inv: "ota_inv f d c0"
    using ota_life.inv_reach [OF assms(1)] by (auto simp: ota_ok_def)
  have wf: "ct_wf c0" and succ: "ct_state c0 ! ct_active c0 = Unverified \<Longrightarrow> ct_state c0 ! ct_other c0 = Successful"
    using inv by (auto simp: ota_inv_def)
  from inv assms(2) show ?thesis
  proof (cases rule: boot_cases)
    case running
    with inv show ?thesis by (auto simp: ota_inv_def)
  next
    case (trying c')
    then show ?thesis by (auto simp: ota_inv_def)
  next
    case (rolled c')
    then show ?thesis using ct_other_lt [OF wf] succ by (auto simp: ota_inv_def)
  qed simp
qed

definition demo_fs :: Fs where
  "demo_fs = \<lparr>fs_cp = Checkpoint_new, spill_start = 0, spill_sectors = 0, audit_start = 0, audit_sectors = 0,
     ota_start = 1000, ota_sectors = OTA_SECTORS, fs_slot = 0, total_sectors = 2000\<rparr>"

definition new_device :: disk where
  "new_device = snd (initialise demo_fs \<lparr>store = \<lambda>_. replicate SECTOR_SIZE 0, bad = \<lambda>_. None, power = None\<rparr>)"

lemma new_device:
  "ota_init demo_fs (Off, new_device)" "ota_region_ok demo_fs" "power new_device = None"
  "\<exists>c. ota_inv demo_fs new_device c \<and> ct_state c ! ct_active c = Successful \<and> ct_active c = 0
     \<and> ct_version c = [1, 0]"
proof -
  let ?d = "\<lparr>store = \<lambda>_. replicate SECTOR_SIZE 0, bad = \<lambda>_. None, power = None\<rparr> :: disk"
  let ?img = "build_image 1 True"
  show r: "ota_region_ok demo_fs" by (simp add: ota_region_ok_def demo_fs_def)
  obtain q d1 where w: "write_image (slot_sector demo_fs 0) ?img ?d = (q, d1)"
    by (cases "write_image (slot_sector demo_fs 0) ?img ?d") auto
  note W = write_image_effect [OF w r _ length_build_image]
  have q: "q = Done ()" "power d1 = None" "bad d1 = (\<lambda>_. None)" using W(1,5) by auto
  define c1 where "c1 = Control_blank\<lparr>ct_version := [1, 0], ct_digest := [sha ?img, replicate 32 0],
     ct_state := [Successful, Empty], ct_active := 0, ct_tries := 0\<rparr>"
  have "length (sha ?img) = 32" by (simp add: sha_def digest_ref)
  then have wf1: "ct_wf c1" by (simp add: c1_def ct_wf_def Control_blank_def)
  obtain p c2 d2 where wc: "write_control demo_fs c1 d1 = (p, c2, d2)" by (cases "write_control demo_fs c1 d1") auto
  from wc wf1 q(3) have p: "p = Done ()" "c2 = c1\<lparr>ct_seq := ct_seq c1 + 1\<rparr>" "power d2 = None"
    using q(2) by (cases rule: write_control_cases; simp)+
  have i: "initialise demo_fs ?d = (Done c2, d2)"
    using w wc q p(1) by (simp add: initialise_def Let_def io_bind_def c1_def Control_blank_def)
  then have d2: "new_device = d2" by (simp add: new_device_def)
  show "ota_init demo_fs (Off, new_device)"
    unfolding ota_init_def d2 using r i by (intro conjI exI [of _ ?d] exI [of _ c2]) simp_all
  show "power new_device = None" using p d2 by simp
  have "ota_inv demo_fs d2 c2" by (rule initialise_inv [OF r _ _ i]) simp_all
  then show "\<exists>c. ota_inv demo_fs new_device c \<and> ct_state c ! ct_active c = Successful \<and> ct_active c = 0
     \<and> ct_version c = [1, 0]"
    unfolding d2 using p by (intro exI [of _ c2]) (simp add: c1_def)
qed

theorem ota_never_bricks_witness:
  "reach (ota_init demo_fs) (ota_step demo_fs) (Off, new_device) \<and>
   (\<exists>c x d'. boot demo_fs new_device = (Done (c, x), d') \<and> x \<noteq> Fresh)"
proof -
  have r: "reach (ota_init demo_fs) (ota_step demo_fs) (Off, new_device)"
    using new_device(1) by (rule reach_init)
  obtain c where c: "ota_inv demo_fs new_device c" "ct_state c ! ct_active c = Successful"
    using new_device(4) by blast
  obtain q d' where b: "boot demo_fs new_device = (q, d')" by (cases "boot demo_fs new_device") auto
  from c(1) b have "\<exists>c x. q = Done (c, x)" using c(2) new_device(3) by (cases rule: boot_cases) auto
  then obtain c1 x where q: "q = Done (c1, x)" by blast
  from ota_never_bricks [OF r b [unfolded q]] have "x \<noteq> Fresh" by auto
  with r b q show ?thesis by blast
qed

text \<open>
  C9: An update that never reports success is undone. From a running slot that has proved itself,
  installing any image and then only booting gives exactly \<open>MAX_TRIES\<close> tries of the new slot, then a
  rollback to the old one, and from then on the old version runs.
\<close>

theorem ota_rolls_back:
  assumes "ota_inv f d c" and "ct_state c ! ct_active c = Successful" and "power d = None"
    and "stage f c (ct_other c) v h d = (r, c1, d1)"
  shows "\<exists>c2 d2 c3 d3 c4 d4 c5.
      boot f d1 = (Done (c2, Trying (ct_other c) v 1 h), d2)
    \<and> boot f d2 = (Done (c3, Trying (ct_other c) v 0 h), d3)
    \<and> boot f d3 = (Done (c4, RolledBack (ct_other c) (ct_active c) (ct_version c ! ct_active c)), d4)
    \<and> boot f d4 = (Done (c5, Running (ct_active c) (ct_version c ! ct_active c)), d4)"
proof -
  let ?o = "ct_other c"
  have wf: "ct_wf c" using assms(1) by (simp add: ota_inv_def)
  have o: "?o < 2" "?o \<noteq> ct_active c" using ct_other_lt [OF wf] by auto
  have bk: "1 - ?o = ct_active c" using wf by (auto simp: ct_wf_def ct_other_def less_2_cases_iff)
  have ver: "(ct_version c)[?o := v] ! ?o = v" using wf o by (simp add: ct_wf_def)
  from assms(1,2,4) have s: "ota_inv f d1 c1" "ct_active c1 = ?o" "ct_tries c1 = 2" "ct_state c1 ! ?o = Unverified"
    "ct_version c1 = (ct_version c)[?o := v]" "healthy_slot f d1 ?o = h" "power d1 = None"
    using assms(3) by (cases rule: stage_cases; auto simp: MAX_TRIES_def)+
  obtain r2 d2 where b2: "boot f d1 = (r2, d2)" by (cases "boot f d1") auto
  from s(1) b2 obtain c2 where c2: "r2 = Done (c2, Trying ?o v 1 h)" "ota_inv f d2 c2" "ct_active c2 = ?o"
    "ct_tries c2 = 1" "ct_state c2 ! ?o = Unverified" "ct_version c2 = (ct_version c)[?o := v]"
    "healthy_slot f d2 ?o = h" "power d2 = None"
    using s ver o by (cases rule: boot_cases) (auto simp: healthy_slot_def)
  obtain r3 d3 where b3: "boot f d2 = (r3, d3)" by (cases "boot f d2") auto
  from c2(2) b3 obtain c3 where c3: "r3 = Done (c3, Trying ?o v 0 h)" "ota_inv f d3 c3" "ct_active c3 = ?o"
    "ct_tries c3 = 0" "ct_state c3 ! ?o = Unverified" "ct_version c3 = (ct_version c)[?o := v]" "power d3 = None"
    using c2 ver o by (cases rule: boot_cases) auto
  have succ: "ct_state c3 ! ct_active c3 = Unverified \<Longrightarrow> ct_state c3 ! ct_other c3 = Successful"
    using c3(2) by (auto simp: ota_inv_def)
  obtain r4 d4 where b4: "boot f d3 = (r4, d4)" by (cases "boot f d3") auto
  have oth: "ct_other c3 = ct_active c" using bk c3(3) by (simp add: ct_other_def)
  from c3(2) b4 obtain c4 where c4: "r4 = Done (c4, RolledBack ?o (ct_active c) (ct_version c ! ct_active c))"
    "ota_inv f d4 c4" "ct_active c4 = ct_active c" "ct_state c4 ! ct_active c = Successful"
    "ct_version c4 ! ct_active c = ct_version c ! ct_active c" "power d4 = None"
    using c3 oth o succ by (cases rule: boot_cases) auto
  obtain r5 d5 where b5: "boot f d4 = (r5, d5)" by (cases "boot f d4") auto
  from c4(2) b5 have "r5 = Done (c4, Running (ct_active c) (ct_version c ! ct_active c)) \<and> d5 = d4"
    using c4 by (cases rule: boot_cases) auto
  then show ?thesis using b2 c2(1) b3 c3(1) b4 c4(1) b5 by blast
qed

theorem ota_rolls_back_witness:
  "\<exists>c d1 d2 d3 d4 c4. d1 = snd (snd (stage demo_fs c 1 2 False new_device)) \<and> ota_inv demo_fs new_device c
    \<and> d2 = snd (boot demo_fs d1) \<and> d3 = snd (boot demo_fs d2) \<and> boot demo_fs d3 = (Done (c4, RolledBack 1 0 1), d4)"
proof -
  obtain c where c: "ota_inv demo_fs new_device c" "ct_state c ! ct_active c = Successful" "ct_active c = 0"
    "ct_version c = [1, 0]"
    using new_device(4) by blast
  have o: "ct_other c = 1" using c(3) by (simp add: ct_other_def)
  obtain r c1 d1 where s: "stage demo_fs c (ct_other c) 2 False new_device = (r, c1, d1)"
    by (cases "stage demo_fs c (ct_other c) 2 False new_device") auto
  from ota_rolls_back [OF c(1,2) new_device(3) s] obtain c2 d2 c3 d3 c4 d4 where
    "boot demo_fs d1 = (Done (c2, Trying 1 2 1 False), d2)" "boot demo_fs d2 = (Done (c3, Trying 1 2 0 False), d3)"
    "boot demo_fs d3 = (Done (c4, RolledBack 1 0 1), d4)"
    using c o by auto
  then show ?thesis
    using s o c(1) by (intro exI [of _ c] exI [of _ d1] exI [of _ d2] exI [of _ d3] exI [of _ d4] exI [of _ c4]) simp
qed

text \<open>
  A slot that does not hold what the control block says is never given up. \<open>boot\<close> reports it as
  corrupt and changes nothing, so the next boot reports it again, and so on, even when the other slot
  has proved itself and is intact: the try that would lead to a rollback is only spent on an image
  that reads back correctly.
\<close>

theorem ota_corrupt_slot_is_kept:
  assumes "bad d = (\<lambda>_. None)" and "\<forall>s. length (store d s) = SECTOR_SIZE"
    and "ct_decode (store d (control_sector f)) = Some c" and "\<not> slot_good f (store d) c (ct_active c)"
    and "ct_state c ! ct_active c = Unverified \<longrightarrow> ct_tries c \<noteq> 0"
  shows "boot f d = (Done (c, Corrupt (ct_active c)), d)"
proof -
  have ok: "\<And>s. bad d s = None" "\<And>s. length (store d s) = SECTOR_SIZE" using assms(1,2) by auto
  have "read_control f d = (Done (Some c), d)"
    using ok assms(3) by (simp add: read_control_def io_bind_def io_catch_def)
  then have "boot f d = boot_slot f c d"
    using assms(5) by (auto simp: boot_def io_bind_def)
  also have "\<dots> = (Done (c, Corrupt (ct_active c)), d)"
    using assms(4) by (auto simp: boot_slot_def Let_def io_bind_def io_catch_def load_image_eq [OF ok] slot_good_def)
  finally show ?thesis .
qed

definition damaged_device :: disk where
  "damaged_device = \<lparr>store = (\<lambda>_. replicate SECTOR_SIZE 0)(1000 := ct_encode (Control_blank\<lparr>
     ct_state := [Successful, Unverified], ct_active := 1, ct_tries := 2\<rparr>)), bad = \<lambda>_. None, power = None\<rparr>"

theorem ota_corrupt_slot_is_kept_witness:
  "fst (boot demo_fs damaged_device) = Done (Control_blank\<lparr>ct_state := [Successful, Unverified],
     ct_active := 1, ct_tries := 2\<rparr>, Corrupt 1)"
proof -
  let ?c = "Control_blank\<lparr>ct_state := [Successful, Unverified], ct_active := 1, ct_tries := 2\<rparr>"
  have wf: "ct_wf ?c" by (simp add: ct_wf_def Control_blank_def)
  have r: "ota_region_ok demo_fs" by (simp add: ota_region_ok_def demo_fs_def)
  have "store damaged_device (slot_sector demo_fs 1 + of_nat s) = replicate SECTOR_SIZE 0" if "s < 8" for s
    using slot_addr [OF r, of 1 s] that by (auto simp: damaged_device_def demo_fs_def)
  then have "slot_image demo_fs (store damaged_device) 1 = slot_image demo_fs (\<lambda>_. replicate SECTOR_SIZE 0) 1"
    by (rule slot_image_frame)
  also have "\<dots> = replicate IMAGE_BYTES 0"
    by (simp add: slot_image_def map_replicate_const concat_replicate_replicate)
      (simp add: IMAGE_BYTES_def SECTOR_SIZE_def)
  finally have "\<not> slot_good demo_fs (store damaged_device) ?c 1"
    by (simp add: slot_good_def IMG_MAGIC_def IMAGE_BYTES_def)
  moreover have "bad damaged_device = (\<lambda>_. None)" "\<forall>s. length (store damaged_device s) = SECTOR_SIZE"
    "ct_decode (store damaged_device (control_sector demo_fs)) = Some ?c"
    using ct_decode_encode [OF wf] by (simp_all add: damaged_device_def control_sector_def demo_fs_def)
  ultimately show ?thesis
    using ota_corrupt_slot_is_kept [of damaged_device demo_fs ?c] by simp
qed

end
