(* ===== verification/Cap.thy ===== *)
theory Cap
  imports Bytes
begin

text \<open>
  Capabilities, \<open>kernel/src/cap.rs\<close>: rights, objects, the ledger of every capability ever minted,
  derivation, and the two walks over the ledger, \<open>chain\<close> and \<open>is_descendant\<close>. The ledger behind its
  lock is a list passed along; capability \<open>id\<close> is entry \<open>id - 1\<close>. \<open>is_descendant\<close> follows parents for
  as long as there are any, so it is a \<open>partial_function\<close>: that it returns is a theorem about the
  ledgers the kernel builds. The interface \<open>delegation\<close> is what the rest of the kernel relies on:
  minting and deriving keep the ledger well formed, and rights only shrink along a chain.
\<close>

definition RIGHT_SEND :: u32 where "RIGHT_SEND = push_bit 0 1"
definition RIGHT_RECV :: u32 where "RIGHT_RECV = push_bit 1 1"
definition RIGHT_GRANT :: u32 where "RIGHT_GRANT = push_bit 2 1"
definition RIGHT_MAP :: u32 where "RIGHT_MAP = push_bit 3 1"
definition RIGHT_IRQ :: u32 where "RIGHT_IRQ = push_bit 4 1"
definition RIGHTS_ALL :: u32 where
  "RIGHTS_ALL = RIGHT_SEND OR RIGHT_RECV OR RIGHT_GRANT OR RIGHT_MAP OR RIGHT_IRQ"

lemmas rights_defs = RIGHT_SEND_def RIGHT_RECV_def RIGHT_GRANT_def RIGHT_MAP_def RIGHT_IRQ_def

datatype Obj =
    Channel nat
  | Mmio (mmio_base: nat) (mmio_size: nat)
  | Irq u32
  | Dma (dma_base: nat) (dma_pages: nat)
  | Operation bytes

record Cap =
  cap_id :: u64
  cap_obj :: Obj
  cap_rights :: u32
  cap_revoked :: bool
  cap_holder :: bytes
  cap_purpose :: bytes

record Provenance =
  pv_parent :: u64
  pv_holder :: bytes
  pv_purpose :: bytes
  pv_rights :: u32

type_synonym ledger = "Provenance list"

definition register :: "u64 \<Rightarrow> bytes \<Rightarrow> bytes \<Rightarrow> u32 \<Rightarrow> ledger \<Rightarrow> u64 \<times> ledger" where
  "register parent holder purpose rights l = (let
     l' = l @ [\<lparr>pv_parent = parent, pv_holder = holder, pv_purpose = purpose, pv_rights = rights\<rparr>]
   in (of_nat (length l'), l'))"

text \<open>\<open>ledger.get(cur as usize - 1)\<close>, for a current id that is not zero.\<close>

definition ledger_get :: "ledger \<Rightarrow> u64 \<Rightarrow> Provenance option" where
  "ledger_get l cur = (let i = unat cur - 1 in if i < length l then Some (l ! i) else None)"

text \<open>The filled part of \<open>out\<close>; \<open>room\<close> is what is left of its length.\<close>

primrec chain :: "ledger \<Rightarrow> nat \<Rightarrow> u64 \<Rightarrow> (u64 \<times> Provenance) list" where
  "chain l 0 cur = []"
| "chain l (Suc room) cur =
     (if cur = 0 then []
      else case ledger_get l cur of
        None \<Rightarrow> []
      | Some p \<Rightarrow> (cur, p) # chain l room (pv_parent p))"

partial_function (option) is_descendant :: "ledger \<Rightarrow> u64 \<Rightarrow> u64 \<Rightarrow> bool option" where
  "is_descendant l cur ancestor =
    (if cur = 0 then Some False
     else if cur = ancestor then Some True
     else case ledger_get l cur of
       Some p \<Rightarrow> is_descendant l (pv_parent p) ancestor
     | None \<Rightarrow> Some False)"

definition Cap_root_for :: "Obj \<Rightarrow> u32 \<Rightarrow> bytes \<Rightarrow> bytes \<Rightarrow> ledger \<Rightarrow> Cap \<times> ledger" where
  "Cap_root_for obj rights holder purpose l = (case register 0 holder purpose rights l of (i, l') \<Rightarrow>
     (\<lparr>cap_id = i, cap_obj = obj, cap_rights = rights, cap_revoked = False,
       cap_holder = holder, cap_purpose = purpose\<rparr>, l'))"

definition Cap_root :: "Obj \<Rightarrow> u32 \<Rightarrow> ledger \<Rightarrow> Cap \<times> ledger" where
  "Cap_root obj rights = Cap_root_for obj rights (ascii ''kernel'') (ascii ''created the object'')"

definition derive_for :: "Cap \<Rightarrow> u32 \<Rightarrow> bytes \<Rightarrow> bytes \<Rightarrow> ledger \<Rightarrow> Cap \<times> ledger" where
  "derive_for self rights holder purpose l = (let rights = cap_rights self AND rights in
     case register (cap_id self) holder purpose rights l of (i, l') \<Rightarrow>
       (\<lparr>cap_id = i, cap_obj = cap_obj self, cap_rights = rights, cap_revoked = cap_revoked self,
         cap_holder = holder, cap_purpose = purpose\<rparr>, l'))"

definition derive :: "Cap \<Rightarrow> u32 \<Rightarrow> ledger \<Rightarrow> Cap \<times> ledger" where
  "derive self rights = derive_for self rights (ascii ''unnamed'') (ascii ''unstated'')"

definition allows :: "Cap \<Rightarrow> u32 \<Rightarrow> bool" where
  "allows self right \<longleftrightarrow> \<not> cap_revoked self \<and> cap_rights self AND right \<noteq> 0"

definition cap_channel :: "Cap \<Rightarrow> nat option" where
  "cap_channel self = (case cap_obj self of Channel c \<Rightarrow> Some c | _ \<Rightarrow> None)"

definition obj_str :: "Cap \<Rightarrow> bytes" where
  "obj_str self = (case cap_obj self of Channel _ \<Rightarrow> ascii ''channel'' | Mmio _ _ \<Rightarrow> ascii ''mmio''
     | Irq _ \<Rightarrow> ascii ''irq'' | Dma _ _ \<Rightarrow> ascii ''dma'' | Operation _ \<Rightarrow> ascii ''operation'')"

definition rights_name :: "u32 \<Rightarrow> bytes" where
  "rights_name rights = (let r = rights AND RIGHTS_ALL in
     if r = RIGHTS_ALL then ascii ''all''
     else if r = RIGHT_SEND OR RIGHT_RECV OR RIGHT_GRANT then ascii ''send+recv+grant''
     else if r = RIGHT_SEND OR RIGHT_RECV then ascii ''send+recv''
     else if r = RIGHT_SEND then ascii ''send''
     else if r = RIGHT_RECV then ascii ''recv''
     else if r = RIGHT_MAP then ascii ''map''
     else if r = RIGHT_IRQ then ascii ''irq''
     else if r = RIGHT_GRANT then ascii ''grant''
     else if r = 0 then ascii ''none''
     else ascii ''mixed'')"

definition minted :: "ledger \<Rightarrow> nat" where
  "minted l = length l"

section \<open>Well-formed ledgers\<close>

text \<open>The subset order on rights masks.\<close>

definition rights_le :: "u32 \<Rightarrow> u32 \<Rightarrow> bool" where
  "rights_le a b \<longleftrightarrow> a AND b = a"

lemma rights_le_refl [simp]: "rights_le a a"
  by (simp add: rights_le_def)

lemma rights_le_trans: "rights_le a b \<Longrightarrow> rights_le b c \<Longrightarrow> rights_le a c"
  unfolding rights_le_def by (metis and.assoc)

lemma rights_le_and [simp]: "rights_le (a AND b) a"
  unfolding rights_le_def by (metis and.assoc and.commute and.idem)

lemma rights_le_allows: "rights_le a b \<Longrightarrow> a AND r \<noteq> 0 \<Longrightarrow> b AND r \<noteq> 0"
  unfolding rights_le_def by (metis and.assoc and_zero_eq)

text \<open>
  A parent is an earlier entry or none, a child's rights are among its parent's, and ids fit the
  64 bits they are stored in.
\<close>

definition ledger_wf :: "ledger \<Rightarrow> bool" where
  "ledger_wf l \<longleftrightarrow> length l < 2 ^ 64 \<and> (\<forall>i<length l. unat (pv_parent (l ! i)) \<le> i \<and>
     (pv_parent (l ! i) \<noteq> 0 \<longrightarrow> rights_le (pv_rights (l ! i)) (pv_rights (l ! (unat (pv_parent (l ! i)) - 1)))))"

text \<open>A capability the ledger knows.\<close>

definition cap_wf :: "ledger \<Rightarrow> Cap \<Rightarrow> bool" where
  "cap_wf l c \<longleftrightarrow> cap_id c \<noteq> 0 \<and> unat (cap_id c) \<le> length l
     \<and> pv_rights (l ! (unat (cap_id c) - 1)) = cap_rights c"

inductive descends :: "ledger \<Rightarrow> u64 \<Rightarrow> u64 \<Rightarrow> bool" for l where
  self: "a \<noteq> 0 \<Longrightarrow> descends l a a"
| up: "c \<noteq> 0 \<Longrightarrow> ledger_get l c = Some p \<Longrightarrow> descends l (pv_parent p) a \<Longrightarrow> descends l c a"

inductive_cases descendsE: "descends l c a"

lemma ledger_get_wf:
  assumes "ledger_wf l" and "ledger_get l c = Some p" and "c \<noteq> 0"
  shows "unat (pv_parent p) < unat c" and "unat c \<le> length l"
    and "pv_parent p \<noteq> 0 \<Longrightarrow> \<exists>q. ledger_get l (pv_parent p) = Some q \<and> rights_le (pv_rights p) (pv_rights q)"
proof -
  have c: "0 < unat c" using assms(3) by (simp add: unat_gt_0)
  with assms show lt: "unat (pv_parent p) < unat c" and "unat c \<le> length l"
    by (auto simp: ledger_get_def ledger_wf_def Let_def split: if_splits)
  show "\<exists>q. ledger_get l (pv_parent p) = Some q \<and> rights_le (pv_rights p) (pv_rights q)" if "pv_parent p \<noteq> 0"
    using that assms c lt by (auto simp: ledger_get_def ledger_wf_def Let_def split: if_splits)
qed

lemma is_descendant_iff:
  assumes "ledger_wf l"
  shows "is_descendant l c a = Some (descends l c a)"
proof (induction "unat c" arbitrary: c rule: less_induct)
  case less
  show ?case
  proof (cases "c = 0 \<or> c = a")
    case True
    then show ?thesis by (subst is_descendant.simps) (auto intro: self elim: descendsE)
  next
    case False
    show ?thesis
    proof (cases "ledger_get l c")
      case None
      with False show ?thesis by (subst is_descendant.simps) (auto elim: descendsE)
    next
      case (Some p)
      have "is_descendant l (pv_parent p) a = Some (descends l (pv_parent p) a)"
        using less ledger_get_wf(1) [OF assms Some] False by blast
      moreover have "descends l c a \<longleftrightarrow> descends l (pv_parent p) a"
        using Some False by (auto intro: up elim: descendsE)
      ultimately show ?thesis using Some False by (subst is_descendant.simps) simp
    qed
  qed
qed

lemma descends_rights:
  assumes wf: "ledger_wf l" and "descends l c a"
  shows "ledger_get l c = Some p \<Longrightarrow> ledger_get l a = Some q \<Longrightarrow> rights_le (pv_rights p) (pv_rights q)"
  using assms(2)
proof (induction arbitrary: p rule: descends.induct)
  case (up c r a)
  then have p: "p = r" by simp
  have "pv_parent r \<noteq> 0" using up.hyps(3) by (auto elim: descendsE)
  then obtain s where "ledger_get l (pv_parent r) = Some s" "rights_le (pv_rights r) (pv_rights s)"
    using ledger_get_wf(3) [OF wf up.hyps(2,1)] by blast
  with up p show ?case by (blast intro: rights_le_trans)
qed simp

section \<open>The contract of delegation\<close>

text \<open>
  Whatever mints capabilities keeps the ledger well formed, never forgets an entry, and gives out a
  capability the ledger knows.
\<close>

locale delegation =
  fixes mint :: "ledger \<Rightarrow> Cap \<times> ledger" and pre :: "ledger \<Rightarrow> bool"
  assumes mint_wf: "ledger_wf l \<Longrightarrow> pre l \<Longrightarrow> length l + 1 < 2 ^ 64 \<Longrightarrow> mint l = (c, l') \<Longrightarrow>
      ledger_wf l' \<and> cap_wf l' c \<and> (\<exists>p. l' = l @ [p])"
begin

lemma mint_id:
  assumes "ledger_wf l" "pre l" "length l + 1 < 2 ^ 64" "mint l = (c, l')"
  shows "ledger_get l' (cap_id c) = Some (l' ! (unat (cap_id c) - 1))"
    and "\<And>d. cap_wf l d \<Longrightarrow> cap_wf l' d"
proof -
  have w: "cap_wf l' c" "\<exists>p. l' = l @ [p]" using mint_wf [OF assms] by auto
  then show "ledger_get l' (cap_id c) = Some (l' ! (unat (cap_id c) - 1))"
    by (auto simp: ledger_get_def cap_wf_def Let_def unat_gt_0 [symmetric] simp del: unat_gt_0)
  show "cap_wf l' d" if "cap_wf l d" for d
    using that w(2) by (auto simp: cap_wf_def nth_append unat_gt_0 [symmetric] simp del: unat_gt_0)
qed

end

lemma register_wf:
  assumes "ledger_wf l" and "length l + 1 < 2 ^ 64" and "unat parent \<le> length l"
    and "parent \<noteq> 0 \<Longrightarrow> rights_le rights (pv_rights (l ! (unat parent - 1)))"
    and "register parent holder purpose rights l = (i, l')"
  shows "ledger_wf l'" and "unat i = length l + 1"
    and "l' = l @ [\<lparr>pv_parent = parent, pv_holder = holder, pv_purpose = purpose, pv_rights = rights\<rparr>]"
proof -
  show l': "l' = l @ [\<lparr>pv_parent = parent, pv_holder = holder, pv_purpose = purpose, pv_rights = rights\<rparr>]"
    and i: "unat i = length l + 1"
    using assms(2,5) by (auto simp: register_def unat_of_nat simp del: of_nat_Suc)
  have prev: "unat (pv_parent (l ! k)) - 1 < length l" if "k < length l" "pv_parent (l ! k) \<noteq> 0" for k
  proof -
    have "unat (pv_parent (l ! k)) \<le> k" using assms(1) that by (auto simp: ledger_wf_def)
    then show ?thesis using that by simp
  qed
  have "unat parent - 1 < length l" if "parent \<noteq> 0"
    using assms(3) that by (cases "length l") (auto simp: unat_eq_0)
  with assms(1-4) prev show "ledger_wf l'"
    unfolding l' ledger_wf_def by (auto simp: nth_append less_Suc_eq)
qed

interpretation root: delegation "Cap_root_for obj rights holder purpose" "\<lambda>l. True"
proof
  fix l c l'
  assume "ledger_wf l" "length l + 1 < 2 ^ 64" and m: "Cap_root_for obj rights holder purpose l = (c, l')"
  obtain i where r: "register 0 holder purpose rights l = (i, l')"
    and c: "cap_id c = i" "cap_rights c = rights"
    using m by (auto simp: Cap_root_for_def split: prod.splits)
  note R = register_wf [OF \<open>ledger_wf l\<close> \<open>length l + 1 < 2 ^ 64\<close> _ _ r]
  show "ledger_wf l' \<and> cap_wf l' c \<and> (\<exists>p. l' = l @ [p])"
    using R c by (auto simp: cap_wf_def)
qed

interpretation drv: delegation "derive_for self rights holder purpose" "\<lambda>l. cap_wf l self"
proof
  fix l c l'
  assume wf: "ledger_wf l" "cap_wf l self" "length l + 1 < 2 ^ 64"
    and m: "derive_for self rights holder purpose l = (c, l')"
  obtain i where r: "register (cap_id self) holder purpose (cap_rights self AND rights) l = (i, l')"
    and c: "cap_id c = i" "cap_rights c = cap_rights self AND rights"
    using m by (auto simp: derive_for_def Let_def split: prod.splits)
  note R = register_wf [OF wf(1,3) _ _ r]
  show "ledger_wf l' \<and> cap_wf l' c \<and> (\<exists>p. l' = l @ [p])"
    using R c wf(2) by (auto simp: cap_wf_def)
qed

section \<open>Properties\<close>

text \<open>The ledgers the kernel builds: every entry was minted for an object or derived.\<close>

inductive kernel_ledger :: "ledger \<Rightarrow> bool" where
  empty: "kernel_ledger []"
| mint: "kernel_ledger l \<Longrightarrow> length l + 1 < 2 ^ 64 \<Longrightarrow> Cap_root_for obj r h p l = (c, l') \<Longrightarrow> kernel_ledger l'"
| delegate: "kernel_ledger l \<Longrightarrow> length l + 1 < 2 ^ 64 \<Longrightarrow> cap_wf l self \<Longrightarrow>
    derive_for self r h p l = (c, l') \<Longrightarrow> kernel_ledger l'"

lemma kernel_ledger_wf: "kernel_ledger l \<Longrightarrow> ledger_wf l"
proof (induction rule: kernel_ledger.induct)
  case empty
  then show ?case by (simp add: ledger_wf_def)
qed (auto dest: root.mint_wf drv.mint_wf)


definition demo_ledger :: ledger where
  "demo_ledger = snd (derive_for (fst (Cap_root (Channel 0) RIGHTS_ALL [])) RIGHT_SEND [] []
     (snd (Cap_root (Channel 0) RIGHTS_ALL [])))"

definition demo_root :: Cap where "demo_root = fst (Cap_root (Channel 0) RIGHTS_ALL [])"
definition demo_child :: Cap where
  "demo_child = fst (derive_for demo_root RIGHT_SEND [] [] (snd (Cap_root (Channel 0) RIGHTS_ALL [])))"

lemma demo_ledger: "kernel_ledger demo_ledger" "cap_wf demo_ledger demo_root" "cap_wf demo_ledger demo_child"
proof -
  let ?l1 = "snd (Cap_root (Channel 0) RIGHTS_ALL [])"
  have l1: "kernel_ledger ?l1"
    by (rule mint [OF empty, of "Channel 0" RIGHTS_ALL]) (auto simp: Cap_root_def Cap_root_for_def register_def)
  have c1: "cap_wf ?l1 demo_root"
    by (simp add: demo_root_def cap_wf_def Cap_root_def Cap_root_for_def register_def)
  show "kernel_ledger demo_ledger"
    by (rule delegate [OF l1 _ c1, of RIGHT_SEND "[]" "[]" demo_child])
      (auto simp: demo_child_def demo_ledger_def demo_root_def Cap_root_def Cap_root_for_def register_def)
  show "cap_wf demo_ledger demo_root" "cap_wf demo_ledger demo_child"
    by (simp_all add: demo_root_def demo_child_def demo_ledger_def cap_wf_def Cap_root_def Cap_root_for_def
        register_def derive_for_def Let_def)
qed

lemma demo_descends: "descends demo_ledger (cap_id demo_child) (cap_id demo_root)"
proof -
  have "ledger_get demo_ledger 2 = Some \<lparr>pv_parent = 1, pv_holder = [], pv_purpose = [], pv_rights = RIGHTS_ALL AND RIGHT_SEND\<rparr>"
    by (simp add: demo_ledger_def Cap_root_def Cap_root_for_def register_def derive_for_def ledger_get_def Let_def)
  then have "descends demo_ledger 2 1" by (rule up [rotated]) (auto intro: self)
  moreover have "cap_id demo_child = 2" "cap_id demo_root = 1"
    by (simp_all add: demo_root_def demo_child_def Cap_root_def Cap_root_for_def register_def derive_for_def Let_def)
  ultimately show ?thesis by simp
qed


lemma chain_links:
  assumes "ledger_wf l" and "c \<noteq> 0" and "unat c \<le> length l" and "unat c \<le> room"
  shows "chain l room c \<noteq> [] \<and> fst (hd (chain l room c)) = c
    \<and> pv_parent (snd (last (chain l room c))) = 0
    \<and> (\<forall>i. Suc i < length (chain l room c) \<longrightarrow>
         fst (chain l room c ! Suc i) = pv_parent (snd (chain l room c ! i)))
    \<and> (\<forall>x\<in>set (chain l room c). ledger_get l (fst x) = Some (snd x) \<and> descends l c (fst x))"
  using assms(2-4)
proof (induction room arbitrary: c)
  case 0
  then show ?case by (simp add: unat_eq_0)
next
  case (Suc room)
  have "unat c - 1 < length l" using Suc.prems by (cases "length l") (auto simp: unat_eq_0)
  then obtain p where p: "ledger_get l c = Some p" by (simp add: ledger_get_def)
  have lt: "unat (pv_parent p) < unat c" using ledger_get_wf(1) [OF assms(1) p Suc.prems(1)] .
  have eq: "chain l (Suc room) c = (c, p) # chain l room (pv_parent p)" using p Suc.prems(1) by simp
  show ?case
  proof (cases "pv_parent p = 0")
    case True
    then have "chain l room (pv_parent p) = []" by (cases room) auto
    with eq True p Suc.prems(1) show ?thesis by (auto intro: self)
  next
    case False
    note IH = Suc.IH [OF False]
    have "\<forall>x\<in>set (chain l room (pv_parent p)). descends l c (fst x)"
      using IH lt Suc.prems p by (auto intro: up)
    with eq IH lt Suc.prems p show ?thesis
      by (auto simp: nth_Cons hd_conv_nth split: nat.split intro: self)
  qed
qed

text \<open>
  The account of a delegation is complete. Given room for the ledger, \<open>chain\<close> lists, nearest first,
  every link from a capability up to the one that has no parent, each the parent of the one before,
  and every link grants at least the rights of the capability.
\<close>

theorem chain_complete:
  assumes "kernel_ledger l" and "cap_wf l c" and "length l \<le> room"
    and "links = chain l room (cap_id c)"
  shows "links \<noteq> [] \<and> fst (hd links) = cap_id c \<and> pv_parent (snd (last links)) = 0
    \<and> (\<forall>i. Suc i < length links \<longrightarrow> fst (links ! Suc i) = pv_parent (snd (links ! i)))
    \<and> (\<forall>x\<in>set links. rights_le (cap_rights c) (pv_rights (snd x)))"
proof -
  have wf: "ledger_wf l" using assms(1) by (rule kernel_ledger_wf)
  have c: "cap_id c \<noteq> 0" "unat (cap_id c) \<le> length l" using assms(2) by (auto simp: cap_wf_def)
  have g: "ledger_get l (cap_id c) = Some (l ! (unat (cap_id c) - 1))"
    using assms(2) by (auto simp: cap_wf_def ledger_get_def Let_def unat_gt_0 [symmetric] simp del: unat_gt_0)
  have "rights_le (cap_rights c) (pv_rights (snd x))" if "x \<in> set links" for x
    using that chain_links [OF wf c, of room] assms(2-4) descends_rights [OF wf _ g, of "fst x" "snd x"]
    by (auto simp: cap_wf_def)
  then show ?thesis using chain_links [OF wf c, of room] c(2) assms(3,4) by auto
qed

theorem chain_complete_witness:
  "map fst (chain demo_ledger 2 (cap_id demo_child)) = [2, 1]
   \<and> pv_parent (snd (last (chain demo_ledger 2 (cap_id demo_child)))) = 0"
proof -
  have l: "length demo_ledger \<le> 2"
    by (simp add: demo_ledger_def Cap_root_def Cap_root_for_def register_def derive_for_def Let_def)
  have "map fst (chain demo_ledger 2 (cap_id demo_child)) = [2, 1]" by code_simp
  then show ?thesis
    using chain_complete [OF demo_ledger(1,3) l refl] by simp
qed

end
