(* ===== verification/Frames.thy ===== *)
theory Frames
  imports Prelude
begin

text \<open>
  Physical memory: the constants of \<open>kernel/src/mm/mod.rs\<close> and the frame allocator of
  \<open>kernel/src/mm/frames.rs\<close>. The atomics of the source are the fields of a record; \<open>link\<close> is the first
  word of every frame, where the free list keeps its links, so an owner who writes to a frame it was
  given changes it. Physical addresses are \<open>nat\<close>: they stay below \<open>2 ^ 48\<close>, so \<open>usize\<close> arithmetic on
  them does not wrap, and rounding to a page is division.

  Shown: the loop over reserved ranges ends; frames handed out are distinct, aligned, usable and
  never reserved, however owners scribble on them; what is free and what is out always add up to the
  total. The interface \<open>frame_source\<close> is what the page tables, the heap and the model store rely on.
  The interleaving of two cores inside \<open>alloc\<close>, which takes no lock, is at the end.
\<close>

definition PAGE_SIZE :: nat where "PAGE_SIZE = 4096"
definition PAGE_SHIFT :: nat where "PAGE_SHIFT = 12"
definition MAX_RESERVED :: nat where "MAX_RESERVED = 8"

definition page_align_up :: "nat \<Rightarrow> nat" where
  "page_align_up addr = (addr + PAGE_SIZE - 1) div PAGE_SIZE * PAGE_SIZE"

definition page_align_down :: "nat \<Rightarrow> nat" where
  "page_align_down addr = addr div PAGE_SIZE * PAGE_SIZE"

record frames =
  BUMP :: nat
  END :: nat
  TOTAL :: nat
  FREE_LIST :: nat
  FREE_LIST_LEN :: nat
  RESERVED :: "(nat \<times> nat) list"
  link :: "nat \<Rightarrow> nat"

definition blocked_until :: "(nat \<times> nat) list \<Rightarrow> nat \<Rightarrow> nat option" where
  "blocked_until res frame = (let e' = frame + PAGE_SIZE in
     map_option snd (List.find (\<lambda>(s, e). frame < e \<and> s < e') res))"

lemma blocked_until_gt: "blocked_until res p = Some e \<Longrightarrow> p < e"
  by (auto simp: blocked_until_def find_Some_iff case_prod_beta) (metis snd_conv)

lemma page_align_up_ge: "a \<le> page_align_up a"
proof -
  have "a + PAGE_SIZE - 1 = page_align_up a + (a + PAGE_SIZE - 1) mod PAGE_SIZE"
    by (simp add: page_align_up_def)
  moreover have "(a + PAGE_SIZE - 1) mod PAGE_SIZE < PAGE_SIZE" by (simp add: PAGE_SIZE_def)
  ultimately show ?thesis by simp
qed

text \<open>The loop that \<open>init\<close> and \<open>free_count\<close> share: usable frames from \<open>p\<close> up to \<open>end\<close>.\<close>

function usable :: "(nat \<times> nat) list \<Rightarrow> nat \<Rightarrow> nat \<Rightarrow> nat list" where
  "usable res e p =
    (if p + PAGE_SIZE \<le> e then
       (case blocked_until res p of
          Some skip_to \<Rightarrow> usable res e (page_align_up skip_to)
        | None \<Rightarrow> p # usable res e (p + PAGE_SIZE))
     else [])"
  by pat_completeness auto
termination
proof (relation "measure (\<lambda>(res, e, p). e - p)", goal_cases)
  case (3 res e p q)
  then have "p < page_align_up q" using blocked_until_gt page_align_up_ge [of q] by fastforce
  with 3 show ?case by (auto simp: PAGE_SIZE_def)
qed (auto simp: PAGE_SIZE_def)

declare usable.simps [simp del]

definition reserve_ranges :: "(nat \<times> nat) list \<Rightarrow> (nat \<times> nat) list" where
  "reserve_ranges ranges = map (\<lambda>(s, e). (page_align_down s, page_align_up e))
     (filter (\<lambda>(s, e). \<not> e \<le> s) (take MAX_RESERVED ranges))"

fun best_region :: "(nat \<times> nat) list \<Rightarrow> (nat \<times> nat) option \<Rightarrow> (nat \<times> nat) option" where
  "best_region [] best = best"
| "best_region ((base, sz) # rs) best =
     best_region rs (case best of None \<Rightarrow> Some (base, sz)
       | Some (_, bs) \<Rightarrow> if sz > bs then Some (base, sz) else best)"

text \<open>The regions the device tree reports are an argument.\<close>

definition frames_init :: "(nat \<times> nat) list \<Rightarrow> (nat \<times> nat) list \<Rightarrow> frames \<Rightarrow> frames" where
  "frames_init memory_regions reserved_ranges fr = (let fr = fr\<lparr>RESERVED := reserve_ranges reserved_ranges\<rparr> in
     case best_region memory_regions None of
       None \<Rightarrow> fr
     | Some (base, sz) \<Rightarrow>
         let start = page_align_up base; e = page_align_down (base + sz) in
         if start \<ge> e then fr
         else fr\<lparr>BUMP := start, END := e, TOTAL := length (usable (RESERVED fr) e start)\<rparr>)"

text \<open>The bump loop: where \<open>BUMP\<close> ends up, and the frame it stopped at.\<close>

function bump_loop :: "(nat \<times> nat) list \<Rightarrow> nat \<Rightarrow> nat \<Rightarrow> nat \<times> nat option" where
  "bump_loop res e cur =
    (if cur = 0 \<or> cur + PAGE_SIZE > e then (cur, None)
     else case blocked_until res cur of
       Some skip_to \<Rightarrow> bump_loop res e (page_align_up skip_to)
     | None \<Rightarrow> (cur + PAGE_SIZE, Some cur))"
  by pat_completeness auto
termination
proof (relation "measure (\<lambda>(res, e, p). e - p)", goal_cases)
  case (2 res e p q)
  then have "p < page_align_up q" using blocked_until_gt page_align_up_ge [of q] by fastforce
  with 2 show ?case by (auto simp: PAGE_SIZE_def)
qed auto

declare bump_loop.simps [simp del]

definition frames_alloc :: "frames \<Rightarrow> nat option \<times> frames" where
  "frames_alloc fr = (let head = FREE_LIST fr in
     if head \<noteq> 0 then
       (Some head, fr\<lparr>FREE_LIST := link fr head, FREE_LIST_LEN := FREE_LIST_LEN fr - 1\<rparr>)
     else case bump_loop (RESERVED fr) (END fr) (BUMP fr) of (b, r) \<Rightarrow> (r, fr\<lparr>BUMP := b\<rparr>))"

text \<open>The first reserved range a run of \<open>count\<close> frames would straddle.\<close>

primrec run_blocked :: "(nat \<times> nat) list \<Rightarrow> nat \<Rightarrow> nat \<Rightarrow> nat option" where
  "run_blocked res cur 0 = None"
| "run_blocked res cur (Suc n) =
     (case blocked_until res cur of Some e \<Rightarrow> Some e | None \<Rightarrow> run_blocked res (cur + PAGE_SIZE) n)"

lemma run_blocked_gt: "run_blocked res p n = Some e \<Longrightarrow> p < e"
  by (induction n arbitrary: p) (force dest: blocked_until_gt split: option.splits)+

function bump_run :: "(nat \<times> nat) list \<Rightarrow> nat \<Rightarrow> nat \<Rightarrow> nat \<Rightarrow> nat \<times> nat option" where
  "bump_run res e count cur =
    (if count = 0 \<or> cur = 0 \<or> cur + count * PAGE_SIZE > e then (cur, None)
     else case run_blocked res cur count of
       Some skip_to \<Rightarrow> bump_run res e count (page_align_up skip_to)
     | None \<Rightarrow> (cur + count * PAGE_SIZE, Some cur))"
  by pat_completeness auto
termination
proof (relation "measure (\<lambda>(res, e, c, p). e - p)", goal_cases)
  case (2 res e c p q)
  then have "p < page_align_up q" using run_blocked_gt page_align_up_ge [of q] by fastforce
  moreover have "0 < c * PAGE_SIZE" "p + c * PAGE_SIZE \<le> e" using 2 by (simp_all add: PAGE_SIZE_def)
  then have "p < e" by linarith
  ultimately show ?case using diff_less_mono2 [of p "page_align_up q" e] by simp
qed auto

declare bump_run.simps [simp del]

definition alloc_contiguous :: "nat \<Rightarrow> frames \<Rightarrow> nat option \<times> frames" where
  "alloc_contiguous count fr = (if count = 0 then (None, fr)
     else case bump_run (RESERVED fr) (END fr) count (BUMP fr) of (b, r) \<Rightarrow> (r, fr\<lparr>BUMP := b\<rparr>))"

definition frames_free :: "nat \<Rightarrow> frames \<Rightarrow> frames" where
  "frames_free frame fr = (let head = FREE_LIST fr in
     fr\<lparr>link := (link fr)(frame := head), FREE_LIST := frame, FREE_LIST_LEN := FREE_LIST_LEN fr + 1\<rparr>)"

definition total_count :: "frames \<Rightarrow> nat" where
  "total_count fr = TOTAL fr"

definition free_count :: "frames \<Rightarrow> nat" where
  "free_count fr = (if BUMP fr = 0 then 0 else length (usable (RESERVED fr) (END fr) (BUMP fr))) + FREE_LIST_LEN fr"

section \<open>Usable frames\<close>

lemma usable_step:
  "usable res e p = (if p + PAGE_SIZE \<le> e then
     (case blocked_until res p of Some q \<Rightarrow> usable res e (page_align_up q)
        | None \<Rightarrow> p # usable res e (p + PAGE_SIZE)) else [])"
  by (rule usable.simps)

lemma usable_bounds:
  "f \<in> set (usable res e p) \<Longrightarrow> p \<le> f \<and> f + PAGE_SIZE \<le> e \<and> blocked_until res f = None
     \<and> (p mod PAGE_SIZE = 0 \<longrightarrow> f mod PAGE_SIZE = 0)"
proof (induction res e p arbitrary: f rule: usable.induct)
  case (1 res e p)
  have al: "page_align_up q mod PAGE_SIZE = 0" for q by (simp add: page_align_up_def)
  have c: "p + PAGE_SIZE \<le> e" using 1(3) by (subst (asm) usable_step) (auto split: if_splits)
  show ?case
  proof (cases "blocked_until res p")
    case None
    then have "f = p \<or> f \<in> set (usable res e (p + PAGE_SIZE))"
      using 1(3) c by (subst (asm) usable_step) simp
    then show ?thesis using 1(1) [OF c None, of f] None c by auto
  next
    case (Some q)
    then have "f \<in> set (usable res e (page_align_up q))"
      using 1(3) c by (subst (asm) usable_step) simp
    with 1(2) [OF c Some, of f] have "page_align_up q \<le> f \<and> f + PAGE_SIZE \<le> e \<and> blocked_until res f = None \<and> f mod PAGE_SIZE = 0"
      using al by simp
    moreover have "p < page_align_up q" using blocked_until_gt [OF Some] page_align_up_ge [of q] by simp
    ultimately show ?thesis by simp
  qed
qed

lemma usable_distinct: "distinct (usable res e p)"
proof (induction res e p rule: usable.induct)
  case (1 res e p)
  show ?case
  proof (cases "blocked_until res p")
    case None
    have "p \<notin> set (usable res e (p + PAGE_SIZE))"
      using usable_bounds [of p res e "p + PAGE_SIZE"] by (auto simp: PAGE_SIZE_def)
    with 1 None show ?thesis by (subst usable_step) auto
  next
    case (Some q)
    with 1 show ?thesis by (subst usable_step) auto
  qed
qed

text \<open>The bump loop takes the first usable frame and leaves the rest.\<close>

lemma bump_loop_usable:
  assumes "cur \<noteq> 0"
  shows "(case bump_loop res e cur of (b, r) \<Rightarrow> b \<noteq> 0 \<and> cur \<le> b \<and> (b mod PAGE_SIZE = cur mod PAGE_SIZE \<or> b mod PAGE_SIZE = 0) \<and>
    (case r of None \<Rightarrow> usable res e cur = [] \<and> usable res e b = []
     | Some f \<Rightarrow> usable res e cur = f # usable res e b))"
  using assms
proof (induction res e cur rule: bump_loop.induct)
  case (1 res e cur)
  show ?case
  proof (cases "cur + PAGE_SIZE > e")
    case True
    with 1(2) show ?thesis by (subst bump_loop.simps) (simp add: usable_step [of res e cur])
  next
    case False
    show ?thesis
    proof (cases "blocked_until res cur")
      case None
      with 1(2) False show ?thesis
        by (subst bump_loop.simps) (simp add: usable_step [of res e cur] PAGE_SIZE_def)
    next
      case (Some q)
      have lt: "cur < page_align_up q" using blocked_until_gt [OF Some] page_align_up_ge [of q] by simp
      have al: "page_align_up q mod PAGE_SIZE = 0" by (simp add: page_align_up_def)
      have "bump_loop res e cur = bump_loop res e (page_align_up q)"
        using 1(2) False Some by (subst bump_loop.simps) simp
      moreover have "usable res e cur = usable res e (page_align_up q)"
        using False Some by (subst usable_step) simp
      ultimately show ?thesis
        using 1(1) [of q] 1(2) False Some lt al by (auto split: prod.splits option.splits)
    qed
  qed
qed

lemma run_usable:
  "run_blocked res cur n = None \<Longrightarrow> cur + n * PAGE_SIZE \<le> e \<Longrightarrow>
   usable res e cur = map (\<lambda>i. cur + i * PAGE_SIZE) [0..<n] @ usable res e (cur + n * PAGE_SIZE)"
proof (induction n arbitrary: cur)
  case (Suc n)
  then have b: "blocked_until res cur = None" "run_blocked res (cur + PAGE_SIZE) n = None"
    by (auto split: option.splits)
  have "usable res e cur = cur # usable res e (cur + PAGE_SIZE)"
    using b(1) Suc.prems(2) by (subst usable_step) simp
  also have "usable res e (cur + PAGE_SIZE) =
      map (\<lambda>i. cur + PAGE_SIZE + i * PAGE_SIZE) [0..<n] @ usable res e (cur + PAGE_SIZE + n * PAGE_SIZE)"
    using Suc.IH [OF b(2)] Suc.prems(2) by (simp add: ac_simps)
  also have "cur # \<dots> = map (\<lambda>i. cur + i * PAGE_SIZE) [0..<Suc n] @ usable res e (cur + Suc n * PAGE_SIZE)"
    by (simp only: upt_conv_Cons [of 0 "Suc n"] map_Suc_upt [symmetric] zero_less_Suc list.map map_map comp_def)
      (simp add: ac_simps)
  finally show ?case .
qed simp

lemma bump_run_usable:
  assumes "cur \<noteq> 0" and "count \<noteq> 0"
  shows "(case bump_run res e count cur of (b, r) \<Rightarrow> b \<noteq> 0 \<and> (b mod PAGE_SIZE = cur mod PAGE_SIZE \<or> b mod PAGE_SIZE = 0) \<and>
    (\<exists>skipped. (case r of None \<Rightarrow> usable res e cur = skipped @ usable res e b
     | Some f \<Rightarrow> usable res e cur = skipped @ map (\<lambda>i. f + i * PAGE_SIZE) [0..<count] @ usable res e b \<and> f \<noteq> 0)))"
  using assms
proof (induction res e count cur rule: bump_run.induct)
  case (1 res e count cur)
  have suffix: "\<exists>skipped. usable res e p = skipped @ usable res e (page_align_up q)"
    if "run_blocked res p n = Some q" "p + n * PAGE_SIZE \<le> e" for p n q
    using that
  proof (induction n arbitrary: p)
    case (Suc n)
    show ?case
    proof (cases "blocked_until res p")
      case None
      then obtain sk where "usable res e (p + PAGE_SIZE) = sk @ usable res e (page_align_up q)"
        using Suc.IH [of "p + PAGE_SIZE"] Suc.prems by (auto simp: ac_simps)
      then have "usable res e p = (p # sk) @ usable res e (page_align_up q)"
        using None Suc.prems(2) by (subst usable_step) simp
      then show ?thesis by blast
    next
      case (Some q')
      then have "usable res e p = usable res e (page_align_up q)"
        using Suc.prems by (subst usable_step) simp
      then show ?thesis by simp
    qed
  qed simp
  show ?case
  proof (cases "cur + count * PAGE_SIZE > e")
    case True
    with 1(2,3) show ?thesis by (subst bump_run.simps) simp
  next
    case False
    show ?thesis
    proof (cases "run_blocked res cur count")
      case None
      with 1(2,3) False run_usable [OF None, of e] show ?thesis
        by (subst bump_run.simps) simp
    next
      case (Some q)
      have lt: "cur < page_align_up q" using run_blocked_gt [OF Some] page_align_up_ge [of q] by simp
      have al: "page_align_up q mod PAGE_SIZE = 0" by (simp add: page_align_up_def)
      have eq: "bump_run res e count cur = bump_run res e count (page_align_up q)"
        using 1(2,3) False Some by (subst bump_run.simps) simp
      obtain sk where sk: "usable res e cur = sk @ usable res e (page_align_up q)"
        using suffix [OF Some] False by auto
      obtain b r where br: "bump_run res e count (page_align_up q) = (b, r)"
        by (cases "bump_run res e count (page_align_up q)") auto
      have IH: "case bump_run res e count (page_align_up q) of (b, r) \<Rightarrow> b \<noteq> 0 \<and>
          (b mod PAGE_SIZE = page_align_up q mod PAGE_SIZE \<or> b mod PAGE_SIZE = 0) \<and>
          (\<exists>skipped. (case r of None \<Rightarrow> usable res e (page_align_up q) = skipped @ usable res e b
           | Some f \<Rightarrow> usable res e (page_align_up q) = skipped @ map (\<lambda>i. f + i * PAGE_SIZE) [0..<count] @ usable res e b \<and> f \<noteq> 0))"
        using 1(1) [of q] 1(2,3) False Some lt by simp
      then have "b \<noteq> 0" "b mod PAGE_SIZE = 0" using br al by auto
      moreover have "\<exists>skipped. (case r of None \<Rightarrow> usable res e cur = skipped @ usable res e b
           | Some f \<Rightarrow> usable res e cur = skipped @ map (\<lambda>i. f + i * PAGE_SIZE) [0..<count] @ usable res e b \<and> f \<noteq> 0)"
      proof -
        obtain sk2 where "case r of None \<Rightarrow> usable res e (page_align_up q) = sk2 @ usable res e b
           | Some f \<Rightarrow> usable res e (page_align_up q) = sk2 @ map (\<lambda>i. f + i * PAGE_SIZE) [0..<count] @ usable res e b \<and> f \<noteq> 0"
          using IH unfolding br by auto
        then show ?thesis using sk by (intro exI [of _ "sk @ sk2"]) (cases r; simp)
      qed
      ultimately show ?thesis unfolding eq br by simp
    qed
  qed
qed

section \<open>The invariant\<close>

fun flist :: "(nat \<Rightarrow> nat) \<Rightarrow> nat \<Rightarrow> nat list \<Rightarrow> bool" where
  "flist l h [] = (h = 0)"
| "flist l h (x # xs) = (h = x \<and> x \<noteq> 0 \<and> flist l (l x) xs)"

lemma flist_scribble: "f \<notin> set xs \<Longrightarrow> flist (l(f := v)) h xs = flist l h xs"
  by (induction xs arbitrary: h) auto

text \<open>
  \<open>frames_ok fr owned lost\<close>: every usable frame is out (\<open>owned\<close>), on the free list, not reached yet by
  the bump pointer, or was skipped by a contiguous allocation (\<open>lost\<close>), and in one of these only.
\<close>

definition partitioned :: "nat list \<Rightarrow> nat list \<Rightarrow> nat set \<Rightarrow> nat set \<Rightarrow> nat list \<Rightarrow> bool" where
  "partitioned fl rest owned lost all \<longleftrightarrow> distinct (fl @ rest) \<and> distinct all
     \<and> owned \<inter> set (fl @ rest) = {} \<and> lost \<inter> set (fl @ rest) = {} \<and> owned \<inter> lost = {}
     \<and> owned \<union> lost \<union> set (fl @ rest) = set all"

definition frames_ok :: "frames \<Rightarrow> nat set \<Rightarrow> nat set \<Rightarrow> bool" where
  "frames_ok fr owned lost \<longleftrightarrow> BUMP fr \<noteq> 0 \<and> BUMP fr mod PAGE_SIZE = 0 \<and>
     (\<exists>fl start. start \<noteq> 0 \<and> start mod PAGE_SIZE = 0 \<and> flist (link fr) (FREE_LIST fr) fl
        \<and> FREE_LIST_LEN fr = length fl
        \<and> TOTAL fr = length (usable (RESERVED fr) (END fr) start)
        \<and> partitioned fl (usable (RESERVED fr) (END fr) (BUMP fr)) owned lost
            (usable (RESERVED fr) (END fr) start))"

lemma frames_okE:
  assumes "frames_ok fr owned lost"
  obtains fl start where "BUMP fr \<noteq> 0" "BUMP fr mod PAGE_SIZE = 0" "start \<noteq> 0" "start mod PAGE_SIZE = 0"
    "flist (link fr) (FREE_LIST fr) fl" "FREE_LIST_LEN fr = length fl"
    "TOTAL fr = length (usable (RESERVED fr) (END fr) start)"
    "partitioned fl (usable (RESERVED fr) (END fr) (BUMP fr)) owned lost (usable (RESERVED fr) (END fr) start)"
  using assms by (auto simp: frames_ok_def)

lemma frames_ok_owned:
  assumes "frames_ok fr owned lost" and "f \<in> owned"
  shows "f \<noteq> 0" and "f mod PAGE_SIZE = 0" and "f + PAGE_SIZE \<le> END fr" and "blocked_until (RESERVED fr) f = None"
proof -
  from assms(1) obtain fl start where start: "start \<noteq> 0" "start mod PAGE_SIZE = 0"
    and p: "partitioned fl (usable (RESERVED fr) (END fr) (BUMP fr)) owned lost (usable (RESERVED fr) (END fr) start)"
    by (rule frames_okE)
  have "f \<in> set (usable (RESERVED fr) (END fr) start)" using p assms(2) by (auto simp: partitioned_def)
  from usable_bounds [OF this] start show "f \<noteq> 0" and "f mod PAGE_SIZE = 0" and "f + PAGE_SIZE \<le> END fr"
    and "blocked_until (RESERVED fr) f = None" by auto
qed

lemma partitioned_card:
  assumes "partitioned fl rest owned lost all"
  shows "length fl + length rest + card owned + card lost = length all" and "finite owned"
proof -
  have fin: "finite owned" "finite lost"
    using assms by (auto simp: partitioned_def intro: finite_subset [of _ "set all"])
  then show "finite owned" by simp
  have "set all = owned \<union> (lost \<union> set (fl @ rest))" and d: "owned \<inter> (lost \<union> set (fl @ rest)) = {}"
    "lost \<inter> set (fl @ rest) = {}" "distinct (fl @ rest)" "distinct all"
    using assms by (auto simp: partitioned_def)
  then have "card (set all) = card owned + (card lost + card (set (fl @ rest)))"
    using fin by (simp add: card_Un_disjoint del: set_append)
  then show "length fl + length rest + card owned + card lost = length all"
    using d(3,4) by (simp add: distinct_card del: set_append)
qed

lemma frames_ok_count:
  assumes "frames_ok fr owned lost"
  shows "free_count fr + card owned + card lost = total_count fr" and "finite owned"
proof -
  from assms obtain fl start where "BUMP fr \<noteq> 0" "FREE_LIST_LEN fr = length fl"
    "TOTAL fr = length (usable (RESERVED fr) (END fr) start)"
    "partitioned fl (usable (RESERVED fr) (END fr) (BUMP fr)) owned lost (usable (RESERVED fr) (END fr) start)"
    by (rule frames_okE)
  with partitioned_card [OF this(4)] show "free_count fr + card owned + card lost = total_count fr" "finite owned"
    by (simp_all add: free_count_def total_count_def)
qed

lemma frames_alloc_ok:
  assumes ok: "frames_ok fr owned lost" and a: "frames_alloc fr = (r, fr')"
  shows "case r of None \<Rightarrow> frames_ok fr' owned lost \<and> free_count fr = 0
    | Some f \<Rightarrow> f \<notin> owned \<and> frames_ok fr' (insert f owned) lost"
  using ok
proof (elim frames_okE)
  fix fl start
  let ?V = "usable (RESERVED fr) (END fr) (BUMP fr)" and ?U = "usable (RESERVED fr) (END fr) start"
  assume s: "BUMP fr \<noteq> 0" "BUMP fr mod PAGE_SIZE = 0" "start \<noteq> 0" "start mod PAGE_SIZE = 0"
    "flist (link fr) (FREE_LIST fr) fl" "FREE_LIST_LEN fr = length fl" "TOTAL fr = length ?U"
    and p: "partitioned fl ?V owned lost ?U"
  show ?thesis
  proof (cases fl)
    case (Cons x xs)
    then have "r = Some x" and fr': "fr' = fr\<lparr>FREE_LIST := link fr x, FREE_LIST_LEN := length xs\<rparr>"
      using a s by (auto simp: frames_alloc_def Let_def)
    moreover have "partitioned xs ?V (insert x owned) lost ?U" "x \<notin> owned"
      using p Cons by (auto simp: partitioned_def)
    ultimately show ?thesis
      using s Cons by (auto simp: frames_ok_def intro!: exI [of _ xs] exI [of _ start])
  next
    case Nil
    obtain b q where br: "bump_loop (RESERVED fr) (END fr) (BUMP fr) = (b, q)"
      by (cases "bump_loop (RESERVED fr) (END fr) (BUMP fr)") auto
    have B: "b \<noteq> 0" "b mod PAGE_SIZE = 0"
      "case q of None \<Rightarrow> ?V = [] \<and> usable (RESERVED fr) (END fr) b = [] | Some f \<Rightarrow> ?V = f # usable (RESERVED fr) (END fr) b"
      using bump_loop_usable [OF s(1), of "RESERVED fr" "END fr"] s(2) unfolding br by auto
    have r: "r = q" "fr' = fr\<lparr>BUMP := b\<rparr>" using a s(5) Nil br by (auto simp: frames_alloc_def)
    show ?thesis
    proof (cases q)
      case None
      with r B s p Nil show ?thesis
        by (auto simp: frames_ok_def free_count_def intro!: exI [of _ "[]"] exI [of _ start])
    next
      case (Some f)
      then have "partitioned [] (usable (RESERVED fr) (END fr) b) (insert f owned) lost ?U" "f \<notin> owned"
        using p B(3) Nil by (auto simp: partitioned_def)
      with Some r B s Nil show ?thesis
        by (auto simp: frames_ok_def intro!: exI [of _ "[]"] exI [of _ start])
    qed
  qed
qed

lemma frames_free_ok:
  assumes ok: "frames_ok fr owned lost" and f: "f \<in> owned"
  shows "frames_ok (frames_free f fr) (owned - {f}) lost"
  using ok
proof (elim frames_okE)
  fix fl start
  let ?V = "usable (RESERVED fr) (END fr) (BUMP fr)" and ?U = "usable (RESERVED fr) (END fr) start"
  assume s: "BUMP fr \<noteq> 0" "BUMP fr mod PAGE_SIZE = 0" "start \<noteq> 0" "start mod PAGE_SIZE = 0"
    "flist (link fr) (FREE_LIST fr) fl" "FREE_LIST_LEN fr = length fl" "TOTAL fr = length ?U"
    and p: "partitioned fl ?V owned lost ?U"
  have "f \<notin> set fl" using p f by (auto simp: partitioned_def)
  then have "flist ((link fr)(f := FREE_LIST fr)) f (f # fl)"
    using s(5) frames_ok_owned(1) [OF ok f] by (simp add: flist_scribble)
  moreover have "partitioned (f # fl) ?V (owned - {f}) lost ?U"
    using p f by (auto simp: partitioned_def)
  ultimately show ?thesis
    using s unfolding frames_ok_def frames_free_def Let_def
    by (auto intro!: exI [of _ "f # fl"] exI [of _ start] simp del: flist.simps)
qed

lemma frames_scribble_ok:
  assumes "frames_ok fr owned lost" and "f \<in> owned"
  shows "frames_ok (fr\<lparr>link := (link fr)(f := v)\<rparr>) owned lost"
  using assms
proof (elim frames_okE)
  fix fl start
  let ?V = "usable (RESERVED fr) (END fr) (BUMP fr)" and ?U = "usable (RESERVED fr) (END fr) start"
  assume s: "BUMP fr \<noteq> 0" "BUMP fr mod PAGE_SIZE = 0" "start \<noteq> 0" "start mod PAGE_SIZE = 0"
    "flist (link fr) (FREE_LIST fr) fl" "FREE_LIST_LEN fr = length fl" "TOTAL fr = length ?U"
    and p: "partitioned fl ?V owned lost ?U"
  have "f \<notin> set fl" using p assms(2) by (auto simp: partitioned_def)
  then show ?thesis
    using s p by (auto simp: frames_ok_def flist_scribble intro!: exI [of _ fl] exI [of _ start])
qed

definition run_frames :: "nat \<Rightarrow> nat \<Rightarrow> nat set" where
  "run_frames base count = (\<lambda>i. base + i * PAGE_SIZE) ` {0..<count}"

text \<open>The usable frames the bump pointer passed without handing them out.\<close>

definition skipped :: "frames \<Rightarrow> frames \<Rightarrow> nat set \<Rightarrow> nat set" where
  "skipped fr fr' got = set (usable (RESERVED fr) (END fr) (BUMP fr))
     - set (usable (RESERVED fr) (END fr) (BUMP fr')) - got"

lemma alloc_contiguous_ok:
  assumes ok: "frames_ok fr owned lost" and a: "alloc_contiguous count fr = (r, fr')"
  shows "case r of None \<Rightarrow> frames_ok fr' owned (lost \<union> skipped fr fr' {})
    | Some f \<Rightarrow> run_frames f count \<inter> owned = {} \<and>
        frames_ok fr' (owned \<union> run_frames f count) (lost \<union> skipped fr fr' (run_frames f count))"
proof (cases "count = 0")
  case True
  with ok a show ?thesis by (auto simp: alloc_contiguous_def skipped_def)
next
  case False
  from ok obtain fl start where s: "BUMP fr \<noteq> 0" "BUMP fr mod PAGE_SIZE = 0" "start \<noteq> 0" "start mod PAGE_SIZE = 0"
    "flist (link fr) (FREE_LIST fr) fl" "FREE_LIST_LEN fr = length fl"
    "TOTAL fr = length (usable (RESERVED fr) (END fr) start)"
    and p: "partitioned fl (usable (RESERVED fr) (END fr) (BUMP fr)) owned lost (usable (RESERVED fr) (END fr) start)"
    by (rule frames_okE)
  obtain b where fr': "fr' = fr\<lparr>BUMP := b\<rparr>" and br: "bump_run (RESERVED fr) (END fr) count (BUMP fr) = (b, r)"
    using a False by (auto simp: alloc_contiguous_def split: prod.splits)
  obtain sk where b: "b \<noteq> 0" "b mod PAGE_SIZE = 0" and
    u: "case r of None \<Rightarrow> usable (RESERVED fr) (END fr) (BUMP fr) = sk @ usable (RESERVED fr) (END fr) b
     | Some f \<Rightarrow> usable (RESERVED fr) (END fr) (BUMP fr) =
         sk @ map (\<lambda>i. f + i * PAGE_SIZE) [0..<count] @ usable (RESERVED fr) (END fr) b \<and> f \<noteq> 0"
    using bump_run_usable [OF s(1) False, of "RESERVED fr" "END fr"] s(2) unfolding br by auto
  show ?thesis
  proof (cases r)
    case None
    then have "partitioned fl (usable (RESERVED fr) (END fr) b) owned (lost \<union> set sk) (usable (RESERVED fr) (END fr) start)"
      using p u by (auto simp: partitioned_def)
    moreover have "set sk = skipped fr fr' {}"
      using p u None fr' by (auto simp: partitioned_def skipped_def)
    ultimately show ?thesis
      using None s b fr' by (auto simp: frames_ok_def intro!: exI [of _ fl] exI [of _ start])
  next
    case (Some f)
    have run: "set (map (\<lambda>i. f + i * PAGE_SIZE) [0..<count]) = run_frames f count" by (simp add: run_frames_def)
    have d: "partitioned fl (sk @ map (\<lambda>i. f + i * PAGE_SIZE) [0..<count] @ usable (RESERVED fr) (END fr) b) owned lost
        (usable (RESERVED fr) (END fr) start)"
      using p u Some by simp
    then have "partitioned fl (usable (RESERVED fr) (END fr) b) (owned \<union> run_frames f count) (lost \<union> set sk)
        (usable (RESERVED fr) (END fr) start)" "run_frames f count \<inter> owned = {}"
      unfolding partitioned_def run [symmetric] by auto
    moreover have "set sk = skipped fr fr' (run_frames f count)"
      using d u Some fr' unfolding partitioned_def run [symmetric] skipped_def by auto
    ultimately show ?thesis
      using Some s b fr' by (auto simp: frames_ok_def intro!: exI [of _ fl] exI [of _ start])
  qed
qed

section \<open>The contract of a source of frames\<close>

locale frame_source =
  fixes take_frame :: "'s \<Rightarrow> nat option \<times> 's" and give_frame :: "nat \<Rightarrow> 's \<Rightarrow> 's"
    and ok :: "'s \<Rightarrow> nat set \<Rightarrow> bool"
  assumes take_some: "ok s owned \<Longrightarrow> take_frame s = (Some f, s') \<Longrightarrow>
      f \<notin> owned \<and> f \<noteq> 0 \<and> f mod PAGE_SIZE = 0 \<and> ok s' (insert f owned)"
    and take_none: "ok s owned \<Longrightarrow> take_frame s = (None, s') \<Longrightarrow> ok s' owned"
    and give: "ok s owned \<Longrightarrow> f \<in> owned \<Longrightarrow> ok (give_frame f s) (owned - {f})"
begin

text \<open>Taking frames until \<open>n\<close> are held or the source runs dry: what was taken is new and distinct.\<close>

primrec take_many :: "nat \<Rightarrow> 's \<Rightarrow> nat list \<times> 's" where
  "take_many 0 s = ([], s)"
| "take_many (Suc n) s = (case take_frame s of
      (None, s') \<Rightarrow> ([], s')
    | (Some f, s') \<Rightarrow> (case take_many n s' of (fs, s'') \<Rightarrow> (f # fs, s'')))"

lemma take_many_distinct:
  "ok s owned \<Longrightarrow> take_many n s = (fs, s') \<Longrightarrow>
   distinct fs \<and> set fs \<inter> owned = {} \<and> ok s' (owned \<union> set fs) \<and> (\<forall>f\<in>set fs. f mod PAGE_SIZE = 0)"
proof (induction n arbitrary: s owned fs s')
  case (Suc n)
  obtain r s1 where t: "take_frame s = (r, s1)" by (cases "take_frame s") auto
  show ?case
  proof (cases r)
    case None
    with Suc.prems t show ?thesis by (auto dest: take_none)
  next
    case (Some f)
    obtain gs s2 where g: "take_many n s1 = (gs, s2)" by (cases "take_many n s1") auto
    have f: "f \<notin> owned" "f mod PAGE_SIZE = 0" "ok s1 (insert f owned)"
      using take_some [OF Suc.prems(1)] t Some by auto
    from Suc.IH [OF f(3) g] f Suc.prems(2) t Some g show ?thesis by (auto simp: insert_commute Un_commute)
  qed
qed simp

text \<open>A frame that was given back can be handed out again, and nothing else changes hands.\<close>

lemma give_take:
  assumes "ok s owned" and "f \<in> owned" and "take_frame (give_frame f s) = (Some g, s')"
  shows "g \<notin> owned - {f}" and "ok s' (insert g (owned - {f}))"
  using take_some [OF give [OF assms(1,2)] assms(3)] by auto

end

interpretation ram: frame_source frames_alloc frames_free "\<lambda>fr owned. frames_ok fr owned lost" for lost
proof (standard, goal_cases)
  case (1 s owned f s')
  then show ?case
    using frames_alloc_ok [OF 1] frames_ok_owned(1,2) [of s' "insert f owned" lost f] by auto
next
  case (2 s owned s')
  then show ?case using frames_alloc_ok [OF 2] by simp
qed (rule frames_free_ok)

section \<open>Histories\<close>

text \<open>The kernel's use of the allocator, with the frames that are out and those that were skipped.\<close>

inductive frames_step :: "frames \<times> nat set \<times> nat set \<Rightarrow> frames \<times> nat set \<times> nat set \<Rightarrow> bool" where
  alloc: "frames_alloc fr = (Some f, fr') \<Longrightarrow> frames_step (fr, owned, lost) (fr', insert f owned, lost)"
| dry: "frames_alloc fr = (None, fr') \<Longrightarrow> frames_step (fr, owned, lost) (fr', owned, lost)"
| run: "alloc_contiguous n fr = (Some f, fr') \<Longrightarrow> frames_step (fr, owned, lost)
    (fr', owned \<union> run_frames f n, lost \<union> skipped fr fr' (run_frames f n))"
| no_run: "alloc_contiguous n fr = (None, fr') \<Longrightarrow>
    frames_step (fr, owned, lost) (fr', owned, lost \<union> skipped fr fr' {})"
| free: "f \<in> owned \<Longrightarrow> frames_step (fr, owned, lost) (frames_free f fr, owned - {f}, lost)"
| scribble: "f \<in> owned \<Longrightarrow> frames_step (fr, owned, lost) (fr\<lparr>link := (link fr)(f := v)\<rparr>, owned, lost)"

definition frames_start :: "frames \<times> nat set \<times> nat set \<Rightarrow> bool" where
  "frames_start = (\<lambda>(fr, owned, lost). owned = {} \<and> lost = {} \<and> (\<exists>regions reserved fr0 base sz.
     FREE_LIST fr0 = 0 \<and> FREE_LIST_LEN fr0 = 0 \<and> fr = frames_init regions reserved fr0
     \<and> best_region regions None = Some (base, sz) \<and> 0 < base \<and> page_align_up base < page_align_down (base + sz)))"

lemma frames_init_ok: "frames_start (fr, owned, lost) \<Longrightarrow> frames_ok fr owned lost"
proof -
  assume "frames_start (fr, owned, lost)"
  then obtain regions reserved fr0 base sz where o: "owned = {}" "lost = {}"
    and f: "FREE_LIST fr0 = 0" "FREE_LIST_LEN fr0 = 0" "fr = frames_init regions reserved fr0"
    "best_region regions None = Some (base, sz)" "0 < base" "page_align_up base < page_align_down (base + sz)"
    by (auto simp: frames_start_def)
  have "0 < page_align_up base" using f(5) page_align_up_ge [of base] by simp
  moreover have "page_align_up base mod PAGE_SIZE = 0" by (simp add: page_align_up_def)
  ultimately show ?thesis
    using o f usable_distinct
    by (auto simp: frames_ok_def frames_init_def Let_def partitioned_def
        intro!: exI [of _ "[]"] exI [of _ "page_align_up base"])
qed

interpretation frames_hist: invariant_of frames_start frames_step "\<lambda>(fr, owned, lost). frames_ok fr owned lost"
proof
  fix s t
  assume st: "frames_step s t" and ok: "case s of (fr, owned, lost) \<Rightarrow> frames_ok fr owned lost"
  from st ok show "case t of (fr, owned, lost) \<Rightarrow> frames_ok fr owned lost"
  proof (induction rule: frames_step.induct)
    case (alloc fr f fr' owned lost)
    then show ?case using frames_alloc_ok [of fr owned lost "Some f" fr'] by simp
  next
    case (dry fr fr' owned lost)
    then show ?case using frames_alloc_ok [of fr owned lost None fr'] by simp
  next
    case (run n fr f fr' owned lost)
    then show ?case using alloc_contiguous_ok [of fr owned lost n "Some f" fr'] by simp
  next
    case (no_run n fr fr' owned lost)
    then show ?case using alloc_contiguous_ok [of fr owned lost n None fr'] by simp
  qed (auto intro: frames_free_ok frames_scribble_ok)
qed (auto intro: frames_init_ok)

section \<open>Properties\<close>


definition boot_frames :: frames where
  "boot_frames = \<lparr>BUMP = 0, END = 0, TOTAL = 0, FREE_LIST = 0, FREE_LIST_LEN = 0, RESERVED = [], link = \<lambda>_. 0\<rparr>"

lemma frames_startI:
  "page_align_up base < page_align_down (base + sz) \<Longrightarrow> 0 < base \<Longrightarrow>
   frames_start (frames_init [(base, sz)] reserved boot_frames, {}, {})"
  unfolding frames_start_def prod.case
  by (intro conjI refl exI [of _ "[(base, sz)]"] exI [of _ reserved] exI [of _ base] exI [of _ sz] exI [of _ boot_frames])
    (simp_all add: boot_frames_def)

lemma run_blocked_2: "run_blocked res cur 2 =
  (case blocked_until res cur of Some e \<Rightarrow> Some e | None \<Rightarrow> blocked_until res (cur + PAGE_SIZE))"
  by (simp add: numeral_2_eq_2 split: option.splits)

lemmas frames_eval = boot_frames_def frames_init_def reserve_ranges_def page_align_up_def page_align_down_def PAGE_SIZE_def
  MAX_RESERVED_def blocked_until_def total_count_def free_count_def frames_alloc_def alloc_contiguous_def
  usable.simps bump_loop.simps bump_run.simps run_blocked_2 Let_def

definition demo_frames :: frames where
  "demo_frames = frames_init [(4096, 20480)] [(8192, 12288)] boot_frames"


text \<open>
  A contiguous allocation that fails can still cost memory. The search moves the bump pointer
  past a reserved range before it knows that the run does not fit behind it, and the frames in front
  of the range are never handed out again: here no frame is out, two were usable, and one is left.
\<close>

theorem failed_run_loses_frames:
  "\<exists>fr fr'. frames_start (fr, {}, {}) \<and> alloc_contiguous 2 fr = (None, fr') \<and> total_count fr' = 2
     \<and> free_count fr = 2 \<and> free_count fr' = 1"
proof -
  let ?fr = "frames_init [(4096, 12288)] [(8192, 12288)] boot_frames"
  have s: "frames_start (?fr, {}, {})"
    by (rule frames_startI) (simp_all add: page_align_up_def page_align_down_def PAGE_SIZE_def)
  have f: "fst (alloc_contiguous 2 ?fr) = None" by (simp add: frames_eval)
  have t: "total_count (snd (alloc_contiguous 2 ?fr)) = 2" by (simp add: frames_eval)
  have c: "free_count ?fr = 2" by (simp add: frames_eval)
  have c': "free_count (snd (alloc_contiguous 2 ?fr)) = 1" by (simp add: frames_eval)
  show ?thesis
    using s f t c c' by (intro exI [of _ ?fr] exI [of _ "snd (alloc_contiguous 2 ?fr)"]) (simp add: prod_eq_iff)
qed

section \<open>Two cores in alloc\<close>

text \<open>
  \<open>alloc\<close> cut at its accesses to shared memory, one step per atomic operation: what a core still has
  to do, and the step it takes next. Nothing holds a lock between two steps.
\<close>

datatype alloc_pc =
    LoadHead
  | ReadLink nat
  | StoreHead nat nat
  | DropLen nat
  | LoadBump
  | StoreBump nat "nat option"
  | Returned "nat option"

fun alloc_micro :: "alloc_pc \<Rightarrow> frames \<Rightarrow> alloc_pc \<times> frames" where
  "alloc_micro LoadHead fr = (if FREE_LIST fr \<noteq> 0 then ReadLink (FREE_LIST fr) else LoadBump, fr)"
| "alloc_micro (ReadLink head) fr = (StoreHead head (link fr head), fr)"
| "alloc_micro (StoreHead head nxt) fr = (DropLen head, fr\<lparr>FREE_LIST := nxt\<rparr>)"
| "alloc_micro (DropLen head) fr = (Returned (Some head),
     fr\<lparr>FREE_LIST_LEN := (FREE_LIST_LEN fr + (2 ^ 64 - 1)) mod 2 ^ 64\<rparr>)"
| "alloc_micro LoadBump fr = (let cur = BUMP fr in
     (if cur = 0 \<or> cur + PAGE_SIZE > END fr then Returned None
      else case blocked_until (RESERVED fr) cur of
        Some skip_to \<Rightarrow> StoreBump (page_align_up skip_to) None
      | None \<Rightarrow> StoreBump (cur + PAGE_SIZE) (Some cur), fr))"
| "alloc_micro (StoreBump b r) fr = (if r = None then LoadBump else Returned r, fr\<lparr>BUMP := b\<rparr>)"
| "alloc_micro (Returned r) fr = (Returned r, fr)"

primrec alone :: "nat \<Rightarrow> alloc_pc \<times> frames \<Rightarrow> alloc_pc \<times> frames" where
  "alone 0 s = s"
| "alone (Suc n) s = alone n (alloc_micro (fst s) (snd s))"

text \<open>Two cores that alternate.\<close>

primrec lockstep :: "nat \<Rightarrow> alloc_pc \<times> alloc_pc \<times> frames \<Rightarrow> alloc_pc \<times> alloc_pc \<times> frames" where
  "lockstep 0 s = s"
| "lockstep (Suc n) s = (case s of (p, q, fr) \<Rightarrow>
     (case alloc_micro p fr of (p', fr1) \<Rightarrow> case alloc_micro q fr1 of (q', fr2) \<Rightarrow> lockstep n (p', q', fr2)))"

lemma alone_add: "alone (m + n) s = alone n (alone m s)"
  by (induction m arbitrary: s) auto

lemma alone_bump:
  "\<exists>n. alone n (LoadBump, fr) = (Returned (snd (bump_loop (RESERVED fr) (END fr) (BUMP fr))),
     fr\<lparr>BUMP := fst (bump_loop (RESERVED fr) (END fr) (BUMP fr))\<rparr>)"
proof (induction "RESERVED fr" "END fr" "BUMP fr" arbitrary: fr rule: bump_loop.induct)
  case 1
  note u = bump_loop.simps [of "RESERVED fr" "END fr" "BUMP fr"]
  show ?case
  proof (cases "BUMP fr = 0 \<or> BUMP fr + PAGE_SIZE > END fr")
    case True
    then show ?thesis using u by (intro exI [of _ 1]) (auto simp: Let_def)
  next
    case False
    show ?thesis
    proof (cases "blocked_until (RESERVED fr) (BUMP fr)")
      case None
      then show ?thesis using u False by (intro exI [of _ 2]) (auto simp: Let_def numeral_2_eq_2)
    next
      case (Some q)
      have two: "alone 2 (LoadBump, fr) = (LoadBump, fr\<lparr>BUMP := page_align_up q\<rparr>)"
        using False Some by (auto simp: Let_def numeral_2_eq_2)
      from 1 [OF False Some, of "fr\<lparr>BUMP := page_align_up q\<rparr>"] obtain n where
        "alone n (LoadBump, fr\<lparr>BUMP := page_align_up q\<rparr>)
          = (Returned (snd (bump_loop (RESERVED fr) (END fr) (BUMP fr))),
             fr\<lparr>BUMP := fst (bump_loop (RESERVED fr) (END fr) (BUMP fr))\<rparr>)"
        using u False Some by auto
      with two show ?thesis using alone_add [of 2 n "(LoadBump, fr)"] by (intro exI [of _ "2 + n"]) (simp only:)
    qed
  qed
qed

text \<open>One core at a time, the steps are \<open>frames_alloc\<close>.\<close>

lemma alone_is_alloc:
  assumes "FREE_LIST fr \<noteq> 0 \<Longrightarrow> 0 < FREE_LIST_LEN fr \<and> FREE_LIST_LEN fr < 2 ^ 64"
  shows "\<exists>n. alone n (LoadHead, fr) = (Returned (fst (frames_alloc fr)), snd (frames_alloc fr))"
proof (cases "FREE_LIST fr = 0")
  case True
  obtain n where "alone n (LoadBump, fr) = (Returned (snd (bump_loop (RESERVED fr) (END fr) (BUMP fr))),
     fr\<lparr>BUMP := fst (bump_loop (RESERVED fr) (END fr) (BUMP fr))\<rparr>)"
    using alone_bump by blast
  with True show ?thesis by (intro exI [of _ "Suc n"]) (simp add: frames_alloc_def case_prod_beta)
next
  case False
  define l where "l = FREE_LIST_LEN fr - 1"
  have "FREE_LIST_LEN fr = Suc l" "Suc l < 2 ^ 64" using assms False by (auto simp: l_def)
  then have "(FREE_LIST_LEN fr + (2 ^ 64 - 1)) mod 2 ^ 64 = FREE_LIST_LEN fr - 1" by simp
  with False show ?thesis
    by (intro exI [of _ "Suc (Suc (Suc (Suc 0)))"]) (simp add: frames_alloc_def Let_def)
qed

lemma micro_ignores_len:
  "alloc_micro p (fr\<lparr>FREE_LIST_LEN := l\<rparr>) = (fst (alloc_micro p fr), snd (alloc_micro p fr)\<lparr>FREE_LIST_LEN :=
     FREE_LIST_LEN (snd (alloc_micro p (fr\<lparr>FREE_LIST_LEN := l\<rparr>)))\<rparr>)"
  by (cases p) (auto simp: Let_def split: option.splits)

lemma micro_twice:
  "\<exists>l. alloc_micro p (snd (alloc_micro p fr)) = (fst (alloc_micro p fr), snd (alloc_micro p fr)\<lparr>FREE_LIST_LEN := l\<rparr>)"
  by (cases p) (auto simp: Let_def intro: exI [of _ "FREE_LIST_LEN fr"])

lemma lockstep_alone: "\<exists>l'. lockstep n (p, p, fr\<lparr>FREE_LIST_LEN := l\<rparr>) =
  (fst (alone n (p, fr)), fst (alone n (p, fr)), snd (alone n (p, fr))\<lparr>FREE_LIST_LEN := l'\<rparr>)"
proof (induction n arbitrary: p fr l)
  case (Suc n)
  obtain l1 where l1: "alloc_micro p (snd (alloc_micro p (fr\<lparr>FREE_LIST_LEN := l\<rparr>)))
      = (fst (alloc_micro p (fr\<lparr>FREE_LIST_LEN := l\<rparr>)), snd (alloc_micro p (fr\<lparr>FREE_LIST_LEN := l\<rparr>))\<lparr>FREE_LIST_LEN := l1\<rparr>)"
    using micro_twice by blast
  have "lockstep (Suc n) (p, p, fr\<lparr>FREE_LIST_LEN := l\<rparr>)
      = lockstep n (fst (alloc_micro p fr), fst (alloc_micro p fr), snd (alloc_micro p fr)\<lparr>FREE_LIST_LEN := l1\<rparr>)"
    using l1 micro_ignores_len [where p = p and fr = fr and l = l] by (auto simp: case_prod_beta) (metis frames.update_convs(5) frames.surjective fst_conv snd_conv)+
  with Suc.IH [where p = "fst (alloc_micro p fr)" and fr = "snd (alloc_micro p fr)" and l = l1] show ?case by (simp add: prod.case_eq_if)
qed (auto intro: exI [of _ l])

text \<open>
  The allocator takes no lock and its updates are separate loads and stores, so it is only safe
  one core at a time. Whatever the state, two cores that enter \<open>alloc\<close> together and alternate both
  return what one core alone would have returned: the same frame, twice, or none.
\<close>

theorem two_cores_same_frame:
  "\<exists>n fr'. lockstep n (LoadHead, LoadHead, fr) = (Returned (fst (frames_alloc fr)), Returned (fst (frames_alloc fr)), fr')"
proof -
  let ?fr = "fr\<lparr>FREE_LIST_LEN := 1\<rparr>"
  obtain n where n: "alone n (LoadHead, ?fr) = (Returned (fst (frames_alloc ?fr)), snd (frames_alloc ?fr))"
    using alone_is_alloc [of ?fr] by auto
  have "fst (frames_alloc ?fr) = fst (frames_alloc fr)"
    by (auto simp: frames_alloc_def Let_def split: prod.splits)
  with lockstep_alone [where n = n and p = LoadHead and fr = ?fr and l = "FREE_LIST_LEN fr"] n show ?thesis by auto
qed

end
