(* ===== verification/Heap.thy ===== *)
theory Heap
  imports Frames
begin

text \<open>
  The kernel heap of \<open>kernel/src/mm/heap.rs\<close>: a first-fit free list with coalescing. The linked list
  of headers in free memory is the list of its blocks, address and size, in link order; a null
  pointer is 0. Addresses are \<open>nat\<close>; rounding is the source's mask on integers.

  Shown: inserting a block keeps the list sorted, disjoint and coalesced and adds exactly its bytes;
  in every history of allocations and frees, live allocations never overlap, are aligned and lie in
  donated memory; \<open>check\<close> accepts exactly the lists that are well formed; a null result means that no
  block fits; and a tail too small for a header is lost for good.
\<close>

section \<open>The code\<close>

type_synonym block = "nat \<times> nat"

definition BLOCK_SIZE :: nat where "BLOCK_SIZE = 16"
definition MIN_ALIGN :: nat where "MIN_ALIGN = 8"
definition MAX_REGIONS :: nat where "MAX_REGIONS = 4"
definition PHYS_OFFSET :: nat where "PHYS_OFFSET = 0xFFFF000000000000"

definition phys_to_virt :: "nat \<Rightarrow> nat" where "phys_to_virt pa = pa + PHYS_OFFSET"
definition virt_to_phys :: "nat \<Rightarrow> nat" where "virt_to_phys va = va - PHYS_OFFSET"

record heap =
  head :: "block list"
  h_total :: nat
  allocated :: nat
  regions :: "(nat \<times> nat) list"

definition Heap_new :: heap where
  "Heap_new = \<lparr>head = [], h_total = 0, allocated = 0, regions = []\<rparr>"

record Layout =
  l_size :: nat
  l_align :: nat

definition align_up :: "nat \<Rightarrow> nat \<Rightarrow> nat" where
  "align_up v align = nat ((int v + int align - 1) AND NOT (int align - 1))"

text \<open>\<open>insert\<close>: walk to the place, link, merge forward, then backward.\<close>

fun merge_forward :: "block \<Rightarrow> block list \<Rightarrow> block list" where
  "merge_forward (b, sz) [] = [(b, sz)]"
| "merge_forward (b, sz) ((c, cs) # nxt) = (if b + sz = c then (b, sz + cs) # nxt else (b, sz) # (c, cs) # nxt)"

definition merge_backward :: "block list \<Rightarrow> block list \<Rightarrow> block list" where
  "merge_backward prevs rest = (if prevs = [] then rest
     else case (last prevs, rest) of
       ((p, ps), (b, sz) # nxt) \<Rightarrow> if p + ps = b then butlast prevs @ (p, ps + sz) # nxt else prevs @ rest
     | (_, []) \<Rightarrow> prevs)"

definition heap_insert :: "block \<Rightarrow> block list \<Rightarrow> block list" where
  "heap_insert blk blocks = (let before = (\<lambda>(a, _). a < fst blk) in
     merge_backward (takeWhile before blocks) (merge_forward blk (dropWhile before blocks)))"

definition add_region :: "nat \<Rightarrow> nat \<Rightarrow> heap \<Rightarrow> heap" where
  "add_region start0 sz h = (let start = align_up start0 MIN_ALIGN in
     if sz < BLOCK_SIZE then h
     else h\<lparr>h_total := h_total h + sz,
            regions := (if length (regions h) < MAX_REGIONS then regions h @ [(start, start + sz)] else regions h),
            head := heap_insert (start, sz) (head h)\<rparr>)"

definition rounded :: "Layout \<Rightarrow> nat" where
  "rounded layout = align_up (max (l_size layout) BLOCK_SIZE) MIN_ALIGN"

fun first_fit :: "nat \<Rightarrow> nat \<Rightarrow> block list \<Rightarrow> block list \<Rightarrow> (nat \<times> block list) option" where
  "first_fit align sz prevs [] = None"
| "first_fit align sz prevs ((cur, csize) # nxt) =
    (let start = align_up cur align; front_pad = start - cur in
     if (front_pad = 0 \<or> front_pad \<ge> BLOCK_SIZE) \<and> front_pad + sz \<le> csize then
       let tail = cur + csize - (start + sz);
           l = prevs @ nxt;
           l = (if front_pad \<ge> BLOCK_SIZE then heap_insert (cur, front_pad) l else l);
           l = (if tail \<ge> BLOCK_SIZE then heap_insert (start + sz, tail) l else l)
       in Some (start, l)
     else first_fit align sz (prevs @ [(cur, csize)]) nxt)"

definition heap_alloc :: "Layout \<Rightarrow> heap \<Rightarrow> nat \<times> heap" where
  "heap_alloc layout h =
    (case first_fit (max (l_align layout) MIN_ALIGN) (rounded layout) [] (head h) of
       Some (start, l) \<Rightarrow> (start, h\<lparr>head := l, allocated := allocated h + rounded layout\<rparr>)
     | None \<Rightarrow> (0, h))"

definition heap_dealloc :: "nat \<Rightarrow> Layout \<Rightarrow> heap \<Rightarrow> heap" where
  "heap_dealloc ptr layout h =
     h\<lparr>allocated := allocated h - rounded layout, head := heap_insert (ptr, rounded layout) (head h)\<rparr>"

definition heap_init :: "nat \<Rightarrow> frames \<Rightarrow> heap \<Rightarrow> unit result \<times> frames \<times> heap" where
  "heap_init pages fr h = (case alloc_contiguous pages fr of
     (None, fr) \<Rightarrow> (Inl ''no contiguous frames for heap'', fr, h)
   | (Some phys, fr) \<Rightarrow> (Inr (), fr, add_region (phys_to_virt phys) (pages * PAGE_SIZE) h))"

definition heap_stats :: "heap \<Rightarrow> nat \<times> nat" where
  "heap_stats h = (h_total h, allocated h)"

record HeapCheck =
  blocks :: nat
  free_bytes :: nat
  hc_error :: "string option"
  hc_at :: nat

fun check_loop :: "heap \<Rightarrow> nat \<Rightarrow> HeapCheck \<Rightarrow> block list \<Rightarrow> HeapCheck" where
  "check_loop h last_end out [] = out"
| "check_loop h last_end out ((addr, sz) # nxt) = (let out = out\<lparr>hc_at := addr\<rparr> in
     if addr mod MIN_ALIGN \<noteq> 0 then out\<lparr>hc_error := Some ''block is misaligned''\<rparr>
     else if addr < last_end then out\<lparr>hc_error := Some ''free list is not sorted, or blocks overlap''\<rparr>
     else if sz < BLOCK_SIZE \<or> sz > h_total h then out\<lparr>hc_error := Some ''block size is impossible''\<rparr>
     else if \<not> list_ex (\<lambda>(s, e). addr \<ge> s \<and> addr + sz \<le> e) (regions h)
       then out\<lparr>hc_error := Some ''block lies outside every donated region''\<rparr>
     else let out = out\<lparr>free_bytes := free_bytes out + sz, blocks := blocks out + 1\<rparr> in
       if blocks out > 1000000 then out\<lparr>hc_error := Some ''free list has a cycle''\<rparr>
       else check_loop h (addr + sz) out nxt)"

definition heap_check :: "heap \<Rightarrow> HeapCheck" where
  "heap_check h = check_loop h 0 \<lparr>blocks = 0, free_bytes = 0, hc_error = None, hc_at = 0\<rparr> (head h)"

section \<open>Rounding\<close>

lemma and_not_mask_int: "(x :: int) AND NOT (2 ^ k - 1) = x div 2 ^ k * 2 ^ k"
proof -
  have "x AND NOT (mask k) = push_bit k (drop_bit k x)"
    by (rule bit_eqI) (auto simp: bit_simps)
  then show ?thesis by (simp add: mask_eq_exp_minus_1 push_bit_eq_mult drop_bit_eq_div)
qed

lemma align_up_pow2: "align_up v (2 ^ k) = (v + 2 ^ k - 1) div 2 ^ k * 2 ^ k"
proof -
  have "int v + int (2 ^ k) - 1 = int (v + 2 ^ k - 1)"
    by (subst of_nat_diff) (auto intro: trans_le_add2)
  then have "align_up v (2 ^ k) = nat (int (v + 2 ^ k - 1) div 2 ^ k * 2 ^ k)"
    unfolding align_up_def by (simp add: and_not_mask_int)
  also have "\<dots> = nat (int ((v + 2 ^ k - 1) div 2 ^ k * 2 ^ k))"
    by (simp only: of_nat_mult of_nat_power of_nat_numeral zdiv_int)
  finally show ?thesis by (simp only: nat_int)
qed

lemma round_up_props:
  assumes "0 < (m :: nat)"
  shows "v \<le> (v + m - 1) div m * m" and "(v + m - 1) div m * m < v + m"
  using div_ceil_bounds [OF assms, of v] by (simp_all add: div_ceil_def)

lemma align_up_props:
  assumes "a = 2 ^ k"
  shows "v \<le> align_up v a" and "align_up v a < v + a" and "align_up v a mod a = 0"
  using round_up_props [of "2 ^ k" v] by (simp_all add: assms align_up_pow2)

lemma align_up_8: "v \<le> align_up v MIN_ALIGN" "align_up v MIN_ALIGN < v + MIN_ALIGN" "align_up v MIN_ALIGN mod MIN_ALIGN = 0"
  using align_up_props [of MIN_ALIGN 3 v] by (simp_all add: MIN_ALIGN_def)

lemma align_up_id: "v mod MIN_ALIGN = 0 \<Longrightarrow> align_up v MIN_ALIGN = v"
proof -
  assume v: "v mod MIN_ALIGN = 0"
  obtain q where q: "v = 8 * q" using v by (auto simp: MIN_ALIGN_def)
  obtain r where r: "align_up v MIN_ALIGN = 8 * r" using align_up_8(3) [of v] by (auto simp: MIN_ALIGN_def)
  have "8 * q \<le> 8 * r" "8 * r < 8 * q + 8"
    using align_up_8(1,2) [of v] by (simp_all only: r) (simp_all add: q MIN_ALIGN_def)
  then show ?thesis unfolding r by (simp add: q)
qed

lemma rounded_props: "l_size layout \<le> rounded layout" "BLOCK_SIZE \<le> rounded layout" "rounded layout mod MIN_ALIGN = 0"
  using align_up_8 [of "max (l_size layout) BLOCK_SIZE"] by (auto simp: rounded_def)

section \<open>The free list\<close>

definition span :: "block \<Rightarrow> nat set" where
  "span = (\<lambda>(a, sz). {a..<a + sz})"

definition cover :: "block list \<Rightarrow> nat set" where
  "cover bs = (\<Union>b\<in>set bs. span b)"

definition block_ok :: "block \<Rightarrow> bool" where
  "block_ok = (\<lambda>(a, sz). a mod MIN_ALIGN = 0 \<and> sz mod MIN_ALIGN = 0 \<and> BLOCK_SIZE \<le> sz)"

text \<open>Sorted by address, disjoint, and coalesced: the inequality is strict.\<close>

definition apart :: "block \<Rightarrow> block \<Rightarrow> bool" where
  "apart = (\<lambda>(a, sz) (b, _). a + sz < b)"

definition blocks_ok :: "block list \<Rightarrow> bool" where
  "blocks_ok bs \<longleftrightarrow> (\<forall>b\<in>set bs. block_ok b) \<and> sorted_wrt apart bs"

lemma cover_simps [simp]: "cover [] = {}" "cover (b # bs) = span b \<union> cover bs" "cover (xs @ ys) = cover xs \<union> cover ys"
  by (auto simp: cover_def)

lemma blocks_ok_Nil [simp]: "blocks_ok []"
  by (simp add: blocks_ok_def)

lemma blocks_ok_Cons: "blocks_ok (b # bs) \<longleftrightarrow> block_ok b \<and> (\<forall>c\<in>set bs. apart b c) \<and> blocks_ok bs"
  by (auto simp: blocks_ok_def)

lemma blocks_ok_append: "blocks_ok (xs @ ys) \<longleftrightarrow> blocks_ok xs \<and> blocks_ok ys \<and> (\<forall>x\<in>set xs. \<forall>y\<in>set ys. apart x y)"
  by (auto simp: blocks_ok_def sorted_wrt_append)

lemma block_ok_merge: "block_ok (a, m) \<Longrightarrow> block_ok (b, n) \<Longrightarrow> block_ok (a, m + n)"
  by (auto simp: block_ok_def mod_add_eq [symmetric])

lemma span_add: "span (a, m + n) = span (a, m) \<union> span (a + m, n)"
  by (auto simp: span_def)

lemma merge_forward_ok:
  assumes "blocks_ok bs" and "block_ok (b, sz)" and "\<forall>c\<in>set bs. b + sz \<le> fst c"
  shows "blocks_ok (merge_forward (b, sz) bs)" and "cover (merge_forward (b, sz) bs) = span (b, sz) \<union> cover bs"
    and "\<exists>n nxt. merge_forward (b, sz) bs = (b, n) # nxt" and "\<forall>c\<in>set (merge_forward (b, sz) bs). b \<le> fst c"
proof -
  obtain c cs nxt where "bs = [] \<or> bs = (c, cs) # nxt" by (cases bs) auto
  then consider "bs = []" | "bs = (c, cs) # nxt" by blast
  note cases = this
  have apart: "apart (b, n) d" if "d \<in> set nxt" "bs = (c, cs) # nxt" "b + n \<le> c + cs" for n d
    using assms(1) that by (force simp: blocks_ok_Cons apart_def)
  show "blocks_ok (merge_forward (b, sz) bs)"
  proof (cases rule: cases)
    case 2
    then show ?thesis
      using assms apart [of _ "sz + cs"] apart [of _ sz]
      by (auto simp: blocks_ok_Cons block_ok_merge) (auto simp: apart_def)
  qed (use assms in \<open>auto simp: blocks_ok_Cons\<close>)
  show "cover (merge_forward (b, sz) bs) = span (b, sz) \<union> cover bs"
    by (cases rule: cases) (auto simp: span_add)
  show "\<exists>n nxt. merge_forward (b, sz) bs = (b, n) # nxt" by (cases rule: cases) auto
  show "\<forall>c\<in>set (merge_forward (b, sz) bs). b \<le> fst c"
    using assms(3) by (cases rule: cases) auto
qed

lemma merge_backward_ok:
  assumes "blocks_ok ps" and "blocks_ok ((b, n) # nxt)" and "\<forall>p\<in>set ps. fst p + snd p \<le> b"
  shows "blocks_ok (merge_backward ps ((b, n) # nxt))"
    and "cover (merge_backward ps ((b, n) # nxt)) = cover ps \<union> cover ((b, n) # nxt)"
proof -
  have "blocks_ok (merge_backward ps ((b, n) # nxt)) \<and>
      cover (merge_backward ps ((b, n) # nxt)) = cover ps \<union> cover ((b, n) # nxt)"
  proof (cases ps rule: rev_cases)
    case Nil
    then show ?thesis using assms(2) by (simp add: merge_backward_def)
  next
    case (snoc qs p)
    obtain a m where p: "p = (a, m)" by (cases p)
    have q: "blocks_ok qs" "\<forall>q\<in>set qs. apart q (a, m)" "block_ok (a, m)"
      using assms(1) by (auto simp: snoc p blocks_ok_append blocks_ok_Cons)
    have far: "apart q c" if "q \<in> set qs" "c \<in> set ((b, n) # nxt)" for q c
      using q(2) that assms(2,3) by (force simp: snoc p apart_def blocks_ok_Cons)
    show ?thesis
    proof (cases "a + m = b")
      case True
      have "blocks_ok ((a, m + n) # nxt)"
        using assms(2) q(3) True by (auto simp: blocks_ok_Cons block_ok_merge) (auto simp: apart_def)
      moreover have "\<forall>q\<in>set qs. apart q (a, m + n)" using q(2) by (auto simp: apart_def)
      ultimately show ?thesis
        using True q far by (auto simp: merge_backward_def snoc p blocks_ok_append span_add)
    next
      case False
      have "\<forall>c\<in>set ((b, n) # nxt). apart (a, m) c"
        using False assms(2,3) by (force simp: snoc p apart_def blocks_ok_Cons)
      then show ?thesis
        using False assms(1,2) far by (auto simp: merge_backward_def snoc p blocks_ok_append blocks_ok_Cons)
    qed
  qed
  then show "blocks_ok (merge_backward ps ((b, n) # nxt))"
    and "cover (merge_backward ps ((b, n) # nxt)) = cover ps \<union> cover ((b, n) # nxt)" by auto
qed

text \<open>Inserting adds exactly the block's bytes and keeps the list well formed.\<close>

lemma heap_insert_ok:
  assumes bs: "blocks_ok bs" and b: "block_ok (b, sz)" and dis: "span (b, sz) \<inter> cover bs = {}"
  shows "blocks_ok (heap_insert (b, sz) bs)" and "cover (heap_insert (b, sz) bs) = cover bs \<union> span (b, sz)"
proof -
  let ?f = "\<lambda>(a, _). a < b"
  define ps where "ps = takeWhile ?f bs"
  define cs where "cs = dropWhile ?f bs"
  have split: "bs = ps @ cs" by (simp add: ps_def cs_def)
  have ok: "blocks_ok ps" "blocks_ok cs" using bs by (auto simp: split blocks_ok_append)
  have low: "\<forall>p\<in>set ps. fst p < b" by (auto simp: ps_def dest!: set_takeWhileD)
  have high: "\<forall>c\<in>set cs. b \<le> fst c"
  proof (cases cs)
    case (Cons c ds)
    then have "\<not> ?f c" unfolding cs_def by (metis dropWhile_eq_Cons_conv)
    then show ?thesis using ok(2) by (force simp: Cons blocks_ok_Cons apart_def)
  qed simp
  have pos: "0 < sz" "\<forall>c\<in>set bs. 0 < snd c"
    using b bs by (auto simp: block_ok_def BLOCK_SIZE_def blocks_ok_def)
  have dj: "span (b, sz) \<inter> span c = {}" if "c \<in> set bs" for c
    using dis that by (auto simp: cover_def)
  have left: "\<forall>p\<in>set ps. fst p + snd p \<le> b"
  proof
    fix p assume p: "p \<in> set ps"
    then have "b \<notin> span p" using dj [of p] pos(1) by (auto simp: split span_def)
    with low p show "fst p + snd p \<le> b" by (auto simp: span_def case_prod_beta)
  qed
  have right: "\<forall>c\<in>set cs. b + sz \<le> fst c"
  proof
    fix c assume c: "c \<in> set cs"
    then have "0 < snd c" using pos(2) by (simp add: split)
    then have "fst c \<notin> span (b, sz)" using dj [of c] c by (auto simp: split span_def case_prod_beta)
    with high c show "b + sz \<le> fst c" by (auto simp: span_def)
  qed
  note F = merge_forward_ok [OF ok(2) b right]
  from F(3) obtain n nxt where m: "merge_forward (b, sz) cs = (b, n) # nxt" by blast
  have eq: "heap_insert (b, sz) bs = merge_backward ps ((b, n) # nxt)"
    using m by (simp add: heap_insert_def Let_def ps_def cs_def)
  note B = merge_backward_ok [OF ok(1) F(1) [unfolded m] left]
  show "blocks_ok (heap_insert (b, sz) bs)" using B(1) by (simp add: eq)
  have "cover (heap_insert (b, sz) bs) = cover ps \<union> cover (merge_forward (b, sz) cs)"
    using B(2) by (simp only: eq m)
  also have "\<dots> = cover bs \<union> span (b, sz)" using F(2) by (auto simp: split)
  finally show "cover (heap_insert (b, sz) bs) = cover bs \<union> span (b, sz)" .
qed

section \<open>Allocation\<close>

definition fits :: "nat \<Rightarrow> nat \<Rightarrow> block \<Rightarrow> bool" where
  "fits align sz = (\<lambda>(c, cs). (align_up c align = c \<or> c + BLOCK_SIZE \<le> align_up c align) \<and> align_up c align + sz \<le> c + cs)"

lemma cover_disjoint:
  assumes "blocks_ok (xs @ b # ys)"
  shows "span b \<inter> cover (xs @ ys) = {}"
proof -
  have "span b \<inter> span c = {}" if "c \<in> set (xs @ ys)" for c
    using assms that by (cases b; cases c) (fastforce simp: blocks_ok_append blocks_ok_Cons apart_def span_def)
  then show ?thesis by (auto simp: cover_def)
qed

lemma mod_align: "a = 2 ^ k \<Longrightarrow> MIN_ALIGN \<le> a \<Longrightarrow> v mod a = 0 \<Longrightarrow> v mod MIN_ALIGN = 0"
proof -
  assume a: "a = 2 ^ k" "MIN_ALIGN \<le> a" "v mod a = 0"
  then have "(2 :: nat) ^ 3 \<le> 2 ^ k" by (simp add: MIN_ALIGN_def)
  then have "(2 :: nat) ^ 3 dvd 2 ^ k" by (intro le_imp_power_dvd) (rule power_le_imp_le_exp [of 2], simp_all)
  then have "MIN_ALIGN dvd a" by (simp add: a MIN_ALIGN_def)
  with a(3) show ?thesis by (meson dvd_trans mod_0_imp_dvd mod_eq_0_iff_dvd)
qed

text \<open>What is carved out of the first block that fits: the allocation, and a tail too small for a header.\<close>

lemma first_fit_Some:
  assumes "first_fit align sz prevs bs = Some (start, l)" and "blocks_ok (prevs @ bs)"
    and "align = 2 ^ k" and "MIN_ALIGN \<le> align" and "block_ok (0, sz)"
  shows "\<exists>tail. tail < BLOCK_SIZE \<and> blocks_ok l \<and> start mod align = 0
    \<and> cover (prevs @ bs) = cover l \<union> span (start, sz + tail) \<and> cover l \<inter> span (start, sz + tail) = {}"
  using assms
proof (induction bs arbitrary: prevs)
  case (Cons b nxt)
  obtain cur cs where b: "b = (cur, cs)" by (cases b)
  define st where "st = align_up cur align"
  have st: "cur \<le> st" "st mod align = 0" using align_up_props [OF assms(3)] by (auto simp: st_def)
  have m8: "st mod MIN_ALIGN = 0" using mod_align [OF assms(3,4) st(2)] .
  have bok: "block_ok (cur, cs)" using Cons.prems(2) by (simp add: b blocks_ok_append blocks_ok_Cons)
  show ?case
  proof (cases "(st - cur = 0 \<or> BLOCK_SIZE \<le> st - cur) \<and> st - cur + sz \<le> cs")
    case False
    then show ?thesis using Cons.IH [of "prevs @ [b]"] Cons.prems by (auto simp: b st_def Let_def)
  next
    case True
    define L where "L = prevs @ nxt"
    define t where "t = cur + cs - (st + sz)"
    define l1 where "l1 = (if BLOCK_SIZE \<le> st - cur then heap_insert (cur, st - cur) L else L)"
    define l2 where "l2 = (if BLOCK_SIZE \<le> t then heap_insert (st + sz, t) l1 else l1)"
    have "Some (start, l) = Some (st, l2)"
      using Cons.prems(1) True unfolding b first_fit.simps Let_def l2_def l1_def t_def L_def st_def by (simp only: if_True simp_thms)
    then have res: "start = st" "l = l2" by simp_all
    have L: "blocks_ok L" "cover (prevs @ b # nxt) = cover L \<union> span b" "span b \<inter> cover L = {}"
      using Cons.prems(2) cover_disjoint [OF Cons.prems(2)]
      by (auto simp: L_def blocks_ok_append blocks_ok_Cons)
    have fit: "st + sz + t = cur + cs" using True st(1) unfolding t_def by linarith
    have cut: "span b = span (cur, st - cur) \<union> span (st, sz) \<union> span (st + sz, t)"
      using fit st(1) by (auto simp: span_def b)
    have dj: "span (cur, st - cur) \<inter> span (st, sz) = {}" "span (cur, st - cur) \<inter> span (st + sz, t) = {}"
      "span (st, sz) \<inter> span (st + sz, t) = {}"
      using st(1) by (auto simp: span_def)
    have t8: "t mod MIN_ALIGN = 0" "(st + sz) mod MIN_ALIGN = 0" "(st - cur) mod MIN_ALIGN = 0"
      using fit st(1) bok m8 assms(5) unfolding block_ok_def MIN_ALIGN_def prod.case by presburger+
    have l1: "blocks_ok l1 \<and> cover l1 = cover L \<union> span (cur, st - cur)"
    proof (cases "BLOCK_SIZE \<le> st - cur")
      case True
      then show ?thesis
        using heap_insert_ok [OF L(1), of cur "st - cur"] L(3) cut t8 bok by (auto simp: l1_def block_ok_def)
    next
      case False
      with \<open>(st - cur = 0 \<or> BLOCK_SIZE \<le> st - cur) \<and> _\<close> have "st - cur = 0" by blast
      then show ?thesis using L(1) False by (simp add: l1_def span_def)
    qed
    show ?thesis
    proof (cases "BLOCK_SIZE \<le> t")
      case True
      have "span (st + sz, t) \<inter> cover l1 = {}" using l1 L(3) cut dj by blast
      then have "blocks_ok l2" "cover l2 = cover l1 \<union> span (st + sz, t)"
        using heap_insert_ok [of l1 "st + sz" t] l1 t8 True by (auto simp: l2_def block_ok_def)
      moreover have "cover (prevs @ b # nxt) = cover l2 \<union> span (st, sz)" "cover l2 \<inter> span (st, sz) = {}"
        unfolding L(2) using calculation(2) l1 L(3) cut dj by auto
      ultimately show ?thesis
        using st(2) unfolding res by (intro exI [of _ 0]) (simp add: BLOCK_SIZE_def)
    next
      case False
      have "l2 = l1" using False by (simp add: l2_def)
      moreover have "cover (prevs @ b # nxt) = cover l1 \<union> span (st, sz + t)" "cover l1 \<inter> span (st, sz + t) = {}"
        unfolding L(2) span_add using l1 L(3) cut dj by auto
      ultimately show ?thesis
        using l1 st(2) False unfolding res by (intro exI [of _ t]) simp
    qed
  qed
qed simp

lemma first_fit_None:
  "align = 2 ^ k \<Longrightarrow> first_fit align sz prevs bs = None \<longleftrightarrow> (\<forall>b\<in>set bs. \<not> fits align sz b)"
proof (induction bs arbitrary: prevs)
  case (Cons b nxt)
  obtain c cs where b: "b = (c, cs)" by (cases b)
  have "c \<le> align_up c align" using align_up_props [OF Cons.prems] by blast
  with Cons show ?case by (auto simp: b Let_def fits_def)
qed simp

section \<open>Histories\<close>

text \<open>A heap with its live allocations, pointer and layout, and the bytes that belong to neither side.\<close>

type_synonym heap_use = "heap \<times> (nat \<times> Layout) set \<times> nat set"

definition aspan :: "nat \<times> Layout \<Rightarrow> nat set" where
  "aspan = (\<lambda>(p, l). span (p, rounded l))"

definition donated :: "heap \<Rightarrow> nat set" where
  "donated h = (\<Union>(s, e)\<in>set (regions h). {s..<e})"

definition heap_ok :: "heap_use \<Rightarrow> bool" where
  "heap_ok = (\<lambda>(h, live, lost). blocks_ok (head h) \<and> finite live \<and> 0 \<notin> donated h
     \<and> (\<forall>(p, l)\<in>live. block_ok (p, rounded l))
     \<and> (\<forall>x\<in>live. \<forall>y\<in>live. x \<noteq> y \<longrightarrow> aspan x \<inter> aspan y = {})
     \<and> cover (head h) \<inter> (\<Union>x\<in>live. aspan x) = {} \<and> lost \<inter> (cover (head h) \<union> (\<Union>x\<in>live. aspan x)) = {}
     \<and> cover (head h) \<union> (\<Union>x\<in>live. aspan x) \<union> lost = donated h
     \<and> allocated h = (\<Sum>(p, l)\<in>live. rounded l)
     \<and> (\<exists>s e. regions h = [(s, e)] \<and> s mod MIN_ALIGN = 0 \<and> h_total h = e - s))"

inductive heap_step :: "heap_use \<Rightarrow> heap_use \<Rightarrow> bool" where
  alloc: "heap_alloc l h = (p, h') \<Longrightarrow> p \<noteq> 0 \<Longrightarrow> l_align l = 2 ^ k \<Longrightarrow>
    heap_step (h, live, lost) (h', insert (p, l) live, lost \<union> (cover (head h) - cover (head h') - aspan (p, l)))"
| full: "heap_alloc l h = (0, h') \<Longrightarrow> l_align l = 2 ^ k \<Longrightarrow> heap_step (h, live, lost) (h', live, lost)"
| free: "(p, l) \<in> live \<Longrightarrow> heap_step (h, live, lost) (heap_dealloc p l h, live - {(p, l)}, lost)"

definition heap_start :: "heap_use \<Rightarrow> bool" where
  "heap_start = (\<lambda>(h, live, lost). live = {} \<and> lost = {} \<and> (\<exists>a n. h = add_region a n Heap_new
     \<and> 0 < a \<and> a mod MIN_ALIGN = 0 \<and> n mod MIN_ALIGN = 0 \<and> BLOCK_SIZE \<le> n))"

lemma heap_alloc_Some:
  assumes "heap_alloc l h = (p, h')" and "p \<noteq> 0" and "l_align l = 2 ^ k" and "blocks_ok (head h)"
  shows "\<exists>tail. tail < BLOCK_SIZE \<and> blocks_ok (head h') \<and> p mod l_align l = 0 \<and> p mod MIN_ALIGN = 0
    \<and> cover (head h) = cover (head h') \<union> span (p, rounded l + tail) \<and> cover (head h') \<inter> span (p, rounded l + tail) = {}
    \<and> h' = h\<lparr>head := head h', allocated := allocated h + rounded l\<rparr>"
proof -
  let ?a = "max (l_align l) MIN_ALIGN"
  have a: "?a = 2 ^ max k 3" "MIN_ALIGN \<le> ?a"
    using max_of_mono [of "\<lambda>k. 2 ^ k :: nat" k 3] by (simp_all add: assms(3) MIN_ALIGN_def mono_def power_increasing)
  have r: "block_ok (0, rounded l)" using rounded_props [of l] by (simp add: block_ok_def)
  obtain fl where f: "first_fit ?a (rounded l) [] (head h) = Some (p, fl)"
    and h': "h' = h\<lparr>head := fl, allocated := allocated h + rounded l\<rparr>"
    using assms(1,2) by (auto simp: heap_alloc_def split: option.splits prod.splits)
  from first_fit_Some [OF f _ a(1) a(2) r] assms(4) obtain tail where t: "tail < BLOCK_SIZE" "blocks_ok fl"
    "p mod ?a = 0" "cover (head h) = cover fl \<union> span (p, rounded l + tail)" "cover fl \<inter> span (p, rounded l + tail) = {}"
    by auto
  have "p mod MIN_ALIGN = 0" using mod_align [OF a t(3)] .
  moreover have "l_align l dvd ?a" unfolding a(1) by (subst assms(3)) (rule le_imp_power_dvd, simp)
  then have "p mod l_align l = 0" using t(3) by (meson dvd_trans mod_0_imp_dvd mod_eq_0_iff_dvd)
  ultimately show ?thesis using t h' by auto
qed

definition held :: "(nat \<times> Layout) set \<Rightarrow> nat set" where
  "held live = (\<Union>x\<in>live. aspan x)"

lemma held_simps: "held {} = {}" "held (insert x A) = aspan x \<union> held A" "x \<in> A \<Longrightarrow> held A = aspan x \<union> held (A - {x})"
  by (auto simp: held_def)

lemma heap_okD:
  assumes "heap_ok (h, live, lost)"
  shows "blocks_ok (head h)" "finite live" "0 \<notin> donated h" "\<And>p l. (p, l) \<in> live \<Longrightarrow> block_ok (p, rounded l)"
    "\<And>x y. x \<in> live \<Longrightarrow> y \<in> live \<Longrightarrow> x \<noteq> y \<Longrightarrow> aspan x \<inter> aspan y = {}"
    "cover (head h) \<inter> held live = {}" "lost \<inter> (cover (head h) \<union> held live) = {}"
    "cover (head h) \<union> held live \<union> lost = donated h" "allocated h = (\<Sum>(p, l)\<in>live. rounded l)"
    "\<exists>s e. regions h = [(s, e)] \<and> s mod MIN_ALIGN = 0 \<and> h_total h = e - s"
  using assms by (simp_all add: heap_ok_def held_def case_prod_beta) fastforce

lemma heap_okI:
  assumes "blocks_ok (head h)" "finite live" "0 \<notin> donated h" "\<And>p l. (p, l) \<in> live \<Longrightarrow> block_ok (p, rounded l)"
    "\<And>x y. x \<in> live \<Longrightarrow> y \<in> live \<Longrightarrow> x \<noteq> y \<Longrightarrow> aspan x \<inter> aspan y = {}"
    "cover (head h) \<inter> held live = {}" "lost \<inter> (cover (head h) \<union> held live) = {}"
    "cover (head h) \<union> held live \<union> lost = donated h" "allocated h = (\<Sum>(p, l)\<in>live. rounded l)"
    "\<exists>s e. regions h = [(s, e)] \<and> s mod MIN_ALIGN = 0 \<and> h_total h = e - s"
  shows "heap_ok (h, live, lost)"
  using assms by (simp add: heap_ok_def held_def case_prod_beta)

lemma cover_subset_donated: "heap_ok (h, live, lost) \<Longrightarrow> cover (head h) \<subseteq> donated h"
  using heap_okD(8) by blast

text \<open>Moving a set of bytes from the free side to the held side, and back.\<close>

lemma carve:
  assumes "F \<inter> U = {}" "X \<inter> (F \<union> U) = {}" "F \<union> U \<union> X = D" "F = F' \<union> S" "F' \<inter> S = {}" "A \<subseteq> S"
  shows "F' \<inter> (A \<union> U) = {}" "(X \<union> (F - F' - A)) \<inter> (F' \<union> (A \<union> U)) = {}" "F' \<union> (A \<union> U) \<union> (X \<union> (F - F' - A)) = D"
proof -
  have F: "F - F' - A = S - A" using assms(4,5) by auto
  show "F' \<inter> (A \<union> U) = {}" using assms by auto
  show "(X \<union> (F - F' - A)) \<inter> (F' \<union> (A \<union> U)) = {}" unfolding F using assms by auto
  show "F' \<union> (A \<union> U) \<union> (X \<union> (F - F' - A)) = D" unfolding F using assms by auto
qed

lemma give_back:
  assumes "F \<inter> (A \<union> U) = {}" "X \<inter> (F \<union> (A \<union> U)) = {}" "F \<union> (A \<union> U) \<union> X = D" "A \<inter> U = {}"
  shows "(F \<union> A) \<inter> U = {}" "X \<inter> (F \<union> A \<union> U) = {}" "F \<union> A \<union> U \<union> X = D"
  using assms by auto

lemma heap_alloc_ok:
  assumes ok: "heap_ok (h, live, lost)" and al: "heap_alloc l h = (p, h')" "p \<noteq> 0" "l_align l = 2 ^ k"
  shows "heap_ok (h', insert (p, l) live, lost \<union> (cover (head h) - cover (head h') - aspan (p, l)))"
    and "\<forall>x\<in>live. aspan (p, l) \<inter> aspan x = {}" and "aspan (p, l) \<subseteq> donated h"
    and "p mod l_align l = 0" and "(p, l) \<notin> live"
proof -
  have bs: "blocks_ok (head h)" using ok by (simp add: heap_ok_def)
  from heap_alloc_Some [OF al bs] obtain tail where t: "blocks_ok (head h')" "p mod l_align l = 0" "p mod MIN_ALIGN = 0"
    "cover (head h) = cover (head h') \<union> span (p, rounded l + tail)" "cover (head h') \<inter> span (p, rounded l + tail) = {}"
    and h': "h' = h\<lparr>head := head h', allocated := allocated h + rounded l\<rparr>" by (elim exE conjE) (rule that; assumption)
  have same: "regions h' = regions h" "h_total h' = h_total h" "allocated h' = allocated h + rounded l" "donated h' = donated h"
    using arg_cong [OF h', of regions] arg_cong [OF h', of h_total] arg_cong [OF h', of allocated]
    by (simp_all add: donated_def)
  have sub: "aspan (p, l) \<subseteq> span (p, rounded l + tail)" by (auto simp: aspan_def span_add)
  have in_cov: "aspan (p, l) \<subseteq> cover (head h)" using sub t(4) by blast
  note D = heap_okD [OF ok]
  show "aspan (p, l) \<subseteq> donated h" using in_cov cover_subset_donated [OF ok] by blast
  have "aspan (p, l) \<inter> held live = {}" using in_cov D(6) by blast
  then show dj: "\<forall>x\<in>live. aspan (p, l) \<inter> aspan x = {}" by (auto simp: held_def)
  have "p \<in> aspan (p, l)" using rounded_props [of l] by (auto simp: aspan_def span_def BLOCK_SIZE_def)
  with dj show new: "(p, l) \<notin> live" by blast
  show "p mod l_align l = 0" by (rule t(2))
  have b: "block_ok (p, rounded l)" using t(3) rounded_props [of l] by (simp add: block_ok_def)
  note parts = carve [OF D(6,7,8) t(4,5) sub]
  show "heap_ok (h', insert (p, l) live, lost \<union> (cover (head h) - cover (head h') - aspan (p, l)))"
  proof (rule heap_okI)
    show "aspan x \<inter> aspan y = {}" if "x \<in> insert (p, l) live" "y \<in> insert (p, l) live" "x \<noteq> y" for x y
      using that dj D(5) by blast
  qed (use t(1) D b new parts in \<open>auto simp: same held_simps\<close>)
qed

lemma heap_dealloc_ok:
  assumes ok: "heap_ok (h, live, lost)" and x: "(p, l) \<in> live"
  shows "heap_ok (heap_dealloc p l h, live - {(p, l)}, lost)"
proof -
  let ?h = "heap_dealloc p l h"
  note D = heap_okD [OF ok]
  have U: "held live = aspan (p, l) \<union> held (live - {(p, l)})" using x by (rule held_simps)
  have far: "aspan (p, l) \<inter> held (live - {(p, l)}) = {}" using D(5) [OF x] by (auto simp: held_def)
  have dj: "span (p, rounded l) \<inter> cover (head h) = {}" using D(6) U by (auto simp: aspan_def)
  note I = heap_insert_ok [OF D(1) D(4) [OF x] dj]
  have same: "regions ?h = regions h" "h_total ?h = h_total h" "donated ?h = donated h"
    by (simp_all add: heap_dealloc_def donated_def)
  have cov: "cover (head ?h) = cover (head h) \<union> aspan (p, l)" "blocks_ok (head ?h)"
    using I by (simp_all add: heap_dealloc_def aspan_def)
  have sum: "allocated ?h = (\<Sum>(p, l)\<in>live - {(p, l)}. rounded l)"
    using D(2,9) x by (simp add: heap_dealloc_def sum.remove [of live "(p, l)"])
  note parts = give_back [OF D(6,7,8) [unfolded U] far]
  show ?thesis
  proof (rule heap_okI)
    show "aspan y \<inter> aspan z = {}" if "y \<in> live - {(p, l)}" "z \<in> live - {(p, l)}" "y \<noteq> z" for y z
      using that D(5) by blast
  qed (use D cov(2) sum parts in \<open>auto simp: same cov(1)\<close>)
qed

lemma heap_full:
  assumes "heap_alloc l h = (0, h')" and "heap_ok (h, live, lost)" and "l_align l = 2 ^ k"
  shows "h' = h \<and> (\<forall>b\<in>set (head h). \<not> fits (max (l_align l) MIN_ALIGN) (rounded l) b)"
proof -
  let ?a = "max (l_align l) MIN_ALIGN"
  have a: "?a = 2 ^ max k 3" "MIN_ALIGN \<le> ?a"
    using max_of_mono [of "\<lambda>k. 2 ^ k :: nat" k 3] by (simp_all add: assms(3) MIN_ALIGN_def mono_def power_increasing)
  show ?thesis
  proof (cases "first_fit ?a (rounded l) [] (head h)")
    case None
    then have "h' = h" using assms(1) by (simp add: heap_alloc_def)
    then show ?thesis using first_fit_None [OF a(1), of "rounded l" "[]" "head h"] None by simp
  next
    case (Some r)
    then obtain fl where f: "first_fit ?a (rounded l) [] (head h) = Some (0, fl)"
      using assms(1) by (auto simp: heap_alloc_def split: prod.splits)
    have r: "block_ok (0, rounded l)" using rounded_props [of l] by (simp add: block_ok_def)
    from first_fit_Some [OF f _ a r] assms(2) obtain tail where
      "cover (head h) = cover fl \<union> span (0, rounded l + tail)" by (auto simp: heap_ok_def)
    then have "0 \<in> cover (head h)" using rounded_props(2) [of l] by (auto simp: span_def BLOCK_SIZE_def)
    then show ?thesis using assms(2) cover_subset_donated [OF assms(2)] by (auto simp: heap_ok_def)
  qed
qed

lemma heap_start_ok: "heap_start s \<Longrightarrow> heap_ok s"
  by (auto simp: heap_start_def heap_ok_def add_region_def Heap_new_def align_up_id MAX_REGIONS_def Let_def
      heap_insert_def merge_backward_def blocks_ok_Cons block_ok_def donated_def span_def)

interpretation heap_hist: invariant_of heap_start heap_step heap_ok
proof
  fix s t assume st: "heap_step s t" and ok: "heap_ok s"
  from st ok show "heap_ok t"
  proof (induction rule: heap_step.induct)
    case (full l h h' k live lost)
    then show ?case using heap_full [OF full(1,3,2)] by simp
  qed (auto intro: heap_alloc_ok heap_dealloc_ok)
qed (rule heap_start_ok)

section \<open>The structural check\<close>

definition entry_ok :: "heap \<Rightarrow> block \<Rightarrow> bool" where
  "entry_ok h = (\<lambda>(a, sz). a mod MIN_ALIGN = 0 \<and> BLOCK_SIZE \<le> sz \<and> sz \<le> h_total h \<and> (\<exists>(s, e)\<in>set (regions h). s \<le> a \<and> a + sz \<le> e))"

definition in_order :: "block \<Rightarrow> block \<Rightarrow> bool" where
  "in_order = (\<lambda>(a, sz) (b, _). a + sz \<le> b)"

lemma in_order_trans: "in_order x y \<Longrightarrow> in_order y z \<Longrightarrow> in_order x z"
  by (auto simp: in_order_def)

lemma check_loop_exact:
  assumes "blocks out + length bs \<le> 1000000" and "hc_error out = None"
  shows "(hc_error (check_loop h e out bs) = None \<longleftrightarrow>
      (\<forall>b\<in>set bs. entry_ok h b \<and> e \<le> fst b) \<and> sorted_wrt in_order bs)
    \<and> (hc_error (check_loop h e out bs) = None \<longrightarrow>
      free_bytes (check_loop h e out bs) = free_bytes out + sum_list (map snd bs)
      \<and> blocks (check_loop h e out bs) = blocks out + length bs)"
  using assms
proof (induction bs arbitrary: e out)
  case (Cons b bs)
  obtain a sz where b: "b = (a, sz)" by (cases b)
  let ?o = "out\<lparr>hc_at := a, free_bytes := free_bytes out + sz, blocks := blocks out + 1\<rparr>"
  have step: "check_loop h e out (b # bs) = check_loop h (a + sz) ?o bs" if "entry_ok h b" "e \<le> a"
    using that Cons.prems by (auto simp: b entry_ok_def Let_def list_ex_iff)
  have bad: "hc_error (check_loop h e out (b # bs)) \<noteq> None" if "\<not> (entry_ok h b \<and> e \<le> a)"
    using that by (auto simp: b entry_ok_def Let_def list_ex_iff)
  have sort: "(\<forall>c\<in>set bs. entry_ok h c \<and> a + sz \<le> fst c) \<and> sorted_wrt in_order bs \<and> entry_ok h b \<and> e \<le> a \<longleftrightarrow>
      (\<forall>c\<in>set (b # bs). entry_ok h c \<and> e \<le> fst c) \<and> sorted_wrt in_order (b # bs)"
    by (auto simp: b in_order_def)
  show ?case
  proof (cases "entry_ok h b \<and> e \<le> a")
    case True
    have "blocks ?o + length bs \<le> 1000000" "hc_error ?o = None" using Cons.prems by simp_all
    note IH = Cons.IH [OF this, of "a + sz"]
    show ?thesis unfolding sort [symmetric] step [OF True [THEN conjunct1] True [THEN conjunct2]]
      using IH True by (simp add: b)
  next
    case False
    with bad sort show ?thesis by blast
  qed
qed simp

lemma apart_in_order: "sorted_wrt apart bs \<Longrightarrow> sorted_wrt in_order bs"
  by (rule sorted_wrt_mono_rel [of _ apart]) (auto simp: apart_def in_order_def)

lemma card_cover: "blocks_ok bs \<Longrightarrow> card (cover bs) = sum_list (map snd bs)"
proof (induction bs)
  case (Cons b bs)
  have "span b \<inter> cover bs = {}" using cover_disjoint [of "[]" b bs] Cons.prems by simp
  moreover have "finite (cover bs)" by (auto simp: cover_def span_def)
  ultimately have "card (cover (b # bs)) = card (span b) + card (cover bs)"
    by (simp add: card_Un_disjoint span_def case_prod_beta)
  with Cons show ?case by (simp add: blocks_ok_Cons span_def case_prod_beta)
qed simp

lemma heap_ok_entries:
  assumes "heap_ok (h, live, lost)" and "b \<in> set (head h)"
  shows "entry_ok h b"
proof -
  note D = heap_okD [OF assms(1)]
  obtain a sz where b: "b = (a, sz)" by (cases b)
  obtain s e where r: "regions h = [(s, e)]" "h_total h = e - s" using D(10) by blast
  have ok: "block_ok (a, sz)" using D(1) assms(2) by (auto simp: blocks_ok_def b)
  have sub: "{a..<a + sz} \<subseteq> {s..<e}"
    using cover_subset_donated [OF assms(1)] assms(2) by (fastforce simp: cover_def b span_def donated_def r)
  moreover have "a \<in> {a..<a + sz}" using ok by (auto simp: block_ok_def BLOCK_SIZE_def)
  ultimately have "s \<le> a" "a + sz \<le> e" using atLeastLessThan_subset_iff [of a "a + sz" s e] by auto
  with ok show ?thesis by (auto simp: entry_ok_def b block_ok_def r)
qed

lemma card_held:
  assumes "heap_ok (h, live, lost)"
  shows "card (held live) = allocated h"
proof -
  note D = heap_okD [OF assms]
  have "card (held live) = (\<Sum>x\<in>live. card (aspan x))"
    unfolding held_def using D(2,5) by (intro card_UN_disjoint) (auto simp: aspan_def span_def)
  also have "\<dots> = allocated h" unfolding D(9) by (rule sum.cong) (auto simp: aspan_def span_def)
  finally show ?thesis .
qed

lemma heap_accounts:
  assumes "heap_ok (h, live, lost)"
  shows "sum_list (map snd (head h)) + allocated h + card lost = h_total h"
proof -
  note D = heap_okD [OF assms]
  obtain s e where r: "regions h = [(s, e)]" "h_total h = e - s" using D(10) by blast
  have fin: "finite (donated h)" by (auto simp: donated_def)
  then have f: "finite (cover (head h))" "finite (held live)" "finite lost"
    using D(8) by (metis finite_Un)+
  have "card (donated h) = card (cover (head h)) + card (held live) + card lost"
    unfolding D(8) [symmetric] using f D(6,7) by (subst card_Un_disjoint, auto)+
  then show ?thesis using card_cover [OF D(1)] card_held [OF assms] by (simp add: donated_def r)
qed

section \<open>Properties\<close>

text \<open>
  C12: In every history of allocations and frees, a non-null pointer is aligned as asked, its bytes
  lie in donated memory and overlap no live allocation; a null pointer means that no free block fits
  and changes nothing; and free bytes, bytes handed out and lost tails add up to what was donated.
\<close>

theorem heap_histories:
  assumes "reach heap_start heap_step (h, live, lost)" and "heap_alloc l h = (p, h')" and "l_align l = 2 ^ k"
  shows "(if p = 0 then h' = h \<and> (\<forall>b\<in>set (head h). \<not> fits (max (l_align l) MIN_ALIGN) (rounded l) b)
      else p mod l_align l = 0 \<and> span (p, l_size l) \<subseteq> donated h
        \<and> (\<forall>(q, m)\<in>live. span (p, l_size l) \<inter> span (q, l_size m) = {}))
    \<and> sum_list (map snd (head h)) + allocated h + card lost = h_total h"
proof -
  have ok: "heap_ok (h, live, lost)" using assms(1) by (rule heap_hist.inv_reach)
  have sub: "span (q, l_size m) \<subseteq> aspan (q, m)" for q m
    using rounded_props(1) [of m] by (auto simp: aspan_def span_def)
  show ?thesis
  proof (cases "p = 0")
    case True
    then show ?thesis using heap_full [OF _ ok assms(3)] assms(2) heap_accounts [OF ok] by simp
  next
    case False
    have "span (p, l_size l) \<inter> span (q, l_size m) = {}" if "(q, m) \<in> live" for q m
      using heap_alloc_ok(2) [OF ok assms(2) False assms(3)] that sub [of p l] sub [of q m] by blast
    moreover note heap_alloc_ok(3,4) [OF ok assms(2) False assms(3)] heap_accounts [OF ok] sub [of p l]
    ultimately show ?thesis using False by auto
  qed
qed

definition demo_heap :: heap where
  "demo_heap = add_region 4096 64 Heap_new"

lemma heap_startI: "0 < a \<Longrightarrow> a mod 8 = 0 \<Longrightarrow> n mod 8 = 0 \<Longrightarrow> 16 \<le> n \<Longrightarrow> heap_start (add_region a n Heap_new, {}, {})"
  unfolding heap_start_def prod.case MIN_ALIGN_def BLOCK_SIZE_def
  by (intro conjI refl exI [of _ a] exI [of _ n]) assumption+

lemma fresh_heap:
  assumes "a mod 8 = 0" "16 \<le> n"
  shows "add_region a n Heap_new = \<lparr>head = [(a, n)], h_total = n, allocated = 0, regions = [(a, a + n)]\<rparr>"
  using assms by (simp add: add_region_def align_up_id [unfolded MIN_ALIGN_def] MIN_ALIGN_def BLOCK_SIZE_def
      Heap_new_def MAX_REGIONS_def heap_insert_def merge_backward_def)

lemma rounded_id: "16 \<le> l_size l \<Longrightarrow> l_size l mod 8 = 0 \<Longrightarrow> rounded l = l_size l"
  by (simp add: rounded_def BLOCK_SIZE_def align_up_id [unfolded MIN_ALIGN_def] MIN_ALIGN_def max_def)

theorem heap_histories_witness:
  "reach heap_start heap_step (demo_heap, {}, {}) \<and> fst (heap_alloc \<lparr>l_size = 24, l_align = 8\<rparr> demo_heap) = 4096
   \<and> sum_list (map snd (head demo_heap)) = 64"
proof -
  let ?l = "\<lparr>l_size = 24, l_align = 8\<rparr>"
  have h: "demo_heap = \<lparr>head = [(4096, 64)], h_total = 64, allocated = 0, regions = [(4096, 4160)]\<rparr>"
    unfolding demo_heap_def by (subst fresh_heap) simp_all
  have r: "reach heap_start heap_step (demo_heap, {}, {})"
    unfolding demo_heap_def by (intro reach_init heap_startI) simp_all
  have "align_up 4096 8 = 4096" using align_up_id [of 4096] by (simp add: MIN_ALIGN_def)
  moreover have "rounded ?l = 24" using rounded_id [of ?l] by simp
  ultimately have a: "fst (heap_alloc ?l demo_heap) = 4096"
    by (simp add: h heap_alloc_def MIN_ALIGN_def)
  from heap_histories [OF r surjective_pairing, of ?l 3] r a show ?thesis by (simp add: h)
qed

text \<open>
  \<open>check\<close> reports no error exactly when the free list is sorted and disjoint and every block is
  aligned, of a possible size and inside a donated region. A heap that was only used through its
  interface always passes, and what \<open>check\<close> counts as free then completes the account of the heap.
\<close>

theorem heap_check_exact:
  assumes "length (head h) \<le> 1000000"
  shows "(hc_error (heap_check h) = None \<longleftrightarrow> (\<forall>b\<in>set (head h). entry_ok h b) \<and> sorted_wrt in_order (head h))
    \<and> (reach heap_start heap_step (h, live, lost) \<longrightarrow> hc_error (heap_check h) = None
        \<and> free_bytes (heap_check h) + allocated h + card lost = h_total h)"
proof -
  have C: "(hc_error (heap_check h) = None \<longleftrightarrow> (\<forall>b\<in>set (head h). entry_ok h b) \<and> sorted_wrt in_order (head h))
      \<and> (hc_error (heap_check h) = None \<longrightarrow> free_bytes (heap_check h) = sum_list (map snd (head h)))"
    using check_loop_exact [of "\<lparr>blocks = 0, free_bytes = 0, hc_error = None, hc_at = 0\<rparr>" "head h" h 0] assms
    by (simp add: heap_check_def)
  show ?thesis
  proof (intro conjI impI)
    assume "reach heap_start heap_step (h, live, lost)"
    then have ok: "heap_ok (h, live, lost)" by (rule heap_hist.inv_reach)
    have "\<forall>b\<in>set (head h). entry_ok h b" using heap_ok_entries [OF ok] by blast
    moreover have "sorted_wrt in_order (head h)" using heap_okD(1) [OF ok] by (simp add: blocks_ok_def apart_in_order)
    ultimately have n: "hc_error (heap_check h) = None" using C by blast
    show "hc_error (heap_check h) = None" by (rule n)
    show "free_bytes (heap_check h) + allocated h + card lost = h_total h"
      using C n heap_accounts [OF ok] by simp
  qed (use C in blast)
qed

theorem heap_check_exact_witness:
  "length (head demo_heap) \<le> 1000000 \<and> hc_error (heap_check demo_heap) = None \<and> free_bytes (heap_check demo_heap) = 64"
proof -
  have h: "demo_heap = \<lparr>head = [(4096, 64)], h_total = 64, allocated = 0, regions = [(4096, 4160)]\<rparr>"
    unfolding demo_heap_def by (subst fresh_heap) simp_all
  have r: "reach heap_start heap_step (demo_heap, {}, {})"
    unfolding demo_heap_def by (intro reach_init heap_startI) simp_all
  show ?thesis using heap_check_exact [of demo_heap "{}" "{}"] r by (simp add: h)
qed

text \<open>
  A tail smaller than a block header is neither handed out nor kept: freeing the allocation does
  not bring it back. On a fresh heap whose size is eight bytes more than an allocation, one
  allocate and free leaves nothing allocated and eight bytes gone, and the request the whole heap
  could serve before now fails.
\<close>

theorem heap_tail_lost:
  "let h0 = add_region (8 * Suc s) (24 + 8 * n) Heap_new; l = \<lparr>l_size = 16 + 8 * n, l_align = 8\<rparr>;
       whole = \<lparr>l_size = 24 + 8 * n, l_align = 8\<rparr>; (p, h1) = heap_alloc l h0; h2 = heap_dealloc p l h1
   in fst (heap_alloc whole h0) \<noteq> 0 \<and> p \<noteq> 0 \<and> allocated h2 = 0 \<and> head h2 = [(8 * Suc s, 16 + 8 * n)]
     \<and> fst (heap_alloc whole h2) = 0 \<and> h_total h2 = 24 + 8 * n"
proof -
  let ?l = "\<lparr>l_size = 16 + 8 * n, l_align = 8\<rparr>" and ?w = "\<lparr>l_size = 24 + 8 * n, l_align = 8\<rparr>"
  define a where "a = 8 * Suc s"
  have a: "a mod 8 = 0" "a \<noteq> 0" "align_up a 8 = a"
    using align_up_id [of a] by (simp_all add: a_def MIN_ALIGN_def)
  have r: "rounded ?l = 16 + 8 * n" "rounded ?w = 24 + 8 * n" by (simp_all add: rounded_id)
  define h0 where "h0 = add_region a (24 + 8 * n) Heap_new"
  have h0: "h0 = \<lparr>head = [(a, 24 + 8 * n)], h_total = 24 + 8 * n, allocated = 0, regions = [(a, a + (24 + 8 * n))]\<rparr>"
    unfolding h0_def by (rule fresh_heap) (simp_all add: a)
  have 1: "heap_alloc ?l h0 = (a, h0\<lparr>head := [], allocated := 16 + 8 * n\<rparr>)"
    by (simp add: heap_alloc_def r h0 MIN_ALIGN_def BLOCK_SIZE_def a)
  have 2: "heap_dealloc a ?l (h0\<lparr>head := [], allocated := 16 + 8 * n\<rparr>) = h0\<lparr>head := [(a, 16 + 8 * n)], allocated := 0\<rparr>"
    by (simp add: heap_dealloc_def r heap_insert_def merge_backward_def)
  have 3: "fst (heap_alloc ?w h0) = a" by (simp add: heap_alloc_def r h0 MIN_ALIGN_def BLOCK_SIZE_def a)
  have 4: "fst (heap_alloc ?w (h0\<lparr>head := [(a, 16 + 8 * n)], allocated := 0\<rparr>)) = 0"
    by (simp add: heap_alloc_def r MIN_ALIGN_def BLOCK_SIZE_def a)
  show ?thesis
    unfolding a_def [symmetric] h0_def [symmetric] Let_def 1 prod.case 2 using 3 4 a by (simp add: h0)
qed

end
