(* ===== verification/Sync.thy ===== *)
theory Sync
  imports Prelude
begin

text \<open>
  The spin lock of \<open>kernel/src/sync.rs\<close>, one step per instruction that matters. A core is a stack of
  contexts: the thread it runs and, above it, the interrupt handlers that interrupted one another.
  Each context is outside the lock, somewhere inside \<open>lock\<close> or \<open>try_lock\<close>, or holding the guard with
  the interrupt mask it saved. An interrupt can arrive whenever the core does not mask them.

  Shown, for any number of cores: at most one context in the whole machine holds the lock and the
  flag says so; and a core that waits for the lock never holds it itself underneath, which is the
  deadlock the mask is there to prevent.
\<close>

section \<open>The code\<close>

text \<open>The interrupt mask of a core; the saved \<open>DAIF\<close> value of \<open>irq_save\<close>.\<close>

type_synonym daif = bool

datatype lock_ctx =
    Out
  | Read daif          \<comment> \<open>\<open>mrs daif\<close> done, \<open>msr daifset\<close> not yet; \<open>lock\<close>\<close>
  | Spinning daif      \<comment> \<open>masked, in the \<open>compare_exchange_weak\<close> loop\<close>
  | ReadTry daif       \<comment> \<open>the same two points of \<open>try_lock\<close>\<close>
  | Trying daif
  | Holding daif       \<comment> \<open>a \<open>SpinGuard\<close> exists\<close>
  | Released daif      \<comment> \<open>\<open>drop\<close>: flag stored, mask not yet restored\<close>

record core =
  masked :: bool
  ctxs :: "lock_ctx list"

record lock_world =
  locked :: bool
  cores :: "nat \<Rightarrow> core"

text \<open>One step of the running context of core \<open>c\<close>: the function is deterministic but for the choice of what to do outside the lock.\<close>

definition set_ctx :: "nat \<Rightarrow> lock_ctx \<Rightarrow> bool \<Rightarrow> lock_world \<Rightarrow> lock_world" where
  "set_ctx c x m w = w\<lparr>cores := (cores w)(c := \<lparr>masked = m, ctxs = x # tl (ctxs (cores w c))\<rparr>)\<rparr>"

text \<open>\<open>irq_save\<close> is two instructions, and an interrupt may arrive between them.\<close>

definition irq_save_read :: "nat \<Rightarrow> (daif \<Rightarrow> lock_ctx) \<Rightarrow> lock_world \<Rightarrow> lock_world" where
  "irq_save_read c k w = set_ctx c (k (masked (cores w c))) (masked (cores w c)) w"

definition irq_save_mask :: "nat \<Rightarrow> lock_ctx \<Rightarrow> lock_world \<Rightarrow> lock_world" where
  "irq_save_mask c x w = set_ctx c x True w"

definition irq_restore :: "nat \<Rightarrow> daif \<Rightarrow> lock_ctx \<Rightarrow> lock_world \<Rightarrow> lock_world" where
  "irq_restore c daif x w = set_ctx c x daif w"

text \<open>\<open>compare_exchange(false, true)\<close>: whether it succeeded, and the flag after it.\<close>

definition compare_exchange :: "lock_world \<Rightarrow> bool \<times> lock_world" where
  "compare_exchange w = (if locked w then (False, w) else (True, w\<lparr>locked := True\<rparr>))"

inductive lock_step :: "lock_world \<Rightarrow> lock_world \<Rightarrow> bool" where
  lock: "ctxs (cores w c) = Out # r \<Longrightarrow> lock_step w (irq_save_read c Read w)"
| try_lock: "ctxs (cores w c) = Out # r \<Longrightarrow> lock_step w (irq_save_read c ReadTry w)"
| mask: "ctxs (cores w c) = Read d # r \<Longrightarrow> lock_step w (irq_save_mask c (Spinning d) w)"
| mask_try: "ctxs (cores w c) = ReadTry d # r \<Longrightarrow> lock_step w (irq_save_mask c (Trying d) w)"
| cas: "ctxs (cores w c) = Spinning d # r \<Longrightarrow> compare_exchange w = (ok, w') \<Longrightarrow>
    lock_step w (set_ctx c (if ok then Holding d else Spinning d) True w')"
| spurious: "ctxs (cores w c) = Spinning d # r \<Longrightarrow> lock_step w (set_ctx c (Spinning d) True w)"
| cas_try: "ctxs (cores w c) = Trying d # r \<Longrightarrow> compare_exchange w = (ok, w') \<Longrightarrow>
    lock_step w (if ok then set_ctx c (Holding d) True w' else irq_restore c d Out w')"
| drop_store: "ctxs (cores w c) = Holding d # r \<Longrightarrow> lock_step w ((set_ctx c (Released d) True w)\<lparr>locked := False\<rparr>)"
| drop_restore: "ctxs (cores w c) = Released d # r \<Longrightarrow> lock_step w (irq_restore c d Out w)"
| interrupt: "\<not> masked (cores w c) \<Longrightarrow>
    lock_step w (w\<lparr>cores := (cores w)(c := \<lparr>masked = True, ctxs = Out # ctxs (cores w c)\<rparr>)\<rparr>)"
| unmask: "ctxs (cores w c) = Out # r \<Longrightarrow> lock_step w (set_ctx c Out False w)"
| eret: "ctxs (cores w c) = Out # x # r \<Longrightarrow>
    lock_step w (w\<lparr>cores := (cores w)(c := \<lparr>masked = False, ctxs = x # r\<rparr>)\<rparr>)"

definition lock_boot :: "lock_world \<Rightarrow> bool" where
  "lock_boot w \<longleftrightarrow> \<not> locked w \<and> (\<forall>c. ctxs (cores w c) = [Out])"

section \<open>The invariant\<close>

text \<open>
  An interrupted context is one that was running unmasked, so it is outside the lock or between the
  two instructions of \<open>irq_save\<close> with an unmasked value read. Everything else is on top of the stack.
\<close>

definition quiet :: "lock_ctx \<Rightarrow> bool" where
  "quiet x \<longleftrightarrow> x \<in> {Out, Read False, ReadTry False}"

definition busy :: "lock_ctx \<Rightarrow> bool" where
  "busy x \<longleftrightarrow> (\<exists>d. x \<in> {Spinning d, Trying d, Holding d, Released d})"

definition holding :: "core \<Rightarrow> bool" where
  "holding k \<longleftrightarrow> (\<exists>d. Holding d \<in> set (ctxs k))"

definition core_ok :: "core \<Rightarrow> bool" where
  "core_ok k \<longleftrightarrow> ctxs k \<noteq> [] \<and> (\<forall>x\<in>set (tl (ctxs k)). quiet x) \<and> (busy (hd (ctxs k)) \<longrightarrow> masked k)
     \<and> (\<forall>d. hd (ctxs k) \<in> {Read d, ReadTry d} \<longrightarrow> d = masked k)"

definition lock_inv :: "lock_world \<Rightarrow> bool" where
  "lock_inv w \<longleftrightarrow> (\<forall>c. core_ok (cores w c)) \<and> (\<forall>c c'. holding (cores w c) \<and> holding (cores w c') \<longrightarrow> c = c')
     \<and> (locked w \<longleftrightarrow> (\<exists>c. holding (cores w c)))"

lemma holding_top: "core_ok k \<Longrightarrow> holding k \<longleftrightarrow> (\<exists>d. hd (ctxs k) = Holding d)"
  by (cases "ctxs k") (force simp: core_ok_def holding_def quiet_def)+

lemma quiet_not_busy: "quiet x \<Longrightarrow> \<not> busy x"
  by (auto simp: quiet_def busy_def)

lemma busy_top:
  assumes "core_ok k" and "i < length (ctxs k)" and "busy (ctxs k ! i)"
  shows "i = 0 \<and> masked k"
proof (cases i)
  case 0
  with assms show ?thesis by (simp add: core_ok_def hd_conv_nth)
next
  case (Suc j)
  with assms(2) have "ctxs k ! i = tl (ctxs k) ! j" "j < length (tl (ctxs k))" by (simp_all add: nth_tl)
  then have "ctxs k ! i \<in> set (tl (ctxs k))" by simp
  then have "quiet (ctxs k ! i)" using assms(1) by (simp add: core_ok_def)
  with assms(3) quiet_not_busy show ?thesis by blast
qed

lemma set_ctx_simps [simp]:
  "locked (set_ctx c x m w) = locked w"
  "cores (set_ctx c x m w) = (cores w)(c := \<lparr>masked = m, ctxs = x # tl (ctxs (cores w c))\<rparr>)"
  by (simp_all add: set_ctx_def)

text \<open>
  A step of one core keeps the invariant when the core stays well formed and the flag moves with the
  guard: taking it requires the flag to be clear, and only its holder clears it.
\<close>

lemma lock_inv_local:
  assumes inv: "lock_inv w" and others: "cores w' = (cores w)(c := k)" and ok: "core_ok k"
    and flag: "locked w' = (if holding k = holding (cores w c) then locked w else holding k)"
    and take: "holding k \<Longrightarrow> holding (cores w c) \<or> \<not> locked w"
  shows "lock_inv w'"
proof -
  have others': "cores w' d = cores w d" if "d \<noteq> c" for d using that others by simp
  have one: "d = e" if "holding (cores w d)" "holding (cores w e)" for d e using inv that by (auto simp: lock_inv_def)
  have lk: "locked w \<longleftrightarrow> (\<exists>d. holding (cores w d))" using inv by (simp add: lock_inv_def)
  have cores_ok: "\<forall>d. core_ok (cores w' d)" using inv ok others by (auto simp: lock_inv_def)
  have h: "holding (cores w' d) \<longleftrightarrow> (if d = c then holding k else holding (cores w d))" for d
    using others by simp
  have excl: "\<not> holding (cores w d)" if "holding k" "d \<noteq> c" for d
    using take [OF that(1)] one [of d c] that(2) lk by blast
  have "locked w' \<longleftrightarrow> (\<exists>d. holding (cores w' d))"
  proof (cases "holding k")
    case True
    then have "locked w'" using flag lk by auto
    moreover have "holding (cores w' c)" using True by (simp add: h)
    ultimately show ?thesis by blast
  next
    case nk: False
    show ?thesis
    proof (cases "holding (cores w c)")
      case True
      then have "\<not> holding (cores w' d)" for d using one [of d c] nk by (auto simp: h)
      with True nk flag show ?thesis by simp
    next
      case False
      then have "holding (cores w' d) = holding (cores w d)" for d using nk by (simp add: h)
      with False nk flag lk show ?thesis by simp
    qed
  qed
  moreover have "d = e" if "holding (cores w' d)" "holding (cores w' e)" for d e
    using that one [of d e] excl unfolding h by (auto split: if_splits)
  ultimately show ?thesis using cores_ok by (auto simp: lock_inv_def)
qed

lemma core_ok_top:
  assumes "core_ok k" and "ctxs k \<noteq> []" and "busy x \<longrightarrow> m" and "\<forall>d. x \<in> {Read d, ReadTry d} \<longrightarrow> d = m"
  shows "core_ok \<lparr>masked = m, ctxs = x # tl (ctxs k)\<rparr>" and "holding \<lparr>masked = m, ctxs = x # tl (ctxs k)\<rparr> \<longleftrightarrow> (\<exists>d. x = Holding d)"
proof -
  show ok: "core_ok \<lparr>masked = m, ctxs = x # tl (ctxs k)\<rparr>" using assms by (auto simp: core_ok_def)
  show "holding \<lparr>masked = m, ctxs = x # tl (ctxs k)\<rparr> \<longleftrightarrow> (\<exists>d. x = Holding d)" using holding_top [OF ok] by simp
qed

lemma lock_inv_set_ctx:
  assumes inv: "lock_inv w" and "ctxs (cores w c) = y # r" and x: "busy x \<longrightarrow> m" "\<forall>d. x \<in> {Read d, ReadTry d} \<longrightarrow> d = m"
    and w': "cores w' = (cores w)(c := \<lparr>masked = m, ctxs = x # tl (ctxs (cores w c))\<rparr>)"
    and flag: "locked w' = (if (\<exists>d. x = Holding d) = (\<exists>d. y = Holding d) then locked w else (\<exists>d. x = Holding d))"
    and "(\<exists>d. x = Holding d) \<Longrightarrow> (\<exists>d. y = Holding d) \<or> \<not> locked w"
  shows "lock_inv w'"
proof -
  have ok: "core_ok (cores w c)" using inv by (simp add: lock_inv_def)
  have hy: "holding (cores w c) \<longleftrightarrow> (\<exists>d. y = Holding d)" using holding_top [OF ok] assms(2) by simp
  note T = core_ok_top [OF ok _ x]
  show ?thesis
    by (rule lock_inv_local [OF inv w' T(1)]) (use assms T hy in auto)
qed

lemmas lock_code = irq_save_read_def irq_save_mask_def irq_restore_def compare_exchange_def busy_def

lemma lock_inv_step: "lock_step w w' \<Longrightarrow> lock_inv w \<Longrightarrow> lock_inv w'"
proof (induction rule: lock_step.induct)
  case (cas w c d r ok w')
  then have ok: "ok = (\<not> locked w)" "cores w' = cores w" "locked w'" by (auto simp: compare_exchange_def split: if_splits)
  show ?case
    by (rule lock_inv_set_ctx [OF cas(3) cas(1), where x = "if ok then Holding d else Spinning d" and m = True])
      (simp_all add: ok split: if_splits)
next
  case (cas_try w c d r ok w')
  then have ok: "ok = (\<not> locked w)" "cores w' = cores w" "locked w'" by (auto simp: compare_exchange_def split: if_splits)
  show ?case
    by (rule lock_inv_set_ctx [OF cas_try(3) cas_try(1), where x = "if ok then Holding d else Out" and m = "ok \<or> d"])
      (auto simp: ok busy_def irq_restore_def split: if_splits)
next
  case (interrupt w c)
  have ok: "core_ok (cores w c)" using interrupt(2) by (simp add: lock_inv_def)
  let ?k = "\<lparr>masked = True, ctxs = Out # ctxs (cores w c)\<rparr>"
  have q: "quiet (hd (ctxs (cores w c)))"
    using ok interrupt(1) by (cases "hd (ctxs (cores w c))") (auto simp: core_ok_def quiet_def busy_def)
  have k: "core_ok ?k" using ok q by (cases "ctxs (cores w c)") (auto simp: core_ok_def busy_def)
  have "\<not> holding ?k" "\<not> holding (cores w c)"
    using holding_top [OF k] holding_top [OF ok] q by (auto simp: quiet_def)
  then show ?case using lock_inv_local [OF interrupt(2) _ k] by auto
next
  case (eret w c x r)
  have ok: "core_ok (cores w c)" using eret(2) by (simp add: lock_inv_def)
  let ?k = "\<lparr>masked = False, ctxs = x # r\<rparr>"
  have q: "quiet x" using ok eret(1) by (simp add: core_ok_def)
  have k: "core_ok ?k" using ok q eret(1) by (auto simp: core_ok_def quiet_def busy_def)
  have "\<not> holding ?k" "\<not> holding (cores w c)"
    using holding_top [OF k] holding_top [OF ok] q eret(1) by (auto simp: quiet_def)
  then show ?case using lock_inv_local [OF eret(2) _ k] by auto
next
  case (lock w c r)
  show ?case
    by (rule lock_inv_set_ctx [OF lock(2,1), where x = "Read (masked (cores w c))" and m = "masked (cores w c)"]) (simp_all add: lock_code)
next
  case (try_lock w c r)
  show ?case
    by (rule lock_inv_set_ctx [OF try_lock(2,1), where x = "ReadTry (masked (cores w c))" and m = "masked (cores w c)"]) (simp_all add: lock_code)
next
  case (mask w c d r)
  show ?case
    by (rule lock_inv_set_ctx [OF mask(2,1), where x = "Spinning d" and m = "True"]) (simp_all add: lock_code)
next
  case (mask_try w c d r)
  show ?case
    by (rule lock_inv_set_ctx [OF mask_try(2,1), where x = "Trying d" and m = "True"]) (simp_all add: lock_code)
next
  case (spurious w c d r)
  show ?case
    by (rule lock_inv_set_ctx [OF spurious(2,1), where x = "Spinning d" and m = "True"]) (simp_all add: lock_code)
next
  case (drop_store w c d r)
  show ?case
    by (rule lock_inv_set_ctx [OF drop_store(2,1), where x = "Released d" and m = "True"]) (simp_all add: lock_code)
next
  case (drop_restore w c d r)
  show ?case
    by (rule lock_inv_set_ctx [OF drop_restore(2,1), where x = "Out" and m = "d"]) (simp_all add: lock_code)
next
  case (unmask w c r)
  show ?case
    by (rule lock_inv_set_ctx [OF unmask(2,1), where x = "Out" and m = "False"]) (simp_all add: lock_code)
qed

interpretation spin: invariant_of lock_boot lock_step lock_inv
  by standard (simp add: lock_boot_def lock_inv_def core_ok_def busy_def holding_def, rule lock_inv_step)

section \<open>Properties\<close>

definition all_ctxs :: "lock_world \<Rightarrow> nat \<Rightarrow> lock_ctx list" where
  "all_ctxs w c = ctxs (cores w c)"

text \<open>
  C16: Mutual exclusion without self-deadlock. In every reachable state of any number of cores taking
  interrupts at any unmasked instruction: two guards never exist at once, on one core or on two; the
  flag is set exactly while a guard exists; a core inside the lock has interrupts masked; and when a
  core spins, no context under the spinning one holds the lock, so what it waits for is held by a
  core that can run.
\<close>

theorem spinlock_exclusive:
  assumes "reach lock_boot lock_step w"
  shows "(\<forall>c c' i j d d'. i < length (all_ctxs w c) \<and> j < length (all_ctxs w c') \<and> all_ctxs w c ! i = Holding d
        \<and> all_ctxs w c' ! j = Holding d' \<longrightarrow> c = c' \<and> i = 0 \<and> j = 0)
    \<and> (locked w \<longleftrightarrow> (\<exists>c d. Holding d \<in> set (all_ctxs w c)))
    \<and> (\<forall>c d. Holding d \<in> set (all_ctxs w c) \<longrightarrow> masked (cores w c))
    \<and> (\<forall>c d d'. Spinning d \<in> set (all_ctxs w c) \<longrightarrow> Holding d' \<notin> set (all_ctxs w c))"
proof -
  have inv: "lock_inv w" using assms by (rule spin.inv_reach)
  then have ok: "core_ok (cores w c)" for c by (simp add: lock_inv_def)
  have top: "i = 0 \<and> masked (cores w c)" if "i < length (all_ctxs w c)" "busy (all_ctxs w c ! i)" for i c
    using busy_top [OF ok [of c]] that by (simp add: all_ctxs_def)
  have b: "busy (Holding d)" "busy (Spinning d)" for d by (simp_all add: busy_def)
  have first: "all_ctxs w c ! 0 = x \<and> masked (cores w c)" if x: "x \<in> set (all_ctxs w c)" "busy x" for x c
  proof -
    obtain i where "i < length (all_ctxs w c)" "all_ctxs w c ! i = x" using x(1) by (auto simp: in_set_conv_nth)
    with top [of i c] x(2) show ?thesis by auto
  qed
  have hold: "holding (cores w c) \<longleftrightarrow> (\<exists>d. Holding d \<in> set (all_ctxs w c))" for c
    by (simp add: holding_def all_ctxs_def)
  show ?thesis
  proof (intro conjI allI impI)
    fix c c' i j d d'
    assume a: "i < length (all_ctxs w c) \<and> j < length (all_ctxs w c') \<and> all_ctxs w c ! i = Holding d \<and> all_ctxs w c' ! j = Holding d'"
    then have "holding (cores w c)" "holding (cores w c')" unfolding hold using nth_mem [of i "all_ctxs w c"] nth_mem [of j "all_ctxs w c'"] by auto
    then show "c = c'" using inv by (simp add: lock_inv_def)
    show "i = 0" "j = 0" using a top [of i c] top [of j c'] b(1) by simp_all
  next
    show "locked w \<longleftrightarrow> (\<exists>c d. Holding d \<in> set (all_ctxs w c))" using inv hold by (auto simp: lock_inv_def)
  next
    fix c d assume "Holding d \<in> set (all_ctxs w c)"
    then show "masked (cores w c)" using first b(1) by blast
  next
    fix c d d' assume s: "Spinning d \<in> set (all_ctxs w c)"
    show "Holding d' \<notin> set (all_ctxs w c)"
    proof
      assume "Holding d' \<in> set (all_ctxs w c)"
      then have "all_ctxs w c ! 0 = Holding d'" using first b(1) by blast
      moreover have "all_ctxs w c ! 0 = Spinning d" using s first b(2) by blast
      ultimately show False by simp
    qed
  qed
qed

definition lock_boot_world :: lock_world where
  "lock_boot_world = \<lparr>locked = False, cores = \<lambda>_. \<lparr>masked = False, ctxs = [Out]\<rparr>\<rparr>"

theorem spinlock_exclusive_witness:
  "reach lock_boot lock_step (irq_save_read 0 Read lock_boot_world) \<and> \<not> locked (irq_save_read 0 Read lock_boot_world)"
proof -
  have "reach lock_boot lock_step lock_boot_world"
    by (rule reach_init) (simp add: lock_boot_def lock_boot_world_def)
  then have r: "reach lock_boot lock_step (irq_save_read 0 Read lock_boot_world)"
    by (rule reach_step) (rule lock_step.lock, simp add: lock_boot_world_def)
  from spinlock_exclusive [OF r] r show ?thesis
    by (auto simp: irq_save_read_def lock_boot_world_def)
qed

end
