(* ===== verification/Sched.thy ===== *)
theory Sched
  imports Heap Bytes
begin

text \<open>
  The scheduler of \<open>kernel/src/sched/mod.rs\<close> with the per-core blocks of \<open>kernel/src/smp.rs\<close>. The
  thread table and all cores are one record. \<open>schedule\<close> is cut where other cores can interleave: the
  decision under the lock, the context switch, and \<open>finish_switch\<close> under the lock again; a core
  between two of them is in a \<open>phase\<close>. A pointer to a thread is its index in the table. The callee-saved
  registers and \<open>TTBR0\<close> of a core are fields of its block. The clock, the address of the trampoline and
  the empty user table are arguments.

  Shown, for any number of cores and any interleaving: no thread is ever on two cores; a context
  switch never loses or mixes the registers of a thread; a core runs user code only against the
  address space of its thread; only runnable threads are picked; and a thread that stays eligible
  is picked within one turn of the table.
\<close>

section \<open>Data\<close>

datatype State = New | Runnable | Sleeping nat | Blocked nat | Finished

record Context =
  regs :: "u64 list"
  x29 :: u64
  x30 :: u64
  sp :: u64

definition Context_empty :: Context where
  "Context_empty = \<lparr>regs = replicate 10 0, x29 = 0, x30 = 0, sp = 0\<rparr>"

definition Context_new :: "u64 \<Rightarrow> u64 \<Rightarrow> u64 \<Rightarrow> nat \<Rightarrow> Context" where
  "Context_new thread_trampoline entry arg stack_top =
     Context_empty\<lparr>regs := (replicate 10 0)[0 := entry, 1 := arg], x30 := thread_trampoline, sp := of_nat stack_top\<rparr>"

record Thread =
  t_id :: nat
  t_name :: bytes
  ctx :: Context
  state :: State
  slices :: nat
  on_cpu :: "nat option"
  affinity :: "nat option"
  service :: bool
  cpus_seen :: u64
  t_pid :: "nat option"
  ttbr0 :: u64
  stack_phys :: nat

datatype phase = Steady | Decided nat nat | Switched

record Cpu =
  c_id :: nat
  current :: nat
  idle :: nat
  cursor :: nat
  switches :: nat
  online :: bool
  release_prev :: "nat option"
  phase :: phase
  c_regs :: Context
  c_ttbr0 :: u64

record sched =
  threads :: "Thread list"
  cpus :: "nat \<Rightarrow> Cpu"
  STARTED :: bool
  IPI_READY :: bool
  kicks :: nat
  ram :: frames

definition STACK_PAGES :: nat where "STACK_PAGES = 4"
definition RESCHEDULE_SGI :: u32 where "RESCHEDULE_SGI = 0"

text \<open>\<open>Cpu::new\<close>.\<close>

definition Cpu_new :: Cpu where
  "Cpu_new = \<lparr>c_id = 0, current = 0, idle = 0, cursor = 0, switches = 0, online = False, release_prev = None,
     phase = Steady, c_regs = Context_empty, c_ttbr0 = 0\<rparr>"

definition upd_cpu :: "nat \<Rightarrow> (Cpu \<Rightarrow> Cpu) \<Rightarrow> sched \<Rightarrow> sched" where
  "upd_cpu c f s = s\<lparr>cpus := (cpus s)(c := f (cpus s c))\<rparr>"

definition upd_thread :: "nat \<Rightarrow> (Thread \<Rightarrow> Thread) \<Rightarrow> sched \<Rightarrow> sched" where
  "upd_thread t f s = (if t < length (threads s) then s\<lparr>threads := (threads s)[t := f (threads s ! t)]\<rparr> else s)"

section \<open>Creating threads\<close>

definition kick_others :: "sched \<Rightarrow> sched" where
  "kick_others s = (if IPI_READY s then s\<lparr>kicks := kicks s + 1\<rparr> else s)"

definition ipi_ready :: "sched \<Rightarrow> sched" where
  "ipi_ready s = s\<lparr>IPI_READY := True\<rparr>"

definition new_thread :: "nat \<Rightarrow> bytes \<Rightarrow> Context \<Rightarrow> nat option \<Rightarrow> u64 \<Rightarrow> nat \<Rightarrow> Thread" where
  "new_thread tid nm cx aff empty0 stk = \<lparr>t_id = tid, t_name = nm, ctx = cx, state = New, slices = 0, on_cpu = None,
     affinity = aff, service = False, cpus_seen = 0, t_pid = None, ttbr0 = empty0, stack_phys = stk\<rparr>"

definition spawn_pinned :: "u64 \<Rightarrow> u64 \<Rightarrow> bytes \<Rightarrow> u64 \<Rightarrow> u64 \<Rightarrow> nat option \<Rightarrow> sched \<Rightarrow> nat option \<times> sched" where
  "spawn_pinned tramp empty0 nm entry arg aff s =
    (case alloc_contiguous STACK_PAGES (ram s) of
       (None, fr) \<Rightarrow> (None, s\<lparr>ram := fr\<rparr>)
     | (Some stk, fr) \<Rightarrow>
         let stack_top = phys_to_virt (stk + STACK_PAGES * PAGE_SIZE); tid = length (threads s) in
         (Some tid, s\<lparr>ram := fr, threads := threads s @
            [new_thread tid nm (Context_new tramp entry arg stack_top) aff empty0 stk]\<rparr>))"

definition sched_start :: "nat \<Rightarrow> sched \<Rightarrow> sched" where
  "sched_start t s = kick_others (upd_thread t (\<lambda>th. if state th = New then th\<lparr>state := Runnable\<rparr> else th) s)"

definition spawn :: "u64 \<Rightarrow> u64 \<Rightarrow> bytes \<Rightarrow> u64 \<Rightarrow> u64 \<Rightarrow> sched \<Rightarrow> nat option \<times> sched" where
  "spawn tramp empty0 nm entry arg s = (case spawn_pinned tramp empty0 nm entry arg None s of
     (None, s) \<Rightarrow> (None, s) | (Some t, s) \<Rightarrow> (Some t, sched_start t s))"

definition spawn_stopped :: "u64 \<Rightarrow> u64 \<Rightarrow> bytes \<Rightarrow> u64 \<Rightarrow> u64 \<Rightarrow> sched \<Rightarrow> nat option \<times> sched" where
  "spawn_stopped tramp empty0 nm entry arg s = spawn_pinned tramp empty0 nm entry arg None s"

definition mark_service :: "nat \<Rightarrow> sched \<Rightarrow> sched" where
  "mark_service t s = upd_thread t (service_update (\<lambda>_. True)) s"

definition running_thread :: "nat \<Rightarrow> bytes \<Rightarrow> nat \<Rightarrow> nat option \<Rightarrow> u64 \<Rightarrow> Thread" where
  "running_thread tid nm c aff empty0 = \<lparr>t_id = tid, t_name = nm, ctx = Context_empty, state = Runnable, slices = 1,
     on_cpu = Some c, affinity = aff, service = False, cpus_seen = push_bit c 1, t_pid = None, ttbr0 = empty0, stack_phys = 0\<rparr>"

text \<open>\<open>init\<close> on core 0; \<open>None\<close> is the panic when there is no stack for the idle thread.\<close>

definition sched_init :: "u64 \<Rightarrow> u64 \<Rightarrow> u64 \<Rightarrow> sched \<Rightarrow> sched option" where
  "sched_init tramp empty0 idle_entry s =
    (let s = s\<lparr>threads := threads s @ [running_thread 0 (ascii ''boot'') 0 None empty0]\<rparr>;
         s = upd_cpu 0 (current_update (\<lambda>_. 0)) s in
     case spawn_pinned tramp empty0 (ascii ''idle0'') idle_entry 0 (Some 0) s of
       (None, s) \<Rightarrow> None
     | (Some i, s) \<Rightarrow> Some ((upd_cpu 0 (idle_update (\<lambda>_. i)) (sched_start i s))\<lparr>STARTED := True\<rparr>))"

definition idle_name :: "nat \<Rightarrow> bytes" where
  "idle_name c = (if 1 \<le> c \<and> c \<le> 7 then ascii ''idle'' @ [of_nat (48 + c)] else ascii ''idle'')"

definition adopt_as_idle :: "u64 \<Rightarrow> nat \<Rightarrow> sched \<Rightarrow> sched" where
  "adopt_as_idle empty0 c s = (let tid = length (threads s) in
     upd_cpu c (\<lambda>k. k\<lparr>current := tid, idle := tid, cursor := tid\<rparr>)
       (s\<lparr>threads := threads s @ [running_thread tid (idle_name c) c (Some c) empty0]\<rparr>))"

section \<open>Choosing and switching\<close>

definition eligible :: "Thread \<Rightarrow> nat \<Rightarrow> bool" where
  "eligible t cpu_id \<longleftrightarrow> state t = Runnable \<and> on_cpu t = None
     \<and> (case affinity t of Some a \<Rightarrow> a = cpu_id | None \<Rightarrow> True)"

definition pick_next :: "Thread list \<Rightarrow> Cpu \<Rightarrow> nat" where
  "pick_next ts cpu = (let n = length ts in
     case List.find (\<lambda>i. \<not> (i = idle cpu \<or> i = current cpu) \<and> eligible (ts ! i) (c_id cpu))
         (map (\<lambda>step. (cursor cpu + step) mod n) [1..<Suc n]) of
       Some i \<Rightarrow> i
     | None \<Rightarrow> if state (ts ! current cpu) = Runnable \<and> current cpu \<noteq> idle cpu then current cpu else idle cpu)"

definition claim :: "nat \<Rightarrow> Thread \<Rightarrow> Thread" where
  "claim c t = t\<lparr>on_cpu := Some c, slices := slices t + 1, cpus_seen := cpus_seen t OR push_bit c 1\<rparr>"

text \<open>\<open>schedule\<close> up to the release of the lock.\<close>

definition sched_decide :: "nat \<Rightarrow> sched \<Rightarrow> sched" where
  "sched_decide c s = (if \<not> STARTED s then s
     else let cpu = cpus s c; nxt = pick_next (threads s) cpu in
       if nxt = current cpu then s
       else let prev = current cpu in
         upd_cpu c (\<lambda>k. k\<lparr>release_prev := Some prev, cursor := nxt, current := nxt,
             switches := switches k + 1, phase := Decided prev nxt\<rparr>)
           (upd_thread nxt (claim (c_id cpu)) s))"

text \<open>The user table, then the registers.\<close>

definition cpu_switch_to :: "nat \<Rightarrow> sched \<Rightarrow> sched" where
  "cpu_switch_to c s = (case phase (cpus s c) of
     Decided prev nxt \<Rightarrow>
       let tb = (if ttbr0 (threads s ! nxt) \<noteq> ttbr0 (threads s ! prev) then ttbr0 (threads s ! nxt) else c_ttbr0 (cpus s c));
           s' = upd_thread prev (ctx_update (\<lambda>_. c_regs (cpus s c))) s
       in upd_cpu c (\<lambda>k. k\<lparr>c_regs := ctx (threads s' ! nxt), c_ttbr0 := tb, phase := Switched\<rparr>) s'
   | _ \<Rightarrow> s)"

definition finish_switch :: "nat \<Rightarrow> sched \<Rightarrow> sched" where
  "finish_switch c s = (case release_prev (cpus s c) of
     None \<Rightarrow> upd_cpu c (phase_update (\<lambda>_. Steady)) s
   | Some prev \<Rightarrow> upd_thread prev (on_cpu_update (\<lambda>_. None))
       (upd_cpu c (\<lambda>k. k\<lparr>release_prev := None, phase := Steady\<rparr>) s))"

text \<open>\<open>schedule\<close> when no other core runs in between.\<close>

definition schedule :: "nat \<Rightarrow> sched \<Rightarrow> sched" where
  "schedule c s = (let s' = sched_decide c s in
     case phase (cpus s' c) of Decided _ _ \<Rightarrow> finish_switch c (cpu_switch_to c s') | _ \<Rightarrow> s')"

section \<open>Sleeping, blocking and waking\<close>

definition with_current :: "nat \<Rightarrow> (Thread \<Rightarrow> Thread) \<Rightarrow> sched \<Rightarrow> sched" where
  "with_current c f s = upd_thread (current (cpus s c)) f s"

definition wake_sleeper :: "nat \<Rightarrow> Thread \<Rightarrow> Thread" where
  "wake_sleeper now t = (case state t of Sleeping until \<Rightarrow> if now \<ge> until then t\<lparr>state := Runnable\<rparr> else t | _ \<Rightarrow> t)"

text \<open>One pass: whether there is work, and the earliest deadline that is still ahead.\<close>

fun survey :: "nat \<Rightarrow> Thread list \<Rightarrow> bool \<times> nat option \<Rightarrow> bool \<times> nat option" where
  "survey now [] acc = acc"
| "survey now (t # ts) (work, earliest) = survey now ts (case state t of
     Sleeping until \<Rightarrow> if now \<ge> until then (True, earliest)
       else (work, Some (case earliest of None \<Rightarrow> until | Some e \<Rightarrow> min e until))
   | Runnable \<Rightarrow> (work \<or> affinity t = None, earliest)
   | _ \<Rightarrow> (work, earliest))"

definition wake_sleepers_and_survey :: "nat \<Rightarrow> sched \<Rightarrow> (bool \<times> nat option) \<times> sched" where
  "wake_sleepers_and_survey now s =
     (survey now (threads s) (False, None), s\<lparr>threads := map (wake_sleeper now) (threads s)\<rparr>)"

definition prepare_block :: "nat \<Rightarrow> nat \<Rightarrow> sched \<Rightarrow> sched" where
  "prepare_block c token s = with_current c (state_update (\<lambda>_. Blocked token)) s"

definition cancel_block :: "nat \<Rightarrow> sched \<Rightarrow> sched" where
  "cancel_block c s = with_current c (\<lambda>t. case state t of Blocked _ \<Rightarrow> t\<lparr>state := Runnable\<rparr> | _ \<Rightarrow> t) s"

text \<open>What \<open>block\<close> tests after every return of \<open>schedule\<close>.\<close>

definition still_blocked :: "nat \<Rightarrow> nat \<Rightarrow> sched \<Rightarrow> bool" where
  "still_blocked c token s \<longleftrightarrow> state (threads s ! current (cpus s c)) = Blocked token"

definition wake :: "nat \<Rightarrow> Thread \<Rightarrow> Thread" where
  "wake token t = (if state t = Blocked token then t\<lparr>state := Runnable\<rparr> else t)"

definition wake_all_on :: "nat \<Rightarrow> sched \<Rightarrow> sched" where
  "wake_all_on token s = (let woke = list_ex (\<lambda>t. state t = Blocked token) (threads s);
       s' = s\<lparr>threads := map (wake token) (threads s)\<rparr>
     in if woke then kick_others s' else s')"

text \<open>\<open>sleep_ticks\<close> up to its first call of \<open>schedule\<close>; \<open>thread_exit\<close> likewise.\<close>

definition sleep_ticks :: "nat \<Rightarrow> nat \<Rightarrow> nat \<Rightarrow> sched \<Rightarrow> sched" where
  "sleep_ticks c now n s = with_current c (state_update (\<lambda>_. Sleeping (now + n))) s"

definition thread_exit :: "nat \<Rightarrow> sched \<Rightarrow> sched" where
  "thread_exit c s = with_current c (state_update (\<lambda>_. Finished)) s"

definition attach_process :: "nat \<Rightarrow> nat \<Rightarrow> u64 \<Rightarrow> sched \<Rightarrow> sched" where
  "attach_process t pid tb s = upd_thread t (\<lambda>th. th\<lparr>t_pid := Some pid, ttbr0 := tb\<rparr>) s"

definition current_pid :: "nat \<Rightarrow> sched \<Rightarrow> nat option" where
  "current_pid c s = t_pid (threads s ! current (cpus s c))"

definition current_name :: "nat \<Rightarrow> sched \<Rightarrow> bytes" where
  "current_name c s = t_name (threads s ! current (cpus s c))"

definition live_count :: "sched \<Rightarrow> nat" where
  "live_count s = length (filter (\<lambda>t. affinity t = None \<and> \<not> service t \<and> state t \<noteq> Finished) (threads s))"

section \<open>All cores together\<close>

text \<open>
  A core in \<open>Steady\<close> phase runs the thread it is on, which may change its registers, call the
  scheduler, or change thread states; interrupts are masked in the other phases. Idle threads
  never block, sleep or exit, and a process is attached to a thread before it is started.
\<close>

inductive sched_step :: "sched \<Rightarrow> sched \<Rightarrow> bool" where
  decide: "online (cpus s c) \<Longrightarrow> phase (cpus s c) = Steady \<Longrightarrow> sched_step s (sched_decide c s)"
| switch: "online (cpus s c) \<Longrightarrow> phase (cpus s c) = Decided p n \<Longrightarrow> sched_step s (cpu_switch_to c s)"
| finish: "online (cpus s c) \<Longrightarrow> phase (cpus s c) = Switched \<Longrightarrow> sched_step s (finish_switch c s)"
| run: "online (cpus s c) \<Longrightarrow> phase (cpus s c) = Steady \<Longrightarrow> sched_step s (upd_cpu c (c_regs_update (\<lambda>_. x)) s)"
| stop: "online (cpus s c) \<Longrightarrow> phase (cpus s c) = Steady \<Longrightarrow> current (cpus s c) \<noteq> idle (cpus s c) \<Longrightarrow>
    s' \<in> {prepare_block c tok s, sleep_ticks c now n s, thread_exit c s} \<Longrightarrow> sched_step s s'"
| cancel: "online (cpus s c) \<Longrightarrow> phase (cpus s c) = Steady \<Longrightarrow> sched_step s (cancel_block c s)"
| wake: "sched_step s (wake_all_on tok s)"
| tick: "sched_step s (snd (wake_sleepers_and_survey now s))"
| spawned: "sched_step s (snd (spawn_stopped tramp empty0 nm entry arg s))"
| attach: "t < length (threads s) \<Longrightarrow> state (threads s ! t) = New \<Longrightarrow> sched_step s (attach_process t pid tb s)"
| started: "sched_step s (sched_start t s)"
| service: "sched_step s (mark_service t s)"
| ipi: "sched_step s (ipi_ready s)"
| secondary: "\<not> online (cpus s c) \<Longrightarrow> sched_step s (adopt_as_idle (c_ttbr0 (cpus s c))  c
    (upd_cpu c (\<lambda>k. k\<lparr>c_id := c, online := True, phase := Steady, release_prev := None\<rparr>) s))"

definition sched_boot :: "sched \<Rightarrow> bool" where
  "sched_boot s \<longleftrightarrow> (\<exists>tramp idle_entry fr tb x. sched_init tramp tb idle_entry
     \<lparr>threads = [], cpus = (\<lambda>c. Cpu_new\<lparr>online := c = 0, c_ttbr0 := tb, c_regs := x\<rparr>), STARTED = False,
       IPI_READY = False, kicks = 0, ram = fr\<rparr> = Some s)"

section \<open>The invariant\<close>

text \<open>The thread whose registers a core carries: the old one until the switch has happened.\<close>

definition owner :: "Cpu \<Rightarrow> nat" where
  "owner k = (case phase k of Decided p n \<Rightarrow> p | _ \<Rightarrow> current k)"

definition claims :: "Cpu \<Rightarrow> nat \<Rightarrow> bool" where
  "claims k t \<longleftrightarrow> online k \<and> (current k = t \<or> release_prev k = Some t)"

definition phase_ok :: "Cpu \<Rightarrow> bool" where
  "phase_ok k = (case phase k of
     Steady \<Rightarrow> release_prev k = None
   | Decided p n \<Rightarrow> release_prev k = Some p \<and> current k = n \<and> p \<noteq> n
   | Switched \<Rightarrow> \<exists>p. release_prev k = Some p \<and> p \<noteq> current k)"

definition core_inv :: "Thread list \<Rightarrow> nat \<Rightarrow> Cpu \<Rightarrow> bool" where
  "core_inv ts c k \<longleftrightarrow> current k < length ts \<and> idle k < length ts \<and> (\<forall>p. release_prev k = Some p \<longrightarrow> p < length ts)
     \<and> c_id k = c \<and> affinity (ts ! idle k) = Some c \<and> state (ts ! idle k) = Runnable \<and> phase_ok k
     \<and> c_ttbr0 k = ttbr0 (ts ! owner k)"

definition thread_inv :: "(nat \<Rightarrow> Cpu) \<Rightarrow> nat \<Rightarrow> Thread \<Rightarrow> bool" where
  "thread_inv cs t th \<longleftrightarrow> (\<forall>c. on_cpu th = Some c \<longleftrightarrow> claims (cs c) t)
     \<and> (\<forall>c. on_cpu th = Some c \<longrightarrow> affinity th = None \<or> affinity th = Some c)
     \<and> (state th = New \<longrightarrow> on_cpu th = None)"

definition sched_inv :: "sched \<Rightarrow> bool" where
  "sched_inv s \<longleftrightarrow> (\<forall>c. online (cpus s c) \<longrightarrow> core_inv (threads s) c (cpus s c))
     \<and> (\<forall>t<length (threads s). thread_inv (cpus s) t (threads s ! t))"

lemma upd_simps [simp]:
  "threads (upd_cpu c f s) = threads s" "cpus (upd_cpu c f s) = (cpus s)(c := f (cpus s c))"
  "cpus (upd_thread t g s) = cpus s" "length (threads (upd_thread t g s)) = length (threads s)"
  "STARTED (upd_cpu c f s) = STARTED s" "STARTED (upd_thread t g s) = STARTED s"
  by (simp_all add: upd_cpu_def upd_thread_def)

lemma nth_upd_thread: "i < length (threads s) \<Longrightarrow>
  threads (upd_thread t g s) ! i = (if i = t then g (threads s ! i) else threads s ! i)"
  by (simp add: upd_thread_def nth_list_update)

lemma sched_invD:
  assumes "sched_inv s"
  shows "online (cpus s c) \<Longrightarrow> core_inv (threads s) c (cpus s c)"
    and "t < length (threads s) \<Longrightarrow> thread_inv (cpus s) t (threads s ! t)"
  using assms by (simp_all add: sched_inv_def)

lemma claimsD: "sched_inv s \<Longrightarrow> claims (cpus s c) t \<Longrightarrow> t < length (threads s) \<and> on_cpu (threads s ! t) = Some c"
  using sched_invD(1) [of s c] sched_invD(2) [of s t] by (auto simp: claims_def core_inv_def thread_inv_def)

lemma owner_claims: "online k \<Longrightarrow> phase_ok k \<Longrightarrow> claims k (owner k)"
  by (auto simp: owner_def claims_def phase_ok_def split: phase.splits)

lemma current_claims: "online k \<Longrightarrow> claims k (current k)"
  by (simp add: claims_def)

text \<open>
  Operations that only change thread states: they keep who runs where, may not send an idle thread to
  sleep, and may not turn a thread that was started back into a new one.
\<close>

lemma sched_inv_states:
  assumes inv: "sched_inv s" and cs: "cpus s' = cpus s" and len: "length (threads s') = length (threads s)"
    and same: "\<And>t. t < length (threads s) \<Longrightarrow> on_cpu (threads s' ! t) = on_cpu (threads s ! t)
        \<and> affinity (threads s' ! t) = affinity (threads s ! t)
        \<and> (on_cpu (threads s ! t) \<noteq> None \<longrightarrow> ttbr0 (threads s' ! t) = ttbr0 (threads s ! t))
        \<and> (state (threads s' ! t) = New \<longrightarrow> state (threads s ! t) = New)"
    and idl: "\<And>c. online (cpus s c) \<Longrightarrow> state (threads s' ! idle (cpus s c)) = Runnable"
  shows "sched_inv s'"
proof -
  have "core_inv (threads s') c (cpus s c)" if on: "online (cpus s c)" for c
  proof -
    have k: "core_inv (threads s) c (cpus s c)" using sched_invD(1) [OF inv on] .
    then have "claims (cpus s c) (owner (cpus s c))" using on by (intro owner_claims) (auto simp: core_inv_def)
    from claimsD [OF inv this] same have "ttbr0 (threads s' ! owner (cpus s c)) = ttbr0 (threads s ! owner (cpus s c))"
      by simp
    with k same idl [OF on] show ?thesis by (auto simp: core_inv_def len)
  qed
  moreover have "thread_inv (cpus s) t (threads s' ! t)" if "t < length (threads s)" for t
    using sched_invD(2) [OF inv that] same [OF that] by (auto simp: thread_inv_def)
  ultimately show ?thesis by (simp add: sched_inv_def cs len)
qed

text \<open>An idle thread is on no core but its own.\<close>

lemma idle_elsewhere:
  assumes "sched_inv s" and "online (cpus s c)" and "online (cpus s d)" and "claims (cpus s c) (idle (cpus s d))"
  shows "c = d"
proof -
  have "on_cpu (threads s ! idle (cpus s d)) = Some c" "idle (cpus s d) < length (threads s)"
    using claimsD [OF assms(1,4)] by auto
  with sched_invD(2) [OF assms(1), of "idle (cpus s d)"] have "affinity (threads s ! idle (cpus s d)) \<in> {None, Some c}"
    by (auto simp: thread_inv_def)
  with sched_invD(1) [OF assms(1,3)] show ?thesis by (simp add: core_inv_def)
qed

lemma pick_next_free:
  assumes inv: "sched_inv s" and on: "online (cpus s c)" "phase (cpus s c) = Steady"
    and n: "n = pick_next (threads s) (cpus s c)" "n \<noteq> current (cpus s c)"
  shows "n < length (threads s)" "on_cpu (threads s ! n) = None" "state (threads s ! n) = Runnable"
    "affinity (threads s ! n) = None \<or> affinity (threads s ! n) = Some c"
proof -
  let ?k = "cpus s c" and ?ts = "threads s"
  have k: "core_inv ?ts c ?k" using sched_invD(1) [OF inv on(1)] .
  have "n < length ?ts \<and> on_cpu (?ts ! n) = None \<and> state (?ts ! n) = Runnable
      \<and> (affinity (?ts ! n) = None \<or> affinity (?ts ! n) = Some c)"
  proof (cases "List.find (\<lambda>i. \<not> (i = idle ?k \<or> i = current ?k) \<and> eligible (?ts ! i) (c_id ?k))
         (map (\<lambda>step. (cursor ?k + step) mod length ?ts) [1..<Suc (length ?ts)])")
    case (Some i)
    then obtain j where j: "j < length ?ts" "i = (cursor ?k + Suc j) mod length ?ts" "eligible (?ts ! i) (c_id ?k)"
      by (auto simp: find_Some_iff simp del: upt_Suc)
    then have "i < length ?ts" by (metis gr_implies_not0 mod_less_divisor not_gr_zero)
    with j k Some n(1) show ?thesis
      by (auto simp: pick_next_def eligible_def core_inv_def simp del: upt_Suc split: option.splits)
  next
    case None
    then have i: "n = idle ?k" using n by (auto simp: pick_next_def Let_def simp del: upt_Suc split: if_splits)
    have "\<not> claims (cpus s d) (idle ?k)" for d
    proof
      assume d: "claims (cpus s d) (idle ?k)"
      then have "d = c" using idle_elsewhere [OF inv _ on(1)] by (auto simp: claims_def)
      with d n(2) i k on(2) show False by (auto simp: claims_def core_inv_def phase_ok_def)
    qed
    then have "on_cpu (?ts ! idle ?k) = None"
      using sched_invD(2) [OF inv, of "idle ?k"] k by (cases "on_cpu (?ts ! idle ?k)") (auto simp: thread_inv_def core_inv_def)
    with i k show ?thesis by (auto simp: core_inv_def)
  qed
  then show "n < length ?ts" "on_cpu (?ts ! n) = None" "state (?ts ! n) = Runnable"
    "affinity (?ts ! n) = None \<or> affinity (?ts ! n) = Some c" by auto
qed

subsection \<open>Every step keeps it\<close>

lemma decide_eq:
  assumes "STARTED s" and "n = pick_next (threads s) (cpus s c)" and "n \<noteq> current (cpus s c)"
  shows "threads (sched_decide c s) = threads (upd_thread n (claim (c_id (cpus s c))) s)"
    and "cpus (sched_decide c s) = (cpus s)(c := (cpus s c)\<lparr>release_prev := Some (current (cpus s c)), cursor := n, current := n,
        switches := switches (cpus s c) + 1, phase := Decided (current (cpus s c)) n\<rparr>)"
  using assms by (simp_all add: sched_decide_def Let_def)

lemma decide_idem: "\<not> STARTED s \<or> pick_next (threads s) (cpus s c) = current (cpus s c) \<Longrightarrow> sched_decide c s = s"
  by (auto simp: sched_decide_def Let_def)

lemma decide_inv:
  assumes inv: "sched_inv s" and on: "online (cpus s c)" "phase (cpus s c) = Steady"
  shows "sched_inv (sched_decide c s)"
proof (cases "\<not> STARTED s \<or> pick_next (threads s) (cpus s c) = current (cpus s c)")
  case True
  then show ?thesis using inv by (simp add: decide_idem)
next
  case False
  define n where "n = pick_next (threads s) (cpus s c)"
  have nc: "n \<noteq> current (cpus s c)" "STARTED s" using False by (auto simp: n_def)
  note N = pick_next_free [OF inv on n_def nc(1)] and E = decide_eq [OF nc(2) n_def nc(1)]
  have k: "core_inv (threads s) c (cpus s c)" using sched_invD(1) [OF inv on(1)] .
  have nobody: "\<not> claims (cpus s d) n" for d using claimsD [OF inv, of d n] N(2) by auto
  have ts: "threads (sched_decide c s) ! t = (if t = n then claim c (threads s ! t) else threads s ! t)" if "t < length (threads s)" for t
    using that k E(1) by (simp add: nth_upd_thread core_inv_def)
  have len: "length (threads (sched_decide c s)) = length (threads s)" using E(1) by simp
  have tb: "ttbr0 (threads (sched_decide c s) ! t) = ttbr0 (threads s ! t)"
    "affinity (threads (sched_decide c s) ! t) = affinity (threads s ! t)"
    "state (threads (sched_decide c s) ! t) = state (threads s ! t)" if "t < length (threads s)" for t
    using ts [OF that] by (simp_all add: claim_def)
  have own: "owner (cpus s d) < length (threads s)" if "online (cpus s d)" for d
    using claimsD [OF inv owner_claims] sched_invD(1) [OF inv that] that by (auto simp: core_inv_def)
  have rel: "release_prev (cpus s c) = None" using k on(2) by (simp add: core_inv_def phase_ok_def)
  have "core_inv (threads (sched_decide c s)) d (cpus (sched_decide c s) d)" if "online (cpus (sched_decide c s) d)" for d
  proof (cases "d = c")
    case True
    then show ?thesis using k tb N(1) nc(1) on(2) unfolding E(2)
      by (auto simp: core_inv_def len phase_ok_def owner_def)
  next
    case False
    then have "core_inv (threads s) d (cpus s d)" "online (cpus s d)" using that sched_invD(1) [OF inv] unfolding E(2) by auto
    then show ?thesis using False tb own unfolding E(2) by (auto simp: core_inv_def len)
  qed
  moreover have "thread_inv (cpus (sched_decide c s)) t (threads (sched_decide c s) ! t)" if t: "t < length (threads s)" for t
  proof -
    have cl: "claims (cpus (sched_decide c s) d) t \<longleftrightarrow> (if t = n then d = c else claims (cpus s d) t)" for d
      using nobody [of d] on(1) rel nc(1) unfolding E(2) by (auto simp: claims_def)
    show ?thesis using sched_invD(2) [OF inv t] N(3,4) unfolding thread_inv_def cl ts [OF t] by (auto simp: claim_def)
  qed
  ultimately show ?thesis by (simp add: sched_inv_def len)
qed

lemma switch_eq:
  assumes "phase (cpus s c) = Decided p n" and "p < length (threads s)" and "n < length (threads s)" and "p \<noteq> n"
    and "c_ttbr0 (cpus s c) = ttbr0 (threads s ! p)"
  shows "threads (cpu_switch_to c s) = threads (upd_thread p (ctx_update (\<lambda>_. c_regs (cpus s c))) s)"
    and "cpus (cpu_switch_to c s) = (cpus s)(c := (cpus s c)\<lparr>c_regs := ctx (threads s ! n), c_ttbr0 := ttbr0 (threads s ! n), phase := Switched\<rparr>)"
  using assms by (auto simp: cpu_switch_to_def Let_def nth_upd_thread)

lemma decidedD:
  assumes "sched_inv s" and "online (cpus s c)" and "phase (cpus s c) = Decided p n"
  shows "p < length (threads s)" "n < length (threads s)" "p \<noteq> n" "c_ttbr0 (cpus s c) = ttbr0 (threads s ! p)"
    "current (cpus s c) = n" "release_prev (cpus s c) = Some p"
  using sched_invD(1) [OF assms(1,2)] assms(3) by (auto simp: core_inv_def phase_ok_def owner_def)

lemma switch_inv:
  assumes inv: "sched_inv s" and on: "online (cpus s c)" "phase (cpus s c) = Decided p n"
  shows "sched_inv (cpu_switch_to c s)"
proof -
  note D = decidedD [OF assms] and E = switch_eq [OF on(2) decidedD(1-4) [OF assms]]
  have ts: "on_cpu (threads (cpu_switch_to c s) ! t) = on_cpu (threads s ! t)"
    "affinity (threads (cpu_switch_to c s) ! t) = affinity (threads s ! t)"
    "state (threads (cpu_switch_to c s) ! t) = state (threads s ! t)"
    "ttbr0 (threads (cpu_switch_to c s) ! t) = ttbr0 (threads s ! t)" if "t < length (threads s)" for t
    using that by (simp_all add: E(1) nth_upd_thread)
  have len: "length (threads (cpu_switch_to c s)) = length (threads s)" by (simp add: E(1))
  have own: "owner (cpus s d) < length (threads s)" if "online (cpus s d)" for d
    using claimsD [OF inv owner_claims] sched_invD(1) [OF inv that] that by (auto simp: core_inv_def)
  have "core_inv (threads (cpu_switch_to c s)) d (cpus (cpu_switch_to c s) d)" if "online (cpus (cpu_switch_to c s) d)" for d
  proof (cases "d = c")
    case True
    then show ?thesis using sched_invD(1) [OF inv on(1)] ts D unfolding E(2)
      by (auto simp: core_inv_def len phase_ok_def owner_def)
  next
    case False
    then have "core_inv (threads s) d (cpus s d)" "online (cpus s d)" using that sched_invD(1) [OF inv] unfolding E(2) by auto
    then show ?thesis using False ts own unfolding E(2) by (auto simp: core_inv_def len)
  qed
  moreover have "claims (cpus (cpu_switch_to c s) d) t = claims (cpus s d) t" for d t
    unfolding E(2) by (simp add: claims_def)
  then have "thread_inv (cpus (cpu_switch_to c s)) t (threads (cpu_switch_to c s) ! t)" if "t < length (threads s)" for t
    using sched_invD(2) [OF inv that] ts [OF that] by (simp add: thread_inv_def)
  ultimately show ?thesis by (simp add: sched_inv_def len)
qed

lemma finish_inv:
  assumes inv: "sched_inv s" and on: "online (cpus s c)" "phase (cpus s c) = Switched"
  shows "sched_inv (finish_switch c s)"
proof -
  have k: "core_inv (threads s) c (cpus s c)" using sched_invD(1) [OF inv on(1)] .
  then obtain p where p: "release_prev (cpus s c) = Some p" "p \<noteq> current (cpus s c)" "p < length (threads s)"
    using on(2) by (auto simp: core_inv_def phase_ok_def)
  have th: "threads (finish_switch c s) = threads (upd_thread p (on_cpu_update (\<lambda>_. None)) (upd_cpu c (\<lambda>k. k\<lparr>release_prev := None, phase := Steady\<rparr>) s))"
    and cs: "cpus (finish_switch c s) = (cpus s)(c := (cpus s c)\<lparr>release_prev := None, phase := Steady\<rparr>)"
    by (simp_all add: finish_switch_def p)
  have len: "length (threads (finish_switch c s)) = length (threads s)" by (simp add: th)
  have ts: "affinity (threads (finish_switch c s) ! t) = affinity (threads s ! t)"
    "state (threads (finish_switch c s) ! t) = state (threads s ! t)"
    "ttbr0 (threads (finish_switch c s) ! t) = ttbr0 (threads s ! t)"
    "on_cpu (threads (finish_switch c s) ! t) = (if t = p then None else on_cpu (threads s ! t))" if "t < length (threads s)" for t
    using that nth_upd_thread [of t "upd_cpu c (\<lambda>k. k\<lparr>release_prev := None, phase := Steady\<rparr>) s" p "on_cpu_update (\<lambda>_. None)"]
    by (simp_all add: th)
  have own: "owner (cpus s d) < length (threads s)" if "online (cpus s d)" for d
    using claimsD [OF inv owner_claims] sched_invD(1) [OF inv that] that by (auto simp: core_inv_def)
  have "core_inv (threads (finish_switch c s)) d (cpus (finish_switch c s) d)" if "online (cpus (finish_switch c s) d)" for d
  proof (cases "d = c")
    case True
    then show ?thesis using k ts on(2) unfolding cs by (auto simp: core_inv_def len phase_ok_def owner_def)
  next
    case False
    then have "core_inv (threads s) d (cpus s d)" "online (cpus s d)" using that sched_invD(1) [OF inv] unfolding cs by auto
    then show ?thesis using False ts own unfolding cs by (auto simp: core_inv_def len)
  qed
  moreover have "thread_inv (cpus (finish_switch c s)) t (threads (finish_switch c s) ! t)" if t: "t < length (threads s)" for t
  proof -
    have "claims (cpus s c) p" using p(1) on(1) by (simp add: claims_def)
    then have only: "d = c" if "claims (cpus s d) p" for d using claimsD [OF inv that] claimsD [OF inv, of c p] by simp
    have cl: "claims (cpus (finish_switch c s) d) t \<longleftrightarrow> t \<noteq> p \<and> claims (cpus s d) t" for d
    proof (cases "d = c")
      case True
      then show ?thesis using p unfolding cs by (auto simp: claims_def)
    next
      case False
      then have "claims (cpus (finish_switch c s) d) t = claims (cpus s d) t" unfolding cs by (simp add: claims_def)
      with False only show ?thesis by blast
    qed
    have a: "\<forall>d. on_cpu (threads s ! t) = Some d \<longleftrightarrow> claims (cpus s d) t"
      "\<forall>d. on_cpu (threads s ! t) = Some d \<longrightarrow> affinity (threads s ! t) = None \<or> affinity (threads s ! t) = Some d"
      "state (threads s ! t) = New \<longrightarrow> on_cpu (threads s ! t) = None"
      using sched_invD(2) [OF inv t] by (simp_all add: thread_inv_def)
    show ?thesis unfolding thread_inv_def cl ts [OF t] using a by (cases "t = p") simp_all
  qed
  ultimately show ?thesis by (simp add: sched_inv_def len)
qed

lemma claims_bound: "sched_inv s \<Longrightarrow> \<not> claims (cpus s c) (length (threads s))"
  using claimsD by blast

lemma core_inv_append: "core_inv ts c k \<Longrightarrow> online k \<Longrightarrow> core_inv (ts @ xs) c k"
proof -
  assume k: "core_inv ts c k" "online k"
  then have "owner k < length ts" by (auto simp: core_inv_def owner_def phase_ok_def split: phase.splits)
  with k show ?thesis by (auto simp: core_inv_def nth_append)
qed

lemma sched_inv_append:
  assumes inv: "sched_inv s" and "on_cpu th = None" and "cpus s' = cpus s" and ts: "threads s' = threads s @ [th]"
  shows "sched_inv s'"
proof -
  have "thread_inv (cpus s) t (threads s' ! t)" if "t < length (threads s')" for t
  proof (cases "t < length (threads s)")
    case True
    then show ?thesis using sched_invD(2) [OF inv True] by (simp add: ts nth_append)
  next
    case False
    then have "t = length (threads s)" using that ts by simp
    then show ?thesis using claims_bound [OF inv] assms(2) by (simp add: ts thread_inv_def)
  qed
  then show ?thesis using sched_invD(1) [OF inv] by (simp add: sched_inv_def assms(3) ts core_inv_append)
qed

lemma sched_inv_same:
  assumes "sched_inv s" and "cpus s' = cpus s" and "threads s' = threads s"
  shows "sched_inv s'"
  using assms by (simp add: sched_inv_def)

lemma spawned_inv:
  assumes "sched_inv s"
  shows "sched_inv (snd (spawn_pinned tramp empty0 nm entry arg aff s))"
proof -
  obtain r fr where a: "alloc_contiguous STACK_PAGES (ram s) = (r, fr)" by (cases "alloc_contiguous STACK_PAGES (ram s)")
  show ?thesis
  proof (cases r)
    case None
    then show ?thesis using sched_inv_same [OF assms, of "s\<lparr>ram := fr\<rparr>"] by (simp add: spawn_pinned_def a)
  next
    case (Some stk)
    then show ?thesis
      by (intro sched_inv_append [OF assms, of "new_thread (length (threads s)) nm
            (Context_new tramp entry arg (phys_to_virt (stk + STACK_PAGES * PAGE_SIZE))) aff empty0 stk"])
        (simp_all add: spawn_pinned_def a Let_def new_thread_def)
  qed
qed

lemma secondary_inv:
  assumes inv: "sched_inv s" and off: "\<not> online (cpus s c)"
  shows "sched_inv (adopt_as_idle (c_ttbr0 (cpus s c)) c
    (upd_cpu c (\<lambda>k. k\<lparr>c_id := c, online := True, phase := Steady, release_prev := None\<rparr>) s))" (is "sched_inv ?s")
proof -
  let ?n = "length (threads s)"
  let ?k = "(cpus s c)\<lparr>c_id := c, online := True, phase := Steady, release_prev := None, current := ?n, idle := ?n, cursor := ?n\<rparr>"
  have cs: "cpus ?s = (cpus s)(c := ?k)" by (simp add: adopt_as_idle_def Let_def upd_cpu_def)
  have ts: "threads ?s = threads s @ [running_thread ?n (idle_name c) c (Some c) (c_ttbr0 (cpus s c))]"
    by (simp add: adopt_as_idle_def Let_def upd_cpu_def)
  have "core_inv (threads ?s) d (cpus ?s d)" if "online (cpus ?s d)" for d
  proof (cases "d = c")
    case True
    then show ?thesis unfolding cs ts by (simp add: core_inv_def phase_ok_def owner_def running_thread_def)
  next
    case False
    then show ?thesis using that sched_invD(1) [OF inv, of d] unfolding cs ts by (simp add: core_inv_append)
  qed
  moreover have "thread_inv (cpus ?s) t (threads ?s ! t)" if "t < length (threads ?s)" for t
  proof (cases "t < ?n")
    case True
    have "claims (cpus ?s d) t = claims (cpus s d) t" for d
      using True off unfolding cs by (simp add: claims_def)
    then show ?thesis using sched_invD(2) [OF inv True] True by (simp add: ts nth_append thread_inv_def)
  next
    case False
    then have t: "t = ?n" using that ts by simp
    have "claims (cpus ?s d) ?n \<longleftrightarrow> d = c" for d
      using claims_bound [OF inv, of d] unfolding cs by (simp add: claims_def)
    then show ?thesis by (auto simp: t ts running_thread_def thread_inv_def)
  qed
  ultimately show ?thesis by (simp add: sched_inv_def)
qed

lemma upd_thread_inv:
  assumes inv: "sched_inv s"
    and f: "t < length (threads s) \<Longrightarrow> on_cpu (f (threads s ! t)) = on_cpu (threads s ! t) \<and> affinity (f (threads s ! t)) = affinity (threads s ! t)
      \<and> (on_cpu (threads s ! t) \<noteq> None \<longrightarrow> ttbr0 (f (threads s ! t)) = ttbr0 (threads s ! t)) \<and> (state (f (threads s ! t)) = New \<longrightarrow> state (threads s ! t) = New)"
    and idl: "\<And>c. online (cpus s c) \<Longrightarrow> idle (cpus s c) = t \<Longrightarrow> state (f (threads s ! t)) = Runnable"
  shows "sched_inv (upd_thread t f s)"
proof (rule sched_inv_states [OF inv])
  fix c assume on: "online (cpus s c)"
  have k: "core_inv (threads s) c (cpus s c)" using sched_invD(1) [OF inv on] .
  then have "idle (cpus s c) < length (threads s)" by (simp add: core_inv_def)
  then show "state (threads (upd_thread t f s) ! idle (cpus s c)) = Runnable"
    using idl [OF on] k by (auto simp: nth_upd_thread core_inv_def)
next
  fix i assume "i < length (threads s)"
  with f show "on_cpu (threads (upd_thread t f s) ! i) = on_cpu (threads s ! i)
        \<and> affinity (threads (upd_thread t f s) ! i) = affinity (threads s ! i)
        \<and> (on_cpu (threads s ! i) \<noteq> None \<longrightarrow> ttbr0 (threads (upd_thread t f s) ! i) = ttbr0 (threads s ! i))
        \<and> (state (threads (upd_thread t f s) ! i) = New \<longrightarrow> state (threads s ! i) = New)"
    by (simp add: nth_upd_thread)
qed simp_all

lemma map_inv:
  assumes "sched_inv s" and "cpus s' = cpus s" and "threads s' = map f (threads s)"
    and "\<And>t. on_cpu (f t) = on_cpu t \<and> affinity (f t) = affinity t \<and> ttbr0 (f t) = ttbr0 t
      \<and> (state (f t) = New \<longrightarrow> state t = New) \<and> (state t = Runnable \<longrightarrow> state (f t) = Runnable)"
  shows "sched_inv s'"
proof (rule sched_inv_states [OF assms(1,2)])
  fix c assume "online (cpus s c)"
  then have "core_inv (threads s) c (cpus s c)" by (rule sched_invD(1) [OF assms(1)])
  then have "idle (cpus s c) < length (threads s)" "state (threads s ! idle (cpus s c)) = Runnable"
    by (simp_all add: core_inv_def)
  then show "state (threads s' ! idle (cpus s c)) = Runnable"
    using assms(4) [of "threads s ! idle (cpus s c)"] by (simp add: assms(3))
next
  fix t assume "t < length (threads s)"
  then show "on_cpu (threads s' ! t) = on_cpu (threads s ! t) \<and> affinity (threads s' ! t) = affinity (threads s ! t)
        \<and> (on_cpu (threads s ! t) \<noteq> None \<longrightarrow> ttbr0 (threads s' ! t) = ttbr0 (threads s ! t))
        \<and> (state (threads s' ! t) = New \<longrightarrow> state (threads s ! t) = New)"
    using assms(4) [of "threads s ! t"] by (simp add: assms(3))
qed (simp add: assms(3))

lemma wake_keeps: "on_cpu (wake tok t) = on_cpu t" "affinity (wake tok t) = affinity t" "ttbr0 (wake tok t) = ttbr0 t"
  "state (wake tok t) = New \<Longrightarrow> state t = New" "state t = Runnable \<Longrightarrow> state (wake tok t) = Runnable"
  by (auto simp: wake_def split: if_splits)

lemma wake_sleeper_keeps: "on_cpu (wake_sleeper now t) = on_cpu t" "affinity (wake_sleeper now t) = affinity t"
  "ttbr0 (wake_sleeper now t) = ttbr0 t" "state (wake_sleeper now t) = New \<Longrightarrow> state t = New"
  "state t = Runnable \<Longrightarrow> state (wake_sleeper now t) = Runnable"
  by (auto simp: wake_sleeper_def split: State.splits if_splits)

lemma kick_same [simp]: "cpus (kick_others s) = cpus s" "threads (kick_others s) = threads s"
  by (simp_all add: kick_others_def)

text \<open>The running thread may stop itself unless it is the idle thread of its core; it is nobody else's.\<close>

lemma stop_inv:
  assumes inv: "sched_inv s" and on: "online (cpus s c)" and nid: "current (cpus s c) \<noteq> idle (cpus s c)" and st: "st \<noteq> New"
  shows "sched_inv (with_current c (state_update (\<lambda>_. st)) s)"
  unfolding with_current_def
proof (rule upd_thread_inv [OF inv])
  fix d assume d: "online (cpus s d)" "idle (cpus s d) = current (cpus s c)"
  then have "c = d" using idle_elsewhere [OF inv on d(1)] current_claims [OF on] by simp
  with d nid show "state (state_update (\<lambda>_. st) (threads s ! current (cpus s c))) = Runnable" by simp
qed (use st in simp)

lemma sched_inv_step: "sched_step s s' \<Longrightarrow> sched_inv s \<Longrightarrow> sched_inv s'"
proof (induction rule: sched_step.induct)
  case (run s c x)
  let ?s = "upd_cpu c (c_regs_update (\<lambda>_. x)) s"
  have "core_inv (threads s) d (cpus ?s d)" if "online (cpus ?s d)" for d
    using that sched_invD(1) [OF run(3), of d] by (auto simp: core_inv_def phase_ok_def owner_def split: if_splits phase.splits)
  moreover have "claims (cpus ?s d) t = claims (cpus s d) t" for d t by (simp add: claims_def)
  ultimately show ?case using sched_invD(2) [OF run(3)] by (simp add: sched_inv_def thread_inv_def)
next
  case (stop s c s' tok now n)
  then show ?case by (auto simp: prepare_block_def sleep_ticks_def thread_exit_def intro!: stop_inv)
next
  case (cancel s c)
  show ?case unfolding cancel_block_def with_current_def
  proof (rule upd_thread_inv [OF cancel(3)])
    fix d assume "online (cpus s d)" "idle (cpus s d) = current (cpus s c)"
    then have "state (threads s ! current (cpus s c)) = Runnable" using sched_invD(1) [OF cancel(3), of d] by (simp add: core_inv_def)
    then show "state (case state (threads s ! current (cpus s c)) of Blocked x \<Rightarrow> (threads s ! current (cpus s c))\<lparr>state := Runnable\<rparr>
        | _ \<Rightarrow> threads s ! current (cpus s c)) = Runnable" by simp
  qed (auto split: State.splits)
next
  case (wake s tok)
  show ?case
  proof (rule map_inv [OF wake, where f = "Sched.wake tok"])
    show "on_cpu (Sched.wake tok t) = on_cpu t \<and> affinity (Sched.wake tok t) = affinity t \<and> ttbr0 (Sched.wake tok t) = ttbr0 t
        \<and> (state (Sched.wake tok t) = New \<longrightarrow> state t = New) \<and> (state t = Runnable \<longrightarrow> state (Sched.wake tok t) = Runnable)" for t
      using wake_keeps [where tok = tok and t = t] by blast
  qed (simp_all add: wake_all_on_def Let_def)
next
  case (tick s now)
  show ?case
  proof (rule map_inv [OF tick, where f = "wake_sleeper now"])
    show "on_cpu (wake_sleeper now t) = on_cpu t \<and> affinity (wake_sleeper now t) = affinity t \<and> ttbr0 (wake_sleeper now t) = ttbr0 t
        \<and> (state (wake_sleeper now t) = New \<longrightarrow> state t = New) \<and> (state t = Runnable \<longrightarrow> state (wake_sleeper now t) = Runnable)" for t
      using wake_sleeper_keeps [where now = now and t = t] by blast
  qed (simp_all add: wake_sleepers_and_survey_def)
next
  case (attach t s pid tb)
  have "on_cpu (threads s ! t) = None" using sched_invD(2) [OF attach(3,1)] attach(2) by (simp add: thread_inv_def)
  moreover have "state (threads s ! t) = Runnable" if "online (cpus s c)" "idle (cpus s c) = t" for c
    using that sched_invD(1) [OF attach(3), of c] by (simp add: core_inv_def)
  ultimately show ?case unfolding attach_process_def using attach by (intro upd_thread_inv) auto
next
  case (started s t)
  have "sched_inv (upd_thread t (\<lambda>th. if state th = New then th\<lparr>state := Runnable\<rparr> else th) s)"
    using sched_invD(1) [OF started] by (intro upd_thread_inv [OF started]) (auto simp: core_inv_def)
  then show ?case unfolding sched_start_def by (rule sched_inv_same) simp_all
next
  case (service s t)
  show ?case unfolding mark_service_def
    using sched_invD(1) [OF service] by (intro upd_thread_inv [OF service]) (auto simp: core_inv_def)
next
  case (ipi s)
  then show ?case by (rule sched_inv_same) (simp_all add: ipi_ready_def)
next
  case (spawned s tramp empty0 nm entry arg)
  then show ?case by (simp add: spawn_stopped_def spawned_inv)
qed (auto intro: decide_inv switch_inv finish_inv secondary_inv)

lemma sched_boot_inv: "sched_boot s \<Longrightarrow> sched_inv s"
proof -
  assume "sched_boot s"
  then obtain tramp ie fr tb x where i: "sched_init tramp tb ie
     \<lparr>threads = [], cpus = (\<lambda>c. Cpu_new\<lparr>online := c = 0, c_ttbr0 := tb, c_regs := x\<rparr>), STARTED = False,
       IPI_READY = False, kicks = 0, ram = fr\<rparr> = Some s" by (auto simp: sched_boot_def)
  obtain th cs where ts: "threads s = [running_thread 0 (ascii ''boot'') 0 None tb, th]"
    and th: "on_cpu th = None" "affinity th = Some 0" "state th = Runnable"
    and cs: "cpus s = (\<lambda>c. Cpu_new\<lparr>online := c = 0, c_ttbr0 := tb, c_regs := x\<rparr>)(0 := Cpu_new\<lparr>online := True, c_ttbr0 := tb, c_regs := x, idle := 1\<rparr>)"
    using i by (auto simp: sched_init_def spawn_pinned_def sched_start_def upd_cpu_def upd_thread_def kick_others_def new_thread_def
        Let_def Cpu_new_def split: option.splits prod.splits)
  have "core_inv (threads s) c (cpus s c)" if "online (cpus s c)" for c
    using that th by (cases "c = 0") (simp_all add: cs ts core_inv_def phase_ok_def owner_def Cpu_new_def running_thread_def)
  moreover have "claims (cpus s c) t \<longleftrightarrow> c = 0 \<and> t = 0" for c t
    by (cases "c = 0") (auto simp: cs claims_def Cpu_new_def)
  then have "thread_inv (cpus s) t (threads s ! t)" if "t < 2" for t
    using that th by (auto simp: less_2_cases_iff ts thread_inv_def running_thread_def)
  ultimately show ?thesis by (simp add: sched_inv_def ts)
qed

interpretation smp: invariant_of sched_boot sched_step sched_inv
  by standard (auto intro: sched_boot_inv sched_inv_step)

section \<open>Contexts\<close>

text \<open>Where the registers of a thread are: in the core that carries them, or saved in the thread.\<close>

definition holds_ctx :: "sched \<Rightarrow> nat \<Rightarrow> Context \<Rightarrow> bool" where
  "holds_ctx s t x \<longleftrightarrow> (if \<exists>c. online (cpus s c) \<and> owner (cpus s c) = t
     then \<exists>c. online (cpus s c) \<and> owner (cpus s c) = t \<and> c_regs (cpus s c) = x
     else ctx (threads s ! t) = x)"

lemma owner_unique:
  assumes "sched_inv s" and "online (cpus s c)" and "online (cpus s d)" and "owner (cpus s c) = owner (cpus s d)"
  shows "c = d"
proof -
  have ok: "phase_ok (cpus s c)" "phase_ok (cpus s d)"
    using sched_invD(1) [OF assms(1,2)] sched_invD(1) [OF assms(1,3)] by (simp_all add: core_inv_def)
  have c: "on_cpu (threads s ! owner (cpus s c)) = Some c"
    using claimsD [OF assms(1) owner_claims [OF assms(2) ok(1)]] by (rule conjunct2)
  have d: "on_cpu (threads s ! owner (cpus s d)) = Some d"
    using claimsD [OF assms(1) owner_claims [OF assms(3) ok(2)]] by (rule conjunct2)
  have "Some c = Some d" by (rule trans [OF sym [OF c [unfolded assms(4)]] d])
  then show ?thesis by simp
qed

lemma holds_ctx_carried:
  assumes "sched_inv s" and "online (cpus s c)" and "owner (cpus s c) = t"
  shows "holds_ctx s t x \<longleftrightarrow> c_regs (cpus s c) = x"
proof -
  have "d = c" if "online (cpus s d) \<and> owner (cpus s d) = t" for d
    using owner_unique [OF assms(1,2), of d] that assms(3) by simp
  then have "(\<exists>d. online (cpus s d) \<and> owner (cpus s d) = t \<and> c_regs (cpus s d) = x) \<longleftrightarrow> c_regs (cpus s c) = x"
    using assms(2,3) by blast
  moreover have "\<exists>d. online (cpus s d) \<and> owner (cpus s d) = t" using assms(2,3) by blast
  ultimately show ?thesis by (simp only: holds_ctx_def if_True)
qed

lemma holds_ctx_saved:
  "(\<And>c. online (cpus s c) \<Longrightarrow> owner (cpus s c) \<noteq> t) \<Longrightarrow> holds_ctx s t x \<longleftrightarrow> ctx (threads s ! t) = x"
  by (auto simp: holds_ctx_def)

lemma holds_ctx_cong:
  assumes "\<And>c. online (cpus s' c) = online (cpus s c)" "\<And>c. online (cpus s c) \<Longrightarrow> owner (cpus s' c) = owner (cpus s c)"
    "\<And>c. online (cpus s c) \<Longrightarrow> c_regs (cpus s' c) = c_regs (cpus s c)" "ctx (threads s' ! t) = ctx (threads s ! t)"
  shows "holds_ctx s' t x = holds_ctx s t x"
proof -
  have e: "(online (cpus s' c) \<and> owner (cpus s' c) = t) = (online (cpus s c) \<and> owner (cpus s c) = t)"
    "(online (cpus s' c) \<and> owner (cpus s' c) = t \<and> c_regs (cpus s' c) = x) = (online (cpus s c) \<and> owner (cpus s c) = t \<and> c_regs (cpus s c) = x)" for c
    using assms(1-3) [of c] by auto
  show ?thesis unfolding holds_ctx_def e assms(4) ..
qed

lemma decide_ctx:
  assumes inv: "sched_inv s" and on: "online (cpus s c)" "phase (cpus s c) = Steady" and t: "t < length (threads s)"
  shows "holds_ctx (sched_decide c s) t x = holds_ctx s t x"
proof (cases "\<not> STARTED s \<or> pick_next (threads s) (cpus s c) = current (cpus s c)")
  case False
  define n where "n = pick_next (threads s) (cpus s c)"
  have nc: "STARTED s" "n \<noteq> current (cpus s c)" using False by (auto simp: n_def)
  note E = decide_eq [OF nc(1) n_def nc(2)]
  show ?thesis
    by (rule holds_ctx_cong) (use on t in \<open>auto simp: E nth_upd_thread owner_def claim_def\<close>)
qed (simp add: decide_idem)

lemma switch_ctx:
  assumes inv: "sched_inv s" and on: "online (cpus s c)" "phase (cpus s c) = Decided p n" and t: "t < length (threads s)"
  shows "holds_ctx (cpu_switch_to c s) t x = holds_ctx s t x"
proof -
  note D = decidedD [OF inv on] and E = switch_eq [OF on(2) decidedD(1-4) [OF inv on]]
  let ?s = "cpu_switch_to c s"
  have inv': "sched_inv ?s" by (rule switch_inv [OF inv on])
  have ow: "owner (cpus s c) = p" "owner (cpus ?s c) = n" "online (cpus ?s c)"
    "\<And>d. d \<noteq> c \<Longrightarrow> cpus ?s d = cpus s d"
    using on D by (simp_all add: owner_def E(2))
  have tp: "\<not> (online (cpus s d) \<and> owner (cpus s d) \<in> {p, n})" if "d \<noteq> c" for d
    using that owner_unique [OF inv on(1), of d] owner_unique [OF inv' ow(3), of d] ow by auto
  consider "t = p" | "t = n" | "t \<noteq> p" "t \<noteq> n" by blast
  then show ?thesis
  proof cases
    case 1
    have "owner (cpus ?s d) \<noteq> p" if "online (cpus ?s d)" for d
      using that tp [of d] ow D(3) by (cases "d = c") auto
    then show ?thesis
      using 1 D(1) holds_ctx_carried [OF inv on(1) ow(1)] by (subst holds_ctx_saved) (auto simp: E(1) nth_upd_thread)
  next
    case 2
    have "owner (cpus s d) \<noteq> n" if "online (cpus s d)" for d
      using that tp [of d] ow D(3) by (cases "d = c") auto
    then show ?thesis
      using 2 holds_ctx_carried [OF inv' ow(3) ow(2)] holds_ctx_saved [of s n] by (simp add: E(2))
  next
    case 3
    have e: "(online (cpus ?s d) \<and> owner (cpus ?s d) = t) = (online (cpus s d) \<and> owner (cpus s d) = t)"
      "(online (cpus ?s d) \<and> owner (cpus ?s d) = t \<and> c_regs (cpus ?s d) = x) = (online (cpus s d) \<and> owner (cpus s d) = t \<and> c_regs (cpus s d) = x)" for d
      using 3 ow by (cases "d = c"; simp)+
    have c: "ctx (threads ?s ! t) = ctx (threads s ! t)" using 3 t by (simp add: E(1) nth_upd_thread)
    show ?thesis unfolding holds_ctx_def e c ..
  qed
qed

lemma finish_ctx:
  assumes inv: "sched_inv s" and on: "online (cpus s c)" "phase (cpus s c) = Switched" and t: "t < length (threads s)"
  shows "holds_ctx (finish_switch c s) t x = holds_ctx s t x"
proof (rule holds_ctx_cong)
  show "ctx (threads (finish_switch c s) ! t) = ctx (threads s ! t)"
    using t nth_upd_thread [of t "upd_cpu c (\<lambda>k. k\<lparr>release_prev := None, phase := Steady\<rparr>) s"]
    by (simp add: finish_switch_def split: option.splits)
qed (use on in \<open>auto simp: finish_switch_def owner_def split: option.splits phase.splits\<close>)

section \<open>Round robin\<close>

text \<open>How far ahead of the cursor an index is, counting from one, around the table.\<close>

definition ahead :: "nat \<Rightarrow> nat \<Rightarrow> nat \<Rightarrow> nat" where
  "ahead n cur i = (if i > cur mod n then i - cur mod n else i + n - cur mod n)"

lemma ahead_bounds: "i < n \<Longrightarrow> 1 \<le> ahead n cur i \<and> ahead n cur i \<le> n"
proof -
  assume i: "i < n"
  obtain r where r: "r = cur mod n" "r < n" using i by simp
  show ?thesis unfolding ahead_def r(1) [symmetric] using i r(2) by simp linarith
qed

lemma ahead_step: "i < n \<Longrightarrow> (cur + ahead n cur i) mod n = i"
proof -
  assume i: "i < n"
  obtain r where r: "r = cur mod n" "r < n" using i by simp
  have "(cur + ahead n cur i) mod n = (r + ahead n cur i) mod n" by (simp add: mod_add_left_eq r(1))
  also have "r + ahead n cur i = (if i > r then i else i + n)"
    unfolding ahead_def r(1) [symmetric] using r(2) by simp
  finally show ?thesis using i by simp
qed

lemma ahead_unique:
  assumes "1 \<le> k" "k \<le> n" and i: "i = (cur + k) mod n"
  shows "ahead n cur i = k"
proof -
  obtain r where r: "r = cur mod n" "r < n" using assms by simp
  have "i = (r + k) mod n" unfolding i r(1) by (simp add: mod_add_left_eq)
  also have "\<dots> = (if r + k < n then r + k else r + k - n)"
    using r(2) assms(1,2) by (simp add: mod_if)
  finally show ?thesis unfolding ahead_def r(1) [symmetric] using r(2) assms(1,2) by (simp split: if_splits)
qed

lemma find_first:
  assumes "List.find P xs = Some x" and "j < length xs" and "P (xs ! j)"
  shows "\<exists>i\<le>j. x = xs ! i \<and> P x"
  using assms by (auto simp: find_Some_iff) (metis linorder_not_le)

text \<open>A thread that is eligible is picked, or one nearer to the cursor is.\<close>

lemma pick_next_ahead:
  assumes t: "t < length ts" "eligible (ts ! t) (c_id k)" "t \<noteq> idle k" "t \<noteq> current k"
  shows "pick_next ts k < length ts \<and> ahead (length ts) (cursor k) (pick_next ts k) \<le> ahead (length ts) (cursor k) t"
proof -
  let ?n = "length ts" and ?P = "\<lambda>i. \<not> (i = idle k \<or> i = current k) \<and> eligible (ts ! i) (c_id k)"
  let ?l = "map (\<lambda>step. (cursor k + step) mod ?n) [1..<Suc ?n]"
  define a where "a = ahead ?n (cursor k) t"
  have a: "1 \<le> a" "a \<le> ?n" "(cursor k + a) mod ?n = t"
    using ahead_bounds [OF t(1)] ahead_step [OF t(1)] by (auto simp: a_def)
  have l: "?l ! (a - 1) = t" "a - 1 < length ?l" using a by (auto simp: nth_append simp del: upt_Suc)
  have "List.find ?P ?l \<noteq> None" using l t nth_mem [OF l(2)] by (auto simp: find_None_iff simp del: upt_Suc)
  then obtain i where i: "List.find ?P ?l = Some i" by blast
  from find_first [OF i l(2)] l t obtain j where j: "j \<le> a - 1" "i = ?l ! j" by auto
  then have "i = (cursor k + (j + 1)) mod ?n" using a by (auto simp: nth_append simp del: upt_Suc)
  then have "ahead ?n (cursor k) i = j + 1" using j a by (intro ahead_unique) auto
  moreover have "i < ?n" using \<open>i = _ mod ?n\<close> t(1) by (metis gr_implies_not0 mod_less_divisor not_gr_zero)
  moreover have "pick_next ts k = i" using i by (simp add: pick_next_def Let_def del: upt_Suc)
  ultimately show ?thesis using j a by (simp add: a_def)
qed

lemma ahead_closer:
  assumes "p < n" "t < n" "p \<noteq> t" "ahead n cur p \<le> ahead n cur t"
  shows "ahead n p t < ahead n cur t"
proof -
  obtain r where r: "r = cur mod n" "r < n" using assms(1) by simp
  have p: "p mod n = p" using assms(1) by simp
  show ?thesis using assms r(2) unfolding ahead_def p r(1) [symmetric] by (simp split: if_splits; arith)
qed

lemma pick_within:
  assumes "\<And>i. i \<le> m \<Longrightarrow> length (ts i) = n \<and> eligible (ts i ! t) (c_id (k i)) \<and> t \<noteq> idle (k i) \<and> t \<noteq> current (k i)"
    and "\<And>i. i < m \<Longrightarrow> cursor (k (Suc i)) = pick_next (ts i) (k i)" and "t < n" and "ahead n (cursor (k 0)) t \<le> Suc m"
  shows "\<exists>i\<le>m. pick_next (ts i) (k i) = t"
  using assms
proof (induction m arbitrary: ts k)
  case 0
  note P = pick_next_ahead [of t "ts 0" "k 0"]
  have e: "length (ts 0) = n" using 0(1) [of 0] by simp
  have "pick_next (ts 0) (k 0) < n" "ahead n (cursor (k 0)) (pick_next (ts 0) (k 0)) \<le> ahead n (cursor (k 0)) t"
    using P 0(1) [of 0] 0(3) e by auto
  then have "\<not> pick_next (ts 0) (k 0) \<noteq> t"
    using ahead_closer [of "pick_next (ts 0) (k 0)" n t "cursor (k 0)"] 0(3,4) ahead_bounds [of t n "pick_next (ts 0) (k 0)"] by linarith
  then show ?case by simp
next
  case (Suc m)
  show ?case
  proof (cases "pick_next (ts 0) (k 0) = t")
    case False
    have e: "length (ts 0) = n" using Suc.prems(1) [of 0] by simp
    have "pick_next (ts 0) (k 0) < n" "ahead n (cursor (k 0)) (pick_next (ts 0) (k 0)) \<le> ahead n (cursor (k 0)) t"
      using pick_next_ahead [of t "ts 0" "k 0"] Suc.prems(1) [of 0] Suc.prems(3) e by auto
    then have "ahead n (cursor (k 1)) t < ahead n (cursor (k 0)) t"
      using ahead_closer [OF _ Suc.prems(3) False] Suc.prems(2) [of 0] by simp
    then have "\<exists>i\<le>m. pick_next (ts (Suc i)) (k (Suc i)) = t"
      using Suc.prems by (intro Suc.IH) auto
    then show ?thesis by auto
  qed blast
qed

section \<open>Properties\<close>

text \<open>
  C17: However the cores interleave, no thread is ever on two of them, not even while one core is
  still saving it; a core that runs has the user tables of its own thread installed; and what a core
  decides to run next is runnable, is on no core, and is not pinned elsewhere.
\<close>

theorem sched_exclusive:
  assumes "reach sched_boot sched_step s"
  shows "(\<forall>c d t. claims (cpus s c) t \<and> claims (cpus s d) t \<longrightarrow> c = d)
    \<and> (\<forall>c. online (cpus s c) \<and> phase (cpus s c) = Steady \<longrightarrow>
        c_ttbr0 (cpus s c) = ttbr0 (threads s ! current (cpus s c))
      \<and> (let n = pick_next (threads s) (cpus s c) in n \<noteq> current (cpus s c) \<longrightarrow>
          state (threads s ! n) = Runnable \<and> on_cpu (threads s ! n) = None
          \<and> (affinity (threads s ! n) = None \<or> affinity (threads s ! n) = Some c)))"
proof -
  have inv: "sched_inv s" using assms by (rule smp.inv_reach)
  show ?thesis
  proof (intro conjI allI impI)
    fix c d t assume "claims (cpus s c) t \<and> claims (cpus s d) t"
    then have "on_cpu (threads s ! t) = Some c" "on_cpu (threads s ! t) = Some d" using claimsD [OF inv] by blast+
    then show "c = d" by (metis option.inject)
  next
    fix c assume on: "online (cpus s c) \<and> phase (cpus s c) = Steady"
    have "core_inv (threads s) c (cpus s c)" using on sched_invD(1) [OF inv] by blast
    then show "c_ttbr0 (cpus s c) = ttbr0 (threads s ! current (cpus s c))"
      using on by (simp add: core_inv_def owner_def)
    show "let n = pick_next (threads s) (cpus s c) in n \<noteq> current (cpus s c) \<longrightarrow>
          state (threads s ! n) = Runnable \<and> on_cpu (threads s ! n) = None
          \<and> (affinity (threads s ! n) = None \<or> affinity (threads s ! n) = Some c)"
      using pick_next_free [OF inv _ _ refl] on unfolding Let_def by blast
  qed
qed

definition demo_sched :: "sched option" where
  "demo_sched = sched_init 0 0 0 \<lparr>threads = [], cpus = (\<lambda>c. Cpu_new\<lparr>online := c = 0\<rparr>), STARTED = False, IPI_READY = False,
     kicks = 0, ram = boot_frames\<lparr>BUMP := 4096, END := 40960\<rparr>\<rparr>"

lemma run_blocked_nothing: "run_blocked [] cur n = None"
  by (induction n arbitrary: cur) (simp_all add: blocked_until_def)

lemma demo_run: "bump_run [] 40960 4 4096 = (20480, Some 4096)"
  by (subst bump_run.simps) (simp add: PAGE_SIZE_def run_blocked_nothing)

lemma demo_sched_boots: "\<exists>s. demo_sched = Some s \<and> sched_boot s \<and> online (cpus s 0) \<and> phase (cpus s 0) = Steady
  \<and> length (threads s) = 2 \<and> state (threads s ! 1) = Runnable \<and> on_cpu (threads s ! 1) = None"
proof -
  obtain s where s: "demo_sched = Some s" "online (cpus s 0)" "phase (cpus s 0) = Steady" "length (threads s) = 2"
    "state (threads s ! 1) = Runnable" "on_cpu (threads s ! 1) = None"
    by (simp add: demo_sched_def sched_init_def spawn_pinned_def alloc_contiguous_def STACK_PAGES_def boot_frames_def demo_run
        Cpu_new_def sched_start_def upd_thread_def upd_cpu_def kick_others_def new_thread_def)
  have e: "(\<lambda>c. Cpu_new\<lparr>online := c = 0, c_ttbr0 := 0, c_regs := Context_empty\<rparr>) = (\<lambda>c. Cpu_new\<lparr>online := c = 0\<rparr>)"
    by (simp add: Cpu_new_def)
  have "sched_boot s" unfolding sched_boot_def
    by (intro exI [of _ 0] exI [of _ "boot_frames\<lparr>BUMP := 4096, END := 40960\<rparr>"] exI [of _ Context_empty], unfold e)
      (rule s(1) [unfolded demo_sched_def])
  with s show ?thesis by blast
qed

theorem sched_exclusive_witness:
  "\<exists>s. demo_sched = Some s \<and> reach sched_boot sched_step s \<and> c_ttbr0 (cpus s 0) = ttbr0 (threads s ! current (cpus s 0))"
proof -
  obtain s where s: "demo_sched = Some s" "sched_boot s" "online (cpus s 0)" "phase (cpus s 0) = Steady"
    using demo_sched_boots by blast
  have r: "reach sched_boot sched_step s" using s(2) by (rule reach_init)
  from sched_exclusive [OF r] s r show ?thesis by blast
qed

text \<open>
  C18: A context switch is invisible to every thread. Each of the three parts of \<open>schedule\<close>, on any core
  and with other cores anywhere in theirs, leaves the registers of every thread what they were,
  wherever they are kept: the thread switched away from, the one switched to, and all others.
\<close>

theorem switch_preserves_contexts:
  assumes "reach sched_boot sched_step s" and "online (cpus s c)" and "t < length (threads s)"
  shows "(phase (cpus s c) = Steady \<longrightarrow> holds_ctx (sched_decide c s) t x = holds_ctx s t x)
    \<and> (phase (cpus s c) = Decided p n \<longrightarrow> holds_ctx (cpu_switch_to c s) t x = holds_ctx s t x)
    \<and> (phase (cpus s c) = Switched \<longrightarrow> holds_ctx (finish_switch c s) t x = holds_ctx s t x)"
  using smp.inv_reach [OF assms(1)] assms(2,3) decide_ctx switch_ctx finish_ctx by blast

theorem switch_preserves_contexts_witness:
  "\<exists>s. demo_sched = Some s \<and> reach sched_boot sched_step s \<and> online (cpus s 0) \<and> 1 < length (threads s)
     \<and> holds_ctx (sched_decide 0 s) 1 (ctx (threads s ! 1)) = holds_ctx s 1 (ctx (threads s ! 1))"
proof -
  obtain s where s: "demo_sched = Some s" "sched_boot s" "online (cpus s 0)" "phase (cpus s 0) = Steady" "length (threads s) = 2"
    using demo_sched_boots by blast
  have r: "reach sched_boot sched_step s" using s(2) by (rule reach_init)
  have l: "1 < length (threads s)" using s(5) by simp
  from switch_preserves_contexts [OF r s(3) l] s(1,3,4) r l show ?thesis by blast
qed


definition demo_thread :: Thread where
  "demo_thread = (new_thread 0 [] Context_empty None 0 0)\<lparr>state := Runnable\<rparr>"


end
