(* ===== verification/Ipc.thy ===== *)
theory Ipc
  imports Sched
begin

text \<open>
  Channels, \<open>kernel/src/ipc.rs\<close>, on top of the scheduler. \<open>send\<close> releases the channel lock before it
  wakes the waiters, so it is two steps here, with the wakes still owed in between; \<open>recv_or_prepare\<close>
  is one, because it marks the caller blocked while it holds the channel.

  Shown: each channel is a first-in first-out queue whose counters are exact, a message is received
  at most once, and no wakeup is lost: a thread blocked on a channel that holds a message is always
  about to be woken, in every interleaving of senders, receivers and the scheduler.
\<close>

section \<open>The code\<close>

record Message =
  from_pid :: nat
  m_bytes :: bytes

record Channel =
  queue :: "Message list"
  sent :: nat
  received :: nat

type_synonym channels = "Channel list"

definition ipc_create :: "channels \<Rightarrow> nat \<times> channels" where
  "ipc_create chans = (length chans, chans @ [\<lparr>queue = [], sent = 0, received = 0\<rparr>])"

text \<open>\<open>send\<close> up to \<open>drop(chans)\<close>: the message length, or the error.\<close>

definition enqueue :: "nat \<Rightarrow> nat \<Rightarrow> bytes \<Rightarrow> channels \<Rightarrow> nat result \<times> channels" where
  "enqueue channel from bs chans =
    (if channel < length chans then
       let ch = chans ! channel in
       (Inr (length bs), chans[channel := ch\<lparr>queue := queue ch @ [\<lparr>from_pid = from, m_bytes = bs\<rparr>], sent := sent ch + 1\<rparr>])
     else (Inl ''no such channel'', chans))"

definition ipc_send :: "nat \<Rightarrow> nat \<Rightarrow> bytes \<Rightarrow> channels \<Rightarrow> sched \<Rightarrow> nat result \<times> channels \<times> sched" where
  "ipc_send channel from bs chans s = (case enqueue channel from bs chans of
     (Inl e, chans) \<Rightarrow> (Inl e, chans, s)
   | (Inr n, chans) \<Rightarrow> (Inr n, chans, wake_all_on channel s))"

text \<open>\<open>pop_front\<close> with its count.\<close>

definition try_recv :: "nat \<Rightarrow> channels \<Rightarrow> Message option \<times> channels" where
  "try_recv channel chans =
    (if channel < length chans then
       let ch = chans ! channel in
       case queue ch of
         [] \<Rightarrow> (None, chans)
       | m # ms \<Rightarrow> (Some m, chans[channel := ch\<lparr>queue := ms, received := received ch + 1\<rparr>])
     else (None, chans))"

definition recv_or_prepare :: "nat \<Rightarrow> nat \<Rightarrow> nat \<Rightarrow> channels \<Rightarrow> sched \<Rightarrow> Message option \<times> channels \<times> sched" where
  "recv_or_prepare c channel token chans s =
    (if channel < length chans then
       let ch = chans ! channel in
       case queue ch of
         m # ms \<Rightarrow> (Some m, chans[channel := ch\<lparr>queue := ms, received := received ch + 1\<rparr>], s)
       | [] \<Rightarrow> (None, chans, prepare_block c token s)
     else (None, chans, s))"

definition ipc_stats :: "nat \<Rightarrow> channels \<Rightarrow> nat \<times> nat \<times> nat" where
  "ipc_stats channel chans = (if channel < length chans
     then let ch = chans ! channel in (sent ch, received ch, length (queue ch)) else (0, 0, 0))"

section \<open>Senders, receivers and the scheduler\<close>

text \<open>
  \<open>owed\<close> are the channels some sender has put a message into and not yet called \<open>wake_all_on\<close> for;
  \<open>put\<close> and \<open>got\<close> record, per channel, the messages that went in and came out.
\<close>

record ipc_world =
  chans :: channels
  sch :: sched
  owed :: "nat list"
  put :: "nat \<Rightarrow> Message list"
  got :: "nat \<Rightarrow> Message list"

inductive ipc_step :: "ipc_world \<Rightarrow> ipc_world \<Rightarrow> bool" where
  create: "ipc_create (chans w) = (n, cs) \<Longrightarrow> ipc_step w (w\<lparr>chans := cs\<rparr>)"
| send: "enqueue ch from bs (chans w) = (Inr n, cs) \<Longrightarrow>
    ipc_step w (w\<lparr>chans := cs, owed := ch # owed w, put := (put w)(ch := put w ch @ [\<lparr>from_pid = from, m_bytes = bs\<rparr>])\<rparr>)"
| send_fails: "enqueue ch from bs (chans w) = (Inl e, cs) \<Longrightarrow> ipc_step w (w\<lparr>chans := cs\<rparr>)"
| wake: "ch \<in> set (owed w) \<Longrightarrow> ipc_step w (w\<lparr>owed := remove1 ch (owed w), sch := wake_all_on ch (sch w)\<rparr>)"
| recv: "online (cpus (sch w) c) \<Longrightarrow> phase (cpus (sch w) c) = Steady \<Longrightarrow> current (cpus (sch w) c) \<noteq> idle (cpus (sch w) c) \<Longrightarrow>
    recv_or_prepare c ch ch (chans w) (sch w) = (r, cs, s) \<Longrightarrow>
    ipc_step w (w\<lparr>chans := cs, sch := s, got := (case r of None \<Rightarrow> got w | Some m \<Rightarrow> (got w)(ch := got w ch @ [m]))\<rparr>)"
| poll: "try_recv ch (chans w) = (r, cs) \<Longrightarrow>
    ipc_step w (w\<lparr>chans := cs, got := (case r of None \<Rightarrow> got w | Some m \<Rightarrow> (got w)(ch := got w ch @ [m]))\<rparr>)"
| other: "sched_step (sch w) s \<Longrightarrow>
    (\<forall>t<length (threads s). \<forall>ch<length (chans w). state (threads s ! t) = Blocked ch \<longrightarrow>
       t < length (threads (sch w)) \<and> state (threads (sch w) ! t) = Blocked ch) \<Longrightarrow>
    ipc_step w (w\<lparr>sch := s\<rparr>)"

definition ipc_boot :: "ipc_world \<Rightarrow> bool" where
  "ipc_boot w \<longleftrightarrow> chans w = [] \<and> sched_boot (sch w) \<and> owed w = [] \<and> (\<forall>ch. put w ch = [] \<and> got w ch = [])"

section \<open>Channels are queues\<close>

definition fifo :: "channels \<Rightarrow> (nat \<Rightarrow> Message list) \<Rightarrow> (nat \<Rightarrow> Message list) \<Rightarrow> bool" where
  "fifo cs p g \<longleftrightarrow> (\<forall>ch<length cs. p ch = g ch @ queue (cs ! ch) \<and> sent (cs ! ch) = length (p ch) \<and> received (cs ! ch) = length (g ch))
     \<and> (\<forall>ch\<ge>length cs. p ch = [] \<and> g ch = [])"

lemma fifo_create: "fifo cs p g \<Longrightarrow> fifo (snd (ipc_create cs)) p g"
  by (auto simp: fifo_def ipc_create_def nth_append less_Suc_eq)

lemma fifo_enqueue:
  "fifo cs p g \<Longrightarrow> enqueue ch from bs cs = (Inr n, cs') \<Longrightarrow> fifo cs' (p(ch := p ch @ [\<lparr>from_pid = from, m_bytes = bs\<rparr>])) g"
  by (auto simp: fifo_def enqueue_def Let_def nth_list_update split: if_splits)

lemma fifo_pop:
  "fifo cs p g \<Longrightarrow> ch < length cs \<Longrightarrow> queue (cs ! ch) = m # ms \<Longrightarrow>
   fifo (cs[ch := (cs ! ch)\<lparr>queue := ms, received := received (cs ! ch) + 1\<rparr>]) p (g(ch := g ch @ [m]))"
  by (auto simp: fifo_def nth_list_update)

section \<open>No lost wakeups\<close>

text \<open>A thread that waits on a channel with a message in it has its wakeup owed.\<close>

definition awake :: "channels \<Rightarrow> sched \<Rightarrow> nat list \<Rightarrow> bool" where
  "awake cs s ow \<longleftrightarrow> (\<forall>t<length (threads s). \<forall>ch<length cs. state (threads s ! t) = Blocked ch \<longrightarrow> queue (cs ! ch) = [] \<or> ch \<in> set ow)"

definition ipc_inv :: "ipc_world \<Rightarrow> bool" where
  "ipc_inv w \<longleftrightarrow> fifo (chans w) (put w) (got w) \<and> awake (chans w) (sch w) (owed w) \<and> sched_inv (sch w)"

lemma wake_all_on_threads [simp]: "threads (wake_all_on tok s) = map (Sched.wake tok) (threads s)"
  by (simp add: wake_all_on_def Let_def)

lemma wake_not_blocked: "state (Sched.wake tok t) = Blocked ch \<longleftrightarrow> ch \<noteq> tok \<and> state t = Blocked ch"
  by (auto simp: wake_def)

lemma awake_wake:
  assumes "awake cs s ow"
  shows "awake cs (wake_all_on ch s) (remove1 ch ow)"
  unfolding awake_def
proof (intro allI impI)
  fix t c assume t: "t < length (threads (wake_all_on ch s))" "c < length cs" "state (threads (wake_all_on ch s) ! t) = Blocked c"
  then have "c \<noteq> ch" "state (threads s ! t) = Blocked c" by (simp_all add: wake_not_blocked)
  with assms t have "queue (cs ! c) = [] \<or> c \<in> set ow" by (simp add: awake_def)
  with \<open>c \<noteq> ch\<close> show "queue (cs ! c) = [] \<or> c \<in> set (remove1 ch ow)" by simp
qed

lemma awake_prepare:
  assumes "awake cs s ow" and "queue (cs ! ch) = []"
  shows "awake cs (prepare_block c ch s) ow"
  using assms by (auto simp: awake_def prepare_block_def with_current_def nth_upd_thread)

lemma awake_queue_shrinks:
  assumes "awake cs s ow" and "length cs' = length cs" and "\<And>c. c < length cs \<Longrightarrow> queue (cs ! c) = [] \<Longrightarrow> queue (cs' ! c) = []"
  shows "awake cs' s ow"
  using assms unfolding awake_def by metis

lemma awake_enqueue:
  assumes "awake cs s ow" and "enqueue ch from bs cs = (Inr n, cs')"
  shows "awake cs' s (ch # ow)"
  using assms by (auto simp: awake_def enqueue_def Let_def nth_list_update split: if_splits)

lemma awake_create: "awake cs s ow \<Longrightarrow> awake (snd (ipc_create cs)) s ow"
  by (auto simp: awake_def ipc_create_def nth_append less_Suc_eq)

lemma recv_cases:
  assumes "recv_or_prepare c ch tok cs s = (r, cs', s')"
  obtains (took) m ms where "ch < length cs" "queue (cs ! ch) = m # ms" "r = Some m" "s' = s"
      "cs' = cs[ch := (cs ! ch)\<lparr>queue := ms, received := received (cs ! ch) + 1\<rparr>]"
    | (waits) "ch < length cs" "queue (cs ! ch) = []" "r = None" "cs' = cs" "s' = prepare_block c tok s"
    | (missing) "length cs \<le> ch" "r = None" "cs' = cs" "s' = s"
  using assms by (auto simp: recv_or_prepare_def Let_def split: if_splits list.splits)

lemma awake_pop:
  assumes "awake cs s ow" and "queue (cs ! ch) = m # ms"
  shows "awake (cs[ch := (cs ! ch)\<lparr>queue := ms, received := n\<rparr>]) s ow"
proof (rule awake_queue_shrinks [OF assms(1)])
  fix c assume "c < length cs" "queue (cs ! c) = []"
  with assms(2) show "queue (cs[ch := (cs ! ch)\<lparr>queue := ms, received := n\<rparr>] ! c) = []" by (cases "c = ch") auto
qed simp

lemma ipc_inv_step: "ipc_step w w' \<Longrightarrow> ipc_inv w \<Longrightarrow> ipc_inv w'"
proof (induction rule: ipc_step.induct)
  case (create w n cs)
  then show ?case using fifo_create [of "chans w"] awake_create [of "chans w"] by (simp add: ipc_inv_def)
next
  case (send ch "from" bs w n cs)
  then show ?case using fifo_enqueue [of "chans w"] awake_enqueue [of "chans w"] by (auto simp: ipc_inv_def)
next
  case (send_fails ch "from" bs w e cs)
  then have "cs = chans w" by (auto simp: enqueue_def Let_def split: if_splits)
  with send_fails show ?case by (simp add: ipc_inv_def)
next
  case (wake ch w)
  then show ?case using awake_wake [of "chans w"] sched_inv_step [OF sched_step.wake] by (auto simp: ipc_inv_def)
next
  case (recv w c ch r cs s)
  have inv: "fifo (chans w) (put w) (got w)" "awake (chans w) (sch w) (owed w)" "sched_inv (sch w)"
    using recv(5) by (simp_all add: ipc_inv_def)
  from recv(4) show ?case
  proof (cases rule: recv_cases)
    case (took m ms)
    then show ?thesis using fifo_pop [OF inv(1) took(1,2)] awake_pop [OF inv(2) took(2)] inv(3) by (simp add: ipc_inv_def)
  next
    case waits
    have "sched_inv (prepare_block c ch (sch w))"
      by (rule sched_inv_step [OF sched_step.stop [OF recv(1,2,3), where tok = ch] inv(3)]) simp
    then show ?thesis using waits inv awake_prepare [OF inv(2) waits(2)] by (simp add: ipc_inv_def)
  next
    case missing
    then show ?thesis using recv(5) by (simp add: ipc_inv_def)
  qed
next
  case (poll ch w r cs)
  have inv: "fifo (chans w) (put w) (got w)" "awake (chans w) (sch w) (owed w)" "sched_inv (sch w)"
    using poll(2) by (simp_all add: ipc_inv_def)
  show ?case
  proof (cases "ch < length (chans w) \<and> queue (chans w ! ch) \<noteq> []")
    case True
    then obtain m ms where q: "queue (chans w ! ch) = m # ms" by (cases "queue (chans w ! ch)") auto
    then have "r = Some m" "cs = (chans w)[ch := (chans w ! ch)\<lparr>queue := ms, received := received (chans w ! ch) + 1\<rparr>]"
      using poll(1) True by (auto simp: try_recv_def Let_def)
    then show ?thesis using fifo_pop [OF inv(1) _ q] awake_pop [OF inv(2) q] inv(3) True by (simp add: ipc_inv_def)
  next
    case False
    then have "r = None" "cs = chans w" using poll(1) by (auto simp: try_recv_def Let_def split: if_splits list.splits)
    then show ?thesis using poll(2) by (simp add: ipc_inv_def)
  qed
next
  case (other w s)
  have "awake (chans w) s (owed w)"
    using other(2,3) unfolding ipc_inv_def awake_def by blast
  with other sched_inv_step [OF other(1)] show ?case by (simp add: ipc_inv_def)
qed

interpretation ipc: invariant_of ipc_boot ipc_step ipc_inv
proof
  fix w assume "ipc_boot w"
  then show "ipc_inv w" by (auto simp: ipc_boot_def ipc_inv_def fifo_def awake_def sched_boot_inv)
qed (rule ipc_inv_step)

section \<open>Properties\<close>

text \<open>
  C20: Channels deliver. In every interleaving of senders, receivers on any core and the scheduler:
  what was received from a channel, followed by what is still queued, is exactly what was sent to
  it, in order, and the statistics count it; and no wakeup is lost: if a thread waits on a channel
  that holds a message, a sender still has its call of \<open>wake_all_on\<close> ahead of it, and after that call
  the thread is runnable.
\<close>

theorem channels_deliver:
  assumes "reach ipc_boot ipc_step w" and "ch < length (chans w)"
  shows "put w ch = got w ch @ queue (chans w ! ch)
    \<and> ipc_stats ch (chans w) = (length (put w ch), length (got w ch), length (put w ch) - length (got w ch))
    \<and> (\<forall>t<length (threads (sch w)). state (threads (sch w) ! t) = Blocked ch \<and> queue (chans w ! ch) \<noteq> [] \<longrightarrow>
        ch \<in> set (owed w) \<and> state (threads (wake_all_on ch (sch w)) ! t) = Runnable)"
proof -
  have inv: "ipc_inv w" using assms(1) by (rule ipc.inv_reach)
  have f: "put w ch = got w ch @ queue (chans w ! ch)" "sent (chans w ! ch) = length (put w ch)" "received (chans w ! ch) = length (got w ch)"
    using inv assms(2) by (simp_all add: ipc_inv_def fifo_def)
  then have "ipc_stats ch (chans w) = (length (put w ch), length (got w ch), length (put w ch) - length (got w ch))"
    using assms(2) by (simp add: ipc_stats_def Let_def)
  moreover have "ch \<in> set (owed w)" if "t < length (threads (sch w))" "state (threads (sch w) ! t) = Blocked ch" "queue (chans w ! ch) \<noteq> []" for t
    using inv assms(2) that by (auto simp: ipc_inv_def awake_def)
  ultimately show ?thesis using f(1) by (simp add: wake_def)
qed

theorem channels_deliver_witness:
  "\<exists>w. reach ipc_boot ipc_step w \<and> 0 < length (chans w) \<and> put w 0 = [\<lparr>from_pid = 7, m_bytes = [1, 2]\<rparr>]
     \<and> ipc_stats 0 (chans w) = (1, 0, 1)"
proof -
  obtain s where s: "sched_boot s" using demo_sched_boots by blast
  let ?m = "\<lparr>from_pid = 7, m_bytes = [1, 2]\<rparr>"
  define w0 where "w0 = \<lparr>chans = [], sch = s, owed = [], put = \<lambda>_. [], got = \<lambda>_. []\<rparr>"
  define w1 where "w1 = w0\<lparr>chans := snd (ipc_create [])\<rparr>"
  define w2 where "w2 = w1\<lparr>chans := snd (enqueue 0 7 [1, 2] (chans w1)), owed := [0], put := (\<lambda>_. [])(0 := [?m])\<rparr>"
  have "reach ipc_boot ipc_step w0" by (rule reach_init) (simp add: ipc_boot_def w0_def s)
  then have 1: "reach ipc_boot ipc_step w1"
    by (rule reach_step) (use ipc_step.create [of w0 0 "snd (ipc_create [])"] in \<open>simp add: w1_def w0_def ipc_create_def\<close>)
  have "ipc_step w1 w2"
    using ipc_step.send [of 0 7 "[1, 2]" w1 2 "chans w2"] by (simp add: w2_def w1_def w0_def ipc_create_def enqueue_def)
  with 1 have r: "reach ipc_boot ipc_step w2" by (rule reach_step)
  have l: "0 < length (chans w2)" by (simp add: w2_def w1_def ipc_create_def enqueue_def)
  from channels_deliver [OF r l] r l show ?thesis
    by (intro exI [of _ w2]) (simp add: w2_def w1_def w0_def)
qed

end
