(* ===== verification/Paging.thy ===== *)
theory Paging
  imports Heap Bytes "HOL-Library.Sublist"
begin

text \<open>
  Page tables and address spaces, \<open>kernel/src/mm/paging.rs\<close>, and the copies across the user
  boundary, \<open>kernel/src/mm/uaccess.rs\<close>. Physical memory is a map from addresses to bytes, reached
  through the linear map, so a physical address stands for the kernel pointer to it; a table entry is
  eight bytes of it. User addresses are \<open>nat\<close>. The TLB flush and the system registers are not part of
  the state: the theorems are about what a table walk finds.

  Shown: the tables of a space form a tree that every operation keeps; \<open>map\<close> makes exactly the asked
  pages translate to the asked frames and changes no other translation, in this space or in any
  other; \<open>unmap\<close> undoes exactly its pages; what is copied to user memory is what is read back.
\<close>

section \<open>Physical memory\<close>

type_synonym pmem = "nat \<Rightarrow> u8"

definition mread :: "pmem \<Rightarrow> nat \<Rightarrow> nat \<Rightarrow> bytes" where
  "mread m a n = map m [a..<a + n]"

definition mwrite :: "pmem \<Rightarrow> nat \<Rightarrow> bytes \<Rightarrow> pmem" where
  "mwrite m a bs = (\<lambda>x. if a \<le> x \<and> x < a + length bs then bs ! (x - a) else m x)"

definition rd64 :: "pmem \<Rightarrow> nat \<Rightarrow> u64" where
  "rd64 m a = le_word (mread m a 8)"

definition wr64 :: "pmem \<Rightarrow> nat \<Rightarrow> u64 \<Rightarrow> pmem" where
  "wr64 m a w = mwrite m a (le_bytes 8 w)"

record kmem =
  pm :: pmem
  kfr :: frames
  NEXT_ASID :: u64

section \<open>Descriptors\<close>

definition PTE_VALID :: u64 where "PTE_VALID = push_bit 0 1"
definition PTE_TABLE_OR_PAGE :: u64 where "PTE_TABLE_OR_PAGE = push_bit 1 1"
definition PTE_ATTR_NORMAL :: u64 where "PTE_ATTR_NORMAL = push_bit 2 1"
definition PTE_AP_EL0 :: u64 where "PTE_AP_EL0 = push_bit 6 1"
definition PTE_AP_RO :: u64 where "PTE_AP_RO = push_bit 7 1"
definition PTE_SH_INNER :: u64 where "PTE_SH_INNER = push_bit 8 3"
definition PTE_AF :: u64 where "PTE_AF = push_bit 10 1"
definition PTE_NG :: u64 where "PTE_NG = push_bit 11 1"
definition PTE_PXN :: u64 where "PTE_PXN = push_bit 53 1"
definition PTE_UXN :: u64 where "PTE_UXN = push_bit 54 1"
definition ADDR_MASK :: u64 where "ADDR_MASK = 0x0000FFFFFFFFF000"

datatype Perm = UserText | UserReadOnly | UserData | UserDevice

definition perm_bits :: "Perm \<Rightarrow> u64" where
  "perm_bits perm =
    (let common = PTE_VALID OR PTE_TABLE_OR_PAGE OR PTE_ATTR_NORMAL OR PTE_SH_INNER OR PTE_AF
           OR PTE_NG OR PTE_AP_EL0 OR PTE_PXN in
     case perm of
       UserText \<Rightarrow> common OR PTE_AP_RO
     | UserReadOnly \<Rightarrow> common OR PTE_AP_RO OR PTE_UXN
     | UserData \<Rightarrow> common OR PTE_UXN
     | UserDevice \<Rightarrow> (common AND NOT PTE_ATTR_NORMAL AND NOT PTE_SH_INNER) OR PTE_UXN)"

definition index :: "nat \<Rightarrow> nat \<Rightarrow> nat" where
  "index va level = (va div 2 ^ (39 - level * 9)) mod 512"

section \<open>Address spaces\<close>

definition alloc_table :: "kmem \<Rightarrow> nat option \<times> kmem" where
  "alloc_table k = (case frames_alloc (kfr k) of
     (None, f) \<Rightarrow> (None, k\<lparr>kfr := f\<rparr>)
   | (Some pa, f) \<Rightarrow> (Some pa, k\<lparr>kfr := f, pm := mwrite (pm k) pa (replicate PAGE_SIZE 0)\<rparr>))"

record AddressSpace =
  as_root :: nat
  as_asid :: u64
  as_owned :: "nat list"

definition AddressSpace_new :: "kmem \<Rightarrow> AddressSpace option \<times> kmem" where
  "AddressSpace_new k = (case alloc_table k of
     (None, k) \<Rightarrow> (None, k)
   | (Some root, k) \<Rightarrow> (Some \<lparr>as_root = root, as_asid = NEXT_ASID k AND 0xffff, as_owned = [root]\<rparr>,
       k\<lparr>NEXT_ASID := NEXT_ASID k + 1\<rparr>))"

definition space_ttbr0 :: "AddressSpace \<Rightarrow> u64" where
  "space_ttbr0 sp = push_bit 48 (as_asid sp) OR of_nat (as_root sp)"

text \<open>\<open>entry_for\<close>: the walk that creates missing tables, level by level.\<close>

fun walk_create :: "nat \<Rightarrow> nat list \<Rightarrow> nat \<Rightarrow> AddressSpace \<Rightarrow> kmem \<Rightarrow> nat option \<times> AddressSpace \<times> kmem" where
  "walk_create va [] table sp k = (Some table, sp, k)"
| "walk_create va (level # levels) table sp k =
    (let a = table + 8 * index va level; e = rd64 (pm k) a in
     if e AND PTE_VALID = 0 then
       (case alloc_table k of
          (None, k) \<Rightarrow> (None, sp, k)
        | (Some nxt, k) \<Rightarrow>
            let e = of_nat nxt OR PTE_VALID OR PTE_TABLE_OR_PAGE in
            walk_create va levels (unat (e AND ADDR_MASK)) (sp\<lparr>as_owned := as_owned sp @ [nxt]\<rparr>) (k\<lparr>pm := wr64 (pm k) a e\<rparr>))
     else walk_create va levels (unat (e AND ADDR_MASK)) sp k)"

definition entry_for :: "nat \<Rightarrow> AddressSpace \<Rightarrow> kmem \<Rightarrow> nat option \<times> AddressSpace \<times> kmem" where
  "entry_for va sp k = (case walk_create va [0, 1, 2] (as_root sp) sp k of
     (r, sp, k) \<Rightarrow> (map_option (\<lambda>table. table + 8 * index va 3) r, sp, k))"

fun map_loop :: "nat \<Rightarrow> nat \<Rightarrow> Perm \<Rightarrow> nat list \<Rightarrow> AddressSpace \<Rightarrow> kmem \<Rightarrow> unit result \<times> AddressSpace \<times> kmem" where
  "map_loop va pa perm [] sp k = (Inr (), sp, k)"
| "map_loop va pa perm (i # is) sp k =
    (case entry_for (va + i * PAGE_SIZE) sp k of
       (None, sp, k) \<Rightarrow> (Inl ''out of frames for page tables'', sp, k)
     | (Some e, sp, k) \<Rightarrow>
         map_loop va pa perm is sp (k\<lparr>pm := wr64 (pm k) e (of_nat (pa + i * PAGE_SIZE) OR perm_bits perm)\<rparr>))"

definition space_map :: "nat \<Rightarrow> nat \<Rightarrow> nat \<Rightarrow> Perm \<Rightarrow> AddressSpace \<Rightarrow> kmem \<Rightarrow> unit result \<times> AddressSpace \<times> kmem" where
  "space_map va pa pages perm sp k =
    (if va mod PAGE_SIZE \<noteq> 0 \<or> pa mod PAGE_SIZE \<noteq> 0 then (Inl ''unaligned mapping'', sp, k)
     else map_loop va pa perm [0..<pages] sp k)"

fun map_anonymous_loop :: "nat \<Rightarrow> Perm \<Rightarrow> nat list \<Rightarrow> AddressSpace \<Rightarrow> kmem \<Rightarrow> unit result \<times> AddressSpace \<times> kmem" where
  "map_anonymous_loop va perm [] sp k = (Inr (), sp, k)"
| "map_anonymous_loop va perm (i # is) sp k =
    (case alloc_table k of
       (None, k) \<Rightarrow> (Inl ''out of frames'', sp, k)
     | (Some frame, k) \<Rightarrow>
         (case space_map (va + i * PAGE_SIZE) frame 1 perm (sp\<lparr>as_owned := as_owned sp @ [frame]\<rparr>) k of
            (Inl e, sp, k) \<Rightarrow> (Inl e, sp, k)
          | (Inr _, sp, k) \<Rightarrow> map_anonymous_loop va perm is sp k))"

definition map_anonymous :: "nat \<Rightarrow> nat \<Rightarrow> Perm \<Rightarrow> AddressSpace \<Rightarrow> kmem \<Rightarrow> unit result \<times> AddressSpace \<times> kmem" where
  "map_anonymous va pages perm sp k = map_anonymous_loop va perm [0..<pages] sp k"

text \<open>The read-only walk of \<open>translate\<close> and \<open>unmap\<close>, over the indices of the levels.\<close>

fun walk :: "pmem \<Rightarrow> nat \<Rightarrow> nat list \<Rightarrow> nat option" where
  "walk m table [] = Some table"
| "walk m table (i # is) = (let e = rd64 m (table + 8 * i) in
     if e AND PTE_VALID = 0 then None else walk m (unat (e AND ADDR_MASK)) is)"

definition unmap_page :: "nat \<Rightarrow> AddressSpace \<Rightarrow> pmem \<Rightarrow> pmem" where
  "unmap_page addr sp m = (case walk m (as_root sp) (map (index addr) [0, 1, 2]) of
     None \<Rightarrow> m | Some table \<Rightarrow> wr64 m (table + 8 * index addr 3) 0)"

definition unmap :: "nat \<Rightarrow> nat \<Rightarrow> AddressSpace \<Rightarrow> kmem \<Rightarrow> kmem" where
  "unmap va pages sp k = k\<lparr>pm := fold (\<lambda>i. unmap_page (va + i * PAGE_SIZE) sp) [0..<pages] (pm k)\<rparr>"

definition translate :: "AddressSpace \<Rightarrow> pmem \<Rightarrow> nat \<Rightarrow> nat option" where
  "translate sp m va = (case walk m (as_root sp) (map (index va) [0, 1, 2]) of
     None \<Rightarrow> None
   | Some table \<Rightarrow> (let e = rd64 m (table + 8 * index va 3) in
       if e AND PTE_VALID = 0 then None else Some (unat (e AND ADDR_MASK) OR (va AND (PAGE_SIZE - 1)))))"

text \<open>Dropping a space returns everything it owns.\<close>

definition space_drop :: "AddressSpace \<Rightarrow> kmem \<Rightarrow> kmem" where
  "space_drop sp k = k\<lparr>kfr := fold frames_free (as_owned sp) (kfr k)\<rparr>"

section \<open>Copies\<close>

definition MAX_TRANSFER :: nat where "MAX_TRANSFER = 4096"

function copy_from_loop :: "AddressSpace \<Rightarrow> pmem \<Rightarrow> nat \<Rightarrow> nat \<Rightarrow> bytes \<Rightarrow> bytes result" where
  "copy_from_loop sp m va left out = (if left = 0 then Inr out
     else case translate sp m va of
       None \<Rightarrow> Inl ''unmapped user address''
     | Some pa \<Rightarrow> let n = min (PAGE_SIZE - va mod PAGE_SIZE) left in
         copy_from_loop sp m (va + n) (left - n) (out @ mread m pa n))"
  by pat_completeness auto
termination
  by (relation "measure (\<lambda>(sp, m, va, left, out). left)") (auto simp: PAGE_SIZE_def)

declare copy_from_loop.simps [simp del]

definition copy_from_user :: "AddressSpace \<Rightarrow> pmem \<Rightarrow> nat \<Rightarrow> nat \<Rightarrow> bytes result" where
  "copy_from_user sp m uva len = (if len > MAX_TRANSFER then Inl ''transfer too large''
     else copy_from_loop sp m uva len [])"

function copy_to_user :: "AddressSpace \<Rightarrow> pmem \<Rightarrow> nat \<Rightarrow> bytes \<Rightarrow> unit result \<times> pmem" where
  "copy_to_user sp m va data = (if data = [] then (Inr (), m)
     else case translate sp m va of
       None \<Rightarrow> (Inl ''unmapped user address'', m)
     | Some pa \<Rightarrow> let n = min (PAGE_SIZE - va mod PAGE_SIZE) (length data) in
         copy_to_user sp (mwrite m pa (take n data)) (va + n) (drop n data))"
  by pat_completeness auto
termination
  by (relation "measure (\<lambda>(sp, m, va, data). length data)") (auto simp: PAGE_SIZE_def)

declare copy_to_user.simps [simp del]

section \<open>Memory\<close>

lemma length_mread [simp]: "length (mread m a n) = n"
  by (simp add: mread_def)

lemma mread_cong: "(\<And>x. a \<le> x \<Longrightarrow> x < a + n \<Longrightarrow> m x = m' x) \<Longrightarrow> mread m a n = mread m' a n"
  by (simp add: mread_def)

lemma mread_mwrite_same [simp]: "mread (mwrite m a bs) a (length bs) = bs"
  by (rule nth_equalityI) (simp_all add: mread_def mwrite_def)

lemma mread_mwrite_disj: "a' + n \<le> a \<or> a + length bs \<le> a' \<Longrightarrow> mread (mwrite m a bs) a' n = mread m a' n"
  by (rule mread_cong) (auto simp: mwrite_def)

lemma rd64_wr64_same [simp]: "rd64 (wr64 m a w) a = w"
  using mread_mwrite_same [of m a "le_bytes 8 w"] by (simp add: rd64_def wr64_def)

lemma rd64_wr64_disj: "a' + 8 \<le> a \<or> a + 8 \<le> a' \<Longrightarrow> rd64 (wr64 m a w) a' = rd64 m a'"
  by (simp add: rd64_def wr64_def mread_mwrite_disj)

text \<open>Words of tables: slot \<open>i\<close> of the frame \<open>t\<close>. Two of them are the same or do not overlap.\<close>

lemma slot_disj:
  assumes "t mod PAGE_SIZE = 0" "t' mod PAGE_SIZE = 0" "i < 512" "i' < 512" "t \<noteq> t' \<or> i \<noteq> i'"
  shows "t' + 8 * i' + 8 \<le> t + 8 * i \<or> t + 8 * i + 8 \<le> t' + 8 * i'"
proof (cases "t = t'")
  case True
  with assms show ?thesis by auto
next
  case False
  obtain q q' where q: "t = 4096 * q" "t' = 4096 * q'" using assms(1,2) by (auto simp: PAGE_SIZE_def elim!: dvdE)
  with False assms(3,4) show ?thesis by auto
qed

lemma rd64_slot:
  assumes "t mod PAGE_SIZE = 0" "t' mod PAGE_SIZE = 0" "i < 512" "i' < 512"
  shows "rd64 (wr64 m (t + 8 * i) w) (t' + 8 * i') = (if t' = t \<and> i' = i then w else rd64 m (t' + 8 * i'))"
proof (cases "t' = t \<and> i' = i")
  case False
  then have "t \<noteq> t' \<or> i \<noteq> i'" by auto
  from rd64_wr64_disj [OF slot_disj [OF assms this]] False show ?thesis by auto
qed simp

definition in_frame :: "nat \<Rightarrow> nat \<Rightarrow> bool" where
  "in_frame f x \<longleftrightarrow> f \<le> x \<and> x < f + PAGE_SIZE"

text \<open>Changing bytes outside a table frame does not change its slots.\<close>

lemma rd64_outside:
  assumes "t mod PAGE_SIZE = 0" "i < 512" and "\<And>x. in_frame t x \<Longrightarrow> m' x = m x"
  shows "rd64 m' (t + 8 * i) = rd64 m (t + 8 * i)"
  unfolding rd64_def using assms(2)
  by (intro arg_cong [where f = le_word] mread_cong assms(3)) (auto simp: in_frame_def PAGE_SIZE_def)

lemma frames_disjoint: "f mod PAGE_SIZE = 0 \<Longrightarrow> t mod PAGE_SIZE = 0 \<Longrightarrow> f \<noteq> t \<Longrightarrow> in_frame t x \<Longrightarrow> \<not> in_frame f x"
proof -
  assume a: "f mod PAGE_SIZE = 0" "t mod PAGE_SIZE = 0" "f \<noteq> t" "in_frame t x"
  obtain q q' where q: "f = 4096 * q" "t = 4096 * q'" using a(1,2) by (auto simp: PAGE_SIZE_def elim!: dvdE)
  with a(3,4) show ?thesis by (auto simp: in_frame_def PAGE_SIZE_def)
qed

lemma zeroed_slot: "i < 512 \<Longrightarrow> rd64 (mwrite m f (replicate PAGE_SIZE 0)) (f + 8 * i) = 0"
proof -
  assume i: "i < 512"
  have "mread (mwrite m f (replicate PAGE_SIZE 0)) (f + 8 * i) 8 = replicate 8 0"
    by (rule nth_equalityI) (use i in \<open>auto simp: mread_def mwrite_def PAGE_SIZE_def\<close>)
  then show ?thesis by (simp add: rd64_def)
qed

section \<open>Descriptors\<close>

lemma ADDR_MASK_bits: "ADDR_MASK = push_bit 12 (mask 36)"
  by (simp add: ADDR_MASK_def mask_eq_exp_minus_1 push_bit_eq_mult)

lemma addr_masked:
  assumes "pa mod PAGE_SIZE = 0" and "pa < 2 ^ 48"
  shows "(of_nat pa :: u64) AND ADDR_MASK = of_nat pa"
proof (rule bit_word_eqI)
  fix n assume "n < LENGTH(64)"
  have "bit pa n \<Longrightarrow> 12 \<le> n \<and> n < 48"
  proof -
    assume b: "bit pa n"
    have "take_bit 12 pa = 0" using assms(1) by (simp add: take_bit_eq_mod PAGE_SIZE_def)
    then have "\<not> bit pa n" if "n < 12" using that by (metis bit_0_eq bit_take_bit_iff bot_apply bot_bool_def)
    moreover have "take_bit 48 pa = pa" using assms(2) by (simp add: take_bit_nat_eq_self)
    then have "n < 48" using b by (metis bit_take_bit_iff)
    ultimately show ?thesis using b by force
  qed
  then show "bit ((of_nat pa :: u64) AND ADDR_MASK) n = bit (of_nat pa :: u64) n"
    by (auto simp: ADDR_MASK_bits bit_and_iff bit_push_bit_iff bit_mask_iff bit_of_nat_iff)
qed

lemma perm_bits_mask: "perm_bits perm AND ADDR_MASK = 0"
  by (cases perm) (simp_all add: perm_bits_def ADDR_MASK_def PTE_VALID_def PTE_TABLE_OR_PAGE_def PTE_ATTR_NORMAL_def
      PTE_AP_EL0_def PTE_AP_RO_def PTE_SH_INNER_def PTE_AF_def PTE_NG_def PTE_PXN_def PTE_UXN_def)

lemma perm_bits_valid: "(perm_bits perm) AND PTE_VALID \<noteq> 0"
  by (cases perm) (simp_all add: perm_bits_def PTE_VALID_def PTE_TABLE_OR_PAGE_def PTE_ATTR_NORMAL_def
      PTE_AP_EL0_def PTE_AP_RO_def PTE_SH_INNER_def PTE_AF_def PTE_NG_def PTE_PXN_def PTE_UXN_def)

lemma descriptor:
  assumes "pa mod PAGE_SIZE = 0" and "pa < 2 ^ 48" and "b AND ADDR_MASK = 0" and "b AND PTE_VALID \<noteq> 0"
  shows "((of_nat pa :: u64) OR b) AND PTE_VALID \<noteq> 0" and "unat (((of_nat pa :: u64) OR b) AND ADDR_MASK) = pa"
proof -
  have "((of_nat pa :: u64) OR b) AND PTE_VALID = (of_nat pa AND PTE_VALID) OR (b AND PTE_VALID)"
    by (simp add: bit.conj_disj_distrib2)
  then show "((of_nat pa :: u64) OR b) AND PTE_VALID \<noteq> 0" using assms(4) by (simp add: or_eq_0_iff)
  have "((of_nat pa :: u64) OR b) AND ADDR_MASK = of_nat pa"
    using addr_masked [OF assms(1,2)] assms(3) by (simp add: bit.conj_disj_distrib2)
  then show "unat (((of_nat pa :: u64) OR b) AND ADDR_MASK) = pa"
    using assms(2) by (simp add: unat_of_nat)
qed

lemma table_descriptor:
  assumes "pa mod PAGE_SIZE = 0" and "pa < 2 ^ 48"
  shows "(of_nat pa OR PTE_VALID OR PTE_TABLE_OR_PAGE) AND PTE_VALID \<noteq> 0"
    and "unat ((of_nat pa OR PTE_VALID OR PTE_TABLE_OR_PAGE) AND ADDR_MASK) = pa"
  using descriptor [OF assms, of "PTE_VALID OR PTE_TABLE_OR_PAGE"]
  by (simp_all add: PTE_VALID_def PTE_TABLE_OR_PAGE_def ADDR_MASK_def or.assoc)

section \<open>Tables form a tree\<close>

definition is_path :: "nat list \<Rightarrow> bool" where
  "is_path p \<longleftrightarrow> (\<forall>i\<in>set p. i < 512)"

definition tree :: "pmem \<Rightarrow> nat \<Rightarrow> nat set \<Rightarrow> bool" where
  "tree m root F \<longleftrightarrow> (\<forall>f\<in>F. f mod PAGE_SIZE = 0)
     \<and> (\<forall>p t. is_path p \<and> length p \<le> 3 \<and> walk m root p = Some t \<longrightarrow> t \<in> F)
     \<and> (\<forall>p q t. is_path p \<and> is_path q \<and> length p \<le> 3 \<and> length q \<le> 3 \<and> walk m root p = Some t \<and> walk m root q = Some t \<longrightarrow> p = q)"

lemma is_path_simps [simp]: "is_path []" "is_path (i # p) \<longleftrightarrow> i < 512 \<and> is_path p" "is_path (p @ q) \<longleftrightarrow> is_path p \<and> is_path q"
  by (auto simp: is_path_def)

lemma walk_append: "walk m t (p @ q) = Option.bind (walk m t p) (\<lambda>t'. walk m t' q)"
  by (induction p arbitrary: t) (auto simp: Let_def)

lemma walk_snoc: "walk m t (p @ [i]) = Option.bind (walk m t p) (\<lambda>t'. let e = rd64 m (t' + 8 * i) in
    if e AND PTE_VALID = 0 then None else Some (unat (e AND ADDR_MASK)))"
  by (simp add: walk_append Let_def cong: if_cong)

lemma tree_frame:
  assumes "tree m root F" "is_path p" "length p \<le> 3" "walk m root p = Some t"
  shows "t \<in> F" "t mod PAGE_SIZE = 0"
  using assms by (auto simp: tree_def)

lemma tree_inj:
  assumes "tree m root F" "is_path p" "is_path q" "length p \<le> 3" "length q \<le> 3" "walk m root p = Some t" "walk m root q = Some t"
  shows "p = q"
  using assms unfolding tree_def by blast

lemma tree_cong:
  assumes "tree m root F" and same: "\<And>q. is_path q \<Longrightarrow> length q \<le> 3 \<Longrightarrow> walk m' root q = walk m root q"
  shows "tree m' root F"
  unfolding tree_def
proof (intro conjI allI impI)
  fix p t assume "is_path p \<and> length p \<le> 3 \<and> walk m' root p = Some t"
  then show "t \<in> F" using same [of p] tree_frame(1) [OF assms(1), of p t] by simp
next
  fix p q t assume a: "is_path p \<and> is_path q \<and> length p \<le> 3 \<and> length q \<le> 3 \<and> walk m' root p = Some t \<and> walk m' root q = Some t"
  have "walk m root p = Some t" "walk m root q = Some t" using a same [of p, symmetric] same [of q, symmetric] by simp_all
  with a show "p = q" by (intro tree_inj [OF assms(1), of p q t]) blast+
qed (use assms(1) in \<open>unfold tree_def, blast\<close>)

text \<open>What a walk finds depends on the frames of the tree alone.\<close>

lemma walk_outside:
  assumes tr: "tree m root F" and same: "\<And>x f. f \<in> F \<Longrightarrow> in_frame f x \<Longrightarrow> m' x = m x"
    and "is_path q" "length q \<le> 4"
  shows "walk m' root q = walk m root q"
  using assms(3,4)
proof (induction q rule: rev_induct)
  case (snoc i q)
  have IH: "walk m' root q = walk m root q" using snoc by simp
  show ?case
  proof (cases "walk m root q")
    case (Some t)
    have t: "t \<in> F" "t mod PAGE_SIZE = 0" using tree_frame [OF tr _ _ Some] snoc.prems by simp_all
    have "rd64 m' (t + 8 * i) = rd64 m (t + 8 * i)"
      using snoc.prems by (intro rd64_outside [OF t(2)] same [OF t(1)]) simp_all
    then show ?thesis using IH Some by (simp add: walk_snoc)
  qed (simp add: walk_snoc IH)
qed simp

text \<open>Writing a slot changes only the walks through it.\<close>

lemma walk_slot:
  assumes tr: "tree m root F" and p: "is_path p" "length p \<le> 3" "walk m root p = Some t" "i < 512"
    and q: "is_path q" "length q \<le> 4" "\<not> prefix (p @ [i]) q"
  shows "walk (wr64 m (t + 8 * i) w) root q = walk m root q"
  using q
proof (induction q rule: rev_induct)
  case (snoc j q)
  let ?m = "wr64 m (t + 8 * i) w"
  have IH: "walk ?m root q = walk m root q" using snoc by simp
  show ?case
  proof (cases "walk m root q")
    case (Some t')
    have t: "t mod PAGE_SIZE = 0" "t' mod PAGE_SIZE = 0"
      using tree_frame(2) [OF tr p(1-3)] tree_frame(2) [OF tr _ _ Some] snoc.prems by simp_all
    have "\<not> (t' = t \<and> j = i)"
      using tree_inj [OF tr p(1) _ p(2) _ p(3), of q] Some snoc.prems by auto
    then have "rd64 ?m (t' + 8 * j) = rd64 m (t' + 8 * j)"
      using rd64_slot [OF t p(4), of j m w] snoc.prems by (simp only: if_False is_path_simps simp_thms)
    then show ?thesis using IH Some by (simp add: walk_snoc)
  qed (simp add: walk_snoc IH)
qed simp

lemma walk_slot_through:
  assumes tr: "tree m root F" and p: "is_path p" "length p \<le> 3" "walk m root p = Some t" "i < 512"
  shows "walk (wr64 m (t + 8 * i) w) root (p @ i # r) =
    (if w AND PTE_VALID = 0 then None else walk (wr64 m (t + 8 * i) w) (unat (w AND ADDR_MASK)) r)"
proof -
  have "\<not> prefix (p @ [i]) p" by (metis append_Nil2 append_prefixD not_Cons_self2 prefix_def same_prefix_nil append.assoc)
  then have "walk (wr64 m (t + 8 * i) w) root p = Some t"
    using walk_slot [OF tr p p(1)] p by simp
  then show ?thesis by (simp add: walk_append Let_def)
qed

text \<open>A leaf descriptor: one translation changes, the tree does not.\<close>

lemma leaf_write:
  assumes tr: "tree m root F" and p: "is_path p" "length p = 3" "walk m root p = Some t" "i < 512"
  shows "tree (wr64 m (t + 8 * i) w) root F"
    and "is_path q \<Longrightarrow> length q = 4 \<Longrightarrow> walk (wr64 m (t + 8 * i) w) root q =
      (if q = p @ [i] then (if w AND PTE_VALID = 0 then None else Some (unat (w AND ADDR_MASK))) else walk m root q)"
proof -
  have p': "length p \<le> 3" using p(2) by simp
  have short: "walk (wr64 m (t + 8 * i) w) root q = walk m root q" if "is_path q" "length q \<le> 3" for q
  proof (rule walk_slot [OF tr p(1) p' p(3,4) that(1)])
    show "\<not> prefix (p @ [i]) q" using that(2) p(2) by (auto dest: prefix_length_le)
  qed (use that in simp)
  show "tree (wr64 m (t + 8 * i) w) root F"
    by (rule tree_cong [OF tr short])
  assume q: "is_path q" "length q = 4"
  have pre: "prefix (p @ [i]) q \<longleftrightarrow> q = p @ [i]"
  proof
    assume "prefix (p @ [i]) q"
    then obtain r where r: "q = (p @ [i]) @ r" by (auto simp: prefix_def)
    then have "length r = 0" using q(2) p(2) by simp
    with r show "q = p @ [i]" by simp
  qed simp
  show "walk (wr64 m (t + 8 * i) w) root q =
      (if q = p @ [i] then (if w AND PTE_VALID = 0 then None else Some (unat (w AND ADDR_MASK))) else walk m root q)"
    using walk_slot [OF tr p(1) p' p(3,4) q(1)] walk_slot_through [OF tr p(1) p' p(3,4), of w "[]"] q(2) pre by auto
qed

text \<open>A fresh, zeroed table hung into an empty slot: nothing translates differently.\<close>

lemma table_write:
  assumes tr: "tree m root F" and p: "is_path p" "length p \<le> 2" "walk m root p = Some t" "i < 512"
    and e: "rd64 m (t + 8 * i) AND PTE_VALID = 0"
    and f: "f \<notin> F" "f mod PAGE_SIZE = 0" "f < 2 ^ 48"
    and m': "m' = wr64 (mwrite m f (replicate PAGE_SIZE 0)) (t + 8 * i) (of_nat f OR PTE_VALID OR PTE_TABLE_OR_PAGE)"
  shows "tree m' root (insert f F)" and "walk m' root (p @ [i]) = Some f"
    and "is_path q \<Longrightarrow> length q \<le> 4 \<Longrightarrow> \<not> prefix (p @ [i]) q \<Longrightarrow> walk m' root q = walk m root q"
    and "is_path q \<Longrightarrow> length q = 4 \<Longrightarrow> walk m' root q = walk m root q"
proof -
  let ?z = "mwrite m f (replicate PAGE_SIZE 0)" and ?d = "of_nat f OR PTE_VALID OR PTE_TABLE_OR_PAGE :: u64"
  have p3: "length p \<le> 3" using p(2) by simp
  have t: "t \<in> F" "t mod PAGE_SIZE = 0" using tree_frame [OF tr p(1) p3 p(3)] by auto
  have al: "g mod PAGE_SIZE = 0" if "g \<in> F" for g using tr that by (simp add: tree_def)
  have "?z x = m x" if "g \<in> F" "in_frame g x" for g x
    using frames_disjoint [OF f(2) al [OF that(1)] _ that(2)] that(1) f(1) by (auto simp: mwrite_def in_frame_def)
  then have zw: "walk ?z root q = walk m root q" if "is_path q" "length q \<le> 4" for q
    using walk_outside [OF tr _ that, of ?z] by blast
  have trz: "tree ?z root F" by (rule tree_cong [OF tr zw]) simp_all
  have pz: "walk ?z root p = Some t" using zw [of p] p by simp
  note D = table_descriptor [OF f(2,3)]
  have thru: "walk m' root (p @ i # r) = walk m' f r" for r
    using walk_slot_through [OF trz p(1) p3 pz p(4), of ?d r] D by (simp add: m')
  have slots: "rd64 m' (f + 8 * j) = 0" if "j < 512" for j
    using rd64_slot [OF t(2) f(2) p(4) that] zeroed_slot [OF that] t(1) f(1) by (auto simp: m')
  have empty: "walk m' f r = (if r = [] then Some f else None)" if "is_path r" for r
    using that slots by (cases r) (simp_all add: Let_def)
  show keep: "walk m' root q = walk m root q" if "is_path q" "length q \<le> 4" "\<not> prefix (p @ [i]) q" for q
    using walk_slot [OF trz p(1) p3 pz p(4) that] zw [OF that(1,2)] by (simp add: m')
  show new: "walk m' root (p @ [i]) = Some f" using thru [of "[]"] by simp
  have was: "walk m root (p @ i # r) = None" for r using e p(3) by (simp add: walk_append Let_def)
  have below: "walk m' root q = (if q = p @ [i] then Some f else None)" if q: "is_path q" "prefix (p @ [i]) q" for q
  proof -
    obtain r where r: "q = p @ i # r" using q(2) by (auto simp: prefix_def)
    then have "is_path r" using q(1) by simp
    then show ?thesis using thru [of r] empty [of r] r by auto
  qed
  show "walk m' root q = walk m root q" if "is_path q" "length q = 4" for q
  proof (cases "prefix (p @ [i]) q")
    case True
    have "q \<noteq> p @ [i]" using that(2) p(2) by auto
    moreover have "walk m root q = None" using True was by (auto simp: prefix_def)
    ultimately show ?thesis using below [OF that(1) True] by simp
  next
    case False
    then show ?thesis using keep [OF that(1)] that(2) by simp
  qed
  have old: "s \<in> F" if "is_path q" "length q \<le> 3" "walk m' root q = Some s" "q \<noteq> p @ [i]" for q s
    using that below [of q] keep [of q] tree_frame(1) [OF tr that(1,2), of s] by (cases "prefix (p @ [i]) q") auto
  have old_walk: "walk m root q = Some s" if "is_path q" "length q \<le> 3" "walk m' root q = Some s" "q \<noteq> p @ [i]" for q s
    using that below [of q] keep [of q] by (cases "prefix (p @ [i]) q") auto
  show "tree m' root (insert f F)"
    unfolding tree_def
  proof (intro conjI allI impI ballI)
    fix g assume "g \<in> insert f F" then show "g mod PAGE_SIZE = 0" using f(2) al by auto
  next
    fix q s assume q: "is_path q \<and> length q \<le> 3 \<and> walk m' root q = Some s"
    then show "s \<in> insert f F" using old [of q s] new by (cases "q = p @ [i]") auto
  next
    fix q r s assume a: "is_path q \<and> is_path r \<and> length q \<le> 3 \<and> length r \<le> 3 \<and> walk m' root q = Some s \<and> walk m' root r = Some s"
    then show "q = r"
      using old [of q s] old [of r s] old_walk [of q s] old_walk [of r s] tree_inj [OF tr, of q r s] new f(1)
      by (cases "q = p @ [i]"; cases "r = p @ [i]") auto
  qed
qed

section \<open>Address spaces keep their tree\<close>

text \<open>\<open>own\<close> are all frames that are out, the space's among them.\<close>

definition space_ok :: "AddressSpace \<Rightarrow> kmem \<Rightarrow> nat set \<Rightarrow> bool" where
  "space_ok sp k own \<longleftrightarrow> tree (pm k) (as_root sp) (set (as_owned sp)) \<and> set (as_owned sp) \<subseteq> own
     \<and> (\<exists>lost. frames_ok (kfr k) own lost) \<and> END (kfr k) \<le> 2 ^ 48"

text \<open>
  What an operation on a space may do to the rest: take frames nobody had, and write only to frames
  of the space.
\<close>

definition extends :: "AddressSpace \<Rightarrow> kmem \<Rightarrow> nat set \<Rightarrow> AddressSpace \<Rightarrow> kmem \<Rightarrow> nat set \<Rightarrow> bool" where
  "extends sp k own sp' k' own' \<longleftrightarrow> space_ok sp' k' own' \<and> as_root sp' = as_root sp \<and> own \<subseteq> own'
     \<and> set (as_owned sp') = set (as_owned sp) \<union> (own' - own)
     \<and> (\<forall>x. (\<forall>f\<in>set (as_owned sp'). \<not> in_frame f x) \<longrightarrow> pm k' x = pm k x)"

lemma extends_refl: "space_ok sp k own \<Longrightarrow> extends sp k own sp k own"
  by (simp add: extends_def)

lemma extends_trans:
  assumes a: "extends sp k own sp1 k1 own1" and b: "extends sp1 k1 own1 sp2 k2 own2"
  shows "extends sp k own sp2 k2 own2"
proof -
  have "set (as_owned sp1) \<subseteq> set (as_owned sp2)" using b by (auto simp: extends_def)
  then have "pm k2 x = pm k x" if "\<forall>f\<in>set (as_owned sp2). \<not> in_frame f x" for x
    using a b that unfolding extends_def by (metis subsetD)
  moreover have "set (as_owned sp2) = set (as_owned sp) \<union> (own2 - own)" "own \<subseteq> own2"
    using a b unfolding extends_def by auto
  ultimately show ?thesis using a b unfolding extends_def by auto
qed

lemma frames_alloc_END: "frames_alloc fr = (r, fr') \<Longrightarrow> END fr' = END fr"
  by (auto simp: frames_alloc_def Let_def split: if_splits prod.splits)

lemma alloc_table_none: "space_ok sp k own \<Longrightarrow> alloc_table k = (None, k') \<Longrightarrow> extends sp k own sp k' own"
  using frames_alloc_ok [of "kfr k" own] frames_alloc_END [of "kfr k"]
  by (auto simp: alloc_table_def extends_def space_ok_def split: prod.splits option.splits) blast

lemma alloc_table_some:
  assumes "space_ok sp k own" and "alloc_table k = (Some f, k')"
  shows "f \<notin> own" "f mod PAGE_SIZE = 0" "f < 2 ^ 48" "\<exists>lost. frames_ok (kfr k') (insert f own) lost"
    "END (kfr k') \<le> 2 ^ 48" "pm k' = mwrite (pm k) f (replicate PAGE_SIZE 0)"
proof -
  obtain fr lost where fr: "frames_alloc (kfr k) = (Some f, fr)" "k' = k\<lparr>kfr := fr, pm := mwrite (pm k) f (replicate PAGE_SIZE 0)\<rparr>"
    and ok: "frames_ok (kfr k) own lost" "END (kfr k) \<le> 2 ^ 48"
    using assms by (auto simp: alloc_table_def space_ok_def split: prod.splits option.splits)
  have new: "f \<notin> own" "frames_ok fr (insert f own) lost" using frames_alloc_ok [OF ok(1) fr(1)] by auto
  have e: "END fr = END (kfr k)" using frames_alloc_END [OF fr(1)] .
  show "f \<notin> own" by (rule new)
  show "f mod PAGE_SIZE = 0" using frames_ok_owned(2) [OF new(2)] by simp
  show "f < 2 ^ 48" using frames_ok_owned(3) [OF new(2), of f] e ok(2) by (simp add: PAGE_SIZE_def)
  show "\<exists>lost. frames_ok (kfr k') (insert f own) lost" using new(2) fr(2) by auto
  show "END (kfr k') \<le> 2 ^ 48" "pm k' = mwrite (pm k) f (replicate PAGE_SIZE 0)" using e ok(2) fr(2) by simp_all
qed

lemma index_512 [simp]: "index va l < 512"
  by (simp add: index_def)

lemma in_frame_slot: "i < 512 \<Longrightarrow> t + 8 * i \<le> x \<Longrightarrow> x < t + 8 * i + 8 \<Longrightarrow> in_frame t x"
  by (auto simp: in_frame_def PAGE_SIZE_def)

lemma wr64_outside: "i < 512 \<Longrightarrow> \<not> in_frame t x \<Longrightarrow> wr64 m (t + 8 * i) w x = m x"
  using in_frame_slot [of i t x] by (auto simp: wr64_def mwrite_def)

text \<open>The walk that creates tables: it reaches the level-3 table, and no translation changes.\<close>

lemma walk_create_ok:
  assumes "walk_create va [l..<3] table sp k = (r, sp', k')" and "l \<le> 3" and "space_ok sp k own"
    and "walk (pm k) (as_root sp) (map (index va) [0..<l]) = Some table"
  shows "\<exists>own'. extends sp k own sp' k' own' \<and> (\<forall>q. is_path q \<and> length q = 4 \<longrightarrow> walk (pm k') (as_root sp) q = walk (pm k) (as_root sp) q)
    \<and> (case r of None \<Rightarrow> True | Some t \<Rightarrow> walk (pm k') (as_root sp) (map (index va) [0..<3]) = Some t)"
  using assms
proof (induction "3 - l" arbitrary: l table sp k own)
  case 0
  then show ?case using extends_refl by (auto intro!: exI [of _ own] split: option.splits)
next
  case (Suc d)
  then have l: "l < 3" "[l..<3] = l # [Suc l..<3]" by (simp_all add: upt_conv_Cons)
  let ?a = "table + 8 * index va l" and ?p = "map (index va) [0..<l]"
  have pth: "is_path ?p" "length ?p \<le> 2" "length ?p \<le> 3" using l by (auto simp: is_path_def)
  have snoc: "map (index va) [0..<Suc l] = ?p @ [index va l]" by simp
  have tr: "tree (pm k) (as_root sp) (set (as_owned sp))" using Suc.prems(3) by (simp add: space_ok_def)
  show ?case
  proof (cases "rd64 (pm k) ?a AND PTE_VALID = 0")
    case False
    let ?t = "unat (rd64 (pm k) ?a AND ADDR_MASK)"
    have w: "walk_create va [Suc l..<3] ?t sp k = (r, sp', k')"
      using Suc.prems(1) False by (simp add: l(2) Let_def)
    have "walk (pm k) (as_root sp) (map (index va) [0..<Suc l]) = Some ?t"
      unfolding snoc walk_snoc using Suc.prems(4) False by (simp add: Let_def)
    then show ?thesis using Suc.hyps(1) [OF _ w _ Suc.prems(3)] Suc.hyps(2) l by simp
  next
    case True
    obtain r1 k1 where al: "alloc_table k = (r1, k1)" by (cases "alloc_table k")
    show ?thesis
    proof (cases r1)
      case None
      then have "r = None" "sp' = sp" "k' = k1" using Suc.prems(1) True al by (simp_all add: l(2) Let_def)
      moreover have "pm k1 = pm k" using al None by (auto simp: alloc_table_def split: prod.splits option.splits)
      ultimately show ?thesis using alloc_table_none [OF Suc.prems(3)] al None by auto
    next
      case (Some f)
      note F = alloc_table_some [OF Suc.prems(3) al [unfolded Some]]
      define sp1 where "sp1 = sp\<lparr>as_owned := as_owned sp @ [f]\<rparr>"
      define k2 where "k2 = k1\<lparr>pm := wr64 (pm k1) ?a (of_nat f OR PTE_VALID OR PTE_TABLE_OR_PAGE)\<rparr>"
      have w: "walk_create va [Suc l..<3] f sp1 k2 = (r, sp', k')"
        using Suc.prems(1) True al Some table_descriptor(2) [OF F(2,3)] by (simp add: l(2) Let_def sp1_def k2_def)
      have sub: "set (as_owned sp) \<subseteq> own" using Suc.prems(3) by (simp add: space_ok_def)
      have pk: "pm k2 = wr64 (mwrite (pm k) f (replicate PAGE_SIZE 0)) ?a (of_nat f OR PTE_VALID OR PTE_TABLE_OR_PAGE)"
        by (simp add: k2_def F(6))
      have fn: "f \<notin> set (as_owned sp)" using F(1) sub by blast
      note T = table_write [OF tr pth(1,2) Suc.prems(4) index_512 True fn F(2,3) pk]
      have ok: "space_ok sp1 k2 (insert f own)"
        using T(1) sub F(4,5) by (auto simp: space_ok_def sp1_def k2_def)
      have tin: "table \<in> set (as_owned sp)" using tree_frame(1) [OF tr pth(1,3) Suc.prems(4)] .
      have out: "pm k2 x = pm k x" if "\<forall>g\<in>set (as_owned sp1). \<not> in_frame g x" for x
        using that tin wr64_outside [OF index_512, of table x] unfolding pk sp1_def by (auto simp: mwrite_def in_frame_def)
      have e1: "extends sp k own sp1 k2 (insert f own)"
        using ok out F(1) by (auto simp: extends_def sp1_def)
      have root: "as_root sp1 = as_root sp" by (simp add: sp1_def)
      have "walk (pm k2) (as_root sp1) (map (index va) [0..<Suc l]) = Some f"
        unfolding snoc root using T(2) .
      moreover have "d = 3 - Suc l" "Suc l \<le> 3" using Suc.hyps(2) l(1) by simp_all
      ultimately obtain own' where
        I: "extends sp1 k2 (insert f own) sp' k' own'"
          "\<forall>q. is_path q \<and> length q = 4 \<longrightarrow> walk (pm k') (as_root sp) q = walk (pm k2) (as_root sp) q"
          "case r of None \<Rightarrow> True | Some t \<Rightarrow> walk (pm k') (as_root sp) (map (index va) [0..<3]) = Some t"
        using Suc.hyps(1) [OF _ w _ ok] unfolding root by blast
      then show ?thesis using extends_trans [OF e1 I(1)] T(4) by (intro exI [of _ own']) auto
    qed
  qed
qed

section \<open>Mapping\<close>

definition path :: "nat \<Rightarrow> nat list" where
  "path va = map (index va) [0..<4]"

lemma path_snoc: "path va = map (index va) [0..<3] @ [index va 3]"
  by (simp add: path_def numeral_eq_Suc)

lemma path_list: "path va = [index va 0, index va 1, index va 2, index va 3]"
  by (simp add: path_def upt_rec numeral_eq_Suc)

lemma is_path_path [simp]: "is_path (path va)" "length (path va) = 4" "is_path (map (index va) is)"
  by (simp_all add: path_def is_path_def)

lemma levels: "[0, 1, 2] = [0..<3 :: nat]"
  by (simp add: upt_rec numeral_eq_Suc)

lemma translate_walk: "translate sp m va = map_option (\<lambda>pa. pa OR (va AND (PAGE_SIZE - 1))) (walk m (as_root sp) (path va))"
  unfolding translate_def path_snoc walk_snoc levels by (cases "walk m (as_root sp) (map (index va) [0..<3])") (simp_all add: Let_def)

text \<open>The four indices are the digits of the page number.\<close>

lemma digits:
  assumes "(n :: nat) < 512 ^ 4"
  shows "n = (((n div 512 ^ 3) mod 512 * 512 + (n div 512 ^ 2) mod 512) * 512 + (n div 512) mod 512) * 512 + n mod 512"
proof -
  have 3: "n div 512 ^ 3 < 512" using assms by (simp add: less_mult_imp_div_less)
  have "n div 512 ^ 2 = n div 512 div 512" "n div 512 ^ 3 = n div 512 div 512 div 512" by (simp_all flip: div_mult2_eq)
  with 3 show ?thesis
    using div_mult_mod_eq [of n 512] div_mult_mod_eq [of "n div 512" 512] div_mult_mod_eq [of "n div 512 div 512" 512] by simp
qed

lemma index_digits: "index va 3 = va div PAGE_SIZE mod 512" "index va 2 = va div PAGE_SIZE div 512 mod 512"
  "index va 1 = va div PAGE_SIZE div 512 ^ 2 mod 512" "index va 0 = va div PAGE_SIZE div 512 ^ 3 mod 512"
  by (simp_all add: index_def PAGE_SIZE_def flip: div_mult2_eq)

lemma path_inj:
  assumes "va < 2 ^ 48" "va' < 2 ^ 48"
  shows "path va = path va' \<longleftrightarrow> va div PAGE_SIZE = va' div PAGE_SIZE"
proof
  assume p: "path va = path va'"
  have eq: "index va 0 = index va' 0" "index va 1 = index va' 1" "index va 2 = index va' 2" "index va 3 = index va' 3"
    using p by (simp_all only: path_list list.inject)
  have lt: "va div PAGE_SIZE < 512 ^ 4" "va' div PAGE_SIZE < 512 ^ 4"
    using assms by (simp_all add: PAGE_SIZE_def less_mult_imp_div_less)
  note e = eq [unfolded index_digits]
  have "va div PAGE_SIZE = (((va div PAGE_SIZE div 512 ^ 3) mod 512 * 512 + (va div PAGE_SIZE div 512 ^ 2) mod 512) * 512
      + (va div PAGE_SIZE div 512) mod 512) * 512 + va div PAGE_SIZE mod 512" by (rule digits [OF lt(1)])
  also have "\<dots> = (((va' div PAGE_SIZE div 512 ^ 3) mod 512 * 512 + (va' div PAGE_SIZE div 512 ^ 2) mod 512) * 512
      + (va' div PAGE_SIZE div 512) mod 512) * 512 + va' div PAGE_SIZE mod 512" by (simp only: e)
  also have "\<dots> = va' div PAGE_SIZE" by (rule digits [OF lt(2), symmetric])
  finally show "va div PAGE_SIZE = va' div PAGE_SIZE" .
next
  assume "va div PAGE_SIZE = va' div PAGE_SIZE"
  then show "path va = path va'" by (simp only: path_list index_digits)
qed

lemma entry_for_ok:
  assumes "entry_for va sp k = (r, sp', k')" and "space_ok sp k own"
  shows "\<exists>own'. extends sp k own sp' k' own' \<and> (\<forall>q. is_path q \<and> length q = 4 \<longrightarrow> walk (pm k') (as_root sp) q = walk (pm k) (as_root sp) q)
    \<and> (case r of None \<Rightarrow> True | Some e \<Rightarrow> \<exists>t. walk (pm k') (as_root sp) (map (index va) [0..<3]) = Some t \<and> e = t + 8 * index va 3)"
proof -
  obtain r1 s1 k1 where w: "walk_create va [0..<3] (as_root sp) sp k = (r1, s1, k1)" by (metis prod_cases3)
  have r: "s1 = sp'" "k1 = k'" "r = map_option (\<lambda>table. table + 8 * index va 3) r1"
    using assms(1) unfolding entry_for_def levels w prod.case by simp_all
  have "walk (pm k) (as_root sp) (map (index va) [0..<0]) = Some (as_root sp)" by simp
  from walk_create_ok [OF w _ assms(2) this] r show ?thesis by (auto split: option.splits)
qed

lemma map_loop_ok:
  assumes "map_loop va pa perm is sp k = (r, sp', k')" and "space_ok sp k own"
    and "distinct is" and "\<And>i. i \<in> set is \<Longrightarrow> va + i * PAGE_SIZE < 2 ^ 48 \<and> pa + i * PAGE_SIZE < 2 ^ 48"
    and "va mod PAGE_SIZE = 0" and "pa mod PAGE_SIZE = 0"
  shows "\<exists>own'. extends sp k own sp' k' own'
    \<and> (\<forall>q. is_path q \<and> length q = 4 \<and> (\<forall>i\<in>set is. q \<noteq> path (va + i * PAGE_SIZE)) \<longrightarrow> walk (pm k') (as_root sp) q = walk (pm k) (as_root sp) q)
    \<and> (r = Inr () \<longrightarrow> (\<forall>i\<in>set is. walk (pm k') (as_root sp) (path (va + i * PAGE_SIZE)) = Some (pa + i * PAGE_SIZE)))"
  using assms
proof (induction "is" arbitrary: sp k own)
  case Nil
  then show ?case using extends_refl by (auto intro!: exI [of _ own])
next
  case (Cons i "is")
  let ?v = "va + i * PAGE_SIZE" and ?p = "pa + i * PAGE_SIZE"
  obtain re sp1 k1 where e: "entry_for ?v sp k = (re, sp1, k1)" by (cases "entry_for ?v sp k")
  from entry_for_ok [OF e Cons.prems(2)] obtain own1 where
    E: "extends sp k own sp1 k1 own1" "\<forall>q. is_path q \<and> length q = 4 \<longrightarrow> walk (pm k1) (as_root sp) q = walk (pm k) (as_root sp) q"
      "case re of None \<Rightarrow> True | Some e \<Rightarrow> \<exists>t. walk (pm k1) (as_root sp) (map (index ?v) [0..<3]) = Some t \<and> e = t + 8 * index ?v 3"
    by blast
  show ?case
  proof (cases re)
    case None
    then show ?thesis using Cons.prems(1) e E by (auto intro!: exI [of _ own1])
  next
    case (Some a)
    then obtain t where t: "walk (pm k1) (as_root sp) (map (index ?v) [0..<3]) = Some t" "a = t + 8 * index ?v 3"
      using E(3) by auto
    let ?d = "of_nat ?p OR perm_bits perm :: u64"
    define k2 where "k2 = k1\<lparr>pm := wr64 (pm k1) a ?d\<rparr>"
    have rest: "map_loop va pa perm is sp1 k2 = (r, sp', k')" using Cons.prems(1) e Some by (simp add: k2_def)
    have root: "as_root sp1 = as_root sp" and ok1: "space_ok sp1 k1 own1" using E(1) by (simp_all add: extends_def)
    have tr: "tree (pm k1) (as_root sp) (set (as_owned sp1))" using ok1 root by (simp add: space_ok_def)
    have l3: "length (map (index ?v) [0..<3]) = 3" by simp
    note L = leaf_write [OF tr is_path_path(3) l3 t(1) index_512 [of ?v 3], where w = ?d, folded t(2) path_snoc]
    have al: "?p mod PAGE_SIZE = 0" using Cons.prems(6) by simp
    have pb: "?p < 2 ^ 48" using Cons.prems(4) [of i] by simp
    note D = descriptor [OF al pb perm_bits_mask [of perm] perm_bits_valid [of perm]]
    have ok2: "space_ok sp1 k2 own1" using ok1 L(1) root by (simp add: space_ok_def k2_def)
    have tin: "t \<in> set (as_owned sp1)" using tree_frame(1) [OF tr is_path_path(3) _ t(1)] by simp
    have "extends sp1 k1 own1 sp1 k2 own1"
      using ok2 tin wr64_outside [OF index_512, of t] by (auto simp: extends_def k2_def t(2))
    with E(1) have e2: "extends sp k own sp1 k2 own1" by (rule extends_trans)
    have w2: "walk (pm k2) (as_root sp) q = (if q = path ?v then Some ?p else walk (pm k) (as_root sp) q)" if "is_path q" "length q = 4" for q
      using L(2) [OF that] D E(2) that by (simp add: k2_def)
    have d: "distinct is" "i \<notin> set is" using Cons.prems(3) by simp_all
    obtain own' where I: "extends sp1 k2 own1 sp' k' own'"
      "\<forall>q. is_path q \<and> length q = 4 \<and> (\<forall>i\<in>set is. q \<noteq> path (va + i * PAGE_SIZE)) \<longrightarrow> walk (pm k') (as_root sp) q = walk (pm k2) (as_root sp) q"
      "r = Inr () \<longrightarrow> (\<forall>i\<in>set is. walk (pm k') (as_root sp) (path (va + i * PAGE_SIZE)) = Some (pa + i * PAGE_SIZE))"
      using Cons.IH [OF rest ok2 d(1) Cons.prems(4) Cons.prems(5,6)] by (auto simp: root)
    have other: "path ?v \<noteq> path (va + j * PAGE_SIZE)" if "j \<in> set is" for j
    proof -
      have "?v div PAGE_SIZE \<noteq> (va + j * PAGE_SIZE) div PAGE_SIZE" using that d(2) by (auto simp: PAGE_SIZE_def)
      then show ?thesis using path_inj Cons.prems(4) that by simp
    qed
    then have "walk (pm k') (as_root sp) (path ?v) = Some ?p" using I(2) w2 by simp
    then show ?thesis
      using extends_trans [OF e2 I(1)] I(2,3) w2 by (intro exI [of _ own']) simp
  qed
qed

section \<open>Translations\<close>

lemma nat_or_page: "a mod PAGE_SIZE = 0 \<Longrightarrow> a OR (v AND (PAGE_SIZE - 1)) = a + v mod PAGE_SIZE"
proof -
  assume "a mod PAGE_SIZE = 0"
  then have "take_bit 12 a = 0" by (simp add: take_bit_eq_mod PAGE_SIZE_def)
  then have a: "\<not> bit a n" if "n < 12" for n using that by (metis bit_0_eq bit_take_bit_iff bot_apply bot_bool_def)
  have v: "v AND (PAGE_SIZE - 1) = take_bit 12 v" by (simp add: take_bit_eq_mask mask_eq_exp_minus_1 PAGE_SIZE_def)
  have "a + take_bit 12 v = a OR take_bit 12 v"
    by (rule disjunctive_add) (use a in \<open>auto simp: bit_take_bit_iff\<close>)
  then show ?thesis unfolding v by (simp add: take_bit_eq_mod PAGE_SIZE_def)
qed

lemma masked_aligned: "unat ((e :: u64) AND ADDR_MASK) mod PAGE_SIZE = 0"
proof -
  have "take_bit 12 (e AND ADDR_MASK) = 0"
    by (rule bit_word_eqI) (auto simp: ADDR_MASK_bits bit_take_bit_iff bit_and_iff bit_push_bit_iff)
  then have "unat (take_bit 12 (e AND ADDR_MASK)) = 0" by simp
  then have "take_bit 12 (unat (e AND ADDR_MASK)) = 0" by (simp only: unsigned_take_bit_eq)
  then show ?thesis by (simp add: take_bit_eq_mod PAGE_SIZE_def)
qed

lemma walk4_aligned: "walk m root (path va) = Some f \<Longrightarrow> f mod PAGE_SIZE = 0"
  using masked_aligned by (auto simp: path_snoc walk_snoc Let_def bind_eq_Some_conv split: if_splits)

lemma translate_eq: "translate sp m va = map_option (\<lambda>f. f + va mod PAGE_SIZE) (walk m (as_root sp) (path va))"
  using walk4_aligned [of m "as_root sp" va] nat_or_page by (cases "walk m (as_root sp) (path va)") (auto simp: translate_walk)

lemma path_page: "va div PAGE_SIZE = va' div PAGE_SIZE \<Longrightarrow> path va = path va'"
  by (simp only: path_list index_digits)

text \<open>The levels look at 48 bits: the top 16 bits of a pointer, which tell user from kernel addresses, are ignored.\<close>

lemma translate_ignores_high_bits: "translate sp m (va + 2 ^ 48 * j) = translate sp m va"
proof -
  have "index (va + 2 ^ 48 * j) l = index va l" if "l < 4" for l
  proof -
    have "l = 0 \<or> l = 1 \<or> l = 2 \<or> l = 3" using that by linarith
    then have "(2 :: nat) ^ 48 = 2 ^ (39 - l * 9) * (512 * 512 ^ l)" by (elim disjE) simp_all
    then have e: "2 ^ 48 * j = 2 ^ (39 - l * 9) * (512 * (512 ^ l * j))" by (simp only: mult.assoc)
    have "(va + 2 ^ 48 * j) div 2 ^ (39 - l * 9) = 512 * (512 ^ l * j) + va div 2 ^ (39 - l * 9)"
      unfolding e by (rule div_mult_self2) simp
    then show ?thesis by (simp only: index_def mod_mult_self4)
  qed
  then have "path (va + 2 ^ 48 * j) = path va" by (simp add: path_def)
  moreover have "(va + 2 ^ 48 * j) mod PAGE_SIZE = va mod PAGE_SIZE"
    using mod_mult_self2 [of va 4096 "2 ^ 36 * j"] by (simp add: PAGE_SIZE_def)
  ultimately show ?thesis by (simp add: translate_eq)
qed

text \<open>Another space shares no frame with this one, and nothing it maps changes.\<close>

lemma extends_isolated:
  assumes e: "extends sp k own sp' k' own'" and o: "space_ok other k own" and d: "set (as_owned other) \<inter> set (as_owned sp) = {}"
  shows "space_ok other k' own'" and "translate other (pm k') va = translate other (pm k) va"
    and "set (as_owned other) \<inter> set (as_owned sp') = {}"
proof -
  show d': "set (as_owned other) \<inter> set (as_owned sp') = {}"
    using e o d by (auto simp: extends_def space_ok_def)
  have tr: "tree (pm k) (as_root other) (set (as_owned other))" using o by (simp add: space_ok_def)
  have al: "f mod PAGE_SIZE = 0" if "f \<in> set (as_owned other) \<union> set (as_owned sp')" for f
    using that tr e by (auto simp: extends_def space_ok_def tree_def)
  have same: "pm k' x = pm k x" if f: "f \<in> set (as_owned other)" "in_frame f x" for f x
  proof -
    have "\<not> in_frame g x" if g: "g \<in> set (as_owned sp')" for g
    proof -
      have "g \<noteq> f" using g f(1) d' by auto
      moreover have "g mod PAGE_SIZE = 0" "f mod PAGE_SIZE = 0" using al [of g] al [of f] g f(1) by simp_all
      ultimately show ?thesis using frames_disjoint [of g f x] f(2) by simp
    qed
    then show ?thesis using e by (simp add: extends_def)
  qed
  have w: "walk (pm k') (as_root other) q = walk (pm k) (as_root other) q" if "is_path q" "length q \<le> 4" for q
    using walk_outside [OF tr same that] by simp
  then show "translate other (pm k') va = translate other (pm k) va" by (simp add: translate_eq)
  have "tree (pm k') (as_root other) (set (as_owned other))" by (rule tree_cong [OF tr w]) simp_all
  then show "space_ok other k' own'" using e o by (auto simp: extends_def space_ok_def)
qed

lemma space_map_ok:
  assumes "space_map va pa pages perm sp k = (r, sp', k')" and ok: "space_ok sp k own"
    and va: "va + pages * PAGE_SIZE \<le> 2 ^ 48" and pa: "pa + pages * PAGE_SIZE \<le> 2 ^ 48"
  shows "\<exists>own'. extends sp k own sp' k' own'
    \<and> (\<forall>v<2 ^ 48. \<not> (va \<le> v \<and> v < va + pages * PAGE_SIZE) \<longrightarrow> translate sp' (pm k') v = translate sp (pm k) v)
    \<and> (r = Inr () \<longrightarrow> (\<forall>v. va \<le> v \<and> v < va + pages * PAGE_SIZE \<longrightarrow> translate sp' (pm k') v = Some (pa + (v - va))))"
proof (cases "va mod PAGE_SIZE \<noteq> 0 \<or> pa mod PAGE_SIZE \<noteq> 0")
  case True
  then show ?thesis using assms(1) extends_refl [OF ok] by (auto simp: space_map_def)
next
  case False
  then have al: "va mod PAGE_SIZE = 0" "pa mod PAGE_SIZE = 0" by auto
  have l: "map_loop va pa perm [0..<pages] sp k = (r, sp', k')" using assms(1) False by (simp add: space_map_def)
  have bound: "va + i * PAGE_SIZE < 2 ^ 48 \<and> pa + i * PAGE_SIZE < 2 ^ 48" if "i \<in> set [0..<pages]" for i
  proof -
    have "i * PAGE_SIZE + PAGE_SIZE \<le> pages * PAGE_SIZE" using that by (simp add: PAGE_SIZE_def)
    then show ?thesis using va pa by (simp add: PAGE_SIZE_def)
  qed
  from map_loop_ok [OF l ok _ bound al] obtain own' where
    e: "extends sp k own sp' k' own'"
    and o: "\<forall>q. is_path q \<and> length q = 4 \<and> (\<forall>i\<in>set [0..<pages]. q \<noteq> path (va + i * PAGE_SIZE)) \<longrightarrow> walk (pm k') (as_root sp) q = walk (pm k) (as_root sp) q"
    and n: "r = Inr () \<longrightarrow> (\<forall>i\<in>set [0..<pages]. walk (pm k') (as_root sp) (path (va + i * PAGE_SIZE)) = Some (pa + i * PAGE_SIZE))"
    by auto
  have root: "as_root sp' = as_root sp" using e by (simp add: extends_def)
  have page: "(va + i * PAGE_SIZE) div PAGE_SIZE = va div PAGE_SIZE + i" for i by (simp add: PAGE_SIZE_def)
  have "translate sp' (pm k') v = translate sp (pm k) v" if v: "v < 2 ^ 48" "\<not> (va \<le> v \<and> v < va + pages * PAGE_SIZE)" for v
  proof -
    have "path v \<noteq> path (va + i * PAGE_SIZE)" if i: "i \<in> set [0..<pages]" for i
    proof
      assume "path v = path (va + i * PAGE_SIZE)"
      then have "v div PAGE_SIZE = va div PAGE_SIZE + i" using path_inj [OF v(1), of "va + i * PAGE_SIZE"] bound [OF i] page by simp
      moreover have "va div PAGE_SIZE * PAGE_SIZE = va" using al(1) by (auto simp: PAGE_SIZE_def)
      ultimately have "v div PAGE_SIZE * PAGE_SIZE = va + i * PAGE_SIZE" by (simp add: algebra_simps)
      moreover have "v = v div PAGE_SIZE * PAGE_SIZE + v mod PAGE_SIZE" "v mod PAGE_SIZE < PAGE_SIZE" by (simp_all add: PAGE_SIZE_def)
      moreover have "i * PAGE_SIZE + PAGE_SIZE \<le> pages * PAGE_SIZE" using i by (simp add: PAGE_SIZE_def)
      ultimately show False using v(2) by linarith
    qed
    then show ?thesis using o by (simp add: translate_eq root)
  qed
  moreover have "translate sp' (pm k') v = Some (pa + (v - va))" if r: "r = Inr ()" and v: "va \<le> v" "v < va + pages * PAGE_SIZE" for v
  proof -
    define i where "i = (v - va) div PAGE_SIZE"
    have i: "i < pages" using v by (simp add: i_def PAGE_SIZE_def less_mult_imp_div_less)
    have vv: "v = va + i * PAGE_SIZE + (v - va) mod PAGE_SIZE" using v(1) by (simp add: i_def)
    have m: "v mod PAGE_SIZE = (v - va) mod PAGE_SIZE"
      by (subst vv) (use al(1) in \<open>simp add: mod_add_eq [symmetric] PAGE_SIZE_def\<close>)
    have "path v = path (va + i * PAGE_SIZE)"
    proof (rule path_page)
      have "(va + i * PAGE_SIZE + (v - va) mod PAGE_SIZE) div PAGE_SIZE = (va + i * PAGE_SIZE) div PAGE_SIZE"
        using al(1) by (auto simp: PAGE_SIZE_def elim!: dvdE)
      then show "v div PAGE_SIZE = (va + i * PAGE_SIZE) div PAGE_SIZE" using vv by simp
    qed
    then show ?thesis using n r i v(1) m by (simp add: translate_eq root i_def)
  qed
  ultimately show ?thesis using e by blast
qed

section \<open>Unmapping\<close>

lemma unmap_page_ok:
  assumes tr: "tree m root F" and root: "as_root sp = root"
  shows "tree (unmap_page v sp m) root F"
    and "is_path q \<Longrightarrow> length q = 4 \<Longrightarrow> walk (unmap_page v sp m) root q = (if q = path v then None else walk m root q)"
    and "(\<And>f. f \<in> F \<Longrightarrow> \<not> in_frame f x) \<Longrightarrow> unmap_page v sp m x = m x"
proof -
  let ?p = "map (index v) [0..<3]"
  have l3: "length ?p = 3" by simp
  show "tree (unmap_page v sp m) root F"
    using leaf_write(1) [OF tr is_path_path(3) l3 _ index_512] tr
    unfolding unmap_page_def levels root by (auto split: option.splits)
  show "walk (unmap_page v sp m) root q = (if q = path v then None else walk m root q)" if "is_path q" "length q = 4"
  proof (cases "walk m root ?p")
    case None
    then have "walk m root (path v) = None" by (simp add: path_snoc walk_snoc)
    with None show ?thesis by (simp add: unmap_page_def levels [simplified] root)
  next
    case (Some t)
    from leaf_write(2) [OF tr is_path_path(3) l3 Some index_512 [of v 3] that, of 0] show ?thesis
      unfolding unmap_page_def levels root Some by (simp add: path_snoc)
  qed
  show "unmap_page v sp m x = m x" if "\<And>f. f \<in> F \<Longrightarrow> \<not> in_frame f x"
  proof (cases "walk m root ?p")
    case None
    then show ?thesis unfolding unmap_page_def levels root by simp
  next
    case (Some t)
    then have "t \<in> F" using tree_frame(1) [OF tr is_path_path(3) _ Some] by simp
    then show ?thesis unfolding unmap_page_def levels root Some using wr64_outside [OF index_512 that] by simp
  qed
qed

lemma unmap_loop_ok:
  assumes "tree m (as_root sp) F"
  shows "tree (fold (\<lambda>i. unmap_page (f i) sp) is m) (as_root sp) F
    \<and> (\<forall>q. is_path q \<and> length q = 4 \<longrightarrow> walk (fold (\<lambda>i. unmap_page (f i) sp) is m) (as_root sp) q =
        (if \<exists>i\<in>set is. q = path (f i) then None else walk m (as_root sp) q))
    \<and> (\<forall>x. (\<forall>g\<in>F. \<not> in_frame g x) \<longrightarrow> fold (\<lambda>i. unmap_page (f i) sp) is m x = m x)"
  using assms
proof (induction "is" arbitrary: m)
  case (Cons i "is")
  note U = unmap_page_ok [OF Cons.prems refl]
  from Cons.IH [OF U(1), of "f i"] U(2,3) show ?case by auto
qed simp

section \<open>Copying\<close>

definition tables :: "pmem \<Rightarrow> nat \<Rightarrow> nat set" where
  "tables m root = {t. \<exists>p. is_path p \<and> length p \<le> 3 \<and> walk m root p = Some t}"

lemma tree_tables: "tree m root F \<Longrightarrow> tree m root (tables m root)"
  unfolding tree_def tables_def by blast

lemma page_run:
  assumes "translate sp m va = Some pa" and "j < PAGE_SIZE - va mod PAGE_SIZE"
  shows "translate sp m (va + j) = Some (pa + j)"
proof -
  obtain q r where v: "va = q * 4096 + r" "r < 4096" "va mod 4096 = r"
    by (metis div_mult_mod_eq mod_less_divisor zero_less_numeral)
  have j: "r + j < 4096" using assms(2) v by (simp add: PAGE_SIZE_def)
  have d: "(va + j) div 4096 = q" "va div 4096 = q" using v j by (simp_all add: v(1) add.assoc)
  have m: "(va + j) mod 4096 = r + j" unfolding v(1) add.assoc using j by simp
  have "path (va + j) = path va" by (rule path_page) (simp add: PAGE_SIZE_def d)
  with assms(1) m v(3) show ?thesis by (auto simp: translate_eq PAGE_SIZE_def)
qed

definition byte_at :: "AddressSpace \<Rightarrow> pmem \<Rightarrow> nat \<Rightarrow> u8" where
  "byte_at sp m va = m (the (translate sp m va))"

lemma mread_page:
  assumes "translate sp m va = Some pa" and "n \<le> PAGE_SIZE - va mod PAGE_SIZE"
  shows "mread m pa n = map (\<lambda>i. byte_at sp m (va + i)) [0..<n]"
proof (rule nth_equalityI)
  fix i assume "i < length (mread m pa n)"
  then have i: "i < n" by simp
  then have "translate sp m (va + i) = Some (pa + i)" using assms by (intro page_run) auto
  then show "mread m pa n ! i = map (\<lambda>i. byte_at sp m (va + i)) [0..<n] ! i" using i by (simp add: mread_def byte_at_def)
qed simp

lemma upt_split: "n \<le> k \<Longrightarrow> map f [0..<k] = map f [0..<n] @ map (\<lambda>i. f (n + i)) [0..<k - n]"
  by (rule nth_equalityI) (auto simp: nth_append)

lemma copy_from_loop_ok:
  "copy_from_loop sp m va left out = (if \<forall>i<left. translate sp m (va + i) \<noteq> None
     then Inr (out @ map (\<lambda>i. byte_at sp m (va + i)) [0..<left]) else Inl ''unmapped user address'')"
proof (induction sp m va left out rule: copy_from_loop.induct)
  case (1 sp m va left out)
  show ?case
  proof (cases "left = 0 \<or> translate sp m va = None")
    case True
    then show ?thesis by (subst copy_from_loop.simps) auto
  next
    case False
    then obtain pa where pa: "translate sp m va = Some pa" and l: "left \<noteq> 0" by auto
    define n where "n = min (PAGE_SIZE - va mod PAGE_SIZE) left"
    have n: "n \<le> left" "n \<le> PAGE_SIZE - va mod PAGE_SIZE" by (simp_all add: n_def)
    have run: "translate sp m (va + i) \<noteq> None" if "i < n" for i using page_run [OF pa, of i] that n by simp
    have all: "(\<forall>i<left - n. translate sp m (va + n + i) \<noteq> None) \<longleftrightarrow> (\<forall>i<left. translate sp m (va + i) \<noteq> None)"
    proof (intro iffI allI impI)
      fix i assume a: "\<forall>i<left - n. translate sp m (va + n + i) \<noteq> None" and i: "i < left"
      show "translate sp m (va + i) \<noteq> None"
      proof (cases "i < n")
        case False
        then show ?thesis using a [rule_format, of "i - n"] i n(1) by simp
      qed (rule run)
    next
      fix i assume "\<forall>i<left. translate sp m (va + i) \<noteq> None" "i < left - n"
      then show "translate sp m (va + n + i) \<noteq> None" by (simp add: add.assoc)
    qed
    have "copy_from_loop sp m va left out = copy_from_loop sp m (va + n) (left - n) (out @ mread m pa n)"
      by (subst copy_from_loop.simps) (simp add: pa l n_def Let_def)
    also have "\<dots> = (if \<forall>i<left. translate sp m (va + i) \<noteq> None
        then Inr (out @ mread m pa n @ map (\<lambda>i. byte_at sp m (va + n + i)) [0..<left - n]) else Inl ''unmapped user address'')"
      using 1 [OF l pa, of n] unfolding all by (simp add: n_def)
    finally show ?thesis
      using mread_page [OF pa n(2)] upt_split [OF n(1), of "\<lambda>i. byte_at sp m (va + i)"] by (simp add: add.assoc)
  qed
qed

text \<open>Writing user bytes that are not in tables: all of them arrive, nothing else changes.\<close>

definition writable :: "AddressSpace \<Rightarrow> pmem \<Rightarrow> nat \<Rightarrow> nat \<Rightarrow> bool" where
  "writable sp m va n \<longleftrightarrow> (\<forall>i<n. \<exists>pa. translate sp m (va + i) = Some pa \<and> (\<forall>t\<in>tables m (as_root sp). \<not> in_frame t pa))"

lemma copy_to_user_ok:
  assumes "tree m (as_root sp) F" and "writable sp m va (length data)"
  shows "\<exists>m'. copy_to_user sp m va data = (Inr (), m')
    \<and> (\<forall>q. is_path q \<and> length q \<le> 4 \<longrightarrow> walk m' (as_root sp) q = walk m (as_root sp) q)
    \<and> (\<forall>x. (\<forall>i<length data. translate sp m (va + i) \<noteq> Some x) \<longrightarrow> m' x = m x)
    \<and> (inj_on (\<lambda>i. the (translate sp m (va + i))) {..<length data} \<longrightarrow> (\<forall>i<length data. m' (the (translate sp m (va + i))) = data ! i))"
  using assms
proof (induction sp m va data rule: copy_to_user.induct)
  case (1 sp m va data)
  show ?case
  proof (cases "data = []")
    case True
    then show ?thesis by (subst copy_to_user.simps) simp
  next
    case False
    then obtain pa where pa: "translate sp m va = Some pa" using 1(3) by (force simp: writable_def)
    define n where "n = min (PAGE_SIZE - va mod PAGE_SIZE) (length data)"
    have n: "n \<le> length data" "n \<le> PAGE_SIZE - va mod PAGE_SIZE" "length (take n data) = n" by (simp_all add: n_def)
    define m1 where "m1 = mwrite m pa (take n data)"
    have run: "translate sp m (va + i) = Some (pa + i)" if "i < n" for i using page_run [OF pa, of i] that n by simp
    have m1: "m1 x = (if pa \<le> x \<and> x < pa + n then data ! (x - pa) else m x)" for x
      using n by (auto simp: m1_def mwrite_def)
    have hit: "\<exists>i<n. x = pa + i" if "m1 x \<noteq> m x" for x
      using that by (intro exI [of _ "x - pa"]) (auto simp: m1 split: if_splits)
    have outside: "m1 x = m x" if t: "t \<in> tables m (as_root sp)" "in_frame t x" for t x
    proof (rule ccontr)
      assume "m1 x \<noteq> m x"
      then obtain i where i: "i < n" "x = pa + i" using hit by blast
      then have "i < length data" using n(1) by simp
      then show False using 1(3) run [OF i(1)] t i(2) unfolding writable_def by force
    qed
    have w: "walk m1 (as_root sp) q = walk m (as_root sp) q" if "is_path q" "length q \<le> 4" for q
      using walk_outside [OF tree_tables [OF 1(2)] outside that] by simp
    have tr: "translate sp m1 v = translate sp m v" for v by (simp add: translate_eq w)
    have tb: "tables m1 (as_root sp) = tables m (as_root sp)" using w by (auto simp: tables_def)
    have wr: "writable sp m1 (va + n) (length (drop n data))"
      using 1(3) unfolding writable_def tr tb by (auto simp: add.assoc)
    have t1: "tree m1 (as_root sp) F" by (rule tree_cong [OF 1(2) w]) simp_all
    have step: "copy_to_user sp m va data = copy_to_user sp m1 (va + n) (drop n data)"
      by (subst copy_to_user.simps) (simp add: False pa n_def m1_def Let_def)
    obtain m' where I: "copy_to_user sp m1 (va + n) (drop n data) = (Inr (), m')"
      "\<forall>q. is_path q \<and> length q \<le> 4 \<longrightarrow> walk m' (as_root sp) q = walk m1 (as_root sp) q"
      "\<forall>x. (\<forall>i<length (drop n data). translate sp m (va + n + i) \<noteq> Some x) \<longrightarrow> m' x = m1 x"
      "inj_on (\<lambda>i. the (translate sp m (va + n + i))) {..<length (drop n data)} \<longrightarrow>
        (\<forall>i<length (drop n data). m' (the (translate sp m (va + n + i))) = drop n data ! i)"
      using 1(1) [OF False pa n_def, folded m1_def, OF t1 wr] unfolding tr by blast
    have keep: "m' x = m x" if x: "\<forall>i<length data. translate sp m (va + i) \<noteq> Some x" for x
    proof -
      have "m' x = m1 x" using I(3) x by (simp add: add.assoc)
      moreover have "m1 x = m x"
      proof (rule ccontr)
        assume "m1 x \<noteq> m x"
        then obtain i where "i < n" "x = pa + i" using hit by blast
        then show False using run [of i] x n(1) by auto
      qed
      ultimately show ?thesis by simp
    qed
    have arrive: "m' (the (translate sp m (va + i))) = data ! i"
      if inj: "inj_on (\<lambda>i. the (translate sp m (va + i))) {..<length data}" and i: "i < length data" for i
    proof (cases "i < n")
      case True
      have "translate sp m (va + n + j) \<noteq> Some (pa + i)" if "j < length (drop n data)" for j
      proof
        assume "translate sp m (va + n + j) = Some (pa + i)"
        then have "the (translate sp m (va + (n + j))) = the (translate sp m (va + i))" using run [OF True] by (simp add: add.assoc)
        then have "n + j = i" using inj_onD [OF inj, of "n + j" i] that i by simp
        with True show False by simp
      qed
      then have "m' (pa + i) = m1 (pa + i)" using I(3) by blast
      with True show ?thesis by (simp add: run m1)
    next
      case False
      have "inj_on (\<lambda>j. the (translate sp m (va + n + j))) {..<length (drop n data)}"
      proof (rule inj_onI)
        fix a b assume ab: "a \<in> {..<length (drop n data)}" "b \<in> {..<length (drop n data)}"
          and e: "the (translate sp m (va + n + a)) = the (translate sp m (va + n + b))"
        have "n + a = n + b" by (rule inj_onD [OF inj]) (use ab e in \<open>simp_all add: add.assoc\<close>)
        then show "a = b" by simp
      qed
      then have "m' (the (translate sp m (va + n + (i - n)))) = drop n data ! (i - n)"
        using I(4) [rule_format, of "i - n"] i False by simp
      with False i show ?thesis by simp
    qed
    show ?thesis using step I(1,2) w keep arrive by (intro exI [of _ m']) simp
  qed
qed

section \<open>A first address space\<close>

lemma walk_zeroed:
  assumes "\<And>j. j < 512 \<Longrightarrow> rd64 m (f + 8 * j) = 0" and "is_path r"
  shows "walk m f r = (if r = [] then Some f else None)"
  using assms by (cases r) (simp_all add: Let_def)

lemma AddressSpace_new_ok:
  assumes "frames_ok (kfr k) own lost" and "END (kfr k) \<le> 2 ^ 48" and "AddressSpace_new k = (Some sp, k')"
  shows "space_ok sp k' (insert (as_root sp) own)" and "as_root sp \<notin> own" and "translate sp (pm k') va = None"
    and "as_owned sp = [as_root sp]"
proof -
  obtain f k1 where a: "alloc_table k = (Some f, k1)" and sp: "sp = \<lparr>as_root = f, as_asid = NEXT_ASID k1 AND 0xffff, as_owned = [f]\<rparr>"
    and k': "k' = k1\<lparr>NEXT_ASID := NEXT_ASID k1 + 1\<rparr>"
    using assms(3) by (auto simp: AddressSpace_new_def split: prod.splits option.splits)
  obtain fr where fr: "frames_alloc (kfr k) = (Some f, fr)" "k1 = k\<lparr>kfr := fr, pm := mwrite (pm k) f (replicate PAGE_SIZE 0)\<rparr>"
    using a by (auto simp: alloc_table_def split: prod.splits option.splits)
  have new: "f \<notin> own" "frames_ok fr (insert f own) lost" using frames_alloc_ok [OF assms(1) fr(1)] by auto
  have al: "f mod PAGE_SIZE = 0" using frames_ok_owned(2) [OF new(2)] by simp
  have w: "walk (pm k') f r = (if r = [] then Some f else None)" if "is_path r" for r
    by (rule walk_zeroed [OF _ that]) (simp add: k' fr(2) zeroed_slot)
  have "tree (pm k') f {f}" using w al by (auto simp: tree_def split: if_splits)
  then show "space_ok sp k' (insert (as_root sp) own)"
    using new(2) assms(2) frames_alloc_END [OF fr(1)] by (auto simp: space_ok_def sp k' fr(2))
  show "as_root sp \<notin> own" "as_owned sp = [as_root sp]" using new(1) by (simp_all add: sp)
  have "path va \<noteq> []" by (simp add: path_def)
  then show "translate sp (pm k') va = None" using w [of "path va"] by (simp add: translate_eq sp)
qed

lemma AddressSpace_new_keeps:
  assumes ok: "space_ok other k own" and n: "AddressSpace_new k = (Some sp, k')"
  shows "space_ok other k' (insert (as_root sp) own)" and "translate other (pm k') va = translate other (pm k) va"
    and "as_root sp \<notin> set (as_owned other)"
proof -
  obtain k1 where a: "alloc_table k = (Some (as_root sp), k1)" and k': "k' = k1\<lparr>NEXT_ASID := NEXT_ASID k1 + 1\<rparr>"
    using n by (auto simp: AddressSpace_new_def split: prod.splits option.splits)
  note F = alloc_table_some [OF ok a]
  have tr: "tree (pm k) (as_root other) (set (as_owned other))" and sub: "set (as_owned other) \<subseteq> own"
    using ok by (simp_all add: space_ok_def)
  show nin: "as_root sp \<notin> set (as_owned other)" using F(1) sub by blast
  have same: "pm k' x = pm k x" if f: "f \<in> set (as_owned other)" "in_frame f x" for f x
  proof -
    have "f mod PAGE_SIZE = 0" using tr f(1) by (simp add: tree_def)
    then have "\<not> in_frame (as_root sp) x" using frames_disjoint [OF F(2), of f x] f nin by auto
    then show ?thesis by (auto simp: k' F(6) mwrite_def in_frame_def)
  qed
  have w: "walk (pm k') (as_root other) q = walk (pm k) (as_root other) q" if "is_path q" "length q \<le> 4" for q
    using walk_outside [OF tr same that] by simp
  have "tree (pm k') (as_root other) (set (as_owned other))" by (rule tree_cong [OF tr w]) simp_all
  then show "space_ok other k' (insert (as_root sp) own)" using F(4,5) sub by (auto simp: space_ok_def k')
  show "translate other (pm k') va = translate other (pm k) va" by (simp add: translate_eq w)
qed

text \<open>Three free frames are enough to map a page.\<close>

lemma frames_alloc_count:
  assumes "frames_ok fr own lost" and "frames_alloc fr = (Some f, fr')"
  shows "frames_ok fr' (insert f own) lost" and "free_count fr' + 1 = free_count fr"
proof -
  have n: "f \<notin> own" "frames_ok fr' (insert f own) lost" using frames_alloc_ok [OF assms] by auto
  show "frames_ok fr' (insert f own) lost" by (rule n(2))
  have "TOTAL fr' = TOTAL fr" using assms(2) by (auto simp: frames_alloc_def Let_def split: if_splits prod.splits)
  then show "free_count fr' + 1 = free_count fr"
    using frames_ok_count [OF assms(1)] frames_ok_count(1) [OF n(2)] n(1) by (simp add: total_count_def)
qed

lemma walk_create_total:
  assumes "frames_ok (kfr k) own lost" and "length ls \<le> free_count (kfr k)"
  shows "fst (walk_create va ls table sp k) \<noteq> None"
  using assms
proof (induction ls arbitrary: table sp k own)
  case (Cons l ls)
  obtain r fr where a: "frames_alloc (kfr k) = (r, fr)" by (cases "frames_alloc (kfr k)")
  show ?case
  proof (cases r)
    case None
    then show ?thesis using frames_alloc_ok [OF Cons.prems(1) a] Cons.prems(2) by simp
  next
    case (Some f)
    note C = frames_alloc_count [OF Cons.prems(1) a [unfolded Some]]
    have "fst (walk_create va ls t sp2 k2) \<noteq> None" if "kfr k2 = fr" for t sp2 k2
      using Cons.IH [of k2 "insert f own"] C Cons.prems(2) that by simp
    moreover have "fst (walk_create va ls t sp k) \<noteq> None" for t
      using Cons.IH [OF Cons.prems(1)] Cons.prems(2) by simp
    ultimately show ?thesis by (auto simp: Let_def alloc_table_def a Some)
  qed
qed simp

lemma map_page_succeeds:
  assumes "space_ok sp k own" and "3 \<le> free_count (kfr k)" and "va mod PAGE_SIZE = 0" and "pa mod PAGE_SIZE = 0"
  shows "fst (space_map va pa 1 perm sp k) = Inr ()"
proof -
  obtain lost where f: "frames_ok (kfr k) own lost" using assms(1) by (auto simp: space_ok_def)
  have "fst (walk_create va [0, 1, 2] (as_root sp) sp k) \<noteq> None"
    using walk_create_total [OF f, of "[0, 1, 2]"] assms(2) by simp
  then have "fst (entry_for va sp k) \<noteq> None" unfolding entry_for_def by (auto split: prod.splits)
  then show ?thesis using assms(3,4) by (auto simp: space_map_def split: prod.splits option.splits)
qed

text \<open>A page mapped from a frame the space does not own itself can be written byte by byte.\<close>

lemma mapped_page_writable:
  assumes m: "space_map va pa 1 perm sp k = (Inr (), sp', k')" and ok: "space_ok sp k own"
    and b: "va + PAGE_SIZE \<le> 2 ^ 48" "pa + PAGE_SIZE \<le> 2 ^ 48" and no: "pa \<notin> set (as_owned sp')" and n: "n \<le> PAGE_SIZE"
  shows "writable sp' (pm k') va n" and "inj_on (\<lambda>i. the (translate sp' (pm k') (va + i))) {..<n}"
    and "tree (pm k') (as_root sp') (set (as_owned sp'))" and "\<And>i. i < n \<Longrightarrow> translate sp' (pm k') (va + i) = Some (pa + i)"
proof -
  have al: "pa mod PAGE_SIZE = 0" using m by (auto simp: space_map_def split: if_splits)
  obtain own' where e: "extends sp k own sp' k' own'"
    and t: "\<forall>v. va \<le> v \<and> v < va + PAGE_SIZE \<longrightarrow> translate sp' (pm k') v = Some (pa + (v - va))"
    using space_map_ok [OF m ok] b by auto
  show tr: "translate sp' (pm k') (va + i) = Some (pa + i)" if "i < n" for i using t that n by simp
  show tree: "tree (pm k') (as_root sp') (set (as_owned sp'))" using e unfolding extends_def space_ok_def by blast
  have "\<not> in_frame f (pa + i)" if f: "f \<in> tables (pm k') (as_root sp')" and i: "i < n" for f i
  proof -
    have "f \<in> set (as_owned sp')" using f tree_frame(1) [OF tree] by (auto simp: tables_def)
    then have "f \<noteq> pa" "f mod PAGE_SIZE = 0" using no tree by (auto simp: tree_def)
    moreover have "in_frame pa (pa + i)" using i n by (simp add: in_frame_def)
    ultimately show ?thesis using frames_disjoint [of f pa "pa + i"] al by simp
  qed
  then show "writable sp' (pm k') va n" by (auto simp: writable_def tr)
  show "inj_on (\<lambda>i. the (translate sp' (pm k') (va + i))) {..<n}" by (auto simp: inj_on_def tr)
qed

section \<open>Properties\<close>

text \<open>
  C13: \<open>map\<close> is exact and isolated. On success every address of the asked range translates to the asked
  physical address; every other address translates as before, also when the call runs out of frames;
  the new tables come from frames nobody held; and in every other address space nothing changes.
\<close>

theorem map_exact:
  assumes "space_ok sp k own" and "space_map va pa pages perm sp k = (r, sp', k')"
    and "va + pages * PAGE_SIZE \<le> 2 ^ 48" and "pa + pages * PAGE_SIZE \<le> 2 ^ 48"
    and "space_ok other k own" and "set (as_owned other) \<inter> set (as_owned sp) = {}"
  shows "\<exists>own'. space_ok sp' k' own' \<and> space_ok other k' own' \<and> own \<subseteq> own' \<and> set (as_owned sp') = set (as_owned sp) \<union> (own' - own)
    \<and> (r = Inr () \<longrightarrow> (\<forall>v. va \<le> v \<and> v < va + pages * PAGE_SIZE \<longrightarrow> translate sp' (pm k') v = Some (pa + (v - va))))
    \<and> (\<forall>v<2 ^ 48. \<not> (va \<le> v \<and> v < va + pages * PAGE_SIZE) \<longrightarrow> translate sp' (pm k') v = translate sp (pm k) v)
    \<and> (\<forall>v. translate other (pm k') v = translate other (pm k) v)"
proof -
  from space_map_ok [OF assms(2,1,3,4)] obtain own' where e: "extends sp k own sp' k' own'"
    and o: "\<forall>v<2 ^ 48. \<not> (va \<le> v \<and> v < va + pages * PAGE_SIZE) \<longrightarrow> translate sp' (pm k') v = translate sp (pm k) v"
    and n: "r = Inr () \<longrightarrow> (\<forall>v. va \<le> v \<and> v < va + pages * PAGE_SIZE \<longrightarrow> translate sp' (pm k') v = Some (pa + (v - va)))"
    by blast
  note I = extends_isolated [OF e assms(5,6)]
  show ?thesis using e o n I(1,2) by (intro exI [of _ own']) (simp add: extends_def)
qed

text \<open>A machine with memory and two spaces, for the witnesses.\<close>

definition demo_kmem :: kmem where
  "demo_kmem = \<lparr>pm = \<lambda>_. 0, kfr = frames_init [(4096, 4096 * 20)] [] boot_frames, NEXT_ASID = 1\<rparr>"

lemma demo_frames_ok: "frames_ok (kfr demo_kmem) {} {}" "END (kfr demo_kmem) \<le> 2 ^ 48"
proof -
  have "frames_start (kfr demo_kmem, {}, {})"
    unfolding demo_kmem_def kmem.simps
    by (rule frames_startI) (simp_all add: page_align_up_def page_align_down_def PAGE_SIZE_def)
  then show "frames_ok (kfr demo_kmem) {} {}" by (rule frames_init_ok)
  show "END (kfr demo_kmem) \<le> 2 ^ 48"
    by (simp add: demo_kmem_def frames_init_def Let_def page_align_up_def page_align_down_def PAGE_SIZE_def boot_frames_def)
qed

lemma demo_spaces: "\<exists>other k1 sp k2. AddressSpace_new demo_kmem = (Some other, k1) \<and> AddressSpace_new k1 = (Some sp, k2)
  \<and> space_ok sp k2 {4096, 8192} \<and> space_ok other k2 {4096, 8192} \<and> as_owned other = [4096] \<and> as_owned sp = [8192] \<and> 3 \<le> free_count (kfr k2)"
proof -
  have 1: "fst (frames_alloc (kfr demo_kmem)) = Some 4096" "fst (frames_alloc (snd (frames_alloc (kfr demo_kmem)))) = Some 8192"
    by (simp_all add: demo_kmem_def frames_eval)
  obtain fr1 where f1: "frames_alloc (kfr demo_kmem) = (Some 4096, fr1)" using 1(1) by (cases "frames_alloc (kfr demo_kmem)") auto
  obtain fr2 where f2: "frames_alloc fr1 = (Some 8192, fr2)" using 1(2) f1 by (cases "frames_alloc fr1") auto
  obtain other k1 where n1: "AddressSpace_new demo_kmem = (Some other, k1)" "as_root other = 4096" "kfr k1 = fr1"
    by (simp add: AddressSpace_new_def alloc_table_def f1)
  obtain sp k2 where n2: "AddressSpace_new k1 = (Some sp, k2)" "as_root sp = 8192" "kfr k2 = fr2"
    by (simp add: AddressSpace_new_def alloc_table_def f2 n1(3))
  note A = AddressSpace_new_ok [OF demo_frames_ok n1(1)]
  have ok1: "space_ok other k1 {4096}" using A(1) n1(2) by simp
  then obtain lost where fo: "frames_ok (kfr k1) {4096} lost" "END (kfr k1) \<le> 2 ^ 48" by (auto simp: space_ok_def)
  note B = AddressSpace_new_ok [OF fo n2(1)]
  have "space_ok sp k2 {4096, 8192}" "space_ok other k2 {4096, 8192}"
    using B(1) AddressSpace_new_keeps(1) [OF ok1 n2(1)] n2(2) by (simp_all add: insert_commute)
  moreover have "free_count (kfr demo_kmem) = 20" by (simp add: demo_kmem_def frames_eval)
  then have "3 \<le> free_count (kfr k2)"
    using frames_alloc_count(2) [OF demo_frames_ok(1) f1] frames_alloc_count(2) [OF frames_alloc_count(1) [OF demo_frames_ok(1) f1] f2] n2(3)
    by simp
  moreover have "as_owned other = [4096]" "as_owned sp = [8192]" using A(4) B(4) n1(2) n2(2) by simp_all
  ultimately show ?thesis using n1(1) n2(1) by blast
qed

theorem map_exact_witness:
  "\<exists>sp other k r sp' k'. space_map 0x400000 0x80000000 2 UserData sp k = (r, sp', k')
     \<and> space_ok sp k {4096, 8192} \<and> space_ok other k {4096, 8192}
     \<and> (\<forall>v. translate other (pm k') v = translate other (pm k) v) \<and> (r = Inr () \<longrightarrow> translate sp' (pm k') 0x400010 = Some 0x80000010)"
proof -
  obtain other sp k where s: "space_ok sp k {4096, 8192}" "space_ok other k {4096, 8192}" "as_owned other = [4096]" "as_owned sp = [8192]"
    using demo_spaces by blast
  obtain r sp' k' where m: "space_map 0x400000 0x80000000 2 UserData sp k = (r, sp', k')" by (metis prod_cases3)
  have d: "set (as_owned other) \<inter> set (as_owned sp) = {}" by (simp add: s)
  have b: "0x400000 + 2 * PAGE_SIZE \<le> 2 ^ 48" "0x80000000 + 2 * PAGE_SIZE \<le> 2 ^ 48" by (simp_all add: PAGE_SIZE_def)
  note M = map_exact [OF s(1) m b s(2) d]
  have "\<forall>v. translate other (pm k') v = translate other (pm k) v" using M by blast
  moreover have "r = Inr () \<longrightarrow> (\<forall>v. 0x400000 \<le> v \<and> v < 0x400000 + 2 * PAGE_SIZE \<longrightarrow> translate sp' (pm k') v = Some (0x80000000 + (v - 0x400000)))"
    using M by blast
  then have "r = Inr () \<longrightarrow> translate sp' (pm k') 0x400010 = Some 0x80000010" by (simp add: PAGE_SIZE_def)
  ultimately show ?thesis using m s(1,2) by blast
qed


lemma demo_mapped: "\<exists>sp k sp' k'. space_ok sp k {4096, 8192} \<and> space_map 0x400000 0 1 perm sp k = (Inr (), sp', k')
  \<and> 0 \<notin> set (as_owned sp')"
proof -
  obtain sp k where s: "space_ok sp k {4096, 8192}" "3 \<le> free_count (kfr k)" using demo_spaces by blast
  have "fst (space_map 0x400000 0 1 perm sp k) = Inr ()"
    by (intro map_page_succeeds [OF s]) (simp_all add: PAGE_SIZE_def)
  then obtain sp' k' where m: "space_map 0x400000 0 1 perm sp k = (Inr (), sp', k')"
    by (metis prod_cases3 fst_conv)
  have b: "0x400000 + 1 * PAGE_SIZE \<le> 2 ^ 48" "0 + 1 * PAGE_SIZE \<le> 2 ^ 48" by (simp_all add: PAGE_SIZE_def)
  from space_map_ok [OF m s(1) b] obtain own' where "space_ok sp' k' own'" by (auto simp: extends_def)
  then have "0 \<notin> set (as_owned sp')" using frames_ok_owned(1) by (fastforce simp: space_ok_def)
  with s(1) m show ?thesis by blast
qed


text \<open>
  C15: The kernel writes through read-only mappings. A page mapped \<open>UserReadOnly\<close> cannot be written by
  the process, but \<open>copy_to_user\<close> only asks whether the address translates: any call that returns data
  to a pointer into that page overwrites the frame, which other processes may share.
\<close>

theorem read_only_page_overwritten:
  assumes "space_ok sp k own" and "space_map va pa 1 UserReadOnly sp k = (Inr (), sp', k')" and "pa \<notin> set (as_owned sp')"
    and "va + PAGE_SIZE \<le> 2 ^ 48" and "pa + PAGE_SIZE \<le> 2 ^ 48" and "length data \<le> PAGE_SIZE"
  shows "\<exists>m'. copy_to_user sp' (pm k') va data = (Inr (), m') \<and> mread m' pa (length data) = data"
proof -
  note M = mapped_page_writable [OF assms(2,1,4,5,3,6)]
  from copy_to_user_ok [OF M(3,1)] M(2) obtain m' where c: "copy_to_user sp' (pm k') va data = (Inr (), m')"
    and a: "\<forall>i<length data. m' (the (translate sp' (pm k') (va + i))) = data ! i" by blast
  have "mread m' pa (length data) = data" using a M(4) by (intro nth_equalityI) (simp_all add: mread_def)
  with c show ?thesis by blast
qed

theorem read_only_page_overwritten_witness:
  "\<exists>sp k sp' k' m'. space_map 0x400000 0 1 UserReadOnly sp k = (Inr (), sp', k')
     \<and> copy_to_user sp' (pm k') 0x400000 [0xde, 0xad] = (Inr (), m') \<and> mread m' 0 2 = [0xde, 0xad]"
proof -
  obtain sp k sp' k' where d: "space_ok sp k {4096, 8192}" "space_map 0x400000 0 1 UserReadOnly sp k = (Inr (), sp', k')" "0 \<notin> set (as_owned sp')"
    using demo_mapped by blast
  have b: "0x400000 + PAGE_SIZE \<le> 2 ^ 48" "0 + PAGE_SIZE \<le> 2 ^ 48" "length [0xde, 0xad :: u8] \<le> PAGE_SIZE" by (simp_all add: PAGE_SIZE_def)
  obtain m' where "copy_to_user sp' (pm k') 0x400000 [0xde, 0xad] = (Inr (), m')" "mread m' 0 (length [0xde, 0xad :: u8]) = [0xde, 0xad]"
    using read_only_page_overwritten [OF d b] by blast
  then have "copy_to_user sp' (pm k') 0x400000 [0xde, 0xad] = (Inr (), m')" "mread m' 0 2 = [0xde, 0xad]"
    by (simp_all add: numeral_2_eq_2)
  with d(2) show ?thesis by blast
qed

end
