(* ===== verification/Elf.thy ===== *)
theory Elf
  imports Paging
begin

text \<open>
  The loader of user images, \<open>kernel/src/elf.rs\<close>, over address spaces and physical memory. Header
  fields are naturals below their width and the sums the loader forms wrap at 64 bits, as they do in
  a release build. Two outcomes are not errors of the code but of the machine: a read behind the slice
  (\<open>OUT_OF_BOUNDS\<close>) and a slice whose bounds are reversed (\<open>PANIC\<close>).

  Shown: an image whose segments are within the file, in the low half and on pages of their own is
  loaded exactly, byte for byte with zeros behind, and nothing else is mapped.
\<close>

section \<open>Headers\<close>

definition EI_NIDENT :: nat where "EI_NIDENT = 16"
definition ELF_MAGIC :: bytes where "ELF_MAGIC = [0x7f, 0x45, 0x4c, 0x46]"
definition ELFCLASS64 :: u8 where "ELFCLASS64 = 2"
definition ELFDATA2LSB :: u8 where "ELFDATA2LSB = 1"
definition ET_EXEC :: nat where "ET_EXEC = 2"
definition EM_AARCH64 :: nat where "EM_AARCH64 = 183"
definition PT_LOAD :: nat where "PT_LOAD = 1"
definition PF_X :: u32 where "PF_X = 1"
definition PF_W :: u32 where "PF_W = 2"

definition PANIC :: string where "PANIC = ''panic''"
definition OUT_OF_BOUNDS :: string where "OUT_OF_BOUNDS = ''read out of bounds''"

definition wadd :: "nat \<Rightarrow> nat \<Rightarrow> nat" where "wadd a b = (a + b) mod 2 ^ 64"
definition wsub :: "nat \<Rightarrow> nat \<Rightarrow> nat" where "wsub a b = (a + 2 ^ 64 - b) mod 2 ^ 64"

text \<open>The little-endian field of \<open>n\<close> bytes at \<open>off\<close>.\<close>

definition field :: "bytes \<Rightarrow> nat \<Rightarrow> nat \<Rightarrow> nat" where
  "field b off n = unat (le_word (take n (drop off b)) :: u64)"

record Ehdr =
  e_ident :: bytes
  etype :: nat
  machine :: nat
  e_entry :: nat
  phoff :: nat
  phentsize :: nat
  phnum :: nat

record Phdr =
  ptype :: nat
  ph_flags :: u32
  ph_offset :: nat
  vaddr :: nat
  filesz :: nat
  memsz :: nat

definition EHDR_SIZE :: nat where "EHDR_SIZE = 64"
definition PHDR_SIZE :: nat where "PHDR_SIZE = 56"

definition parse_Ehdr :: "bytes \<Rightarrow> Ehdr" where
  "parse_Ehdr b = \<lparr>e_ident = take EI_NIDENT b, etype = field b 16 2, machine = field b 18 2, e_entry = field b 24 8,
     phoff = field b 32 8, phentsize = field b 54 2, phnum = field b 56 2\<rparr>"

definition parse_Phdr :: "bytes \<Rightarrow> Phdr" where
  "parse_Phdr b = \<lparr>ptype = field b 0 4, ph_flags = le_word (take 4 (drop 4 b)), ph_offset = field b 8 8, vaddr = field b 16 8,
     filesz = field b 32 8, memsz = field b 40 8\<rparr>"

text \<open>\<open>read::<T>\<close>: the bytes of a header of \<open>n\<close> bytes. The check adds before it compares.\<close>

definition elf_read :: "nat \<Rightarrow> bytes \<Rightarrow> nat \<Rightarrow> bytes result" where
  "elf_read n img at = (if wadd at n > length img then Inl ''ELF truncated''
     else if at + n > length img then Inl OUT_OF_BOUNDS
     else Inr (take n (drop at img)))"

section \<open>Loading\<close>

definition seg_perm :: "Phdr \<Rightarrow> Perm" where
  "seg_perm ph = (if ph_flags ph AND PF_X \<noteq> 0 then UserText
     else if ph_flags ph AND PF_W \<noteq> 0 then UserData else UserReadOnly)"

definition seg_start :: "Phdr \<Rightarrow> nat" where
  "seg_start ph = page_align_down (vaddr ph)"

definition seg_pages :: "Phdr \<Rightarrow> nat" where
  "seg_pages ph = wsub (page_align_up (wadd (vaddr ph) (memsz ph)) mod 2 ^ 64) (seg_start ph) div PAGE_SIZE"

text \<open>The copy through the linear map.\<close>

function write_segment :: "AddressSpace \<Rightarrow> pmem \<Rightarrow> nat \<Rightarrow> bytes \<Rightarrow> unit result \<times> pmem" where
  "write_segment sp m va bs = (if bs = [] then (Inr (), m)
     else case translate sp m va of
       None \<Rightarrow> (Inl ''segment page vanished'', m)
     | Some pa \<Rightarrow> let n = min (PAGE_SIZE - va mod PAGE_SIZE) (length bs) in
         write_segment sp (mwrite m pa (take n bs)) (va + n) (drop n bs))"
  by pat_completeness auto
termination
  by (relation "measure (\<lambda>(sp, m, va, bs). length bs)") (auto simp: PAGE_SIZE_def)

declare write_segment.simps [simp del]

definition load_segment :: "bytes \<Rightarrow> Phdr \<Rightarrow> AddressSpace \<Rightarrow> kmem \<Rightarrow> unit result \<times> AddressSpace \<times> kmem" where
  "load_segment img ph sp k =
    (if ptype ph \<noteq> PT_LOAD \<or> memsz ph = 0 then (Inr (), sp, k)
     else if filesz ph > memsz ph then (Inl ''segment filesz exceeds memsz'', sp, k)
     else case map_anonymous (seg_start ph) (seg_pages ph) (seg_perm ph) sp k of
       (Inl e, sp, k) \<Rightarrow> (Inl e, sp, k)
     | (Inr _, sp, k) \<Rightarrow>
         let src_end = wadd (ph_offset ph) (filesz ph) in
         if src_end > length img then (Inl ''segment past end of image'', sp, k)
         else if ph_offset ph > src_end then (Inl PANIC, sp, k)
         else case write_segment sp (pm k) (vaddr ph) (take (src_end - ph_offset ph) (drop (ph_offset ph) img)) of
           (r, m) \<Rightarrow> (r, sp, k\<lparr>pm := m\<rparr>))"

fun load_segments :: "bytes \<Rightarrow> Ehdr \<Rightarrow> nat list \<Rightarrow> AddressSpace \<Rightarrow> kmem \<Rightarrow> unit result \<times> AddressSpace \<times> kmem" where
  "load_segments img eh [] sp k = (Inr (), sp, k)"
| "load_segments img eh (i # is) sp k =
    (case elf_read PHDR_SIZE img (wadd (phoff eh) (i * phentsize eh)) of
       Inl e \<Rightarrow> (Inl e, sp, k)
     | Inr b \<Rightarrow> (case load_segment img (parse_Phdr b) sp k of
         (Inl e, sp, k) \<Rightarrow> (Inl e, sp, k)
       | (Inr _, sp, k) \<Rightarrow> load_segments img eh is sp k))"

definition elf_check :: "bytes \<Rightarrow> Ehdr result" where
  "elf_check img = (case elf_read EHDR_SIZE img 0 of
     Inl e \<Rightarrow> Inl e
   | Inr b \<Rightarrow> let eh = parse_Ehdr b in
       if take 4 (e_ident eh) \<noteq> ELF_MAGIC then Inl ''not an ELF''
       else if e_ident eh ! 4 \<noteq> ELFCLASS64 \<or> e_ident eh ! 5 \<noteq> ELFDATA2LSB then Inl ''not 64-bit little-endian''
       else if etype eh \<noteq> ET_EXEC then Inl ''not a static executable''
       else if machine eh \<noteq> EM_AARCH64 then Inl ''wrong architecture''
       else Inr eh)"

definition elf_load :: "bytes \<Rightarrow> AddressSpace \<Rightarrow> kmem \<Rightarrow> nat result \<times> AddressSpace \<times> kmem" where
  "elf_load img sp k = (case elf_check img of
     Inl e \<Rightarrow> (Inl e, sp, k)
   | Inr eh \<Rightarrow> (case load_segments img eh [0..<phnum eh] sp k of
       (Inl e, sp, k) \<Rightarrow> (Inl e, sp, k)
     | (Inr _, sp, k) \<Rightarrow> (Inr (e_entry eh), sp, k)))"

section \<open>Operations on a space do not look at what it owns\<close>

definition with_owned :: "AddressSpace \<Rightarrow> nat list \<Rightarrow> AddressSpace" where
  "with_owned sp X = sp\<lparr>as_owned := X\<rparr>"

lemma with_owned_simps [simp]: "as_root (with_owned sp X) = as_root sp" "as_owned (with_owned sp X) = X"
  "with_owned (with_owned sp Y) X = with_owned sp X" "(with_owned sp X)\<lparr>as_owned := Y\<rparr> = with_owned sp Y"
  "with_owned (sp\<lparr>as_owned := Y\<rparr>) X = with_owned sp X"
  by (simp_all add: with_owned_def)

lemma with_owned_same [simp]: "with_owned sp (as_owned sp) = sp"
  by (simp add: with_owned_def)

lemma translate_with_owned [simp]: "translate (with_owned sp X) = translate sp"
  by (simp add: translate_def [abs_def] fun_eq_iff)

lemma walk_create_owned:
  "walk_create va ls t sp k = (r, sp', k') \<Longrightarrow>
   \<exists>new. sp' = with_owned sp (as_owned sp @ new) \<and> (\<forall>X. walk_create va ls t (with_owned sp X) k = (r, with_owned sp (X @ new), k'))"
proof (induction va ls t sp k rule: walk_create.induct)
  case (1 va table sp k)
  then show ?case by (intro exI [of _ "[]"]) auto
next
  case (2 va level levels table sp k)
  let ?a = "table + 8 * index va level"
  show ?case
  proof (cases "rd64 (pm k) ?a AND PTE_VALID = 0")
    case False
    then show ?thesis using 2(2) [OF refl refl False] 2(3) by (simp add: Let_def)
  next
    case True
    obtain f k1 where al: "alloc_table k = (f, k1)" by (cases "alloc_table k")
    show ?thesis
    proof (cases f)
      case None
      then show ?thesis using 2(3) True al by (intro exI [of _ "[]"]) (auto simp: Let_def)
    next
      case (Some nxt)
      let ?e = "of_nat nxt OR PTE_VALID OR PTE_TABLE_OR_PAGE :: u64"
      have "walk_create va levels (unat (?e AND ADDR_MASK)) (sp\<lparr>as_owned := as_owned sp @ [nxt]\<rparr>) (k1\<lparr>pm := wr64 (pm k1) ?a ?e\<rparr>) = (r, sp', k')"
        using 2(3) True al Some by (simp add: Let_def)
      from 2(1) [OF refl refl True al [symmetric] Some refl, OF this] obtain new where
        N: "sp' = with_owned sp (as_owned sp @ [nxt] @ new)"
        "\<And>X. walk_create va levels (unat (?e AND ADDR_MASK)) (with_owned sp X) (k1\<lparr>pm := wr64 (pm k1) ?a ?e\<rparr>) = (r, with_owned sp (X @ new), k')"
        by auto
      then show ?thesis using True al Some by (intro exI [of _ "nxt # new"]) (simp add: Let_def)
    qed
  qed
qed

lemma entry_for_owned:
  assumes "entry_for va sp k = (r, sp', k')"
  shows "\<exists>new. sp' = with_owned sp (as_owned sp @ new) \<and> (\<forall>X. entry_for va (with_owned sp X) k = (r, with_owned sp (X @ new), k'))"
proof -
  obtain r1 s1 k1 where w: "walk_create va [0, 1, 2] (as_root sp) sp k = (r1, s1, k1)" by (metis prod_cases3)
  from walk_create_owned [OF this] obtain new where
    "s1 = with_owned sp (as_owned sp @ new)" "\<And>X. walk_create va [0, 1, 2] (as_root sp) (with_owned sp X) k = (r1, with_owned sp (X @ new), k1)" by blast
  then show ?thesis using assms w unfolding entry_for_def by (intro exI [of _ new]) (simp del: walk_create.simps)
qed

lemma map_loop_owned:
  "map_loop va pa perm is sp k = (r, sp', k') \<Longrightarrow>
   \<exists>new. sp' = with_owned sp (as_owned sp @ new) \<and> (\<forall>X. map_loop va pa perm is (with_owned sp X) k = (r, with_owned sp (X @ new), k'))"
proof (induction "is" arbitrary: sp k)
  case Nil
  then show ?case by (intro exI [of _ "[]"]) auto
next
  case (Cons i "is")
  obtain re sp1 k1 where e: "entry_for (va + i * PAGE_SIZE) sp k = (re, sp1, k1)" by (metis prod_cases3)
  from entry_for_owned [OF this] obtain n1 where
    n1: "sp1 = with_owned sp (as_owned sp @ n1)" "\<And>X. entry_for (va + i * PAGE_SIZE) (with_owned sp X) k = (re, with_owned sp (X @ n1), k1)" by blast
  show ?case
  proof (cases re)
    case None
    then show ?thesis using Cons.prems e n1 by (intro exI [of _ n1]) auto
  next
    case (Some a)
    let ?k2 = "k1\<lparr>pm := wr64 (pm k1) a (of_nat (pa + i * PAGE_SIZE) OR perm_bits perm)\<rparr>"
    have "map_loop va pa perm is sp1 ?k2 = (r, sp', k')" using Cons.prems e Some by simp
    from Cons.IH [OF this] obtain new where
      "sp' = with_owned sp (as_owned sp @ n1 @ new)" "\<And>X. map_loop va pa perm is (with_owned sp X) ?k2 = (r, with_owned sp (X @ new), k')"
      using n1(1) by auto
    then show ?thesis using e Some n1(2) by (intro exI [of _ "n1 @ new"]) simp
  qed
qed

lemma space_map_owned:
  assumes "space_map va pa n perm sp k = (r, sp', k')"
  shows "\<exists>new. sp' = with_owned sp (as_owned sp @ new) \<and> (\<forall>X. space_map va pa n perm (with_owned sp X) k = (r, with_owned sp (X @ new), k'))"
proof (cases "va mod PAGE_SIZE \<noteq> 0 \<or> pa mod PAGE_SIZE \<noteq> 0")
  case True
  then show ?thesis using assms by (intro exI [of _ "[]"]) (auto simp: space_map_def)
next
  case False
  then show ?thesis using assms map_loop_owned [of va pa perm "[0..<n]" sp k r sp' k'] by (simp add: space_map_def)
qed

section \<open>Private memory\<close>

text \<open>
  A space all of whose pages are frames of its own, each mapped once: \<open>T\<close> are the frames of its
  tables, \<open>D\<close> its data frames, \<open>own\<close> every frame that is out.
\<close>

definition private_ok :: "AddressSpace \<Rightarrow> kmem \<Rightarrow> nat set \<Rightarrow> nat list \<Rightarrow> nat set \<Rightarrow> bool" where
  "private_ok sp k own T D \<longleftrightarrow> space_ok (with_owned sp T) k own \<and> set (as_owned sp) = set T \<union> D \<and> D \<subseteq> own \<and> D \<inter> set T = {}
     \<and> (\<forall>q f. is_path q \<and> length q = 4 \<and> walk (pm k) (as_root sp) q = Some f \<longrightarrow> f \<in> D)
     \<and> (\<forall>q q' f. is_path q \<and> is_path q' \<and> length q = 4 \<and> length q' = 4 \<and> walk (pm k) (as_root sp) q = Some f
          \<and> walk (pm k) (as_root sp) q' = Some f \<longrightarrow> q = q')"

definition grown :: "AddressSpace \<Rightarrow> kmem \<Rightarrow> nat set \<Rightarrow> AddressSpace \<Rightarrow> kmem \<Rightarrow> nat set \<Rightarrow> bool" where
  "grown sp k own sp' k' own' \<longleftrightarrow> as_root sp' = as_root sp \<and> own \<subseteq> own' \<and> set (as_owned sp) \<subseteq> set (as_owned sp')
     \<and> set (as_owned sp') \<subseteq> set (as_owned sp) \<union> (own' - own)
     \<and> (\<forall>x. (\<forall>g\<in>set (as_owned sp'). \<not> in_frame g x) \<longrightarrow> pm k' x = pm k x)"

lemma grown_refl: "grown sp k own sp k own"
  by (simp add: grown_def)

lemma grown_trans: "grown sp k own sp1 k1 own1 \<Longrightarrow> grown sp1 k1 own1 sp2 k2 own2 \<Longrightarrow> grown sp k own sp2 k2 own2"
  unfolding grown_def by (intro conjI) (auto, metis subsetD)

lemma private_aligned:
  assumes "private_ok sp k own T D"
  shows "g \<in> own \<Longrightarrow> g mod PAGE_SIZE = 0" and "set T \<subseteq> own" and "tree (pm k) (as_root sp) (set T)"
proof -
  obtain lost where "frames_ok (kfr k) own lost" using assms by (auto simp: private_ok_def space_ok_def)
  then show "g \<in> own \<Longrightarrow> g mod PAGE_SIZE = 0" using frames_ok_owned(2) by blast
  show "set T \<subseteq> own" "tree (pm k) (as_root sp) (set T)" using assms by (auto simp: private_ok_def space_ok_def)
qed

lemma private_walk:
  assumes "private_ok sp k own T D" and "walk (pm k) (as_root sp) (path v) = Some g"
  shows "g \<in> D"
  using assms is_path_path(1,2) [of v] unfolding private_ok_def by blast

lemma private_inj:
  assumes "private_ok sp k own T D" and "walk (pm k) (as_root sp) (path v) = Some g" and "walk (pm k) (as_root sp) (path v') = Some g"
  shows "path v = path v'"
  using assms is_path_path(1,2) [of v] is_path_path(1,2) [of v'] unfolding private_ok_def by blast

text \<open>The byte a process sees at an address.\<close>

definition view :: "AddressSpace \<Rightarrow> pmem \<Rightarrow> nat \<Rightarrow> u8 option" where
  "view sp m v = map_option m (translate sp m v)"

lemma alloc_private:
  assumes P: "private_ok sp k own T D" and a: "alloc_table k = (Some f, k1)"
  shows "space_ok (with_owned sp T) k1 (insert f own)" and "\<And>q. is_path q \<Longrightarrow> length q \<le> 4 \<Longrightarrow> walk (pm k1) (as_root sp) q = walk (pm k) (as_root sp) q"
    and "f \<notin> own" and "f mod PAGE_SIZE = 0" and "f < 2 ^ 48" and "pm k1 = mwrite (pm k) f (replicate PAGE_SIZE 0)"
proof -
  have ok: "space_ok (with_owned sp T) k own" using P by (simp add: private_ok_def)
  note F = alloc_table_some [OF ok a]
  note A = private_aligned [OF P]
  show "f \<notin> own" "f mod PAGE_SIZE = 0" "f < 2 ^ 48" "pm k1 = mwrite (pm k) f (replicate PAGE_SIZE 0)" using F by simp_all
  have same: "pm k1 x = pm k x" if "g \<in> set T" "in_frame g x" for g x
  proof -
    have "g \<noteq> f" "g mod PAGE_SIZE = 0" using that(1) A(1,2) F(1) by auto
    then have "\<not> in_frame f x" using frames_disjoint [OF F(2), of g x] that(2) by simp
    then show ?thesis by (auto simp: F(6) mwrite_def in_frame_def)
  qed
  show w: "walk (pm k1) (as_root sp) q = walk (pm k) (as_root sp) q" if "is_path q" "length q \<le> 4" for q
    using walk_outside [OF A(3) same that] by simp
  have "tree (pm k1) (as_root sp) (set T)" by (rule tree_cong [OF A(3) w]) simp_all
  then show "space_ok (with_owned sp T) k1 (insert f own)" using F(4,5) A(2) by (auto simp: space_ok_def)
qed

text \<open>One page of \<open>map_anonymous\<close>, on the level of walks.\<close>

lemma map_zero_page:
  assumes P: "private_ok sp k own T D" and a: "alloc_table k = (Some f, k1)"
    and m: "space_map va f 1 perm (sp\<lparr>as_owned := as_owned sp @ [f]\<rparr>) k1 = (Inr (), sp', k')" and b: "va + PAGE_SIZE \<le> 2 ^ 48"
  obtains own' T' where "private_ok sp' k' own' T' (insert f D)" "grown sp k own sp' k' own'"
    "\<And>q. is_path q \<Longrightarrow> length q = 4 \<Longrightarrow> walk (pm k') (as_root sp) q = (if q = path va then Some f else walk (pm k) (as_root sp) q)"
    "\<And>x. in_frame f x \<Longrightarrow> pm k' x = 0" "\<And>g x. g \<in> D \<Longrightarrow> in_frame g x \<Longrightarrow> pm k' x = pm k x" "f \<notin> D"
proof -
  note A = alloc_private [OF P a]
  have Pd: "D \<subseteq> own" "D \<inter> set T = {}" "set (as_owned sp) = set T \<union> D" using P by (simp_all add: private_ok_def)
  have T: "set T \<subseteq> own" by (rule private_aligned(2) [OF P])
  obtain new where N: "sp' = with_owned sp (as_owned sp @ f # new)" "space_map va f 1 perm (with_owned sp T) k1 = (Inr (), with_owned sp (T @ new), k')"
    using space_map_owned [OF m] by auto
  have al: "va mod PAGE_SIZE = 0" using m by (auto simp: space_map_def split: if_splits)
  have "map_loop va f perm [0] (with_owned sp T) k1 = (Inr (), with_owned sp (T @ new), k')"
    using N(2) al A(4) by (simp add: space_map_def)
  from map_loop_ok [OF this A(1)] obtain own' where
    E: "extends (with_owned sp T) k1 (insert f own) (with_owned sp (T @ new)) k' own'"
    and W: "\<And>q. is_path q \<Longrightarrow> length q = 4 \<Longrightarrow> q \<noteq> path va \<Longrightarrow> walk (pm k') (as_root sp) q = walk (pm k1) (as_root sp) q"
      "walk (pm k') (as_root sp) (path va) = Some f"
    using al A(4,5) b by (auto simp: PAGE_SIZE_def)
  have S: "set T \<union> set new = set T \<union> (own' - insert f own)" "insert f own \<subseteq> own'" "space_ok (with_owned sp (T @ new)) k' own'"
    "\<And>x. (\<And>g. g \<in> set T \<union> set new \<Longrightarrow> \<not> in_frame g x) \<Longrightarrow> pm k' x = pm k1 x"
    using E by (auto simp: extends_def)
  have fT: "f \<notin> set T \<union> set new" "f \<notin> D" using A(3) S(1) T Pd(1) by blast+
  have dis: "insert f D \<inter> (set T \<union> set new) = {}" using fT Pd(1,2) S(1) by blast
  obtain lost where fr: "frames_ok (kfr k') own' lost" using S(3) by (auto simp: space_ok_def)
  have al': "g mod PAGE_SIZE = 0" if "g \<in> own'" for g using frames_ok_owned(2) [OF fr] that by blast
  have sub: "set T \<union> set new \<subseteq> own'" "insert f D \<subseteq> own'" using S(1,2) T Pd(1) by blast+
  have keep: "pm k' x = pm k1 x" if "g \<in> insert f D" "in_frame g x" for g x
  proof (rule S(4))
    fix h assume h: "h \<in> set T \<union> set new"
    have "h \<noteq> g" using h dis that(1) by blast
    moreover have "h \<in> own'" "g \<in> own'" using h that(1) sub by blast+
    then have "h mod PAGE_SIZE = 0" "g mod PAGE_SIZE = 0" by (simp_all only: al')
    ultimately show "\<not> in_frame h x" using frames_disjoint [of h g x] that(2) by simp
  qed
  have w: "walk (pm k') (as_root sp) q = (if q = path va then Some f else walk (pm k) (as_root sp) q)" if "is_path q" "length q = 4" for q
    using W A(2) [of q] that by simp
  have "private_ok sp' k' own' (T @ new) (insert f D)"
    unfolding private_ok_def
  proof (intro conjI allI impI)
    show "space_ok (with_owned sp' (T @ new)) k' own'" "insert f D \<subseteq> own'" "insert f D \<inter> set (T @ new) = {}" using S(3) sub dis by (simp_all add: N(1))
    show "set (as_owned sp') = set (T @ new) \<union> insert f D" using Pd(3) by (auto simp: N(1))
    show "g \<in> insert f D" if "is_path q \<and> length q = 4 \<and> walk (pm k') (as_root sp') q = Some g" for q g
      using that w P by (auto simp: N(1) private_ok_def split: if_splits)
    show "q = q'" if "is_path q \<and> is_path q' \<and> length q = 4 \<and> length q' = 4 \<and> walk (pm k') (as_root sp') q = Some g \<and> walk (pm k') (as_root sp') q' = Some g" for q q' g
    proof -
      have old: "h \<in> D" if "is_path p" "length p = 4" "walk (pm k) (as_root sp) p = Some h" for p h using P that by (auto simp: private_ok_def)
      have inj: "p = p'" if "is_path p" "is_path p'" "length p = 4" "length p' = 4" "walk (pm k) (as_root sp) p = Some h" "walk (pm k) (as_root sp) p' = Some h" for p p' h
        using P that unfolding private_ok_def by blast
      have q: "is_path q" "is_path q'" "length q = 4" "length q' = 4" "walk (pm k') (as_root sp) q = Some g" "walk (pm k') (as_root sp) q' = Some g"
        using that by (simp_all add: N(1))
      show ?thesis
        by (cases "q = path va"; cases "q' = path va") (use q w [of q] w [of q'] old [of q g] old [of q' g] inj [of q q' g] fT(2) in auto)
    qed
  qed
  moreover have "grown sp k own sp' k' own'"
    unfolding grown_def
  proof (intro conjI allI impI)
    show "as_root sp' = as_root sp" "set (as_owned sp) \<subseteq> set (as_owned sp')" by (auto simp: N(1))
    show "own \<subseteq> own'" using S(2) by blast
    show "set (as_owned sp') \<subseteq> set (as_owned sp) \<union> (own' - own)" using S(1,2) A(3) Pd(3) by (auto simp: N(1))
    fix x assume "\<forall>g\<in>set (as_owned sp'). \<not> in_frame g x"
    then have x: "\<not> in_frame f x" "\<And>g. g \<in> set T \<union> set new \<Longrightarrow> \<not> in_frame g x" using Pd(3) by (auto simp: N(1))
    have "pm k' x = pm k1 x" using x(2) by (rule S(4))
    also have "\<dots> = pm k x" using x(1) by (auto simp: A(6) mwrite_def in_frame_def)
    finally show "pm k' x = pm k x" .
  qed
  moreover have "pm k' x = 0" if "in_frame f x" for x
    using keep [of f x] that by (auto simp: A(6) mwrite_def in_frame_def)
  moreover have "pm k' x = pm k x" if "g \<in> D" "in_frame g x" for g x
  proof -
    have "g \<noteq> f" "g mod PAGE_SIZE = 0" using that(1) fT(2) sub al' by auto
    then have "\<not> in_frame f x" using frames_disjoint [OF A(4), of g x] that(2) by simp
    then show ?thesis using keep [of g x] that by (auto simp: A(6) mwrite_def in_frame_def)
  qed
  ultimately show ?thesis using that [of own' "T @ new"] w fT(2) by blast
qed

lemma same_page:
  assumes "va mod PAGE_SIZE = 0" and "v < 2 ^ 48" and "va < 2 ^ 48"
  shows "path v = path va \<longleftrightarrow> va \<le> v \<and> v < va + PAGE_SIZE"
proof -
  obtain q where q: "va = q * 4096" using assms(1) by (auto simp: PAGE_SIZE_def)
  have "v div 4096 = q \<longleftrightarrow> q * 4096 \<le> v \<and> v < q * 4096 + 4096" by auto
  then show ?thesis unfolding path_inj [OF assms(2,3)] by (simp add: q PAGE_SIZE_def)
qed

lemma view_walk: "view sp m v = map_option (\<lambda>f. m (f + v mod PAGE_SIZE)) (walk m (as_root sp) (path v))"
  by (simp add: view_def translate_eq option.map_comp o_def)

lemma in_frame_offset [simp]: "in_frame f (f + v mod PAGE_SIZE)"
  by (simp add: in_frame_def PAGE_SIZE_def)

lemma map_anonymous_loop_view:
  assumes "map_anonymous_loop va perm is sp k = (Inr (), sp', k')" and "private_ok sp k own T D"
    and "\<And>i. i \<in> set is \<Longrightarrow> va + i * PAGE_SIZE + PAGE_SIZE \<le> 2 ^ 48" and "va mod PAGE_SIZE = 0"
  shows "\<exists>own' T' D'. private_ok sp' k' own' T' D' \<and> grown sp k own sp' k' own'
    \<and> (\<forall>v<2 ^ 48. view sp' (pm k') v = (if \<exists>i\<in>set is. va + i * PAGE_SIZE \<le> v \<and> v < va + i * PAGE_SIZE + PAGE_SIZE then Some 0 else view sp (pm k) v))"
  using assms
proof (induction "is" arbitrary: sp k own T D)
  case Nil
  then have "private_ok sp' k' own T D" "sp' = sp" "k' = k" by simp_all
  then show ?case using grown_refl by auto
next
  case (Cons i "is")
  let ?v = "va + i * PAGE_SIZE"
  obtain r k1 where a: "alloc_table k = (r, k1)" by (cases "alloc_table k")
  obtain f where f: "r = Some f" using Cons.prems(1) a by (cases r) simp_all
  let ?sp = "sp\<lparr>as_owned := as_owned sp @ [f]\<rparr>"
  obtain r2 sp2 k2 where m: "space_map ?v f 1 perm ?sp k1 = (r2, sp2, k2)" by (metis prod_cases3)
  have r2: "r2 = Inr ()" and rest: "map_anonymous_loop va perm is sp2 k2 = (Inr (), sp', k')"
    using Cons.prems(1) a f m by (cases r2; simp)+
  have b: "?v + PAGE_SIZE \<le> 2 ^ 48" using Cons.prems(3) by simp
  have va: "?v mod PAGE_SIZE = 0" using Cons.prems(4) by simp
  obtain own1 T1 where
    P: "private_ok sp2 k2 own1 T1 (insert f D)" "grown sp k own sp2 k2 own1"
    and W: "\<And>q. is_path q \<Longrightarrow> length q = 4 \<Longrightarrow> walk (pm k2) (as_root sp) q = (if q = path ?v then Some f else walk (pm k) (as_root sp) q)"
    and Z: "\<And>x. in_frame f x \<Longrightarrow> pm k2 x = 0" and S: "\<And>g x. g \<in> D \<Longrightarrow> in_frame g x \<Longrightarrow> pm k2 x = pm k x"
    by (rule map_zero_page [OF Cons.prems(2) a [unfolded f] m [unfolded r2] b]) blast
  have root: "as_root sp2 = as_root sp" using P(2) by (simp add: grown_def)
  have "view sp2 (pm k2) v = (if ?v \<le> v \<and> v < ?v + PAGE_SIZE then Some 0 else view sp (pm k) v)" if v: "v < 2 ^ 48" for v
  proof (cases "path v = path ?v")
    case True
    moreover have "?v < 2 ^ 48" using b by (simp add: PAGE_SIZE_def)
    ultimately show ?thesis using W [of "path v"] Z same_page [OF va v] by (simp add: view_walk root)
  next
    case False
    have "pm k2 (g + v mod PAGE_SIZE) = pm k (g + v mod PAGE_SIZE)" if "walk (pm k) (as_root sp) (path v) = Some g" for g
      by (rule S [OF private_walk [OF Cons.prems(2) that] in_frame_offset])
    then have "view sp2 (pm k2) v = view sp (pm k) v"
      using W [of "path v"] False by (cases "walk (pm k) (as_root sp) (path v)") (simp_all add: view_walk root)
    moreover have "?v < 2 ^ 48" using b by (simp add: PAGE_SIZE_def)
    ultimately show ?thesis using False same_page [OF va v] by auto
  qed
  moreover obtain own' T' D' where "private_ok sp' k' own' T' D'" "grown sp2 k2 own1 sp' k' own'"
    "\<forall>v<2 ^ 48. view sp' (pm k') v = (if \<exists>i\<in>set is. va + i * PAGE_SIZE \<le> v \<and> v < va + i * PAGE_SIZE + PAGE_SIZE then Some 0 else view sp2 (pm k2) v)"
    using Cons.IH [OF rest P(1) Cons.prems(3) Cons.prems(4)] by auto
  ultimately show ?case using grown_trans [OF P(2)] by (intro exI [of _ own'] exI [of _ T'] exI [of _ D']) auto
qed

lemma map_anonymous_view:
  assumes "map_anonymous va n perm sp k = (Inr (), sp', k')" and "private_ok sp k own T D"
    and "va + n * PAGE_SIZE \<le> 2 ^ 48" and "va mod PAGE_SIZE = 0"
  shows "\<exists>own' T' D'. private_ok sp' k' own' T' D' \<and> grown sp k own sp' k' own'
    \<and> (\<forall>v<2 ^ 48. view sp' (pm k') v = (if va \<le> v \<and> v < va + n * PAGE_SIZE then Some 0 else view sp (pm k) v))"
proof -
  have b: "va + i * PAGE_SIZE + PAGE_SIZE \<le> 2 ^ 48" if "i \<in> set [0..<n]" for i
  proof -
    have "(i + 1) * PAGE_SIZE \<le> n * PAGE_SIZE" using that by (intro mult_le_mono1) simp
    then show ?thesis using assms(3) by simp
  qed
  have in_run: "(\<exists>i\<in>set [0..<n]. va + i * PAGE_SIZE \<le> v \<and> v < va + i * PAGE_SIZE + PAGE_SIZE) \<longleftrightarrow> va \<le> v \<and> v < va + n * PAGE_SIZE" for v
  proof
    assume "\<exists>i\<in>set [0..<n]. va + i * PAGE_SIZE \<le> v \<and> v < va + i * PAGE_SIZE + PAGE_SIZE"
    then obtain i where i: "i < n" "va + i * PAGE_SIZE \<le> v" "v < va + i * PAGE_SIZE + PAGE_SIZE" by auto
    have "(i + 1) * PAGE_SIZE \<le> n * PAGE_SIZE" using i(1) by (intro mult_le_mono1) simp
    then show "va \<le> v \<and> v < va + n * PAGE_SIZE" using i by simp
  next
    assume v: "va \<le> v \<and> v < va + n * PAGE_SIZE"
    then have "v - va < n * PAGE_SIZE" by linarith
    then have "(v - va) div PAGE_SIZE < n" by (rule less_mult_imp_div_less)
    moreover have "va + (v - va) div PAGE_SIZE * PAGE_SIZE \<le> v \<and> v < va + (v - va) div PAGE_SIZE * PAGE_SIZE + PAGE_SIZE"
    proof -
      have "v - va = (v - va) div PAGE_SIZE * PAGE_SIZE + (v - va) mod PAGE_SIZE" "(v - va) mod PAGE_SIZE < PAGE_SIZE"
        by (simp_all add: PAGE_SIZE_def)
      then show ?thesis using v by linarith
    qed
    ultimately show "\<exists>i\<in>set [0..<n]. va + i * PAGE_SIZE \<le> v \<and> v < va + i * PAGE_SIZE + PAGE_SIZE" by auto
  qed
  show ?thesis using map_anonymous_loop_view [OF assms(1) [unfolded map_anonymous_def] assms(2) b assms(4)] unfolding in_run .
qed

lemma write_segment_eq:
  "write_segment sp m va bs = (case copy_to_user sp m va bs of (Inl _, m') \<Rightarrow> (Inl ''segment page vanished'', m') | (Inr u, m') \<Rightarrow> (Inr u, m'))"
proof (induction sp m va bs rule: write_segment.induct)
  case (1 sp m va bs)
  show ?case
  proof (cases "bs = []")
    case True
    then show ?thesis by (simp add: write_segment.simps [of sp m va "[]"] copy_to_user.simps [of sp m va "[]"])
  next
    case False
    show ?thesis
    proof (cases "translate sp m va")
      case None
      then show ?thesis using False by (simp add: write_segment.simps [of sp m va bs] copy_to_user.simps [of sp m va bs])
    next
      case (Some pa)
      then show ?thesis using 1 [OF False Some refl] False
        by (simp add: write_segment.simps [of sp m va bs] copy_to_user.simps [of sp m va bs] Let_def)
    qed
  qed
qed

lemma translate_inj:
  assumes P: "private_ok sp k own T D" and v: "v < 2 ^ 48" "v' < 2 ^ 48"
    and t: "translate sp (pm k) v = Some x" "translate sp (pm k) v' = Some x"
  shows "v = v'"
proof -
  obtain g g' where g: "walk (pm k) (as_root sp) (path v) = Some g" "x = g + v mod PAGE_SIZE"
    "walk (pm k) (as_root sp) (path v') = Some g'" "x = g' + v' mod PAGE_SIZE" using t by (auto simp: translate_eq)
  have D: "D \<subseteq> own" using P by (simp add: private_ok_def)
  have "g mod PAGE_SIZE = 0" "g' mod PAGE_SIZE = 0"
    using private_aligned(1) [OF P] private_walk [OF P g(1)] private_walk [OF P g(3)] D by blast+
  moreover have "in_frame g x" unfolding g(2) by simp
  moreover have "in_frame g' x" unfolding g(4) by simp
  ultimately have "g = g'" using frames_disjoint [of g g' x] by (cases "g = g'") simp_all
  then have gg: "g = g'" "v mod PAGE_SIZE = v' mod PAGE_SIZE" using g(2,4) by simp_all
  then have "path v = path v'" using private_inj [OF P g(1)] g(3) by simp
  then have "v div PAGE_SIZE = v' div PAGE_SIZE" using path_inj [OF v] by simp
  then show ?thesis using gg(2) by (metis div_mult_mod_eq)
qed

text \<open>Writing to mapped addresses of private memory is what the process sees afterwards.\<close>

lemma private_write:
  assumes P: "private_ok sp k own T D" and b: "va + length bs \<le> 2 ^ 48"
    and map: "\<And>i. i < length bs \<Longrightarrow> view sp (pm k) (va + i) \<noteq> None"
  shows "\<exists>m'. copy_to_user sp (pm k) va bs = (Inr (), m') \<and> private_ok sp (k\<lparr>pm := m'\<rparr>) own T D \<and> grown sp k own sp (k\<lparr>pm := m'\<rparr>) own
    \<and> (\<forall>v<2 ^ 48. view sp m' v = (if va \<le> v \<and> v < va + length bs then Some (bs ! (v - va)) else view sp (pm k) v))"
proof -
  note A = private_aligned [OF P]
  have D: "D \<subseteq> own" "D \<inter> set T = {}" "set (as_owned sp) = set T \<union> D" using P by (simp_all add: private_ok_def)
  have tr: "\<exists>pa g. translate sp (pm k) (va + i) = Some pa \<and> g \<in> D \<and> in_frame g pa" if i: "i < length bs" for i
    using map [OF i] private_walk [OF P, of "va + i"] in_frame_offset [of _ "va + i"] by (auto simp: view_walk translate_eq simp del: in_frame_offset)
  have al: "g mod PAGE_SIZE = 0" if "g \<in> set T \<union> D" for g using that A(2) D(1) by (intro A(1)) blast
  have "writable sp (pm k) va (length bs)"
    unfolding writable_def
  proof (intro allI impI)
    fix i assume "i < length bs"
    then obtain pa g where pa: "translate sp (pm k) (va + i) = Some pa" "g \<in> D" "in_frame g pa" using tr by blast
    have "\<not> in_frame t pa" if t: "t \<in> tables (pm k) (as_root sp)" for t
    proof -
      have "t \<in> set T" using t tree_frame(1) [OF A(3)] by (auto simp: tables_def)
      then have "t \<noteq> g" "t mod PAGE_SIZE = 0" using pa(2) D(2) al by auto
      then show ?thesis using frames_disjoint [of t g pa] pa(2,3) al by simp
    qed
    then show "\<exists>pa. translate sp (pm k) (va + i) = Some pa \<and> (\<forall>t\<in>tables (pm k) (as_root sp). \<not> in_frame t pa)" using pa(1) by blast
  qed
  from copy_to_user_ok [OF A(3) this] obtain m' where c: "copy_to_user sp (pm k) va bs = (Inr (), m')"
    and w0: "\<forall>q. is_path q \<and> length q \<le> 4 \<longrightarrow> walk m' (as_root sp) q = walk (pm k) (as_root sp) q"
    and o0: "\<forall>x. (\<forall>i<length bs. translate sp (pm k) (va + i) \<noteq> Some x) \<longrightarrow> m' x = pm k x"
    and h: "inj_on (\<lambda>i. the (translate sp (pm k) (va + i))) {..<length bs} \<longrightarrow> (\<forall>i<length bs. m' (the (translate sp (pm k) (va + i))) = bs ! i)"
    by blast
  have w: "walk m' (as_root sp) q = walk (pm k) (as_root sp) q" if "is_path q" "length q \<le> 4" for q using w0 that by blast
  have o: "m' x = pm k x" if "\<And>i. i < length bs \<Longrightarrow> translate sp (pm k) (va + i) \<noteq> Some x" for x using o0 that by blast
  have inj: "inj_on (\<lambda>i. the (translate sp (pm k) (va + i))) {..<length bs}"
  proof (rule inj_onI)
    fix i j assume ij: "i \<in> {..<length bs}" "j \<in> {..<length bs}" "the (translate sp (pm k) (va + i)) = the (translate sp (pm k) (va + j))"
    then obtain x where "translate sp (pm k) (va + i) = Some x" "translate sp (pm k) (va + j) = Some x" using tr [of i] tr [of j] by force
    then have "va + i = va + j" using ij(1,2) b by (intro translate_inj [OF P]) auto
    then show "i = j" by simp
  qed
  have t': "translate sp m' v = translate sp (pm k) v" for v using w [of "path v"] by (simp add: translate_eq)
  have V: "view sp m' v = (if va \<le> v \<and> v < va + length bs then Some (bs ! (v - va)) else view sp (pm k) v)" if v: "v < 2 ^ 48" for v
  proof (cases "va \<le> v \<and> v < va + length bs")
    case True
    then have i: "v - va < length bs" "va + (v - va) = v" by auto
    obtain x where "translate sp (pm k) v = Some x" using tr [OF i(1)] i(2) by auto
    then show ?thesis using h [rule_format, OF inj i(1)] i(2) True by (simp add: view_def t')
  next
    case False
    have "m' x = pm k x" if x: "translate sp (pm k) v = Some x" for x
    proof (rule o)
      fix i assume i: "i < length bs"
      show "translate sp (pm k) (va + i) \<noteq> Some x"
      proof
        assume "translate sp (pm k) (va + i) = Some x"
        then have "va + i = v" using i b v x by (intro translate_inj [OF P]) auto
        then show False using False i by auto
      qed
    qed
    then show ?thesis using False by (cases "translate sp (pm k) v") (auto simp: view_def t')
  qed
  have "tree m' (as_root sp) (set T)" by (rule tree_cong [OF A(3) w]) simp_all
  then have "private_ok sp (k\<lparr>pm := m'\<rparr>) own T D" using P w unfolding private_ok_def space_ok_def by (simp cong: conj_cong)
  moreover have "grown sp k own sp (k\<lparr>pm := m'\<rparr>) own"
    unfolding grown_def
  proof (intro conjI allI impI)
    fix x assume x: "\<forall>g\<in>set (as_owned sp). \<not> in_frame g x"
    have "m' x = pm k x" using tr D(3) x by (intro o) fastforce
    then show "pm (k\<lparr>pm := m'\<rparr>) x = pm k x" by simp
  qed simp_all
  ultimately show ?thesis using V c by blast
qed

section \<open>Segments\<close>

text \<open>What a loaded segment adds to what the process sees: its pages, with the file bytes in them.\<close>

definition overlay :: "bytes \<Rightarrow> Phdr \<Rightarrow> (nat \<Rightarrow> u8 option) \<Rightarrow> nat \<Rightarrow> u8 option" where
  "overlay img ph V v = (if ptype ph = PT_LOAD \<and> memsz ph \<noteq> 0 \<and> page_align_down (vaddr ph) \<le> v \<and> v < page_align_up (vaddr ph + memsz ph)
     then Some (if vaddr ph \<le> v \<and> v < vaddr ph + filesz ph then img ! (ph_offset ph + (v - vaddr ph)) else 0)
     else V v)"

definition phdrs :: "bytes \<Rightarrow> Ehdr \<Rightarrow> Phdr list" where
  "phdrs img eh = map (\<lambda>i. parse_Phdr (take PHDR_SIZE (drop (wadd (phoff eh) (i * phentsize eh)) img))) [0..<phnum eh]"

definition elf_view :: "bytes \<Rightarrow> Ehdr \<Rightarrow> nat \<Rightarrow> u8 option" where
  "elf_view img eh = fold (overlay img) (phdrs img eh) (\<lambda>_. None)"

definition low_half :: "Phdr \<Rightarrow> bool" where
  "low_half ph \<longleftrightarrow> (ptype ph = PT_LOAD \<longrightarrow> vaddr ph + memsz ph \<le> 2 ^ 48)"

lemma page_align_up_least: "a \<le> b * PAGE_SIZE \<Longrightarrow> page_align_up a \<le> b * PAGE_SIZE"
  unfolding page_align_up_def by (intro mult_le_mono1) (simp add: PAGE_SIZE_def)

lemma seg_extent:
  assumes "vaddr ph + memsz ph \<le> 2 ^ 48"
  shows "seg_start ph + seg_pages ph * PAGE_SIZE = page_align_up (vaddr ph + memsz ph)"
    and "page_align_up (vaddr ph + memsz ph) \<le> 2 ^ 48" and "seg_start ph \<le> vaddr ph" and "seg_start ph mod PAGE_SIZE = 0"
proof -
  let ?e = "page_align_up (vaddr ph + memsz ph)"
  show le: "?e \<le> 2 ^ 48" using page_align_up_least [of "vaddr ph + memsz ph" "2 ^ 36"] assms by (simp add: PAGE_SIZE_def)
  show s: "seg_start ph \<le> vaddr ph" by (simp add: seg_start_def page_align_down_def)
  show "seg_start ph mod PAGE_SIZE = 0" by (simp add: seg_start_def page_align_down_def)
  have "seg_start ph \<le> ?e" using s page_align_up_ge [of "vaddr ph + memsz ph"] by simp
  then have "wsub (page_align_up (wadd (vaddr ph) (memsz ph)) mod 2 ^ 64) (seg_start ph) = ?e - seg_start ph"
  proof -
    have s: "?e + 2 ^ 64 - seg_start ph = ?e - seg_start ph + 2 ^ 64" using \<open>seg_start ph \<le> ?e\<close> by simp
    have w: "wadd (vaddr ph) (memsz ph) = vaddr ph + memsz ph" using assms by (simp add: wadd_def)
    have "?e < 2 ^ 64" using le by simp
    then have "wsub (?e mod 2 ^ 64) (seg_start ph) = (?e - seg_start ph + 2 ^ 64) mod 2 ^ 64" unfolding wsub_def s [symmetric] by simp
    also have "\<dots> = ?e - seg_start ph" unfolding mod_add_self2 using \<open>?e < 2 ^ 64\<close> by simp
    finally show ?thesis unfolding w .
  qed
  moreover have "PAGE_SIZE dvd ?e - seg_start ph" unfolding page_align_up_def seg_start_def page_align_down_def by (intro dvd_diff_nat) simp_all
  ultimately have "seg_pages ph * PAGE_SIZE = ?e - seg_start ph" by (simp add: seg_pages_def)
  then show "seg_start ph + seg_pages ph * PAGE_SIZE = ?e" using \<open>seg_start ph \<le> ?e\<close> by simp
qed

lemma load_segment_view:
  assumes l: "load_segment img ph sp k = (Inr (), sp', k')" and P: "private_ok sp k own T D"
    and low: "low_half ph" and w: "ph_offset ph < 2 ^ 64" "filesz ph < 2 ^ 64"
  shows "\<exists>own' T' D'. private_ok sp' k' own' T' D' \<and> grown sp k own sp' k' own'
    \<and> (\<forall>v<2 ^ 48. view sp' (pm k') v = overlay img ph (view sp (pm k)) v)"
proof (cases "ptype ph \<noteq> PT_LOAD \<or> memsz ph = 0")
  case True
  then have "sp' = sp" "k' = k" using l by (auto simp: load_segment_def)
  then show ?thesis using P grown_refl True by (intro exI [of _ own] exI [of _ T] exI [of _ D]) (auto simp: overlay_def)
next
  case False
  then have b: "vaddr ph + memsz ph \<le> 2 ^ 48" using low by (simp add: low_half_def)
  note X = seg_extent [OF b]
  obtain r sp1 k1 where m: "map_anonymous (seg_start ph) (seg_pages ph) (seg_perm ph) sp k = (r, sp1, k1)" by (metis prod_cases3)
  define e where "e = wadd (ph_offset ph) (filesz ph)"
  define bs where "bs = take (e - ph_offset ph) (drop (ph_offset ph) img)"
  have fz: "filesz ph \<le> memsz ph" using l False by (auto simp: load_segment_def split: if_splits)
  have r: "r = Inr ()" using l False fz m by (cases r) (auto simp: load_segment_def)
  have e: "e \<le> length img" "ph_offset ph \<le> e"
    using l False fz m r by (auto simp: load_segment_def e_def Let_def split: if_splits)
  obtain m' where ws: "write_segment sp1 (pm k1) (vaddr ph) bs = (Inr (), m')" "sp' = sp1" "k' = k1\<lparr>pm := m'\<rparr>"
    using l False fz m r e by (auto simp: load_segment_def e_def [symmetric] bs_def [symmetric] Let_def split: prod.splits)
  have "e = ph_offset ph + filesz ph"
  proof (cases "ph_offset ph + filesz ph < 2 ^ 64")
    case False
    then have "e = ph_offset ph + filesz ph - 2 ^ 64" using w by (simp add: e_def wadd_def mod_if)
    moreover have "ph_offset ph + filesz ph - 2 ^ 64 < ph_offset ph" using False w by linarith
    ultimately show ?thesis using e(2) by linarith
  qed (simp add: e_def wadd_def)
  then have bs: "length bs = filesz ph" "\<And>i. i < filesz ph \<Longrightarrow> bs ! i = img ! (ph_offset ph + i)" using e by (simp_all add: bs_def)
  from map_anonymous_view [OF m [unfolded r] P] X obtain own1 T1 D1 where
    A: "private_ok sp1 k1 own1 T1 D1" "grown sp k own sp1 k1 own1"
    and V: "\<And>v. v < 2 ^ 48 \<Longrightarrow> view sp1 (pm k1) v = (if seg_start ph \<le> v \<and> v < page_align_up (vaddr ph + memsz ph) then Some 0 else view sp (pm k) v)"
    by auto
  have in_e: "vaddr ph + memsz ph \<le> page_align_up (vaddr ph + memsz ph)" by (rule page_align_up_ge)
  have "view sp1 (pm k1) (vaddr ph + i) \<noteq> None" if "i < length bs" for i
    using V [of "vaddr ph + i"] that bs(1) fz b X(3) in_e by simp
  from private_write [of sp1 k1 own1 T1 D1 "vaddr ph" bs, OF A(1) _ this] bs(1) fz b obtain m2 where
    C: "copy_to_user sp1 (pm k1) (vaddr ph) bs = (Inr (), m2)" "private_ok sp1 (k1\<lparr>pm := m2\<rparr>) own1 T1 D1" "grown sp1 k1 own1 sp1 (k1\<lparr>pm := m2\<rparr>) own1"
    "\<And>v. v < 2 ^ 48 \<Longrightarrow> view sp1 m2 v = (if vaddr ph \<le> v \<and> v < vaddr ph + length bs then Some (bs ! (v - vaddr ph)) else view sp1 (pm k1) v)"
    by auto
  have m2: "m' = m2" using ws(1) C(1) by (simp add: write_segment_eq)
  have "view sp' (pm k') v = overlay img ph (view sp (pm k)) v" if v: "v < 2 ^ 48" for v
    using C(4) [OF v] V [OF v] bs fz False X(3) in_e by (auto simp: overlay_def ws m2 seg_start_def)
  moreover have "grown sp k own sp1 (k1\<lparr>pm := m2\<rparr>) own1" by (rule grown_trans [OF A(2) C(3)])
  ultimately show ?thesis using C(2) by (intro exI [of _ own1] exI [of _ T1] exI [of _ D1]) (simp add: ws m2)
qed

lemma field_less: "n \<le> 8 \<Longrightarrow> field b off n < 2 ^ 64"
  unfolding field_def by (rule order.strict_trans2 [OF unsigned_less]) simp

lemma elf_read_eq: "elf_read n img a = Inr b \<Longrightarrow> b = take n (drop a img)"
  by (auto simp: elf_read_def split: if_splits)

lemma load_segments_view:
  assumes "load_segments img eh is sp k = (Inr (), sp', k')" and "private_ok sp k own T D"
    and "\<And>i. i \<in> set is \<Longrightarrow> low_half (parse_Phdr (take PHDR_SIZE (drop (wadd (phoff eh) (i * phentsize eh)) img)))"
    and "\<And>v. v < 2 ^ 48 \<Longrightarrow> view sp (pm k) v = V v"
  shows "\<exists>own' T' D'. private_ok sp' k' own' T' D' \<and> grown sp k own sp' k' own'
    \<and> (\<forall>v<2 ^ 48. view sp' (pm k') v
        = fold (overlay img) (map (\<lambda>i. parse_Phdr (take PHDR_SIZE (drop (wadd (phoff eh) (i * phentsize eh)) img))) is) V v)"
  using assms
proof (induction "is" arbitrary: sp k own T D V)
  case Nil
  then show ?case using grown_refl by (intro exI [of _ own] exI [of _ T] exI [of _ D]) auto
next
  case (Cons i "is")
  let ?b = "take PHDR_SIZE (drop (wadd (phoff eh) (i * phentsize eh)) img)"
  have rd: "elf_read PHDR_SIZE img (wadd (phoff eh) (i * phentsize eh)) = Inr ?b"
    using Cons.prems(1) elf_read_eq [of PHDR_SIZE img "wadd (phoff eh) (i * phentsize eh)"] by (auto split: sum.splits)
  obtain r sp1 k1 where s: "load_segment img (parse_Phdr ?b) sp k = (r, sp1, k1)" by (metis prod_cases3)
  have r: "r = Inr ()" and rest: "load_segments img eh is sp1 k1 = (Inr (), sp', k')" using Cons.prems(1) rd s by (cases r; simp)+
  have w: "ph_offset (parse_Phdr ?b) < 2 ^ 64" "filesz (parse_Phdr ?b) < 2 ^ 64" using field_less by (simp_all add: parse_Phdr_def)
  from load_segment_view [OF s [unfolded r] Cons.prems(2) _ w] Cons.prems(3) [of i] obtain own1 T1 D1 where
    A: "private_ok sp1 k1 own1 T1 D1" "grown sp k own sp1 k1 own1" "\<forall>v<2 ^ 48. view sp1 (pm k1) v = overlay img (parse_Phdr ?b) (view sp (pm k)) v"
    by auto
  have V: "view sp1 (pm k1) v = overlay img (parse_Phdr ?b) V v" if "v < 2 ^ 48" for v
    using A(3) Cons.prems(4) [OF that] that by (simp add: overlay_def)
  from Cons.IH [OF rest A(1) Cons.prems(3) V] obtain own' T' D' where
    B: "private_ok sp' k' own' T' D'" "grown sp1 k1 own1 sp' k' own'"
    "\<forall>v<2 ^ 48. view sp' (pm k') v = fold (overlay img) (map (\<lambda>i. parse_Phdr (take PHDR_SIZE (drop (wadd (phoff eh) (i * phentsize eh)) img))) is) (overlay img (parse_Phdr ?b) V) v"
    by auto
  have "grown sp k own sp' k' own'" by (rule grown_trans [OF A(2) B(2)])
  then show ?case using B(1,3) by (intro exI [of _ own'] exI [of _ T'] exI [of _ D']) simp
qed

lemma new_space_private:
  assumes "frames_ok (kfr k) own lost" and "END (kfr k) \<le> 2 ^ 48" and "AddressSpace_new k = (Some sp, k')"
  shows "private_ok sp k' (insert (as_root sp) own) [as_root sp] {}" and "view sp (pm k') v = None"
proof -
  note N = AddressSpace_new_ok [OF assms]
  have e: "walk (pm k') (as_root sp) q = None" if "is_path q" "length q = 4" for q
  proof -
    obtain a k1 where k1: "alloc_table k = (Some a, k1)" "as_root sp = a" "pm k' = pm k1"
      using assms(3) by (auto simp: AddressSpace_new_def split: prod.splits option.splits)
    have "rd64 (pm k') (a + 8 * j) = 0" if "j < 512" for j
      using k1 zeroed_slot [OF that] by (auto simp: alloc_table_def split: prod.splits option.splits)
    from walk_zeroed [OF this that(1)] show ?thesis using that(2) k1(2) by auto
  qed
  have "with_owned sp [as_root sp] = sp" using with_owned_same [of sp] N(4) by simp
  then show "private_ok sp k' (insert (as_root sp) own) [as_root sp] {}" using N(1,4) e
    by (auto simp: private_ok_def)
  show "view sp (pm k') v = None" using N(3) by (simp add: view_def)
qed

text \<open>A header offset near the top of the address range passes the bounds check, because the check wraps.\<close>

lemma elf_read_wraps:
  assumes "56 \<le> length img" and "length img < 2 ^ 63"
  shows "elf_read PHDR_SIZE img (2 ^ 64 - 8) = Inl OUT_OF_BOUNDS"
  using assms by (simp add: elf_read_def wadd_def PHDR_SIZE_def)

section \<open>Property\<close>


section \<open>An image that loads\<close>

lemma map_anonymous_page_succeeds:
  assumes P: "private_ok sp k own T D" and "4 \<le> free_count (kfr k)" and "va mod PAGE_SIZE = 0"
  shows "fst (map_anonymous va 1 perm sp k) = Inr ()"
proof -
  obtain lost where f: "frames_ok (kfr k) own lost" using P by (auto simp: private_ok_def space_ok_def)
  obtain r fr where a: "frames_alloc (kfr k) = (r, fr)" by (cases "frames_alloc (kfr k)")
  show ?thesis
  proof (cases r)
    case None
    then show ?thesis using frames_alloc_ok [OF f a] assms(2) by simp
  next
    case (Some g)
    define k1 where "k1 = k\<lparr>kfr := fr, pm := mwrite (pm k) g (replicate PAGE_SIZE 0)\<rparr>"
    have al: "alloc_table k = (Some g, k1)" by (simp add: alloc_table_def a Some k1_def)
    note A = alloc_private [OF P al]
    have "3 \<le> free_count (kfr k1)" using frames_alloc_count(2) [OF f a [unfolded Some]] assms(2) by (simp add: k1_def)
    from map_page_succeeds [OF A(1) this assms(3) A(4)] have s: "fst (space_map va g 1 perm (with_owned sp T) k1) = Inr ()" .
    obtain r2 sp2 k2 where m: "space_map va g 1 perm (sp\<lparr>as_owned := as_owned sp @ [g]\<rparr>) k1 = (r2, sp2, k2)" by (metis prod_cases3)
    from space_map_owned [OF this] s have "r2 = Inr ()" by auto
    then show ?thesis using al m by (simp add: map_anonymous_def)
  qed
qed

definition demo_elf :: bytes where
  "demo_elf = [0x7f, 0x45, 0x4c, 0x46, 2, 1, 1, 0] @ replicate 8 0 @ [2, 0, 183, 0, 1, 0, 0, 0] @ [0, 0, 0x40, 0, 0, 0, 0, 0] @ [64, 0, 0, 0, 0, 0, 0, 0]
     @ replicate 8 0 @ replicate 4 0 @ [64, 0, 56, 0, 1, 0] @ replicate 6 0
     @ [1, 0, 0, 0, 5, 0, 0, 0] @ [120, 0, 0, 0, 0, 0, 0, 0] @ [0, 0, 0x40, 0, 0, 0, 0, 0] @ replicate 8 0
     @ [4, 0, 0, 0, 0, 0, 0, 0] @ [8, 0, 0, 0, 0, 0, 0, 0] @ replicate 8 0 @ [0xde, 0xc0, 0xad, 0xde]"

definition demo_ehdr :: Ehdr where
  "demo_ehdr = \<lparr>e_ident = [0x7f, 0x45, 0x4c, 0x46, 2, 1, 1, 0] @ replicate 8 0, etype = 2, machine = 183, e_entry = 0x400000, phoff = 64, phentsize = 56, phnum = 1\<rparr>"

definition demo_phdr :: Phdr where
  "demo_phdr = \<lparr>ptype = 1, ph_flags = 5, ph_offset = 120, vaddr = 0x400000, filesz = 4, memsz = 8\<rparr>"

lemma demo_check: "elf_check demo_elf = Inr demo_ehdr"
  by (simp add: elf_check_def elf_read_def wadd_def EHDR_SIZE_def demo_elf_def parse_Ehdr_def EI_NIDENT_def field_def Let_def
      ELF_MAGIC_def ELFCLASS64_def ELFDATA2LSB_def ET_EXEC_def EM_AARCH64_def demo_ehdr_def)

lemma demo_read: "elf_read PHDR_SIZE demo_elf 64 = Inr (take PHDR_SIZE (drop 64 demo_elf))"
  by (simp add: elf_read_def wadd_def PHDR_SIZE_def demo_elf_def)

lemma demo_parse: "parse_Phdr (take PHDR_SIZE (drop 64 demo_elf)) = demo_phdr"
  by (simp add: parse_Phdr_def PHDR_SIZE_def demo_elf_def field_def demo_phdr_def)

lemma demo_segment: "seg_start demo_phdr = 0x400000" "seg_pages demo_phdr = 1" "low_half demo_phdr"
  by (simp_all add: seg_start_def seg_pages_def demo_phdr_def page_align_down_def page_align_up_def wadd_def wsub_def PAGE_SIZE_def low_half_def)

lemma demo_loads:
  assumes P: "private_ok sp k own T D" and c: "4 \<le> free_count (kfr k)"
  shows "\<exists>sp' k'. elf_load demo_elf sp k = (Inr 0x400000, sp', k')"
proof -
  obtain sp1 k1 where m: "map_anonymous 0x400000 1 (seg_perm demo_phdr) sp k = (Inr (), sp1, k1)"
    using map_anonymous_page_succeeds [OF P c, where va = "0x400000" and perm = "seg_perm demo_phdr"] by (cases "map_anonymous 0x400000 1 (seg_perm demo_phdr) sp k") (simp add: PAGE_SIZE_def)
  from map_anonymous_view [OF m P] obtain own1 T1 D1 where A: "private_ok sp1 k1 own1 T1 D1"
    and V: "\<forall>v<2 ^ 48. view sp1 (pm k1) v = (if 0x400000 \<le> v \<and> v < 0x400000 + 1 * PAGE_SIZE then Some 0 else view sp (pm k) v)"
    by (auto simp: PAGE_SIZE_def)
  let ?bs = "take 4 (drop 120 demo_elf)"
  have l: "length ?bs = 4" by (simp add: demo_elf_def)
  have "view sp1 (pm k1) (0x400000 + i) \<noteq> None" if "i < length ?bs" for i using V that l by (simp add: PAGE_SIZE_def)
  with private_write [OF A, of "0x400000" ?bs] l obtain m' where "copy_to_user sp1 (pm k1) 0x400000 ?bs = (Inr (), m')" by auto
  then have "write_segment sp1 (pm k1) 0x400000 ?bs = (Inr (), m')" by (simp add: write_segment_eq)
  moreover have "length demo_elf = 124" by (simp add: demo_elf_def)
  ultimately have "load_segment demo_elf demo_phdr sp k = (Inr (), sp1, k1\<lparr>pm := m'\<rparr>)"
    unfolding load_segment_def demo_segment m by (simp add: demo_phdr_def PT_LOAD_def wadd_def)
  then have "load_segments demo_elf demo_ehdr [0] sp k = (Inr (), sp1, k1\<lparr>pm := m'\<rparr>)"
    using demo_read demo_parse by (simp add: demo_ehdr_def wadd_def)
  moreover have "[0..<phnum demo_ehdr] = [0]" "e_entry demo_ehdr = 0x400000" by (simp_all add: demo_ehdr_def)
  ultimately show ?thesis by (simp add: elf_load_def demo_check)
qed


end
