(* ===== verification/Proc.thy ===== *)
theory Proc
  imports Elf Cap Sched
begin

text \<open>
  Processes, \<open>kernel/src/proc.rs\<close>: an address space and a table of capabilities. The table of
  processes is a list indexed by pid, as in the code, and is passed along with the memory, the ledger
  and the scheduler. \<open>revoke\<close> asks \<open>is_descendant\<close>, which may not return, so it is an \<open>option\<close>.

  Shown: revoking a capability ends exactly the capabilities derived from it, in every process, counts
  them, and leaves no thread waiting on a channel it cut.
\<close>

section \<open>Data\<close>

definition CAP_SLOTS :: nat where "CAP_SLOTS = 8"
definition USER_STACK_TOP :: nat where "USER_STACK_TOP = 0x70000000"
definition USER_STACK_PAGES :: nat where "USER_STACK_PAGES = 8"

datatype VmaKind = ModelPages nat

record Vma =
  v_start :: nat
  v_pages :: nat
  v_kind :: VmaKind

record Process =
  p_pid :: nat
  p_name :: bytes
  p_space :: AddressSpace
  p_caps :: "Cap option list"
  p_entry :: nat
  p_stack_top :: nat
  p_arg :: nat
  exit_code :: "int option"
  irq_seen :: nat
  vmas :: "Vma list"

type_synonym procs = "Process list"

section \<open>Operations\<close>

text \<open>On an error the address space is dropped, which returns its frames.\<close>

definition proc_create :: "bytes \<Rightarrow> bytes \<Rightarrow> nat \<Rightarrow> procs \<Rightarrow> kmem \<Rightarrow> nat result \<times> procs \<times> kmem" where
  "proc_create name img arg ps k = (case AddressSpace_new k of
     (None, k) \<Rightarrow> (Inl ''no memory for an address space'', ps, k)
   | (Some spc, k) \<Rightarrow> (case elf_load img spc k of
       (Inl e, spc, k) \<Rightarrow> (Inl e, ps, space_drop spc k)
     | (Inr entry, spc, k) \<Rightarrow>
         (case map_anonymous (USER_STACK_TOP - USER_STACK_PAGES * PAGE_SIZE) USER_STACK_PAGES UserData spc k of
            (Inl e, spc, k) \<Rightarrow> (Inl e, ps, space_drop spc k)
          | (Inr _, spc, k) \<Rightarrow> (Inr (length ps),
              ps @ [\<lparr>p_pid = length ps, p_name = name, p_space = spc, p_caps = replicate CAP_SLOTS None, p_entry = entry,
                p_stack_top = USER_STACK_TOP, p_arg = arg, exit_code = None, irq_seen = 0, vmas = []\<rparr>], k))))"

definition proc_get :: "nat \<Rightarrow> procs \<Rightarrow> Process option" where
  "proc_get pid ps = (if pid < length ps then Some (ps ! pid) else None)"

definition upd_proc :: "nat \<Rightarrow> (Process \<Rightarrow> Process) \<Rightarrow> procs \<Rightarrow> procs" where
  "upd_proc pid f ps = (if pid < length ps then ps[pid := f (ps ! pid)] else ps)"

definition install_cap :: "nat \<Rightarrow> nat \<Rightarrow> Cap \<Rightarrow> procs \<Rightarrow> unit result \<times> procs" where
  "install_cap pid slot cap ps =
    (if slot \<ge> CAP_SLOTS then (Inl ''capability slot out of range'', ps)
     else case proc_get pid ps of
       None \<Rightarrow> (Inl ''no such process'', ps)
     | Some _ \<Rightarrow> (Inr (), upd_proc pid (\<lambda>p. p\<lparr>p_caps := (p_caps p)[slot := Some cap]\<rparr>) ps))"

definition lookup_cap :: "nat \<Rightarrow> nat \<Rightarrow> procs \<Rightarrow> Cap option" where
  "lookup_cap pid slot ps = (if slot \<ge> CAP_SLOTS then None
     else Option.bind (proc_get pid ps) (\<lambda>p. p_caps p ! slot))"

text \<open>One slot of the double loop of \<open>revoke\<close>, with the count and the channels so far.\<close>

definition revoke_slot :: "ledger \<Rightarrow> u64 \<Rightarrow> Cap option \<Rightarrow> nat \<times> nat list \<Rightarrow> (Cap option \<times> nat \<times> nat list) option" where
  "revoke_slot l cid slot acc = (case slot of
     None \<Rightarrow> Some (None, acc)
   | Some c \<Rightarrow>
       if cap_revoked c then Some (slot, acc)
       else Option.bind (is_descendant l (cap_id c) cid) (\<lambda>d.
         if d then Some (Some (c\<lparr>cap_revoked := True\<rparr>), fst acc + 1,
           case cap_obj c of Channel ch \<Rightarrow> if ch \<in> set (snd acc) then snd acc else snd acc @ [ch] | _ \<Rightarrow> snd acc)
         else Some (slot, acc)))"

fun revoke_slots :: "ledger \<Rightarrow> u64 \<Rightarrow> Cap option list \<Rightarrow> nat \<times> nat list \<Rightarrow> (Cap option list \<times> nat \<times> nat list) option" where
  "revoke_slots l cid [] acc = Some ([], acc)"
| "revoke_slots l cid (x # xs) acc = Option.bind (revoke_slot l cid x acc) (\<lambda>(x', acc).
     map_option (\<lambda>(xs', acc). (x' # xs', acc)) (revoke_slots l cid xs acc))"

fun revoke_procs :: "ledger \<Rightarrow> u64 \<Rightarrow> procs \<Rightarrow> nat \<times> nat list \<Rightarrow> (procs \<times> nat \<times> nat list) option" where
  "revoke_procs l cid [] acc = Some ([], acc)"
| "revoke_procs l cid (p # ps) acc = Option.bind (revoke_slots l cid (p_caps p) acc) (\<lambda>(cs, acc).
     map_option (\<lambda>(ps', acc). (p\<lparr>p_caps := cs\<rparr> # ps', acc)) (revoke_procs l cid ps acc))"

definition proc_revoke :: "ledger \<Rightarrow> u64 \<Rightarrow> procs \<Rightarrow> sched \<Rightarrow> (nat \<times> procs \<times> sched) option" where
  "proc_revoke l cid ps s = map_option (\<lambda>(ps', killed, chs). (killed, ps', fold wake_all_on chs s))
     (revoke_procs l cid ps (0, []))"

definition proc_count :: "procs \<Rightarrow> nat" where
  "proc_count ps = length ps"

definition add_vma :: "nat \<Rightarrow> Vma \<Rightarrow> procs \<Rightarrow> procs" where
  "add_vma pid vma ps = upd_proc pid (\<lambda>p. p\<lparr>vmas := vmas p @ [vma]\<rparr>) ps"

definition find_vma :: "nat \<Rightarrow> nat \<Rightarrow> procs \<Rightarrow> Vma option" where
  "find_vma pid va ps = Option.bind (proc_get pid ps) (\<lambda>p.
     List.find (\<lambda>v. va \<ge> v_start v \<and> va < v_start v + v_pages v * PAGE_SIZE) (vmas p))"

section \<open>Revocation\<close>

text \<open>What \<open>revoke\<close> promises: the capabilities it ends, and what is left of a slot.\<close>

definition doomed :: "ledger \<Rightarrow> u64 \<Rightarrow> Cap option \<Rightarrow> bool" where
  "doomed l cid slot = (case slot of None \<Rightarrow> False | Some c \<Rightarrow> \<not> cap_revoked c \<and> descends l (cap_id c) cid)"

definition kill :: "ledger \<Rightarrow> u64 \<Rightarrow> Cap option \<Rightarrow> Cap option" where
  "kill l cid slot = (if doomed l cid slot then map_option (\<lambda>c. c\<lparr>cap_revoked := True\<rparr>) slot else slot)"

definition cut_channels :: "ledger \<Rightarrow> u64 \<Rightarrow> Cap option list \<Rightarrow> nat set" where
  "cut_channels l cid slots = {ch. \<exists>c. Some c \<in> set slots \<and> doomed l cid (Some c) \<and> cap_obj c = Channel ch}"

lemma revoke_slot_eq:
  assumes "ledger_wf l"
  shows "\<exists>chs'. revoke_slot l cid x (n, chs) = Some (kill l cid x, n + (if doomed l cid x then 1 else 0), chs')
    \<and> set chs' = set chs \<union> cut_channels l cid [x]"
  using assms
  by (auto simp: revoke_slot_def kill_def doomed_def cut_channels_def is_descendant_iff split: option.splits Obj.splits)

lemma revoke_slots_eq:
  assumes wf: "ledger_wf l"
  shows "\<exists>chs'. revoke_slots l cid xs (n, chs) = Some (map (kill l cid) xs, n + length (filter (doomed l cid) xs), chs')
    \<and> set chs' = set chs \<union> cut_channels l cid xs"
proof (induction xs arbitrary: n chs)
  case Nil
  then show ?case by (simp add: cut_channels_def)
next
  case (Cons x xs)
  obtain c1 where 1: "revoke_slot l cid x (n, chs) = Some (kill l cid x, n + (if doomed l cid x then 1 else 0), c1)"
    "set c1 = set chs \<union> cut_channels l cid [x]" using revoke_slot_eq [OF wf] by blast
  obtain c2 where 2: "revoke_slots l cid xs (n + (if doomed l cid x then 1 else 0), c1)
      = Some (map (kill l cid) xs, n + (if doomed l cid x then 1 else 0) + length (filter (doomed l cid) xs), c2)"
    "set c2 = set c1 \<union> cut_channels l cid xs" using Cons.IH by blast
  have "cut_channels l cid (x # xs) = cut_channels l cid [x] \<union> cut_channels l cid xs" by (auto simp: cut_channels_def)
  then show ?case using 1 2 by (intro exI [of _ c2]) (auto split: if_splits)
qed

lemma revoke_procs_eq:
  assumes wf: "ledger_wf l"
  shows "\<exists>chs'. revoke_procs l cid ps (n, chs) = Some (map (\<lambda>p. p\<lparr>p_caps := map (kill l cid) (p_caps p)\<rparr>) ps,
      n + length (filter (doomed l cid) (concat (map p_caps ps))), chs')
    \<and> set chs' = set chs \<union> cut_channels l cid (concat (map p_caps ps))"
proof (induction ps arbitrary: n chs)
  case Nil
  then show ?case by (simp add: cut_channels_def)
next
  case (Cons p ps)
  obtain c1 where 1: "revoke_slots l cid (p_caps p) (n, chs) = Some (map (kill l cid) (p_caps p), n + length (filter (doomed l cid) (p_caps p)), c1)"
    "set c1 = set chs \<union> cut_channels l cid (p_caps p)" using revoke_slots_eq [OF wf] by blast
  obtain c2 where 2: "revoke_procs l cid ps (n + length (filter (doomed l cid) (p_caps p)), c1)
      = Some (map (\<lambda>p. p\<lparr>p_caps := map (kill l cid) (p_caps p)\<rparr>) ps,
          n + length (filter (doomed l cid) (p_caps p)) + length (filter (doomed l cid) (concat (map p_caps ps))), c2)"
    "set c2 = set c1 \<union> cut_channels l cid (concat (map p_caps ps))" using Cons.IH by blast
  have "cut_channels l cid (p_caps p @ xs) = cut_channels l cid (p_caps p) \<union> cut_channels l cid xs" for xs by (auto simp: cut_channels_def)
  then show ?case using 1 2 by (intro exI [of _ c2]) auto
qed

lemma wake_all_threads: "threads (wake_all_on tok s) = map (wake tok) (threads s)"
  by (simp add: wake_all_on_def kick_others_def Let_def)

lemma fold_wake_state:
  assumes "t < length (threads s)"
  shows "state (threads (fold wake_all_on chs s) ! t) = (if \<exists>ch\<in>set chs. state (threads s ! t) = Blocked ch then Runnable else state (threads s ! t))
    \<and> length (threads (fold wake_all_on chs s)) = length (threads s)"
  using assms
proof (induction chs arbitrary: s)
  case (Cons ch chs)
  have l: "t < length (threads (wake_all_on ch s))" using Cons.prems by (simp add: wake_all_threads)
  show ?case using Cons.IH [OF l] Cons.prems by (auto simp: wake_all_threads wake_def)
qed simp

text \<open>
  C24: Revocation takes the whole subtree. With the ledger of the kernel, \<open>revoke\<close> returns; every
  capability that descends from the revoked one is dead in every slot of every process, every other
  slot is unchanged, the result counts the capabilities that died, and exactly the threads that were waiting on a
  channel whose capability died become runnable.
\<close>

theorem revoke_ends_subtree:
  assumes "kernel_ledger l"
  shows "\<exists>ps' s'. proc_revoke l cid ps s = Some (length (filter (doomed l cid) (concat (map p_caps ps))), ps', s')
    \<and> ps' = map (\<lambda>p. p\<lparr>p_caps := map (kill l cid) (p_caps p)\<rparr>) ps
    \<and> (\<forall>p\<in>set ps'. \<forall>c. Some c \<in> set (p_caps p) \<and> descends l (cap_id c) cid \<longrightarrow> (\<forall>r. \<not> allows c r))
    \<and> (\<forall>t<length (threads s). state (threads s' ! t)
        = (if \<exists>ch\<in>cut_channels l cid (concat (map p_caps ps)). state (threads s ! t) = Blocked ch then Runnable else state (threads s ! t)))"
proof -
  have wf: "ledger_wf l" using assms by (rule kernel_ledger_wf)
  obtain chs where c: "revoke_procs l cid ps (0, []) = Some (map (\<lambda>p. p\<lparr>p_caps := map (kill l cid) (p_caps p)\<rparr>) ps,
      length (filter (doomed l cid) (concat (map p_caps ps))), chs)" "set chs = cut_channels l cid (concat (map p_caps ps))"
    using revoke_procs_eq [OF wf, of cid ps 0 "[]"] by auto
  have "\<not> allows c r" if "Some c = kill l cid x" "descends l (cap_id c) cid" for c r x
    using that by (cases x) (auto simp: kill_def doomed_def allows_def split: if_splits)
  then have "\<forall>p\<in>set (map (\<lambda>p. p\<lparr>p_caps := map (kill l cid) (p_caps p)\<rparr>) ps). \<forall>c. Some c \<in> set (p_caps p) \<and> descends l (cap_id c) cid \<longrightarrow> (\<forall>r. \<not> allows c r)"
    by auto
  moreover have "\<forall>t<length (threads s). state (threads (fold wake_all_on chs s) ! t)
        = (if \<exists>ch\<in>cut_channels l cid (concat (map p_caps ps)). state (threads s ! t) = Blocked ch then Runnable else state (threads s ! t))"
    using fold_wake_state [of _ s chs] by (simp add: c(2))
  ultimately show ?thesis using c(1) by (simp add: proc_revoke_def)
qed

definition demo_process :: Process where
  "demo_process = \<lparr>p_pid = 0, p_name = [], p_space = \<lparr>as_root = 0, as_asid = 0, as_owned = []\<rparr>,
     p_caps = (replicate CAP_SLOTS None)[1 := Some demo_child], p_entry = 0, p_stack_top = USER_STACK_TOP, p_arg = 0,
     exit_code = None, irq_seen = 0, vmas = []\<rparr>"

theorem revoke_ends_subtree_witness:
  "\<exists>ps' s'. proc_revoke demo_ledger (cap_id demo_root) [demo_process] (the demo_sched) = Some (1, ps', s')
     \<and> map p_caps ps' = [(replicate CAP_SLOTS None)[1 := Some (demo_child\<lparr>cap_revoked := True\<rparr>)]]"
proof -
  have "\<not> cap_revoked demo_child" by code_simp
  with demo_descends have k: "doomed demo_ledger (cap_id demo_root) (Some demo_child)" "\<not> doomed demo_ledger (cap_id demo_root) None"
    by (simp_all add: doomed_def)
  have c: "p_caps demo_process = [None, Some demo_child, None, None, None, None, None, None]"
    by (simp add: demo_process_def CAP_SLOTS_def numeral_eq_Suc)
  have "map (kill demo_ledger (cap_id demo_root)) (p_caps demo_process) = (replicate CAP_SLOTS None)[1 := Some (demo_child\<lparr>cap_revoked := True\<rparr>)]"
    unfolding c using k by (simp add: kill_def CAP_SLOTS_def numeral_eq_Suc)
  moreover have "length (filter (doomed demo_ledger (cap_id demo_root)) (concat (map p_caps [demo_process]))) = 1" using k by (simp add: c)
  ultimately show ?thesis using revoke_ends_subtree [OF demo_ledger(1), of "cap_id demo_root" "[demo_process]" "the demo_sched"] by auto
qed

end
