(* ===== verification/Irq.thy ===== *)
theory Irq
  imports Time
begin

text \<open>
  Interrupt dispatch, \<open>kernel/src/irq.rs\<close>. The interrupts the controller hands out during one call are a list,
  each with the counter values its handling reads; what the code tells the controller is recorded:
  the lines it masks and the ends of interrupts it signals. Handlers claimed by the kernel itself are
  an argument, because nothing in the kernel claims any.

  Shown: every interrupt taken is ended exactly once and in order, user interrupts are counted and
  their line is masked, and the counters of spurious and unclaimed interrupts are exact.
\<close>

record irq_world =
  SPURIOUS :: nat
  UNCLAIMED :: nat
  HANDLERS :: "nat list"
  USER_IRQS :: "(nat \<times> nat) list"
  spi_off :: "nat list"
  eoi :: "nat list"
  isched :: sched
  iclock :: clock

definition irq_register :: "nat \<Rightarrow> irq_world \<Rightarrow> irq_world" where
  "irq_register intid w = w\<lparr>HANDLERS := HANDLERS w @ [intid]\<rparr>"

definition irq_token :: "nat \<Rightarrow> nat" where
  "irq_token intid = 0x124900000000 OR intid"

definition register_user :: "nat \<Rightarrow> (nat \<times> nat) list \<Rightarrow> (nat \<times> nat) list" where
  "register_user intid u = (if list_ex (\<lambda>(i, _). i = intid) u then u else u @ [(intid, 0)])"

definition irq_sequence :: "nat \<Rightarrow> (nat \<times> nat) list \<Rightarrow> nat option" where
  "irq_sequence intid u = map_option snd (List.find (\<lambda>(i, _). i = intid) u)"

definition user_irq_fired :: "nat \<Rightarrow> irq_world \<Rightarrow> bool \<times> irq_world" where
  "user_irq_fired intid w = (case position (\<lambda>(i, _). i = intid) (USER_IRQS w) of
     None \<Rightarrow> (False, w)
   | Some j \<Rightarrow> (True, w\<lparr>USER_IRQS := (USER_IRQS w)[j := (fst (USER_IRQS w ! j), snd (USER_IRQS w ! j) + 1)],
       spi_off := intid # spi_off w, isched := wake_all_on (irq_token intid) (isched w)\<rparr>))"

text \<open>One round of the loop of \<open>dispatch\<close>, for an interrupt below 1020.\<close>

definition irq_handle :: "(nat \<Rightarrow> irq_world \<Rightarrow> irq_world) \<Rightarrow> nat \<Rightarrow> nat \<times> nat \<times> nat \<times> nat \<Rightarrow> irq_world \<Rightarrow> irq_world" where
  "irq_handle h c a w = (case a of (intid, now0, now1, now2) \<Rightarrow>
     if intid = TIMER_INTID then
       let w = w\<lparr>iclock := took_interrupt c (iclock w), eoi := eoi w @ [intid]\<rparr>
       in w\<lparr>isched := snd (sched_tick c now0 now1 now2 (iclock w) (isched w))\<rparr>
     else if intid = unat RESCHEDULE_SGI then
       let w = w\<lparr>eoi := eoi w @ [intid]\<rparr>
       in w\<lparr>isched := snd (sched_tick c now0 now1 now2 (iclock w) (isched w))\<rparr>
     else if intid \<in> set (HANDLERS w) then
       let w = h intid w in w\<lparr>eoi := eoi w @ [intid]\<rparr>
     else (case user_irq_fired intid w of
         (True, w) \<Rightarrow> w\<lparr>eoi := eoi w @ [intid]\<rparr>
       | (False, w) \<Rightarrow> w\<lparr>UNCLAIMED := UNCLAIMED w + 1, eoi := eoi w @ [intid]\<rparr>))"

fun irq_dispatch :: "(nat \<Rightarrow> irq_world \<Rightarrow> irq_world) \<Rightarrow> nat \<Rightarrow> nat \<Rightarrow> (nat \<times> nat \<times> nat \<times> nat) list \<Rightarrow> irq_world \<Rightarrow> irq_world" where
  "irq_dispatch h c handled [] w = (if handled = 0 then w\<lparr>SPURIOUS := SPURIOUS w + 1\<rparr> else w)"
| "irq_dispatch h c handled (a # as) w =
    (if fst a \<ge> 1020 then irq_dispatch h c handled [] w
     else irq_dispatch h c (handled + 1) as (irq_handle h c a w))"

definition irq_stats :: "irq_world \<Rightarrow> nat \<times> nat" where
  "irq_stats w = (SPURIOUS w, UNCLAIMED w)"


section \<open>What one call does\<close>

lemma irq_sequence_bump:
  "position (\<lambda>(i, _). i = x) u = Some j \<Longrightarrow>
   irq_sequence i (u[j := (fst (u ! j), snd (u ! j) + 1)]) = map_option (\<lambda>n. n + (if i = x then 1 else 0)) (irq_sequence i u)"
proof (induction u arbitrary: j)
  case (Cons p u)
  then show ?case by (cases p) (auto simp: irq_sequence_def option.map_comp comp_def split: if_splits)
qed simp

lemma irq_sequence_None: "irq_sequence i u = None \<longleftrightarrow> position (\<lambda>(j, _). j = i) u = None"
  by (induction u) (auto simp: irq_sequence_def)

text \<open>Interrupts that are neither the timer nor the call to another core.\<close>

definition device_irq :: "nat \<Rightarrow> bool" where
  "device_irq i \<longleftrightarrow> i \<noteq> TIMER_INTID \<and> i \<noteq> unat RESCHEDULE_SGI"

lemma irq_handle_step:
  assumes "HANDLERS w = []" and "irq_handle h c a w = w'"
  shows "HANDLERS w' = [] \<and> eoi w' = eoi w @ [fst a] \<and> SPURIOUS w' = SPURIOUS w
    \<and> UNCLAIMED w' = UNCLAIMED w + (if device_irq (fst a) \<and> irq_sequence (fst a) (USER_IRQS w) = None then 1 else 0)
    \<and> (\<forall>i. irq_sequence i (USER_IRQS w') = map_option (\<lambda>n. n + (if device_irq i \<and> i = fst a then 1 else 0)) (irq_sequence i (USER_IRQS w)))
    \<and> set (spi_off w') = set (spi_off w) \<union> {i. i = fst a \<and> device_irq i \<and> irq_sequence i (USER_IRQS w) \<noteq> None}"
proof -
  obtain x t where a: "a = (x, t)" by (cases a)
  show ?thesis
  proof (cases "device_irq x")
    case False
    then show ?thesis using assms by (cases t) (auto simp: a irq_handle_def device_irq_def Let_def option.map_ident split: if_splits)
  next
    case True
    show ?thesis
    proof (cases "position (\<lambda>(i, _). i = x) (USER_IRQS w)")
      case None
      then have n: "irq_sequence x (USER_IRQS w) = None" by (simp add: irq_sequence_None)
      have "w' = w\<lparr>UNCLAIMED := UNCLAIMED w + 1, eoi := eoi w @ [x]\<rparr>"
        using assms True None by (cases t) (simp add: a irq_handle_def device_irq_def user_irq_fired_def)
      then show ?thesis using n assms(1) True by (auto simp: a option.map_ident intro!: option.map_ident_strong [symmetric])
    next
      case (Some j)
      then have n: "irq_sequence x (USER_IRQS w) \<noteq> None" by (simp add: irq_sequence_None)
      have w': "w' = w\<lparr>USER_IRQS := (USER_IRQS w)[j := (fst (USER_IRQS w ! j), snd (USER_IRQS w ! j) + 1)],
          spi_off := x # spi_off w, isched := wake_all_on (irq_token x) (isched w), eoi := eoi w @ [x]\<rparr>"
        using assms True Some by (cases t) (simp add: a irq_handle_def device_irq_def user_irq_fired_def)
      show ?thesis using n assms(1) True irq_sequence_bump [OF Some] by (auto simp: a w')
    qed
  qed
qed

text \<open>
  Every interrupt taken is ended exactly once and in order; a device interrupt that a driver has is
  counted for it and its line is masked; what nobody has is counted as unclaimed, and a call that
  finds nothing as spurious.
\<close>

theorem irq_dispatch_exact:
  assumes "HANDLERS w = []" and "irq_dispatch h c handled as w = w'" and "ids = map fst (takeWhile (\<lambda>a. fst a < 1020) as)"
  shows "eoi w' = eoi w @ ids \<and> SPURIOUS w' = SPURIOUS w + (if handled = 0 \<and> ids = [] then 1 else 0)
    \<and> UNCLAIMED w' = UNCLAIMED w + length (filter (\<lambda>i. device_irq i \<and> irq_sequence i (USER_IRQS w) = None) ids)
    \<and> (\<forall>i. irq_sequence i (USER_IRQS w') = map_option (\<lambda>n. n + (if device_irq i then count_list ids i else 0)) (irq_sequence i (USER_IRQS w)))
    \<and> set (spi_off w') = set (spi_off w) \<union> {i \<in> set ids. device_irq i \<and> irq_sequence i (USER_IRQS w) \<noteq> None}"
  using assms
proof (induction as arbitrary: handled w ids)
  case Nil
  then show ?case by (auto simp: option.map_ident)
next
  case (Cons a as)
  show ?case
  proof (cases "fst a < 1020")
    case False
    then show ?thesis using Cons.prems by (auto simp: option.map_ident)
  next
    case True
    define v where "v = irq_handle h c a w"
    note S = irq_handle_step [OF Cons.prems(1) v_def [symmetric]]
    have d: "irq_dispatch h c (handled + 1) as v = w'" using Cons.prems(2) True by (simp add: v_def)
    note I = Cons.IH [OF _ d refl] and ids = Cons.prems(3)
    have same: "(irq_sequence i (USER_IRQS v) = None) = (irq_sequence i (USER_IRQS w) = None)" for i using S by simp
    show ?thesis using S I True by (auto simp: ids same option.map_comp comp_def add.assoc cong: if_cong)
  qed
qed

end
