(* ===== verification/Model.thy ===== *)
theory Model
  imports Proc Disk
begin

text \<open>
  The model store, \<open>kernel/src/model.rs\<close>: weight files as kernel objects, found by the hash of their
  contents, mapped read-only and page by page as processes touch them, and given back under memory
  pressure. A fault is three steps, as the store's lock is dropped in between: claiming the page
  (\<open>fault_claim\<close>), reading it from the disk (\<open>fault_read\<close>) and publishing it (\<open>fault_finish\<close>); \<open>model_fault\<close> is
  their sequence when nothing else runs in between.
\<close>

section \<open>Data\<close>

definition SECTORS_PER_PAGE :: nat where "SECTORS_PER_PAGE = PAGE_SIZE div SECTOR_SIZE"

record model_mapping =
  mm_pid :: nat
  mm_base :: nat

datatype PageState = Absent | Loading | Resident nat

record Model =
  md_id :: nat
  md_hash :: u64
  md_size :: nat
  md_start :: u64
  md_pages :: "PageState list"
  md_mappings :: "model_mapping list"
  md_refs :: nat
  md_faults :: nat
  md_reclaimed :: nat

record store_state =
  md_models :: "Model list"
  md_next_id :: nat
  RESIDENT :: nat
  SHARED_HITS :: nat
  PUBLISHED :: "(bytes \<times> u64 \<times> nat) list"

definition store_new :: store_state where
  "store_new = \<lparr>md_models = [], md_next_id = 1, RESIDENT = 0, SHARED_HITS = 0, PUBLISHED = []\<rparr>"

definition is_resident :: "PageState \<Rightarrow> bool" where
  "is_resident s = (case s of Resident _ \<Rightarrow> True | _ \<Rightarrow> False)"

definition total_pages :: "Model \<Rightarrow> nat" where
  "total_pages m = length (md_pages m)"

definition resident_pages :: "Model \<Rightarrow> nat" where
  "resident_pages m = length (filter is_resident (md_pages m))"

section \<open>Opening\<close>

definition hash_bytes :: "u64 \<Rightarrow> bytes \<Rightarrow> u64" where
  "hash_bytes seed bs = fold (\<lambda>b h. (h XOR ucast b) * 0x100000001B3) bs seed"

definition model_publish :: "bytes \<Rightarrow> u64 \<Rightarrow> nat \<Rightarrow> store_state \<Rightarrow> store_state" where
  "model_publish name start sz st = (if list_ex (\<lambda>(n, _, _). n = name) (PUBLISHED st) then st
     else st\<lparr>PUBLISHED := PUBLISHED st @ [(name, start, sz)]\<rparr>)"

text \<open>The loop of \<open>open\<close> that reads and hashes the file, and what it does under the lock.\<close>

definition hash_file :: "u64 \<Rightarrow> nat \<Rightarrow> (disk, u64) io" where
  "hash_file start sz = io_bind (io_fold (\<lambda>s (h, left). io_bind (read_sector (start + of_nat s)) (\<lambda>sec.
       let n = min left SECTOR_SIZE in io_return (hash_bytes h (take n sec), left - n)))
     [0..<div_ceil sz SECTOR_SIZE] (0xcbf29ce484222325, sz)) (\<lambda>(h, _). io_return h)"

definition adopt_model :: "u64 \<Rightarrow> u64 \<Rightarrow> nat \<Rightarrow> store_state \<Rightarrow> nat \<times> store_state" where
  "adopt_model h start sz st = (case position (\<lambda>m. md_hash m = h) (md_models st) of
     Some i \<Rightarrow> let m = md_models st ! i in (md_id m, st\<lparr>md_models := (md_models st)[i := m\<lparr>md_refs := md_refs m + 1\<rparr>]\<rparr>)
   | None \<Rightarrow> (md_next_id st, st\<lparr>md_next_id := md_next_id st + 1, md_models := md_models st @
       [\<lparr>md_id = md_next_id st, md_hash = h, md_size = sz, md_start = start, md_pages = replicate (div_ceil sz PAGE_SIZE) Absent,
         md_mappings = [], md_refs = 1, md_faults = 0, md_reclaimed = 0\<rparr>]\<rparr>))"

definition model_open :: "u64 \<Rightarrow> nat \<Rightarrow> store_state \<Rightarrow> (disk, nat \<times> store_state) io" where
  "model_open start sz st = io_bind (hash_file start sz) (\<lambda>h. io_return (adopt_model h start sz st))"

definition open_by_name :: "bytes \<Rightarrow> store_state \<Rightarrow> (disk, nat \<times> store_state) io" where
  "open_by_name name st = (case List.find (\<lambda>(n, _, _). n = name) (PUBLISHED st) of
     None \<Rightarrow> io_fail ''no such model''
   | Some (_, start, sz) \<Rightarrow> model_open start sz st)"

definition model_at :: "nat \<Rightarrow> store_state \<Rightarrow> nat option" where
  "model_at ident st = position (\<lambda>m. md_id m = ident) (md_models st)"

definition upd_model :: "nat \<Rightarrow> (Model \<Rightarrow> Model) \<Rightarrow> store_state \<Rightarrow> store_state" where
  "upd_model ident f st = (case model_at ident st of None \<Rightarrow> st
     | Some i \<Rightarrow> st\<lparr>md_models := (md_models st)[i := f (md_models st ! i)]\<rparr>)"

definition model_attach :: "nat \<Rightarrow> nat \<Rightarrow> nat \<Rightarrow> store_state \<Rightarrow> nat result \<times> store_state" where
  "model_attach ident pid base st = (case model_at ident st of
     None \<Rightarrow> (Inl ''no such model'', st)
   | Some i \<Rightarrow> (Inr (md_size (md_models st ! i)),
       upd_model ident (\<lambda>m. m\<lparr>md_mappings := md_mappings m @ [\<lparr>mm_pid = pid, mm_base = base\<rparr>]\<rparr>) st))"

section \<open>Faults\<close>

definition set_page :: "nat \<Rightarrow> nat \<Rightarrow> PageState \<Rightarrow> store_state \<Rightarrow> store_state" where
  "set_page ident idx s = upd_model ident (\<lambda>m. m\<lparr>md_pages := (md_pages m)[idx := s]\<rparr>)"

text \<open>The claim under the lock: \<open>None\<close> when there is no such page, otherwise the state it was in.\<close>

definition fault_claim :: "nat \<Rightarrow> nat \<Rightarrow> store_state \<Rightarrow> PageState option \<times> store_state" where
  "fault_claim ident idx st = (case model_at ident st of
     None \<Rightarrow> (None, st)
   | Some i \<Rightarrow> let m = md_models st ! i in
       if idx \<ge> length (md_pages m) then (None, st)
       else (Some (md_pages m ! idx), case md_pages m ! idx of
           Resident f \<Rightarrow> upd_model ident (\<lambda>m. m\<lparr>md_faults := md_faults m + 1\<rparr>) st
         | Loading \<Rightarrow> st
         | Absent \<Rightarrow> upd_model ident (\<lambda>m. m\<lparr>md_faults := md_faults m + 1, md_pages := (md_pages m)[idx := Loading]\<rparr>) st))"

text \<open>The sectors of one page, read into a zeroed frame: whether every read went well, and memory.\<close>

fun fill_page :: "u64 \<Rightarrow> nat \<Rightarrow> nat \<Rightarrow> nat \<Rightarrow> disk \<Rightarrow> nat list \<Rightarrow> pmem \<Rightarrow> bool \<times> pmem" where
  "fill_page start sz idx frame d [] m = (True, m)"
| "fill_page start sz idx frame d (s # ss) m =
    (let off = idx * PAGE_SIZE + s * SECTOR_SIZE in
     if off \<ge> sz then (True, m)
     else case read_sector (start + of_nat (idx * SECTORS_PER_PAGE) + of_nat s) d of
       (Done sec, _) \<Rightarrow> fill_page start sz idx frame d ss (mwrite m (frame + s * SECTOR_SIZE) (take (min (sz - off) SECTOR_SIZE) sec))
     | _ \<Rightarrow> (False, m))"

text \<open>Reading a claimed page: the frame, or \<open>None\<close> when the claim was taken back.\<close>

definition fault_read :: "nat \<Rightarrow> nat \<Rightarrow> store_state \<Rightarrow> kmem \<Rightarrow> disk \<Rightarrow> nat option \<times> store_state \<times> kmem" where
  "fault_read ident idx st k d = (case model_at ident st of
     None \<Rightarrow> (None, st, k)
   | Some i \<Rightarrow> let m = md_models st ! i in
       (case frames_alloc (kfr k) of
          (None, fr) \<Rightarrow> (None, set_page ident idx Absent st, k\<lparr>kfr := fr\<rparr>)
        | (Some frame, fr) \<Rightarrow>
            (case fill_page (md_start m) (md_size m) idx frame d [0..<SECTORS_PER_PAGE] (mwrite (pm k) frame (replicate PAGE_SIZE 0)) of
               (True, m') \<Rightarrow> (Some frame, st, k\<lparr>kfr := fr, pm := m'\<rparr>)
             | (False, m') \<Rightarrow> (None, set_page ident idx Absent st, k\<lparr>kfr := frames_free frame fr, pm := m'\<rparr>))))"

definition fault_finish :: "nat \<Rightarrow> nat \<Rightarrow> nat \<Rightarrow> store_state \<Rightarrow> kmem \<Rightarrow> bool \<times> store_state \<times> kmem" where
  "fault_finish ident idx frame st k = (case model_at ident st of
     None \<Rightarrow> (False, st, k\<lparr>kfr := frames_free frame (kfr k)\<rparr>)
   | Some _ \<Rightarrow> (True, (set_page ident idx (Resident frame) st)\<lparr>RESIDENT := RESIDENT st + 1\<rparr>, k))"

definition map_into :: "nat \<Rightarrow> nat \<Rightarrow> nat \<Rightarrow> procs \<Rightarrow> kmem \<Rightarrow> bool \<times> procs \<times> kmem" where
  "map_into pid va frame ps k = (case proc_get pid ps of
     None \<Rightarrow> (False, ps, k)
   | Some p \<Rightarrow> (case space_map va frame 1 UserReadOnly (p_space p) k of
       (r, spc, k) \<Rightarrow> (r = Inr (), upd_proc pid (\<lambda>p. p\<lparr>p_space := spc\<rparr>) ps, k)))"

text \<open>A whole fault with nothing in between; \<open>None\<close> when it waits for another that reads the page.\<close>

definition model_fault :: "nat \<Rightarrow> nat \<Rightarrow> nat \<Rightarrow> nat \<Rightarrow> store_state \<Rightarrow> procs \<Rightarrow> kmem \<Rightarrow> disk \<Rightarrow> bool option \<times> store_state \<times> procs \<times> kmem" where
  "model_fault ident offset pid va st ps k d = (let idx = offset div PAGE_SIZE in
     case fault_claim ident idx st of
       (None, st) \<Rightarrow> (Some False, st, ps, k)
     | (Some (Resident frame), st) \<Rightarrow>
         let st = st\<lparr>SHARED_HITS := SHARED_HITS st + 1\<rparr> in
         (case map_into pid va frame ps k of (b, ps, k) \<Rightarrow> (Some b, st, ps, k))
     | (Some Loading, st) \<Rightarrow> (None, st, ps, k)
     | (Some Absent, st) \<Rightarrow> (case fault_read ident idx st k d of
         (None, st, k) \<Rightarrow> (Some False, st, ps, k)
       | (Some frame, st, k) \<Rightarrow> (case fault_finish ident idx frame st k of
           (False, st, k) \<Rightarrow> (Some False, st, ps, k)
         | (True, st, k) \<Rightarrow> (case map_into pid va frame ps k of (b, ps, k) \<Rightarrow> (Some b, st, ps, k)))))"

text \<open>\<open>mm::demand_fault\<close>.\<close>

definition demand_fault :: "nat option \<Rightarrow> nat \<Rightarrow> store_state \<Rightarrow> procs \<Rightarrow> kmem \<Rightarrow> disk \<Rightarrow> bool option \<times> store_state \<times> procs \<times> kmem" where
  "demand_fault cur va st ps k d = (case cur of
     None \<Rightarrow> (Some False, st, ps, k)
   | Some pid \<Rightarrow> let page = page_align_down va in
       (case find_vma pid page ps of
          None \<Rightarrow> (Some False, st, ps, k)
        | Some vma \<Rightarrow> (case v_kind vma of ModelPages ident \<Rightarrow> model_fault ident (page - v_start vma) pid page st ps k d)))"

section \<open>Reclaim\<close>

text \<open>One page is taken out of every address space that has the model, and then freed.\<close>

definition unmap_everywhere :: "nat \<Rightarrow> model_mapping list \<Rightarrow> procs \<Rightarrow> kmem \<Rightarrow> kmem" where
  "unmap_everywhere idx ms ps k = fold (\<lambda>mp k. case proc_get (mm_pid mp) ps of
     None \<Rightarrow> k | Some p \<Rightarrow> unmap (mm_base mp + idx * PAGE_SIZE) 1 (p_space p) k) ms k"

fun reclaim_pages :: "nat \<Rightarrow> procs \<Rightarrow> nat list \<Rightarrow> nat \<times> Model \<times> kmem \<times> nat \<Rightarrow> nat \<times> Model \<times> kmem \<times> nat" where
  "reclaim_pages want ps [] acc = acc"
| "reclaim_pages want ps (idx # is) (freed, m, k, res) =
    (if freed = want then (freed, m, k, res)
     else case md_pages m ! idx of
       Resident frame \<Rightarrow>
         let k = unmap_everywhere idx (md_mappings m) ps k; k = k\<lparr>kfr := frames_free frame (kfr k)\<rparr> in
         reclaim_pages want ps is (freed + 1, m\<lparr>md_pages := (md_pages m)[idx := Absent], md_reclaimed := md_reclaimed m + 1\<rparr>, k, res - 1)
     | _ \<Rightarrow> reclaim_pages want ps is (freed, m, k, res))"

fun reclaim_models :: "nat \<Rightarrow> procs \<Rightarrow> Model list \<Rightarrow> nat \<times> kmem \<times> nat \<Rightarrow> Model list \<times> nat \<times> kmem \<times> nat" where
  "reclaim_models want ps [] acc = ([], acc)"
| "reclaim_models want ps (m # ms) (freed, k, res) =
    (case reclaim_pages want ps (rev [0..<length (md_pages m)]) (freed, m, k, res) of
       (freed, m, k, res) \<Rightarrow> (case reclaim_models want ps ms (freed, k, res) of (ms, acc) \<Rightarrow> (m # ms, acc)))"

definition reclaim :: "nat \<Rightarrow> procs \<Rightarrow> store_state \<Rightarrow> kmem \<Rightarrow> nat \<times> store_state \<times> kmem" where
  "reclaim want ps st k = (case reclaim_models want ps (md_models st) (0, k, RESIDENT st) of
     (ms, freed, k, res) \<Rightarrow> (freed, st\<lparr>md_models := ms, RESIDENT := res\<rparr>, k))"

section \<open>Reports\<close>

definition model_stat :: "nat \<Rightarrow> store_state \<Rightarrow> (nat \<times> u64 \<times> nat \<times> nat \<times> nat \<times> nat \<times> nat \<times> nat) option" where
  "model_stat ident st = map_option (\<lambda>i. let m = md_models st ! i in
     (md_id m, md_hash m, md_size m, resident_pages m, total_pages m, md_faults m, md_reclaimed m, md_refs m)) (model_at ident st)"

definition fault_totals :: "store_state \<Rightarrow> nat \<times> nat" where
  "fault_totals st = (sum_list (map md_faults (md_models st)), SHARED_HITS st)"

end
