(* ===== verification/Syscall.thy ===== *)
theory Syscall
  imports Model Ipc Tensor Irq
begin

text \<open>
  The system calls, \<open>kernel/src/syscall.rs\<close>, over the state of all the components they reach. A call that
  waits is modelled up to the point where it waits: \<open>None\<close> means that the thread was marked blocked, or
  yields, and that the next round of its loop is another step (\<open>sys_recv\<close>, \<open>irq_wait_round\<close>,
  \<open>sys_tensor_wait\<close> are one round each). Arguments are registers, naturals below
  \<open>2 ^ 64\<close>; a result is an integer, negative for an error. Reading the disk to open a model is one step,
  as in the model store.

  What the calls together guarantee is in the theory \<open>Isolation\<close>.
\<close>

section \<open>Numbers\<close>

definition SYS_EXIT :: nat where "SYS_EXIT = 0"
definition SYS_WRITE :: nat where "SYS_WRITE = 1"
definition SYS_YIELD :: nat where "SYS_YIELD = 2"
definition SYS_SEND :: nat where "SYS_SEND = 3"
definition SYS_RECV :: nat where "SYS_RECV = 4"
definition SYS_GETPID :: nat where "SYS_GETPID = 5"
definition SYS_TICKS :: nat where "SYS_TICKS = 6"
definition SYS_SLEEP :: nat where "SYS_SLEEP = 7"
definition SYS_MAP_DEVICE :: nat where "SYS_MAP_DEVICE = 8"
definition SYS_DMA_MAP :: nat where "SYS_DMA_MAP = 9"
definition SYS_IRQ_WAIT :: nat where "SYS_IRQ_WAIT = 10"
definition SYS_MODEL_OPEN :: nat where "SYS_MODEL_OPEN = 11"
definition SYS_MODEL_MAP :: nat where "SYS_MODEL_MAP = 12"
definition SYS_MODEL_INFO :: nat where "SYS_MODEL_INFO = 13"
definition SYS_TENSOR_SUBMIT :: nat where "SYS_TENSOR_SUBMIT = 14"
definition SYS_TENSOR_WAIT :: nat where "SYS_TENSOR_WAIT = 15"
definition SYS_TENSOR_STAT :: nat where "SYS_TENSOR_STAT = 16"
definition SYS_RECV_FROM :: nat where "SYS_RECV_FROM = 17"

definition EBADCAP :: int where "EBADCAP = -1"
definition EPERM :: int where "EPERM = -2"
definition EREVOKED :: int where "EREVOKED = -3"
definition EFAULT :: int where "EFAULT = -4"
definition EINVAL :: int where "EINVAL = -5"
definition ETIMEDOUT :: int where "ETIMEDOUT = -6"
definition EDEADLINE :: int where "EDEADLINE = -7"
definition EHOT :: int where "EHOT = -9"

lemmas errno = EBADCAP_def EPERM_def EREVOKED_def EFAULT_def EINVAL_def ETIMEDOUT_def EDEADLINE_def EHOT_def

text \<open>\<open>usize as isize\<close>.\<close>

definition as_isize :: "nat \<Rightarrow> int" where
  "as_isize n = (if n < 2 ^ 63 then int n else int n - 2 ^ 64)"

section \<open>The kernel's state\<close>

record kernel =
  procs :: procs
  kchans :: channels
  ksched :: sched
  kmm :: kmem
  kdev :: Device
  kirqs :: "(nat \<times> nat) list"
  spi_on :: "nat list"
  console :: bytes
  kstore :: store_state
  kdisk :: disk

text \<open>What a call reads of the machine: the core it runs on, the scheduler tick and the microsecond clock.\<close>

record machine_state =
  core_id :: nat
  tick :: nat
  usec :: nat

section \<open>Calls\<close>

definition with_space :: "nat \<Rightarrow> (AddressSpace \<Rightarrow> 'a) \<Rightarrow> kernel \<Rightarrow> 'a option" where
  "with_space pid f w = map_option (\<lambda>p. f (p_space p)) (proc_get pid (procs w))"

definition from_user :: "nat \<Rightarrow> nat \<Rightarrow> nat \<Rightarrow> kernel \<Rightarrow> bytes option" where
  "from_user pid ptr len w = (case with_space pid (\<lambda>s. copy_from_user s (pm (kmm w)) ptr len) w of
     Some (Inr bs) \<Rightarrow> Some bs | _ \<Rightarrow> None)"

text \<open>\<open>copy_to_user\<close> for a process: whether it succeeded, and the memory after it.\<close>

definition to_user :: "nat \<Rightarrow> nat \<Rightarrow> bytes \<Rightarrow> kernel \<Rightarrow> bool \<times> kernel" where
  "to_user pid ptr bs w = (case with_space pid (\<lambda>s. copy_to_user s (pm (kmm w)) ptr bs) w of
     None \<Rightarrow> (False, w)
   | Some (r, m) \<Rightarrow> (r = Inr (), w\<lparr>kmm := (kmm w)\<lparr>pm := m\<rparr>\<rparr>))"

definition sys_exit :: "machine_state \<Rightarrow> nat \<Rightarrow> nat \<Rightarrow> kernel \<Rightarrow> kernel" where
  "sys_exit u pid a w = w\<lparr>procs := upd_proc pid (\<lambda>p. p\<lparr>exit_code := Some (as_isize a)\<rparr>) (procs w),
     ksched := thread_exit (core_id u) (ksched w)\<rparr>"

definition sys_write :: "nat \<Rightarrow> nat \<Rightarrow> nat \<Rightarrow> kernel \<Rightarrow> int \<times> kernel" where
  "sys_write pid ptr len w =
    (if len > MAX_TRANSFER then (EINVAL, w)
     else case from_user pid ptr len w of
       None \<Rightarrow> (EFAULT, w)
     | Some bs \<Rightarrow> if utf8_valid bs then (int len, w\<lparr>console := console w @ bs\<rparr>) else (EINVAL, w))"

definition sys_send :: "nat \<Rightarrow> nat \<Rightarrow> nat \<Rightarrow> nat \<Rightarrow> kernel \<Rightarrow> int \<times> kernel" where
  "sys_send pid slot ptr len w = (case lookup_cap pid slot (procs w) of
     None \<Rightarrow> (EBADCAP, w)
   | Some cap \<Rightarrow>
       if cap_revoked cap then (EREVOKED, w)
       else if \<not> allows cap RIGHT_SEND then (EPERM, w)
       else case cap_channel cap of
         None \<Rightarrow> (EINVAL, w)
       | Some channel \<Rightarrow> (case from_user pid ptr len w of
           None \<Rightarrow> (EFAULT, w)
         | Some bs \<Rightarrow> (case ipc_send channel pid bs (kchans w) (ksched w) of
             (Inl _, cs, s) \<Rightarrow> (EINVAL, w\<lparr>kchans := cs, ksched := s\<rparr>)
           | (Inr n, cs, s) \<Rightarrow> (int n, w\<lparr>kchans := cs, ksched := s\<rparr>))))"

text \<open>One round of the loop of \<open>sys_recv\<close>.\<close>

definition sys_recv :: "machine_state \<Rightarrow> nat \<Rightarrow> nat \<Rightarrow> nat \<Rightarrow> nat \<Rightarrow> nat \<Rightarrow> kernel \<Rightarrow> int option \<times> kernel" where
  "sys_recv u pid slot ptr len from_ptr w = (case lookup_cap pid slot (procs w) of
     None \<Rightarrow> (Some EBADCAP, w)
   | Some cap \<Rightarrow>
       if cap_revoked cap then (Some EREVOKED, w)
       else if \<not> allows cap RIGHT_RECV then (Some EPERM, w)
       else case cap_channel cap of
         None \<Rightarrow> (Some EINVAL, w)
       | Some channel \<Rightarrow> (case recv_or_prepare (core_id u) channel channel (kchans w) (ksched w) of
           (None, cs, s) \<Rightarrow> (None, w\<lparr>kchans := cs, ksched := s\<rparr>)
         | (Some msg, cs, s) \<Rightarrow>
             let w = w\<lparr>kchans := cs, ksched := s\<rparr>; n = min (length (m_bytes msg)) len in
             (case to_user pid ptr (take n (m_bytes msg)) w of
                (False, w) \<Rightarrow> (Some EFAULT, w)
              | (True, w) \<Rightarrow>
                  if from_ptr = 0 then (Some (int n), w)
                  else (case to_user pid from_ptr (le_bytes 8 (of_nat (from_pid msg) :: u64)) w of
                     (False, w) \<Rightarrow> (Some EFAULT, w)
                   | (True, w) \<Rightarrow> (Some (int n), w)))))"

definition resolve :: "nat \<Rightarrow> nat \<Rightarrow> u32 \<Rightarrow> procs \<Rightarrow> int + Cap" where
  "resolve pid slot right ps = (case lookup_cap pid slot ps of
     None \<Rightarrow> Inl EBADCAP
   | Some cap \<Rightarrow> if cap_revoked cap then Inl EREVOKED else if \<not> allows cap right then Inl EPERM else Inr cap)"

text \<open>\<open>space.map\<close> of a process.\<close>

definition map_for :: "nat \<Rightarrow> nat \<Rightarrow> nat \<Rightarrow> nat \<Rightarrow> Perm \<Rightarrow> kernel \<Rightarrow> unit result \<times> kernel" where
  "map_for pid va pa pages perm w =
    (case space_map va pa pages perm (p_space (procs w ! pid)) (kmm w) of
       (r, spc, k) \<Rightarrow> (r, w\<lparr>procs := upd_proc pid (\<lambda>p. p\<lparr>p_space := spc\<rparr>) (procs w), kmm := k\<rparr>))"

definition sys_map_device :: "nat \<Rightarrow> nat \<Rightarrow> nat \<Rightarrow> kernel \<Rightarrow> int \<times> kernel" where
  "sys_map_device pid slot uva w = (case resolve pid slot RIGHT_MAP (procs w) of
     Inl e \<Rightarrow> (e, w)
   | Inr cap \<Rightarrow> (case cap_obj cap of
       Mmio base n \<Rightarrow>
         (case proc_get pid (procs w) of
            None \<Rightarrow> (EINVAL, w)
          | Some p \<Rightarrow>
              let aligned = page_align_down base; offset = base - aligned;
                  pages = (offset + n + PAGE_SIZE - 1) div PAGE_SIZE in
              (case map_for pid uva aligned pages UserDevice w of
                 (Inr _, w) \<Rightarrow> (int offset, w)
               | (Inl _, w) \<Rightarrow> (EINVAL, w)))
     | _ \<Rightarrow> (EINVAL, w)))"

definition sys_dma_map :: "nat \<Rightarrow> nat \<Rightarrow> nat \<Rightarrow> kernel \<Rightarrow> int \<times> kernel" where
  "sys_dma_map pid slot uva w = (case resolve pid slot RIGHT_MAP (procs w) of
     Inl e \<Rightarrow> (e, w)
   | Inr cap \<Rightarrow> (case cap_obj cap of
       Dma base pages \<Rightarrow>
         (case proc_get pid (procs w) of
            None \<Rightarrow> (EINVAL, w)
          | Some p \<Rightarrow>
              (case map_for pid uva base pages UserData w of
                 (Inr _, w) \<Rightarrow> (as_isize base, w)
               | (Inl _, w) \<Rightarrow> (EINVAL, w)))
     | _ \<Rightarrow> (EINVAL, w)))"

text \<open>\<open>sys_irq_wait\<close> up to its loop, and one round of the loop.\<close>

definition irq_wait_begin :: "nat \<Rightarrow> nat \<Rightarrow> kernel \<Rightarrow> (int + nat) \<times> kernel" where
  "irq_wait_begin pid slot w = (case resolve pid slot RIGHT_IRQ (procs w) of
     Inl e \<Rightarrow> (Inl e, w)
   | Inr cap \<Rightarrow> (case cap_obj cap of
       Irq intid \<Rightarrow> if proc_get pid (procs w) = None then (Inl EINVAL, w)
         else (Inr (unat intid), w\<lparr>spi_on := unat intid # spi_on w\<rparr>)
     | _ \<Rightarrow> (Inl EINVAL, w)))"

definition irq_wait_round :: "machine_state \<Rightarrow> nat \<Rightarrow> nat \<Rightarrow> nat \<Rightarrow> kernel \<Rightarrow> int option \<times> kernel" where
  "irq_wait_round u pid intid deadline w =
    (let seq = (case irq_sequence intid (kirqs w) of Some n \<Rightarrow> n | None \<Rightarrow> 0);
         seen = (case proc_get pid (procs w) of Some p \<Rightarrow> irq_seen p | None \<Rightarrow> 0) in
     if seq > seen then (Some (int seq), w\<lparr>procs := upd_proc pid (\<lambda>p. p\<lparr>irq_seen := seq\<rparr>) (procs w)\<rparr>)
     else if tick u \<ge> deadline then (Some ETIMEDOUT, w)
     else (None, w))"

definition sys_irq_wait :: "machine_state \<Rightarrow> nat \<Rightarrow> nat \<Rightarrow> nat \<Rightarrow> kernel \<Rightarrow> int option \<times> kernel" where
  "sys_irq_wait u pid slot timeout w = (case irq_wait_begin pid slot w of
     (Inl e, w) \<Rightarrow> (Some e, w)
   | (Inr intid, w) \<Rightarrow> irq_wait_round u pid intid (tick u + timeout) w)"

text \<open>The line that a failed open prints; its dash is the character U+2014.\<close>

definition open_failed :: "bytes \<Rightarrow> string \<Rightarrow> bytes" where
  "open_failed name e = ascii ''  model      : open of '' @ [34] @ name @ [34] @ ascii '' failed '' @ [226, 128, 148] @ ascii '' '' @ ascii e @ [10]"

definition sys_model_open :: "nat \<Rightarrow> nat \<Rightarrow> nat \<Rightarrow> kernel \<Rightarrow> int \<times> kernel" where
  "sys_model_open pid ptr len w =
    (if len > 64 then (EINVAL, w)
     else case from_user pid ptr len w of
       None \<Rightarrow> (EFAULT, w)
     | Some name \<Rightarrow>
         if \<not> utf8_valid name then (EINVAL, w)
         else case open_by_name name (kstore w) (kdisk w) of
           (Done (ident, st), d) \<Rightarrow> (as_isize ident, w\<lparr>kstore := st, kdisk := d\<rparr>)
         | (Fail e, d) \<Rightarrow> (EBADCAP, w\<lparr>console := console w @ open_failed name e, kdisk := d\<rparr>)
         | (PowerOff, d) \<Rightarrow> (EBADCAP, w\<lparr>kdisk := d\<rparr>))"

definition sys_model_map :: "nat \<Rightarrow> nat \<Rightarrow> nat \<Rightarrow> kernel \<Rightarrow> int \<times> kernel" where
  "sys_model_map pid ident uva w =
    (if uva mod PAGE_SIZE \<noteq> 0 then (EINVAL, w)
     else case model_attach ident pid uva (kstore w) of
       (Inl _, st) \<Rightarrow> (EBADCAP, w\<lparr>kstore := st\<rparr>)
     | (Inr n, st) \<Rightarrow> (as_isize n,
         w\<lparr>kstore := st, procs := add_vma pid \<lparr>v_start = uva, v_pages = div_ceil n PAGE_SIZE, v_kind = ModelPages ident\<rparr> (procs w)\<rparr>))"

definition sys_model_info :: "nat \<Rightarrow> nat \<Rightarrow> nat \<Rightarrow> kernel \<Rightarrow> int \<times> kernel" where
  "sys_model_info pid ident out w = (case model_stat ident (kstore w) of
     None \<Rightarrow> (EBADCAP, w)
   | Some (a, h, b, c, d, e, f, g) \<Rightarrow>
       (case to_user pid out (concat (map (le_bytes 8) [of_nat a, h, of_nat b, of_nat c, of_nat d, of_nat e, of_nat f, of_nat g])) w of
          (True, w) \<Rightarrow> (0, w)
        | (False, w) \<Rightarrow> (EFAULT, w)))"

definition sys_tensor_submit :: "machine_state \<Rightarrow> nat \<Rightarrow> nat \<Rightarrow> nat \<Rightarrow> nat \<Rightarrow> kernel \<Rightarrow> int \<times> kernel" where
  "sys_tensor_submit u pid q segs dl w =
    (if segs = 0 \<or> segs > 100000 then (EINVAL, w)
     else case tensor_submit (usec u) pid (Qos_from_u64 q) segs (if dl = 0 then None else Some dl) (kdev w) (ksched w) of
       (Inr ident, d, s) \<Rightarrow> (int ident, w\<lparr>kdev := d, ksched := s\<rparr>)
     | (Inl (Undeliverable _ _), d, s) \<Rightarrow> (EDEADLINE, w\<lparr>kdev := d, ksched := s\<rparr>)
     | (Inl (NoHeadroom _ _), d, s) \<Rightarrow> (EHOT, w\<lparr>kdev := d, ksched := s\<rparr>))"

text \<open>One round of the loop of \<open>sys_tensor_wait\<close>.\<close>

definition sys_tensor_wait :: "machine_state \<Rightarrow> nat \<Rightarrow> nat \<Rightarrow> kernel \<Rightarrow> int option \<times> kernel" where
  "sys_tensor_wait u ident deadline w = (case finished_or_prepare (core_id u) ident (job_token ident) (kdev w) (ksched w) of
     (Some True, s) \<Rightarrow> (Some 1, w\<lparr>ksched := s\<rparr>)
   | (Some False, s) \<Rightarrow> (Some 0, w\<lparr>ksched := s\<rparr>)
   | (None, s) \<Rightarrow> if tick u > deadline then (Some ETIMEDOUT, w\<lparr>ksched := cancel_block (core_id u) s\<rparr>)
       else (None, w\<lparr>ksched := s\<rparr>))"

definition sys_tensor_stat :: "machine_state \<Rightarrow> nat \<Rightarrow> nat \<Rightarrow> nat \<Rightarrow> kernel \<Rightarrow> int \<times> kernel" where
  "sys_tensor_stat u pid ident out w = (case tensor_stat (usec u) ident (kdev w) of
     None \<Rightarrow> (EBADCAP, w)
   | Some vals \<Rightarrow> (case to_user pid out (concat (map (\<lambda>v. le_bytes 8 (of_nat v :: u64)) vals)) w of
       (True, w) \<Rightarrow> (0, w)
     | (False, w) \<Rightarrow> (EFAULT, w)))"

definition ret :: "int \<times> kernel \<Rightarrow> int option \<times> kernel" where
  "ret x = (Some (fst x), snd x)"

text \<open>
  \<open>dispatch\<close> for the process of the running thread, up to the first point where the call waits. The call
  number is \<open>x8\<close>, the arguments \<open>x0\<close> to \<open>x3\<close>.
\<close>

definition sys_dispatch :: "machine_state \<Rightarrow> nat \<Rightarrow> nat \<Rightarrow> nat \<Rightarrow> nat \<Rightarrow> nat \<Rightarrow> kernel \<Rightarrow> int option \<times> kernel" where
  "sys_dispatch u n a b c d w = (case current_pid (core_id u) (ksched w) of
     None \<Rightarrow> (Some EINVAL, w)
   | Some pid \<Rightarrow>
       if n = SYS_EXIT then (None, sys_exit u pid a w)
       else if n = SYS_WRITE then ret (sys_write pid a b w)
       else if n = SYS_YIELD then (Some 0, w\<lparr>ksched := schedule (core_id u) (ksched w)\<rparr>)
       else if n = SYS_SEND then ret (sys_send pid a b c w)
       else if n = SYS_RECV then sys_recv u pid a b c 0 w
       else if n = SYS_GETPID then (Some (int pid), w)
       else if n = SYS_TICKS then (Some (as_isize (tick u)), w)
       else if n = SYS_SLEEP then (None, w\<lparr>ksched := sleep_ticks (core_id u) (tick u) a (ksched w)\<rparr>)
       else if n = SYS_MAP_DEVICE then ret (sys_map_device pid a b w)
       else if n = SYS_DMA_MAP then ret (sys_dma_map pid a b w)
       else if n = SYS_IRQ_WAIT then sys_irq_wait u pid a b w
       else if n = SYS_MODEL_OPEN then ret (sys_model_open pid a b w)
       else if n = SYS_MODEL_MAP then ret (sys_model_map pid a b w)
       else if n = SYS_MODEL_INFO then ret (sys_model_info pid a b w)
       else if n = SYS_TENSOR_SUBMIT then ret (sys_tensor_submit u pid a (b mod 2 ^ 32) c w)
       else if n = SYS_TENSOR_WAIT then sys_tensor_wait u a (tick u + max b 1) w
       else if n = SYS_TENSOR_STAT then ret (sys_tensor_stat u pid a b w)
       else if n = SYS_RECV_FROM then sys_recv u pid a b c d w
       else (Some EINVAL, w))"

end
