(* ===== verification/Reach.thy ===== *)
theory Reach
  imports Elf
begin

text \<open>
  What operations on an address space can reach, for any argument: the frames they take are ones that
  could still be handed out, the walks they change end in the frames they were asked to map, and
  copies to user addresses change only bytes those addresses translate to. These are the facts the
  isolation of processes rests on.
\<close>

section \<open>Frames that can still be handed out\<close>

definition avail :: "frames \<Rightarrow> nat set" where
  "avail fr = {f. \<exists>fl. flist (link fr) (FREE_LIST fr) fl \<and> f \<in> set fl} \<union> set (usable (RESERVED fr) (END fr) (BUMP fr))"

lemma flist_det: "flist l h xs \<Longrightarrow> flist l h ys \<Longrightarrow> xs = ys"
proof (induction xs arbitrary: h ys)
  case Nil
  then show ?case by (cases ys) auto
next
  case (Cons x xs)
  then show ?case by (cases ys) auto
qed

lemma avail_eq: "flist (link fr) (FREE_LIST fr) fl \<Longrightarrow> avail fr = set fl \<union> set (usable (RESERVED fr) (END fr) (BUMP fr))"
  using flist_det unfolding avail_def by blast

lemma avail_not_owned:
  assumes "frames_ok fr own lost" and "f \<in> own"
  shows "f \<notin> avail fr"
  using assms(1)
proof (elim frames_okE)
  fix fl start
  assume "flist (link fr) (FREE_LIST fr) fl"
    and p: "partitioned fl (usable (RESERVED fr) (END fr) (BUMP fr)) own lost (usable (RESERVED fr) (END fr) start)"
  then show ?thesis using assms(2) avail_eq [of fr fl] by (auto simp: partitioned_def)
qed

lemma frames_alloc_avail:
  assumes ok: "frames_ok fr own lost" and a: "frames_alloc fr = (r, fr')"
  shows "avail fr' \<subseteq> avail fr" and "r = Some f \<Longrightarrow> f \<in> avail fr \<and> f \<notin> avail fr'"
proof -
  from ok obtain fl start where s: "BUMP fr \<noteq> 0" "BUMP fr mod PAGE_SIZE = 0" and fl: "flist (link fr) (FREE_LIST fr) fl" by (rule frames_okE)
  have sub: "avail fr' \<subseteq> avail fr \<and> (r = Some f \<longrightarrow> f \<in> avail fr)"
  proof (cases fl)
    case (Cons x xs)
    then have r: "r = Some x" "fr' = fr\<lparr>FREE_LIST := link fr x, FREE_LIST_LEN := FREE_LIST_LEN fr - 1\<rparr>"
      using a fl by (auto simp: frames_alloc_def Let_def)
    have "flist (link fr') (FREE_LIST fr') xs" using fl Cons r(2) by simp
    from avail_eq [OF this] avail_eq [OF fl] show ?thesis using Cons r by auto
  next
    case Nil
    obtain b q where br: "bump_loop (RESERVED fr) (END fr) (BUMP fr) = (b, q)" by (cases "bump_loop (RESERVED fr) (END fr) (BUMP fr)") auto
    have r: "r = q" "fr' = fr\<lparr>BUMP := b\<rparr>" using a fl Nil br by (auto simp: frames_alloc_def)
    have B: "case q of None \<Rightarrow> usable (RESERVED fr) (END fr) (BUMP fr) = [] \<and> usable (RESERVED fr) (END fr) b = []
        | Some f \<Rightarrow> usable (RESERVED fr) (END fr) (BUMP fr) = f # usable (RESERVED fr) (END fr) b"
      using bump_loop_usable [OF s(1), of "RESERVED fr" "END fr"] s(2) unfolding br by auto
    have "flist (link fr') (FREE_LIST fr') []" using fl Nil r(2) by simp
    from avail_eq [OF this] avail_eq [OF fl] B show ?thesis using Nil r by (auto split: option.splits)
  qed
  then show "avail fr' \<subseteq> avail fr" by simp
  show "f \<in> avail fr \<and> f \<notin> avail fr'" if "r = Some f"
  proof -
    have "frames_ok fr' (insert f own) lost" using frames_alloc_ok [OF ok a] that by simp
    then have "f \<notin> avail fr'" by (rule avail_not_owned) simp
    then show ?thesis using sub that by simp
  qed
qed

text \<open>The frames an operation on a space takes come out of the available ones.\<close>

definition takes :: "frames \<Rightarrow> nat set \<Rightarrow> nat list \<Rightarrow> frames \<Rightarrow> bool" where
  "takes fr own new fr' \<longleftrightarrow> (\<exists>lost. frames_ok fr' (own \<union> set new) lost) \<and> set new \<subseteq> avail fr \<and> avail fr' \<subseteq> avail fr - set new"

lemma takes_none: "frames_ok fr own lost \<Longrightarrow> takes fr own [] fr"
  by (auto simp: takes_def)

lemma takes_append: "takes fr own new fr1 \<Longrightarrow> takes fr1 (own \<union> set new) new' fr2 \<Longrightarrow> takes fr own (new @ new') fr2"
  unfolding takes_def by (auto simp: Un_assoc)

lemma alloc_table_takes:
  assumes "frames_ok (kfr k) own lost" and "alloc_table k = (r, k')"
  shows "takes (kfr k) own (case r of None \<Rightarrow> [] | Some f \<Rightarrow> [f]) (kfr k')"
proof -
  obtain fr where a: "frames_alloc (kfr k) = (r, fr)" "kfr k' = fr" using assms(2) by (auto simp: alloc_table_def split: prod.splits option.splits)
  show ?thesis using frames_alloc_ok [OF assms(1) a(1)] frames_alloc_avail [OF assms(1) a(1)] a(2) by (cases r) (auto simp: takes_def)
qed

lemma walk_create_takes:
  "walk_create va ls t sp k = (r, sp', k') \<Longrightarrow> frames_ok (kfr k) own lost \<Longrightarrow>
   \<exists>new. as_owned sp' = as_owned sp @ new \<and> takes (kfr k) own new (kfr k')"
proof (induction va ls t sp k arbitrary: own lost rule: walk_create.induct)
  case (1 va table sp k)
  then show ?case using takes_none by (intro exI [of _ "[]"]) auto
next
  case (2 va level levels table sp k)
  let ?a = "table + 8 * index va level"
  show ?case
  proof (cases "rd64 (pm k) ?a AND PTE_VALID = 0")
    case False
    then show ?thesis using 2(2) [OF refl refl False _ 2(4)] 2(3) by (simp add: Let_def)
  next
    case True
    obtain f k1 where al: "alloc_table k = (f, k1)" by (cases "alloc_table k")
    note A = alloc_table_takes [OF 2(4) al]
    show ?thesis
    proof (cases f)
      case None
      then show ?thesis using 2(3) True al A by (intro exI [of _ "[]"]) (auto simp: Let_def)
    next
      case (Some nxt)
      let ?e = "of_nat nxt OR PTE_VALID OR PTE_TABLE_OR_PAGE :: u64" and ?k = "k1\<lparr>pm := wr64 (pm k1) ?a (of_nat nxt OR PTE_VALID OR PTE_TABLE_OR_PAGE)\<rparr>"
      have w: "walk_create va levels (unat (?e AND ADDR_MASK)) (sp\<lparr>as_owned := as_owned sp @ [nxt]\<rparr>) ?k = (r, sp', k')"
        using 2(3) True al Some by (simp add: Let_def)
      obtain lost' where "frames_ok (kfr ?k) (own \<union> {nxt}) lost'" using A Some by (auto simp: takes_def)
      from 2(1) [OF refl refl True al [symmetric] Some refl w this] obtain new where
        "as_owned sp' = as_owned sp @ [nxt] @ new" "takes (kfr k1) (own \<union> {nxt}) new (kfr k')" by auto
      then show ?thesis using takes_append [of "kfr k" own "[nxt]" "kfr k1" new "kfr k'"] A Some by (intro exI [of _ "nxt # new"]) auto
    qed
  qed
qed

lemma map_loop_takes:
  "map_loop va pa perm is sp k = (r, sp', k') \<Longrightarrow> frames_ok (kfr k) own lost \<Longrightarrow>
   \<exists>new. as_owned sp' = as_owned sp @ new \<and> takes (kfr k) own new (kfr k')"
proof (induction "is" arbitrary: sp k own lost)
  case Nil
  then show ?case using takes_none by (intro exI [of _ "[]"]) auto
next
  case (Cons i "is")
  obtain re sp1 k1 where e: "entry_for (va + i * PAGE_SIZE) sp k = (re, sp1, k1)" by (metis prod_cases3)
  then obtain r1 where "walk_create (va + i * PAGE_SIZE) [0, 1, 2] (as_root sp) sp k = (r1, sp1, k1)"
    unfolding entry_for_def by (auto simp del: walk_create.simps split: prod.splits)
  from walk_create_takes [OF this Cons.prems(2)] obtain n1 where n1: "as_owned sp1 = as_owned sp @ n1" "takes (kfr k) own n1 (kfr k1)" by blast
  show ?case
  proof (cases re)
    case None
    then show ?thesis using Cons.prems(1) e n1 by auto
  next
    case (Some a)
    let ?k2 = "k1\<lparr>pm := wr64 (pm k1) a (of_nat (pa + i * PAGE_SIZE) OR perm_bits perm)\<rparr>"
    have m: "map_loop va pa perm is sp1 ?k2 = (r, sp', k')" using Cons.prems(1) e Some by simp
    obtain lost' where "frames_ok (kfr ?k2) (own \<union> set n1) lost'" using n1(2) by (auto simp: takes_def)
    from Cons.IH [OF m this] obtain new where "as_owned sp' = as_owned sp1 @ new" "takes (kfr k1) (own \<union> set n1) new (kfr k')" by auto
    then show ?thesis using n1 takes_append by (intro exI [of _ "n1 @ new"]) auto
  qed
qed

lemma space_map_takes:
  assumes "space_map va pa n perm sp k = (r, sp', k')" and "frames_ok (kfr k) own lost"
  shows "\<exists>new. as_owned sp' = as_owned sp @ new \<and> takes (kfr k) own new (kfr k')"
proof (cases "va mod PAGE_SIZE \<noteq> 0 \<or> pa mod PAGE_SIZE \<noteq> 0")
  case True
  then show ?thesis using assms takes_none by (intro exI [of _ "[]"]) (auto simp: space_map_def)
next
  case False
  then show ?thesis using assms map_loop_takes by (simp add: space_map_def)
qed

section \<open>Mapping\<close>

text \<open>As \<open>map_loop_ok\<close>, for addresses of any size: a walk is as before or ends in a page that was asked for.\<close>

lemma map_loop_reach:
  assumes "map_loop va pa perm is sp k = (r, sp', k')" and "space_ok sp k own"
    and "\<And>i. i \<in> set is \<Longrightarrow> pa + i * PAGE_SIZE < 2 ^ 48" and "pa mod PAGE_SIZE = 0"
  shows "\<exists>own'. extends sp k own sp' k' own'
    \<and> (\<forall>q. is_path q \<and> length q = 4 \<longrightarrow> walk (pm k') (as_root sp) q = walk (pm k) (as_root sp) q
         \<or> (\<exists>i\<in>set is. walk (pm k') (as_root sp) q = Some (pa + i * PAGE_SIZE)))"
  using assms
proof (induction "is" arbitrary: sp k own)
  case Nil
  then show ?case using extends_refl by (auto intro!: exI [of _ own])
next
  case (Cons i "is")
  let ?v = "va + i * PAGE_SIZE" and ?p = "pa + i * PAGE_SIZE"
  obtain re sp1 k1 where e: "entry_for ?v sp k = (re, sp1, k1)" by (cases "entry_for ?v sp k")
  from entry_for_ok [OF e Cons.prems(2)] obtain own1 where
    E: "extends sp k own sp1 k1 own1" "\<forall>q. is_path q \<and> length q = 4 \<longrightarrow> walk (pm k1) (as_root sp) q = walk (pm k) (as_root sp) q"
      "case re of None \<Rightarrow> True | Some e \<Rightarrow> \<exists>t. walk (pm k1) (as_root sp) (map (index ?v) [0..<3]) = Some t \<and> e = t + 8 * index ?v 3"
    by blast
  show ?case
  proof (cases re)
    case None
    then show ?thesis using Cons.prems(1) e E by (auto intro!: exI [of _ own1])
  next
    case (Some a)
    then obtain t where t: "walk (pm k1) (as_root sp) (map (index ?v) [0..<3]) = Some t" "a = t + 8 * index ?v 3" using E(3) by auto
    let ?d = "of_nat ?p OR perm_bits perm :: u64"
    define k2 where "k2 = k1\<lparr>pm := wr64 (pm k1) a ?d\<rparr>"
    have rest: "map_loop va pa perm is sp1 k2 = (r, sp', k')" using Cons.prems(1) e Some by (simp add: k2_def)
    have root: "as_root sp1 = as_root sp" and ok1: "space_ok sp1 k1 own1" using E(1) by (simp_all add: extends_def)
    have tr: "tree (pm k1) (as_root sp) (set (as_owned sp1))" using ok1 root by (simp add: space_ok_def)
    have l3: "length (map (index ?v) [0..<3]) = 3" by simp
    note L = leaf_write [OF tr is_path_path(3) l3 t(1) index_512 [of ?v 3], where w = ?d, folded t(2) path_snoc]
    have al: "?p mod PAGE_SIZE = 0" using Cons.prems(4) by simp
    have pb: "?p < 2 ^ 48" using Cons.prems(3) [of i] by simp
    note D = descriptor [OF al pb perm_bits_mask [of perm] perm_bits_valid [of perm]]
    have ok2: "space_ok sp1 k2 own1" using ok1 L(1) root by (simp add: space_ok_def k2_def)
    have tin: "t \<in> set (as_owned sp1)" using tree_frame(1) [OF tr is_path_path(3) _ t(1)] by simp
    have "extends sp1 k1 own1 sp1 k2 own1" using ok2 tin wr64_outside [OF index_512, of t] by (auto simp: extends_def k2_def t(2))
    with E(1) have e2: "extends sp k own sp1 k2 own1" by (rule extends_trans)
    have w2: "walk (pm k2) (as_root sp) q = (if q = path ?v then Some ?p else walk (pm k) (as_root sp) q)" if "is_path q" "length q = 4" for q
      using L(2) [OF that] D E(2) that by (simp add: k2_def)
    from Cons.IH [OF rest ok2 Cons.prems(3,4)] obtain own' where I: "extends sp1 k2 own1 sp' k' own'"
      "\<forall>q. is_path q \<and> length q = 4 \<longrightarrow> walk (pm k') (as_root sp) q = walk (pm k2) (as_root sp) q \<or> (\<exists>i\<in>set is. walk (pm k') (as_root sp) q = Some (pa + i * PAGE_SIZE))"
      by (auto simp: root)
    have "walk (pm k') (as_root sp) q = walk (pm k) (as_root sp) q \<or> (\<exists>j\<in>set (i # is). walk (pm k') (as_root sp) q = Some (pa + j * PAGE_SIZE))"
      if "is_path q" "length q = 4" for q
      using I(2) [THEN spec, of q] w2 [OF that] that by (cases "q = path ?v") auto
    then show ?thesis using extends_trans [OF e2 I(1)] by blast
  qed
qed

lemma space_map_reach:
  assumes m: "space_map va pa n perm sp k = (r, sp', k')" and ok: "space_ok sp k own" and b: "\<And>i. i < n \<Longrightarrow> pa + i * PAGE_SIZE < 2 ^ 48"
  shows "\<exists>own'. extends sp k own sp' k' own'
    \<and> (\<forall>q. is_path q \<and> length q = 4 \<longrightarrow> walk (pm k') (as_root sp) q = walk (pm k) (as_root sp) q
         \<or> (\<exists>i<n. walk (pm k') (as_root sp) q = Some (pa + i * PAGE_SIZE)))"
proof (cases "va mod PAGE_SIZE \<noteq> 0 \<or> pa mod PAGE_SIZE \<noteq> 0")
  case True
  then show ?thesis using m extends_refl [OF ok] by (auto simp: space_map_def)
next
  case False
  then have "map_loop va pa perm [0..<n] sp k = (r, sp', k')" "pa mod PAGE_SIZE = 0" using m by (simp_all add: space_map_def)
  from map_loop_reach [OF this(1) ok _ this(2)] b show ?thesis by (simp add: atLeast0LessThan Bex_def)
qed

section \<open>Copies\<close>

text \<open>A copy that may fail half way: translations stay, and only bytes that are mapped change.\<close>

lemma copy_to_user_reach:
  assumes "copy_to_user sp m va data = (r, m')" and "tree m (as_root sp) F"
    and "\<And>v pa t. translate sp m v = Some pa \<Longrightarrow> t \<in> tables m (as_root sp) \<Longrightarrow> \<not> in_frame t pa"
  shows "(\<forall>q. is_path q \<and> length q \<le> 4 \<longrightarrow> walk m' (as_root sp) q = walk m (as_root sp) q)
    \<and> (\<forall>x. m' x \<noteq> m x \<longrightarrow> (\<exists>v. translate sp m v = Some x))"
  using assms
proof (induction sp m va data arbitrary: r m' rule: copy_to_user.induct)
  case (1 sp m va data)
  show ?case
  proof (cases "data = [] \<or> translate sp m va = None")
    case True
    then have "m' = m" using 1(2) by (auto simp: copy_to_user.simps [of sp m va data] copy_to_user.simps [of sp m va "[]"] split: if_splits)
    then show ?thesis by simp
  next
    case False
    then obtain pa where pa: "translate sp m va = Some pa" and d: "data \<noteq> []" by auto
    define n where "n = min (PAGE_SIZE - va mod PAGE_SIZE) (length data)"
    define m1 where "m1 = mwrite m pa (take n data)"
    have rec: "copy_to_user sp m1 (va + n) (drop n data) = (r, m')"
      using 1(2) d pa by (simp add: copy_to_user.simps [of sp m va data] n_def m1_def Let_def)
    have hit: "\<exists>v. translate sp m v = Some x" if "m1 x \<noteq> m x" for x
    proof -
      have x: "pa \<le> x" "x - pa < n" using that by (auto simp: m1_def mwrite_def n_def split: if_splits)
      then have "translate sp m (va + (x - pa)) = Some (pa + (x - pa))" by (intro page_run [OF pa]) (simp add: n_def)
      then show ?thesis using x(1) by auto
    qed
    have same: "m1 x = m x" if "t \<in> tables m (as_root sp)" "in_frame t x" for t x using hit [of x] 1(4) that by blast
    have w: "walk m1 (as_root sp) q = walk m (as_root sp) q" if "is_path q" "length q \<le> 4" for q
      using walk_outside [OF tree_tables [OF 1(3)] same that] by simp
    have t: "translate sp m1 v = translate sp m v" for v using w [of "path v"] by (simp add: translate_eq)
    have tb: "tables m1 (as_root sp) = tables m (as_root sp)" using w unfolding tables_def by auto
    have tr1: "tree m1 (as_root sp) F" by (rule tree_cong [OF 1(3) w]) simp_all
    have "(\<forall>q. is_path q \<and> length q \<le> 4 \<longrightarrow> walk m' (as_root sp) q = walk m1 (as_root sp) q) \<and> (\<forall>x. m' x \<noteq> m1 x \<longrightarrow> (\<exists>v. translate sp m1 v = Some x))"
    proof (rule 1(1) [OF d pa n_def, folded m1_def])
      show "copy_to_user sp m1 (va + n) (drop n data) = (r, m')" "tree m1 (as_root sp) F" by (rule rec, rule tr1)
      show "\<not> in_frame t x" if "translate sp m1 v = Some x" "t \<in> tables m1 (as_root sp)" for v x t
        using 1(4) that by (simp add: t tb)
    qed
    then show ?thesis using w hit by (metis t)
  qed
qed

end
