(* ===== verification/Isolation.thy ===== *)
theory Isolation
  imports Syscall Reach
begin

text \<open>
  What the system calls together guarantee: processes are isolated from each other. The invariant says
  that the page tables of the processes are disjoint trees in frames nobody can map, and that no
  frame a process has mapped, or holds a capability for, can still be handed out as a table. Every
  call keeps it, whatever its arguments, and changes memory only where the caller could reach it.
\<close>

section \<open>The invariant\<close>

definition space_of :: "kernel \<Rightarrow> nat \<Rightarrow> AddressSpace" where
  "space_of w pid = p_space (procs w ! pid)"

definition maps :: "kernel \<Rightarrow> nat \<Rightarrow> nat \<Rightarrow> nat option" where
  "maps w pid v = translate (space_of w pid) (pm (kmm w)) v"

text \<open>The frames \<open>sys_map_device\<close> and \<open>sys_dma_map\<close> map for an object.\<close>

definition obj_frames :: "Obj \<Rightarrow> nat set" where
  "obj_frames ob = (case ob of
     Mmio base n \<Rightarrow> (\<lambda>i. page_align_down base + i * PAGE_SIZE) ` {..<(base - page_align_down base + n + PAGE_SIZE - 1) div PAGE_SIZE}
   | Dma base n \<Rightarrow> (\<lambda>i. base + i * PAGE_SIZE) ` {..<n}
   | _ \<Rightarrow> {})"

text \<open>A frame that is no table of a process (\<open>T\<close> lists them) and cannot become one.\<close>

definition untabled :: "kernel \<Rightarrow> (nat \<Rightarrow> nat list) \<Rightarrow> nat \<Rightarrow> bool" where
  "untabled w T f \<longleftrightarrow> f \<notin> avail (kfr (kmm w)) \<and> (\<forall>j<length (procs w). f \<notin> set (T j))"

definition kernel_ok :: "kernel \<Rightarrow> nat set \<Rightarrow> (nat \<Rightarrow> nat list) \<Rightarrow> bool" where
  "kernel_ok w own T \<longleftrightarrow>
     (\<forall>j<length (procs w). space_ok (with_owned (space_of w j) (T j)) (kmm w) own \<and> length (p_caps (procs w ! j)) = CAP_SLOTS)
     \<and> (\<forall>i<length (procs w). \<forall>j<length (procs w). i \<noteq> j \<longrightarrow> set (T i) \<inter> set (T j) = {})
     \<and> (\<forall>j<length (procs w). \<forall>q f. is_path q \<and> length q = 4 \<and> walk (pm (kmm w)) (as_root (space_of w j)) q = Some f \<longrightarrow> untabled w T f)
     \<and> (\<forall>j<length (procs w). \<forall>c. Some c \<in> set (p_caps (procs w ! j)) \<longrightarrow> (\<forall>f\<in>obj_frames (cap_obj c). f < 2 ^ 48 \<and> untabled w T f))"

section \<open>What a call may do\<close>

definition grants :: "kernel \<Rightarrow> nat \<Rightarrow> nat \<Rightarrow> bool" where
  "grants w pid pa \<longleftrightarrow> (\<exists>slot cap. lookup_cap pid slot (procs w) = Some cap \<and> allows cap RIGHT_MAP \<and> (\<exists>f\<in>obj_frames (cap_obj cap). in_frame f pa))"

definition confined :: "nat \<Rightarrow> kernel \<Rightarrow> kernel \<Rightarrow> (nat \<Rightarrow> nat list) \<Rightarrow> bool" where
  "confined pid w w' T' \<longleftrightarrow> length (procs w') = length (procs w)
     \<and> (\<forall>j<length (procs w). p_caps (procs w' ! j) = p_caps (procs w ! j) \<and> (j \<noteq> pid \<longrightarrow> procs w' ! j = procs w ! j \<and> maps w' j = maps w j))
     \<and> (\<forall>v pa. maps w' pid v = Some pa \<longrightarrow> maps w pid v = Some pa \<or> grants w pid pa)
     \<and> (\<forall>x. pm (kmm w') x \<noteq> pm (kmm w) x \<longrightarrow> (\<exists>v. maps w pid v = Some x) \<or> (\<exists>t\<in>set (T' pid). in_frame t x))"

text \<open>A call that touches neither memory nor address spaces nor capabilities.\<close>

lemma untouched:
  assumes "kernel_ok w own T" and "kmm w' = kmm w" and "length (procs w') = length (procs w)"
    and "\<And>j. j < length (procs w) \<Longrightarrow> p_space (procs w' ! j) = p_space (procs w ! j) \<and> p_caps (procs w' ! j) = p_caps (procs w ! j)"
    and "\<And>j. j < length (procs w) \<Longrightarrow> j \<noteq> pid \<Longrightarrow> procs w' ! j = procs w ! j" and "pid < length (procs w)"
  shows "kernel_ok w' own T \<and> confined pid w w' T"
proof -
  have s: "space_of w' j = space_of w j" if "j < length (procs w)" for j using assms(4) that by (simp add: space_of_def)
  have "kernel_ok w' own T" using assms(1-4) s unfolding kernel_ok_def untabled_def by simp
  moreover have "maps w' j = maps w j" if "j < length (procs w)" for j using s that assms(2) by (simp add: maps_def [abs_def])
  ultimately show ?thesis using assms by (simp add: confined_def)
qed

lemma upd_proc_nth: "j < length ps \<Longrightarrow> upd_proc pid f ps ! j = (if j = pid then f (ps ! j) else ps ! j)"
  by (simp add: upd_proc_def)

lemma upd_proc_length [simp]: "length (upd_proc pid f ps) = length ps"
  by (simp add: upd_proc_def)

lemma untouched_upd:
  assumes "kernel_ok w own T" and "kmm w' = kmm w" and "procs w' = upd_proc pid f (procs w)"
    and "\<And>p. p_space (f p) = p_space p \<and> p_caps (f p) = p_caps p" and "pid < length (procs w)"
  shows "kernel_ok w' own T \<and> confined pid w w' T"
  by (rule untouched [OF assms(1,2) _ _ _ assms(5)]) (simp_all add: assms(3,4) upd_proc_nth)

lemma untouched_same:
  assumes "kernel_ok w own T" and "kmm w' = kmm w" and "procs w' = procs w" and "pid < length (procs w)"
  shows "kernel_ok w' own T \<and> confined pid w w' T"
  by (rule untouched [OF assms(1,2) _ _ _ assms(4)]) (simp_all add: assms(3))

section \<open>Copies to the caller\<close>

lemma tables_sub: "tree m root F \<Longrightarrow> tables m root \<subseteq> F"
  using tree_frame(1) by (auto simp: tables_def)

lemma kernel_aligned:
  assumes "kernel_ok w own T" and "j < length (procs w)" and "t \<in> set (T j)"
  shows "t mod PAGE_SIZE = 0" and "t \<in> own"
proof -
  have "space_ok (with_owned (space_of w j) (T j)) (kmm w) own" using assms(1,2) by (simp add: kernel_ok_def)
  then show "t mod PAGE_SIZE = 0" "t \<in> own" using assms(3) by (auto simp: space_ok_def tree_def)
qed

lemma mapped_untabled:
  assumes ok: "kernel_ok w own T" and "i < length (procs w)" and "j < length (procs w)" and "maps w i v = Some pa" and "t \<in> set (T j)"
  shows "\<not> in_frame t pa"
proof -
  obtain f where f: "walk (pm (kmm w)) (as_root (space_of w i)) (path v) = Some f" "pa = f + v mod PAGE_SIZE"
    using assms(4) by (auto simp: maps_def translate_eq)
  have "untabled w T f" using ok assms(2) f(1) is_path_path(1,2) [of v] unfolding kernel_ok_def by blast
  then have "f \<noteq> t" using assms(3,5) by (auto simp: untabled_def)
  moreover have "f mod PAGE_SIZE = 0" using walk4_aligned [OF f(1)] .
  moreover have "in_frame f pa" unfolding f(2) by simp
  ultimately show ?thesis using frames_disjoint [of t f pa] kernel_aligned(1) [OF ok assms(3,5)] by simp
qed

lemma to_user_ok:
  assumes ok: "kernel_ok w own T" and pid: "pid < length (procs w)" and c: "to_user pid ptr bs w = (b, w')"
  shows "kernel_ok w' own T" and "procs w' = procs w" and "\<And>j. j < length (procs w) \<Longrightarrow> maps w' j = maps w j"
    and "\<And>x. pm (kmm w') x \<noteq> pm (kmm w) x \<Longrightarrow> \<exists>v. maps w pid v = Some x"
proof -
  obtain r m' where cp: "copy_to_user (space_of w pid) (pm (kmm w)) ptr bs = (r, m')" and w': "w' = w\<lparr>kmm := (kmm w)\<lparr>pm := m'\<rparr>\<rparr>"
    using c pid by (auto simp: to_user_def with_space_def proc_get_def space_of_def split: prod.splits)
  have sok: "space_ok (with_owned (space_of w j) (T j)) (kmm w) own" if "j < length (procs w)" for j using ok that by (simp add: kernel_ok_def)
  have tr: "tree (pm (kmm w)) (as_root (space_of w j)) (set (T j))" if "j < length (procs w)" for j using sok [OF that] by (simp add: space_ok_def)
  have R: "\<forall>x. m' x \<noteq> pm (kmm w) x \<longrightarrow> (\<exists>v. translate (space_of w pid) (pm (kmm w)) v = Some x)"
  proof -
    have A: "\<not> in_frame t pa" if "translate (space_of w pid) (pm (kmm w)) v = Some pa" "t \<in> tables (pm (kmm w)) (as_root (space_of w pid))" for v pa t
      using mapped_untabled [OF ok pid pid, of v pa t] tables_sub [OF tr [OF pid]] that by (auto simp: maps_def)
    have "(\<forall>q. is_path q \<and> length q \<le> 4 \<longrightarrow> walk m' (as_root (space_of w pid)) q = walk (pm (kmm w)) (as_root (space_of w pid)) q)
        \<and> (\<forall>x. m' x \<noteq> pm (kmm w) x \<longrightarrow> (\<exists>v. translate (space_of w pid) (pm (kmm w)) v = Some x))"
      by (rule copy_to_user_reach [OF cp tr [OF pid]]) (rule A)
    then show ?thesis by blast
  qed
  then show ch: "\<exists>v. maps w pid v = Some x" if "pm (kmm w') x \<noteq> pm (kmm w) x" for x using that by (simp add: maps_def w')
  have same: "m' x = pm (kmm w) x" if "j < length (procs w)" "t \<in> set (T j)" "in_frame t x" for j t x
    using R mapped_untabled [OF ok pid that(1) _ that(2)] that(3) by (auto simp: maps_def)
  have wk: "walk m' (as_root (space_of w j)) q = walk (pm (kmm w)) (as_root (space_of w j)) q" if "j < length (procs w)" "is_path q" "length q \<le> 4" for j q
    using walk_outside [OF tr [OF that(1)] same [OF that(1)] that(2,3)] by simp
  show "procs w' = procs w" by (simp add: w')
  show "maps w' j = maps w j" if "j < length (procs w)" for j
    using wk [OF that] by (simp add: maps_def [abs_def] fun_eq_iff translate_eq w' space_of_def)
  have tr': "tree m' (as_root (space_of w j)) (set (T j))" if "j < length (procs w)" for j by (rule tree_cong [OF tr [OF that] wk [OF that]]) simp_all
  have s': "space_ok (with_owned (space_of w' j) (T j)) (kmm w') own" if "j < length (procs w)" for j
    using sok [OF that] tr' [OF that] by (simp add: space_ok_def w' space_of_def)
  have ut: "untabled w' T f" if "j < length (procs w)" "is_path q" "length q = 4" "walk (pm (kmm w')) (as_root (space_of w' j)) q = Some f" for j q f
  proof -
    have "walk (pm (kmm w)) (as_root (space_of w j)) q = Some f" using that wk [of j q] by (simp add: w' space_of_def)
    then have "untabled w T f" using ok that(1-3) unfolding kernel_ok_def by blast
    then show ?thesis by (simp add: untabled_def w')
  qed
  have u: "untabled w' T = untabled w T" by (simp add: untabled_def [abs_def] w')
  show "kernel_ok w' own T"
    unfolding kernel_ok_def u \<open>procs w' = procs w\<close>
  proof (intro conjI allI impI)
    fix j assume j: "j < length (procs w)"
    show "space_ok (with_owned (space_of w' j) (T j)) (kmm w') own" by (rule s' [OF j])
    show "length (p_caps (procs w ! j)) = CAP_SLOTS" using ok j by (simp add: kernel_ok_def)
    show "set (T j) \<inter> set (T i) = {}" if "i < length (procs w)" "j \<noteq> i" for i using ok j that unfolding kernel_ok_def by blast
    show "untabled w T f" if "is_path q \<and> length q = 4 \<and> walk (pm (kmm w')) (as_root (space_of w' j)) q = Some f" for q f
      using ut [OF j, of q f] that by (simp add: u)
    show "\<forall>f\<in>obj_frames (cap_obj c). f < 2 ^ 48 \<and> untabled w T f" if "Some c \<in> set (p_caps (procs w ! j))" for c
      using ok j that unfolding kernel_ok_def by blast
  qed
qed

lemma to_user_confined:
  assumes "kernel_ok w own T" and "pid < length (procs w)" and "to_user pid ptr bs w = (b, w')"
  shows "kernel_ok w' own T \<and> confined pid w w' T"
  using to_user_ok [OF assms] assms(2) by (simp add: confined_def)

section \<open>Mapping for the caller\<close>

lemma lookup_cap_slot:
  assumes "kernel_ok w own T" and "lookup_cap pid slot (procs w) = Some cap"
  shows "pid < length (procs w)" and "\<forall>f\<in>obj_frames (cap_obj cap). f < 2 ^ 48 \<and> untabled w T f"
proof -
  have l: "slot < CAP_SLOTS" "pid < length (procs w)" "p_caps (procs w ! pid) ! slot = Some cap"
    using assms(2) by (auto simp: lookup_cap_def proc_get_def split: if_splits bind_splits)
  show "pid < length (procs w)" by (rule l(2))
  have "length (p_caps (procs w ! pid)) = CAP_SLOTS" using assms(1) l(2) by (simp add: kernel_ok_def)
  then have "Some cap \<in> set (p_caps (procs w ! pid))" using l by (metis nth_mem)
  then show "\<forall>f\<in>obj_frames (cap_obj cap). f < 2 ^ 48 \<and> untabled w T f" using assms(1) l(2) unfolding kernel_ok_def by blast
qed

lemma map_for_ok:
  assumes ok: "kernel_ok w own T" and pid: "pid < length (procs w)" and m: "map_for pid va pa n perm w = (r, w')"
    and fr: "\<And>i. i < n \<Longrightarrow> pa + i * PAGE_SIZE < 2 ^ 48 \<and> untabled w T (pa + i * PAGE_SIZE)"
    and g: "\<And>i x. i < n \<Longrightarrow> in_frame (pa + i * PAGE_SIZE) x \<Longrightarrow> grants w pid x"
  shows "\<exists>own' T'. kernel_ok w' own' T' \<and> confined pid w w' T'"
proof -
  let ?N = "length (procs w)" and ?k = "kmm w"
  obtain spc k' where s: "space_map va pa n perm (space_of w pid) ?k = (r, spc, k')"
    and w': "w' = w\<lparr>procs := upd_proc pid (\<lambda>p. p\<lparr>p_space := spc\<rparr>) (procs w), kmm := k'\<rparr>"
    using m by (auto simp: map_for_def space_of_def split: prod.splits)
  have sok: "space_ok (with_owned (space_of w j) (T j)) ?k own" if "j < ?N" for j using ok that by (simp add: kernel_ok_def)
  obtain lost where fo: "frames_ok (kfr ?k) own lost" using sok [OF pid] by (auto simp: space_ok_def)
  from space_map_owned [OF s] obtain new where N: "spc = with_owned (space_of w pid) (as_owned (space_of w pid) @ new)"
    "space_map va pa n perm (with_owned (space_of w pid) (T pid)) ?k = (r, with_owned (space_of w pid) (T pid @ new), k')" by blast
  have root: "as_root spc = as_root (space_of w pid)" by (simp add: N(1))
  have tk: "takes (kfr ?k) own new (kfr k')" using space_map_takes [OF N(2) fo] by auto
  from space_map_reach [OF N(2) sok [OF pid]] fr obtain own' where
    E: "extends (with_owned (space_of w pid) (T pid)) ?k own (with_owned (space_of w pid) (T pid @ new)) k' own'"
    and W: "\<And>q. is_path q \<Longrightarrow> length q = 4 \<Longrightarrow> walk (pm k') (as_root (space_of w pid)) q = walk (pm ?k) (as_root (space_of w pid)) q
         \<or> (\<exists>i<n. walk (pm k') (as_root (space_of w pid)) q = Some (pa + i * PAGE_SIZE))"
    by auto
  have own: "own \<subseteq> own'" "space_ok (with_owned (space_of w pid) (T pid @ new)) k' own'" "\<And>x. (\<And>t. t \<in> set (T pid) \<union> set new \<Longrightarrow> \<not> in_frame t x) \<Longrightarrow> pm k' x = pm ?k x"
    using E by (auto simp: extends_def)
  define T' where "T' = T(pid := T pid @ new)"
  have newd: "t \<in> avail (kfr ?k)" if "t \<in> set new" for t using tk that by (auto simp: takes_def)
  have av: "avail (kfr k') \<subseteq> avail (kfr ?k)" using tk by (auto simp: takes_def)
  have new_own: "t \<notin> own" if "t \<in> set new" for t using avail_not_owned [OF fo] newd that by blast
  have ut: "untabled w' T' f" if "untabled w T f" for f
    using that newd av by (auto simp: untabled_def w' T'_def)
  obtain lost' where fo': "frames_ok (kfr k') own' lost'" "END (kfr k') \<le> 2 ^ 48" using own(2) by (auto simp: space_ok_def)
  have newal: "t mod PAGE_SIZE = 0" if "t \<in> set new" for t using own(2) that by (auto simp: space_ok_def tree_def)
  have other: "pm k' x = pm ?k x" if j: "j < ?N" "j \<noteq> pid" and t: "t \<in> set (T j)" "in_frame t x" for j t x
  proof (rule own(3))
    fix t' assume t': "t' \<in> set (T pid) \<union> set new"
    have "t \<in> own" "t mod PAGE_SIZE = 0" using kernel_aligned [OF ok j(1) t(1)] by simp_all
    moreover have "set (T pid) \<inter> set (T j) = {}" using ok j pid unfolding kernel_ok_def by blast
    ultimately have "t' \<noteq> t" using t' t(1) new_own by blast
    moreover have "t' mod PAGE_SIZE = 0" using t' newal kernel_aligned(1) [OF ok pid] by blast
    ultimately show "\<not> in_frame t' x" using frames_disjoint [of t' t x] t(2) \<open>t mod PAGE_SIZE = 0\<close> by simp
  qed
  have tr: "tree (pm ?k) (as_root (space_of w j)) (set (T j))" if "j < ?N" for j using sok [OF that] by (simp add: space_ok_def)
  have wo: "walk (pm k') (as_root (space_of w j)) q = walk (pm ?k) (as_root (space_of w j)) q" if "j < ?N" "j \<noteq> pid" "is_path q" "length q \<le> 4" for j q
    using walk_outside [OF tr [OF that(1)] other [OF that(1,2)] that(3,4)] by simp
  have sp': "space_of w' j = (if j = pid then spc else space_of w j)" if "j < ?N" for j using that by (simp add: space_of_def w' upd_proc_nth)
  have km: "kmm w' = k'" by (simp add: w')
  have s': "space_ok (with_owned (space_of w' j) (T' j)) (kmm w') own'" if "j < ?N" for j
  proof (cases "j = pid")
    case True
    then show ?thesis using own(2) pid by (simp add: sp' T'_def km N(1))
  next
    case False
    have "tree (pm k') (as_root (space_of w j)) (set (T j))" by (rule tree_cong [OF tr [OF that] wo [OF that False]]) simp_all
    then show ?thesis using sok [OF that] fo' own(1) that False by (auto simp: space_ok_def sp' T'_def km)
  qed
  have wk: "untabled w' T' f" if j: "j < ?N" and q: "is_path q" "length q = 4" and f: "walk (pm k') (as_root (space_of w' j)) q = Some f" for j q f
  proof (cases "walk (pm ?k) (as_root (space_of w j)) q = Some f")
    case True
    then have "untabled w T f" using ok j q unfolding kernel_ok_def by blast
    then show ?thesis by (rule ut)
  next
    case False
    then have "j = pid" using f j q wo [of j q] sp' by (cases "j = pid") auto
    then obtain i where "i < n" "f = pa + i * PAGE_SIZE" using W [OF q] f False j sp' root by auto
    then show ?thesis using fr ut by blast
  qed
  have dj: "set (T' i) \<inter> set (T' j) = {}" if "i < ?N" "j < ?N" "i \<noteq> j" for i j
  proof -
    have d: "set (T i) \<inter> set (T j) = {}" using ok that unfolding kernel_ok_def by blast
    have "t \<notin> set new" if "l < ?N" "t \<in> set (T l)" for l t using new_own kernel_aligned(2) [OF ok that] by blast
    then show ?thesis using d that by (auto simp: T'_def)
  qed
  have caps: "p_caps (procs w' ! j) = p_caps (procs w ! j)" if "j < ?N" for j using that by (simp add: w' upd_proc_nth)
  have "kernel_ok w' own' T'"
    unfolding kernel_ok_def
  proof (intro conjI allI impI)
    fix j assume "j < length (procs w')"
    then have j: "j < ?N" by (simp add: w')
    show "space_ok (with_owned (space_of w' j) (T' j)) (kmm w') own'" by (rule s' [OF j])
    show "length (p_caps (procs w' ! j)) = CAP_SLOTS" using ok j caps by (simp add: kernel_ok_def)
    show "set (T' j) \<inter> set (T' i) = {}" if "i < length (procs w')" "j \<noteq> i" for i using dj j that by (simp add: w')
    show "untabled w' T' f" if "is_path q \<and> length q = 4 \<and> walk (pm (kmm w')) (as_root (space_of w' j)) q = Some f" for q f
      using wk [OF j, of q f] that by (simp add: km)
    show "\<forall>f\<in>obj_frames (cap_obj c). f < 2 ^ 48 \<and> untabled w' T' f" if "Some c \<in> set (p_caps (procs w' ! j))" for c
      using ok j that caps [OF j] ut unfolding kernel_ok_def by simp
  qed
  moreover have "confined pid w w' T'"
    unfolding confined_def
  proof (intro conjI allI impI)
    show "length (procs w') = ?N" by (simp add: w')
    fix j assume j: "j < ?N"
    show "p_caps (procs w' ! j) = p_caps (procs w ! j)" by (rule caps [OF j])
    show "procs w' ! j = procs w ! j" if "j \<noteq> pid" using j that by (simp add: w' upd_proc_nth)
    show "maps w' j = maps w j" if "j \<noteq> pid"
      using wo [OF j that] sp' [OF j] that by (simp add: maps_def [abs_def] fun_eq_iff translate_eq km)
  next
    fix v x assume a: "maps w' pid v = Some x"
    then obtain f where f: "walk (pm k') (as_root (space_of w pid)) (path v) = Some f" "x = f + v mod PAGE_SIZE"
      using sp' [OF pid] root by (auto simp: maps_def translate_eq km)
    show "maps w pid v = Some x \<or> grants w pid x"
      using W [of "path v"] f g in_frame_offset [of f v] by (auto simp: maps_def translate_eq)
  next
    fix x assume x: "pm (kmm w') x \<noteq> pm (kmm w) x"
    then have "\<not> (\<forall>t\<in>set (T pid) \<union> set new. \<not> in_frame t x)" using own(3) by (auto simp: w')
    then show "(\<exists>v. maps w pid v = Some x) \<or> (\<exists>t\<in>set (T' pid). in_frame t x)" by (auto simp: T'_def)
  qed
  ultimately show ?thesis by blast
qed

section \<open>Each call\<close>

lemma resolve_Inr: "resolve pid slot right ps = Inr cap \<Longrightarrow> lookup_cap pid slot ps = Some cap \<and> allows cap right"
  by (auto simp: resolve_def split: option.splits if_splits)

lemma map_object:
  assumes ok: "kernel_ok w own T" and c: "resolve pid slot RIGHT_MAP (procs w) = Inr cap"
    and fr: "\<And>i. i < n \<Longrightarrow> pa + i * PAGE_SIZE \<in> obj_frames (cap_obj cap)" and m: "map_for pid va pa n perm w = (r, w')"
  shows "\<exists>own' T'. kernel_ok w' own' T' \<and> confined pid w w' T'"
proof -
  note R = resolve_Inr [OF c]
  note L = lookup_cap_slot [OF ok conjunct1 [OF R]]
  show ?thesis
  proof (rule map_for_ok [OF ok L(1) m])
    show "pa + i * PAGE_SIZE < 2 ^ 48 \<and> untabled w T (pa + i * PAGE_SIZE)" if "i < n" for i using L(2) fr [OF that] by blast
    show "grants w pid x" if "i < n" "in_frame (pa + i * PAGE_SIZE) x" for i x using R fr [OF that(1)] that(2) unfolding grants_def by blast
  qed
qed

lemma map_device_confined:
  assumes ok: "kernel_ok w own T" and pid: "pid < length (procs w)" and c: "sys_map_device pid slot uva w = (r, w')"
  shows "\<exists>own' T'. kernel_ok w' own' T' \<and> confined pid w w' T'"
proof (cases "resolve pid slot RIGHT_MAP (procs w)")
  case (Inr cap)
  show ?thesis
  proof (cases "cap_obj cap")
    case (Mmio base n)
    let ?n = "(base - page_align_down base + n + PAGE_SIZE - 1) div PAGE_SIZE"
    have fr: "page_align_down base + i * PAGE_SIZE \<in> obj_frames (cap_obj cap)" if "i < ?n" for i using that by (auto simp: Mmio obj_frames_def)
    obtain r1 w1 where "map_for pid uva (page_align_down base) ?n UserDevice w = (r1, w1)" by (metis surj_pair)
    moreover from this have "w' = w1" using c Inr Mmio pid by (auto simp: sys_map_device_def proc_get_def Let_def split: sum.splits)
    ultimately show ?thesis using map_object [OF ok Inr fr] by blast
  qed (use untouched_same [OF ok _ _ pid] c Inr in \<open>auto simp: sys_map_device_def\<close>)
qed (use untouched_same [OF ok _ _ pid] c in \<open>auto simp: sys_map_device_def\<close>)

lemma dma_map_confined:
  assumes ok: "kernel_ok w own T" and pid: "pid < length (procs w)" and c: "sys_dma_map pid slot uva w = (r, w')"
  shows "\<exists>own' T'. kernel_ok w' own' T' \<and> confined pid w w' T'"
proof (cases "resolve pid slot RIGHT_MAP (procs w)")
  case (Inr cap)
  show ?thesis
  proof (cases "cap_obj cap")
    case (Dma base n)
    have fr: "base + i * PAGE_SIZE \<in> obj_frames (cap_obj cap)" if "i < n" for i using that by (auto simp: Dma obj_frames_def)
    obtain r1 w1 where "map_for pid uva base n UserData w = (r1, w1)" by (metis surj_pair)
    moreover from this have "w' = w1" using c Inr Dma pid by (auto simp: sys_dma_map_def proc_get_def split: sum.splits)
    ultimately show ?thesis using map_object [OF ok Inr fr] by blast
  qed (use untouched_same [OF ok _ _ pid] c Inr in \<open>auto simp: sys_dma_map_def\<close>)
qed (use untouched_same [OF ok _ _ pid] c in \<open>auto simp: sys_dma_map_def\<close>)

text \<open>Two copies in a row, behind a change that touches no memory.\<close>

lemma copies_confined:
  assumes ok: "kernel_ok w own T" and pid: "pid < length (procs w)" and w0: "kmm w0 = kmm w" "procs w0 = procs w"
    and c1: "to_user pid p1 b1 w0 = (r1, w1)" and c2: "w2 = w1 \<or> to_user pid p2 b2 w1 = (r2, w2)"
  shows "kernel_ok w2 own T \<and> confined pid w w2 T"
proof -
  have ok0: "kernel_ok w0 own T" using untouched_same [OF ok w0 pid] by blast
  have m0: "maps w0 = maps w" by (simp add: maps_def [abs_def] space_of_def w0)
  have pid0: "pid < length (procs w0)" by (simp add: w0 pid)
  note A = to_user_ok [OF ok0 pid0 c1]
  show ?thesis
  proof (cases "w2 = w1")
    case True
    show ?thesis using A pid m0 by (simp add: True confined_def w0)
  next
    case False
    then have c: "to_user pid p2 b2 w1 = (r2, w2)" using c2 by blast
    have pid1: "pid < length (procs w1)" by (simp add: A(2) w0 pid)
    note B = to_user_ok [OF A(1) pid1 c]
    have m: "maps w2 j = maps w j" if "j < length (procs w)" for j using B(3) A(3) m0 that by (simp add: A(2) w0)
    have "\<exists>v. maps w pid v = Some x" if "pm (kmm w2) x \<noteq> pm (kmm w) x" for x
      using A(4) [of x] B(4) [of x] A(3) [OF pid0] m0 that by (cases "pm (kmm w2) x = pm (kmm w1) x") (auto simp: w0)
    then show ?thesis using A(2) B(1,2) m pid by (simp add: confined_def w0)
  qed
qed

lemma recv_confined:
  assumes ok: "kernel_ok w own T" and pid: "pid < length (procs w)" and c: "sys_recv u pid slot ptr len from_ptr w = (r, w')"
  shows "kernel_ok w' own T \<and> confined pid w w' T"
proof (cases "\<exists>cap ch. lookup_cap pid slot (procs w) = Some cap \<and> \<not> cap_revoked cap \<and> allows cap RIGHT_RECV \<and> cap_channel cap = Some ch")
  case False
  then have "w' = w" using c by (auto simp: sys_recv_def split: option.splits if_splits)
  then show ?thesis using untouched_same [OF ok _ _ pid] by simp
next
  case True
  then obtain cap ch where cap: "lookup_cap pid slot (procs w) = Some cap" "\<not> cap_revoked cap" "allows cap RIGHT_RECV" "cap_channel cap = Some ch" by blast
  obtain mo cs s where rp: "recv_or_prepare (core_id u) ch ch (kchans w) (ksched w) = (mo, cs, s)" by (metis prod_cases3)
  show ?thesis
  proof (cases mo)
    case None
    then have "w' = w\<lparr>kchans := cs, ksched := s\<rparr>" using c cap rp by (simp add: sys_recv_def)
    then show ?thesis using untouched_same [OF ok _ _ pid] by simp
  next
    case (Some msg)
    define w0 where "w0 = w\<lparr>kchans := cs, ksched := s\<rparr>"
    obtain r1 w1 where c1: "to_user pid ptr (take (min (length (m_bytes msg)) len) (m_bytes msg)) w0 = (r1, w1)" by (metis surj_pair)
    obtain r2 w2 where c2: "to_user pid from_ptr (le_bytes 8 (of_nat (from_pid msg) :: u64)) w1 = (r2, w2)" by (metis surj_pair)
    have "w' = w1 \<or> w' = w2" using c cap rp Some c1 c2
      by (cases r1; cases r2; cases "from_ptr = 0") (auto simp: sys_recv_def w0_def Let_def)
    then have "w' = w1 \<or> to_user pid from_ptr (le_bytes 8 (of_nat (from_pid msg) :: u64)) w1 = (r2, w')" using c2 by blast
    moreover have "kmm w0 = kmm w" "procs w0 = procs w" by (simp_all add: w0_def)
    ultimately show ?thesis using copies_confined [OF ok pid _ _ c1] by blast
  qed
qed

lemma stat_confined:
  assumes ok: "kernel_ok w own T" and pid: "pid < length (procs w)" and c: "sys_tensor_stat u pid ident out w = (r, w')"
  shows "kernel_ok w' own T \<and> confined pid w w' T"
proof (cases "tensor_stat (usec u) ident (kdev w)")
  case None
  then show ?thesis using c untouched_same [OF ok _ _ pid] by (simp add: sys_tensor_stat_def)
next
  case (Some vals)
  obtain b w1 where t: "to_user pid out (concat (map (\<lambda>v. le_bytes 8 (of_nat v :: u64)) vals)) w = (b, w1)" by (metis surj_pair)
  then have "w' = w1" using c Some by (cases b) (simp_all add: sys_tensor_stat_def)
  then show ?thesis using to_user_confined [OF ok pid t] by simp
qed

lemma irq_wait_confined:
  assumes ok: "kernel_ok w own T" and pid: "pid < length (procs w)" and c: "sys_irq_wait u pid slot timeout w = (r, w')"
  shows "kernel_ok w' own T \<and> confined pid w w' T"
proof -
  have "kmm w' = kmm w \<and> (procs w' = procs w \<or> (\<exists>n. procs w' = upd_proc pid (\<lambda>p. p\<lparr>irq_seen := n\<rparr>) (procs w)))"
    using c by (auto simp: sys_irq_wait_def irq_wait_begin_def irq_wait_round_def Let_def split: sum.splits Obj.splits if_splits prod.splits)
  then show ?thesis using untouched_same [OF ok _ _ pid] untouched_upd [OF ok _ _ _ pid] by fastforce
qed

lemma write_memory: "kmm (snd (sys_write pid ptr len w)) = kmm w \<and> procs (snd (sys_write pid ptr len w)) = procs w"
  by (simp add: sys_write_def split: option.splits)

lemma send_memory: "kmm (snd (sys_send pid slot ptr len w)) = kmm w \<and> procs (snd (sys_send pid slot ptr len w)) = procs w"
proof -
  have "\<exists>cs s. snd (sys_send pid slot ptr len w) = w\<lparr>kchans := cs, ksched := s\<rparr> \<or> snd (sys_send pid slot ptr len w) = w"
    by (simp add: sys_send_def split: option.splits sum.splits prod.splits) blast
  then show ?thesis by auto
qed

lemma submit_memory: "kmm (snd (sys_tensor_submit u pid q n dl w)) = kmm w \<and> procs (snd (sys_tensor_submit u pid q n dl w)) = procs w"
  by (simp add: sys_tensor_submit_def split: sum.splits prod.splits Reject.splits)

lemma wait_memory: "kmm (snd (sys_tensor_wait u ident dl w)) = kmm w \<and> procs (snd (sys_tensor_wait u ident dl w)) = procs w"
  by (simp add: sys_tensor_wait_def split: option.splits prod.splits bool.splits)

lemma model_open_memory: "kmm (snd (sys_model_open pid ptr len w)) = kmm w \<and> procs (snd (sys_model_open pid ptr len w)) = procs w"
  by (simp add: sys_model_open_def split: option.splits outcome.splits prod.splits)

lemma model_map_confined:
  assumes ok: "kernel_ok w own T" and pid: "pid < length (procs w)" and c: "sys_model_map pid ident uva w = (r, w')"
  shows "kernel_ok w' own T \<and> confined pid w w' T"
proof -
  have "kmm w' = kmm w \<and> (procs w' = procs w \<or> (\<exists>v. procs w' = upd_proc pid (\<lambda>p. p\<lparr>vmas := vmas p @ [v]\<rparr>) (procs w)))"
    using c by (auto simp: sys_model_map_def add_vma_def split: sum.splits if_splits prod.splits)
  then show ?thesis using untouched_same [OF ok _ _ pid] untouched_upd [OF ok _ _ _ pid] by fastforce
qed

lemma model_info_confined:
  assumes ok: "kernel_ok w own T" and pid: "pid < length (procs w)" and c: "sys_model_info pid ident out w = (r, w')"
  shows "kernel_ok w' own T \<and> confined pid w w' T"
proof -
  have "w' = w \<or> (\<exists>bs b. to_user pid out bs w = (b, w'))"
    using c by (simp add: sys_model_info_def split: option.splits prod.splits bool.splits) blast+
  then show ?thesis using to_user_confined [OF ok pid] untouched_same [OF ok _ _ pid] by blast
qed

text \<open>What a call other than the two that map leaves behind.\<close>

definition leaves :: "machine_state \<Rightarrow> nat \<Rightarrow> nat \<Rightarrow> nat \<Rightarrow> kernel \<Rightarrow> kernel \<Rightarrow> bool" where
  "leaves u pid a b w w' \<longleftrightarrow> w' = sys_exit u pid a w \<or> (\<exists>sl p l f. w' = snd (sys_recv u pid sl p l f w)) \<or> w' = snd (sys_irq_wait u pid a b w)
     \<or> w' = snd (sys_tensor_stat u pid a b w) \<or> w' = snd (sys_model_map pid a b w) \<or> w' = snd (sys_model_info pid a b w) \<or> (kmm w' = kmm w \<and> procs w' = procs w)"

lemma leaves_intros:
  "leaves u pid a b w (snd (r, sys_exit u pid a w))" "leaves u pid a b w (snd (sys_recv u pid sl p l f w))" "leaves u pid a b w (snd (sys_irq_wait u pid a b w))"
  "leaves u pid a b w (snd (ret (sys_tensor_stat u pid a b w)))" "kmm w' = kmm w \<Longrightarrow> procs w' = procs w \<Longrightarrow> leaves u pid a b w (snd (r, w'))"
  "leaves u pid a b w (snd (ret (sys_write i j k w)))" "leaves u pid a b w (snd (ret (sys_send i j k l w)))"
 "leaves u pid a b w (snd (ret (sys_model_open i j k w)))" "leaves u pid a b w (snd (ret (sys_model_map pid a b w)))"
  "leaves u pid a b w (snd (ret (sys_model_info pid a b w)))" "leaves u pid a b w (snd (ret (sys_tensor_submit u i j k l w)))" "leaves u pid a b w (snd (sys_tensor_wait u i j w))"
proof -
  show "leaves u pid a b w (snd (sys_recv u pid sl p l f w))" unfolding leaves_def by blast
qed (simp_all add: leaves_def ret_def write_memory send_memory submit_memory wait_memory model_open_memory)

lemma leaves_if: "(e \<Longrightarrow> leaves u pid a b w (snd x)) \<Longrightarrow> (\<not> e \<Longrightarrow> leaves u pid a b w (snd y)) \<Longrightarrow> leaves u pid a b w (snd (if e then x else y))"
  by simp

lemma dispatch_leaves:
  assumes "current_pid (core_id u) (ksched w) = Some pid" and "n \<noteq> SYS_MAP_DEVICE" and "n \<noteq> SYS_DMA_MAP"
  shows "leaves u pid a b w (snd (sys_dispatch u n a b c d w))"
  unfolding sys_dispatch_def assms(1) option.case
  by (intro leaves_if leaves_intros) (use assms(2,3) in simp_all)

section \<open>Properties\<close>

text \<open>
  C26: Processes are isolated. Whatever call a process makes, with whatever arguments, and whether it
  succeeds or not: the invariant is kept; every other process and every translation of its address space
  are unchanged; what the caller can newly reach is memory of an object for which it holds a live
  capability with the right to map; no capability table changes; and memory changes only at
  addresses the caller had mapped, or in page tables of the caller itself.
\<close>

theorem syscalls_isolate:
  assumes ok: "kernel_ok w own T" and cur: "current_pid (core_id u) (ksched w) = Some pid" and pid: "pid < length (procs w)"
    and c: "sys_dispatch u n a b c' d w = (r, w')"
  shows "\<exists>own' T'. kernel_ok w' own' T' \<and> confined pid w w' T'"
proof -
  let ?goal = "\<exists>own' T'. kernel_ok w' own' T' \<and> confined pid w w' T'"
  have same: ?goal if "kmm w' = kmm w" "procs w' = procs w" using untouched_same [OF ok that pid] by blast
  have "n = SYS_MAP_DEVICE \<Longrightarrow> ?goal" using c cur map_device_confined [OF ok pid surjective_pairing, of a b]
    by (auto simp: sys_dispatch_def ret_def SYS_MAP_DEVICE_def SYS_EXIT_def SYS_WRITE_def SYS_YIELD_def SYS_SEND_def SYS_RECV_def SYS_GETPID_def
        SYS_TICKS_def SYS_SLEEP_def)
  moreover have "n = SYS_DMA_MAP \<Longrightarrow> ?goal" using c cur dma_map_confined [OF ok pid surjective_pairing, of a b]
    by (auto simp: sys_dispatch_def ret_def SYS_DMA_MAP_def SYS_MAP_DEVICE_def SYS_EXIT_def SYS_WRITE_def SYS_YIELD_def SYS_SEND_def SYS_RECV_def
        SYS_GETPID_def SYS_TICKS_def SYS_SLEEP_def)
  moreover have ?goal if x: "n \<noteq> SYS_MAP_DEVICE" "n \<noteq> SYS_DMA_MAP"
  proof -
    have "leaves u pid a b w (snd (sys_dispatch u n a b c' d w))" by (rule dispatch_leaves [OF cur x])
    then consider "w' = sys_exit u pid a w" | "\<exists>sl p l f. w' = snd (sys_recv u pid sl p l f w)" | "w' = snd (sys_irq_wait u pid a b w)"
      | "w' = snd (sys_tensor_stat u pid a b w)" | "w' = snd (sys_model_map pid a b w)" | "w' = snd (sys_model_info pid a b w)" | "kmm w' = kmm w" "procs w' = procs w" unfolding leaves_def c snd_conv by blast
    then show ?goal
    proof cases
      case 1
      then show ?thesis using untouched_upd [OF ok, of w' pid "\<lambda>p. p\<lparr>exit_code := Some (as_isize a)\<rparr>"] pid by (auto simp: sys_exit_def)
    next
      case 2
      then show ?thesis using recv_confined [OF ok pid surjective_pairing] by blast
    next
      case 3
      then show ?thesis using irq_wait_confined [OF ok pid surjective_pairing] by blast
    next
      case 4
      then show ?thesis using stat_confined [OF ok pid surjective_pairing] by blast
    next
      case 5
      then show ?thesis using model_map_confined [OF ok pid surjective_pairing] by blast
    next
      case 6
      then show ?thesis using model_info_confined [OF ok pid surjective_pairing] by blast
    next
      case 7
      then show ?thesis by (rule same)
    qed
  qed
  ultimately show ?goal by blast
qed

lemma avail_nonzero:
  assumes "frames_ok fr own lost" and "f \<in> avail fr"
  shows "f \<noteq> 0"
  using assms(1)
proof (elim frames_okE)
  fix fl start
  assume s: "start \<noteq> 0" "start mod PAGE_SIZE = 0" "flist (link fr) (FREE_LIST fr) fl"
    "partitioned fl (usable (RESERVED fr) (END fr) (BUMP fr)) own lost (usable (RESERVED fr) (END fr) start)"
  then have "f \<in> set (usable (RESERVED fr) (END fr) start)" using assms(2) avail_eq [OF s(3)] by (auto simp: partitioned_def)
  then show ?thesis using usable_bounds s(1,2) by fastforce
qed

text \<open>Two processes, the first with a capability for the device page at address 0.\<close>

definition demo_cap :: Cap where
  "demo_cap = \<lparr>cap_id = 1, cap_obj = Mmio 0 0x200, cap_rights = RIGHT_MAP, cap_revoked = False, cap_holder = [], cap_purpose = []\<rparr>"

definition demo_kernel :: "AddressSpace \<Rightarrow> AddressSpace \<Rightarrow> kmem \<Rightarrow> kernel" where
  "demo_kernel s0 s1 k = \<lparr>procs = [demo_process\<lparr>p_space := s0, p_caps := Some demo_cap # replicate 7 None\<rparr>, demo_process\<lparr>p_space := s1, p_caps := replicate 8 None\<rparr>],
     kchans = [], ksched = \<lparr>threads = [demo_thread\<lparr>t_pid := Some 0\<rparr>], cpus = \<lambda>_. Cpu_new, STARTED = False, IPI_READY = False, kicks = 0, ram = boot_frames\<rparr>,
     kmm = k, kdev = DEVICE0, kirqs = [], spi_on = [], console = [],
     kstore = store_new, kdisk = \<lparr>store = \<lambda>_. replicate 512 0, bad = \<lambda>_. None, power = None\<rparr>\<rparr>"

lemma demo_kernel_ok:
  "\<exists>s0 s1 k own T. kernel_ok (demo_kernel s0 s1 k) own T \<and> space_ok s0 k own \<and> 3 \<le> free_count (kfr k)"
proof -
  obtain s0 k1 s1 k2 where d: "AddressSpace_new demo_kmem = (Some s0, k1)" "AddressSpace_new k1 = (Some s1, k2)"
    and s: "space_ok s1 k2 {4096, 8192}" "space_ok s0 k2 {4096, 8192}" "as_owned s0 = [4096]" "as_owned s1 = [8192]" "3 \<le> free_count (kfr k2)"
    using demo_spaces by blast
  have P0: "private_ok s0 k1 (insert (as_root s0) {}) [as_root s0] {}" by (rule new_space_private(1) [OF demo_frames_ok d(1)])
  obtain lost where f1: "frames_ok (kfr k1) (insert (as_root s0) {}) lost" "END (kfr k1) \<le> 2 ^ 48" using P0 by (auto simp: private_ok_def space_ok_def)
  have P1: "private_ok s1 k2 (insert (as_root s1) (insert (as_root s0) {})) [as_root s1] {}" by (rule new_space_private(1) [OF f1 d(2)])
  have w1: "walk (pm k2) (as_root s1) q = None" if "is_path q" "length q = 4" for q using P1 that by (auto simp: private_ok_def)
  have w0: "walk (pm k2) (as_root s0) q = None" if q: "is_path q" "length q = 4" for q
  proof -
    obtain f k' where a: "alloc_table k1 = (Some f, k')" "pm k2 = pm k'" using d(2) by (auto simp: AddressSpace_new_def split: prod.splits option.splits)
    have "walk (pm k1) (as_root s0) q = None" using P0 q by (auto simp: private_ok_def)
    then show ?thesis using alloc_private(2) [OF P0 a(1), of q] q a(2) by simp
  qed
  define T :: "nat \<Rightarrow> nat list" where "T = (\<lambda>j. if j = 0 then [4096] else if j = 1 then [8192 :: nat] else [])"
  obtain lost2 where f2: "frames_ok (kfr k2) {4096, 8192} lost2" using s(1) by (auto simp: space_ok_def)
  have u: "untabled (demo_kernel s0 s1 k2) T 0" using avail_nonzero [OF f2] by (auto simp: untabled_def demo_kernel_def T_def)
  have o: "obj_frames (cap_obj demo_cap) = {0}"
    by (auto simp: obj_frames_def demo_cap_def page_align_down_def PAGE_SIZE_def)
  have own: "with_owned s0 [4096] = s0" "with_owned s1 [8192] = s1" using s(3,4) with_owned_same by metis+
  have "kernel_ok (demo_kernel s0 s1 k2) {4096, 8192} T"
    unfolding kernel_ok_def
  proof (intro conjI allI impI)
    fix j assume "j < length (procs (demo_kernel s0 s1 k2))"
    then have j: "j = 0 \<or> j = 1" by (auto simp: demo_kernel_def)
    show "space_ok (with_owned (space_of (demo_kernel s0 s1 k2) j) (T j)) (kmm (demo_kernel s0 s1 k2)) {4096, 8192}"
      using j s(1,2) own by (auto simp: space_of_def demo_kernel_def T_def)
    show "length (p_caps (procs (demo_kernel s0 s1 k2) ! j)) = CAP_SLOTS" using j by (auto simp: demo_kernel_def CAP_SLOTS_def)
    show "set (T j) \<inter> set (T i) = {}" if "i < length (procs (demo_kernel s0 s1 k2))" "j \<noteq> i" for i using j that by (auto simp: demo_kernel_def T_def)
    show "untabled (demo_kernel s0 s1 k2) T f"
      if "is_path q \<and> length q = 4 \<and> walk (pm (kmm (demo_kernel s0 s1 k2))) (as_root (space_of (demo_kernel s0 s1 k2) j)) q = Some f" for q f
      using j that w0 [of q] w1 [of q] by (auto simp: demo_kernel_def space_of_def)
    show "\<forall>f\<in>obj_frames (cap_obj c). f < 2 ^ 48 \<and> untabled (demo_kernel s0 s1 k2) T f" if "Some c \<in> set (p_caps (procs (demo_kernel s0 s1 k2) ! j))" for c
    proof -
      have "c = demo_cap" using j that by (auto simp: demo_kernel_def)
      then show ?thesis using u o by simp
    qed
  qed
  then show ?thesis using s(2,5) by blast
qed

theorem syscalls_isolate_witness:
  "\<exists>w w' own' T'. sys_dispatch \<lparr>core_id = 0, tick = 0, usec = 0\<rparr> SYS_MAP_DEVICE 0 0x400000 0 0 w = (Some 0, w')
     \<and> length (procs w) = 2 \<and> kernel_ok w' own' T' \<and> confined 0 w w' T'"
proof -
  obtain s0 s1 k own T where ok: "kernel_ok (demo_kernel s0 s1 k) own T" and s: "space_ok s0 k own" "3 \<le> free_count (kfr k)" using demo_kernel_ok by blast
  let ?w = "demo_kernel s0 s1 k" and ?u = "\<lparr>core_id = 0, tick = 0, usec = 0\<rparr>"
  have cur: "current_pid (core_id ?u) (ksched ?w) = Some 0" by (simp add: current_pid_def demo_kernel_def Cpu_new_def)
  have pid: "0 < length (procs ?w)" by (simp add: demo_kernel_def)
  have "fst (space_map 0x400000 0 1 UserDevice s0 k) = Inr ()" by (rule map_page_succeeds [OF s]) (simp_all add: PAGE_SIZE_def)
  then obtain spc k' where m: "space_map 0x400000 0 1 UserDevice s0 k = (Inr (), spc, k')" by (cases "space_map 0x400000 0 1 UserDevice s0 k") auto
  have l: "lookup_cap 0 0 (procs ?w) = Some demo_cap" by (simp add: lookup_cap_def proc_get_def demo_kernel_def CAP_SLOTS_def)
  have a: "allows demo_cap RIGHT_MAP" "\<not> cap_revoked demo_cap" by (simp_all add: allows_def demo_cap_def rights_defs)
  have "\<exists>w'. sys_map_device 0 0 0x400000 ?w = (0, w')"
    unfolding sys_map_device_def resolve_def l using a m
    by (simp add: demo_cap_def proc_get_def map_for_def demo_kernel_def page_align_down_def PAGE_SIZE_def Let_def)
  then obtain w' where "sys_dispatch ?u SYS_MAP_DEVICE 0 0x400000 0 0 ?w = (Some 0, w')"
    using cur by (auto simp: sys_dispatch_def ret_def SYS_MAP_DEVICE_def SYS_EXIT_def SYS_WRITE_def SYS_YIELD_def SYS_SEND_def SYS_RECV_def SYS_GETPID_def
        SYS_TICKS_def SYS_SLEEP_def)
  moreover from syscalls_isolate [OF ok cur pid this] have "\<exists>own' T'. kernel_ok w' own' T' \<and> confined 0 ?w w' T'" .
  moreover have "length (procs ?w) = 2" by (simp add: demo_kernel_def)
  ultimately show ?thesis by blast
qed

end
