(* ===== verification/Wm.thy ===== *)
theory Wm
  imports Bytes "HOL-Library.Multiset"
begin

text \<open>
  The window manager, \<open>user/src/wm.rs\<close>: rectangles, windows, the operations of the display server on
  them, the window a tap belongs to, and the order of painting. What it draws on is a parameter, as
  in the source: the two functions of \<open>Painter\<close> on an arbitrary surface.

  Shown: windows stay keyed by owner and id with distinct heights, an operation reaches only windows
  of the process it is done for, and the window a tap goes to is the one painted last at that point.
\<close>

section \<open>Rectangles\<close>

definition WIDTH :: nat where "WIDTH = 480"
definition HEIGHT :: nat where "HEIGHT = 960"
definition MAX_WINDOWS :: nat where "MAX_WINDOWS = 8"
definition MAX_CMDS :: nat where "MAX_CMDS = 24"
definition MAX_TEXT :: nat where "MAX_TEXT = 40"
definition TITLE_BAR :: nat where "TITLE_BAR = 22"
definition TITLE_LEN :: nat where "TITLE_LEN = 24"

record Rect =
  rect_x :: nat
  rect_y :: nat
  rect_w :: nat
  rect_h :: nat

definition Rect_EMPTY :: Rect where
  "Rect_EMPTY = \<lparr>rect_x = 0, rect_y = 0, rect_w = 0, rect_h = 0\<rparr>"

definition contains :: "Rect \<Rightarrow> nat \<Rightarrow> nat \<Rightarrow> bool" where
  "contains r px py \<longleftrightarrow> rect_w r \<noteq> 0 \<and> px \<ge> rect_x r \<and> py \<ge> rect_y r \<and> px < rect_x r + rect_w r \<and> py < rect_y r + rect_h r"

definition area :: "Rect \<Rightarrow> nat" where
  "area r = rect_w r * rect_h r"

definition rect_union :: "Rect \<Rightarrow> Rect \<Rightarrow> Rect" where
  "rect_union r q =
    (if rect_w r = 0 then q
     else if rect_w q = 0 then r
     else let x0 = min (rect_x r) (rect_x q); y0 = min (rect_y r) (rect_y q);
              x1 = max (rect_x r + rect_w r) (rect_x q + rect_w q); y1 = max (rect_y r + rect_h r) (rect_y q + rect_h q) in
       \<lparr>rect_x = x0, rect_y = y0, rect_w = x1 - x0, rect_h = y1 - y0\<rparr>)"

definition clamp_to_screen :: "Rect \<Rightarrow> Rect" where
  "clamp_to_screen r = (let x = min (rect_x r) WIDTH; y = min (rect_y r) HEIGHT in
     \<lparr>rect_x = x, rect_y = y, rect_w = min (rect_x r + rect_w r) WIDTH - x, rect_h = min (rect_y r + rect_h r) HEIGHT - y\<rparr>)"

section \<open>Windows\<close>

datatype Cmd =
    Cmd_None
  | Cmd_Fill nat nat nat nat u32
  | Cmd_Text nat nat nat u32 nat bytes

record Window =
  w_used :: bool
  w_owner :: nat
  w_id :: u8
  w_rect :: Rect
  w_bg :: u32
  w_z :: nat
  w_title :: bytes
  w_title_len :: nat
  w_cmds :: "Cmd list"
  w_ncmd :: nat

definition BLANK :: Window where
  "BLANK = \<lparr>w_used = False, w_owner = 0, w_id = 0, w_rect = Rect_EMPTY, w_bg = 0, w_z = 0, w_title = replicate TITLE_LEN 0,
     w_title_len = 0, w_cmds = replicate MAX_CMDS Cmd_None, w_ncmd = 0\<rparr>"

record Wm =
  windows :: "Window list"
  next_z :: nat
  damage :: Rect
  taps_on_nothing :: nat
  taps_routed :: nat
  rejected :: nat
  composes :: nat

definition Wm_new :: Wm where
  "Wm_new = \<lparr>windows = replicate MAX_WINDOWS BLANK, next_z = 1, damage = Rect_EMPTY, taps_on_nothing = 0,
     taps_routed = 0, rejected = 0, composes = 0\<rparr>"

definition wm_open :: "Wm \<Rightarrow> nat" where
  "wm_open m = length (filter w_used (windows m))"

definition dirty :: "Rect \<Rightarrow> Wm \<Rightarrow> Wm" where
  "dirty r m = m\<lparr>damage := rect_union (damage m) (clamp_to_screen r)\<rparr>"

definition dirty_all :: "Wm \<Rightarrow> Wm" where
  "dirty_all m = m\<lparr>damage := \<lparr>rect_x = 0, rect_y = 0, rect_w = WIDTH, rect_h = HEIGHT\<rparr>\<rparr>"

definition wm_find :: "nat \<Rightarrow> u8 \<Rightarrow> Wm \<Rightarrow> nat option" where
  "wm_find owner ident m = position (\<lambda>w. w_used w \<and> w_owner w = owner \<and> w_id w = ident) (windows m)"

definition wm_create :: "nat \<Rightarrow> u8 \<Rightarrow> Rect \<Rightarrow> u32 \<Rightarrow> bytes \<Rightarrow> Wm \<Rightarrow> bool \<times> Wm" where
  "wm_create owner ident rect bg title m =
    (if wm_find owner ident m \<noteq> None then (False, m)
     else case position (\<lambda>w. \<not> w_used w) (windows m) of
       None \<Rightarrow> (False, m)
     | Some slot \<Rightarrow>
         let n = min (length title) TITLE_LEN; r = clamp_to_screen rect;
             w = BLANK\<lparr>w_used := True, w_owner := owner, w_id := ident, w_rect := r, w_bg := bg, w_z := next_z m,
               w_title_len := n, w_title := overwrite (w_title BLANK) 0 (take n title)\<rparr> in
         (True, dirty r (m\<lparr>windows := (windows m)[slot := w], next_z := next_z m + 1\<rparr>)))"

definition wm_with :: "nat \<Rightarrow> u8 \<Rightarrow> (Window \<Rightarrow> Window) \<Rightarrow> Wm \<Rightarrow> bool \<times> Wm" where
  "wm_with owner ident f m = (case wm_find owner ident m of
     Some i \<Rightarrow>
       let before = w_rect (windows m ! i); w = f (windows m ! i); after = w_rect w in
       (True, dirty after (dirty before (m\<lparr>windows := (windows m)[i := w]\<rparr>)))
   | None \<Rightarrow> (False, m\<lparr>rejected := rejected m + 1\<rparr>))"

definition raise :: "nat \<Rightarrow> u8 \<Rightarrow> Wm \<Rightarrow> bool \<times> Wm" where
  "raise owner ident m = (let z = next_z m in
     wm_with owner ident (\<lambda>w. w\<lparr>w_z := z\<rparr>) (m\<lparr>next_z := next_z m + 1\<rparr>))"

definition push :: "nat \<Rightarrow> u8 \<Rightarrow> Cmd \<Rightarrow> Wm \<Rightarrow> bool \<times> Wm" where
  "push owner ident cmd = wm_with owner ident
    (\<lambda>w. if w_ncmd w < MAX_CMDS then w\<lparr>w_cmds := (w_cmds w)[w_ncmd w := cmd], w_ncmd := w_ncmd w + 1\<rparr> else w)"

definition reset :: "nat \<Rightarrow> u8 \<Rightarrow> Wm \<Rightarrow> bool \<times> Wm" where
  "reset owner ident = wm_with owner ident (\<lambda>w. w\<lparr>w_ncmd := 0\<rparr>)"

definition hit_step :: "Window list \<Rightarrow> nat \<Rightarrow> nat \<Rightarrow> nat \<Rightarrow> nat option \<Rightarrow> nat option" where
  "hit_step ws x y i best =
    (if \<not> w_used (ws ! i) \<or> \<not> contains (w_rect (ws ! i)) x y then best
     else if (case best of None \<Rightarrow> True | Some b \<Rightarrow> w_z (ws ! i) > w_z (ws ! b)) then Some i else best)"

definition hit :: "nat \<Rightarrow> nat \<Rightarrow> Wm \<Rightarrow> (nat \<times> u8 \<times> nat \<times> nat) option" where
  "hit x y m = map_option (\<lambda>i. let w = windows m ! i in (w_owner w, w_id w, x - rect_x (w_rect w), y - rect_y (w_rect w)))
     (fold (hit_step (windows m) x y) [0..<length (windows m)] None)"

section \<open>Painting\<close>

text \<open>The inner loop of the insertion sort by height.\<close>

fun sift :: "(nat \<Rightarrow> nat) \<Rightarrow> nat \<Rightarrow> nat list \<Rightarrow> nat list" where
  "sift z 0 order = order"
| "sift z (Suc j) order =
    (if z (order ! j) > z (order ! Suc j) then sift z j (order[j := order ! Suc j, Suc j := order ! j]) else order)"

definition paint_order :: "Wm \<Rightarrow> nat list" where
  "paint_order m = (let order = filter (\<lambda>i. w_used (windows m ! i)) [0..<length (windows m)] in
     fold (sift (\<lambda>i. w_z (windows m ! i))) [1..<length order] order)"

definition shade :: "u32 \<Rightarrow> u32" where
  "shade c = (let f = (\<lambda>sh. let v = drop_bit sh c AND 0xff in push_bit sh (v + (0xff - v) div 3)) in
     0xff000000 OR f 0 OR f 8 OR f 16)"

text \<open>What the window manager needs of the owner of the pixels: \<open>Painter\<close>.\<close>

record 'p Painter =
  p_fill :: "nat \<Rightarrow> nat \<Rightarrow> nat \<Rightarrow> nat \<Rightarrow> u32 \<Rightarrow> 'p \<Rightarrow> 'p"
  p_text :: "nat \<Rightarrow> nat \<Rightarrow> nat \<Rightarrow> u32 \<Rightarrow> bytes \<Rightarrow> 'p \<Rightarrow> 'p"

definition paint_cmd :: "'p Painter \<Rightarrow> Rect \<Rightarrow> Cmd \<Rightarrow> 'p \<Rightarrow> 'p" where
  "paint_cmd P r c = (case c of
     Cmd_None \<Rightarrow> id
   | Cmd_Fill x y cw h color \<Rightarrow> p_fill P (rect_x r + x) (rect_y r + TITLE_BAR + y) cw h color
   | Cmd_Text x y scale color len bs \<Rightarrow> p_text P (rect_x r + x) (rect_y r + TITLE_BAR + y) scale color (take len bs))"

definition paint_window :: "'p Painter \<Rightarrow> Window \<Rightarrow> 'p \<Rightarrow> 'p" where
  "paint_window P w s = (let r = w_rect w;
       s = p_fill P (rect_x r) (rect_y r) (rect_w r) (rect_h r) (w_bg w) s;
       s = p_fill P (rect_x r) (rect_y r) (rect_w r) TITLE_BAR (shade (w_bg w)) s;
       s = p_text P (rect_x r + 6) (rect_y r + 7) 1 0xffe6edf3 (take (w_title_len w) (w_title w)) s in
     fold (paint_cmd P r) (take (w_ncmd w) (w_cmds w)) s)"

definition paint :: "'p Painter \<Rightarrow> Wm \<Rightarrow> 'p \<Rightarrow> 'p \<times> Wm" where
  "paint P m s = (fold (\<lambda>i. paint_window P (windows m ! i)) (paint_order m) s, m\<lparr>composes := composes m + 1\<rparr>)"

section \<open>Rectangles and the screen\<close>

definition on_screen :: "Rect \<Rightarrow> bool" where
  "on_screen r \<longleftrightarrow> rect_x r + rect_w r \<le> WIDTH \<and> rect_y r + rect_h r \<le> HEIGHT"

lemma clamp_on_screen [simp, intro]: "on_screen (clamp_to_screen r)"
  by (auto simp: on_screen_def clamp_to_screen_def Let_def)

lemma contains_clamp: "contains (clamp_to_screen r) x y \<longleftrightarrow> contains r x y \<and> x < WIDTH \<and> y < HEIGHT"
  by (auto simp: contains_def clamp_to_screen_def Let_def)

lemma clamp_idem: "on_screen r \<Longrightarrow> clamp_to_screen r = r"
  by (cases r) (auto simp: on_screen_def clamp_to_screen_def Let_def)

lemma union_on_screen: "on_screen r \<Longrightarrow> on_screen q \<Longrightarrow> on_screen (rect_union r q)"
  by (auto simp: on_screen_def rect_union_def Let_def)

lemma union_contains: "contains r x y \<or> contains q x y \<Longrightarrow> contains (rect_union r q) x y"
  by (auto simp: contains_def rect_union_def Let_def)

lemma contains_screen: "contains r x y \<Longrightarrow> on_screen r \<Longrightarrow> x < WIDTH \<and> y < HEIGHT"
  by (auto simp: contains_def on_screen_def)

section \<open>The invariant of the window list\<close>

definition window_ok :: "Window \<Rightarrow> bool" where
  "window_ok w \<longleftrightarrow> on_screen (w_rect w) \<and> length (w_title w) = TITLE_LEN \<and> w_title_len w \<le> TITLE_LEN
     \<and> length (w_cmds w) = MAX_CMDS \<and> w_ncmd w \<le> MAX_CMDS"

definition wm_ok :: "Wm \<Rightarrow> bool" where
  "wm_ok m \<longleftrightarrow> length (windows m) = MAX_WINDOWS \<and> on_screen (damage m)
     \<and> (\<forall>w\<in>set (windows m). window_ok w \<and> (w_used w \<longrightarrow> w_z w < next_z m))
     \<and> (\<forall>i<MAX_WINDOWS. \<forall>j<MAX_WINDOWS. i \<noteq> j \<and> w_used (windows m ! i) \<and> w_used (windows m ! j) \<longrightarrow>
          w_z (windows m ! i) \<noteq> w_z (windows m ! j)
          \<and> (w_owner (windows m ! i), w_id (windows m ! i)) \<noteq> (w_owner (windows m ! j), w_id (windows m ! j)))"

lemma BLANK_ok: "window_ok BLANK" "\<not> w_used BLANK"
  by (simp_all add: window_ok_def BLANK_def on_screen_def Rect_EMPTY_def)

lemma Wm_new_ok: "wm_ok Wm_new"
  by (simp add: wm_ok_def Wm_new_def BLANK_ok on_screen_def Rect_EMPTY_def)

lemma wm_okD:
  assumes "wm_ok m" and "i < MAX_WINDOWS"
  shows "window_ok (windows m ! i)" and "w_used (windows m ! i) \<Longrightarrow> w_z (windows m ! i) < next_z m"
  using assms by (auto simp: wm_ok_def)

lemma wm_ok_apart:
  assumes "wm_ok m" and "i < MAX_WINDOWS" "j < MAX_WINDOWS" "i \<noteq> j" "w_used (windows m ! i)" "w_used (windows m ! j)"
  shows "w_z (windows m ! i) \<noteq> w_z (windows m ! j)"
    and "(w_owner (windows m ! i), w_id (windows m ! i)) \<noteq> (w_owner (windows m ! j), w_id (windows m ! j))"
  using assms unfolding wm_ok_def by blast+

text \<open>One window replaced by one that differs from the others.\<close>

lemma wm_ok_replace:
  assumes ok: "wm_ok m" and i: "i < MAX_WINDOWS" and w: "window_ok w" "w_used w" "w_z w < n" and n: "next_z m \<le> n"
    and d: "on_screen d"
    and z: "\<And>j. j < MAX_WINDOWS \<Longrightarrow> j \<noteq> i \<Longrightarrow> w_used (windows m ! j) \<Longrightarrow> w_z (windows m ! j) \<noteq> w_z w"
    and key: "\<And>j. j < MAX_WINDOWS \<Longrightarrow> j \<noteq> i \<Longrightarrow> w_used (windows m ! j) \<Longrightarrow>
      (w_owner (windows m ! j), w_id (windows m ! j)) \<noteq> (w_owner w, w_id w)"
  shows "wm_ok (m\<lparr>windows := (windows m)[i := w], next_z := n, damage := d\<rparr>)"
proof -
  have len: "length (windows m) = MAX_WINDOWS" using ok by (simp add: wm_ok_def)
  have ws: "window_ok v \<and> (w_used v \<longrightarrow> w_z v < n)" if "v \<in> set ((windows m)[i := w])" for v
  proof (cases "v = w")
    case False
    then have "v \<in> set (windows m)" using that set_update_subset_insert by fastforce
    then show ?thesis using ok n by (fastforce simp: wm_ok_def)
  qed (use w in simp)
  have ap: "w_z (ws ! a) \<noteq> w_z (ws ! b) \<and> (w_owner (ws ! a), w_id (ws ! a)) \<noteq> (w_owner (ws ! b), w_id (ws ! b))"
    if ab: "a < MAX_WINDOWS" "b < MAX_WINDOWS" "a \<noteq> b \<and> w_used (ws ! a) \<and> w_used (ws ! b)" and W: "ws = (windows m)[i := w]" for a b ws
  proof -
    consider "a = i" "b \<noteq> i" | "b = i" "a \<noteq> i" | "a \<noteq> i" "b \<noteq> i" using ab by blast
    then show ?thesis
    proof cases
      case 1
      then have "ws ! a = w" "ws ! b = windows m ! b" using i len W by auto
      then show ?thesis using z [of b] key [of b] ab 1 by metis
    next
      case 2
      then have "ws ! b = w" "ws ! a = windows m ! a" using i len W by auto
      then show ?thesis using z [of a] key [of a] ab 2 by metis
    next
      case 3
      then have "ws ! b = windows m ! b" "ws ! a = windows m ! a" using W by auto
      then show ?thesis using wm_ok_apart [OF ok, of a b] ab by simp
    qed
  qed
  show ?thesis unfolding wm_ok_def using len ws d ap by auto
qed

lemma wm_find_Some:
  assumes "wm_ok m" and "wm_find p k m = Some i"
  shows "i < MAX_WINDOWS" and "w_used (windows m ! i)" and "w_owner (windows m ! i) = p" and "w_id (windows m ! i) = k"
  using position_Some [of _ "windows m" i] assms by (auto simp: wm_find_def wm_ok_def)

lemma dirty_ok: "wm_ok m \<Longrightarrow> wm_ok (dirty r m)"
  by (auto simp: wm_ok_def dirty_def intro: union_on_screen)

lemma dirty_simps [simp]:
  "windows (dirty r m) = windows m" "next_z (dirty r m) = next_z m" "composes (dirty r m) = composes m"
  "windows (dirty_all m) = windows m"
  by (simp_all add: dirty_def dirty_all_def)

lemma create_ok:
  assumes ok: "wm_ok m"
  shows "wm_ok (snd (wm_create p k rect bg title m))"
proof (cases "wm_find p k m \<noteq> None")
  case False
  show ?thesis
  proof (cases "position (\<lambda>w. \<not> w_used w) (windows m)")
    case (Some i)
    have len: "length (windows m) = MAX_WINDOWS" using ok by (simp add: wm_ok_def)
    have i: "i < MAX_WINDOWS" "\<not> w_used (windows m ! i)" using position_Some [OF Some] len by auto
    define w where "w = BLANK\<lparr>w_used := True, w_owner := p, w_id := k, w_rect := clamp_to_screen rect, w_bg := bg, w_z := next_z m,
       w_title_len := min (length title) TITLE_LEN, w_title := overwrite (w_title BLANK) 0 (take (min (length title) TITLE_LEN) title)\<rparr>"
    have W: "window_ok w" "w_used w" "w_z w = next_z m" "w_owner w = p" "w_id w = k"
      by (auto simp: w_def window_ok_def BLANK_def overwrite_def)
    have key: "(w_owner (windows m ! j), w_id (windows m ! j)) \<noteq> (p, k)" if "j < MAX_WINDOWS" "w_used (windows m ! j)" for j
      using False that len by (auto simp: wm_find_def position_None_iff dest: nth_mem)
    have "wm_ok (m\<lparr>windows := (windows m)[i := w], next_z := next_z m + 1, damage := damage m\<rparr>)"
      by (rule wm_ok_replace [OF ok i(1) W(1,2)]) (use W key ok in \<open>auto simp: wm_ok_def dest: wm_okD(2) [OF ok]\<close>)
    moreover have "snd (wm_create p k rect bg title m) = dirty (clamp_to_screen rect) (m\<lparr>windows := (windows m)[i := w], next_z := next_z m + 1, damage := damage m\<rparr>)"
      using False Some by (simp add: wm_create_def w_def Let_def)
    ultimately show ?thesis using dirty_ok by metis
  qed (use False ok in \<open>simp add: wm_create_def\<close>)
qed (use ok in \<open>auto simp: wm_create_def\<close>)

text \<open>What the closures passed to \<open>with\<close> do: they keep the key, and keep the height or take a fresh one.\<close>

definition keeps_key :: "(Window \<Rightarrow> Window) \<Rightarrow> nat \<Rightarrow> nat \<Rightarrow> bool" where
  "keeps_key f z n \<longleftrightarrow> (\<forall>w. window_ok w \<longrightarrow> window_ok (f w) \<and> w_used (f w) = w_used w \<and> w_owner (f w) = w_owner w \<and> w_id (f w) = w_id w
     \<and> (w_z (f w) = w_z w \<or> z \<le> w_z (f w) \<and> w_z (f w) < n))"

lemma with_ok:
  assumes ok: "wm_ok m" and f: "keeps_key f (next_z m) n" and n: "next_z m \<le> n"
  shows "wm_ok (snd (wm_with p k f (m\<lparr>next_z := n\<rparr>)))"
proof (cases "wm_find p k m")
  case None
  have "wm_ok (m\<lparr>next_z := n, rejected := r\<rparr>)" for r
    unfolding wm_ok_def using ok n by (fastforce simp: wm_ok_def)
  then show ?thesis using None by (simp add: wm_with_def wm_find_def)
next
  case (Some i)
  note i = wm_find_Some [OF ok Some]
  let ?w = "windows m ! i"
  have w: "window_ok ?w" "w_z ?w < next_z m" using wm_okD [OF ok i(1)] i(2) by auto
  have F: "window_ok (f ?w)" "w_used (f ?w)" "w_owner (f ?w) = w_owner ?w" "w_id (f ?w) = w_id ?w"
    "w_z (f ?w) = w_z ?w \<or> next_z m \<le> w_z (f ?w) \<and> w_z (f ?w) < n"
    using f w(1) i(2) by (auto simp: keeps_key_def)
  have "wm_ok (m\<lparr>windows := (windows m)[i := f ?w], next_z := n, damage := damage m\<rparr>)"
  proof (rule wm_ok_replace [OF ok i(1) F(1,2) _ n])
    show "w_z (f ?w) < n" using F(5) w(2) n by auto
    show "on_screen (damage m)" using ok by (simp add: wm_ok_def)
    fix j assume j: "j < MAX_WINDOWS" "j \<noteq> i" "w_used (windows m ! j)"
    show "w_z (windows m ! j) \<noteq> w_z (f ?w)" using wm_ok_apart(1) [OF ok j(1) i(1) j(2,3) i(2)] wm_okD(2) [OF ok j(1,3)] F(5) by auto
    show "(w_owner (windows m ! j), w_id (windows m ! j)) \<noteq> (w_owner (f ?w), w_id (f ?w))"
      using wm_ok_apart(2) [OF ok j(1) i(1) j(2,3) i(2)] F(3,4) by simp
  qed
  moreover have "snd (wm_with p k f (m\<lparr>next_z := n\<rparr>)) = dirty (w_rect (f ?w)) (dirty (w_rect ?w) (m\<lparr>windows := (windows m)[i := f ?w], next_z := n, damage := damage m\<rparr>))"
    using Some by (cases m) (simp add: wm_with_def wm_find_def Let_def)
  ultimately show ?thesis using dirty_ok by metis
qed

lemma push_raise_reset_ok:
  assumes "wm_ok m"
  shows "wm_ok (snd (raise p k m))" and "wm_ok (snd (push p k c m))" and "wm_ok (snd (reset p k m))"
proof -
  show "wm_ok (snd (raise p k m))" unfolding raise_def Let_def
    by (rule with_ok [OF assms]) (auto simp: keeps_key_def window_ok_def)
  have m: "m\<lparr>next_z := next_z m\<rparr> = m" by simp
  show "wm_ok (snd (push p k c m))" using with_ok [OF assms, of _ "next_z m" p k] unfolding push_def m
    by (auto simp: keeps_key_def window_ok_def)
  show "wm_ok (snd (reset p k m))" using with_ok [OF assms, of _ "next_z m" p k] unfolding reset_def m
    by (auto simp: keeps_key_def window_ok_def)
qed

section \<open>Whose tap\<close>

definition covers :: "Window \<Rightarrow> nat \<Rightarrow> nat \<Rightarrow> bool" where
  "covers w x y \<longleftrightarrow> w_used w \<and> contains (w_rect w) x y"

lemma hit_fold:
  "case fold (hit_step ws x y) [0..<n] None of
     None \<Rightarrow> \<forall>i<n. \<not> covers (ws ! i) x y
   | Some i \<Rightarrow> i < n \<and> covers (ws ! i) x y \<and> (\<forall>j<n. covers (ws ! j) x y \<longrightarrow> w_z (ws ! j) \<le> w_z (ws ! i))"
proof (induction n)
  case (Suc n)
  define b where "b = fold (hit_step ws x y) [0..<n] None"
  have "fold (hit_step ws x y) [0..<Suc n] None = hit_step ws x y n b" by (simp add: b_def)
  moreover note Suc.IH [folded b_def]
  ultimately show ?case
    by (cases b) (auto simp: hit_step_def [of ws x y n] covers_def less_Suc_eq intro: order.trans)
qed simp

section \<open>The order of painting\<close>

lemma sift_inserts:
  "\<exists>zs. sift z (length xs) (xs @ a # ys) = zs @ ys \<and> mset zs = add_mset a (mset xs) \<and> (sorted (map z xs) \<longrightarrow> sorted (map z zs))"
proof (induction xs arbitrary: ys rule: rev_induct)
  case Nil
  show ?case by (rule exI [of _ "[a]"]) simp
next
  case (snoc b xs)
  show ?case
  proof (cases "z b > z a")
    case True
    obtain zs where zs: "sift z (length xs) (xs @ a # b # ys) = zs @ b # ys" "mset zs = add_mset a (mset xs)" "sorted (map z xs) \<Longrightarrow> sorted (map z zs)"
      using snoc.IH [of "b # ys"] by blast
    have set: "set zs = insert a (set xs)" using zs(2) by (metis set_mset_mset set_mset_add_mset_insert)
    have "sift z (length (xs @ [b])) ((xs @ [b]) @ a # ys) = (zs @ [b]) @ ys" using True zs(1) by (simp add: nth_append list_update_append)
    moreover have "sorted (map z (zs @ [b]))" if "sorted (map z (xs @ [b]))" using that zs(3) True set by (auto simp: sorted_append)
    ultimately show ?thesis using zs(2) by (intro exI [of _ "zs @ [b]"]) simp
  next
    case False
    have "sift z (length (xs @ [b])) ((xs @ [b]) @ a # ys) = (xs @ [b, a]) @ ys" using False by (simp add: nth_append)
    moreover have "sorted (map z (xs @ [b, a]))" if "sorted (map z (xs @ [b]))" using that False by (fastforce simp: sorted_append)
    ultimately show ?thesis by (intro exI [of _ "xs @ [b, a]"]) simp
  qed
qed

lemma sift_loop:
  assumes "k \<le> length order" and "k \<noteq> 0"
  shows "\<exists>zs. fold (sift z) [1..<k] order = zs @ drop k order \<and> mset zs = mset (take k order) \<and> sorted (map z zs)"
  using assms
proof (induction k)
  case (Suc k)
  show ?case
  proof (cases "k = 0")
    case True
    then show ?thesis using Suc.prems by (intro exI [of _ "take 1 order"]) (cases order; simp)
  next
    case False
    obtain zs where zs: "fold (sift z) [1..<k] order = zs @ drop k order" "mset zs = mset (take k order)" "sorted (map z zs)"
      using Suc.IH Suc.prems False by fastforce
    have len: "length zs = k" using zs(2) Suc.prems by (metis length_take min.absorb2 size_mset Suc_leD)
    have d: "drop k order = order ! k # drop (Suc k) order" using Suc.prems by (intro Cons_nth_drop_Suc [symmetric]) simp
    obtain vs where vs: "sift z k (zs @ order ! k # drop (Suc k) order) = vs @ drop (Suc k) order" "mset vs = add_mset (order ! k) (mset zs)" "sorted (map z vs)"
      using sift_inserts [of z zs "order ! k" "drop (Suc k) order"] zs(3) len by blast
    have "fold (sift z) [1..<Suc k] order = vs @ drop (Suc k) order" using False zs(1) d vs(1) by simp
    moreover have "mset vs = mset (take (Suc k) order)" using vs(2) zs(2) Suc.prems by (simp add: take_Suc_conv_app_nth)
    ultimately show ?thesis using vs(3) by blast
  qed
qed simp

lemma paint_order_sorts:
  "mset (paint_order m) = mset (filter (\<lambda>i. w_used (windows m ! i)) [0..<length (windows m)])"
  "sorted (map (\<lambda>i. w_z (windows m ! i)) (paint_order m))"
proof -
  let ?o = "filter (\<lambda>i. w_used (windows m ! i)) [0..<length (windows m)]" and ?z = "\<lambda>i. w_z (windows m ! i)"
  have "mset (paint_order m) = mset ?o \<and> sorted (map ?z (paint_order m))"
  proof (cases "?o = []")
    case False
    then obtain zs where "fold (sift ?z) [1..<length ?o] ?o = zs @ drop (length ?o) ?o" "mset zs = mset (take (length ?o) ?o)" "sorted (map ?z zs)"
      using sift_loop [of "length ?o" ?o ?z] by auto
    then show ?thesis by (simp add: paint_order_def)
  qed (simp add: paint_order_def)
  then show "mset (paint_order m) = mset ?o" "sorted (map ?z (paint_order m))" by blast+
qed

lemma paint_order_set: "set (paint_order m) = {i. i < length (windows m) \<and> w_used (windows m ! i)}"
  using mset_eq_setD [OF paint_order_sorts(1) [of m]] by auto

lemma paint_order_distinct: "distinct (paint_order m)"
  using mset_eq_imp_distinct_iff [OF paint_order_sorts(1) [of m]] by simp

text \<open>In the order of painting, the window that is hit is the last one over the point.\<close>

lemma hit_painted_last:
  assumes ok: "wm_ok m"
  shows "case hit x y m of
     None \<Rightarrow> \<forall>i\<in>set (paint_order m). \<not> contains (w_rect (windows m ! i)) x y
   | Some (p, k, rx, ry) \<Rightarrow> \<exists>below i above. paint_order m = below @ i # above \<and> contains (w_rect (windows m ! i)) x y
       \<and> (\<forall>j\<in>set above. \<not> contains (w_rect (windows m ! j)) x y) \<and> wm_find p k m = Some i
       \<and> rect_x (w_rect (windows m ! i)) + rx = x \<and> rect_y (w_rect (windows m ! i)) + ry = y"
proof (cases "fold (hit_step (windows m) x y) [0..<length (windows m)] None")
  case None
  then show ?thesis using hit_fold [where ws = "windows m" and n = "length (windows m)" and x = x and y = y] by (auto simp: hit_def paint_order_set covers_def)
next
  case (Some i)
  have len: "length (windows m) = MAX_WINDOWS" using ok by (simp add: wm_ok_def)
  have i: "i < MAX_WINDOWS" "w_used (windows m ! i)" "contains (w_rect (windows m ! i)) x y"
    and top: "\<And>j. j < MAX_WINDOWS \<Longrightarrow> covers (windows m ! j) x y \<Longrightarrow> w_z (windows m ! j) \<le> w_z (windows m ! i)"
    using hit_fold [where ws = "windows m" and n = "length (windows m)" and x = x and y = y] Some len by (auto simp: covers_def)
  have "i \<in> set (paint_order m)" using i len by (simp add: paint_order_set)
  then obtain below above where o: "paint_order m = below @ i # above" by (meson split_list)
  have "\<not> contains (w_rect (windows m ! j)) x y" if j: "j \<in> set above" for j
  proof
    assume c: "contains (w_rect (windows m ! j)) x y"
    have jo: "j \<in> set (paint_order m)" using j o by simp
    then have u: "j < MAX_WINDOWS" "w_used (windows m ! j)" using len by (auto simp: paint_order_set)
    have "j \<noteq> i" using paint_order_distinct [of m] o j by auto
    moreover have "w_z (windows m ! i) \<le> w_z (windows m ! j)" using paint_order_sorts(2) [of m] o j by (auto simp: sorted_append)
    moreover have "w_z (windows m ! j) \<le> w_z (windows m ! i)" using top u c by (simp add: covers_def)
    ultimately show False using wm_ok_apart(1) [OF ok i(1) u(1) _ i(2) u(2)] by simp
  qed
  moreover have "wm_find (w_owner (windows m ! i)) (w_id (windows m ! i)) m = Some i"
    unfolding wm_find_def
  proof (rule position_SomeI)
    show "i < length (windows m)" using i(1) len by simp
    fix j assume "j < i"
    then show "\<not> (w_used (windows m ! j) \<and> w_owner (windows m ! j) = w_owner (windows m ! i) \<and> w_id (windows m ! j) = w_id (windows m ! i))"
      using wm_ok_apart(2) [OF ok, of j i] i by auto
  qed (use i in simp)
  ultimately show ?thesis using Some i(3) o by (auto simp: hit_def Let_def contains_def)
qed

section \<open>Whose windows\<close>

text \<open>What one process cannot change: the windows of the others.\<close>

definition others_kept :: "nat \<Rightarrow> Wm \<Rightarrow> Wm \<Rightarrow> bool" where
  "others_kept p m m' \<longleftrightarrow> length (windows m') = length (windows m)
     \<and> (\<forall>i<length (windows m). (w_used (windows m ! i) \<and> w_owner (windows m ! i) \<noteq> p \<longrightarrow> windows m' ! i = windows m ! i)
          \<and> (w_used (windows m' ! i) \<and> w_owner (windows m' ! i) \<noteq> p \<longrightarrow> windows m' ! i = windows m ! i))"

lemma others_kept_refl: "windows m' = windows m \<Longrightarrow> others_kept p m m'"
  by (simp add: others_kept_def)

lemma others_kept_trans: "others_kept p a b \<Longrightarrow> others_kept p b c \<Longrightarrow> others_kept p a c"
  unfolding others_kept_def by metis

lemma create_others: "others_kept p m (snd (wm_create p k rect bg title m))"
proof (cases "position (\<lambda>w. \<not> w_used w) (windows m)")
  case (Some i)
  then show ?thesis using position_Some [OF Some] by (auto simp: wm_create_def others_kept_def Let_def nth_list_update BLANK_def)
qed (simp add: wm_create_def others_kept_refl)

lemma with_others:
  assumes "\<And>w. w_owner (f w) = w_owner w"
  shows "others_kept p m (snd (wm_with p k f m))"
proof (cases "wm_find p k m")
  case (Some i)
  then show ?thesis using position_Some [OF Some [unfolded wm_find_def]] assms
    by (auto simp: wm_with_def others_kept_def Let_def nth_list_update)
qed (simp add: wm_with_def others_kept_refl)

lemma push_raise_reset_others:
  "others_kept p m (snd (raise p k m))" "others_kept p m (snd (push p k c m))" "others_kept p m (snd (reset p k m))"
proof -
  have "others_kept p (m\<lparr>next_z := n\<rparr>) m' = others_kept p m m'" for n m' by (simp add: others_kept_def)
  then show "others_kept p m (snd (raise p k m))" unfolding raise_def Let_def using with_others [of _ p "m\<lparr>next_z := next_z m + 1\<rparr>" k] by simp
  show "others_kept p m (snd (push p k c m))" "others_kept p m (snd (reset p k m))"
    unfolding push_def reset_def by (rule with_others, simp)+
qed

section \<open>What a painted window looks like\<close>

text \<open>
  A drawing gives some points a colour and leaves the others as they are. \<open>over a b\<close> is \<open>b\<close> drawn on
  top of \<open>a\<close>. The shape of letters, \<open>letters t scale x y\<close>, belongs to the surface.
\<close>

type_synonym ink = "nat \<Rightarrow> nat \<Rightarrow> u32 option"
type_synonym letters = "bytes \<Rightarrow> nat \<Rightarrow> nat \<Rightarrow> nat \<Rightarrow> nat \<Rightarrow> nat \<Rightarrow> bool"

definition over :: "ink \<Rightarrow> ink \<Rightarrow> ink" where
  "over a b px py = (case b px py of None \<Rightarrow> a px py | Some c \<Rightarrow> Some c)"

definition no_ink :: ink where
  "no_ink px py = None"

definition in_box :: "nat \<Rightarrow> nat \<Rightarrow> nat \<Rightarrow> nat \<Rightarrow> nat \<Rightarrow> nat \<Rightarrow> bool" where
  "in_box x y w h px py \<longleftrightarrow> x \<le> px \<and> px < x + w \<and> y \<le> py \<and> py < y + h"

definition box_ink :: "nat \<Rightarrow> nat \<Rightarrow> nat \<Rightarrow> nat \<Rightarrow> u32 \<Rightarrow> ink" where
  "box_ink x y w h c px py = (if in_box x y w h px py then Some c else None)"

definition text_ink :: "letters \<Rightarrow> nat \<Rightarrow> nat \<Rightarrow> nat \<Rightarrow> u32 \<Rightarrow> bytes \<Rightarrow> ink" where
  "text_ink L x y scale c t px py = (if L t scale x y px py then Some c else None)"

definition cmd_ink :: "letters \<Rightarrow> Rect \<Rightarrow> Cmd \<Rightarrow> ink" where
  "cmd_ink L r c = (case c of
     Cmd_None \<Rightarrow> no_ink
   | Cmd_Fill x y cw h color \<Rightarrow> box_ink (rect_x r + x) (rect_y r + TITLE_BAR + y) cw h color
   | Cmd_Text x y scale color len bs \<Rightarrow> text_ink L (rect_x r + x) (rect_y r + TITLE_BAR + y) scale color (take len bs))"

definition window_ink :: "letters \<Rightarrow> Window \<Rightarrow> ink" where
  "window_ink L w = (let r = w_rect w in
     fold (\<lambda>c a. over a (cmd_ink L r c)) (take (w_ncmd w) (w_cmds w))
       (over (over (box_ink (rect_x r) (rect_y r) (rect_w r) (rect_h r) (w_bg w))
                   (box_ink (rect_x r) (rect_y r) (rect_w r) TITLE_BAR (shade (w_bg w))))
             (text_ink L (rect_x r + 6) (rect_y r + 7) 1 0xffe6edf3 (take (w_title_len w) (w_title w)))))"

definition windows_ink :: "letters \<Rightarrow> Wm \<Rightarrow> ink" where
  "windows_ink L m = fold (\<lambda>i a. over a (window_ink L (windows m ! i))) (paint_order m) no_ink"

text \<open>Everything a window draws stays in its own rectangle.\<close>

definition cmd_inside :: "Rect \<Rightarrow> Cmd \<Rightarrow> bool" where
  "cmd_inside r c = (case c of
     Cmd_None \<Rightarrow> True
   | Cmd_Fill x y cw h color \<Rightarrow> x + cw \<le> rect_w r \<and> TITLE_BAR + y + h \<le> rect_h r
   | Cmd_Text x y scale color len bs \<Rightarrow> x + len * 8 * max scale 1 \<le> rect_w r \<and> TITLE_BAR + y + 8 * max scale 1 \<le> rect_h r)"

definition draws_inside :: "Window \<Rightarrow> bool" where
  "draws_inside w \<longleftrightarrow> TITLE_BAR \<le> rect_h (w_rect w) \<and> 6 + w_title_len w * 8 \<le> rect_w (w_rect w)
     \<and> list_all (cmd_inside (w_rect w)) (take (w_ncmd w) (w_cmds w))"

definition tidy :: "Wm \<Rightarrow> bool" where
  "tidy m \<longleftrightarrow> (\<forall>w\<in>set (windows m). w_used w \<longrightarrow> draws_inside w)"

text \<open>
  The contract of a surface: what its two operations draw, for a notion of drawing that composes,
  and that letters stay in a box of eight by eight per character.
\<close>

locale surface =
  fixes P :: "'p Painter" and draws :: "ink \<Rightarrow> ('p \<Rightarrow> 'p) \<Rightarrow> bool" and L :: letters
  assumes draws_fill: "draws (box_ink x y w h c) (p_fill P x y w h c)"
    and draws_text: "draws (text_ink L x y scale c t) (p_text P x y scale c t)"
    and draws_id: "draws no_ink id"
    and draws_comp: "draws a g1 \<Longrightarrow> draws b g2 \<Longrightarrow> draws (over a b) (g2 \<circ> g1)"
    and letters_box: "L t scale x y px py \<Longrightarrow> in_box x y (length t * 8 * max scale 1) (8 * max scale 1) px py"
begin

lemma draws_fold:
  assumes "\<And>x. x \<in> set xs \<Longrightarrow> draws (i x) (g x)" and "draws a h"
  shows "draws (fold (\<lambda>x a. over a (i x)) xs a) (fold g xs \<circ> h)"
  using assms
proof (induction xs arbitrary: a h)
  case (Cons x xs)
  have d: "draws (over a (i x)) (g x \<circ> h)" using Cons.prems by (intro draws_comp) auto
  have "draws (fold (\<lambda>x a. over a (i x)) xs (over a (i x))) (fold g xs \<circ> (g x \<circ> h))"
    by (rule Cons.IH [OF _ d]) (use Cons.prems(1) in simp)
  then show ?case by (simp add: comp_def)
qed simp

lemma draws_cmd: "draws (cmd_ink L r c) (paint_cmd P r c)"
  by (cases c) (simp_all add: cmd_ink_def paint_cmd_def draws_id draws_fill draws_text)

lemma draws_window: "draws (window_ink L w) (paint_window P w)"
proof -
  let ?r = "w_rect w"
  have h: "draws (over (over (box_ink (rect_x ?r) (rect_y ?r) (rect_w ?r) (rect_h ?r) (w_bg w)) (box_ink (rect_x ?r) (rect_y ?r) (rect_w ?r) TITLE_BAR (shade (w_bg w))))
             (text_ink L (rect_x ?r + 6) (rect_y ?r + 7) 1 0xffe6edf3 (take (w_title_len w) (w_title w))))
       (p_text P (rect_x ?r + 6) (rect_y ?r + 7) 1 0xffe6edf3 (take (w_title_len w) (w_title w)) \<circ>
        (p_fill P (rect_x ?r) (rect_y ?r) (rect_w ?r) TITLE_BAR (shade (w_bg w)) \<circ> p_fill P (rect_x ?r) (rect_y ?r) (rect_w ?r) (rect_h ?r) (w_bg w)))"
    by (intro draws_comp draws_fill draws_text)
  show ?thesis using draws_fold [where i = "cmd_ink L ?r" and g = "paint_cmd P ?r" and xs = "take (w_ncmd w) (w_cmds w)", OF draws_cmd h]
    by (simp add: window_ink_def paint_window_def [abs_def] Let_def comp_def)
qed

lemma draws_paint: "draws (windows_ink L m) (\<lambda>s. fst (paint P m s))"
  using draws_fold [where i = "\<lambda>i. window_ink L (windows m ! i)" and g = "\<lambda>i. paint_window P (windows m ! i)" and xs = "paint_order m", OF draws_window draws_id] by (simp add: windows_ink_def paint_def comp_def id_def)

lemma in_box_mono:
  "in_box a b w h px py \<Longrightarrow> x \<le> a \<Longrightarrow> a + w \<le> x + w' \<Longrightarrow> y \<le> b \<Longrightarrow> b + h \<le> y + h' \<Longrightarrow> in_box x y w' h' px py"
  by (auto simp: in_box_def)

lemma cmd_ink_inside:
  assumes "cmd_ink L r c px py \<noteq> None" and "cmd_inside r c"
  shows "in_box (rect_x r) (rect_y r) (rect_w r) (rect_h r) px py"
proof (cases c)
  case (Cmd_Text x y scale color len bs)
  then have "in_box (rect_x r + x) (rect_y r + TITLE_BAR + y) (length (take len bs) * 8 * max scale 1) (8 * max scale 1) px py"
    using assms(1) letters_box [of "take len bs" scale _ _ px py] by (auto simp: cmd_ink_def text_ink_def split: if_splits)
  moreover have "length (take len bs) * 8 * max scale 1 \<le> len * 8 * max scale 1" by (intro mult_right_mono) auto
  moreover have "x + len * 8 * max scale 1 \<le> rect_w r" "TITLE_BAR + y + 8 * max scale 1 \<le> rect_h r"
    using assms(2) Cmd_Text by (simp_all add: cmd_inside_def)
  ultimately show ?thesis by (elim in_box_mono) linarith+
qed (use assms in \<open>auto simp: cmd_ink_def cmd_inside_def no_ink_def box_ink_def in_box_def split: if_splits\<close>)

lemma fold_over_None:
  "fold (\<lambda>x a. over a (i x)) xs a px py \<noteq> None \<longleftrightarrow> a px py \<noteq> None \<or> (\<exists>x\<in>set xs. i x px py \<noteq> None)"
  by (induction xs arbitrary: a) (auto simp: over_def split: option.splits)

lemma window_ink_inside:
  assumes "window_ink L w px py \<noteq> None" and "draws_inside w" and "w_title_len w \<le> length (w_title w)"
  shows "contains (w_rect w) px py"
proof -
  let ?r = "w_rect w" and ?t = "take (w_title_len w) (w_title w)"
  have d: "TITLE_BAR \<le> rect_h ?r" "6 + w_title_len w * 8 \<le> rect_w ?r" "\<And>c. c \<in> set (take (w_ncmd w) (w_cmds w)) \<Longrightarrow> cmd_inside ?r c"
    using assms(2) by (auto simp: draws_inside_def list_all_iff)
  have "in_box (rect_x ?r) (rect_y ?r) (rect_w ?r) (rect_h ?r) px py" if "L ?t 1 (rect_x ?r + 6) (rect_y ?r + 7) px py"
    using letters_box [OF that] d(1,2) assms(3) by (auto simp: in_box_def TITLE_BAR_def)
  moreover have "in_box (rect_x ?r) (rect_y ?r) (rect_w ?r) (rect_h ?r) px py" if "in_box (rect_x ?r) (rect_y ?r) (rect_w ?r) TITLE_BAR px py"
    by (rule in_box_mono [OF that]) (use d(1) in simp_all)
  moreover have "in_box (rect_x ?r) (rect_y ?r) (rect_w ?r) (rect_h ?r) px py"
    if "\<exists>c\<in>set (take (w_ncmd w) (w_cmds w)). cmd_ink L ?r c px py \<noteq> None"
    using that d(3) cmd_ink_inside by blast
  ultimately have "in_box (rect_x ?r) (rect_y ?r) (rect_w ?r) (rect_h ?r) px py"
    using assms(1) unfolding window_ink_def Let_def fold_over_None over_def box_ink_def text_ink_def
    by (auto split: option.splits if_splits)
  then show ?thesis by (auto simp: in_box_def contains_def)
qed

text \<open>A window paints every point of its rectangle.\<close>

lemma window_ink_covers: "contains (w_rect w) px py \<Longrightarrow> window_ink L w px py \<noteq> None"
  unfolding window_ink_def Let_def fold_over_None by (auto simp: over_def box_ink_def in_box_def contains_def split: option.splits)

end

end
