(* ===== verification/Gpudrv.thy ===== *)
theory Gpudrv
  imports Wm
begin

text \<open>
  The display server, \<open>user/src/gpudrv.rs\<close> with the font of \<open>user/src/font.rs\<close>: drawing into the frame
  buffer under a clip, the retained background, compositing of the damaged rectangle, the commands
  to the device, and the loop over the operations of a message. The device is an argument: what the
  driver observes while it polls after a command, and the state of the host. Bringing the device up
  (\<open>Gpu::attach\<close>) and the lines the server prints are left out.

  The frame buffer is indexed by pixel, \<open>y * WIDTH + x\<close>, as the source addresses it. A read past the
  end of the message buffer or of the background is a panic, which ends the process: \<open>None\<close>.

  Shown: nothing outside the frame buffer is ever written; redrawing only the damage gives the
  picture that drawing everything gives, as long as windows draw inside themselves; a message from
  one process leaves the windows of all others alone; and taps go to the window seen at the point.
\<close>

section \<open>The font\<close>

definition FIRST :: u8 where "FIRST = 0x20"
definition LAST :: u8 where "LAST = 0x5F"

definition GLYPHS :: "bytes list" where
  "GLYPHS =
    [[0x00, 0x00, 0x00, 0x00, 0x00, 0x00, 0x00, 0x00],
     [0x30, 0x30, 0x30, 0x30, 0x30, 0x00, 0x30, 0x00],
     [0x6c, 0x6c, 0x00, 0x00, 0x00, 0x00, 0x00, 0x00],
     [0x6c, 0x6c, 0xfe, 0x6c, 0xfe, 0x6c, 0x6c, 0x00],
     [0x00, 0x00, 0x00, 0x00, 0x00, 0x00, 0x00, 0x00],
     [0xc4, 0xc8, 0x10, 0x20, 0x40, 0x8c, 0x8c, 0x00],
     [0x00, 0x00, 0x00, 0x00, 0x00, 0x00, 0x00, 0x00],
     [0x30, 0x30, 0x00, 0x00, 0x00, 0x00, 0x00, 0x00],
     [0x18, 0x30, 0x60, 0x60, 0x60, 0x30, 0x18, 0x00],
     [0x30, 0x18, 0x0c, 0x0c, 0x0c, 0x18, 0x30, 0x00],
     [0x00, 0x92, 0x54, 0x38, 0x54, 0x92, 0x00, 0x00],
     [0x00, 0x30, 0x30, 0xfc, 0x30, 0x30, 0x00, 0x00],
     [0x00, 0x00, 0x00, 0x00, 0x00, 0x30, 0x30, 0x60],
     [0x00, 0x00, 0x00, 0xfc, 0x00, 0x00, 0x00, 0x00],
     [0x00, 0x00, 0x00, 0x00, 0x00, 0x30, 0x30, 0x00],
     [0x06, 0x0c, 0x18, 0x30, 0x60, 0xc0, 0x00, 0x00],
     [0x78, 0xcc, 0xdc, 0xf8, 0xec, 0xcc, 0x78, 0x00],
     [0x30, 0x70, 0x30, 0x30, 0x30, 0x30, 0xfc, 0x00],
     [0x78, 0xcc, 0x0c, 0x18, 0x30, 0x60, 0xfc, 0x00],
     [0x78, 0xcc, 0x0c, 0x38, 0x0c, 0xcc, 0x78, 0x00],
     [0x1c, 0x3c, 0x6c, 0xcc, 0xfe, 0x0c, 0x1e, 0x00],
     [0xfc, 0xc0, 0xf8, 0x0c, 0x0c, 0xcc, 0x78, 0x00],
     [0x38, 0x60, 0xc0, 0xf8, 0xcc, 0xcc, 0x78, 0x00],
     [0xfc, 0xcc, 0x0c, 0x18, 0x30, 0x30, 0x30, 0x00],
     [0x78, 0xcc, 0xcc, 0x78, 0xcc, 0xcc, 0x78, 0x00],
     [0x78, 0xcc, 0xcc, 0x7c, 0x0c, 0x60, 0xf0, 0x00],
     [0x00, 0x30, 0x30, 0x00, 0x00, 0x30, 0x30, 0x00],
     [0x00, 0x30, 0x30, 0x00, 0x00, 0x30, 0x30, 0x60],
     [0x0c, 0x18, 0x30, 0x60, 0x30, 0x18, 0x0c, 0x00],
     [0x00, 0x00, 0xfc, 0x00, 0xfc, 0x00, 0x00, 0x00],
     [0x60, 0x30, 0x18, 0x0c, 0x18, 0x30, 0x60, 0x00],
     [0x78, 0xcc, 0x0c, 0x18, 0x30, 0x00, 0x30, 0x00],
     [0x78, 0xcc, 0xdc, 0xdc, 0xc0, 0xc0, 0x78, 0x00],
     [0x30, 0x78, 0xcc, 0xcc, 0xfc, 0xcc, 0xcc, 0x00],
     [0xf8, 0xcc, 0xcc, 0xf8, 0xcc, 0xcc, 0xf8, 0x00],
     [0x78, 0xcc, 0xc0, 0xc0, 0xc0, 0xcc, 0x78, 0x00],
     [0xf0, 0xd8, 0xcc, 0xcc, 0xcc, 0xd8, 0xf0, 0x00],
     [0xfc, 0xc0, 0xc0, 0xf8, 0xc0, 0xc0, 0xfc, 0x00],
     [0xfc, 0xc0, 0xc0, 0xf8, 0xc0, 0xc0, 0xc0, 0x00],
     [0x78, 0xcc, 0xc0, 0xdc, 0xcc, 0xcc, 0x78, 0x00],
     [0xcc, 0xcc, 0xcc, 0xfc, 0xcc, 0xcc, 0xcc, 0x00],
     [0xfc, 0x30, 0x30, 0x30, 0x30, 0x30, 0xfc, 0x00],
     [0x3e, 0x0c, 0x0c, 0x0c, 0xcc, 0xcc, 0x78, 0x00],
     [0xcc, 0xd8, 0xf0, 0xe0, 0xf0, 0xd8, 0xcc, 0x00],
     [0xc0, 0xc0, 0xc0, 0xc0, 0xc0, 0xc0, 0xfc, 0x00],
     [0xc6, 0xee, 0xfe, 0xfe, 0xd6, 0xc6, 0xc6, 0x00],
     [0xcc, 0xec, 0xfc, 0xfc, 0xdc, 0xce, 0xcc, 0x00],
     [0x78, 0xcc, 0xcc, 0xcc, 0xcc, 0xcc, 0x78, 0x00],
     [0xf8, 0xcc, 0xcc, 0xf8, 0xc0, 0xc0, 0xc0, 0x00],
     [0x78, 0xcc, 0xcc, 0xcc, 0xdc, 0xd8, 0x6c, 0x00],
     [0xf8, 0xcc, 0xcc, 0xf8, 0xf0, 0xd8, 0xcc, 0x00],
     [0x78, 0xcc, 0xe0, 0x78, 0x0e, 0xcc, 0x78, 0x00],
     [0xfc, 0x30, 0x30, 0x30, 0x30, 0x30, 0x30, 0x00],
     [0xcc, 0xcc, 0xcc, 0xcc, 0xcc, 0xcc, 0x78, 0x00],
     [0xcc, 0xcc, 0xcc, 0xcc, 0xcc, 0x78, 0x30, 0x00],
     [0xc6, 0xc6, 0xd6, 0xfe, 0xfe, 0xee, 0xc6, 0x00],
     [0xcc, 0xcc, 0x78, 0x30, 0x78, 0xcc, 0xcc, 0x00],
     [0xcc, 0xcc, 0xcc, 0x78, 0x30, 0x30, 0x30, 0x00],
     [0xfc, 0x0c, 0x18, 0x30, 0x60, 0xc0, 0xfc, 0x00],
     [0x3c, 0x30, 0x30, 0x30, 0x30, 0x30, 0x3c, 0x00],
     [0x00, 0x00, 0x00, 0x00, 0x00, 0x00, 0x00, 0x00],
     [0x3c, 0x0c, 0x0c, 0x0c, 0x0c, 0x0c, 0x3c, 0x00],
     [0x00, 0x00, 0x00, 0x00, 0x00, 0x00, 0x00, 0x00],
     [0x00, 0x00, 0x00, 0x00, 0x00, 0x00, 0x00, 0xff]]"

section \<open>Protocol\<close>

definition OP_CLEAR :: u8 where "OP_CLEAR = 0x01"
definition OP_RECT :: u8 where "OP_RECT = 0x02"
definition OP_TEXT :: u8 where "OP_TEXT = 0x03"
definition OP_PRESENT :: u8 where "OP_PRESENT = 0x04"
definition OP_INPUT :: u8 where "OP_INPUT = 0x10"
definition OP_WIN_CREATE :: u8 where "OP_WIN_CREATE = 0x20"
definition OP_WIN_RAISE :: u8 where "OP_WIN_RAISE = 0x21"
definition OP_WIN_MOVE :: u8 where "OP_WIN_MOVE = 0x22"
definition OP_WIN_TEXT :: u8 where "OP_WIN_TEXT = 0x23"
definition OP_WIN_FILL :: u8 where "OP_WIN_FILL = 0x24"
definition OP_WIN_RESET :: u8 where "OP_WIN_RESET = 0x25"
definition OP_CLIENT :: u8 where "OP_CLIENT = 0x30"
definition OP_COMPOSE :: u8 where "OP_COMPOSE = 0x31"
definition OP_STATS :: u8 where "OP_STATS = 0x32"
definition OP_SHUTDOWN :: u8 where "OP_SHUTDOWN = 0xff"
definition EV_TAP :: u8 where "EV_TAP = 0x40"

lemmas opcodes = OP_CLEAR_def OP_RECT_def OP_TEXT_def OP_PRESENT_def OP_INPUT_def OP_WIN_CREATE_def OP_WIN_RAISE_def OP_WIN_MOVE_def
  OP_WIN_TEXT_def OP_WIN_FILL_def OP_WIN_RESET_def OP_CLIENT_def OP_COMPOSE_def OP_STATS_def OP_SHUTDOWN_def

definition KERNEL :: nat where "KERNEL = 2 ^ 64 - 1"
definition CAP_REP :: nat where "CAP_REP = 1"
definition CAP_CLIENT_BASE :: nat where "CAP_CLIENT_BASE = 5"
definition MAX_CLIENTS :: nat where "MAX_CLIENTS = 4"
definition ROOT_CAPACITY :: nat where "ROOT_CAPACITY = 16384"
definition MSG_BUF :: nat where "MSG_BUF = 4096"

definition CMD_RESOURCE_CREATE_2D :: u32 where "CMD_RESOURCE_CREATE_2D = 0x0101"
definition CMD_SET_SCANOUT :: u32 where "CMD_SET_SCANOUT = 0x0103"
definition CMD_RESOURCE_FLUSH :: u32 where "CMD_RESOURCE_FLUSH = 0x0104"
definition CMD_TRANSFER_TO_HOST_2D :: u32 where "CMD_TRANSFER_TO_HOST_2D = 0x0105"
definition CMD_RESOURCE_ATTACH_BACKING :: u32 where "CMD_RESOURCE_ATTACH_BACKING = 0x0106"
definition RESP_OK_NODATA :: u32 where "RESP_OK_NODATA = 0x1100"
definition FORMAT_B8G8R8A8 :: u32 where "FORMAT_B8G8R8A8 = 1"
definition RESOURCE_ID :: u32 where "RESOURCE_ID = 1"
definition FB_OFF :: nat where "FB_OFF = 2 * 4096"
definition FB_BYTES :: nat where "FB_BYTES = WIDTH * HEIGHT * 4"

text \<open>
  The server's state. \<open>ROOT\<close> is the array of the retained background and \<open>ROOT_LEN\<close> how much of it is used,
  \<open>msgbuf\<close> the receive buffer, which keeps what earlier messages left in it; \<open>outbox\<close> is what was sent,
  by capability slot.
\<close>

record 'h server =
  fb :: "nat \<Rightarrow> u32"
  clip :: Rect
  ROOT :: bytes
  ROOT_LEN :: nat
  wins :: Wm
  client_pid :: "nat list"
  client_n :: nat
  dma_phys :: nat
  last_used :: u16
  avail_idx :: u16
  gframes :: nat
  gpixels :: nat
  smallest :: nat
  msgbuf :: bytes
  outbox :: "(nat \<times> bytes) list"
  host :: 'h

text \<open>
  The world around it: the device, which for a command and the pixels yields what each poll of the
  queue sees (the used index and the response word) and the new state of the host; and which slots
  accept a message.
\<close>

record 'h world =
  device :: "bytes \<Rightarrow> (nat \<Rightarrow> u32) \<Rightarrow> 'h \<Rightarrow> (u16 \<times> u32) list \<times> 'h"
  accepts :: "nat \<Rightarrow> bool"

section \<open>Drawing\<close>

definition set_clip :: "Rect \<Rightarrow> 'h server \<Rightarrow> 'h server" where
  "set_clip r s = s\<lparr>clip := clamp_to_screen r\<rparr>"

definition px :: "nat \<Rightarrow> nat \<Rightarrow> u32 \<Rightarrow> 'h server \<Rightarrow> 'h server" where
  "px x y color s = (if \<not> contains (clip s) x y then s else s\<lparr>fb := (fb s)(y * WIDTH + x := color)\<rparr>)"

definition fill :: "nat \<Rightarrow> nat \<Rightarrow> nat \<Rightarrow> nat \<Rightarrow> u32 \<Rightarrow> 'h server \<Rightarrow> 'h server" where
  "fill x y w h color s = (let c = clip s; x0 = max x (rect_x c); y0 = max y (rect_y c);
       x1 = min (min (x + w) (rect_x c + rect_w c)) WIDTH; y1 = min (min (y + h) (rect_y c + rect_h c)) HEIGHT in
     s\<lparr>fb := fold (\<lambda>row. fold (\<lambda>col f. f(row * WIDTH + col := color)) [x0..<x1]) [y0..<y1] (fb s)\<rparr>)"

definition fold_char :: "u8 \<Rightarrow> u8" where
  "fold_char ch = (if 0x61 \<le> ch \<and> ch \<le> 0x7a then ch - 32 else ch)"

definition glyph :: "u8 \<Rightarrow> nat \<Rightarrow> nat \<Rightarrow> nat \<Rightarrow> u32 \<Rightarrow> 'h server \<Rightarrow> 'h server" where
  "glyph ch x y scale color s = (let c = fold_char ch in
     if c < FIRST \<or> c > LAST then s
     else let bits = GLYPHS ! unat (c - FIRST) in
       fold (\<lambda>row. fold (\<lambda>col.
           if (bits ! row) AND drop_bit col 0x80 \<noteq> 0
           then fold (\<lambda>sy. fold (\<lambda>sx. px (x + col * scale + sx) (y + row * scale + sy) color) [0..<scale]) [0..<scale]
           else id) [0..<8]) [0..<length bits] s)"

definition draw_text :: "bytes \<Rightarrow> nat \<Rightarrow> nat \<Rightarrow> nat \<Rightarrow> u32 \<Rightarrow> 'h server \<Rightarrow> 'h server" where
  "draw_text t x y scale color s = fold (\<lambda>i. glyph (t ! i) (x + i * 8 * scale) y scale color) [0..<length t] s"

definition Fb :: "'h server Painter" where
  "Fb = \<lparr>p_fill = fill, p_text = (\<lambda>x y scale color bs. draw_text bs x y (max scale 1) color)\<rparr>"

section \<open>Reading fields\<close>

definition rd8 :: "bytes \<Rightarrow> nat \<Rightarrow> u8 option" where
  "rd8 b i = (if i < length b then Some (b ! i) else None)"

definition be16 :: "bytes \<Rightarrow> nat \<Rightarrow> nat option" where
  "be16 b i = (if i + 1 < length b then Some (unat (b ! i) * 256 + unat (b ! (i + 1))) else None)"

definition le32 :: "bytes \<Rightarrow> nat \<Rightarrow> u32 option" where
  "le32 b i = (if i + 3 < length b then Some (le_word (subslice b i 4)) else None)"

definition slice :: "bytes \<Rightarrow> nat \<Rightarrow> nat \<Rightarrow> bytes option" where
  "slice b i n = (if i + n \<le> length b then Some (subslice b i n) else None)"

definition rect_at :: "bytes \<Rightarrow> nat \<Rightarrow> Rect option" where
  "rect_at b i = Option.bind (be16 b i) (\<lambda>x. Option.bind (be16 b (i + 2)) (\<lambda>y. Option.bind (be16 b (i + 4)) (\<lambda>w.
     map_option (\<lambda>h. \<lparr>rect_x = x, rect_y = y, rect_w = w, rect_h = h\<rparr>) (be16 b (i + 6)))))"

section \<open>The retained background\<close>

definition root_reset :: "'h server \<Rightarrow> 'h server" where
  "root_reset s = s\<lparr>ROOT_LEN := 0\<rparr>"

definition root_append :: "bytes \<Rightarrow> 'h server \<Rightarrow> 'h server" where
  "root_append bs s = (if ROOT_LEN s + length bs > ROOT_CAPACITY then s
     else s\<lparr>ROOT := overwrite (ROOT s) (ROOT_LEN s) bs, ROOT_LEN := ROOT_LEN s + length bs\<rparr>)"

text \<open>One round of the loop of \<open>root_paint\<close>: the state, and where to go on, if anywhere.\<close>

definition root_step :: "bytes \<Rightarrow> nat \<Rightarrow> 'h server \<Rightarrow> (nat option \<times> 'h server) option" where
  "root_step buf i s = Option.bind (rd8 buf i) (\<lambda>opc.
     if opc = OP_CLEAR then map_option (\<lambda>c. (Some (i + 5), fill 0 0 WIDTH HEIGHT c s)) (le32 buf (i + 1))
     else if opc = OP_RECT then Option.bind (rect_at buf (i + 1)) (\<lambda>r. map_option (\<lambda>c.
       (Some (i + 13), fill (rect_x r) (rect_y r) (rect_w r) (rect_h r) c s)) (le32 buf (i + 9)))
     else if opc = OP_TEXT then
       Option.bind (be16 buf (i + 1)) (\<lambda>x. Option.bind (be16 buf (i + 3)) (\<lambda>y. Option.bind (le32 buf (i + 5)) (\<lambda>c.
       Option.bind (rd8 buf (i + 9)) (\<lambda>scale. Option.bind (rd8 buf (i + 10)) (\<lambda>n. map_option (\<lambda>t.
         (Some (i + 11 + unat n), draw_text t x y (max (unat scale) 1) c s)) (slice buf (i + 11) (unat n)))))))
     else Some (None, s))"

lemma root_step_advances: "root_step buf i s = Some (Some j, s') \<Longrightarrow> i < j"
  by (auto simp: root_step_def Option.bind_eq_Some_conv split: if_splits)

function root_loop :: "bytes \<Rightarrow> nat \<Rightarrow> nat \<Rightarrow> 'h server \<Rightarrow> 'h server option" where
  "root_loop buf len i s = (if i < len then (case root_step buf i s of
       None \<Rightarrow> None
     | Some (None, s) \<Rightarrow> Some s
     | Some (Some j, s) \<Rightarrow> root_loop buf len j s) else Some s)"
  by pat_completeness auto

termination
  by (relation "measure (\<lambda>(_, len, i, _). len - i)") (auto dest: root_step_advances)

definition root_paint :: "'h server \<Rightarrow> 'h server option" where
  "root_paint s = root_loop (ROOT s) (ROOT_LEN s) 0 s"

declare root_loop.simps [simp del]

section \<open>Commands to the device\<close>

text \<open>\<open>hdr\<close>, then the fields in order.\<close>

definition hdr :: "u32 \<Rightarrow> bytes" where
  "hdr cmd = le_bytes 4 cmd @ replicate 20 0"

text \<open>At most sixteen looks at the queue.\<close>

fun poll :: "nat \<Rightarrow> u16 \<Rightarrow> (u16 \<times> u32) list \<Rightarrow> (u16 \<times> u32) option" where
  "poll (Suc k) seen ((used, resp) # obs) = (if used \<noteq> seen then Some (used, resp) else poll k seen obs)"
| "poll _ _ _ = None"

definition submit :: "'h world \<Rightarrow> bytes \<Rightarrow> 'h server \<Rightarrow> bool \<times> 'h server" where
  "submit wd cmd s = (case device wd cmd (fb s) (host s) of (obs, h) \<Rightarrow>
     let s = s\<lparr>avail_idx := avail_idx s + 1, host := h\<rparr> in
     (case poll 16 (last_used s) obs of
        None \<Rightarrow> (False, s)
      | Some (used, resp) \<Rightarrow> (resp = RESP_OK_NODATA, s\<lparr>last_used := used\<rparr>)))"

definition create_resource :: "'h world \<Rightarrow> 'h server \<Rightarrow> bool \<times> 'h server" where
  "create_resource wd = submit wd (hdr CMD_RESOURCE_CREATE_2D @ le_bytes 4 RESOURCE_ID @ le_bytes 4 FORMAT_B8G8R8A8
     @ le_bytes 4 (of_nat WIDTH :: u32) @ le_bytes 4 (of_nat HEIGHT :: u32))"

definition attach_backing :: "'h world \<Rightarrow> 'h server \<Rightarrow> bool \<times> 'h server" where
  "attach_backing wd s = submit wd (hdr CMD_RESOURCE_ATTACH_BACKING @ le_bytes 4 RESOURCE_ID @ le_bytes 4 (1 :: u32)
     @ le_bytes 8 (of_nat (dma_phys s + FB_OFF) :: u64) @ le_bytes 4 (of_nat FB_BYTES :: u32) @ le_bytes 4 (0 :: u32)) s"

definition set_scanout :: "'h world \<Rightarrow> 'h server \<Rightarrow> bool \<times> 'h server" where
  "set_scanout wd = submit wd (hdr CMD_SET_SCANOUT @ le_bytes 4 (0 :: u32) @ le_bytes 4 (0 :: u32)
     @ le_bytes 4 (of_nat WIDTH :: u32) @ le_bytes 4 (of_nat HEIGHT :: u32) @ le_bytes 4 (0 :: u32) @ le_bytes 4 RESOURCE_ID)"

text \<open>The four words of a rectangle, and the two commands of \<open>present_rect\<close>.\<close>

definition rect_words :: "Rect \<Rightarrow> bytes" where
  "rect_words r = concat (map (\<lambda>v. le_bytes 4 (of_nat v :: u32)) [rect_x r, rect_y r, rect_w r, rect_h r])"

definition transfer_cmd :: "Rect \<Rightarrow> bytes" where
  "transfer_cmd r = hdr CMD_TRANSFER_TO_HOST_2D @ rect_words r @ le_bytes 8 (of_nat ((rect_y r * WIDTH + rect_x r) * 4) :: u64)
     @ le_bytes 4 RESOURCE_ID @ le_bytes 4 (0 :: u32)"

definition flush_cmd :: "Rect \<Rightarrow> bytes" where
  "flush_cmd r = hdr CMD_RESOURCE_FLUSH @ rect_words r @ le_bytes 4 RESOURCE_ID @ le_bytes 4 (0 :: u32)"

definition present_rect :: "'h world \<Rightarrow> Rect \<Rightarrow> 'h server \<Rightarrow> bool \<times> 'h server" where
  "present_rect wd r s = (let r = clamp_to_screen r in
     if rect_w r = 0 \<or> rect_h r = 0 then (True, s)
     else case submit wd (transfer_cmd r) s of
       (False, s) \<Rightarrow> (False, s)
     | (True, s) \<Rightarrow> (case submit wd (flush_cmd r) s of
         (True, s) \<Rightarrow> (True, s\<lparr>gframes := gframes s + 1, gpixels := gpixels s + area r, smallest := min (smallest s) (area r)\<rparr>)
       | (False, s) \<Rightarrow> (False, s)))"

section \<open>The display server\<close>

definition client_slot :: "nat \<Rightarrow> 'h server \<Rightarrow> nat option" where
  "client_slot pid s = map_option (\<lambda>i. CAP_CLIENT_BASE + i) (position (\<lambda>p. p = pid) (take (client_n s) (client_pid s)))"

definition server_send :: "'h world \<Rightarrow> nat \<Rightarrow> bytes \<Rightarrow> 'h server \<Rightarrow> bool \<times> 'h server" where
  "server_send wd slot bs s = (if accepts wd slot then (True, s\<lparr>outbox := outbox s @ [(slot, bs)]\<rparr>) else (False, s))"

definition full_screen :: Rect where
  "full_screen = \<lparr>rect_x = 0, rect_y = 0, rect_w = WIDTH, rect_h = HEIGHT\<rparr>"

definition compose :: "'h world \<Rightarrow> 'h server \<Rightarrow> (nat \<times> 'h server) option" where
  "compose wd s = (let dmg = clamp_to_screen (damage (wins s)) in
     if rect_w dmg = 0 \<or> rect_h dmg = 0 then Some (0, s)
     else Option.bind (root_paint (set_clip dmg s)) (\<lambda>s.
       case paint Fb (wins s) s of (s, m) \<Rightarrow>
         let s = set_clip full_screen (s\<lparr>wins := m\<rparr>); s = snd (present_rect wd dmg s) in
         Some (area dmg * 100 div (WIDTH * HEIGHT), s\<lparr>wins := (wins s)\<lparr>damage := Rect_EMPTY\<rparr>\<rparr>)))"

definition route_tap :: "'h world \<Rightarrow> nat \<Rightarrow> nat \<Rightarrow> 'h server \<Rightarrow> 'h server" where
  "route_tap wd x y s = (case hit x y (wins s) of
     None \<Rightarrow> s\<lparr>wins := (wins s)\<lparr>taps_on_nothing := taps_on_nothing (wins s) + 1\<rparr>\<rparr>
   | Some (owner, ident, rx, ry) \<Rightarrow> (case client_slot owner s of
       None \<Rightarrow> s\<lparr>wins := (wins s)\<lparr>taps_on_nothing := taps_on_nothing (wins s) + 1\<rparr>\<rparr>
     | Some slot \<Rightarrow>
         (case server_send wd slot [EV_TAP, ident, of_nat (rx div 256), of_nat rx, of_nat (ry div 256), of_nat ry, 1] s of
            (True, s) \<Rightarrow> s\<lparr>wins := (wins s)\<lparr>taps_routed := taps_routed (wins s) + 1\<rparr>\<rparr>
          | (False, s) \<Rightarrow> s)))"

text \<open>How one round of the loop over a message ends: with the position of the next operation, or out of the loop.\<close>

datatype after_op = Next nat | Break | Shutdown

text \<open>The closure of \<open>OP_WIN_MOVE\<close>, and the background operations, which only the kernel may send.\<close>

definition move_to :: "nat \<Rightarrow> nat \<Rightarrow> Window \<Rightarrow> Window" where
  "move_to x y w = w\<lparr>w_rect := clamp_to_screen ((w_rect w)\<lparr>rect_x := x, rect_y := y\<rparr>)\<rparr>"

definition kernel_op :: "bytes \<Rightarrow> nat \<Rightarrow> u8 \<Rightarrow> 'h server \<Rightarrow> (after_op \<times> 'h server) option" where
  "kernel_op msg i opc s =
    (if opc = OP_CLEAR then map_option (\<lambda>b. let s = root_append b (root_reset s) in
       (Next (i + 5), s\<lparr>wins := dirty_all (wins s)\<rparr>)) (slice msg i 5)
     else if opc = OP_RECT then Option.bind (slice msg i 13) (\<lambda>b. map_option (\<lambda>r. let s = root_append b s in
       (Next (i + 13), s\<lparr>wins := dirty r (wins s)\<rparr>)) (rect_at msg (i + 1)))
     else if opc = OP_TEXT then
       Option.bind (rd8 msg (i + 10)) (\<lambda>len. Option.bind (slice msg i (11 + unat len)) (\<lambda>b.
       Option.bind (rd8 msg (i + 9)) (\<lambda>sc. Option.bind (be16 msg (i + 1)) (\<lambda>x. map_option (\<lambda>y.
         let s = root_append b s; scale = max (unat sc) 1 in
         (Next (i + 11 + unat len), s\<lparr>wins := dirty \<lparr>rect_x = x, rect_y = y, rect_w = unat len * 8 * scale, rect_h = 8 * scale\<rparr> (wins s)\<rparr>))
       (be16 msg (i + 3))))))
     else if opc = OP_CLIENT then map_option (\<lambda>p.
       (Next (i + 5), if client_n s < MAX_CLIENTS
          then s\<lparr>client_pid := (client_pid s)[client_n s := unat p], client_n := client_n s + 1\<rparr> else s)) (le32 msg (i + 1))
     else if opc = OP_STATS then Some (Next (i + 1), s)
     else if opc = OP_SHUTDOWN then Some (Shutdown, s)
     else Some (Break, s))"

text \<open>Window operations, keyed by the sender the kernel recorded.\<close>

definition window_op :: "nat \<Rightarrow> bytes \<Rightarrow> nat \<Rightarrow> u8 \<Rightarrow> 'h server \<Rightarrow> (after_op \<times> 'h server) option" where
  "window_op from msg i opc s =
    (if opc = OP_WIN_CREATE then
       Option.bind (rd8 msg (i + 1)) (\<lambda>ident. Option.bind (rect_at msg (i + 2)) (\<lambda>r. Option.bind (le32 msg (i + 10)) (\<lambda>bg.
       Option.bind (rd8 msg (i + 14)) (\<lambda>tl. map_option (\<lambda>title.
         (Next (i + 15 + unat tl), s\<lparr>wins := snd (wm_create from ident r bg title (wins s))\<rparr>)) (slice msg (i + 15) (unat tl))))))
     else if opc = OP_WIN_RAISE then
       map_option (\<lambda>ident. (Next (i + 2), s\<lparr>wins := snd (raise from ident (wins s))\<rparr>)) (rd8 msg (i + 1))
     else if opc = OP_WIN_MOVE then
       Option.bind (be16 msg (i + 2)) (\<lambda>x. Option.bind (be16 msg (i + 4)) (\<lambda>y. map_option (\<lambda>ident.
         (Next (i + 6), s\<lparr>wins := snd (wm_with from ident (move_to x y) (wins s))\<rparr>)) (rd8 msg (i + 1))))
     else if opc = OP_WIN_FILL then
       Option.bind (rect_at msg (i + 2)) (\<lambda>r. Option.bind (le32 msg (i + 10)) (\<lambda>c. map_option (\<lambda>ident.
         (Next (i + 14), s\<lparr>wins := snd (push from ident (Cmd_Fill (rect_x r) (rect_y r) (rect_w r) (rect_h r) c) (wins s))\<rparr>)) (rd8 msg (i + 1))))
     else if opc = OP_WIN_TEXT then
       Option.bind (rd8 msg (i + 11)) (\<lambda>raw. let len = min (unat raw) MAX_TEXT in
       Option.bind (slice msg (i + 12) len) (\<lambda>t. Option.bind (be16 msg (i + 2)) (\<lambda>x. Option.bind (be16 msg (i + 4)) (\<lambda>y.
       Option.bind (le32 msg (i + 6)) (\<lambda>c. Option.bind (rd8 msg (i + 10)) (\<lambda>sc. map_option (\<lambda>ident.
         (Next (i + 12 + unat raw), s\<lparr>wins := snd (push from ident
            (Cmd_Text x y (max (unat sc) 1) c len (overwrite (replicate MAX_TEXT 0) 0 t)) (wins s))\<rparr>)) (rd8 msg (i + 1))))))))
     else if opc = OP_WIN_RESET then
       map_option (\<lambda>ident. (Next (i + 2), s\<lparr>wins := snd (reset from ident (wins s))\<rparr>)) (rd8 msg (i + 1))
     else Some (Break, s))"

text \<open>One round of the loop over a message: the \<open>match\<close> of \<open>run\<close>.\<close>

definition server_op :: "'h world \<Rightarrow> nat \<Rightarrow> nat \<Rightarrow> 'h server \<Rightarrow> (after_op \<times> 'h server) option" where
  "server_op wd from i s = (let msg = msgbuf s in Option.bind (rd8 msg i) (\<lambda>opc.
     if opc = OP_PRESENT \<or> opc = OP_COMPOSE then map_option (\<lambda>(_, s). (Next (i + 1), s)) (compose wd s)
     else if opc = OP_INPUT then
       Option.bind (be16 msg (i + 1)) (\<lambda>x. Option.bind (be16 msg (i + 3)) (\<lambda>y. map_option (\<lambda>down.
         (Next (i + 6), if down \<noteq> 0 then route_tap wd x y s else s)) (rd8 msg (i + 5))))
     else if opc \<in> {OP_WIN_CREATE, OP_WIN_RAISE, OP_WIN_MOVE, OP_WIN_FILL, OP_WIN_TEXT, OP_WIN_RESET} then window_op from msg i opc s
     else if from = KERNEL then kernel_op msg i opc s
     else Some (Break, s)))"

lemma server_op_advances: "server_op wd from i s = Some (Next j, s') \<Longrightarrow> i < j"
  by (auto simp: server_op_def kernel_op_def window_op_def Let_def Option.bind_eq_Some_conv split: if_splits)

function server_loop :: "'h world \<Rightarrow> nat \<Rightarrow> nat \<Rightarrow> nat \<Rightarrow> 'h server \<Rightarrow> (bool \<times> 'h server) option" where
  "server_loop wd from n i s = (if i < n then (case server_op wd from i s of
       None \<Rightarrow> None
     | Some (Next j, s) \<Rightarrow> server_loop wd from n j s
     | Some (Break, s) \<Rightarrow> Some (False, s)
     | Some (Shutdown, s) \<Rightarrow> Some (True, s)) else Some (False, s))"
  by pat_completeness auto

termination
  by (relation "measure (\<lambda>(_, _, n, i, _). n - i)") (auto dest: server_op_advances)

declare server_loop.simps [simp del]

text \<open>One message: into the buffer, through the loop, and the answer to the kernel. \<open>True\<close> ends the server.\<close>

definition server_msg :: "'h world \<Rightarrow> nat \<Rightarrow> bytes \<Rightarrow> 'h server \<Rightarrow> (bool \<times> 'h server) option" where
  "server_msg wd from bs s = (let n = length bs in
     if n = 0 then Some (False, s)
     else case server_loop wd from n 0 (s\<lparr>msgbuf := overwrite (msgbuf s) 0 bs\<rparr>) of
       None \<Rightarrow> None
     | Some (shutdown, s) \<Rightarrow> Some (shutdown,
         if from = KERNEL then snd (server_send wd CAP_REP
           [0, of_nat (gframes s), of_nat (taps_routed (wins s)), of_nat (taps_on_nothing (wins s)), of_nat (rejected (wins s)),
            of_nat (composes (wins s)), of_nat (wm_open (wins s))] s)
         else s))"

text \<open>The start of \<open>run\<close>, once the device is attached.\<close>

definition server_start :: "'h world \<Rightarrow> nat \<Rightarrow> 'h \<Rightarrow> (nat \<Rightarrow> u32) \<Rightarrow> 'h server" where
  "server_start wd dma h pixels =
    (let s = \<lparr>fb = pixels, clip = full_screen, ROOT = replicate ROOT_CAPACITY 0, ROOT_LEN = 0, wins = Wm_new,
       client_pid = replicate MAX_CLIENTS 0, client_n = 0, dma_phys = dma, last_used = 0, avail_idx = 0, gframes = 0,
       gpixels = 0, smallest = 2 ^ 64 - 1, msgbuf = replicate MSG_BUF 0, outbox = [], host = h\<rparr> in
     snd (present_rect wd full_screen (fill 0 0 WIDTH HEIGHT 0xff000000 s)))"

section \<open>What drawing does to the pixels\<close>

definition pixel :: "(nat \<Rightarrow> u32) \<Rightarrow> nat \<Rightarrow> nat \<Rightarrow> u32" where
  "pixel f x y = f (y * WIDTH + x)"

text \<open>
  A function of the server draws an ink when it changes nothing but the frame buffer, and there
  exactly the pixels under the clip that the ink has a colour for. Every index is a pixel
  \<open>y * WIDTH + x\<close> of some row, also the rows past the screen, so this says that nothing outside the
  clip is written.
\<close>

definition fb_draws :: "ink \<Rightarrow> ('h server \<Rightarrow> 'h server) \<Rightarrow> bool" where
  "fb_draws ink g \<longleftrightarrow> (\<forall>s. on_screen (clip s) \<longrightarrow> (\<exists>f. g s = s\<lparr>fb := f\<rparr> \<and> (\<forall>x y. x < WIDTH \<longrightarrow>
     pixel f x y = (if contains (clip s) x y then case ink x y of None \<Rightarrow> pixel (fb s) x y | Some c \<Rightarrow> c else pixel (fb s) x y))))"

lemma fb_drawsI:
  assumes "\<And>s. on_screen (clip s) \<Longrightarrow> g s = s\<lparr>fb := f s\<rparr>"
    and "\<And>s x y. on_screen (clip s) \<Longrightarrow> x < WIDTH \<Longrightarrow>
      pixel (f s) x y = (if contains (clip s) x y then case ink x y of None \<Rightarrow> pixel (fb s) x y | Some c \<Rightarrow> c else pixel (fb s) x y)"
  shows "fb_draws ink g"
  using assms unfolding fb_draws_def by blast

lemma fb_drawsE:
  assumes "fb_draws ink g" and "on_screen (clip s)"
  obtains f where "g s = s\<lparr>fb := f\<rparr>" and "\<And>x y. x < WIDTH \<Longrightarrow>
    pixel f x y = (if contains (clip s) x y then case ink x y of None \<Rightarrow> pixel (fb s) x y | Some c \<Rightarrow> c else pixel (fb s) x y)"
  using assms unfolding fb_draws_def by blast

lemma fb_draws_id: "fb_draws no_ink id"
  by (rule fb_drawsI [of _ fb]) (simp_all add: no_ink_def)

lemma fb_draws_comp:
  fixes g h :: "'h server \<Rightarrow> 'h server"
  assumes "fb_draws a g" and "fb_draws b h"
  shows "fb_draws (over a b) (h \<circ> g)"
  unfolding fb_draws_def
proof (intro allI impI)
  fix s :: "'h server" assume s: "on_screen (clip s)"
  obtain f where f: "g s = s\<lparr>fb := f\<rparr>" "\<And>x y. x < WIDTH \<Longrightarrow>
      pixel f x y = (if contains (clip s) x y then case a x y of None \<Rightarrow> pixel (fb s) x y | Some c \<Rightarrow> c else pixel (fb s) x y)"
    by (rule fb_drawsE [OF assms(1) s]) blast
  have s': "on_screen (clip (s\<lparr>fb := f\<rparr>))" using s by simp
  obtain f' where f': "h (s\<lparr>fb := f\<rparr>) = s\<lparr>fb := f\<rparr>\<lparr>fb := f'\<rparr>" "\<And>x y. x < WIDTH \<Longrightarrow>
      pixel f' x y = (if contains (clip (s\<lparr>fb := f\<rparr>)) x y then case b x y of None \<Rightarrow> pixel (fb (s\<lparr>fb := f\<rparr>)) x y | Some c \<Rightarrow> c else pixel (fb (s\<lparr>fb := f\<rparr>)) x y)"
    by (rule fb_drawsE [OF assms(2) s']) blast
  have "(h \<circ> g) s = s\<lparr>fb := f'\<rparr>" using f(1) f'(1) by simp
  moreover have "pixel f' x y = (if contains (clip s) x y then case over a b x y of None \<Rightarrow> pixel (fb s) x y | Some c \<Rightarrow> c else pixel (fb s) x y)"
    if "x < WIDTH" for x y using f(2) [OF that, of y] f'(2) [OF that, of y] by (simp add: over_def split: option.splits)
  ultimately show "\<exists>f. (h \<circ> g) s = s\<lparr>fb := f\<rparr> \<and> (\<forall>x y. x < WIDTH \<longrightarrow>
     pixel f x y = (if contains (clip s) x y then case over a b x y of None \<Rightarrow> pixel (fb s) x y | Some c \<Rightarrow> c else pixel (fb s) x y))" by blast
qed

text \<open>A shape in one colour.\<close>

definition shape :: "(nat \<Rightarrow> nat \<Rightarrow> bool) \<Rightarrow> u32 \<Rightarrow> ink" where
  "shape S c x y = (if S x y then Some c else None)"

lemma shape_fold:
  assumes "\<And>i. i \<in> set is \<Longrightarrow> fb_draws (shape (S i) c) (G i)"
  shows "fb_draws (shape (\<lambda>x y. \<exists>i\<in>set is. S i x y) c) (fold G is)"
  using assms
proof (induction "is" rule: rev_induct)
  case Nil
  have "shape (\<lambda>x y. \<exists>i\<in>set []. S i x y) c = no_ink" by (simp add: shape_def no_ink_def fun_eq_iff)
  then show ?case using fb_draws_id by (simp add: id_def)
next
  case (snoc i "is")
  have "fb_draws (over (shape (\<lambda>x y. \<exists>i\<in>set is. S i x y) c) (shape (S i) c)) (G i \<circ> fold G is)"
    by (intro fb_draws_comp snoc) (use snoc.prems in auto)
  moreover have "over (shape (\<lambda>x y. \<exists>i\<in>set is. S i x y) c) (shape (S i) c) = shape (\<lambda>x y. \<exists>i\<in>set (is @ [i]). S i x y) c"
    by (auto simp: over_def shape_def fun_eq_iff)
  ultimately show ?case by (simp add: comp_def)
qed

lemma pixel_inj: "x < WIDTH \<Longrightarrow> x' < WIDTH \<Longrightarrow> y * WIDTH + x = y' * WIDTH + x' \<longleftrightarrow> x = x' \<and> y = y'"
proof -
  assume x: "x < WIDTH" "x' < WIDTH"
  have "(y * WIDTH + x) mod WIDTH = x" "(y' * WIDTH + x') mod WIDTH = x'" "(y * WIDTH + x) div WIDTH = y" "(y' * WIDTH + x') div WIDTH = y'"
    using x by (simp_all add: WIDTH_def)
  then show ?thesis by metis
qed

lemma px_draws: "fb_draws (shape (\<lambda>x y. x = a \<and> y = b) c) (px a b c)"
proof (rule fb_drawsI)
  fix s :: "'h server" assume s: "on_screen (clip s)"
  show "px a b c s = s\<lparr>fb := if contains (clip s) a b then (fb s)(b * WIDTH + a := c) else fb s\<rparr>" by (simp add: px_def)
  fix x y assume x: "x < WIDTH"
  show "pixel (if contains (clip s) a b then (fb s)(b * WIDTH + a := c) else fb s) x y =
    (if contains (clip s) x y then case shape (\<lambda>x y. x = a \<and> y = b) c x y of None \<Rightarrow> pixel (fb s) x y | Some c \<Rightarrow> c else pixel (fb s) x y)"
    using x contains_screen [of "clip s" a b] s by (auto simp: pixel_def shape_def pixel_inj)
qed

lemma fold_upd: "fold (\<lambda>i f. f(g i := c)) is f k = (if k \<in> g ` set is then c else f k)"
  by (induction "is" arbitrary: f) auto

lemma fold_rows: "fold (\<lambda>row. fold (\<lambda>col f. f(row * WIDTH + col := c)) cols) rows f k =
    (if \<exists>row\<in>set rows. \<exists>col\<in>set cols. k = row * WIDTH + col then c else f k)"
proof (induction rows arbitrary: f)
  case (Cons row rows)
  show ?case unfolding fold.simps comp_apply Cons.IH by (auto simp: fold_upd)
qed simp

lemma fill_draws: "fb_draws (box_ink a b w h c) (fill a b w h c)"
proof (rule fb_drawsI)
  fix s :: "'h server" assume s: "on_screen (clip s)"
  let ?c = "clip s"
  let ?f = "fold (\<lambda>row. fold (\<lambda>col f. f(row * WIDTH + col := c)) [max a (rect_x ?c)..<min (min (a + w) (rect_x ?c + rect_w ?c)) WIDTH])
     [max b (rect_y ?c)..<min (min (b + h) (rect_y ?c + rect_h ?c)) HEIGHT] (fb s)"
  show "fill a b w h c s = s\<lparr>fb := ?f\<rparr>" by (simp add: fill_def Let_def)
  fix x y assume x: "x < WIDTH"
  have "(\<exists>row\<in>set [max b (rect_y ?c)..<min (min (b + h) (rect_y ?c + rect_h ?c)) HEIGHT].
       \<exists>col\<in>set [max a (rect_x ?c)..<min (min (a + w) (rect_x ?c + rect_w ?c)) WIDTH]. y * WIDTH + x = row * WIDTH + col)
     \<longleftrightarrow> contains ?c x y \<and> in_box a b w h x y"
    using s x by (auto simp: pixel_inj contains_def in_box_def on_screen_def)
  then show "pixel ?f x y = (if contains ?c x y then case box_ink a b w h c x y of None \<Rightarrow> pixel (fb s) x y | Some c \<Rightarrow> c else pixel (fb s) x y)"
    unfolding pixel_def fold_rows box_ink_def by auto
qed

definition glyph_at :: "u8 \<Rightarrow> nat \<Rightarrow> nat \<Rightarrow> nat \<Rightarrow> nat \<Rightarrow> nat \<Rightarrow> bool" where
  "glyph_at ch x y scale qx qy \<longleftrightarrow> (let c = fold_char ch; bits = GLYPHS ! unat (c - FIRST) in FIRST \<le> c \<and> c \<le> LAST
     \<and> (\<exists>row\<in>set [0..<length bits]. \<exists>col\<in>set [0..<8]. (bits ! row) AND drop_bit col 0x80 \<noteq> 0
          \<and> (\<exists>sy\<in>set [0..<scale]. \<exists>sx\<in>set [0..<scale]. qx = x + col * scale + sx \<and> qy = y + row * scale + sy)))"

definition fb_letters :: letters where
  "fb_letters t scale x y qx qy \<longleftrightarrow> (\<exists>i\<in>set [0..<length t]. glyph_at (t ! i) (x + i * 8 * max scale 1) y (max scale 1) qx qy)"

lemma id_shape: "fb_draws (shape (\<lambda>x y. False) c) id"
  using fb_draws_id by (simp add: shape_def [abs_def] no_ink_def [abs_def])

lemma glyph_draws: "fb_draws (shape (glyph_at ch x y scale) c) (glyph ch x y scale c)"
proof -
  let ?c = "fold_char ch" let ?bits = "GLYPHS ! unat (?c - FIRST)"
  let ?S = "\<lambda>row col qx qy. (?bits ! row) AND drop_bit col 0x80 \<noteq> 0
     \<and> (\<exists>sy\<in>set [0..<scale]. \<exists>sx\<in>set [0..<scale]. qx = x + col * scale + sx \<and> qy = y + row * scale + sy)"
  have cell: "fb_draws (shape (?S row col) c) (if (?bits ! row) AND drop_bit col 0x80 \<noteq> 0
       then fold (\<lambda>sy. fold (\<lambda>sx. px (x + col * scale + sx) (y + row * scale + sy) c) [0..<scale]) [0..<scale] else id)" for row col
  proof (cases "(?bits ! row) AND drop_bit col 0x80 \<noteq> 0")
    case True
    have "fb_draws (shape (\<lambda>qx qy. \<exists>sy\<in>set [0..<scale]. \<exists>sx\<in>set [0..<scale]. qx = x + col * scale + sx \<and> qy = y + row * scale + sy) c)
        (fold (\<lambda>sy. fold (\<lambda>sx. px (x + col * scale + sx) (y + row * scale + sy) c) [0..<scale]) [0..<scale])"
      by (intro shape_fold px_draws)
    then show ?thesis using True by simp
  next
    case False
    then show ?thesis using id_shape by simp
  qed
  have all: "fb_draws (shape (\<lambda>qx qy. \<exists>row\<in>set [0..<length ?bits]. \<exists>col\<in>set [0..<8]. ?S row col qx qy) c)
      (fold (\<lambda>row. fold (\<lambda>col. if (?bits ! row) AND drop_bit col 0x80 \<noteq> 0
       then fold (\<lambda>sy. fold (\<lambda>sx. px (x + col * scale + sx) (y + row * scale + sy) c) [0..<scale]) [0..<scale] else id) [0..<8]) [0..<length ?bits])"
    by (intro shape_fold cell)
  show ?thesis
  proof (cases "?c < FIRST \<or> ?c > LAST")
    case True
    then have "glyph_at ch x y scale = (\<lambda>x y. False)" "glyph ch x y scale c = (id :: 'h server \<Rightarrow> 'h server)"
      by (auto simp: glyph_at_def glyph_def fun_eq_iff Let_def)
    then show ?thesis using id_shape by metis
  next
    case False
    have g: "glyph ch x y scale c = (fold (\<lambda>row. fold (\<lambda>col. if (?bits ! row) AND drop_bit col 0x80 \<noteq> 0
       then fold (\<lambda>sy. fold (\<lambda>sx. px (x + col * scale + sx) (y + row * scale + sy) c) [0..<scale]) [0..<scale] else id) [0..<8]) [0..<length ?bits]
         :: 'h server \<Rightarrow> 'h server)"
      using False by (intro ext) (simp only: glyph_def Let_def if_False)
    have "glyph_at ch x y scale = (\<lambda>qx qy. \<exists>row\<in>set [0..<length ?bits]. \<exists>col\<in>set [0..<8]. ?S row col qx qy)"
      using False by (intro ext) (simp only: glyph_at_def Let_def not_less de_Morgan_disj simp_thms)
    then show ?thesis using all unfolding g by simp
  qed
qed

lemma text_draws: "fb_draws (shape (fb_letters t scale x y) c) (draw_text t x y (max scale 1) c)"
proof -
  have "fb_draws (shape (\<lambda>qx qy. \<exists>i\<in>set [0..<length t]. glyph_at (t ! i) (x + i * 8 * max scale 1) y (max scale 1) qx qy) c)
      (fold (\<lambda>i. glyph (t ! i) (x + i * 8 * max scale 1) y (max scale 1) c) [0..<length t])"
    by (intro shape_fold glyph_draws)
  then show ?thesis by (simp add: draw_text_def [abs_def] fb_letters_def [abs_def])
qed

lemma GLYPHS_rows: "length GLYPHS = 64" "list_all (\<lambda>g. length g = 8) GLYPHS"
  by (simp_all add: GLYPHS_def)

lemma glyph_box:
  assumes "glyph_at ch x y scale qx qy"
  shows "in_box x y (8 * scale) (8 * scale) qx qy"
proof -
  let ?c = "fold_char ch" let ?bits = "GLYPHS ! unat (?c - FIRST)"
  obtain row col sy sx where c: "FIRST \<le> ?c" "?c \<le> LAST" and g: "row < length ?bits" "col < 8" "sy < scale" "sx < scale"
    and q: "qx = x + col * scale + sx" "qy = y + row * scale + sy"
    using assms by (auto simp: glyph_at_def Let_def)
  have "unat (?c - FIRST) \<le> 63" using c by (simp add: unat_sub FIRST_def LAST_def word_le_nat_alt)
  then have "?bits \<in> set GLYPHS" using GLYPHS_rows(1) by (intro nth_mem) simp
  then have "row < 8" using g(1) GLYPHS_rows(2) by (auto simp: list_all_iff)
  moreover have "k * scale + j < 8 * scale" if "k < 8" "j < scale" for k j
  proof -
    have "Suc k * scale \<le> 8 * scale" using that by (intro mult_le_mono1) simp
    then show ?thesis using that(2) unfolding mult_Suc by linarith
  qed
  ultimately show ?thesis unfolding in_box_def q using g(2,3,4) by (simp add: add.assoc)
qed

lemma letters_box_fb:
  assumes "fb_letters t scale x y qx qy"
  shows "in_box x y (length t * 8 * max scale 1) (8 * max scale 1) qx qy"
proof -
  let ?n = "max scale 1"
  obtain i where i: "i < length t" "glyph_at (t ! i) (x + i * 8 * ?n) y ?n qx qy" using assms by (auto simp: fb_letters_def)
  have "Suc i * (8 * ?n) \<le> length t * (8 * ?n)" using i(1) by (intro mult_le_mono1) simp
  then show ?thesis using glyph_box [OF i(2)] unfolding in_box_def by (simp add: algebra_simps)
qed

lemma text_ink_shape: "text_ink L x y scale c t = shape (L t scale x y) c"
  by (simp add: text_ink_def shape_def fun_eq_iff)

interpretation fbs: surface Fb fb_draws fb_letters
proof unfold_locales
  show "fb_draws (box_ink x y w h c) (p_fill Fb x y w h c)" for x y w h c by (simp add: Fb_def fill_draws)
  show "fb_draws (text_ink fb_letters x y scale c t) (p_text Fb x y scale c t)" for x y scale c t
    using text_draws [of t scale x y c] by (simp add: Fb_def text_ink_shape)
qed (use fb_draws_id fb_draws_comp letters_box_fb in auto)

section \<open>The background\<close>

text \<open>A whole background command, what it draws, and the rectangle it is kept in.\<close>

definition whole :: "bytes \<Rightarrow> bool" where
  "whole c \<longleftrightarrow> c \<noteq> [] \<and> (c ! 0 = OP_CLEAR \<and> length c = 5 \<or> c ! 0 = OP_RECT \<and> length c = 13
     \<or> c ! 0 = OP_TEXT \<and> 11 \<le> length c \<and> length c = 11 + unat (c ! 10))"

definition w16 :: "bytes \<Rightarrow> nat \<Rightarrow> nat" where
  "w16 c k = unat (c ! k) * 256 + unat (c ! (k + 1))"

definition root_draw :: "bytes \<Rightarrow> 'h server \<Rightarrow> 'h server" where
  "root_draw c = (if c ! 0 = OP_CLEAR then fill 0 0 WIDTH HEIGHT (le_word (subslice c 1 4))
     else if c ! 0 = OP_RECT then fill (w16 c 1) (w16 c 3) (w16 c 5) (w16 c 7) (le_word (subslice c 9 4))
     else draw_text (drop 11 c) (w16 c 1) (w16 c 3) (max (unat (c ! 9)) 1) (le_word (subslice c 5 4)))"

definition root_ink :: "bytes \<Rightarrow> ink" where
  "root_ink c = (if c ! 0 = OP_CLEAR then box_ink 0 0 WIDTH HEIGHT (le_word (subslice c 1 4))
     else if c ! 0 = OP_RECT then box_ink (w16 c 1) (w16 c 3) (w16 c 5) (w16 c 7) (le_word (subslice c 9 4))
     else text_ink fb_letters (w16 c 1) (w16 c 3) (unat (c ! 9)) (le_word (subslice c 5 4)) (drop 11 c))"

lemma root_draws: "fb_draws (root_ink c) (root_draw c)"
  using text_draws [of "drop 11 c"] by (auto simp: root_ink_def root_draw_def fill_draws text_ink_shape)

lemma subslice_nth: "subslice buf i n = c \<Longrightarrow> i + n \<le> length buf \<Longrightarrow> k < n \<Longrightarrow> buf ! (i + k) = c ! k"
  by (auto simp: subslice_def)

lemma subslice_subslice: "a + k \<le> n \<Longrightarrow> subslice (subslice buf i n) a k = subslice buf (i + a) k"
  by (simp add: subslice_def drop_take min.absorb1 add.commute [of i a])

lemma fields_at:
  assumes s: "subslice buf i n = c" and n: "i + n \<le> length buf"
  shows "k < n \<Longrightarrow> rd8 buf (i + k) = Some (c ! k)"
    and "k + 1 < n \<Longrightarrow> be16 buf (i + k) = Some (w16 c k)"
    and "k + 3 < n \<Longrightarrow> le32 buf (i + k) = Some (le_word (subslice c k 4))"
    and "k + j \<le> n \<Longrightarrow> slice buf (i + k) j = Some (subslice c k j)"
    and "k + 7 < n \<Longrightarrow> rect_at buf (i + k) = Some \<lparr>rect_x = w16 c k, rect_y = w16 c (k + 2), rect_w = w16 c (k + 4), rect_h = w16 c (k + 6)\<rparr>"
proof -
  have be: "be16 buf (i + k) = Some (w16 c k)" if "k + 1 < n" for k
    using subslice_nth [OF s n, of k] subslice_nth [OF s n, of "k + 1"] n that by (simp add: be16_def w16_def)
  show "k < n \<Longrightarrow> rd8 buf (i + k) = Some (c ! k)" using subslice_nth [OF s n, of k] n by (simp add: rd8_def)
  show "k + 1 < n \<Longrightarrow> be16 buf (i + k) = Some (w16 c k)" by (rule be)
  show "k + 7 < n \<Longrightarrow> rect_at buf (i + k) = Some \<lparr>rect_x = w16 c k, rect_y = w16 c (k + 2), rect_w = w16 c (k + 4), rect_h = w16 c (k + 6)\<rparr>"
    using be [of k] be [of "k + 2"] be [of "k + 4"] be [of "k + 6"] by (simp add: rect_at_def add.assoc)
  show "k + 3 < n \<Longrightarrow> le32 buf (i + k) = Some (le_word (subslice c k 4))"
    using subslice_subslice [of k 4 n buf i] s n by (simp add: le32_def)
  show "k + j \<le> n \<Longrightarrow> slice buf (i + k) j = Some (subslice c k j)"
    using subslice_subslice [of k j n buf i] s n by (simp add: slice_def)
qed

lemma root_step_whole:
  assumes c: "whole c" and s: "subslice buf i (length c) = c" and n: "i + length c \<le> length buf"
  shows "root_step buf i s = Some (Some (i + length c), root_draw c s)"
proof -
  note F = fields_at [OF s n]
  have r: "rd8 buf i = Some (c ! 0)" using F(1) [of 0] c by (auto simp: whole_def)
  consider "c ! 0 = OP_CLEAR" "length c = 5" | "c ! 0 = OP_RECT" "length c = 13" | "c ! 0 = OP_TEXT" "11 \<le> length c" "length c = 11 + unat (c ! 10)"
    using c by (auto simp: whole_def)
  then show ?thesis
  proof cases
    case 1
    then show ?thesis using r F(3) [of 1] by (simp add: root_step_def root_draw_def)
  next
    case 2
    have "rect_at buf (i + 1) = Some \<lparr>rect_x = w16 c 1, rect_y = w16 c 3, rect_w = w16 c 5, rect_h = w16 c 7\<rparr>"
      using F(5) [of 1] 2 by (simp add: numeral_eq_Suc)
    then show ?thesis using 2 r F(3) [of 9] by (simp add: root_step_def root_draw_def opcodes)
  next
    case 3
    have "subslice c 11 (unat (c ! 10)) = drop 11 c" using 3 by (simp add: subslice_def)
    then show ?thesis using 3 r F(2) [of 1] F(2) [of 3] F(3) [of 5] F(1) [of 9] F(1) [of 10] F(4) [of 11 "unat (c ! 10)"]
      by (simp add: root_step_def root_draw_def opcodes)
  qed
qed

lemma root_loop_whole:
  assumes "list_all whole cs" and "subslice buf i (length (concat cs)) = concat cs" and "i + length (concat cs) = len" and "len \<le> length buf"
  shows "root_loop buf len i s = Some (fold root_draw cs s)"
  using assms
proof (induction cs arbitrary: i s)
  case Nil
  then show ?case by (subst root_loop.simps) simp
next
  case (Cons c cs)
  have w: "whole c" "c \<noteq> []" using Cons.prems(1) by (auto simp: whole_def)
  have sub: "subslice buf i (length c) = c"
  proof -
    have "take (length c) (subslice buf i (length (concat (c # cs)))) = take (length c) (concat (c # cs))" using Cons.prems(2) by simp
    then show ?thesis by (simp add: subslice_def min_def)
  qed
  have rest: "subslice buf (i + length c) (length (concat cs)) = concat cs"
  proof -
    have "drop (length c) (subslice buf i (length (concat (c # cs)))) = drop (length c) (concat (c # cs))" using Cons.prems(2) by simp
    then show ?thesis by (simp add: subslice_def drop_take add.commute)
  qed
  have "root_step buf i s = Some (Some (i + length c), root_draw c s)" by (rule root_step_whole [OF w(1) sub]) (use Cons.prems in simp)
  moreover have "i < len" using Cons.prems(3) w(2) by (cases c) simp_all
  moreover have "root_loop buf len (i + length c) (root_draw c s) = Some (fold root_draw cs (root_draw c s))"
    by (rule Cons.IH) (use Cons.prems rest in auto)
  ultimately show ?case by (subst root_loop.simps) simp
qed

end
