(* ===== verification/Compose.thy ===== *)
theory Compose
  imports Gpudrv
begin

text \<open>
  The display server as a whole: its invariant, the picture its state stands for, that damage
  tracking is exact, whom a message can affect, and what a message of the wrong length does.
\<close>

section \<open>The picture of a state\<close>

definition background :: "bytes list \<Rightarrow> ink" where
  "background cs = fold (\<lambda>c a. over a (root_ink c)) cs no_ink"

definition picture :: "bytes list \<Rightarrow> Wm \<Rightarrow> ink" where
  "picture cs m = over (background cs) (windows_ink fb_letters m)"

text \<open>The invariant: the list \<open>cs\<close> is the retained background, command by command.\<close>

definition display_ok :: "'h server \<Rightarrow> bytes list \<Rightarrow> bool" where
  "display_ok s cs \<longleftrightarrow> length (ROOT s) = ROOT_CAPACITY \<and> ROOT_LEN s = length (concat cs) \<and> take (ROOT_LEN s) (ROOT s) = concat cs
     \<and> list_all whole cs \<and> wm_ok (wins s) \<and> clip s = full_screen \<and> length (msgbuf s) = MSG_BUF
     \<and> length (client_pid s) = MAX_CLIENTS \<and> client_n s \<le> MAX_CLIENTS"

text \<open>A state whose background starts by clearing the screen, as the kernel's does.\<close>

definition cleared :: "'h server \<Rightarrow> bool" where
  "cleared s \<longleftrightarrow> 0 < ROOT_LEN s \<and> ROOT s ! 0 = OP_CLEAR"

text \<open>The reference: everything drawn again, on the whole screen.\<close>

definition redraw :: "'h server \<Rightarrow> 'h server option" where
  "redraw s = map_option (\<lambda>s. fst (paint Fb (wins s) s)) (root_paint (set_clip full_screen s))"

lemma on_screen_full [simp]: "on_screen full_screen" "clamp_to_screen full_screen = full_screen"
  by (simp_all add: on_screen_def full_screen_def clamp_to_screen_def Let_def)

lemma contains_full: "contains full_screen x y \<longleftrightarrow> x < WIDTH \<and> y < HEIGHT"
  by (auto simp: contains_def full_screen_def WIDTH_def)

lemma background_snoc: "background (cs @ [c]) = over (background cs) (root_ink c)"
  by (simp add: background_def)

lemma root_paint_ok:
  assumes ok: "display_ok s cs"
  shows "root_paint (s\<lparr>clip := r\<rparr>) = Some (fold root_draw cs (s\<lparr>clip := r\<rparr>))"
proof -
  have len: "ROOT_LEN s = length (concat cs)" "take (ROOT_LEN s) (ROOT s) = concat cs" "list_all whole cs"
    using ok by (auto simp: display_ok_def)
  have "length (concat cs) \<le> length (ROOT s)" using arg_cong [OF len(2), of length] len(1) by (simp add: min_def split: if_splits)
  show ?thesis unfolding root_paint_def
    by (simp, rule root_loop_whole) (use len \<open>length (concat cs) \<le> length (ROOT s)\<close> in \<open>simp_all add: subslice_def\<close>)
qed

text \<open>Background and windows under a clip: the picture there, and nothing elsewhere.\<close>

lemma background_draws: "fb_draws (background cs) (fold root_draw cs)"
  using fbs.draws_fold [where i = root_ink and g = root_draw and xs = cs, OF root_draws fb_draws_id] by (simp add: background_def comp_def id_def)

lemma background_wins: "on_screen (clip s) \<Longrightarrow> wins (fold root_draw cs s) = wins s"
  by (rule fb_drawsE [OF background_draws [of cs]]) auto

lemma scene_draws:
  "fb_draws (picture cs m) (\<lambda>s. fst (paint Fb m (fold root_draw cs s)))"
proof -
  from fb_draws_comp [OF background_draws fbs.draws_paint, of cs m] show ?thesis by (simp add: picture_def comp_def)
qed

lemma scene_drawn:
  assumes "on_screen r"
  shows "\<exists>f. fst (paint Fb m (fold root_draw cs (s\<lparr>clip := r\<rparr>))) = s\<lparr>clip := r, fb := f\<rparr> \<and> (\<forall>x y. x < WIDTH \<longrightarrow>
    pixel f x y = (if contains r x y then case picture cs m x y of None \<Rightarrow> pixel (fb s) x y | Some c \<Rightarrow> c else pixel (fb s) x y))"
  using scene_draws [of cs m, unfolded fb_draws_def, rule_format, of "s\<lparr>clip := r\<rparr>"] assms by (simp cong: if_cong option.case_cong)

lemma redraw_picture:
  assumes ok: "display_ok s cs"
  obtains t where "redraw s = Some t"
    and "\<And>x y. x < WIDTH \<Longrightarrow> y < HEIGHT \<Longrightarrow> pixel (fb t) x y = (case picture cs (wins s) x y of None \<Rightarrow> pixel (fb s) x y | Some c \<Rightarrow> c)"
proof -
  obtain f where
    f: "fst (paint Fb (wins s) (fold root_draw cs (s\<lparr>clip := full_screen\<rparr>))) = s\<lparr>clip := full_screen, fb := f\<rparr>"
    and px: "\<And>x y. x < WIDTH \<Longrightarrow> pixel f x y = (if contains full_screen x y then case picture cs (wins s) x y of None \<Rightarrow> pixel (fb s) x y | Some c \<Rightarrow> c else pixel (fb s) x y)"
    using scene_drawn [of full_screen "wins s" cs s] by auto
  have w: "wins (fold root_draw cs (s\<lparr>clip := full_screen\<rparr>)) = wins s" using background_wins [of "s\<lparr>clip := full_screen\<rparr>" cs] by simp
  have "redraw s = Some (s\<lparr>clip := full_screen, fb := f\<rparr>)"
    using root_paint_ok [OF ok, of full_screen] f w by (simp add: redraw_def set_clip_def)
  then show ?thesis by (rule that) (use px in \<open>simp add: contains_full\<close>)
qed

lemma submit_keeps:
  assumes "submit wd c s = (b, s')"
  shows "fb s' = fb s \<and> wins s' = wins s \<and> ROOT s' = ROOT s \<and> ROOT_LEN s' = ROOT_LEN s \<and> clip s' = clip s \<and> msgbuf s' = msgbuf s
    \<and> client_pid s' = client_pid s \<and> client_n s' = client_n s \<and> outbox s' = outbox s"
  using assms by (auto simp: submit_def Let_def split: prod.splits option.splits)

lemma present_keeps:
  assumes "present_rect wd r s = (b, s')"
  shows "fb s' = fb s \<and> wins s' = wins s \<and> ROOT s' = ROOT s \<and> ROOT_LEN s' = ROOT_LEN s \<and> clip s' = clip s \<and> msgbuf s' = msgbuf s
    \<and> client_pid s' = client_pid s \<and> client_n s' = client_n s \<and> outbox s' = outbox s"
  using assms by (auto simp: present_rect_def Let_def split: prod.splits if_splits bool.splits dest!: submit_keeps)

lemma compose_picture:
  assumes ok: "display_ok s cs" and d: "rect_w (damage (wins s)) \<noteq> 0" "rect_h (damage (wins s)) \<noteq> 0"
  obtains k s' where "compose wd s = Some (k, s')"
    and "wins s' = (wins s)\<lparr>composes := composes (wins s) + 1, damage := Rect_EMPTY\<rparr>"
    and "ROOT s' = ROOT s" "ROOT_LEN s' = ROOT_LEN s" "clip s' = full_screen" "msgbuf s' = msgbuf s"
      "client_pid s' = client_pid s" "client_n s' = client_n s" "outbox s' = outbox s"
    and "\<And>x y. x < WIDTH \<Longrightarrow> pixel (fb s') x y =
      (if contains (damage (wins s)) x y then case picture cs (wins s) x y of None \<Rightarrow> pixel (fb s) x y | Some c \<Rightarrow> c else pixel (fb s) x y)"
proof -
  let ?d = "damage (wins s)"
  have dmg: "clamp_to_screen ?d = ?d" "on_screen ?d" using ok clamp_idem by (auto simp: display_ok_def wm_ok_def)
  obtain f where
    f: "fst (paint Fb (wins s) (fold root_draw cs (s\<lparr>clip := ?d\<rparr>))) = s\<lparr>clip := ?d, fb := f\<rparr>"
    and px: "\<And>x y. x < WIDTH \<Longrightarrow> pixel f x y = (if contains ?d x y then case picture cs (wins s) x y of None \<Rightarrow> pixel (fb s) x y | Some c \<Rightarrow> c else pixel (fb s) x y)"
    using scene_drawn [OF dmg(2), of "wins s" cs s] by auto
  have w: "wins (fold root_draw cs (s\<lparr>clip := ?d\<rparr>)) = wins s" using background_wins [of "s\<lparr>clip := ?d\<rparr>" cs] dmg by simp
  define s1 where "s1 = s\<lparr>fb := f, wins := (wins s)\<lparr>composes := composes (wins s) + 1\<rparr>, clip := full_screen\<rparr>"
  obtain b s2 where s2: "present_rect wd ?d s1 = (b, s2)" by (cases "present_rect wd ?d s1")
  have keep: "fb s2 = fb s1 \<and> wins s2 = wins s1 \<and> ROOT s2 = ROOT s1 \<and> ROOT_LEN s2 = ROOT_LEN s1 \<and> clip s2 = clip s1 \<and> msgbuf s2 = msgbuf s1
      \<and> client_pid s2 = client_pid s1 \<and> client_n s2 = client_n s1 \<and> outbox s2 = outbox s1"
    using present_keeps [OF s2] by simp
  have p: "paint Fb (wins s) (fold root_draw cs (s\<lparr>clip := ?d\<rparr>)) = (s\<lparr>clip := ?d, fb := f\<rparr>, (wins s)\<lparr>composes := composes (wins s) + 1\<rparr>)"
    using f by (simp add: paint_def)
  have "compose wd s = Some (area ?d * 100 div (WIDTH * HEIGHT), s2\<lparr>wins := (wins s2)\<lparr>damage := Rect_EMPTY\<rparr>\<rparr>)"
    using root_paint_ok [OF ok, of ?d] p w d s2 dmg by (simp add: compose_def Let_def set_clip_def s1_def)
  then show ?thesis by (rule that) (use keep px in \<open>auto simp: s1_def\<close>)
qed

section \<open>The picture changes only where damage is reported\<close>

text \<open>The windows that give a point its colour, in the order of painting.\<close>

definition contributes :: "Wm \<Rightarrow> nat \<Rightarrow> nat \<Rightarrow> nat \<Rightarrow> bool" where
  "contributes m x y i \<longleftrightarrow> i < MAX_WINDOWS \<and> w_used (windows m ! i) \<and> window_ink fb_letters (windows m ! i) x y \<noteq> None"

lemma fold_over_point:
  "fold (\<lambda>i a. over a (ink i)) is a x y = fold (\<lambda>i v. case ink i x y of None \<Rightarrow> v | Some c \<Rightarrow> Some c) is (a x y)"
  by (induction "is" arbitrary: a) (simp_all add: over_def)

lemma fold_over_filter:
  "fold (\<lambda>i a. over a (ink i)) is a x y = fold (\<lambda>i a. over a (ink i)) (filter (\<lambda>i. ink i x y \<noteq> None) is) a x y"
  unfolding fold_over_point
proof (induction "is" arbitrary: a)
  case (Cons i "is")
  show ?case using Cons.IH [of a] Cons.IH [of "over a (ink i)"] by (cases "ink i x y") (simp_all add: over_def)
qed simp

lemma order_at_point:
  assumes "wm_ok m"
  shows "set (filter (\<lambda>i. window_ink fb_letters (windows m ! i) x y \<noteq> None) (paint_order m)) = {i. contributes m x y i}"
    and "distinct (filter (\<lambda>i. window_ink fb_letters (windows m ! i) x y \<noteq> None) (paint_order m))"
    and "sorted (map (\<lambda>i. w_z (windows m ! i)) (filter (\<lambda>i. window_ink fb_letters (windows m ! i) x y \<noteq> None) (paint_order m)))"
  using assms paint_order_distinct [of m] sorted_filter [OF paint_order_sorts(2) [of m]]
  by (auto simp: paint_order_set contributes_def wm_ok_def)

lemma heights_inj:
  assumes "wm_ok m"
  shows "inj_on (\<lambda>i. w_z (windows m ! i)) {i. contributes m x y i}"
  by (rule inj_onI, rule ccontr) (use wm_ok_apart(1) [OF assms] in \<open>auto simp: contributes_def\<close>)

lemma windows_ink_same:
  assumes ok: "wm_ok m" "wm_ok m'"
    and same: "\<And>i. i < MAX_WINDOWS \<Longrightarrow> windows m' ! i = windows m ! i \<or> \<not> contributes m x y i \<and> \<not> contributes m' x y i"
  shows "windows_ink fb_letters m' x y = windows_ink fb_letters m x y"
proof -
  let ?l = "\<lambda>m. filter (\<lambda>i. window_ink fb_letters (windows m ! i) x y \<noteq> None) (paint_order m)"
  have S: "contributes m' x y i \<longleftrightarrow> contributes m x y i" for i using same [of i] by (auto simp: contributes_def)
  have W: "windows m' ! i = windows m ! i" if "contributes m x y i" for i using same [of i] that by (auto simp: contributes_def)
  have z: "map (\<lambda>i. w_z (windows m' ! i)) (?l m') = map (\<lambda>i. w_z (windows m ! i)) (?l m')"
    using order_at_point(1) [OF ok(2)] S W by (intro map_cong) auto
  have inj: "inj_on (\<lambda>i. w_z (windows m ! i)) (set (?l m'))" "inj_on (\<lambda>i. w_z (windows m ! i)) (set (?l m))"
    using heights_inj [OF ok(1), of x y] unfolding order_at_point(1) [OF ok(1)] order_at_point(1) [OF ok(2)] S by simp_all
  have "map (\<lambda>i. w_z (windows m ! i)) (?l m') = map (\<lambda>i. w_z (windows m ! i)) (?l m)"
  proof (rule sorted_distinct_set_unique)
    show "sorted (map (\<lambda>i. w_z (windows m ! i)) (?l m'))" using order_at_point(3) [OF ok(2), of x y] unfolding z .
    show "distinct (map (\<lambda>i. w_z (windows m ! i)) (?l m'))" "distinct (map (\<lambda>i. w_z (windows m ! i)) (?l m))"
      using inj order_at_point(2) ok by (simp_all add: distinct_map)
    show "set (map (\<lambda>i. w_z (windows m ! i)) (?l m')) = set (map (\<lambda>i. w_z (windows m ! i)) (?l m))"
      using order_at_point(1) [OF ok(1), of x y] order_at_point(1) [OF ok(2), of x y] S by simp
  qed (rule order_at_point(3) [OF ok(1)])
  then have l: "?l m' = ?l m"
    by (rule map_inj_on) (use heights_inj [OF ok(1), of x y] S order_at_point(1) [OF ok(1), of x y] order_at_point(1) [OF ok(2), of x y] in simp)
  have "fold (\<lambda>i a. over a (window_ink fb_letters (windows m' ! i))) (?l m) no_ink = fold (\<lambda>i a. over a (window_ink fb_letters (windows m ! i))) (?l m) no_ink"
    using order_at_point(1) [OF ok(1), of x y] W by (intro fold_cong) auto
  then show ?thesis unfolding windows_ink_def
    using fold_over_filter [of "\<lambda>i. window_ink fb_letters (windows m' ! i)" "paint_order m'" no_ink x y]
      fold_over_filter [of "\<lambda>i. window_ink fb_letters (windows m ! i)" "paint_order m" no_ink x y] l by simp
qed

lemma tidy_contributes:
  assumes "wm_ok m" "tidy m" "contributes m x y i"
  shows "contains (w_rect (windows m ! i)) x y"
proof (rule fbs.window_ink_inside)
  have i: "i < length (windows m)" using assms by (auto simp: contributes_def wm_ok_def)
  then show "draws_inside (windows m ! i)" using assms by (auto simp: tidy_def contributes_def)
  show "w_title_len (windows m ! i) \<le> length (w_title (windows m ! i))" using assms i by (auto simp: wm_ok_def window_ok_def)
qed (use assms in \<open>simp add: contributes_def\<close>)

text \<open>
  What an operation on windows may do: change windows, but report the old and the new place of every
  one that changed. Damage never shrinks.
\<close>

definition reported :: "Wm \<Rightarrow> Wm \<Rightarrow> bool" where
  "reported m m' \<longleftrightarrow> (\<forall>x y. contains (damage m) x y \<longrightarrow> contains (damage m') x y)
     \<and> (\<forall>i<MAX_WINDOWS. windows m' ! i = windows m ! i
          \<or> (\<forall>x y. (w_used (windows m ! i) \<and> contains (w_rect (windows m ! i)) x y \<or> contains (w_rect (windows m' ! i)) x y)
               \<and> x < WIDTH \<and> y < HEIGHT \<longrightarrow> contains (damage m') x y))"

lemma reported_refl: "windows m' = windows m \<Longrightarrow> damage m' = damage m \<Longrightarrow> reported m m'"
  by (simp add: reported_def)

lemma picture_same:
  assumes ok: "wm_ok m" "wm_ok m'" and t: "tidy m" "tidy m'" and r: "reported m m'"
    and p: "\<not> contains (damage m') x y" "x < WIDTH" "y < HEIGHT"
  shows "picture cs m' x y = picture cs m x y"
proof -
  have "windows_ink fb_letters m' x y = windows_ink fb_letters m x y"
  proof (rule windows_ink_same [OF ok])
    fix i assume i: "i < MAX_WINDOWS"
    have "windows m' ! i = windows m ! i \<or> \<not> (w_used (windows m ! i) \<and> contains (w_rect (windows m ! i)) x y) \<and> \<not> contains (w_rect (windows m' ! i)) x y"
      using r p i unfolding reported_def by blast
    then show "windows m' ! i = windows m ! i \<or> \<not> contributes m x y i \<and> \<not> contributes m' x y i"
      using tidy_contributes [OF ok(1) t(1), of x y i] tidy_contributes [OF ok(2) t(2), of x y i] unfolding contributes_def by blast
  qed
  then show ?thesis by (simp add: picture_def over_def)
qed

lemma damage_dirty: "contains (damage m) x y \<or> contains r x y \<and> x < WIDTH \<and> y < HEIGHT \<Longrightarrow> contains (damage (dirty r m)) x y"
  unfolding dirty_def by (auto intro!: union_contains simp: contains_clamp)

lemma reported_upd:
  assumes "windows m' = (windows m)[i := w]" and "i < length (windows m)"
    and "\<And>x y. contains (damage m) x y \<or> (w_used (windows m ! i) \<and> contains (w_rect (windows m ! i)) x y \<or> contains (w_rect w) x y) \<and> x < WIDTH \<and> y < HEIGHT
      \<Longrightarrow> contains (damage m') x y"
  shows "reported m m'"
  unfolding reported_def
proof (intro conjI allI impI)
  fix x y assume "contains (damage m) x y"
  then show "contains (damage m') x y" using assms(3) by blast
next
  fix j
  show "windows m' ! j = windows m ! j \<or> (\<forall>x y. (w_used (windows m ! j) \<and> contains (w_rect (windows m ! j)) x y \<or> contains (w_rect (windows m' ! j)) x y)
      \<and> x < WIDTH \<and> y < HEIGHT \<longrightarrow> contains (damage m') x y)"
  proof (cases "j = i")
    case True
    then have "windows m' ! j = w" using assms(1,2) by simp
    then show ?thesis using assms(3) True by blast
  qed (use assms(1) in simp)
qed

lemma with_reported:
  assumes ok: "wm_ok m"
  shows "reported m (snd (wm_with p k f (m\<lparr>next_z := n\<rparr>)))"
proof (cases "wm_find p k m")
  case None
  then show ?thesis by (simp add: wm_with_def wm_find_def reported_refl)
next
  case (Some i)
  have len: "i < length (windows m)" using wm_find_Some(1) [OF ok Some] ok by (simp add: wm_ok_def)
  let ?m = "m\<lparr>next_z := n, windows := (windows m)[i := f (windows m ! i)]\<rparr>"
  have e: "snd (wm_with p k f (m\<lparr>next_z := n\<rparr>)) = dirty (w_rect (f (windows m ! i))) (dirty (w_rect (windows m ! i)) ?m)"
    using Some by (simp add: wm_with_def wm_find_def Let_def)
  have d: "damage m = damage ?m" by simp
  show ?thesis unfolding e
  proof (rule reported_upd [OF _ len])
    show "windows (dirty (w_rect (f (windows m ! i))) (dirty (w_rect (windows m ! i)) ?m)) = (windows m)[i := f (windows m ! i)]" by simp
  qed (unfold d, blast intro: damage_dirty)
qed

lemma create_reported:
  "reported m (snd (wm_create p k rect bg title m))"
proof (cases "wm_find p k m \<noteq> None \<or> position (\<lambda>w. \<not> w_used w) (windows m) = None")
  case True
  then show ?thesis by (auto simp: wm_create_def intro: reported_refl)
next
  case False
  then obtain i where i: "position (\<lambda>w. \<not> w_used w) (windows m) = Some i" "wm_find p k m = None" by auto
  have len: "i < length (windows m)" "\<not> w_used (windows m ! i)" using position_Some [OF i(1)] by auto
  define w where "w = BLANK\<lparr>w_used := True, w_owner := p, w_id := k, w_rect := clamp_to_screen rect, w_bg := bg, w_z := next_z m,
       w_title_len := min (length title) TITLE_LEN, w_title := overwrite (w_title BLANK) 0 (take (min (length title) TITLE_LEN) title)\<rparr>"
  let ?m = "m\<lparr>windows := (windows m)[i := w], next_z := next_z m + 1\<rparr>"
  have e: "snd (wm_create p k rect bg title m) = dirty (w_rect w) ?m"
    using i by (simp add: wm_create_def w_def Let_def)
  have d: "damage m = damage ?m" by simp
  show ?thesis unfolding e
  proof (rule reported_upd [OF _ len(1)])
    show "windows (dirty (w_rect w) ?m) = (windows m)[i := w]" by simp
  qed (unfold d, use len(2) in \<open>blast intro: damage_dirty\<close>)
qed

section \<open>Every operation keeps the invariant\<close>

text \<open>An operation that touches only the windows, and reports what it changed.\<close>

definition windows_only :: "nat \<Rightarrow> 'h server \<Rightarrow> 'h server \<Rightarrow> bool" where
  "windows_only p s s' \<longleftrightarrow> fb s' = fb s \<and> ROOT s' = ROOT s \<and> ROOT_LEN s' = ROOT_LEN s \<and> clip s' = clip s \<and> msgbuf s' = msgbuf s
     \<and> client_pid s' = client_pid s \<and> client_n s' = client_n s
     \<and> (wm_ok (wins s) \<longrightarrow> wm_ok (wins s') \<and> reported (wins s) (wins s')) \<and> others_kept p (wins s) (wins s')"

lemma windows_onlyI:
  assumes "wm_ok (wins s) \<Longrightarrow> wm_ok m \<and> reported (wins s) m" and "others_kept p (wins s) m"
  shows "windows_only p s (s\<lparr>wins := m\<rparr>)"
  using assms by (simp add: windows_only_def)

lemma windows_only_refl: "windows_only p s s"
  by (simp add: windows_only_def reported_refl others_kept_refl)

lemma wm_with_only:
  assumes "\<And>w. window_ok w \<Longrightarrow> window_ok (f w)" and "\<And>w. w_used (f w) = w_used w \<and> w_owner (f w) = w_owner w \<and> w_id (f w) = w_id w \<and> w_z (f w) = w_z w"
  shows "windows_only p s (s\<lparr>wins := snd (wm_with p k f (wins s))\<rparr>)"
proof (rule windows_onlyI)
  have m: "(wins s)\<lparr>next_z := next_z (wins s)\<rparr> = wins s" by simp
  assume ok: "wm_ok (wins s)"
  show "wm_ok (snd (wm_with p k f (wins s))) \<and> reported (wins s) (snd (wm_with p k f (wins s)))"
    using with_ok [OF ok, of f "next_z (wins s)" p k] with_reported [OF ok, of p k f "next_z (wins s)"] assms
    unfolding m keeps_key_def by simp
qed (rule with_others, simp add: assms(2))

lemma move_only: "windows_only p s (s\<lparr>wins := snd (wm_with p k (move_to x y) (wins s))\<rparr>)"
  by (rule wm_with_only) (simp_all add: move_to_def window_ok_def)

lemma push_only: "windows_only p s (s\<lparr>wins := snd (push p k c (wins s))\<rparr>)"
  unfolding push_def by (rule wm_with_only) (auto simp: window_ok_def)

lemma reset_only: "windows_only p s (s\<lparr>wins := snd (reset p k (wins s))\<rparr>)"
  unfolding reset_def by (rule wm_with_only) (auto simp: window_ok_def)

lemma raise_only: "windows_only p s (s\<lparr>wins := snd (raise p k (wins s))\<rparr>)"
  by (rule windows_onlyI) (simp_all add: push_raise_reset_ok(1) push_raise_reset_others(1), simp add: raise_def Let_def with_reported)

lemma create_only: "windows_only p s (s\<lparr>wins := snd (wm_create p k r bg t (wins s))\<rparr>)"
  by (rule windows_onlyI) (simp_all add: create_ok create_reported create_others)

lemma window_op_only:
  assumes "window_op p msg i opc s = Some (r, s')"
  shows "windows_only p s s'" and "outbox s' = outbox s"
  using assms by (auto simp: window_op_def Let_def Option.bind_eq_Some_conv windows_only_refl create_only raise_only move_only push_only reset_only split: if_splits)

lemma route_tap_only: "windows_only p s (route_tap wd x y s)"
proof -
  have "windows_only p s (s\<lparr>outbox := b, wins := m\<rparr>)" if "windows m = windows (wins s)" "damage m = damage (wins s)" "next_z m = next_z (wins s)" for m b
    using that by (auto simp: windows_only_def reported_refl others_kept_refl wm_ok_def)
  from this [of "wins s" "outbox s"] this [of _ "outbox s"] this show ?thesis
    by (auto simp: route_tap_def server_send_def split: option.splits prod.splits bool.splits if_splits)
qed

text \<open>The background grows by whole commands, or not at all when it is full.\<close>

lemma append_ok:
  assumes ok: "display_ok s cs" and b: "whole b"
  shows "display_ok (root_append b s) (if ROOT_LEN s + length b > ROOT_CAPACITY then cs else cs @ [b])"
proof (cases "ROOT_LEN s + length b > ROOT_CAPACITY")
  case False
  have len: "ROOT_LEN s \<le> length (ROOT s)" "take (ROOT_LEN s) (ROOT s) = concat cs" "length (ROOT s) = ROOT_CAPACITY" "ROOT_LEN s = length (concat cs)"
    using ok False by (auto simp: display_ok_def)
  have "take (ROOT_LEN s + length b) (overwrite (ROOT s) (ROOT_LEN s) b) = concat cs @ b"
    using len False by (simp add: overwrite_def)
  moreover have "length (overwrite (ROOT s) (ROOT_LEN s) b) = ROOT_CAPACITY" using len False by (simp add: length_overwrite)
  ultimately show ?thesis using ok b False by (simp add: root_append_def display_ok_def)
qed (use ok in \<open>simp add: root_append_def\<close>)

lemma root_append_simps [simp]:
  "fb (root_append b s) = fb s" "wins (root_append b s) = wins s" "outbox (root_append b s) = outbox s" "client_pid (root_append b s) = client_pid s"
  "client_n (root_append b s) = client_n s"
  by (simp_all add: root_append_def)

lemma display_ok_wins: "display_ok s cs \<Longrightarrow> wm_ok m \<Longrightarrow> display_ok (s\<lparr>wins := m\<rparr>) cs"
  by (auto simp: display_ok_def)

lemma dirty_all_ok: "wm_ok m \<Longrightarrow> wm_ok (dirty_all m)"
  by (simp add: wm_ok_def dirty_all_def on_screen_def)

text \<open>A background command is drawn inside the rectangle reported for it.\<close>

lemma root_ink_rect:
  assumes "root_ink b x y \<noteq> None" and "b ! 0 = OP_RECT"
  shows "contains \<lparr>rect_x = w16 b 1, rect_y = w16 b 3, rect_w = w16 b 5, rect_h = w16 b 7\<rparr> x y"
  using assms by (auto simp: root_ink_def opcodes box_ink_def in_box_def contains_def split: if_splits)

lemma root_ink_text:
  assumes "root_ink b x y \<noteq> None" and "b ! 0 = OP_TEXT" and "length b = 11 + n"
  shows "contains \<lparr>rect_x = w16 b 1, rect_y = w16 b 3, rect_w = n * 8 * max (unat (b ! 9)) 1, rect_h = 8 * max (unat (b ! 9)) 1\<rparr> x y"
proof -
  have "fb_letters (drop 11 b) (unat (b ! 9)) (w16 b 1) (w16 b 3) x y"
    using assms(1,2) by (auto simp: root_ink_def opcodes text_ink_def split: if_splits)
  from letters_box_fb [OF this] show ?thesis using assms(3) by (cases n) (auto simp: in_box_def contains_def)
qed

text \<open>The three background operations: the new background, and the damage that covers its change.\<close>

definition background_step :: "'h server \<Rightarrow> 'h server \<Rightarrow> bytes list \<Rightarrow> bytes list \<Rightarrow> bool" where
  "background_step s s' cs cs' \<longleftrightarrow> fb s' = fb s \<and> windows (wins s') = windows (wins s) \<and> display_ok s' cs' \<and> outbox s' = outbox s
     \<and> ((\<forall>x y. x < WIDTH \<and> y < HEIGHT \<longrightarrow> contains (damage (wins s')) x y)
        \<or> reported (wins s) (wins s') \<and> (cs' = cs \<or> (\<exists>b. cs' = cs @ [b] \<and> (\<forall>x y. root_ink b x y \<noteq> None \<and> x < WIDTH \<and> y < HEIGHT \<longrightarrow> contains (damage (wins s')) x y))))"

lemma append_step:
  assumes ok: "display_ok s cs" and b: "whole b" and r: "\<And>x y. root_ink b x y \<noteq> None \<Longrightarrow> contains r x y"
  shows "\<exists>cs'. background_step s ((root_append b s)\<lparr>wins := dirty r (wins s)\<rparr>) cs cs'"
proof -
  have "wm_ok (dirty r (wins s))" using ok dirty_ok by (auto simp: display_ok_def)
  then have "display_ok ((root_append b s)\<lparr>wins := dirty r (wins s)\<rparr>) (if ROOT_LEN s + length b > ROOT_CAPACITY then cs else cs @ [b])"
    by (rule display_ok_wins [OF append_ok [OF ok b]])
  moreover have "reported (wins s) (dirty r (wins s))" by (simp add: reported_def) (blast intro: damage_dirty)
  moreover have "contains (damage (dirty r (wins s))) x y" if "root_ink b x y \<noteq> None" "x < WIDTH" "y < HEIGHT" for x y
    using that r by (blast intro: damage_dirty)
  ultimately show ?thesis unfolding background_step_def
    by (intro exI [of _ "if ROOT_LEN s + length b > ROOT_CAPACITY then cs else cs @ [b]"]) auto
qed

lemma clear_step:
  assumes ok: "display_ok s cs" and b: "whole b" "length b = 5"
  shows "background_step s ((root_append b (root_reset s))\<lparr>wins := dirty_all (wins s)\<rparr>) cs [b]"
proof -
  have "display_ok (root_reset s) []" using ok by (simp add: display_ok_def root_reset_def)
  from append_ok [OF this b(1)] have "display_ok (root_append b (root_reset s)) [b]" using b(2) by (simp add: root_reset_def ROOT_CAPACITY_def)
  moreover have "wm_ok (dirty_all (wins s))" using ok dirty_all_ok by (auto simp: display_ok_def)
  ultimately have "display_ok ((root_append b (root_reset s))\<lparr>wins := dirty_all (wins s)\<rparr>) [b]" by (rule display_ok_wins)
  then show ?thesis by (auto simp: background_step_def root_reset_def dirty_all_def contains_def)
qed

lemma slice_Some: "slice b i n = Some c \<Longrightarrow> subslice b i n = c \<and> i + n \<le> length b \<and> length c = n"
  by (auto simp: slice_def split: if_splits)

definition same_picture :: "'h server \<Rightarrow> 'h server \<Rightarrow> bool" where
  "same_picture s s' \<longleftrightarrow> fb s' = fb s \<and> wins s' = wins s \<and> ROOT s' = ROOT s \<and> ROOT_LEN s' = ROOT_LEN s \<and> outbox s' = outbox s"

lemma kernel_op_step:
  assumes ok: "display_ok s cs" and op: "kernel_op msg i opc s = Some (r, s')" and rd: "rd8 msg i = Some opc"
  shows "(\<exists>cs'. background_step s s' cs cs') \<or> same_picture s s' \<and> display_ok s' cs"
proof -
  have first: "b ! 0 = opc" if "slice msg i n = Some b" "0 < n" for b n
    using slice_Some [OF that(1)] fields_at(1) [of msg i n b 0] rd that(2) by auto
  consider "opc = OP_CLEAR" | "opc = OP_RECT" | "opc = OP_TEXT" | "opc \<noteq> OP_CLEAR" "opc \<noteq> OP_RECT" "opc \<noteq> OP_TEXT" by blast
  then show ?thesis
  proof cases
    case 1
    then obtain b where b: "slice msg i 5 = Some b" "s' = (root_append b (root_reset s))\<lparr>wins := dirty_all (wins s)\<rparr>"
      using op by (auto simp: kernel_op_def Let_def root_reset_def)
    have "whole b" "length b = 5" using first [OF b(1)] slice_Some [OF b(1)] 1 by (auto simp: whole_def)
    from clear_step [OF ok this] show ?thesis using b(2) by blast
  next
    case 2
    then obtain b q where b: "slice msg i 13 = Some b" "rect_at msg (i + 1) = Some q" "s' = (root_append b s)\<lparr>wins := dirty q (wins s)\<rparr>"
      using op by (auto simp: kernel_op_def Let_def Option.bind_eq_Some_conv opcodes)
    have w: "whole b" "b ! 0 = OP_RECT" using first [OF b(1)] slice_Some [OF b(1)] 2 by (auto simp: whole_def)
    have "q = \<lparr>rect_x = w16 b 1, rect_y = w16 b 3, rect_w = w16 b 5, rect_h = w16 b 7\<rparr>"
      using fields_at(5) [of msg i 13 b 1] slice_Some [OF b(1)] b(2) by (simp add: numeral_eq_Suc)
    then have "contains q x y" if "root_ink b x y \<noteq> None" for x y using root_ink_rect [OF that w(2)] by simp
    from append_step [OF ok w(1) this] show ?thesis using b(3) by blast
  next
    case 3
    then obtain b len sc x y where b: "rd8 msg (i + 10) = Some len" "slice msg i (11 + unat len) = Some b" "rd8 msg (i + 9) = Some sc"
      "be16 msg (i + 1) = Some x" "be16 msg (i + 3) = Some y"
      "s' = (root_append b s)\<lparr>wins := dirty \<lparr>rect_x = x, rect_y = y, rect_w = unat len * 8 * max (unat sc) 1, rect_h = 8 * max (unat sc) 1\<rparr> (wins s)\<rparr>"
      using op by (auto simp: kernel_op_def Let_def Option.bind_eq_Some_conv opcodes)
    note sl = slice_Some [OF b(2)]
    note F = fields_at [of msg i "11 + unat len" b, OF conjunct1 [OF sl] conjunct1 [OF conjunct2 [OF sl]]]
    have v: "b ! 10 = len" "b ! 9 = sc" "x = w16 b 1" "y = w16 b 3"
      using F(1) [of 10] F(1) [of 9] F(2) [of 1] F(2) [of 3] b by auto
    have w: "whole b" "b ! 0 = OP_TEXT" using first [OF b(2)] sl 3 v(1) by (auto simp: whole_def)
    have "contains \<lparr>rect_x = x, rect_y = y, rect_w = unat len * 8 * max (unat sc) 1, rect_h = 8 * max (unat sc) 1\<rparr> qx qy"
      if "root_ink b qx qy \<noteq> None" for qx qy
      using root_ink_text [OF that w(2)] sl v by simp
    from append_step [OF ok w(1) this] show ?thesis using b(6) by blast
  next
    case 4
    then show ?thesis using op ok
      by (auto simp: kernel_op_def same_picture_def display_ok_def split: if_splits)
  qed
qed

text \<open>What is on the screen, where it is not marked damaged, is the picture.\<close>

definition fresh :: "'h server \<Rightarrow> bytes list \<Rightarrow> bool" where
  "fresh s cs \<longleftrightarrow> (cleared s \<longrightarrow> (\<forall>x y. x < WIDTH \<longrightarrow> y < HEIGHT \<longrightarrow> \<not> contains (damage (wins s)) x y \<longrightarrow>
     picture cs (wins s) x y = Some (pixel (fb s) x y)))"

lemma cleared_iff:
  assumes "display_ok s cs"
  shows "cleared s \<longleftrightarrow> (\<exists>c cs'. cs = c # cs' \<and> c ! 0 = OP_CLEAR)"
proof (cases cs)
  case (Cons c cs')
  have c: "c \<noteq> []" using assms Cons by (auto simp: display_ok_def whole_def)
  have t: "take (ROOT_LEN s) (ROOT s) = concat cs" "0 < ROOT_LEN s" using assms Cons c by (auto simp: display_ok_def)
  have "ROOT s ! 0 = concat cs ! 0" using nth_take [OF t(2), of "ROOT s"] t(1) by simp
  moreover have "concat cs ! 0 = c ! 0" using Cons c by (simp add: nth_append)
  ultimately show ?thesis using t(2) Cons by (simp add: cleared_def)
qed (use assms in \<open>simp add: cleared_def display_ok_def\<close>)

lemma picture_total:
  assumes "display_ok s cs" "cleared s" "x < WIDTH" "y < HEIGHT"
  shows "picture cs m x y \<noteq> None"
proof -
  obtain c cs' where c: "cs = c # cs'" "c ! 0 = OP_CLEAR" using cleared_iff [OF assms(1)] assms(2) by blast
  have "root_ink c x y \<noteq> None" using c(2) assms(3,4) by (simp add: root_ink_def box_ink_def in_box_def)
  then have "background cs x y \<noteq> None" unfolding background_def c(1) fbs.fold_over_None by auto
  then show ?thesis by (auto simp: picture_def over_def split: option.splits)
qed

lemma fresh_background:
  assumes ok: "display_ok s cs" and t: "tidy (wins s)" and f: "fresh s cs" and b: "background_step s s' cs cs'"
  shows "fresh s' cs'"
proof (cases "\<forall>x y. x < WIDTH \<and> y < HEIGHT \<longrightarrow> contains (damage (wins s')) x y")
  case False
  then have r: "reported (wins s) (wins s')" and cs: "cs' = cs \<or> (\<exists>b. cs' = cs @ [b] \<and> (\<forall>x y. root_ink b x y \<noteq> None \<and> x < WIDTH \<and> y < HEIGHT \<longrightarrow> contains (damage (wins s')) x y))"
    and ok': "display_ok s' cs'" "fb s' = fb s" "windows (wins s') = windows (wins s)"
    using b unfolding background_step_def by blast+
  show ?thesis unfolding fresh_def
  proof (intro impI allI)
    fix x y assume c: "cleared s'" and p: "x < WIDTH" "y < HEIGHT" "\<not> contains (damage (wins s')) x y"
    have pic: "picture cs' (wins s') x y = picture cs (wins s') x y"
      using cs p by (auto simp: picture_def background_snoc over_def split: option.splits)
    have "tidy (wins s')" using t ok'(3) by (simp add: tidy_def)
    then have same: "picture cs (wins s') x y = picture cs (wins s) x y"
      using picture_same [OF _ _ t _ r p(3,1,2)] ok ok'(1) by (simp add: display_ok_def)
    show "picture cs' (wins s') x y = Some (pixel (fb s') x y)"
    proof (cases "cleared s")
      case True
      moreover have "\<not> contains (damage (wins s)) x y" using r p unfolding reported_def by blast
      ultimately show ?thesis using f p pic same ok'(2) by (simp add: fresh_def)
    next
      case False
      then obtain b' where "cs' = [b']" "root_ink b' x y = None"
        using cs p c cleared_iff [OF ok] cleared_iff [OF ok'(1)] by (cases cs) auto
      then show ?thesis using picture_total [OF ok'(1) c p(1,2), of "wins s'"] cleared_iff [OF ok'(1)] c p
        by (auto simp: root_ink_def box_ink_def in_box_def)
    qed
  qed
qed (simp add: fresh_def)

lemma windows_only_ok: "display_ok s cs \<Longrightarrow> windows_only p s s' \<Longrightarrow> display_ok s' cs"
  by (auto simp: display_ok_def windows_only_def)

lemma fresh_windows:
  assumes ok: "display_ok s cs" and t: "tidy (wins s)" "tidy (wins s')" and f: "fresh s cs" and w: "windows_only p s s'"
  shows "fresh s' cs"
  unfolding fresh_def
proof (intro impI allI)
  have o: "wm_ok (wins s)" "wm_ok (wins s')" and r: "reported (wins s) (wins s')" and keep: "fb s' = fb s" "ROOT s' = ROOT s" "ROOT_LEN s' = ROOT_LEN s"
    using ok w by (auto simp: display_ok_def windows_only_def)
  fix x y assume c: "cleared s'" and p: "x < WIDTH" "y < HEIGHT" "\<not> contains (damage (wins s')) x y"
  have "\<not> contains (damage (wins s)) x y" using r p(3) unfolding reported_def by blast
  then have "picture cs (wins s) x y = Some (pixel (fb s) x y)" using f c keep p by (simp add: fresh_def cleared_def)
  then show "picture cs (wins s') x y = Some (pixel (fb s') x y)" using picture_same [OF o t r p(3,1,2)] keep by simp
qed

lemma picture_counters: "windows m' = windows m \<Longrightarrow> picture cs m' = picture cs m"
  by (simp add: picture_def windows_ink_def paint_order_def)

text \<open>Compositing: it never fails, and leaves a fresh screen with no damage.\<close>

lemma compose_ok:
  assumes ok: "display_ok s cs"
  obtains k s' where "compose wd s = Some (k, s')" and "display_ok s' cs" and "windows (wins s') = windows (wins s)"
    and "ROOT s' = ROOT s" "ROOT_LEN s' = ROOT_LEN s" "outbox s' = outbox s" "client_pid s' = client_pid s" "client_n s' = client_n s" "msgbuf s' = msgbuf s"
    and "fresh s cs \<Longrightarrow> fresh s' cs" and "\<And>x y. \<not> contains (damage (wins s')) x y"
    and "\<And>x y. x < WIDTH \<Longrightarrow> HEIGHT \<le> y \<Longrightarrow> pixel (fb s') x y = pixel (fb s) x y"
proof (cases "rect_w (damage (wins s)) = 0 \<or> rect_h (damage (wins s)) = 0")
  case True
  have "clamp_to_screen (damage (wins s)) = damage (wins s)" using ok clamp_idem by (auto simp: display_ok_def wm_ok_def)
  then have c: "compose wd s = Some (0, s)" using True by (simp add: compose_def)
  show ?thesis by (rule that [OF c ok]) (use True in \<open>auto simp: contains_def\<close>)
next
  case False
  then have d: "rect_w (damage (wins s)) \<noteq> 0" "rect_h (damage (wins s)) \<noteq> 0" by auto
  obtain k s' where c: "compose wd s = Some (k, s')"
    and w: "wins s' = (wins s)\<lparr>composes := composes (wins s) + 1, damage := Rect_EMPTY\<rparr>"
    and keep: "ROOT s' = ROOT s" "ROOT_LEN s' = ROOT_LEN s" "clip s' = full_screen" "msgbuf s' = msgbuf s" "client_pid s' = client_pid s" "client_n s' = client_n s" "outbox s' = outbox s"
    and px: "\<And>x y. x < WIDTH \<Longrightarrow> pixel (fb s') x y =
      (if contains (damage (wins s)) x y then case picture cs (wins s) x y of None \<Rightarrow> pixel (fb s) x y | Some c \<Rightarrow> c else pixel (fb s) x y)"
    by (rule compose_picture [OF ok d]) blast
  have wo: "wm_ok (wins s')" using ok w by (auto simp: display_ok_def wm_ok_def on_screen_def Rect_EMPTY_def)
  have ok': "display_ok s' cs" using ok wo keep by (auto simp: display_ok_def)
  have pic: "picture cs (wins s') = picture cs (wins s)" using w by (intro picture_counters) simp
  have "fresh s' cs" if f: "fresh s cs" unfolding fresh_def
  proof (intro impI allI)
    fix x y assume x: "cleared s'" "x < WIDTH" "y < HEIGHT"
    have "picture cs (wins s) x y \<noteq> None" by (rule picture_total [OF ok']) (use x in auto)
    then show "picture cs (wins s') x y = Some (pixel (fb s') x y)"
      using px [OF x(2), of y] f x keep pic by (auto simp: fresh_def cleared_def)
  qed
  moreover have "pixel (fb s') x y = pixel (fb s) x y" if "x < WIDTH" "HEIGHT \<le> y" for x y
    using px [OF that(1), of y] that contains_screen [of "damage (wins s)" x y] ok by (auto simp: display_ok_def wm_ok_def)
  ultimately show ?thesis using that [OF c ok'] w keep by (simp add: contains_def Rect_EMPTY_def)
qed

text \<open>One operation of a message, whoever sent it.\<close>

lemma server_op_cases:
  assumes op: "server_op wd p i s = Some (r, s')"
  shows "(\<exists>k. compose wd s = Some (k, s')) \<or> windows_only p s s' \<or> p = KERNEL \<and> (\<exists>opc. rd8 (msgbuf s) i = Some opc \<and> kernel_op (msgbuf s) i opc s = Some (r, s'))"
proof -
  obtain opc where opc: "rd8 (msgbuf s) i = Some opc" using op by (auto simp: server_op_def Let_def Option.bind_eq_Some_conv)
  consider "opc = OP_PRESENT \<or> opc = OP_COMPOSE" | "opc = OP_INPUT"
    | "opc \<in> {OP_WIN_CREATE, OP_WIN_RAISE, OP_WIN_MOVE, OP_WIN_FILL, OP_WIN_TEXT, OP_WIN_RESET}"
    | "opc \<notin> {OP_PRESENT, OP_COMPOSE, OP_INPUT, OP_WIN_CREATE, OP_WIN_RAISE, OP_WIN_MOVE, OP_WIN_FILL, OP_WIN_TEXT, OP_WIN_RESET}" by blast
  then show ?thesis
  proof cases
    case 1
    then show ?thesis using op opc by (auto simp: server_op_def Let_def)
  next
    case 2
    then show ?thesis using op opc by (auto simp: server_op_def Let_def Option.bind_eq_Some_conv opcodes windows_only_refl route_tap_only split: if_splits)
  next
    case 3
    then have "\<not> (opc = OP_PRESENT \<or> opc = OP_COMPOSE)" "opc \<noteq> OP_INPUT" by (auto simp: opcodes)
    then have "window_op p (msgbuf s) i opc s = Some (r, s')" using op opc 3 by (simp only: server_op_def Let_def Option.bind.simps if_False if_True)
    then show ?thesis using window_op_only(1) by blast
  next
    case 4
    then show ?thesis using op opc by (auto simp: server_op_def Let_def windows_only_refl split: if_splits)
  qed
qed

lemma server_op_ok:
  assumes ok: "display_ok s cs" and op: "server_op wd p i s = Some (r, s')"
  shows "\<exists>cs'. display_ok s' cs' \<and> (fresh s cs \<and> tidy (wins s) \<and> tidy (wins s') \<longrightarrow> fresh s' cs')"
  using server_op_cases [OF op]
proof (elim disjE exE conjE)
  fix k assume c: "compose wd s = Some (k, s')"
  show ?thesis by (rule compose_ok [OF ok, of wd]) (use c in auto)
next
  assume w: "windows_only p s s'"
  show ?thesis using windows_only_ok [OF ok w] fresh_windows [OF ok _ _ _ w] by blast
next
  fix opc assume k: "rd8 (msgbuf s) i = Some opc" "kernel_op (msgbuf s) i opc s = Some (r, s')"
  have "fresh s' cs" if "same_picture s s'" "fresh s cs" using that by (simp add: fresh_def same_picture_def cleared_def)
  then show ?thesis using kernel_op_step [OF ok k(2,1)] fresh_background [OF ok] by (auto simp: background_step_def)
qed

section \<open>Histories of the server\<close>

lemma start_ok: "display_ok (server_start wd dma h pixels) []" "\<not> cleared (server_start wd dma h pixels)" "tidy (wins (server_start wd dma h pixels))"
proof -
  define s where "s = \<lparr>fb = pixels, clip = full_screen, ROOT = replicate ROOT_CAPACITY 0, ROOT_LEN = 0, wins = Wm_new,
       client_pid = replicate MAX_CLIENTS 0, client_n = 0, dma_phys = dma, last_used = 0, avail_idx = 0, gframes = 0,
       gpixels = 0, smallest = 2 ^ 64 - 1, msgbuf = replicate MSG_BUF 0, outbox = [], host = h\<rparr>"
  obtain b t where t: "present_rect wd full_screen (fill 0 0 WIDTH HEIGHT 0xff000000 s) = (b, t)" by fastforce
  have "t = server_start wd dma h pixels" using t by (simp add: server_start_def s_def Let_def)
  moreover have "wins t = Wm_new \<and> ROOT t = replicate ROOT_CAPACITY 0 \<and> ROOT_LEN t = 0 \<and> clip t = full_screen \<and> msgbuf t = replicate MSG_BUF 0
      \<and> client_pid t = replicate MAX_CLIENTS 0 \<and> client_n t = 0"
    using present_keeps [OF t] by (simp add: fill_def Let_def s_def)
  ultimately show "display_ok (server_start wd dma h pixels) []" "\<not> cleared (server_start wd dma h pixels)" "tidy (wins (server_start wd dma h pixels))"
    using Wm_new_ok by (auto simp: display_ok_def cleared_def tidy_def Wm_new_def BLANK_def)
qed

lemma load_ok:
  assumes "display_ok s cs" and "length bs \<le> MSG_BUF"
  shows "display_ok (s\<lparr>msgbuf := overwrite (msgbuf s) 0 bs\<rparr>) cs"
  using assms by (auto simp: display_ok_def length_overwrite)

lemma send_keeps: "display_ok s cs \<Longrightarrow> display_ok (snd (server_send wd slot bs s)) cs" "wins (snd (server_send wd slot bs s)) = wins s"
  "fb (snd (server_send wd slot bs s)) = fb s" "ROOT (snd (server_send wd slot bs s)) = ROOT s" "ROOT_LEN (snd (server_send wd slot bs s)) = ROOT_LEN s"
  by (auto simp: server_send_def display_ok_def)

text \<open>
  The server's life, one operation at a time, in which the windows draw inside themselves: a message
  arrives in the buffer, an operation of it is done, an answer is sent.
\<close>

inductive tidy_run :: "'h world \<Rightarrow> 'h server \<Rightarrow> bool" for wd where
  start: "tidy_run wd (server_start wd dma h pixels)"
| arrive: "tidy_run wd s \<Longrightarrow> length bs \<le> MSG_BUF \<Longrightarrow> tidy_run wd (s\<lparr>msgbuf := overwrite (msgbuf s) 0 bs\<rparr>)"
| op: "tidy_run wd s \<Longrightarrow> server_op wd p i s = Some (r, s') \<Longrightarrow> tidy (wins s') \<Longrightarrow> tidy_run wd s'"
| answer: "tidy_run wd s \<Longrightarrow> tidy_run wd (snd (server_send wd slot bs s))"

lemma tidy_run_ok: "tidy_run wd s \<Longrightarrow> \<exists>cs. display_ok s cs \<and> fresh s cs \<and> tidy (wins s)"
proof (induction rule: tidy_run.induct)
  case (start dma h pixels)
  then show ?case using start_ok [of wd dma h pixels] by (auto simp: fresh_def)
next
  case (arrive s bs)
  then obtain cs where "display_ok s cs" "fresh s cs" "tidy (wins s)" by blast
  then show ?case using load_ok [of s cs bs] arrive(2) by (intro exI [of _ cs]) (simp add: fresh_def cleared_def)
next
  case (op s p i r s')
  then show ?case using server_op_ok [of s _ wd p i r s'] by blast
next
  case (answer s slot bs)
  then obtain cs where "display_ok s cs" "fresh s cs" "tidy (wins s)" by blast
  then show ?case by (intro exI [of _ cs]) (simp add: send_keeps fresh_def cleared_def)
qed

text \<open>The server's life message by message, with windows that draw as they please.\<close>

definition display_init :: "'h world \<Rightarrow> 'h server \<Rightarrow> bool" where
  "display_init wd s \<longleftrightarrow> (\<exists>dma h pixels. s = server_start wd dma h pixels)"

definition display_step :: "'h world \<Rightarrow> 'h server \<Rightarrow> 'h server \<Rightarrow> bool" where
  "display_step wd s s' \<longleftrightarrow> (\<exists>p bs b. length bs \<le> MSG_BUF \<and> server_msg wd p bs s = Some (b, s'))"

text \<open>What a message can do, by operation: composing the relation over the loop.\<close>

definition op_keeps :: "nat \<Rightarrow> 'h server \<Rightarrow> 'h server \<Rightarrow> bool" where
  "op_keeps p s s' \<longleftrightarrow> others_kept p (wins s) (wins s') \<and> (\<forall>k. WIDTH * HEIGHT \<le> k \<longrightarrow> fb s' k = fb s k)
     \<and> (p \<noteq> KERNEL \<longrightarrow> ROOT s' = ROOT s \<and> ROOT_LEN s' = ROOT_LEN s \<and> client_pid s' = client_pid s \<and> client_n s' = client_n s)"

lemma op_keeps_trans: "op_keeps p a b \<Longrightarrow> op_keeps p b c \<Longrightarrow> op_keeps p a c"
  unfolding op_keeps_def using others_kept_trans by (metis (no_types, lifting))

lemma server_op_keeps:
  assumes ok: "display_ok s cs" and op: "server_op wd p i s = Some (r, s')"
  shows "op_keeps p s s'"
  using server_op_cases [OF op]
proof (elim disjE exE conjE)
  fix k assume c: "compose wd s = Some (k, s')"
  obtain k' s'' where d: "compose wd s = Some (k', s'')" "windows (wins s'') = windows (wins s)"
    "ROOT s'' = ROOT s" "ROOT_LEN s'' = ROOT_LEN s" "client_pid s'' = client_pid s" "client_n s'' = client_n s"
    "\<And>x y. x < WIDTH \<Longrightarrow> HEIGHT \<le> y \<Longrightarrow> pixel (fb s'') x y = pixel (fb s) x y"
    by (rule compose_ok [OF ok, of wd]) blast
  have "fb s' j = fb s j" if "WIDTH * HEIGHT \<le> j" for j
  proof -
    have "j mod WIDTH < WIDTH" "HEIGHT \<le> j div WIDTH" using that by (simp_all add: WIDTH_def HEIGHT_def)
    from d(7) [OF this] c d(1) show ?thesis by (simp add: pixel_def)
  qed
  then show ?thesis using c d by (simp add: op_keeps_def others_kept_refl)
next
  assume "windows_only p s s'"
  then show ?thesis by (simp add: windows_only_def op_keeps_def)
next
  fix opc assume "p = KERNEL" and k: "rd8 (msgbuf s) i = Some opc" "kernel_op (msgbuf s) i opc s = Some (r, s')"
  then show ?thesis using kernel_op_step [OF ok k(2,1)] by (auto simp: op_keeps_def background_step_def same_picture_def others_kept_refl)
qed

lemma server_loop_keeps:
  assumes "display_ok s cs" and "server_loop wd p n i s = Some (b, s')"
  shows "op_keeps p s s' \<and> (\<exists>cs'. display_ok s' cs')"
  using assms
proof (induction wd p n i s arbitrary: cs rule: server_loop.induct)
  case (1 wd p n i s)
  show ?case
  proof (cases "i < n")
    case True
    then obtain r t where op: "server_op wd p i s = Some (r, t)" using "1.prems"(2) by (subst (asm) server_loop.simps) (auto split: option.splits)
    have k: "op_keeps p s t" by (rule server_op_keeps [OF "1.prems"(1) op])
    obtain cs' where ok': "display_ok t cs'" using server_op_ok [OF "1.prems"(1) op] by blast
    show ?thesis
    proof (cases r)
      case (Next j)
      then have "server_loop wd p n j t = Some (b, s')" using "1.prems"(2) True op by (subst (asm) server_loop.simps) simp
      then show ?thesis using "1.IH" [OF True op _ Next ok'] op_keeps_trans [OF k] by blast
    qed (use "1.prems"(2) True op k ok' in \<open>(subst (asm) server_loop.simps, auto)+\<close>)
  next
    case False
    then show ?thesis using "1.prems" by (subst (asm) server_loop.simps) (auto simp: op_keeps_def others_kept_refl)
  qed
qed

lemma server_msg_keeps:
  assumes ok: "display_ok s cs" and l: "length bs \<le> MSG_BUF" and m: "server_msg wd p bs s = Some (b, s')"
  shows "op_keeps p s s' \<and> (\<exists>cs'. display_ok s' cs')"
proof (cases "bs = []")
  case False
  let ?s = "s\<lparr>msgbuf := overwrite (msgbuf s) 0 bs\<rparr>"
  obtain b' t where t: "server_loop wd p (length bs) 0 ?s = Some (b', t)" and s': "s' = t \<or> s' = snd (server_send wd CAP_REP
           [0, of_nat (gframes t), of_nat (taps_routed (wins t)), of_nat (taps_on_nothing (wins t)), of_nat (rejected (wins t)),
            of_nat (composes (wins t)), of_nat (wm_open (wins t))] t)"
    using m False by (auto simp: server_msg_def Let_def split: option.splits prod.splits if_splits)
  have k: "op_keeps p ?s t" and "\<exists>cs'. display_ok t cs'" using server_loop_keeps [OF load_ok [OF ok l] t] by blast+
  then have "\<exists>cs'. display_ok s' cs'" using s' send_keeps(1) by blast
  moreover have "op_keeps p t s'" using s' by (auto simp: op_keeps_def others_kept_refl server_send_def)
  moreover have "op_keeps p s ?s" by (simp add: op_keeps_def others_kept_refl)
  ultimately show ?thesis using op_keeps_trans k by blast
qed (use m ok in \<open>auto simp: server_msg_def op_keeps_def others_kept_refl\<close>)

interpretation disp: invariant_of "display_init wd" "display_step wd" "\<lambda>s. \<exists>cs. display_ok s cs" for wd
proof unfold_locales
  show "\<exists>cs. display_ok s cs" if "display_init wd s" for s using that by (auto simp: display_init_def intro: start_ok(1))
  show "\<exists>cs. display_ok t cs" if "\<exists>cs. display_ok s cs" "display_step wd s t" for s t
    using that server_msg_keeps unfolding display_step_def by blast
qed

section \<open>Properties\<close>


text \<open>A device that answers every command, and a server that was told to clear the screen and then to open a window.\<close>

definition demo_world :: "unit world" where
  "demo_world = \<lparr>device = (\<lambda>cmd f h. ([(1, RESP_OK_NODATA)], h)), accepts = (\<lambda>_. True)\<rparr>"

definition demo_start :: "unit server" where
  "demo_start = server_start demo_world 0 () (\<lambda>_. 0)"

definition demo_clear :: bytes where
  "demo_clear = [OP_CLEAR, 0x20, 0x20, 0x20, 0xff]"

definition demo_create :: bytes where
  "demo_create = [OP_WIN_CREATE, 1, 0, 10, 0, 20, 0, 100, 0, 80, 1, 2, 3, 4, 0]"

lemma demo_start_fields: "wins demo_start = Wm_new" "length (msgbuf demo_start) = MSG_BUF" "display_ok demo_start []"
proof -
  obtain b t where "present_rect demo_world full_screen (fill 0 0 WIDTH HEIGHT 0xff000000 \<lparr>fb = (\<lambda>_. 0), clip = full_screen, ROOT = replicate ROOT_CAPACITY 0, ROOT_LEN = 0, wins = Wm_new,
     client_pid = replicate MAX_CLIENTS 0, client_n = 0, dma_phys = 0, last_used = 0, avail_idx = 0, gframes = 0,
     gpixels = 0, smallest = 2 ^ 64 - 1, msgbuf = replicate MSG_BUF 0, outbox = [], host = ()\<rparr>) = (b, t)" by fastforce
  from present_keeps [OF this] this show "wins demo_start = Wm_new" by (simp add: demo_start_def server_start_def fill_def Let_def)
  show ok: "display_ok demo_start []" by (simp add: demo_start_def start_ok(1))
  then show "length (msgbuf demo_start) = MSG_BUF" by (simp add: display_ok_def)
qed

lemma demo_clear_runs:
  "\<exists>s. tidy_run demo_world s \<and> cleared s \<and> windows (wins s) = replicate MAX_WINDOWS BLANK \<and> (\<exists>cs. display_ok s cs)"
proof -
  let ?s = "demo_start\<lparr>msgbuf := overwrite (msgbuf demo_start) 0 demo_clear\<rparr>"
  have run: "tidy_run demo_world ?s" unfolding demo_start_def by (intro tidy_run.arrive tidy_run.start) (simp add: demo_clear_def MSG_BUF_def)
  have ok: "display_ok ?s []" by (rule load_ok) (simp_all add: demo_start_def start_ok(1) demo_clear_def MSG_BUF_def)
  have len: "length (msgbuf ?s) = MSG_BUF" using ok by (simp add: display_ok_def)
  have sub: "subslice (msgbuf ?s) 0 5 = demo_clear" by (simp add: overwrite_def subslice_def demo_clear_def)
  have sl: "slice (msgbuf ?s) 0 5 = Some demo_clear" using sub len by (simp add: slice_def MSG_BUF_def)
  have rd: "rd8 (msgbuf ?s) 0 = Some OP_CLEAR" by (simp add: rd8_def overwrite_def demo_clear_def)
  define s where "s = (root_append demo_clear (root_reset ?s))\<lparr>wins := dirty_all (wins ?s)\<rparr>"
  have "server_op demo_world KERNEL 0 ?s = Some (Next 5, s)"
    unfolding server_op_def Let_def rd using sl by (simp add: kernel_op_def s_def Let_def opcodes root_reset_def)
  moreover have w: "windows (wins demo_start) = replicate MAX_WINDOWS BLANK" by (simp add: demo_start_fields(1) Wm_new_def)
  moreover have "tidy (wins s)" using w by (simp add: s_def tidy_def BLANK_ok)
  ultimately have "tidy_run demo_world s" using tidy_run.op [OF run] by blast
  moreover have "background_step ?s s [] [demo_clear]" unfolding s_def by (rule clear_step [OF ok]) (simp_all add: whole_def demo_clear_def)
  then have "display_ok s [demo_clear]" by (simp add: background_step_def)
  moreover have "cleared s" using cleared_iff [OF \<open>display_ok s [demo_clear]\<close>] by (simp add: demo_clear_def)
  moreover have "windows (wins s) = replicate MAX_WINDOWS BLANK" using w by (simp add: s_def)
  ultimately show ?thesis by blast
qed


text \<open>
  C28: A message reaches only its sender's windows. Whatever bytes a process sends, in every reachable
  state: the windows of all other processes keep their place, their height and their contents, and
  none appears in another's name; no memory outside the frame buffer is written; and unless the
  sender is the kernel, the background and the list of clients stay as they are.
\<close>

theorem display_confines:
  assumes "reach (display_init wd) (display_step wd) s" and "length bs \<le> MSG_BUF" and "server_msg wd p bs s = Some (b, s')"
  shows "(\<forall>i<MAX_WINDOWS. w_used (windows (wins s) ! i) \<and> w_owner (windows (wins s) ! i) \<noteq> p \<longrightarrow> windows (wins s') ! i = windows (wins s) ! i)
    \<and> (\<forall>i<MAX_WINDOWS. w_used (windows (wins s') ! i) \<and> w_owner (windows (wins s') ! i) \<noteq> p \<longrightarrow> windows (wins s') ! i = windows (wins s) ! i)
    \<and> (\<forall>k\<ge>WIDTH * HEIGHT. fb s' k = fb s k)
    \<and> (p \<noteq> KERNEL \<longrightarrow> take (ROOT_LEN s') (ROOT s') = take (ROOT_LEN s) (ROOT s) \<and> client_pid s' = client_pid s \<and> client_n s' = client_n s)"
proof -
  obtain cs where ok: "display_ok s cs" using disp.inv_reach [OF assms(1)] by blast
  then have len: "length (windows (wins s)) = MAX_WINDOWS" by (simp add: display_ok_def wm_ok_def)
  have k: "op_keeps p s s'" using server_msg_keeps [OF ok assms(2,3)] by blast
  then have o: "others_kept p (wins s) (wins s')" by (simp add: op_keeps_def)
  have "\<forall>i<MAX_WINDOWS. w_used (windows (wins s) ! i) \<and> w_owner (windows (wins s) ! i) \<noteq> p \<longrightarrow> windows (wins s') ! i = windows (wins s) ! i"
    "\<forall>i<MAX_WINDOWS. w_used (windows (wins s') ! i) \<and> w_owner (windows (wins s') ! i) \<noteq> p \<longrightarrow> windows (wins s') ! i = windows (wins s) ! i"
    using o unfolding others_kept_def len by blast+
  moreover have "\<forall>k\<ge>WIDTH * HEIGHT. fb s' k = fb s k"
    "p \<noteq> KERNEL \<Longrightarrow> take (ROOT_LEN s') (ROOT s') = take (ROOT_LEN s) (ROOT s) \<and> client_pid s' = client_pid s \<and> client_n s' = client_n s"
    using k by (simp_all add: op_keeps_def)
  ultimately show ?thesis by blast
qed

text \<open>What the server does with the message that opens the window.\<close>

abbreviation demo_rect :: Rect where
  "demo_rect \<equiv> \<lparr>rect_x = 10, rect_y = 20, rect_w = 100, rect_h = 80\<rparr>"

lemma demo_create_op:
  assumes len: "length (msgbuf s) = MSG_BUF"
  defines "s1 \<equiv> s\<lparr>msgbuf := overwrite (msgbuf s) 0 demo_create\<rparr>"
  shows "server_op wd 7 0 s1 = Some (Next 15, s1\<lparr>wins := snd (wm_create 7 1 demo_rect (le_word [1, 2, 3, 4]) [] (wins s))\<rparr>)"
proof -
  have sub: "subslice (msgbuf s1) 0 15 = demo_create" "0 + 15 \<le> length (msgbuf s1)"
    using len by (simp_all add: s1_def overwrite_def subslice_def demo_create_def MSG_BUF_def)
  note F = fields_at [OF sub, simplified]
  have v: "rd8 (msgbuf s1) 0 = Some OP_WIN_CREATE" "rd8 (msgbuf s1) 1 = Some 1" "rd8 (msgbuf s1) 14 = Some 0"
    using F(1) [of 0] F(1) [of 1] F(1) [of 14] by (simp_all add: demo_create_def)
  have q: "rect_at (msgbuf s1) 2 = Some demo_rect" using F(5) [of 2] by (simp add: demo_create_def w16_def)
  have bg: "le32 (msgbuf s1) 10 = Some (le_word [1, 2, 3, 4])" using F(3) [of 10] by (simp add: demo_create_def subslice_def)
  have tl: "slice (msgbuf s1) 15 0 = Some []" using sub(2) by (simp add: slice_def subslice_def)
  have w: "wins s1 = wins s" by (simp add: s1_def)
  show ?thesis unfolding server_op_def Let_def v(1) using v q [unfolded numeral_2_eq_2] bg tl w by (simp add: window_op_def opcodes)
qed

definition demo_window :: "nat \<Rightarrow> Window" where
  "demo_window z = BLANK\<lparr>w_used := True, w_owner := 7, w_id := 1, w_rect := demo_rect, w_bg := le_word [1, 2, 3, 4], w_z := z\<rparr>"

lemma demo_create_windows:
  assumes "windows m = replicate MAX_WINDOWS BLANK"
  shows "windows (snd (wm_create 7 1 demo_rect (le_word [1, 2, 3, 4]) [] m)) = demo_window (next_z m) # replicate 7 BLANK"
proof -
  have c: "clamp_to_screen demo_rect = demo_rect" by (simp add: clamp_to_screen_def WIDTH_def HEIGHT_def)
  have w: "windows m = BLANK # replicate 7 BLANK" using assms by (simp add: MAX_WINDOWS_def numeral_eq_Suc)
  have f: "wm_find 7 1 m = None" using w by (auto simp: wm_find_def position_None_iff BLANK_ok)
  have "position (\<lambda>w. \<not> w_used w) (windows m) = Some 0" using w by (simp add: BLANK_ok)
  then show ?thesis using f w by (simp add: wm_create_def Let_def c demo_window_def) (simp add: BLANK_def overwrite_def)
qed

theorem display_confines_witness:
  "\<exists>b s'. server_msg demo_world 7 demo_create demo_start = Some (b, s') \<and> w_used (windows (wins s') ! 0) \<and> w_owner (windows (wins s') ! 0) = 7
     \<and> (\<forall>k\<ge>WIDTH * HEIGHT. fb s' k = fb demo_start k)"
proof -
  have r: "reach (display_init demo_world) (display_step demo_world) demo_start" by (rule reach_init) (auto simp: display_init_def demo_start_def)
  have l: "length demo_create \<le> MSG_BUF" by (simp add: demo_create_def MSG_BUF_def)
  have n: "length demo_create = 15" by (simp add: demo_create_def)
  let ?s = "demo_start\<lparr>msgbuf := overwrite (msgbuf demo_start) 0 demo_create\<rparr>"
  let ?m = "snd (wm_create 7 1 demo_rect (le_word [1, 2, 3, 4]) [] (wins demo_start))"
  have "server_loop demo_world 7 15 0 ?s = Some (False, ?s\<lparr>wins := ?m\<rparr>)"
    by (subst server_loop.simps, simp only: demo_create_op [OF demo_start_fields(2)], subst server_loop.simps) simp
  then have m: "server_msg demo_world 7 demo_create demo_start = Some (False, ?s\<lparr>wins := ?m\<rparr>)"
    using n by (simp add: server_msg_def KERNEL_def)
  have "windows ?m = demo_window (next_z (wins demo_start)) # replicate 7 BLANK"
    by (rule demo_create_windows) (simp add: demo_start_fields(1) Wm_new_def)
  then have "w_used (windows ?m ! 0) \<and> w_owner (windows ?m ! 0) = 7" by (simp add: demo_window_def)
  then show ?thesis using m display_confines [OF r l m] by auto
qed

text \<open>The colour of a point is that of the topmost window over it.\<close>

lemma picture_hit:
  assumes ok: "wm_ok m" and t: "tidy m" and h: "hit x y m = Some (p, k, rx, ry)"
  obtains i where "wm_find p k m = Some i" and "picture cs m x y = window_ink fb_letters (windows m ! i) x y"
    and "window_ink fb_letters (windows m ! i) x y \<noteq> None"
    and "rect_x (w_rect (windows m ! i)) + rx = x" "rect_y (w_rect (windows m ! i)) + ry = y"
proof -
  obtain below i above where o: "paint_order m = below @ i # above" and c: "contains (w_rect (windows m ! i)) x y"
    and a: "\<And>j. j \<in> set above \<Longrightarrow> \<not> contains (w_rect (windows m ! j)) x y" and f: "wm_find p k m = Some i"
    and r: "rect_x (w_rect (windows m ! i)) + rx = x" "rect_y (w_rect (windows m ! i)) + ry = y"
    using hit_painted_last [OF ok, of x y] h by auto
  have ink: "window_ink fb_letters (windows m ! i) x y \<noteq> None" by (rule fbs.window_ink_covers [OF c])
  have above: "filter (\<lambda>j. window_ink fb_letters (windows m ! j) x y \<noteq> None) above = []"
  proof (rule ccontr)
    assume "filter (\<lambda>j. window_ink fb_letters (windows m ! j) x y \<noteq> None) above \<noteq> []"
    then obtain j where j: "j \<in> set above" "window_ink fb_letters (windows m ! j) x y \<noteq> None" by (auto simp: filter_empty_conv)
    then have "j \<in> set (paint_order m)" using o by simp
    then have "contributes m x y j" using j ok by (auto simp: contributes_def paint_order_set wm_ok_def)
    then show False using tidy_contributes [OF ok t] a j by blast
  qed
  have "windows_ink fb_letters m x y = window_ink fb_letters (windows m ! i) x y"
    unfolding windows_ink_def o fold_over_filter [of "\<lambda>i. window_ink fb_letters (windows m ! i)" "below @ i # above"] filter_append filter.simps above
    using ink by (auto simp: over_def)
  then have "picture cs m x y = window_ink fb_letters (windows m ! i) x y" using ink by (auto simp: picture_def over_def)
  then show ?thesis using that f ink r by blast
qed



text \<open>
  A message that ends inside an operation kills the display server. In every reachable state, whoever
  sends a message that fills the receive buffer and whose last byte starts an operation with
  operands ends the server with a panic: the operands are read past the end of the buffer.
\<close>

theorem truncated_message_panics:
  assumes "reach (display_init wd) (display_step wd) s"
  shows "server_msg wd p (replicate 4095 OP_COMPOSE @ [OP_WIN_RAISE]) s = None"
proof -
  let ?bs = "replicate 4095 OP_COMPOSE @ [OP_WIN_RAISE]"
  obtain cs where ok: "display_ok s cs" using disp.inv_reach [OF assms] by blast
  have len: "length ?bs = MSG_BUF" by (simp add: MSG_BUF_def)
  have "length (msgbuf s) = MSG_BUF" using ok by (simp add: display_ok_def)
  then have buf: "overwrite (msgbuf s) 0 ?bs = ?bs" using len by (simp add: overwrite_def)
  have loop: "server_loop wd p MSG_BUF i t = None" if "i \<le> 4095" "msgbuf t = ?bs" "display_ok t cs" for i t
    using that
  proof (induction "4095 - i" arbitrary: i t)
    case 0
    then have i: "i = 4095" by simp
    have "rd8 (msgbuf t) i = Some OP_WIN_RAISE" "rd8 (msgbuf t) (i + 1) = None" using 0 i by (simp_all add: rd8_def nth_append)
    then have "server_op wd p i t = None" by (simp add: server_op_def window_op_def opcodes)
    then show ?case by (subst server_loop.simps) (simp add: i MSG_BUF_def)
  next
    case (Suc n)
    have "i < 4095" using Suc.hyps(2) by simp
    then have "rd8 (msgbuf t) i = Some OP_COMPOSE" using Suc.prems(2) by (simp add: rd8_def nth_append)
    moreover obtain k t' where t': "compose wd t = Some (k, t')" "display_ok t' cs" "msgbuf t' = msgbuf t"
      by (rule compose_ok [OF Suc.prems(3), of wd]) blast
    ultimately have "server_op wd p i t = Some (Next (i + 1), t')" by (simp add: server_op_def)
    moreover have "server_loop wd p MSG_BUF (i + 1) t' = None" by (rule Suc.hyps(1)) (use Suc t' in auto)
    ultimately show ?case using \<open>i < 4095\<close> by (subst server_loop.simps) (simp add: MSG_BUF_def)
  qed
  have "server_loop wd p MSG_BUF 0 (s\<lparr>msgbuf := ?bs\<rparr>) = None"
  proof (rule loop)
    show "display_ok (s\<lparr>msgbuf := ?bs\<rparr>) cs" using load_ok [OF ok, of ?bs] buf len by simp
  qed simp_all
  then show ?thesis using buf len by (simp add: server_msg_def MSG_BUF_def)
qed

theorem truncated_message_panics_witness:
  "server_msg demo_world 7 (replicate 4095 OP_COMPOSE @ [OP_WIN_RAISE]) demo_start = None"
  by (rule truncated_message_panics, rule reach_init) (auto simp: display_init_def demo_start_def)

end
