(* ===== verification/Weights.thy ===== *)
theory Weights
  imports Model Reach
begin

text \<open>
  The model store over memory: its invariant, that a fault maps exactly the file's page and shares
  it, and that reclaiming leaves no process with a page whose frame was given back.
\<close>

section \<open>Several address spaces\<close>

abbreviation root_of :: "procs \<Rightarrow> nat \<Rightarrow> nat" where
  "root_of ps j \<equiv> as_root (p_space (ps ! j))"

definition spaces_ok :: "procs \<Rightarrow> kmem \<Rightarrow> nat set \<Rightarrow> (nat \<Rightarrow> nat list) \<Rightarrow> bool" where
  "spaces_ok ps k own T \<longleftrightarrow> (\<forall>j<length ps. space_ok (with_owned (p_space (ps ! j)) (T j)) k own)
     \<and> (\<forall>i<length ps. \<forall>j<length ps. i \<noteq> j \<longrightarrow> set (T i) \<inter> set (T j) = {}) \<and> (\<exists>lost. frames_ok (kfr k) own lost) \<and> END (kfr k) \<le> 2 ^ 48"

lemma spaces_okD:
  assumes "spaces_ok ps k own T" "j < length ps"
  shows "tree (pm k) (root_of ps j) (set (T j))" and "set (T j) \<subseteq> own"
    and "t \<in> set (T j) \<Longrightarrow> t mod PAGE_SIZE = 0"
  using assms by (auto simp: spaces_ok_def space_ok_def tree_def)

text \<open>Memory that changes outside every table changes no walk.\<close>

lemma spaces_scribble:
  assumes ok: "spaces_ok ps k own T" and same: "\<And>j t x. j < length ps \<Longrightarrow> t \<in> set (T j) \<Longrightarrow> in_frame t x \<Longrightarrow> m' x = pm k x"
    and fr: "frames_ok fr own' lost" "END fr = END (kfr k)" "\<And>j. j < length ps \<Longrightarrow> set (T j) \<subseteq> own'"
  shows "spaces_ok ps (k\<lparr>kfr := fr, pm := m'\<rparr>) own' T"
    and "j < length ps \<Longrightarrow> is_path q \<Longrightarrow> length q \<le> 4 \<Longrightarrow> walk m' (root_of ps j) q = walk (pm k) (root_of ps j) q"
proof -
  have w: "walk m' (root_of ps j) q = walk (pm k) (root_of ps j) q" if "j < length ps" "is_path q" "length q \<le> 4" for j q
    by (rule walk_outside [OF spaces_okD(1) [OF ok that(1)] same [OF that(1)] that(2,3)])
  show "j < length ps \<Longrightarrow> is_path q \<Longrightarrow> length q \<le> 4 \<Longrightarrow> walk m' (root_of ps j) q = walk (pm k) (root_of ps j) q" by (rule w)
  have "tree m' (root_of ps j) (set (T j))" if "j < length ps" for j
    by (rule tree_cong [OF spaces_okD(1) [OF ok that]]) (simp add: w [OF that])
  then show "spaces_ok ps (k\<lparr>kfr := fr, pm := m'\<rparr>) own' T"
    using ok fr unfolding spaces_ok_def space_ok_def by auto
qed

text \<open>Unmapping one page of one process.\<close>

lemma unmap_one:
  assumes ok: "spaces_ok ps k own T" and j: "j < length ps" and k'_def: "k' = unmap v 1 (p_space (ps ! j)) k"
  shows "spaces_ok ps k' own T" and "kfr k' = kfr k"
    and "i < length ps \<Longrightarrow> is_path q \<Longrightarrow> length q = 4 \<Longrightarrow>
      walk (pm k') (root_of ps i) q = (if i = j \<and> q = path v then None else walk (pm k) (root_of ps i) q)"
    and "(\<And>i t. i < length ps \<Longrightarrow> t \<in> set (T i) \<Longrightarrow> \<not> in_frame t x) \<Longrightarrow> pm k' x = pm k x"
proof -
  have pm: "pm k' = unmap_page v (p_space (ps ! j)) (pm k)" and fr: "kfr k' = kfr k" by (simp_all add: k'_def unmap_def)
  note U = unmap_page_ok [OF spaces_okD(1) [OF ok j] refl, where v = v]
  have other: "pm k' x = pm k x" if "i < length ps" "i \<noteq> j" "t \<in> set (T i)" "in_frame t x" for i t x
    unfolding pm
  proof (rule U(3))
    fix f assume f: "f \<in> set (T j)"
    then have "f \<noteq> t" using ok j that unfolding spaces_ok_def by blast
    then show "\<not> in_frame f x" using frames_disjoint [of f t x] spaces_okD(3) [OF ok j f] spaces_okD(3) [OF ok that(1,3)] that(4) by auto
  qed
  have w: "walk (pm k') (root_of ps i) q = walk (pm k) (root_of ps i) q" if "i < length ps" "i \<noteq> j" "is_path q" "length q \<le> 4" for i q
    by (rule walk_outside [OF spaces_okD(1) [OF ok that(1)] other [OF that(1,2)] that(3,4)])
  have "tree (pm k') (root_of ps i) (set (T i))" if "i < length ps" for i
  proof (cases "i = j")
    case True
    then show ?thesis using U(1) by (simp add: pm)
  next
    case False
    show ?thesis by (rule tree_cong [OF spaces_okD(1) [OF ok that]]) (simp add: w [OF that False])
  qed
  then show "spaces_ok ps k' own T" using ok fr unfolding spaces_ok_def space_ok_def by auto
  show "kfr k' = kfr k" by (rule fr)
  show "walk (pm k') (root_of ps i) q = (if i = j \<and> q = path v then None else walk (pm k) (root_of ps i) q)" if "i < length ps" "is_path q" "length q = 4"
    using w [OF that(1) _ that(2)] U(2) [OF that(2,3)] that(3) by (cases "i = j") (simp_all add: pm)
  show "pm k' x = pm k x" if "\<And>i t. i < length ps \<Longrightarrow> t \<in> set (T i) \<Longrightarrow> \<not> in_frame t x" unfolding pm by (rule U(3)) (use that j in blast)
qed

lemma unmap_everywhere_ok:
  assumes "spaces_ok ps k own T"
  shows "spaces_ok ps (unmap_everywhere idx ms ps k) own T \<and> kfr (unmap_everywhere idx ms ps k) = kfr k
    \<and> (\<forall>i<length ps. \<forall>q. is_path q \<and> length q = 4 \<longrightarrow> walk (pm (unmap_everywhere idx ms ps k)) (root_of ps i) q =
        (if \<exists>mp\<in>set ms. mm_pid mp = i \<and> q = path (mm_base mp + idx * PAGE_SIZE) then None else walk (pm k) (root_of ps i) q))
    \<and> (\<forall>x. (\<forall>i<length ps. \<forall>t\<in>set (T i). \<not> in_frame t x) \<longrightarrow> pm (unmap_everywhere idx ms ps k) x = pm k x)"
  using assms
proof (induction ms arbitrary: k)
  case Nil
  then show ?case by (simp add: unmap_everywhere_def)
next
  case (Cons mp ms)
  show ?case
  proof (cases "mm_pid mp < length ps")
    case True
    define k1 where "k1 = unmap (mm_base mp + idx * PAGE_SIZE) 1 (p_space (ps ! mm_pid mp)) k"
    note U = unmap_one [OF Cons.prems True k1_def]
    have e: "unmap_everywhere idx (mp # ms) ps k = unmap_everywhere idx ms ps k1"
      using True by (simp add: unmap_everywhere_def proc_get_def k1_def)
    show ?thesis unfolding e using Cons.IH [OF U(1)] U(2-4) by auto
  next
    case False
    then have e: "unmap_everywhere idx (mp # ms) ps k = unmap_everywhere idx ms ps k" by (simp add: unmap_everywhere_def proc_get_def)
    show ?thesis unfolding e using Cons.IH [OF Cons.prems] False by auto
  qed
qed

text \<open>Mapping one page.\<close>

lemma map_one:
  assumes m: "space_map va f 1 perm spc k = (r, spc', k')" and ok: "space_ok spc k own" and f: "f < 2 ^ 48"
  shows "\<exists>own'. extends spc k own spc' k' own' \<and> (\<forall>q. is_path q \<and> length q = 4 \<longrightarrow>
    walk (pm k') (as_root spc) q = (if r = Inr () \<and> q = path va then Some f else walk (pm k) (as_root spc) q))"
proof (cases "va mod PAGE_SIZE \<noteq> 0 \<or> f mod PAGE_SIZE \<noteq> 0")
  case True
  then show ?thesis using m extends_refl [OF ok] by (auto simp: space_map_def)
next
  case False
  obtain re spc1 k1 where e: "entry_for va spc k = (re, spc1, k1)" by (cases "entry_for va spc k")
  from entry_for_ok [OF e ok] obtain own1 where
    E: "extends spc k own spc1 k1 own1" "\<forall>q. is_path q \<and> length q = 4 \<longrightarrow> walk (pm k1) (as_root spc) q = walk (pm k) (as_root spc) q"
      "case re of None \<Rightarrow> True | Some e \<Rightarrow> \<exists>t. walk (pm k1) (as_root spc) (map (index va) [0..<3]) = Some t \<and> e = t + 8 * index va 3"
    by blast
  show ?thesis
  proof (cases re)
    case None
    then show ?thesis using m e E False by (auto simp: space_map_def intro!: exI [of _ own1])
  next
    case (Some a)
    then obtain t where t: "walk (pm k1) (as_root spc) (map (index va) [0..<3]) = Some t" "a = t + 8 * index va 3" using E(3) by auto
    let ?d = "of_nat f OR perm_bits perm :: u64"
    have r: "r = Inr ()" "spc' = spc1" "k' = k1\<lparr>pm := wr64 (pm k1) a ?d\<rparr>" using m e Some False by (auto simp: space_map_def)
    have root: "as_root spc1 = as_root spc" and ok1: "space_ok spc1 k1 own1" using E(1) by (simp_all add: extends_def)
    have tr: "tree (pm k1) (as_root spc) (set (as_owned spc1))" using ok1 root by (simp add: space_ok_def)
    have l3: "length (map (index va) [0..<3]) = 3" by simp
    note L = leaf_write [OF tr is_path_path(3) l3 t(1) index_512 [of va 3], where w = ?d, folded t(2) path_snoc]
    note D = descriptor [OF _ f perm_bits_mask [of perm] perm_bits_valid [of perm]]
    have tin: "t \<in> set (as_owned spc1)" using tree_frame(1) [OF tr is_path_path(3) _ t(1)] by simp
    have "space_ok spc1 k' own1" using ok1 L(1) root r(3) by (simp add: space_ok_def)
    then have "extends spc1 k1 own1 spc' k' own1" using tin wr64_outside [OF index_512, of t] r by (auto simp: extends_def t(2))
    with E(1) have "extends spc k own spc' k' own1" by (rule extends_trans)
    moreover have "walk (pm k') (as_root spc) q = (if r = Inr () \<and> q = path va then Some f else walk (pm k) (as_root spc) q)" if "is_path q" "length q = 4" for q
      using L(2) [OF that] D False E(2) that r by simp
    ultimately show ?thesis by blast
  qed
qed

section \<open>Reading a page\<close>

definition file_byte :: "disk \<Rightarrow> u64 \<Rightarrow> nat \<Rightarrow> nat \<Rightarrow> u8" where
  "file_byte d start sz o' = (if o' < sz then store d (start + of_nat (o' div SECTOR_SIZE)) ! (o' mod SECTOR_SIZE) else 0)"

lemma mwrite_nth: "mwrite m a bs x = (if a \<le> x \<and> x < a + length bs then bs ! (x - a) else m x)"
  by (auto simp: mwrite_def)

lemma page_sectors: "PAGE_SIZE = SECTORS_PER_PAGE * SECTOR_SIZE" "SECTORS_PER_PAGE = 8"
  by (simp_all add: PAGE_SIZE_def SECTORS_PER_PAGE_def SECTOR_SIZE_def)

lemma fill_page_ok:
  assumes len: "\<And>s. length (store d s) = SECTOR_SIZE"
    and "fill_page start sz idx frame d [s0..<SECTORS_PER_PAGE] m = (True, m')" and "s0 \<le> SECTORS_PER_PAGE"
    and "\<And>j. s0 * SECTOR_SIZE \<le> j \<Longrightarrow> j < PAGE_SIZE \<Longrightarrow> m (frame + j) = 0"
  shows "m' (frame + j) = (if s0 * SECTOR_SIZE \<le> j \<and> j < PAGE_SIZE then file_byte d start sz (idx * PAGE_SIZE + j) else m (frame + j))"
  using assms(2-)
proof (induction "SECTORS_PER_PAGE - s0" arbitrary: s0 m)
  case 0
  then have "s0 = SECTORS_PER_PAGE" by simp
  then show ?case using 0 by (auto simp: page_sectors)
next
  case (Suc n)
  then have s0: "s0 < SECTORS_PER_PAGE" "[s0..<SECTORS_PER_PAGE] = s0 # [Suc s0..<SECTORS_PER_PAGE]" by (simp_all add: upt_conv_Cons)
  let ?off = "idx * PAGE_SIZE + s0 * SECTOR_SIZE"
  show ?case
  proof (cases "?off \<ge> sz")
    case True
    then have "m' = m" using Suc.prems(1) s0(2) by simp
    then show ?thesis using True Suc.prems(3) [of j] by (auto simp: file_byte_def)
  next
    case False
    define sec where "sec = store d (start + of_nat (idx * SECTORS_PER_PAGE) + of_nat s0)"
    define m1 where "m1 = mwrite m (frame + s0 * SECTOR_SIZE) (take (min (sz - ?off) SECTOR_SIZE) sec)"
    have rd: "fill_page start sz idx frame d [Suc s0..<SECTORS_PER_PAGE] m1 = (True, m')"
      using Suc.prems(1) s0(2) False by (auto simp: read_sector_def sec_def m1_def Let_def split: option.splits)
    have lsec: "length sec = SECTOR_SIZE" by (simp add: sec_def len)
    have m1: "m1 (frame + i) = (if s0 * SECTOR_SIZE \<le> i \<and> i < Suc s0 * SECTOR_SIZE then file_byte d start sz (idx * PAGE_SIZE + i) else m (frame + i))" for i
    proof (cases "s0 * SECTOR_SIZE \<le> i \<and> i < Suc s0 * SECTOR_SIZE")
      case True
      then obtain b where b: "i = s0 * SECTOR_SIZE + b" "b < SECTOR_SIZE" by (metis add_less_cancel_left le_Suc_ex mult_Suc add.commute)
      have o: "idx * PAGE_SIZE + i = (idx * SECTORS_PER_PAGE + s0) * SECTOR_SIZE + b" by (simp add: b(1) page_sectors algebra_simps)
      have "(idx * PAGE_SIZE + i) div SECTOR_SIZE = idx * SECTORS_PER_PAGE + s0" "(idx * PAGE_SIZE + i) mod SECTOR_SIZE = b"
        unfolding o using b(2) by simp_all
      then have fbyte: "file_byte d start sz (idx * PAGE_SIZE + i) = (if ?off + b < sz then sec ! b else 0)"
        using b(1) by (simp add: file_byte_def sec_def add.assoc)
      have "i < PAGE_SIZE" using b s0(1) by (simp add: page_sectors SECTOR_SIZE_def)
      then have z: "m (frame + i) = 0" using Suc.prems(3) [of i] True by simp
      show ?thesis using True fbyte z False b lsec by (auto simp: m1_def mwrite_nth)
    next
      case False
      then show ?thesis using lsec by (auto simp: m1_def mwrite_nth)
    qed
    have "m' (frame + j) = (if Suc s0 * SECTOR_SIZE \<le> j \<and> j < PAGE_SIZE then file_byte d start sz (idx * PAGE_SIZE + j) else m1 (frame + j))"
    proof (rule Suc.hyps(1) [OF _ rd])
      show "n = SECTORS_PER_PAGE - Suc s0" using Suc.hyps(2) by simp
      show "Suc s0 \<le> SECTORS_PER_PAGE" using s0(1) by simp
      fix i assume "Suc s0 * SECTOR_SIZE \<le> i" "i < PAGE_SIZE"
      then show "m1 (frame + i) = 0" using m1 [of i] Suc.prems(3) [of i] by simp
    qed
    moreover have "Suc s0 * SECTOR_SIZE \<le> PAGE_SIZE" using s0(1) by (simp add: page_sectors SECTOR_SIZE_def)
    ultimately show ?thesis using m1 [of j] by auto
  qed
qed

section \<open>The store over memory\<close>

definition page_at :: "Model list \<Rightarrow> nat \<Rightarrow> nat \<Rightarrow> nat \<Rightarrow> bool" where
  "page_at ms i idx f \<longleftrightarrow> i < length ms \<and> idx < length (md_pages (ms ! i)) \<and> md_pages (ms ! i) ! idx = Resident f"

text \<open>
  A resident page has a frame of its own, which holds the file's bytes and is no table; whatever a
  process maps is not free memory, and where it maps a resident page the store has it on record.
\<close>

definition pages_ok :: "Model list \<Rightarrow> procs \<Rightarrow> kmem \<Rightarrow> disk \<Rightarrow> nat set \<Rightarrow> (nat \<Rightarrow> nat list) \<Rightarrow> bool" where
  "pages_ok ms ps k d own T \<longleftrightarrow> spaces_ok ps k own T
     \<and> (\<forall>i idx f. page_at ms i idx f \<longrightarrow> f \<in> own \<and> (\<forall>j<length ps. f \<notin> set (T j))
          \<and> (\<forall>i' idx'. page_at ms i' idx' f \<longrightarrow> i' = i \<and> idx' = idx)
          \<and> (\<forall>b<PAGE_SIZE. pm k (f + b) = file_byte d (md_start (ms ! i)) (md_size (ms ! i)) (idx * PAGE_SIZE + b)))
     \<and> (\<forall>j<length ps. \<forall>q f. is_path q \<and> length q = 4 \<and> walk (pm k) (root_of ps j) q = Some f \<longrightarrow> f \<notin> avail (kfr k)
          \<and> (\<forall>i idx. page_at ms i idx f \<longrightarrow> (\<exists>mp\<in>set (md_mappings (ms ! i)). mm_pid mp = j \<and> q = path (mm_base mp + idx * PAGE_SIZE))))"

definition store_ok :: "store_state \<Rightarrow> procs \<Rightarrow> kmem \<Rightarrow> disk \<Rightarrow> nat set \<Rightarrow> (nat \<Rightarrow> nat list) \<Rightarrow> bool" where
  "store_ok st ps k d own T \<longleftrightarrow> pages_ok (md_models st) ps k d own T \<and> distinct (map md_id (md_models st))
     \<and> RESIDENT st = sum_list (map resident_pages (md_models st))"

lemma pages_okD:
  assumes "pages_ok ms ps k d own T"
  shows "spaces_ok ps k own T"
    and "page_at ms i idx f \<Longrightarrow> f \<in> own" and "page_at ms i idx f \<Longrightarrow> j < length ps \<Longrightarrow> f \<notin> set (T j)"
    and "page_at ms i idx f \<Longrightarrow> page_at ms i' idx' f \<Longrightarrow> i' = i \<and> idx' = idx"
    and "page_at ms i idx f \<Longrightarrow> b < PAGE_SIZE \<Longrightarrow> pm k (f + b) = file_byte d (md_start (ms ! i)) (md_size (ms ! i)) (idx * PAGE_SIZE + b)"
    and "j < length ps \<Longrightarrow> is_path q \<Longrightarrow> length q = 4 \<Longrightarrow> walk (pm k) (root_of ps j) q = Some f \<Longrightarrow> f \<notin> avail (kfr k)"
    and "j < length ps \<Longrightarrow> is_path q \<Longrightarrow> length q = 4 \<Longrightarrow> walk (pm k) (root_of ps j) q = Some f \<Longrightarrow> page_at ms i idx f \<Longrightarrow>
      \<exists>mp\<in>set (md_mappings (ms ! i)). mm_pid mp = j \<and> q = path (mm_base mp + idx * PAGE_SIZE)"
  using assms unfolding pages_ok_def by blast+

lemma pages_ok_aligned:
  assumes "pages_ok ms ps k d own T" and "f \<in> own"
  shows "f mod PAGE_SIZE = 0"
proof -
  from pages_okD(1) [OF assms(1)] obtain lost where "frames_ok (kfr k) own lost" by (auto simp: spaces_ok_def)
  from frames_ok_owned(2) [OF this assms(2)] show ?thesis .
qed

lemma frame_outside_tables:
  assumes ok: "spaces_ok ps k own T" and f: "f mod PAGE_SIZE = 0" "\<And>j. j < length ps \<Longrightarrow> f \<notin> set (T j)" and b: "b < PAGE_SIZE"
    and j: "j < length ps" "t \<in> set (T j)"
  shows "\<not> in_frame t (f + b)"
  using frames_disjoint [of t f "f + b"] spaces_okD(3) [OF ok j] f(1) f(2) [OF j(1)] j(2) b by (auto simp: in_frame_def)

lemma frames_free_avail:
  assumes ok: "frames_ok fr own lost" and f: "f \<in> own"
  shows "avail (frames_free f fr) = insert f (avail fr)"
proof -
  from ok obtain fl start where fl: "flist (link fr) (FREE_LIST fr) fl"
    and p: "partitioned fl (usable (RESERVED fr) (END fr) (BUMP fr)) own lost (usable (RESERVED fr) (END fr) start)" by (rule frames_okE)
  have "f \<notin> set fl" using p f by (auto simp: partitioned_def)
  then have "flist (link (frames_free f fr)) (FREE_LIST (frames_free f fr)) (f # fl)"
    using fl frames_ok_owned(1) [OF ok f] by (simp add: frames_free_def flist_scribble)
  from avail_eq [OF this] avail_eq [OF fl] show ?thesis by (simp add: frames_free_def)
qed

lemma frames_free_count: "free_count (frames_free f fr) = free_count fr + 1"
  by (simp add: free_count_def frames_free_def)

section \<open>Reclaim\<close>

definition evict_page :: "nat \<Rightarrow> Model \<Rightarrow> Model" where
  "evict_page idx m = m\<lparr>md_pages := (md_pages m)[idx := Absent], md_reclaimed := md_reclaimed m + 1\<rparr>"

lemma evict_page_sel [simp]: "md_mappings (evict_page idx m) = md_mappings m" "md_start (evict_page idx m) = md_start m"
  "md_size (evict_page idx m) = md_size m" "md_id (evict_page idx m) = md_id m" "length (md_pages (evict_page idx m)) = length (md_pages m)"
  by (simp_all add: evict_page_def)

lemma evict_page_pages: "md_pages (evict_page idx m) = (md_pages m)[idx := Absent]"
  by (simp add: evict_page_def)

lemma page_at_evict: "i < length ms \<Longrightarrow> page_at (ms[i := evict_page idx (ms ! i)]) i' idx' f \<longleftrightarrow> page_at ms i' idx' f \<and> (i', idx') \<noteq> (i, idx)"
  by (cases "i' = i"; cases "idx' = idx") (auto simp: page_at_def evict_page_def)

lemma page_record_evict:
  "i < length ms \<Longrightarrow> md_mappings (ms[i := evict_page idx (ms ! i)] ! i') = md_mappings (ms ! i')"
  "i < length ms \<Longrightarrow> md_start (ms[i := evict_page idx (ms ! i)] ! i') = md_start (ms ! i')"
  "i < length ms \<Longrightarrow> md_size (ms[i := evict_page idx (ms ! i)] ! i') = md_size (ms ! i')"
  by (cases "i' = i"; simp)+

text \<open>One page: out of every address space that has it, and then free.\<close>

lemma evict_ok:
  assumes ok: "pages_ok ms ps k d own T" and at: "page_at ms i idx f"
    and k'_def: "k' = (let k = unmap_everywhere idx (md_mappings (ms ! i)) ps k in k\<lparr>kfr := frames_free f (kfr k)\<rparr>)"
  shows "pages_ok (ms[i := evict_page idx (ms ! i)]) ps k' d (own - {f}) T"
    and "free_count (kfr k') = free_count (kfr k) + 1" and "avail (kfr k') = insert f (avail (kfr k))"
    and "j < length ps \<Longrightarrow> is_path q \<Longrightarrow> length q = 4 \<Longrightarrow> walk (pm k') (root_of ps j) q \<in> {None, walk (pm k) (root_of ps j) q}"
proof -
  note P = pages_okD [OF ok]
  define k1 where "k1 = unmap_everywhere idx (md_mappings (ms ! i)) ps k"
  have k': "k' = k1\<lparr>kfr := frames_free f (kfr k1)\<rparr>" by (simp add: k'_def k1_def Let_def)
  note U = unmap_everywhere_ok [OF P(1), of idx "md_mappings (ms ! i)", folded k1_def]
  have U1: "spaces_ok ps k1 own T" and fr1: "kfr k1 = kfr k" using U by simp_all
  have W: "walk (pm k1) (root_of ps j) q = (if \<exists>mp\<in>set (md_mappings (ms ! i)). mm_pid mp = j \<and> q = path (mm_base mp + idx * PAGE_SIZE) then None
      else walk (pm k) (root_of ps j) q)" if "j < length ps" "is_path q" "length q = 4" for j q using U that by blast
  have M: "pm k1 (g + b) = pm k (g + b)" if "page_at ms i' idx' g" "b < PAGE_SIZE" for i' idx' g b
    using U frame_outside_tables [OF P(1) pages_ok_aligned [OF ok P(2) [OF that(1)]] P(3) [OF that(1)] that(2)] by blast
  from U1 obtain lost where fok: "frames_ok (kfr k) own lost" by (auto simp: spaces_ok_def fr1)
  note F = frames_free_ok [OF fok P(2) [OF at]] frames_free_avail [OF fok P(2) [OF at]]
  have S: "spaces_ok ps k' (own - {f}) T" unfolding k'
    by (rule spaces_scribble(1) [OF U1, where m' = "pm k1", simplified]) (use F(1) fr1 P(3) [OF at] spaces_okD(2) [OF U1] in \<open>auto simp: frames_free_def\<close>)
  have i: "i < length ms" using at by (simp add: page_at_def)
  show "pages_ok (ms[i := evict_page idx (ms ! i)]) ps k' d (own - {f}) T"
    unfolding pages_ok_def page_at_evict [OF i] page_record_evict [OF i]
  proof (intro conjI allI impI S, goal_cases)
    case (1 i' idx' g) then show ?case using P(2) [of i' idx' g] P(4) [OF at, of i' idx'] by auto
  next
    case (2 i' idx' g j) then show ?case using P(3) by blast
  next
    case (3 i' idx' g i2 idx2) then show ?case using P(4) by blast
  next
    case (4 i' idx' g i2 idx2) then show ?case using P(4) by blast
  next
    case (5 i' idx' g b) then show ?case using M [of i' idx' g b] P(5) [of i' idx' g b] by (simp add: k')
  next
    case (6 j q g)
    then have w: "walk (pm k) (root_of ps j) q = Some g" and no: "\<not> (\<exists>mp\<in>set (md_mappings (ms ! i)). mm_pid mp = j \<and> q = path (mm_base mp + idx * PAGE_SIZE))"
      using W [of j q] by (auto simp: k' split: if_splits)
    have "g \<noteq> f" using P(7) [of j q g i idx] 6 w no at by auto
    then show ?case using P(6) [of j q g] 6 w F(2) by (simp add: k' fr1)
  next
    case (7 j q g i' idx')
    then have "walk (pm k) (root_of ps j) q = Some g" using W [of j q] by (auto simp: k' split: if_splits)
    then show ?case using P(7) [of j q g i' idx'] 7 by blast
  qed
  show "free_count (kfr k') = free_count (kfr k) + 1" "avail (kfr k') = insert f (avail (kfr k))"
    by (simp_all add: k' fr1 frames_free_count F(2))
  show "walk (pm k') (root_of ps j) q \<in> {None, walk (pm k) (root_of ps j) q}" if "j < length ps" "is_path q" "length q = 4"
    using W [OF that] by (simp add: k')
qed

text \<open>How a whole pass moves memory from the store to the free frames; it only takes mappings away.\<close>

definition evicts :: "procs \<Rightarrow> disk \<Rightarrow> (nat \<Rightarrow> nat list) \<Rightarrow> nat \<Rightarrow> Model list \<Rightarrow> kmem \<Rightarrow> nat set \<Rightarrow> Model list \<Rightarrow> kmem \<Rightarrow> nat set \<Rightarrow> bool" where
  "evicts ps d T n ms k own ms' k' own' \<longleftrightarrow> pages_ok ms' ps k' d own' T \<and> own' \<subseteq> own
     \<and> map md_id ms' = map md_id ms \<and> sum_list (map resident_pages ms') + n = sum_list (map resident_pages ms)
     \<and> free_count (kfr k') = free_count (kfr k) + n \<and> avail (kfr k') = avail (kfr k) \<union> (own - own')
     \<and> (\<forall>i idx f. page_at ms i idx f \<longrightarrow> page_at ms' i idx f \<or> f \<notin> own')
     \<and> (\<forall>j<length ps. \<forall>q. is_path q \<and> length q = 4 \<longrightarrow> walk (pm k') (root_of ps j) q \<in> {None, walk (pm k) (root_of ps j) q})"

lemma evicts_refl: "pages_ok ms ps k d own T \<Longrightarrow> evicts ps d T 0 ms k own ms k own"
  by (simp add: evicts_def)

lemma evicts_trans:
  assumes "evicts ps d T n ms k own ms1 k1 own1" and "evicts ps d T n1 ms1 k1 own1 ms2 k2 own2"
  shows "evicts ps d T (n + n1) ms k own ms2 k2 own2"
  unfolding evicts_def
proof (intro conjI allI impI)
  show "walk (pm k2) (root_of ps j) q \<in> {None, walk (pm k) (root_of ps j) q}" if "j < length ps" "is_path q \<and> length q = 4" for j q
    using assms that unfolding evicts_def by fastforce
  show "page_at ms2 i idx f \<or> f \<notin> own2" if "page_at ms i idx f" for i idx f using assms that unfolding evicts_def by blast
qed (use assms in \<open>auto simp: evicts_def\<close>)

lemma resident_evict:
  assumes "idx < length xs" and "xs ! idx = Resident f"
  shows "length (filter is_resident (xs[idx := Absent])) + 1 = length (filter is_resident xs)"
proof -
  have e: "xs = take idx xs @ Resident f # drop (Suc idx) xs" using assms id_take_nth_drop by metis
  show ?thesis unfolding upd_conv_take_nth_drop [OF assms(1)]
    by (subst (2) e) (simp add: is_resident_def)
qed

lemma evicts_one:
  assumes ok: "pages_ok ms ps k d own T" and at: "page_at ms i idx f"
    and k'_def: "k' = (let k = unmap_everywhere idx (md_mappings (ms ! i)) ps k in k\<lparr>kfr := frames_free f (kfr k)\<rparr>)"
  shows "evicts ps d T 1 ms k own (ms[i := evict_page idx (ms ! i)]) k' (own - {f})"
proof -
  note E = evict_ok [OF ok at k'_def]
  have i: "i < length ms" and f: "f \<in> own" using at pages_okD(2) [OF ok at] by (simp_all add: page_at_def)
  have ids: "map md_id (ms[i := evict_page idx (ms ! i)]) = map md_id ms" using i by (simp add: map_update list_update_same_conv)
  have "resident_pages (evict_page idx (ms ! i)) + 1 = resident_pages (ms ! i)"
    using at resident_evict [of idx "md_pages (ms ! i)" f] by (simp add: page_at_def resident_pages_def evict_page_def)
  moreover have "resident_pages (ms ! i) \<le> sum_list (map resident_pages ms)" using i elem_le_sum_list [of i "map resident_pages ms"] by simp
  ultimately have "sum_list (map resident_pages (ms[i := evict_page idx (ms ! i)])) + 1 = sum_list (map resident_pages ms)"
    using i by (simp add: map_update sum_list_update)
  moreover have "page_at (ms[i := evict_page idx (ms ! i)]) i' idx' g \<or> g \<notin> own - {f}" if "page_at ms i' idx' g" for i' idx' g
    using that pages_okD(4) [OF ok that, of i idx] at unfolding page_at_evict [OF i] by (cases "(i', idx') = (i, idx)") (auto simp: page_at_def)
  ultimately show ?thesis using E ids f unfolding evicts_def by auto
qed

text \<open>The pages of one model, and then all models.\<close>

lemma reclaim_pages_ok:
  assumes "pages_ok ms ps k d own T" and "i < length ms" and "reclaim_pages want ps is (freed, ms ! i, k, res) = (freed', m', k', res')"
    and "\<forall>x\<in>set is. x < length (md_pages (ms ! i))" and "distinct is" and "freed \<le> want"
  shows "\<exists>own'. evicts ps d T (freed' - freed) ms k own (ms[i := m']) k' own' \<and> length (md_pages m') = length (md_pages (ms ! i))
    \<and> freed' = freed + min (want - freed) (length (filter (\<lambda>x. is_resident (md_pages (ms ! i) ! x)) is)) \<and> res' = res - (freed' - freed)"
  using assms
proof (induction "is" arbitrary: ms k own freed res)
  case Nil
  then show ?case using evicts_refl [OF Nil.prems(1)] by auto
next
  case (Cons x xs)
  show ?case
  proof (cases "freed = want \<or> \<not> is_resident (md_pages (ms ! i) ! x)")
    case True
    then consider "freed = want" | "freed \<noteq> want" "\<not> is_resident (md_pages (ms ! i) ! x)" by blast
    then show ?thesis
    proof cases
      case 1
      then show ?thesis using Cons.prems evicts_refl [OF Cons.prems(1)] by auto
    next
      case 2
      then have "reclaim_pages want ps xs (freed, ms ! i, k, res) = (freed', m', k', res')"
        using Cons.prems(3) by (auto simp: is_resident_def split: PageState.splits)
      from Cons.IH [OF Cons.prems(1,2) this] 2(2) Cons.prems show ?thesis by auto
    qed
  next
    case False
    then obtain f where f: "md_pages (ms ! i) ! x = Resident f" by (auto simp: is_resident_def split: PageState.splits)
    define k1 where "k1 = (let k = unmap_everywhere x (md_mappings (ms ! i)) ps k in k\<lparr>kfr := frames_free f (kfr k)\<rparr>)"
    let ?ms = "ms[i := evict_page x (ms ! i)]"
    have at: "page_at ms i x f" using f Cons.prems by (simp add: page_at_def)
    note E = evicts_one [OF Cons.prems(1) at k1_def]
    have m1: "?ms ! i = evict_page x (ms ! i)" using Cons.prems(2) by simp
    have r: "reclaim_pages want ps xs (freed + 1, ?ms ! i, k1, res - 1) = (freed', m', k', res')"
      using Cons.prems(3) f False unfolding m1 by (simp add: k1_def Let_def evict_page_def)
    have same: "filter (\<lambda>y. is_resident (md_pages (?ms ! i) ! y)) xs = filter (\<lambda>y. is_resident (md_pages (ms ! i) ! y)) xs"
      unfolding m1 using Cons.prems(5) 
      by (intro filter_cong refl) (metis (no_types, lifting) distinct.simps(2) evict_page_pages nth_list_update_neq)
    have p1: "pages_ok ?ms ps k1 d (own - {f}) T" using E by (simp add: evicts_def)
    have b: "\<forall>y\<in>set xs. y < length (md_pages (?ms ! i))" using Cons.prems(4) m1 by simp
    from Cons.IH [OF p1 _ r b] Cons.prems False obtain own2 where
      I: "evicts ps d T (freed' - (freed + 1)) ?ms k1 (own - {f}) (?ms[i := m']) k' own2" "length (md_pages m') = length (md_pages (?ms ! i))"
        "freed' = freed + 1 + min (want - (freed + 1)) (length (filter (\<lambda>y. is_resident (md_pages (ms ! i) ! y)) xs))"
        "res' = res - 1 - (freed' - (freed + 1))"
      unfolding same by fastforce
    have n: "1 + (freed' - (freed + 1)) = freed' - freed" using I(3) by simp
    have "evicts ps d T (freed' - freed) ms k own (ms[i := m']) k' own2" using evicts_trans [OF E I(1)] unfolding n by simp
    moreover have "length (md_pages m') = length (md_pages (ms ! i))" using I(2) m1 by simp
    moreover have "freed' = freed + min (want - freed) (length (filter (\<lambda>y. is_resident (md_pages (ms ! i) ! y)) (x # xs)))"
      using I(3) False Cons.prems(6) by auto
    moreover have "res' = res - (freed' - freed)" using I(3,4) by simp
    ultimately show ?thesis by blast
  qed
qed

lemma resident_rev: "length (filter (\<lambda>x. is_resident (xs ! x)) (rev [0..<length xs])) = length (filter is_resident xs)"
proof -
  have "filter is_resident xs = map ((!) xs) (filter (\<lambda>x. is_resident (xs ! x)) [0..<length xs])"
    using filter_map [of is_resident "(!) xs" "[0..<length xs]"] by (simp add: map_nth comp_def)
  then show ?thesis by (metis length_map length_rev rev_filter)
qed

lemma min_split_sum: "f + min (w - f) a + min (w - (f + min (w - f) a)) b = f + min (w - f) (a + b)" for f :: nat
proof (cases "w - f \<le> a")
  case False
  then have "f + a \<le> w" by linarith
  then obtain c where "w = f + a + c" using le_Suc_ex by blast
  then show ?thesis by (simp add: min_def)
qed (simp add: min_absorb1)

lemma reclaim_models_ok:
  assumes "pages_ok (pre @ ms) ps k d own T" and "reclaim_models want ps ms (freed, k, res) = (ms', freed', k', res')" and "freed \<le> want"
  shows "\<exists>own'. evicts ps d T (freed' - freed) (pre @ ms) k own (pre @ ms') k' own'
    \<and> freed' = freed + min (want - freed) (sum_list (map resident_pages ms)) \<and> res' = res - (freed' - freed)"
  using assms
proof (induction ms arbitrary: pre k own freed res ms')
  case Nil
  then show ?case using evicts_refl [OF Nil.prems(1)] by auto
next
  case (Cons m ms)
  let ?l = "pre @ m # ms" and ?i = "length pre"
  obtain f1 m1 k1 r1 where a: "reclaim_pages want ps (rev [0..<length (md_pages m)]) (freed, m, k, res) = (f1, m1, k1, r1)" by (metis prod_cases4)
  obtain ms2 where b: "reclaim_models want ps ms (f1, k1, r1) = (ms2, freed', k', res')" "ms' = m1 # ms2"
    using Cons.prems(2) a by (auto split: prod.splits)
  have "?l ! ?i = m" by simp
  with reclaim_pages_ok [OF Cons.prems(1), of ?i want "rev [0..<length (md_pages m)]" freed res f1 m1 k1 r1] a Cons.prems(3) obtain own1 where
    A: "evicts ps d T (f1 - freed) ?l k own (pre @ m1 # ms) k1 own1" "f1 = freed + min (want - freed) (resident_pages m)" "r1 = res - (f1 - freed)"
    by (auto simp: resident_rev resident_pages_def)
  have "pages_ok ((pre @ [m1]) @ ms) ps k1 d own1 T" using A(1) by (simp add: evicts_def)
  moreover have "f1 \<le> want" using A(2) Cons.prems(3) by simp
  ultimately obtain own2 where
    B: "evicts ps d T (freed' - f1) (pre @ m1 # ms) k1 own1 (pre @ m1 # ms2) k' own2"
      "freed' = f1 + min (want - f1) (sum_list (map resident_pages ms))" "res' = r1 - (freed' - f1)"
    using Cons.IH [OF _ b(1), of "pre @ [m1]" own1] by auto
  have le1: "freed \<le> f1" and le2: "f1 \<le> freed'" unfolding B(2) A(2) by simp_all
  have n: "f1 - freed + (freed' - f1) = freed' - freed" using le1 le2 by simp
  have "evicts ps d T (freed' - freed) ?l k own (pre @ ms') k' own2" using evicts_trans [OF A(1) B(1)] unfolding n b(2) by simp
  moreover have "freed' = freed + min (want - freed) (sum_list (map resident_pages (m # ms)))"
    unfolding B(2) A(2) list.map sum_list.Cons min_split_sum ..
  moreover have "res' = res - (freed' - freed)" unfolding B(3) A(3) diff_diff_left n ..
  ultimately show ?case by blast
qed

lemma reclaim_ok:
  assumes ok: "store_ok st ps k d own T" and r: "reclaim want ps st k = (n, st', k')"
  shows "n = min want (RESIDENT st)" and "\<exists>own'\<subseteq>own. store_ok st' ps k' d own' T \<and> avail (kfr k') = avail (kfr k) \<union> (own - own')"
    and "RESIDENT st' = RESIDENT st - n" and "free_count (kfr k') = free_count (kfr k) + n"
    and "RESIDENT st \<le> want \<Longrightarrow> page_at (md_models st) i idx f \<Longrightarrow> f \<in> avail (kfr k')"
    and "j < length ps \<Longrightarrow> is_path q \<Longrightarrow> length q = 4 \<Longrightarrow> walk (pm k') (root_of ps j) q \<in> {None, walk (pm k) (root_of ps j) q}"
proof -
  obtain ms' res' where m: "reclaim_models want ps (md_models st) (0, k, RESIDENT st) = (ms', n, k', res')"
    and st': "st' = st\<lparr>md_models := ms', RESIDENT := res'\<rparr>" using r by (auto simp: reclaim_def split: prod.splits)
  have pg: "pages_ok ([] @ md_models st) ps k d own T" and res: "RESIDENT st = sum_list (map resident_pages (md_models st))"
    and dist: "distinct (map md_id (md_models st))" using ok by (simp_all add: store_ok_def)
  from reclaim_models_ok [OF pg m] obtain own' where
    E: "evicts ps d T n (md_models st) k own ms' k' own'" "n = min want (RESIDENT st)" "res' = RESIDENT st - n" using res by auto
  show "n = min want (RESIDENT st)" by (rule E(2))
  show "RESIDENT st' = RESIDENT st - n" by (simp add: st' E(3))
  have "store_ok st' ps k' d own' T" using E(1,3) dist res by (auto simp: store_ok_def evicts_def st')
  moreover have "own' \<subseteq> own" "avail (kfr k') = avail (kfr k) \<union> (own - own')" using E(1) by (simp_all add: evicts_def)
  ultimately show "\<exists>own'\<subseteq>own. store_ok st' ps k' d own' T \<and> avail (kfr k') = avail (kfr k) \<union> (own - own')" by blast
  show "free_count (kfr k') = free_count (kfr k) + n" using E(1) by (simp add: evicts_def)
  show "f \<in> avail (kfr k')" if w: "RESIDENT st \<le> want" and at: "page_at (md_models st) i idx f"
  proof -
    have "sum_list (map resident_pages ms') = 0" using E(1,2) w res by (simp add: evicts_def)
    then have "resident_pages m = 0" if "m \<in> set ms'" for m using that by simp
    then have "\<not> is_resident x" if "m \<in> set ms'" "x \<in> set (md_pages m)" for m x using that by (auto simp: resident_pages_def filter_empty_conv)
    moreover have "is_resident (Resident f)" by (simp add: is_resident_def)
    ultimately have "\<not> page_at ms' i idx f" unfolding page_at_def by (metis nth_mem)
    moreover have "f \<in> own" using pages_okD(2) [OF pg, of i idx f] at by simp
    moreover have "page_at ms' i idx f \<or> f \<notin> own'" "avail (kfr k') = avail (kfr k) \<union> (own - own')" using E(1) at unfolding evicts_def by blast+
    ultimately show ?thesis by blast
  qed
  show "j < length ps \<Longrightarrow> is_path q \<Longrightarrow> length q = 4 \<Longrightarrow> walk (pm k') (root_of ps j) q \<in> {None, walk (pm k) (root_of ps j) q}"
    using E(1) unfolding evicts_def by blast
qed

section \<open>Faults\<close>

text \<open>
  Mapping one frame for one process, seen over all address spaces: the process gets the one page, no
  other walk changes, and memory is written only in tables that are its own or were free.
\<close>

lemma map_spaces:
  assumes ok: "spaces_ok ps k own T" and pid: "pid < length ps" and f: "f < 2 ^ 48"
    and m: "space_map va f 1 perm (p_space (ps ! pid)) k = (r, spc, k')"
  obtains own' new where "spaces_ok (ps[pid := (ps ! pid)\<lparr>p_space := spc\<rparr>]) k' own' (T(pid := T pid @ new))"
    and "\<And>j. root_of (ps[pid := (ps ! pid)\<lparr>p_space := spc\<rparr>]) j = root_of ps j"
    and "\<And>j q. j < length ps \<Longrightarrow> is_path q \<Longrightarrow> length q = 4 \<Longrightarrow>
      walk (pm k') (root_of ps j) q = (if r = Inr () \<and> j = pid \<and> q = path va then Some f else walk (pm k) (root_of ps j) q)"
    and "\<And>x. (\<And>t. t \<in> set (T pid) \<union> set new \<Longrightarrow> \<not> in_frame t x) \<Longrightarrow> pm k' x = pm k x"
    and "own \<subseteq> own'" and "set new \<inter> own = {}" and "avail (kfr k') \<subseteq> avail (kfr k)" and "\<And>t. t \<in> set new \<Longrightarrow> t mod PAGE_SIZE = 0"
proof -
  let ?S = "p_space (ps ! pid)" and ?ps = "ps[pid := (ps ! pid)\<lparr>p_space := spc\<rparr>]"
  from space_map_owned [OF m] obtain new where N: "spc = with_owned ?S (as_owned ?S @ new)"
    "space_map va f 1 perm (with_owned ?S (T pid)) k = (r, with_owned ?S (T pid @ new), k')" by blast
  have sok: "space_ok (with_owned ?S (T pid)) k own" using ok pid by (simp add: spaces_ok_def)
  obtain lost where fo: "frames_ok (kfr k) own lost" using ok by (auto simp: spaces_ok_def)
  from map_one [OF N(2) sok f] obtain own' where
    E: "extends (with_owned ?S (T pid)) k own (with_owned ?S (T pid @ new)) k' own'"
    and W: "\<forall>q. is_path q \<and> length q = 4 \<longrightarrow> walk (pm k') (as_root ?S) q = (if r = Inr () \<and> q = path va then Some f else walk (pm k) (as_root ?S) q)"
    by auto
  have tk: "takes (kfr k) own new (kfr k')" using space_map_takes [OF N(2) fo] by auto
  have new_own: "set new \<inter> own = {}" using avail_not_owned [OF fo] tk by (auto simp: takes_def)
  have own: "own \<subseteq> own'" "\<And>x. (\<And>t. t \<in> set (T pid) \<union> set new \<Longrightarrow> \<not> in_frame t x) \<Longrightarrow> pm k' x = pm k x"
    and s': "space_ok (with_owned ?S (T pid @ new)) k' own'" using E by (auto simp: extends_def)
  have newal: "t mod PAGE_SIZE = 0" if "t \<in> set new" for t using s' that by (auto simp: space_ok_def tree_def)
  have root: "root_of ?ps j = root_of ps j" for j using pid by (cases "j = pid") (simp_all add: N(1))
  have iso: "space_ok (with_owned (p_space (ps ! j)) (T j)) k' own' \<and> set (T j) \<inter> set (T pid @ new) = {}" if "j < length ps" "j \<noteq> pid" for j
  proof -
    have "set (T j) \<inter> set (T pid) = {}" using ok pid that by (simp add: spaces_ok_def)
    then show ?thesis using extends_isolated(1,3) [OF E, of "with_owned (p_space (ps ! j)) (T j)"] ok that by (simp add: spaces_ok_def)
  qed
  have wo: "walk (pm k') (root_of ps j) q = walk (pm k) (root_of ps j) q" if "j < length ps" "j \<noteq> pid" "is_path q" "length q \<le> 4" for j q
  proof (rule walk_outside [OF spaces_okD(1) [OF ok that(1)] _ that(3,4)])
    fix x t assume t: "t \<in> set (T j)" "in_frame t x"
    show "pm k' x = pm k x"
    proof (rule own(2))
      fix t' assume t': "t' \<in> set (T pid) \<union> set new"
      then have "t' \<noteq> t" "t' mod PAGE_SIZE = 0" using iso [OF that(1,2)] t(1) newal spaces_okD(3) [OF ok pid] by auto
      then show "\<not> in_frame t' x" using frames_disjoint [of t' t x] t(2) spaces_okD(3) [OF ok that(1) t(1)] by simp
    qed
  qed
  have sp: "spaces_ok ?ps k' own' (T(pid := T pid @ new))"
    unfolding spaces_ok_def
  proof (intro conjI allI impI)
    fix j assume "j < length ?ps"
    then show "space_ok (with_owned (p_space (?ps ! j)) ((T(pid := T pid @ new)) j)) k' own'" using s' iso [of j] by (cases "j = pid") (simp_all add: N(1))
  next
    fix i j assume ij: "i < length ?ps" "j < length ?ps" "i \<noteq> j"
    have "set (T i) \<inter> set (T j) = {}" using ok ij by (simp add: spaces_ok_def)
    then show "set ((T(pid := T pid @ new)) i) \<inter> set ((T(pid := T pid @ new)) j) = {}"
      using ij iso [of i] iso [of j] by (cases "i = pid"; cases "j = pid") auto
  qed (use s' in \<open>auto simp: space_ok_def\<close>)
  have wk: "walk (pm k') (root_of ps j) q = (if r = Inr () \<and> j = pid \<and> q = path va then Some f else walk (pm k) (root_of ps j) q)"
    if "j < length ps" "is_path q" "length q = 4" for j q
    using W wo [OF that(1) _ that(2)] that by (cases "j = pid") simp_all
  show thesis
    by (rule that [OF sp root wk own(2) own(1) new_own _ newal]) (use tk in \<open>auto simp: takes_def\<close>)
qed

definition recorded :: "Model \<Rightarrow> nat \<Rightarrow> nat \<Rightarrow> nat \<Rightarrow> bool" where
  "recorded m pid idx va \<longleftrightarrow> (\<exists>mp\<in>set (md_mappings m). mm_pid mp = pid \<and> va = mm_base mp + idx * PAGE_SIZE)"

text \<open>A mapping of a resident page, made where the store has it on record.\<close>

lemma map_into_ok:
  assumes ok: "pages_ok ms ps k d own T" and pid: "pid < length ps" and at: "page_at ms i idx f" and rec: "recorded (ms ! i) pid idx va"
    and m: "map_into pid va f ps k = (b, ps', k')"
  shows "\<exists>own' T'. pages_ok ms ps' k' d own' T' \<and> length ps' = length ps
    \<and> (\<forall>j q. j < length ps \<and> is_path q \<and> length q = 4 \<longrightarrow> walk (pm k') (root_of ps' j) q =
        (if b \<and> j = pid \<and> q = path va then Some f else walk (pm k) (root_of ps j) q))"
proof -
  note P = pages_okD [OF ok]
  obtain lost where fo: "frames_ok (kfr k) own lost" "END (kfr k) \<le> 2 ^ 48" using P(1) by (auto simp: spaces_ok_def)
  have f48: "f < 2 ^ 48" using frames_ok_owned(3) [OF fo(1) P(2) [OF at]] fo(2) by (simp add: PAGE_SIZE_def)
  obtain r spc where s: "space_map va f 1 UserReadOnly (p_space (ps ! pid)) k = (r, spc, k')"
    and b: "b = (r = Inr ())" and ps': "ps' = ps[pid := (ps ! pid)\<lparr>p_space := spc\<rparr>]"
    using m pid by (auto simp: map_into_def proc_get_def upd_proc_def split: prod.splits)
  from map_spaces [OF P(1) pid f48 s] obtain own' new where
    S: "spaces_ok ps' k' own' (T(pid := T pid @ new))" "\<And>j. root_of ps' j = root_of ps j" 
    and W: "\<And>j q. j < length ps \<Longrightarrow> is_path q \<Longrightarrow> length q = 4 \<Longrightarrow>
        walk (pm k') (root_of ps j) q = (if r = Inr () \<and> j = pid \<and> q = path va then Some f else walk (pm k) (root_of ps j) q)"
    and M: "\<And>x. (\<And>t. t \<in> set (T pid) \<union> set new \<Longrightarrow> \<not> in_frame t x) \<Longrightarrow> pm k' x = pm k x"
    and N: "own \<subseteq> own'" "set new \<inter> own = {}" "avail (kfr k') \<subseteq> avail (kfr k)" "\<And>t. t \<in> set new \<Longrightarrow> t mod PAGE_SIZE = 0"
    unfolding ps' by blast
  have len: "length ps' = length ps" by (simp add: ps')
  have "pages_ok ms ps' k' d own' (T(pid := T pid @ new))"
    unfolding pages_ok_def S(2) len
  proof (intro conjI allI impI S(1), goal_cases)
    case (1 i' idx' g) then show ?case using P(2) N(1) by blast
  next
    case (2 i' idx' g j) then show ?case using P(2) [of i' idx' g] P(3) [of i' idx' g j] N(2) by auto
  next
    case (3 i' idx' g i2 idx2) then show ?case using P(4) by blast
  next
    case (4 i' idx' g i2 idx2) then show ?case using P(4) by blast
  next
    case (5 i' idx' g c)
    have "\<not> in_frame t (g + c)" if "t \<in> set (T pid) \<union> set new" for t
    proof (rule frames_disjoint [of t g])
      show "t mod PAGE_SIZE = 0" using that N(4) spaces_okD(3) [OF P(1) pid] by blast
      show "g mod PAGE_SIZE = 0" by (rule pages_ok_aligned [OF ok P(2) [OF 5(1)]])
      show "t \<noteq> g" using that P(2) [OF 5(1)] P(3) [OF 5(1) pid] N(2) by blast
    qed (use 5 in \<open>simp add: in_frame_def\<close>)
    then show ?case using M [of "g + c"] P(5) [OF 5] by simp
  next
    case (6 j q g)
    then have "g = f \<or> walk (pm k) (root_of ps j) q = Some g" using W [of j q] by (auto split: if_splits)
    then show ?case using P(6) [of j q g] 6 avail_not_owned [OF fo(1) P(2) [OF at]] N(3) by blast
  next
    case (7 j q g i' idx')
    then consider "g = f" "j = pid" "q = path va" | "walk (pm k) (root_of ps j) q = Some g" using W [of j q] by (auto split: if_splits)
    then show ?case
    proof cases
      case 1
      then have "i' = i \<and> idx' = idx" using P(4) [OF at] 7 by blast
      then show ?thesis using rec 1 by (auto simp: recorded_def)
    next
      case 2
      then show ?thesis using P(7) [of j q g i' idx'] 7 by blast
    qed
  qed
  then show ?thesis using W unfolding S(2) len b by blast
qed

text \<open>Reading a page writes only to the frame it fills.\<close>

lemma fill_page_outside:
  assumes "\<And>s. length (store d s) = SECTOR_SIZE" and "\<forall>s\<in>set ss. s < SECTORS_PER_PAGE" and "\<not> in_frame frame x"
  shows "snd (fill_page start sz idx frame d ss m) x = m x"
  using assms(2)
proof (induction ss arbitrary: m)
  case (Cons s ss)
  have "mwrite m (frame + s * SECTOR_SIZE) (take n bs) x = m x" if "length bs = SECTOR_SIZE" for n bs
  proof -
    have "s < 8" using Cons.prems by (simp add: page_sectors)
    then show ?thesis using assms(3) that by (auto simp: mwrite_nth in_frame_def PAGE_SIZE_def SECTOR_SIZE_def)
  qed
  then show ?case using Cons assms(1) by (auto simp: read_sector_def Let_def split: option.splits prod.splits)
qed simp

lemma pages_ok_cong:
  assumes "pages_ok ms ps k d own T" and "\<And>i idx f. page_at ms' i idx f \<longleftrightarrow> page_at ms i idx f"
    and "\<And>i. i < length ms \<Longrightarrow> md_mappings (ms' ! i) = md_mappings (ms ! i) \<and> md_start (ms' ! i) = md_start (ms ! i) \<and> md_size (ms' ! i) = md_size (ms ! i)"
  shows "pages_ok ms' ps k d own T"
proof -
  note P = pages_okD [OF assms(1)]
  have M: "md_mappings (ms' ! i) = md_mappings (ms ! i)" "md_start (ms' ! i) = md_start (ms ! i)" "md_size (ms' ! i) = md_size (ms ! i)" if "page_at ms i idx f" for i idx f
    using assms(3) [of i] that by (simp_all add: page_at_def)
  show ?thesis
    unfolding pages_ok_def assms(2)
  proof (intro conjI allI impI P(1), goal_cases)
    case (5 i idx f b) then show ?case using P(5) [OF 5] M [OF 5(1)] by simp
  next
    case (7 j q f i idx) then show ?case using P(7) [of j q f i idx] M(1) [OF 7(3)] by simp
  qed (use P(2-4,6) in blast)+
qed

lemma pages_ok_keep:
  assumes ok: "pages_ok ms ps k d own T" and S: "spaces_ok ps k' own' T" "own \<subseteq> own'" "avail (kfr k') \<subseteq> avail (kfr k)"
    and W: "\<And>j q. j < length ps \<Longrightarrow> is_path q \<Longrightarrow> length q = 4 \<Longrightarrow> walk (pm k') (root_of ps j) q = walk (pm k) (root_of ps j) q"
    and C: "\<And>i idx g b. page_at ms i idx g \<Longrightarrow> b < PAGE_SIZE \<Longrightarrow> pm k' (g + b) = pm k (g + b)"
  shows "pages_ok ms ps k' d own' T"
proof -
  note P = pages_okD [OF ok]
  show ?thesis
    unfolding pages_ok_def
  proof (intro conjI allI impI S(1), goal_cases)
    case (1 i idx f) then show ?case using P(2) S(2) by blast
  next
    case (5 i idx f b) then show ?case using P(5) [OF 5] C [OF 5] by simp
  next
    case (6 j q f) then show ?case using P(6) [of j q f] W [of j q] S(3) by auto
  next
    case (7 j q f i idx) then show ?case using P(7) [of j q f i idx] W [of j q] by auto
  qed (use P(3,4) in blast)+
qed

text \<open>A frame that was free holds a page being read: nothing of the store or of any process is in it.\<close>

lemma pages_ok_scratch:
  assumes ok: "pages_ok ms ps k d own T" and len: "\<And>s. length (store d s) = SECTOR_SIZE" and a: "frames_alloc (kfr k) = (Some f, fr)"
    and m': "\<And>x. \<not> in_frame f x \<Longrightarrow> m' x = pm k x"
  shows "pages_ok ms ps (k\<lparr>kfr := fr, pm := m'\<rparr>) d (insert f own) T"
    and "pages_ok ms ps (k\<lparr>kfr := frames_free f fr, pm := m'\<rparr>) d own T"
    and "j < length ps \<Longrightarrow> is_path q \<Longrightarrow> length q = 4 \<Longrightarrow> walk m' (root_of ps j) q = walk (pm k) (root_of ps j) q \<and> walk (pm k) (root_of ps j) q \<noteq> Some f"
    and "f \<notin> own"
proof -
  note P = pages_okD [OF ok]
  obtain lost where fo: "frames_ok (kfr k) own lost" using P(1) by (auto simp: spaces_ok_def)
  have new: "f \<notin> own" "frames_ok fr (insert f own) lost" using frames_alloc_ok [OF fo a] by simp_all
  show "f \<notin> own" by (rule new(1))
  have av: "f \<in> avail (kfr k)" "avail fr \<subseteq> avail (kfr k)" using frames_alloc_avail [OF fo a] by auto
  have al: "f mod PAGE_SIZE = 0" using frames_ok_owned(2) [OF new(2)] by simp
  have fre: "frames_ok (frames_free f fr) own lost" "avail (frames_free f fr) \<subseteq> avail (kfr k)"
    using frames_free_ok [OF new(2), of f] frames_free_avail [OF new(2), of f] new(1) av by auto
  have E: "END fr = END (kfr k)" "END (frames_free f fr) = END (kfr k)" using frames_alloc_END [OF a] by (simp_all add: frames_free_def)
  have tab: "m' x = pm k x" if "j < length ps" "t \<in> set (T j)" "in_frame t x" for j t x
  proof (rule m' [OF frames_disjoint])
    show "t mod PAGE_SIZE = 0" "f \<noteq> t" using spaces_okD(2,3) [OF P(1) that(1)] that(2) new(1) by auto
  qed (rule al, rule that(3))
  have Town: "set (T j) \<subseteq> own" if "j < length ps" for j using spaces_okD(2) [OF P(1) that] .
  have S1: "spaces_ok ps (k\<lparr>kfr := fr, pm := m'\<rparr>) (insert f own) T"
    by (rule spaces_scribble(1) [OF P(1) tab new(2) E(1)]) (use Town in auto)
  have S2: "spaces_ok ps (k\<lparr>kfr := frames_free f fr, pm := m'\<rparr>) own T"
    by (rule spaces_scribble(1) [OF P(1) tab fre(1) E(2)]) (use Town in auto)
  have W: "walk m' (root_of ps j) q = walk (pm k) (root_of ps j) q" if "j < length ps" "is_path q" "length q = 4" for j q
    by (rule spaces_scribble(2) [OF P(1) tab new(2) E(1)]) (use Town that in auto)
  show "walk m' (root_of ps j) q = walk (pm k) (root_of ps j) q \<and> walk (pm k) (root_of ps j) q \<noteq> Some f" if "j < length ps" "is_path q" "length q = 4"
    using W [OF that] P(6) [OF that] av(1) by blast
  have C: "m' (g + b) = pm k (g + b)" if "page_at ms i idx g" "b < PAGE_SIZE" for i idx g b
    using m' [of "g + b"] frames_disjoint [of f g "g + b"] al pages_ok_aligned [OF ok P(2) [OF that(1)]] P(2) [OF that(1)] new(1) that(2) by (auto simp: in_frame_def)
  show "pages_ok ms ps (k\<lparr>kfr := fr, pm := m'\<rparr>) d (insert f own) T"
    by (rule pages_ok_keep [OF ok S1]) (use W C av(2) in auto)
  show "pages_ok ms ps (k\<lparr>kfr := frames_free f fr, pm := m'\<rparr>) d own T"
    by (rule pages_ok_keep [OF ok S2]) (use W C fre(2) in auto)
qed

subsection \<open>The page table of a model\<close>

definition with_page :: "nat \<Rightarrow> PageState \<Rightarrow> nat \<Rightarrow> Model \<Rightarrow> Model" where
  "with_page idx s n m = m\<lparr>md_faults := md_faults m + n, md_pages := (md_pages m)[idx := s]\<rparr>"

lemma with_page_sel [simp]: "md_mappings (with_page idx s n m) = md_mappings m" "md_start (with_page idx s n m) = md_start m"
  "md_size (with_page idx s n m) = md_size m" "md_id (with_page idx s n m) = md_id m" "md_pages (with_page idx s n m) = (md_pages m)[idx := s]"
  "with_page idx s n (with_page idx s' n' m) = with_page idx s (n' + n) m"
  by (simp_all add: with_page_def)

lemma with_page_same: "md_pages m ! idx = s \<Longrightarrow> m\<lparr>md_faults := md_faults m + n\<rparr> = with_page idx s n m"
  by (cases m) (auto simp: with_page_def)

lemma page_at_with_page:
  assumes "i < length ms" and "idx < length (md_pages (ms ! i))"
  shows "page_at (ms[i := with_page idx s n (ms ! i)]) i' idx' g \<longleftrightarrow> (if (i', idx') = (i, idx) then s = Resident g else page_at ms i' idx' g)"
  using assms by (cases "i' = i"; cases "idx' = idx") (auto simp: page_at_def)

lemma record_with_page:
  "i' < length ms \<Longrightarrow> md_mappings (ms[i := with_page idx s n (ms ! i)] ! i') = md_mappings (ms ! i') \<and>
     md_start (ms[i := with_page idx s n (ms ! i)] ! i') = md_start (ms ! i') \<and> md_size (ms[i := with_page idx s n (ms ! i)] ! i') = md_size (ms ! i')"
  by (cases "i' = i") simp_all

text \<open>A page that is not resident may be claimed or given back; a filled frame may become its page.\<close>

lemma pages_ok_mark:
  assumes ok: "pages_ok ms ps k d own T" and i: "i < length ms" "idx < length (md_pages (ms ! i))"
    and s: "is_resident s \<Longrightarrow> md_pages (ms ! i) ! idx = s" "is_resident (md_pages (ms ! i) ! idx) \<Longrightarrow> md_pages (ms ! i) ! idx = s"
  shows "pages_ok (ms[i := with_page idx s n (ms ! i)]) ps k d own T"
proof (rule pages_ok_cong [OF ok])
  fix i' idx' f show "page_at (ms[i := with_page idx s n (ms ! i)]) i' idx' f \<longleftrightarrow> page_at ms i' idx' f"
    unfolding page_at_with_page [OF i] using s i by (auto simp: page_at_def is_resident_def)
qed (rule record_with_page)

lemma pages_ok_publish:
  assumes ok: "pages_ok ms ps k d own T" and i: "i < length ms" "idx < length (md_pages (ms ! i))"
    and f: "f \<in> own" "\<And>j. j < length ps \<Longrightarrow> f \<notin> set (T j)" "\<And>i' idx'. \<not> page_at ms i' idx' f"
    and W: "\<And>j q. j < length ps \<Longrightarrow> is_path q \<Longrightarrow> length q = 4 \<Longrightarrow> walk (pm k) (root_of ps j) q \<noteq> Some f"
    and C: "\<And>b. b < PAGE_SIZE \<Longrightarrow> pm k (f + b) = file_byte d (md_start (ms ! i)) (md_size (ms ! i)) (idx * PAGE_SIZE + b)"
  shows "pages_ok (ms[i := with_page idx (Resident f) n (ms ! i)]) ps k d own T" (is "pages_ok ?ms _ _ _ _ _")
proof -
  note P = pages_okD [OF ok] and at = page_at_with_page [OF i]
  have "md_mappings (?ms ! i') = md_mappings (ms ! i') \<and> md_start (?ms ! i') = md_start (ms ! i') \<and> md_size (?ms ! i') = md_size (ms ! i')" for i'
    using i(1) by (cases "i' = i") simp_all
  then have R: "md_mappings (?ms ! i') = md_mappings (ms ! i')" "md_start (?ms ! i') = md_start (ms ! i')" "md_size (?ms ! i') = md_size (ms ! i')" for i'
    by blast+
  show ?thesis
    unfolding pages_ok_def at R
  proof (intro conjI allI impI P(1), goal_cases)
    case (1 i' idx' g) then show ?case using P(2) f(1) by (auto split: if_splits)
  next
    case (2 i' idx' g j) then show ?case using P(3) f(2) by (auto split: if_splits)
  next
    case (3 i' idx' g i2 idx2) then show ?case using P(4) [of i' idx' g i2 idx2] f(3) by (auto split: if_splits)
  next
    case (4 i' idx' g i2 idx2) then show ?case using P(4) [of i' idx' g i2 idx2] f(3) by (auto split: if_splits)
  next
    case (5 i' idx' g b) then show ?case using P(5) [of i' idx' g b] C [of b] by (auto split: if_splits)
  next
    case (6 j q g) then show ?case using P(6) by blast
  next
    case (7 j q g i' idx') then show ?case using P(7) [of j q g i' idx'] W [of j q] by (auto split: if_splits)
  qed
qed

lemma resident_with_page:
  assumes i: "i < length ms" "idx < length (md_pages (ms ! i))"
  shows "sum_list (map resident_pages (ms[i := with_page idx s n (ms ! i)])) + (if is_resident (md_pages (ms ! i) ! idx) then 1 else 0) =
    sum_list (map resident_pages ms) + (if is_resident s then 1 else 0)"
proof -
  have one: "length (filter is_resident (xs[idx := s])) + (if is_resident (xs ! idx) then 1 else 0) = length (filter is_resident xs) + (if is_resident s then 1 else 0)"
    if "idx < length xs" for xs
    unfolding upd_conv_take_nth_drop [OF that] by (subst (3) id_take_nth_drop [OF that]) simp
  have "resident_pages (ms ! i) \<le> sum_list (map resident_pages ms)" using i elem_le_sum_list [of i "map resident_pages ms"] by simp
  then show ?thesis using one [OF i(2)] i(1) by (simp add: map_update sum_list_update resident_pages_def)
qed

subsection \<open>The store's operations on it\<close>

lemma position_comp: "position (\<lambda>x. p (f x)) xs = position p (map f xs)"
  by (induction xs) simp_all

lemma model_atD: "model_at ident st = Some i \<Longrightarrow> i < length (md_models st) \<and> md_id (md_models st ! i) = ident"
  unfolding model_at_def by (drule position_Some) simp

lemma upd_model_at: "model_at ident st = Some i \<Longrightarrow> upd_model ident g st = st\<lparr>md_models := (md_models st)[i := g (md_models st ! i)]\<rparr>"
  by (simp add: upd_model_def)

lemma model_at_with_page: "model_at x (st\<lparr>md_models := (md_models st)[i := with_page idx s n (md_models st ! i)]\<rparr>) = model_at x st"
proof -
  have "map md_id ((md_models st)[i := with_page idx s n (md_models st ! i)]) = map md_id (md_models st)"
    by (cases "i < length (md_models st)") (simp_all add: map_update list_update_same_conv list_update_beyond)
  then show ?thesis unfolding model_at_def position_comp [of "\<lambda>y. y = x" md_id] by simp
qed

definition mark :: "nat \<Rightarrow> nat \<Rightarrow> PageState \<Rightarrow> nat \<Rightarrow> store_state \<Rightarrow> store_state" where
  "mark i idx s n st = st\<lparr>md_models := (md_models st)[i := with_page idx s n (md_models st ! i)]\<rparr>"

lemma mark_sel [simp]: "model_at x (mark i idx s n st) = model_at x st" "RESIDENT (mark i idx s n st) = RESIDENT st"
  "md_models (mark i idx s n st) = (md_models st)[i := with_page idx s n (md_models st ! i)]"
  by (simp_all add: mark_def model_at_with_page)

lemma model_at_counters [simp]: "model_at x (st\<lparr>RESIDENT := r, SHARED_HITS := h\<rparr>) = model_at x st"
  by (simp add: model_at_def)

lemma mark_mark [simp]: "i < length (md_models st) \<Longrightarrow> mark i idx s n (mark i idx s' n' st) = mark i idx s (n' + n) st"
  by (simp add: mark_def)

lemma set_page_mark: "model_at ident st = Some i \<Longrightarrow> set_page ident idx s st = mark i idx s 0 st"
  by (simp add: set_page_def upd_model_at mark_def with_page_def)

lemma fault_claim_mark:
  assumes "model_at ident st = Some i"
  shows "fault_claim ident idx st = (if idx \<ge> length (md_pages (md_models st ! i)) then (None, st)
    else (Some (md_pages (md_models st ! i) ! idx), case md_pages (md_models st ! i) ! idx of
        Absent \<Rightarrow> mark i idx Loading 1 st | Loading \<Rightarrow> st | Resident f \<Rightarrow> mark i idx (Resident f) 1 st))"
proof (cases "md_pages (md_models st ! i) ! idx")
  case Absent
  then show ?thesis using assms by (simp add: fault_claim_def Let_def upd_model_at mark_def with_page_def)
next
  case (Resident f)
  note with_page_same [OF this, of 1]
  then show ?thesis using assms Resident by (simp add: fault_claim_def Let_def upd_model_at mark_def)
qed (use assms in \<open>simp add: fault_claim_def\<close>)

text \<open>
  One fault with nothing in between: where it succeeds the page is mapped, it is resident, and every
  other translation of every process is what it was.
\<close>

definition same_files :: "Model list \<Rightarrow> Model list \<Rightarrow> bool" where
  "same_files ms ms' \<longleftrightarrow> map (\<lambda>m. (md_id m, md_start m, md_size m)) ms' = map (\<lambda>m. (md_id m, md_start m, md_size m)) ms"

lemma same_files_mark [simp]: "same_files (md_models st) (md_models (mark i idx s n st))"
  by (cases "i < length (md_models st)") (auto simp: same_files_def map_update list_update_same_conv list_update_beyond)

lemma same_files_nth:
  assumes "same_files ms ms'" and "i < length ms"
  shows "md_start (ms' ! i) = md_start (ms ! i)" and "md_size (ms' ! i) = md_size (ms ! i)"
proof -
  have l: "length ms' = length ms" using assms(1) map_eq_imp_length_eq by (auto simp: same_files_def)
  then show "md_start (ms' ! i) = md_start (ms ! i)" "md_size (ms' ! i) = md_size (ms ! i)"
    using arg_cong [OF assms(1) [unfolded same_files_def], of "\<lambda>xs. xs ! i"] assms(2) by simp_all
qed

lemma same_files_refl [simp]: "same_files ms ms"
  by (simp add: same_files_def)

definition faulted :: "nat \<Rightarrow> nat \<Rightarrow> nat \<Rightarrow> nat \<Rightarrow> store_state \<Rightarrow> procs \<Rightarrow> kmem \<Rightarrow> disk \<Rightarrow> bool \<Rightarrow> store_state \<Rightarrow> procs \<Rightarrow> kmem \<Rightarrow> bool" where
  "faulted i idx pid va st ps k d b st' ps' k' \<longleftrightarrow> (\<exists>own' T'. store_ok st' ps' k' d own' T') \<and> length ps' = length ps
     \<and> (\<forall>x. model_at x st' = model_at x st) \<and> same_files (md_models st) (md_models st')
     \<and> (\<exists>f. (b \<longrightarrow> page_at (md_models st') i idx f)
         \<and> (\<forall>i' idx' g. page_at (md_models st) i' idx' g \<longrightarrow> page_at (md_models st') i' idx' g)
         \<and> (\<forall>j q. j < length ps \<and> is_path q \<and> length q = 4 \<longrightarrow> walk (pm k') (root_of ps' j) q =
              (if b \<and> j = pid \<and> q = path va then Some f else walk (pm k) (root_of ps j) q)))"

lemma faulted_none:
  assumes "store_ok st' ps k' d own' T'" and "\<And>x. model_at x st' = model_at x st" and "same_files (md_models st) (md_models st')"
    and "\<And>i' idx' g. page_at (md_models st) i' idx' g \<Longrightarrow> page_at (md_models st') i' idx' g"
    and "\<And>j q. j < length ps \<Longrightarrow> is_path q \<Longrightarrow> length q = 4 \<Longrightarrow> walk (pm k') (root_of ps j) q = walk (pm k) (root_of ps j) q"
  shows "faulted i idx pid va st ps k d False st' ps k'"
  using assms unfolding faulted_def by auto

lemma store_ok_mark:
  assumes ok: "store_ok st ps k d own T" and pg: "pages_ok (md_models (mark i idx s n st)) ps' k' d own' T'"
    and i: "i < length (md_models st)" "idx < length (md_pages (md_models st ! i))"
    and r: "r + (if is_resident (md_pages (md_models st ! i) ! idx) then 1 else 0) = RESIDENT st + (if is_resident s then 1 else 0)"
  shows "store_ok ((mark i idx s n st)\<lparr>RESIDENT := r, SHARED_HITS := h\<rparr>) ps' k' d own' T'"
proof -
  have "map md_id ((md_models st)[i := with_page idx s n (md_models st ! i)]) = map md_id (md_models st)"
    using i by (simp add: map_update list_update_same_conv)
  then show ?thesis using ok pg resident_with_page [OF i, of s n] r by (simp add: store_ok_def)
qed

text \<open>Mapping what is resident, the last step of both ways through a fault.\<close>

lemma map_resident:
  assumes ok: "store_ok st1 ps k1 d own T" and pid: "pid < length ps" and at: "page_at (md_models st1) i idx f"
    and rec: "recorded (md_models st1 ! i) pid idx va" and m: "map_into pid va f ps k1 = (b, ps', k')"
    and st: "\<And>x. model_at x st1 = model_at x st" "same_files (md_models st) (md_models st1)" "\<And>i' idx' g. page_at (md_models st) i' idx' g \<Longrightarrow> page_at (md_models st1) i' idx' g"
    and w: "\<And>j q. j < length ps \<Longrightarrow> is_path q \<Longrightarrow> length q = 4 \<Longrightarrow> walk (pm k1) (root_of ps j) q = walk (pm k) (root_of ps j) q"
  shows "faulted i idx pid va st ps k d b st1 ps' k'"
proof -
  from ok have "pages_ok (md_models st1) ps k1 d own T" by (simp add: store_ok_def)
  from map_into_ok [OF this pid at rec m] obtain own' T' where
    M: "pages_ok (md_models st1) ps' k' d own' T'" "length ps' = length ps"
      "\<And>j q. j < length ps \<Longrightarrow> is_path q \<Longrightarrow> length q = 4 \<Longrightarrow>
         walk (pm k') (root_of ps' j) q = (if b \<and> j = pid \<and> q = path va then Some f else walk (pm k1) (root_of ps j) q)" by blast
  have "store_ok st1 ps' k' d own' T'" using ok M(1) by (simp add: store_ok_def)
  then show ?thesis unfolding faulted_def using M(2,3) w st at by (intro conjI) (blast, simp_all, blast)
qed

text \<open>The page that was absent: its frame, what is read into it, and what becomes of it when that fails.\<close>

lemma fault_read_ok:
  assumes ok: "pages_ok ms ps k d own T" and len: "\<And>s. length (store d s) = SECTOR_SIZE"
    and at: "model_at ident st = Some i" and m: "md_models st ! i = m0"
    and r: "fault_read ident idx st k d = (rf, st', k')"
  shows "rf = None \<Longrightarrow> st' = mark i idx Absent 0 st \<and> pages_ok ms ps k' d own T"
    and "rf = Some f \<Longrightarrow> st' = st \<and> pages_ok ms ps k' d (insert f own) T \<and> f \<notin> own
      \<and> (\<forall>b<PAGE_SIZE. pm k' (f + b) = file_byte d (md_start m0) (md_size m0) (idx * PAGE_SIZE + b))
      \<and> (\<forall>j<length ps. \<forall>q. is_path q \<and> length q = 4 \<longrightarrow> walk (pm k') (root_of ps j) q \<noteq> Some f)"
    and "j < length ps \<Longrightarrow> is_path q \<Longrightarrow> length q = 4 \<Longrightarrow> walk (pm k') (root_of ps j) q = walk (pm k) (root_of ps j) q"
proof -
  obtain ra fr where a: "frames_alloc (kfr k) = (ra, fr)" by (cases "frames_alloc (kfr k)")
  have all: "(rf = None \<longrightarrow> st' = mark i idx Absent 0 st \<and> pages_ok ms ps k' d own T)
    \<and> (rf = Some f \<longrightarrow> st' = st \<and> pages_ok ms ps k' d (insert f own) T \<and> f \<notin> own
      \<and> (\<forall>b<PAGE_SIZE. pm k' (f + b) = file_byte d (md_start m0) (md_size m0) (idx * PAGE_SIZE + b))
      \<and> (\<forall>j<length ps. \<forall>q. is_path q \<and> length q = 4 \<longrightarrow> walk (pm k') (root_of ps j) q \<noteq> Some f))
    \<and> (j < length ps \<and> is_path q \<and> length q = 4 \<longrightarrow> walk (pm k') (root_of ps j) q = walk (pm k) (root_of ps j) q)" for f
  proof (cases ra)
    case None
    then have e: "rf = None" "st' = mark i idx Absent 0 st" "k' = k\<lparr>kfr := fr\<rparr>"
      using r a at by (simp_all add: fault_read_def Let_def set_page_mark)
    obtain lost where fo: "frames_ok (kfr k) own lost" using pages_okD(1) [OF ok] by (auto simp: spaces_ok_def)
    have "frames_ok fr own lost" using frames_alloc_ok [OF fo a] None by simp
    then have "spaces_ok ps k' own T" using spaces_scribble(1) [OF pages_okD(1) [OF ok], of "pm k" fr own lost] frames_alloc_END [OF a]
        spaces_okD(2) [OF pages_okD(1) [OF ok]] by (simp add: e(3))
    then have "pages_ok ms ps k' d own T" by (rule pages_ok_keep [OF ok]) (use frames_alloc_avail(1) [OF fo a] in \<open>simp_all add: e(3)\<close>)
    then show ?thesis by (simp add: e)
  next
    case (Some g)
    let ?z = "mwrite (pm k) g (replicate PAGE_SIZE 0)"
    obtain good m' where fp: "fill_page (md_start m0) (md_size m0) idx g d [0..<SECTORS_PER_PAGE] ?z = (good, m')" by fastforce
    have out: "m' x = pm k x" if "\<not> in_frame g x" for x
      using fill_page_outside [OF len, of "[0..<SECTORS_PER_PAGE]" g x "md_start m0" "md_size m0" idx ?z] that fp
      by (auto simp: mwrite_nth in_frame_def)
    have c: "m' (g + b) = file_byte d (md_start m0) (md_size m0) (idx * PAGE_SIZE + b)" if "good" "b < PAGE_SIZE" for b
      using fill_page_ok [OF len, of "md_start m0" "md_size m0" idx g 0 ?z m' b] fp that by (simp add: mwrite_nth)
    note S = pages_ok_scratch [OF ok len a [unfolded Some] out]
    show ?thesis
    proof (cases good)
      case True
      then have e: "rf = Some g" "st' = st" "k' = k\<lparr>kfr := fr, pm := m'\<rparr>" using r a Some at m fp by (simp_all add: fault_read_def Let_def)
      show ?thesis using S(1,4) S(3) c True unfolding e by auto
    next
      case False
      then have e: "rf = None" "st' = mark i idx Absent 0 st" "k' = k\<lparr>kfr := frames_free g fr, pm := m'\<rparr>"
        using r a Some at m fp by (simp_all add: fault_read_def Let_def set_page_mark)
      show ?thesis using S(2) S(3) unfolding e by auto
    qed
  qed
  show "rf = None \<Longrightarrow> st' = mark i idx Absent 0 st \<and> pages_ok ms ps k' d own T" using all by blast
  show "rf = Some f \<Longrightarrow> st' = st \<and> pages_ok ms ps k' d (insert f own) T \<and> f \<notin> own
      \<and> (\<forall>b<PAGE_SIZE. pm k' (f + b) = file_byte d (md_start m0) (md_size m0) (idx * PAGE_SIZE + b))
      \<and> (\<forall>j<length ps. \<forall>q. is_path q \<and> length q = 4 \<longrightarrow> walk (pm k') (root_of ps j) q \<noteq> Some f)" using all by blast
  show "j < length ps \<Longrightarrow> is_path q \<Longrightarrow> length q = 4 \<Longrightarrow> walk (pm k') (root_of ps j) q = walk (pm k) (root_of ps j) q" using all by blast
qed

lemma fault_publish_ok:
  assumes ok: "store_ok st ps k d own T" and len: "\<And>s. length (store d s) = SECTOR_SIZE" and at: "model_at ident st = Some i"
    and idx: "idx < length (md_pages (md_models st ! i))" and absent: "md_pages (md_models st ! i) ! idx = Absent"
    and r: "fault_read ident idx (mark i idx Loading 1 st) k d = (Some f, st1, k1)"
  shows "store_ok ((mark i idx (Resident f) 1 st)\<lparr>RESIDENT := RESIDENT st + 1\<rparr>) ps k1 d (insert f own) T"
proof -
  let ?st = "mark i idx Loading 1 st"
  have i: "i < length (md_models st)" using model_atD [OF at] by simp
  have pg: "pages_ok (md_models st) ps k d own T" using ok by (simp add: store_ok_def)
  have pgl: "pages_ok (md_models ?st) ps k d own T" unfolding mark_sel(3) by (rule pages_ok_mark [OF pg i idx]) (simp_all add: absent is_resident_def)
  have atl: "model_at ident ?st = Some i" using at by simp
  note R2 = fault_read_ok(2) [OF pgl len atl refl r refl]
  have "pages_ok (md_models (mark i idx (Resident f) 0 ?st)) ps k1 d (insert f own) T"
    unfolding mark_sel(3)
  proof (rule pages_ok_publish)
    show "f \<notin> set (T j)" if "j < length ps" for j using R2 spaces_okD(2) [OF pages_okD(1) [OF pgl] that] by blast
    show "\<not> page_at ((md_models st)[i := with_page idx Loading 1 (md_models st ! i)]) i' idx' f" for i' idx' using pages_okD(2) [OF pgl, of i' idx' f] R2 by auto
  qed (use R2 i idx in auto)
  then have "pages_ok (md_models (mark i idx (Resident f) 1 st)) ps k1 d (insert f own) T" using i by simp
  from store_ok_mark [OF ok this i idx, of "RESIDENT st + 1" "SHARED_HITS st"] show ?thesis by (simp add: absent is_resident_def mark_def)
qed

lemma model_fault_ok:
  assumes ok: "store_ok st ps k d own T" and len: "\<And>s. length (store d s) = SECTOR_SIZE" and pid: "pid < length ps"
    and at: "model_at ident st = Some i" and rec: "recorded (md_models st ! i) pid (offset div PAGE_SIZE) va"
    and mf: "model_fault ident offset pid va st ps k d = (Some b, st', ps', k')"
  shows "faulted i (offset div PAGE_SIZE) pid va st ps k d b st' ps' k'"
proof -
  define idx where "idx = offset div PAGE_SIZE"
  let ?ms = "md_models st" and ?m = "md_models st ! i"
  have i: "i < length ?ms" using model_atD [OF at] by simp
  note mf' = mf [unfolded model_fault_def Let_def, folded idx_def, unfolded fault_claim_mark [OF at]]
  have pg: "pages_ok ?ms ps k d own T" using ok by (simp add: store_ok_def)
  have recm: "recorded (md_models (mark i idx s n st) ! i) pid idx va" for s n using rec i by (simp add: recorded_def idx_def)
  show ?thesis
    unfolding idx_def [symmetric]
  proof (cases "idx < length (md_pages ?m)")
    case False
    then have "b = False" "st' = st" "ps' = ps" "k' = k" using mf' by simp_all
    then show "faulted i idx pid va st ps k d b st' ps' k'" using faulted_none [OF ok] by simp
  next
    case idx: True
    note markok = pages_ok_mark [OF pg i idx] and pageat = page_at_with_page [OF i idx] and keep = store_ok_mark [OF ok _ i idx]
    show "faulted i idx pid va st ps k d b st' ps' k'"
    proof (cases "md_pages ?m ! idx")
      case Loading
      then show ?thesis using mf' idx by simp
    next
      case (Resident f)
      let ?st = "(mark i idx (Resident f) 1 st)\<lparr>RESIDENT := RESIDENT st, SHARED_HITS := SHARED_HITS st + 1\<rparr>"
      obtain b1 ps1 k1 where m: "map_into pid va f ps k = (b1, ps1, k1)" by (metis prod_cases3)
      then have e: "b = b1" "st' = ?st" "ps' = ps1" "k' = k1" using mf' idx Resident by (simp_all add: mark_def)
      have "pages_ok (md_models (mark i idx (Resident f) 1 st)) ps k d own T" unfolding mark_sel(3) by (rule markok) (simp_all add: Resident)
      from keep [OF this, of "RESIDENT st" "SHARED_HITS st + 1"] have s: "store_ok ?st ps k d own T" using Resident by simp
      have p: "page_at (md_models ?st) i' idx' g \<longleftrightarrow> page_at (md_models st) i' idx' g" for i' idx' g 
        using Resident i idx by (simp add: pageat) (auto simp: page_at_def)
      show ?thesis unfolding e
        by (rule map_resident [OF s pid p [THEN iffD2] _ m _ _ p [THEN iffD2]]) (use recm [of "Resident f" 1] Resident idx i same_files_mark [of st i idx "Resident f" 1] in \<open>simp_all add: page_at_def\<close>)
    next
      case Absent
      let ?st = "mark i idx Loading 1 st"
      have atl: "model_at ident ?st = Some i" using at by simp
      obtain rf st1 k1 where r: "fault_read ident idx ?st k d = (rf, st1, k1)" by (metis prod_cases3)
      have pgl: "pages_ok (md_models ?st) ps k d own T" unfolding mark_sel(3) by (rule markok) (simp_all add: Absent is_resident_def)
      note R = fault_read_ok [OF pgl len atl refl r]
      show ?thesis
      proof (cases rf)
        case None
        then have s1: "st1 = mark i idx Absent 1 st" "pages_ok (md_models ?st) ps k1 d own T" using R(1) i by simp_all
        then have e: "b = False" "st' = mark i idx Absent 1 st" "ps' = ps" "k' = k1" using mf' idx Absent r None by simp_all
        have "pages_ok (md_models (mark i idx Absent 1 st)) ps k1 d own T"
          by (rule pages_ok_cong [OF s1(2)]) (use i Absent pageat record_with_page in \<open>auto simp: page_at_def\<close>)
        from keep [OF this, of "RESIDENT st" "SHARED_HITS st"] have "store_ok (mark i idx Absent 1 st) ps k1 d own T" using Absent by (simp add: is_resident_def mark_def)
        moreover have "page_at (md_models (mark i idx Absent 1 st)) i' idx' g" if "page_at (md_models st) i' idx' g" for i' idx' g
          using that Absent unfolding mark_sel(3) pageat by (auto simp: page_at_def)
        ultimately show ?thesis unfolding e by (intro faulted_none) (use R(3) same_files_mark [of st i idx Absent 1] in simp_all)
      next
        case (Some f)
        note R2 = R(2) [OF Some]
        let ?st2 = "(mark i idx (Resident f) 1 st)\<lparr>RESIDENT := RESIDENT st + 1, SHARED_HITS := SHARED_HITS st\<rparr>"
        obtain b1 ps1 k2 where m: "map_into pid va f ps k1 = (b1, ps1, k2)" by (metis prod_cases3)
        have fin: "fault_finish ident idx f ?st k1 = (True, ?st2, k1)" using atl i by (simp add: fault_finish_def set_page_mark mark_def)
        have e: "b = b1" "st' = ?st2" "ps' = ps1" "k' = k2" using mf' idx Absent r Some R2 m fin by simp_all
        have s: "store_ok ?st2 ps k1 d (insert f own) T" using fault_publish_ok [OF ok len at idx Absent r [unfolded Some]] by (simp add: mark_def)
        have p: "page_at (md_models ?st2) i' idx' g \<longleftrightarrow> page_at (md_models st) i' idx' g \<or> (i' = i \<and> idx' = idx \<and> g = f)" for i' idx' g
          using Absent by (simp add: pageat) (auto simp: page_at_def)
        show ?thesis unfolding e
          by (rule map_resident [OF s pid p [THEN iffD2, OF disjI2] _ m _ _ p [THEN iffD2, OF disjI1]]) (use recm [of "Resident f" 1] R(3) same_files_mark [of st i idx "Resident f" 1] in simp_all)
      qed
    qed
  qed
qed

section \<open>Properties\<close>


text \<open>
  C31: Reclaiming weights never leaves a process with memory it has lost. Asked for \<open>want\<close> pages, the store
  gives back exactly that many or all it has; as many frames become free; each was first unmapped from
  every process, so no translation of any process leads to a free frame, and no translation is added or
  changed by it. What stays resident still holds its file's bytes and the counter of resident pages is
  exact.
\<close>

theorem reclaim_unmaps:
  assumes "store_ok st ps k d own T" and "reclaim want ps st k = (n, st', k')"
  shows "n = min want (RESIDENT st) \<and> RESIDENT st' = RESIDENT st - n \<and> free_count (kfr k') = free_count (kfr k) + n
    \<and> (\<exists>own'\<subseteq>own. store_ok st' ps k' d own' T \<and> avail (kfr k') = avail (kfr k) \<union> (own - own'))
    \<and> (\<forall>j<length ps. \<forall>q. is_path q \<and> length q = 4 \<longrightarrow> walk (pm k') (root_of ps j) q \<in> {None, walk (pm k) (root_of ps j) q}
         \<and> (\<forall>f. walk (pm k') (root_of ps j) q = Some f \<longrightarrow> f \<notin> avail (kfr k')))"
proof -
  note R = reclaim_ok [OF assms]
  from R(2) obtain own' where "store_ok st' ps k' d own' T" by blast
  then have "pages_ok (md_models st') ps k' d own' T" by (simp add: store_ok_def)
  from pages_okD(6) [OF this] R show ?thesis by blast
qed

text \<open>
  The order between a fault and a reclaim matters, and nothing keeps it. A fault on a resident page
  reads the page's frame under the store's lock but maps it after letting the lock go. If the store is
  reclaimed in between, the frame is on the free list when it is mapped: the process is left reading
  memory that the next allocation hands to somebody else (or that \<open>map\<close> itself takes for a page table).
\<close>

theorem fault_races_reclaim:
  assumes "store_ok st ps k d own T" and "pid < length ps"
    and "fault_claim ident idx st = (Some (Resident f), st1)"
    and "reclaim want ps st1 k = (n, st2, k2)" and "RESIDENT st \<le> want"
    and "map_into pid va f ps k2 = (True, ps', k')"
  shows "f \<in> avail (kfr k2) \<and> walk (pm k') (root_of ps' pid) (path va) = Some f"
proof -
  obtain i where at: "model_at ident st = Some i" using assms(3) by (cases "model_at ident st") (simp_all add: fault_claim_def)
  have c: "idx < length (md_pages (md_models st ! i))" "md_pages (md_models st ! i) ! idx = Resident f" "st1 = mark i idx (Resident f) 1 st"
    using assms(3) unfolding fault_claim_mark [OF at] by (auto split: if_splits)
  have i: "i < length (md_models st)" using model_atD [OF at] by simp
  have pg: "pages_ok (md_models st) ps k d own T" using assms(1) by (simp add: store_ok_def)
  have "pages_ok (md_models st1) ps k d own T" unfolding c(3) mark_sel(3) by (rule pages_ok_mark [OF pg i c(1)]) (simp_all add: c(2))
  from store_ok_mark [OF assms(1) this [unfolded c(3)] i c(1), of "RESIDENT st" "SHARED_HITS st"]
  have s1: "store_ok st1 ps k d own T" by (simp add: c mark_def)
  have p1: "page_at (md_models st1) i idx f" using i c by (simp add: page_at_def)
  note R = reclaim_ok [OF s1 assms(4)]
  have av: "f \<in> avail (kfr k2)" using R(5) [OF _ p1] assms(5) by (simp add: c(3))
  from R(2) obtain own2 where "store_ok st2 ps k2 d own2 T" by blast
  then have sp: "spaces_ok ps k2 own2 T" using pages_okD(1) by (auto simp: store_ok_def)
  obtain lost where fo: "frames_ok (kfr k) own lost" "END (kfr k) \<le> 2 ^ 48" using pages_okD(1) [OF pg] by (auto simp: spaces_ok_def)
  have f48: "f < 2 ^ 48" using frames_ok_owned(3) [OF fo(1) pages_okD(2) [OF pg, of i idx f]] fo(2) i c(1,2) by (simp add: PAGE_SIZE_def page_at_def)
  obtain spc where m: "space_map va f 1 UserReadOnly (p_space (ps ! pid)) k2 = (Inr (), spc, k')" "ps' = ps[pid := (ps ! pid)\<lparr>p_space := spc\<rparr>]"
    using assms(2,6) by (auto simp: map_into_def proc_get_def upd_proc_def split: prod.splits)
  have "root_of ps' pid = root_of ps pid \<and> walk (pm k') (root_of ps pid) (path va) = Some f"
    by (rule map_spaces [OF sp assms(2) f48 m(1)]) (metis assms(2) is_path_path(1,2) m(2))
  with av show ?thesis by simp
qed

text \<open>A process, a file of 6000 bytes, and a disk on which sector \<open>s\<close> is filled with \<open>s\<close>.\<close>

definition demo_disk :: disk where
  "demo_disk = \<lparr>store = \<lambda>s. replicate 512 (ucast s), bad = \<lambda>_. None, power = None\<rparr>"

definition demo_store :: store_state where
  "demo_store = snd (model_attach 1 0 0x40000000 (snd (adopt_model 7 16 6000 store_new)))"

lemma demo_store_eq: "demo_store = store_new\<lparr>md_next_id := 2, md_models := [\<lparr>md_id = 1, md_hash = 7, md_size = 6000, md_start = 16, md_pages = [Absent, Absent],
    md_mappings = [\<lparr>mm_pid = 0, mm_base = 0x40000000\<rparr>], md_refs = 1, md_faults = 0, md_reclaimed = 0\<rparr>]\<rparr>"
  by (simp add: demo_store_def adopt_model_def model_attach_def model_at_def upd_model_def store_new_def div_ceil_def PAGE_SIZE_def numeral_2_eq_2)

lemma demo_store_ok:
  "\<exists>s0 k own T. store_ok demo_store [demo_process\<lparr>p_space := s0\<rparr>] k demo_disk own T \<and> 9 \<le> free_count (kfr k)"
proof -
  obtain s0 k1 where d: "AddressSpace_new demo_kmem = (Some s0, k1)" using demo_spaces by blast
  let ?r = "as_root s0" and ?ps = "[demo_process\<lparr>p_space := s0\<rparr>]"
  have P0: "private_ok s0 k1 {?r} [?r] {}" by (rule new_space_private(1) [OF demo_frames_ok d])
  obtain lost where fo: "frames_ok (kfr k1) {?r} lost" "END (kfr k1) \<le> 2 ^ 48" using P0 by (auto simp: private_ok_def space_ok_def)
  obtain f fr where "frames_alloc (kfr demo_kmem) = (Some f, fr)" "kfr k1 = fr" using d by (auto simp: AddressSpace_new_def alloc_table_def split: prod.splits option.splits)
  moreover have "free_count (kfr demo_kmem) = 20" by (simp add: demo_kmem_def frames_eval)
  ultimately have n: "9 \<le> free_count (kfr k1)" using frames_alloc_count(2) [OF demo_frames_ok(1)] by fastforce
  have none: "\<not> page_at (md_models demo_store) i idx g" for i idx g by (cases i; cases idx) (auto simp: page_at_def demo_store_eq nth_Cons split: nat.splits)
  have "spaces_ok ?ps k1 {?r} (\<lambda>_. [?r])" using P0 fo by (auto simp: spaces_ok_def private_ok_def)
  moreover have "walk (pm k1) ?r q = None" if "is_path q" "length q = 4" for q using P0 that by (auto simp: private_ok_def)
  ultimately have "pages_ok (md_models demo_store) ?ps k1 demo_disk {?r} (\<lambda>_. [?r])" using none by (auto simp: pages_ok_def)
  then have "store_ok demo_store ?ps k1 demo_disk {?r} (\<lambda>_. [?r])" by (simp add: store_ok_def demo_store_eq store_new_def resident_pages_def is_resident_def)
  with n show ?thesis by blast
qed

text \<open>With memory to spare and a disk that works, a fault on an absent page succeeds.\<close>

lemma fill_page_total: "\<forall>s. bad d s = None \<Longrightarrow> fst (fill_page start sz idx f d ss m)"
  by (induction ss arbitrary: m) (simp_all add: read_sector_def Let_def)

lemma fault_read_serves:
  assumes ok: "store_ok st ps k d own T" and len: "\<And>s. length (store d s) = SECTOR_SIZE" and disk: "\<forall>s. bad d s = None"
    and at: "model_at ident st = Some i" "idx < length (md_pages (md_models st ! i))" "md_pages (md_models st ! i) ! idx = Absent"
    and n: "0 < free_count (kfr k)"
  obtains f k1 where "fault_read ident idx (mark i idx Loading 1 st) k d = (Some f, mark i idx Loading 1 st, k1)"
    "free_count (kfr k1) + 1 = free_count (kfr k)"
proof -
  let ?m = "md_models st ! i"
  obtain lost where fo: "frames_ok (kfr k) own lost" using ok by (auto simp: store_ok_def pages_ok_def spaces_ok_def)
  obtain f fr where a: "frames_alloc (kfr k) = (Some f, fr)" using frames_alloc_ok [OF fo] n by (cases "frames_alloc (kfr k)") (force split: option.splits)
  obtain m' where fp: "fill_page (md_start ?m) (md_size ?m) idx f d [0..<SECTORS_PER_PAGE] (mwrite (pm k) f (replicate PAGE_SIZE 0)) = (True, m')"
    using fill_page_total [OF disk] by (metis (full_types) prod.collapse)
  have i: "i < length (md_models st)" using model_atD [OF at(1)] by simp
  have atl: "model_at ident (mark i idx Loading 1 st) = Some i" using at(1) by simp
  have "fault_read ident idx (mark i idx Loading 1 st) k d = (Some f, mark i idx Loading 1 st, k\<lparr>kfr := fr, pm := m'\<rparr>)"
    unfolding fault_read_def atl using i a fp by (simp add: Let_def)
  then show thesis by (rule that) (use frames_alloc_count(2) [OF fo a] in simp)
qed

lemma map_into_serves:
  assumes "pages_ok ms ps k d own T" and "pid < length ps" and "3 \<le> free_count (kfr k)" and "va mod PAGE_SIZE = 0" and "f mod PAGE_SIZE = 0"
  obtains ps' k' where "map_into pid va f ps k = (True, ps', k')"
proof -
  have s: "space_ok (with_owned (p_space (ps ! pid)) (T pid)) k own" using pages_okD(1) [OF assms(1)] assms(2) by (simp add: spaces_ok_def)
  have "fst (space_map va f 1 UserReadOnly (with_owned (p_space (ps ! pid)) (T pid)) k) = Inr ()" by (rule map_page_succeeds [OF s assms(3-5)])
  moreover obtain r spc k' where m: "space_map va f 1 UserReadOnly (p_space (ps ! pid)) k = (r, spc, k')" by (metis prod_cases3)
  ultimately have "r = Inr ()" using space_map_owned [OF m] by auto
  then show thesis using m assms(2) that by (simp add: map_into_def proc_get_def)
qed

lemma fault_serves:
  assumes ok: "store_ok st ps k d own T" and len: "\<And>s. length (store d s) = SECTOR_SIZE" and pid: "pid < length ps" and disk: "\<forall>s. bad d s = None"
    and at: "model_at ident st = Some i" "offset div PAGE_SIZE < length (md_pages (md_models st ! i))" "md_pages (md_models st ! i) ! (offset div PAGE_SIZE) = Absent"
    and n: "4 \<le> free_count (kfr k)" and va: "va mod PAGE_SIZE = 0"
  shows "\<exists>f ps' k'. model_fault ident offset pid va st ps k d = (Some True, (mark i (offset div PAGE_SIZE) (Resident f) 1 st)\<lparr>RESIDENT := RESIDENT st + 1\<rparr>, ps', k')"
proof -
  let ?idx = "offset div PAGE_SIZE"
  have "0 < free_count (kfr k)" using n by simp
  from fault_read_serves [OF ok len disk at this] obtain f k1 where
    r: "fault_read ident ?idx (mark i ?idx Loading 1 st) k d = (Some f, mark i ?idx Loading 1 st, k1)" "free_count (kfr k1) + 1 = free_count (kfr k)" by blast
  have i: "i < length (md_models st)" using model_atD [OF at(1)] by simp
  have pg: "pages_ok (md_models ((mark i ?idx (Resident f) 1 st)\<lparr>RESIDENT := RESIDENT st + 1\<rparr>)) ps k1 d (insert f own) T"
    using fault_publish_ok [OF ok len at r(1)] by (simp add: store_ok_def)
  have al: "f mod PAGE_SIZE = 0" using pages_ok_aligned [OF pg] by simp
  have n3: "3 \<le> free_count (kfr k1)" using r(2) n by simp
  obtain ps' k' where m: "map_into pid va f ps k1 = (True, ps', k')" using map_into_serves [OF pg pid n3 va al] by blast
  have fin: "fault_finish ident ?idx f (mark i ?idx Loading 1 st) k1 = (True, (mark i ?idx (Resident f) 1 st)\<lparr>RESIDENT := RESIDENT st + 1\<rparr>, k1)"
    using at(1) i by (simp add: fault_finish_def set_page_mark)
  show ?thesis
    unfolding model_fault_def Let_def fault_claim_mark [OF at(1)] using at(2,3) r(1) fin m by (intro exI [of _ f]) simp
qed

lemma demo_fault:
  "\<exists>s0 k own T f ps' k'. store_ok demo_store [demo_process\<lparr>p_space := s0\<rparr>] k demo_disk own T
     \<and> model_fault 1 5000 0 0x40001000 demo_store [demo_process\<lparr>p_space := s0\<rparr>] k demo_disk = (Some True, (mark 0 1 (Resident f) 1 demo_store)\<lparr>RESIDENT := 1\<rparr>, ps', k')"
proof -
  obtain s0 k own T where ok: "store_ok demo_store [demo_process\<lparr>p_space := s0\<rparr>] k demo_disk own T" and n9: "9 \<le> free_count (kfr k)" using demo_store_ok by blast
  then have n: "4 \<le> free_count (kfr k)" by simp
  have o: "5000 div PAGE_SIZE = 1" by (simp add: PAGE_SIZE_def)
  obtain f ps' k' where m: "model_fault 1 5000 0 0x40001000 demo_store [demo_process\<lparr>p_space := s0\<rparr>] k demo_disk =
      (Some True, (mark 0 (5000 div PAGE_SIZE) (Resident f) 1 demo_store)\<lparr>RESIDENT := RESIDENT demo_store + 1\<rparr>, ps', k')"
    using fault_serves [OF ok _ _ _ _ _ _ n, where pid = 0 and ident = 1 and i = 0 and offset = 5000 and va = "0x40001000"]
    by (auto simp: demo_disk_def SECTOR_SIZE_def demo_store_eq model_at_def PAGE_SIZE_def)
  have "RESIDENT demo_store + 1 = 1" by (simp add: demo_store_eq store_new_def)
  with m ok show ?thesis unfolding o by metis
qed

lemma demo_recorded: "recorded (md_models demo_store ! 0) 0 (5000 div PAGE_SIZE) 0x40001000" "model_at 1 demo_store = Some 0" "length (store demo_disk s) = SECTOR_SIZE"
  by (simp_all add: recorded_def demo_store_eq model_at_def demo_disk_def SECTOR_SIZE_def PAGE_SIZE_def)


theorem reclaim_unmaps_witness:
  "\<exists>st ps k own T st' k'. store_ok st ps k demo_disk own T \<and> RESIDENT st = 1 \<and> reclaim 5 ps st k = (1, st', k')
     \<and> RESIDENT st' = 0 \<and> free_count (kfr k') = free_count (kfr k) + 1"
proof -
  obtain s0 k own T f ps' k' where ok: "store_ok demo_store [demo_process\<lparr>p_space := s0\<rparr>] k demo_disk own T"
    and m: "model_fault 1 5000 0 0x40001000 demo_store [demo_process\<lparr>p_space := s0\<rparr>] k demo_disk = (Some True, (mark 0 1 (Resident f) 1 demo_store)\<lparr>RESIDENT := 1\<rparr>, ps', k')"
    using demo_fault by blast
  let ?st = "(mark 0 1 (Resident f) 1 demo_store)\<lparr>RESIDENT := 1\<rparr>"
  have "0 < length [demo_process\<lparr>p_space := s0\<rparr>]" by simp
  from model_fault_ok [OF ok demo_recorded(3) this demo_recorded(2,1) m] obtain own' T' where s: "store_ok ?st ps' k' demo_disk own' T'"
    unfolding faulted_def by blast
  obtain n st' k'' where r: "reclaim 5 ps' ?st k' = (n, st', k'')" by (metis prod_cases3)
  from reclaim_unmaps [OF s r] have "n = 1" "RESIDENT st' = 0" "free_count (kfr k'') = free_count (kfr k') + 1" by simp_all
  moreover have "RESIDENT ?st = 1" by simp
  ultimately show ?thesis using s r by blast
qed

theorem fault_races_reclaim_witness:
  "\<exists>st ps k f st1 st2 k2 ps' k'. fault_claim 1 1 st = (Some (Resident f), st1) \<and> reclaim 1 ps st1 k = (1, st2, k2)
     \<and> map_into 0 0x40001000 f ps k2 = (True, ps', k') \<and> f \<in> avail (kfr k2) \<and> walk (pm k') (root_of ps' 0) (path 0x40001000) = Some f"
proof -
  obtain s0 k own T where ok: "store_ok demo_store [demo_process\<lparr>p_space := s0\<rparr>] k demo_disk own T" and n: "9 \<le> free_count (kfr k)" using demo_store_ok by blast
  let ?ps = "[demo_process\<lparr>p_space := s0\<rparr>]"
  have pre: "\<forall>s. bad demo_disk s = None" "1 < length (md_pages (md_models demo_store ! 0))" "md_pages (md_models demo_store ! 0) ! 1 = Absent" "RESIDENT demo_store = 0"
    "0 < free_count (kfr k)" using n by (simp_all add: demo_disk_def demo_store_eq store_new_def)
  obtain f k1 where r: "fault_read 1 1 (mark 0 1 Loading 1 demo_store) k demo_disk = (Some f, mark 0 1 Loading 1 demo_store, k1)" "free_count (kfr k1) + 1 = free_count (kfr k)"
    using fault_read_serves [OF ok demo_recorded(3) pre(1) demo_recorded(2) pre(2,3,5)] by blast
  define st where "st = (mark 0 1 (Resident f) 1 demo_store)\<lparr>RESIDENT := 1\<rparr>"
  have s: "store_ok st ?ps k1 demo_disk (insert f own) T"
    using fault_publish_ok [OF ok demo_recorded(3) demo_recorded(2) pre(2,3) r(1)] by (simp add: st_def pre(4))
  have l: "0 < length (md_models demo_store)" by (simp add: demo_store_eq)
  have at: "model_at 1 st = Some 0" by (simp add: st_def model_at_def demo_store_eq)
  define st1 where "st1 = mark 0 1 (Resident f) 1 st"
  have c: "fault_claim 1 1 st = (Some (Resident f), st1)"
    unfolding fault_claim_mark [OF at] st1_def using l pre(2) by (simp add: st_def)
  have pg: "pages_ok (md_models st) ?ps k1 demo_disk (insert f own) T" using s by (simp add: store_ok_def)
  obtain m st2 k2 where rc: "reclaim 1 ?ps st1 k1 = (m, st2, k2)" by (metis prod_cases3)
  have idx: "0 < length (md_models st)" "1 < length (md_pages (md_models st ! 0))" "md_pages (md_models st ! 0) ! 1 = Resident f" using l pre(2) by (simp_all add: st_def)
  have "pages_ok (md_models st1) ?ps k1 demo_disk (insert f own) T" unfolding st1_def mark_sel(3)
    by (rule pages_ok_mark [OF pg idx(1,2)]) (rule idx(3))+
  from store_ok_mark [OF s this [unfolded st1_def] idx(1,2), of "RESIDENT st" "SHARED_HITS st"]
  have s1: "store_ok st1 ?ps k1 demo_disk (insert f own) T" using idx(3) by (simp add: st1_def mark_def)
  have r1: "RESIDENT st1 = 1" by (simp add: st1_def st_def)
  note R = reclaim_ok [OF s1 rc]
  have m1: "m = 1" and n2: "3 \<le> free_count (kfr k2)" using R(1) R(4) r1 r(2) n by simp_all
  from R(2) obtain own2 where "store_ok st2 ?ps k2 demo_disk own2 T" by blast
  then have pg2: "pages_ok (md_models st2) ?ps k2 demo_disk own2 T" by (simp add: store_ok_def)
  have al: "f mod PAGE_SIZE = 0" using pages_ok_aligned [OF pg] by simp
  have pid: "0 < length ?ps" by simp
  obtain ps' k' where mi: "map_into 0 0x40001000 f ?ps k2 = (True, ps', k')"
    using map_into_serves [OF pg2 pid n2 _ al, of "0x40001000"] by (auto simp: PAGE_SIZE_def)
  have le: "RESIDENT st \<le> 1" by (simp add: st_def)
  from fault_races_reclaim [OF s pid c rc le mi] have "f \<in> avail (kfr k2) \<and> walk (pm k') (root_of ps' 0) (path 0x40001000) = Some f" .
  with c rc [unfolded m1] mi show ?thesis by blast
qed

end
