(* ===== verification/Dtb.thy ===== *)
theory Dtb
  imports Bytes
begin

text \<open>
  The device tree reader, \<open>kernel/src/dtb.rs\<close>: the walker over the structure block and the queries the
  boot code makes with it. The memory the blob lies in is the list of the bytes from the blob's address
  to the end of what can be read; \<open>None\<close> is an access outside it, or a panic. Creating a slice that
  leaves it counts as an access.

  Shown: every query returns, whatever the bytes, but for the iterator over memory regions, which runs
  for ever exactly when it meets a zero stride; a tree that is written as the specification says is
  read back as its events; \<open>devices\<close> finds exactly the nodes without children.
\<close>

section \<open>Reading\<close>

definition FDT_MAGIC :: u32 where "FDT_MAGIC = 0xd00dfeed"
definition FDT_BEGIN_NODE :: u32 where "FDT_BEGIN_NODE = 1"
definition FDT_END_NODE :: u32 where "FDT_END_NODE = 2"
definition FDT_PROP :: u32 where "FDT_PROP = 3"
definition FDT_NOP :: u32 where "FDT_NOP = 4"
definition FDT_END :: u32 where "FDT_END = 9"

lemmas fdt_tokens = FDT_BEGIN_NODE_def FDT_END_NODE_def FDT_PROP_def FDT_NOP_def FDT_END_def

definition be32 :: "bytes \<Rightarrow> nat \<Rightarrow> u32 option" where
  "be32 b i = (if i + 4 \<le> length b then Some (be_word (subslice b i 4)) else None)"

definition align4 :: "nat \<Rightarrow> nat" where
  "align4 n = (n + 3) div 4 * 4"

definition be32_slice :: "bytes \<Rightarrow> u32" where
  "be32_slice v = be_word (take 4 v)"

record DeviceNode =
  dn_base :: u64
  dn_size :: u64
  dn_irq :: u32

definition gic_intid :: "bytes \<Rightarrow> u32 option" where
  "gic_intid v = (if length v < 12 then None else
     let kind = be32_slice (subslice v 0 4); number = be32_slice (subslice v 4 4) in
     if kind = 0 then Some (number + 32) else if kind = 1 then Some (number + 16) else None)"

text \<open>\<open>value.split(|&b| b == 0)\<close>.\<close>

fun split_nul :: "bytes \<Rightarrow> bytes \<Rightarrow> bytes list" where
  "split_nul acc [] = [acc]"
| "split_nul acc (x # xs) = (if x = 0 then acc # split_nul [] xs else split_nul (acc @ [x]) xs)"

definition compat_matches :: "bytes \<Rightarrow> bytes \<Rightarrow> bool" where
  "compat_matches v want = list_ex (\<lambda>e. e = want) (split_nul [] v)"

function nul_at :: "bytes \<Rightarrow> nat \<Rightarrow> nat option" where
  "nul_at b i = (if i < length b then if b ! i = 0 then Some 0 else map_option Suc (nul_at b (i + 1)) else None)"
  by pat_completeness auto

termination
  by (relation "measure (\<lambda>(b, i). length b - i)") auto

declare nul_at.simps [simp del]

definition cstr :: "bytes \<Rightarrow> nat \<Rightarrow> (bytes \<times> nat) option" where
  "cstr b i = map_option (\<lambda>len. let s = subslice b i len in (if utf8_valid s then s else ascii ''<non-utf8>'', len + 1)) (nul_at b i)"

record Fdt =
  struct_off :: nat
  struct_size :: nat
  strings_off :: nat
  fdt_total_size :: nat

text \<open>The bytes \<open>b\<close> are those at \<open>addr\<close>; the outer option is the access, the inner one the answer.\<close>

definition Fdt_new :: "nat \<Rightarrow> bytes \<Rightarrow> Fdt option option" where
  "Fdt_new addr b = (if addr = 0 \<or> addr mod 8 \<noteq> 0 then Some None
     else Option.bind (be32 b 0) (\<lambda>magic.
       if magic \<noteq> FDT_MAGIC then Some None
       else Option.bind (be32 b 4) (\<lambda>total. Option.bind (be32 b 8) (\<lambda>so. Option.bind (be32 b 12) (\<lambda>st. map_option (\<lambda>sz.
         Some \<lparr>struct_off = unat so, struct_size = unat sz, strings_off = unat st, fdt_total_size = unat total\<rparr>) (be32 b 36))))))"

definition str_at :: "bytes \<Rightarrow> Fdt \<Rightarrow> nat \<Rightarrow> bytes option" where
  "str_at b f off = map_option fst (cstr b (strings_off f + off))"

section \<open>The walker\<close>

datatype Event = BeginNode nat bytes | EndNode | PropEv nat bytes bytes

record Walker =
  wk_pos :: nat
  wk_depth :: nat
  wk_node :: bytes

definition Walker_new :: Walker where
  "Walker_new = \<lparr>wk_pos = 0, wk_depth = 0, wk_node = []\<rparr>"

text \<open>What one token gives: nothing (\<open>FDT_NOP\<close>), or the answer of \<open>next_event\<close>.\<close>

definition token_event :: "bytes \<Rightarrow> Fdt \<Rightarrow> u32 \<Rightarrow> Walker \<Rightarrow> (Event option \<times> Walker) option" where
  "token_event b f token w =
    (if token = FDT_BEGIN_NODE then map_option (\<lambda>(name, n).
       (Some (BeginNode (wk_depth w + 1) name), w\<lparr>wk_pos := wk_pos w + align4 n, wk_depth := wk_depth w + 1, wk_node := name\<rparr>))
       (cstr b (struct_off f + wk_pos w))
     else if token = FDT_END_NODE then Some (Some EndNode, w\<lparr>wk_depth := wk_depth w - 1\<rparr>)
     else if token = FDT_PROP then
       Option.bind (be32 b (struct_off f + wk_pos w)) (\<lambda>len. Option.bind (be32 b (struct_off f + wk_pos w + 4)) (\<lambda>nameoff.
         let p = wk_pos w + 8 in
         if struct_off f + p + unat len \<le> length b
         then map_option (\<lambda>name. (Some (PropEv (wk_depth w) name (subslice b (struct_off f + p) (unat len))),
                w\<lparr>wk_pos := p + align4 (unat len)\<rparr>)) (str_at b f (unat nameoff))
         else None))
     else Some (None, w))"

function next_event :: "bytes \<Rightarrow> Fdt \<Rightarrow> Walker \<Rightarrow> (Event option \<times> Walker) option" where
  "next_event b f w = (if wk_pos w + 4 > struct_size f then Some (None, w)
     else case be32 b (struct_off f + wk_pos w) of
       None \<Rightarrow> None
     | Some token \<Rightarrow>
         let w = w\<lparr>wk_pos := wk_pos w + 4\<rparr> in
         if token = FDT_NOP then next_event b f w else token_event b f token w)"
  by pat_completeness auto

termination
  by (relation "measure (\<lambda>(b, f, w). struct_size f - wk_pos w)") auto

declare next_event.simps [simp del]

definition in_memory_node :: "Walker \<Rightarrow> bool" where
  "in_memory_node w \<longleftrightarrow> wk_depth w = 2 \<and> (wk_node w = ascii ''memory'' \<or> take 7 (wk_node w) = ascii ''memory@'')"

lemma token_event_pos: "token_event b f t w = Some (e, w') \<Longrightarrow> wk_pos w \<le> wk_pos w'"
  by (auto simp: token_event_def Let_def Option.bind_eq_Some_conv split: if_splits)

lemma next_event_advances: "next_event b f w = Some (Some ev, w') \<Longrightarrow> wk_pos w + 4 \<le> wk_pos w' \<and> wk_pos w + 4 \<le> struct_size f"
proof (induction b f w rule: next_event.induct)
  case (1 b f w)
  show ?case
  proof (cases "be32 b (struct_off f + wk_pos w)")
    case (Some t)
    then show ?thesis using 1 token_event_pos [of b f t "w\<lparr>wk_pos := wk_pos w + 4\<rparr>"] next_event.simps [of b f w]
      by (fastforce simp: Let_def split: if_splits)
  qed (use 1 next_event.simps [of b f w] in \<open>auto split: if_splits\<close>)
qed

text \<open>
  \<open>while let Some(ev) = w.next_event()\<close>: the body returns from the query (\<open>Inl\<close>) or goes on with the state
  of its variables (\<open>Inr\<close>).
\<close>

function walk_events :: "bytes \<Rightarrow> Fdt \<Rightarrow> (Event \<Rightarrow> 's \<Rightarrow> ('r + 's) option) \<Rightarrow> Walker \<Rightarrow> 's \<Rightarrow> ('r + 's) option" where
  "walk_events b f body w s = (case next_event b f w of
     None \<Rightarrow> None
   | Some (None, _) \<Rightarrow> Some (Inr s)
   | Some (Some ev, w) \<Rightarrow> (case body ev s of
       None \<Rightarrow> None
     | Some (Inl r) \<Rightarrow> Some (Inl r)
     | Some (Inr s) \<Rightarrow> walk_events b f body w s))"
  by pat_completeness auto

termination
  by (relation "measure (\<lambda>(b, f, _, w, _). struct_size f - wk_pos w)") (use next_event_advances in \<open>fastforce+\<close>)

declare walk_events.simps [simp del]

section \<open>Queries\<close>

definition read_cells :: "bytes \<Rightarrow> nat \<Rightarrow> nat \<Rightarrow> u64 option" where
  "read_cells blob at cells = fold (\<lambda>i acc. Option.bind acc (\<lambda>v. map_option (\<lambda>x. push_bit 32 v OR ucast x) (be32 blob (at + i * 4)))) [0..<cells] (Some 0)"

definition root_prop :: "bytes \<Rightarrow> Fdt \<Rightarrow> bytes \<Rightarrow> bytes option option" where
  "root_prop b f want = map_option (case_sum id (\<lambda>_. None)) (walk_events b f (\<lambda>ev s. Some (case ev of
       PropEv depth name v \<Rightarrow> if depth = 1 \<and> name = want then Inl (Some v) else Inr s
     | BeginNode depth _ \<Rightarrow> if depth = 2 then Inl None else Inr s
     | EndNode \<Rightarrow> Inr s)) Walker_new ())"

definition fdt_model :: "bytes \<Rightarrow> Fdt \<Rightarrow> bytes option option" where
  "fdt_model b f = map_option (\<lambda>r. Option.bind r (\<lambda>v. let s = until_nul v in if utf8_valid s then Some s else None)) (root_prop b f (ascii ''model''))"

text \<open>The variables of \<open>node_regs\<close> and \<open>devices\<close>, and the two arms that both start with.\<close>

record query_state =
  q_addr :: nat
  q_size :: nat
  q_compat :: "bytes option"
  q_reg :: "bytes option"
  q_irq :: "bytes option"

definition query_start :: query_state where
  "query_start = \<lparr>q_addr = 2, q_size = 2, q_compat = None, q_reg = None, q_irq = None\<rparr>"

definition query_clear :: "query_state \<Rightarrow> query_state" where
  "query_clear s = s\<lparr>q_compat := None, q_reg := None, q_irq := None\<rparr>"

definition root_cells :: "nat \<Rightarrow> bytes \<Rightarrow> bytes \<Rightarrow> query_state \<Rightarrow> query_state option" where
  "root_cells depth name v s =
    (if depth = 1 \<and> name = ascii ''#address-cells'' \<and> length v \<ge> 4 then Some (s\<lparr>q_addr := unat (be32_slice v)\<rparr>)
     else if depth = 1 \<and> name = ascii ''#size-cells'' \<and> length v \<ge> 4 then Some (s\<lparr>q_size := unat (be32_slice v)\<rparr>)
     else None)"

text \<open>The inner loop of \<open>node_regs\<close>; \<open>cap\<close> is \<open>out.len()\<close>.\<close>

function reg_pairs :: "bytes \<Rightarrow> nat \<Rightarrow> nat \<Rightarrow> nat \<Rightarrow> nat \<Rightarrow> nat \<Rightarrow> (u64 \<times> u64) list option" where
  "reg_pairs r ac sc cap n at = (if at + (ac + sc) * 4 \<le> length r \<and> n < cap
     then Option.bind (read_cells r at ac) (\<lambda>x. Option.bind (read_cells r (at + ac * 4) sc) (\<lambda>y.
       map_option ((#) (x, y)) (reg_pairs r ac sc cap (n + 1) (at + (ac + sc) * 4))))
     else Some [])"
  by pat_completeness auto

termination
  by (relation "measure (\<lambda>(_, _, _, cap, n, _). cap - n)") auto

declare reg_pairs.simps [simp del]

definition node_regs :: "bytes \<Rightarrow> Fdt \<Rightarrow> bytes \<Rightarrow> nat \<Rightarrow> (u64 \<times> u64) list option" where
  "node_regs b f compatible cap = map_option (case_sum id (\<lambda>_. [])) (walk_events b f (\<lambda>ev s. case ev of
       BeginNode _ _ \<Rightarrow> Some (Inr (s\<lparr>q_compat := None, q_reg := None\<rparr>))
     | PropEv depth name v \<Rightarrow>
         (case root_cells depth name v s of
            Some s \<Rightarrow> Some (Inr s)
          | None \<Rightarrow>
              let s = (if name = ascii ''compatible'' then s\<lparr>q_compat := Some v\<rparr>
                       else if name = ascii ''reg'' then s\<lparr>q_reg := Some v\<rparr> else s) in
              (case (q_compat s, q_reg s) of
                 (Some c, Some r) \<Rightarrow> if compat_matches c compatible
                   then map_option Inl (reg_pairs r (q_addr s) (q_size s) cap 0 0) else Some (Inr s)
               | _ \<Rightarrow> Some (Inr s)))
     | EndNode \<Rightarrow> Some (Inr s)) Walker_new query_start)"

text \<open>The arm of \<open>devices\<close> at the end of a node: the device, if the node is one.\<close>

definition device_here :: "bytes \<Rightarrow> query_state \<Rightarrow> DeviceNode option option" where
  "device_here compatible s = (case (q_compat s, q_reg s) of
     (Some c, Some r) \<Rightarrow>
       if \<not> compat_matches c compatible \<or> length r < (q_addr s + q_size s) * 4 then Some None
       else Option.bind (read_cells r 0 (q_addr s)) (\<lambda>x. map_option (\<lambda>y.
         Some \<lparr>dn_base = x, dn_size = y, dn_irq = (case Option.bind (q_irq s) gic_intid of Some i \<Rightarrow> i | None \<Rightarrow> 0)\<rparr>)
         (read_cells r (q_addr s * 4) (q_size s)))
   | _ \<Rightarrow> Some None)"

definition query_prop :: "nat \<Rightarrow> bytes \<Rightarrow> bytes \<Rightarrow> query_state \<Rightarrow> query_state" where
  "query_prop depth name v s = (case root_cells depth name v s of
     Some s \<Rightarrow> s
   | None \<Rightarrow> if name = ascii ''compatible'' then s\<lparr>q_compat := Some v\<rparr>
       else if name = ascii ''reg'' then s\<lparr>q_reg := Some v\<rparr>
       else if name = ascii ''interrupts'' then s\<lparr>q_irq := Some v\<rparr> else s)"

definition devices_body :: "bytes \<Rightarrow> nat \<Rightarrow> Event \<Rightarrow> query_state \<times> DeviceNode list \<Rightarrow> (DeviceNode list + query_state \<times> DeviceNode list) option" where
  "devices_body compatible cap ev = (\<lambda>(s, out).
     if length out \<ge> cap then Some (Inl out)
     else case ev of
       BeginNode _ _ \<Rightarrow> Some (Inr (query_clear s, out))
     | PropEv depth name v \<Rightarrow> Some (Inr (query_prop depth name v s, out))
     | EndNode \<Rightarrow> map_option (\<lambda>d. case d of None \<Rightarrow> Inr (s, out) | Some x \<Rightarrow> Inr (query_clear s, out @ [x])) (device_here compatible s))"

definition devices :: "bytes \<Rightarrow> Fdt \<Rightarrow> bytes \<Rightarrow> nat \<Rightarrow> DeviceNode list option" where
  "devices b f compatible cap = map_option (case_sum id snd) (walk_events b f (devices_body compatible cap) Walker_new (query_start, []))"

definition prop_of :: "bytes \<Rightarrow> Fdt \<Rightarrow> bytes \<Rightarrow> bytes \<Rightarrow> bytes option option" where
  "prop_of b f compatible prop = map_option (case_sum Some (\<lambda>_. None)) (walk_events b f (\<lambda>ev (c, v). Some (case ev of
       BeginNode _ _ \<Rightarrow> Inr (None, None)
     | PropEv _ name x \<Rightarrow>
         let c = (if name = ascii ''compatible'' then Some x else c);
             v = (if name \<noteq> ascii ''compatible'' \<and> name = prop then Some x else v) in
         (case (c, v) of
            (Some c', Some v') \<Rightarrow> if compat_matches c' compatible then Inl v' else Inr (c, v)
          | _ \<Rightarrow> Inr (c, v))
     | EndNode \<Rightarrow> Inr (c, v))) Walker_new (None, None))"

text \<open>\<open>cpus\<close>: whether the walk is in \<open>/cpus\<close>, its address cells, and the affinities found.\<close>

definition cpus_body :: "nat \<Rightarrow> Event \<Rightarrow> bool \<times> nat \<times> u64 list \<Rightarrow> (unit + bool \<times> nat \<times> u64 list) option" where
  "cpus_body cap ev = (\<lambda>(inside, cells, out). case ev of
       BeginNode depth name \<Rightarrow> Some (Inr (if depth = 2 then name = ascii ''cpus'' else inside, cells, out))
     | PropEv depth name v \<Rightarrow>
         if depth = 2 \<and> name = ascii ''#address-cells'' \<and> inside \<and> length v \<ge> 4 then Some (Inr (inside, unat (be32_slice v), out))
         else if depth = 3 \<and> name = ascii ''reg'' \<and> inside \<and> length out < cap \<and> length v \<ge> cells * 4
         then map_option (\<lambda>x. Inr (inside, cells, out @ [x])) (read_cells v 0 cells)
         else Some (Inr (inside, cells, out))
     | EndNode \<Rightarrow> Some (Inr (inside, cells, out)))"

definition fdt_cpus :: "bytes \<Rightarrow> Fdt \<Rightarrow> nat \<Rightarrow> u64 list option" where
  "fdt_cpus b f cap = map_option (case_sum (\<lambda>_. []) (\<lambda>(_, _, out). out)) (walk_events b f (cpus_body cap) Walker_new (False, 1, []))"

section \<open>Memory regions\<close>

record MemoryRegions =
  mr_walker :: Walker
  mr_cells :: "(bytes \<times> nat) option"
  mr_addr :: nat
  mr_size :: nat

definition memory_regions :: MemoryRegions where
  "memory_regions = \<lparr>mr_walker = Walker_new, mr_cells = None, mr_addr = 2, mr_size = 2\<rparr>"

text \<open>How one round of the loop of \<open>next\<close> ends.\<close>

datatype round = Yield "u64 \<times> u64" MemoryRegions | Finished MemoryRegions | Again MemoryRegions | Fault

definition regions_event :: "bytes \<Rightarrow> Fdt \<Rightarrow> MemoryRegions \<Rightarrow> round" where
  "regions_event b f st = (case next_event b f (mr_walker st) of
     None \<Rightarrow> Fault
   | Some (None, w) \<Rightarrow> Finished (st\<lparr>mr_walker := w\<rparr>)
   | Some (Some ev, w) \<Rightarrow>
       let st = st\<lparr>mr_walker := w\<rparr> in
       Again (case ev of
         PropEv depth name v \<Rightarrow>
           if depth = 1 \<and> name = ascii ''#address-cells'' \<and> length v \<ge> 4 then st\<lparr>mr_addr := unat (be32_slice v)\<rparr>
           else if depth = 1 \<and> name = ascii ''#size-cells'' \<and> length v \<ge> 4 then st\<lparr>mr_size := unat (be32_slice v)\<rparr>
           else if name = ascii ''reg'' \<and> in_memory_node w then st\<lparr>mr_cells := Some (v, 0)\<rparr>
           else st
       | _ \<Rightarrow> st))"

definition regions_round :: "bytes \<Rightarrow> Fdt \<Rightarrow> MemoryRegions \<Rightarrow> round" where
  "regions_round b f st = (case mr_cells st of
     Some (blob, cursor) \<Rightarrow>
       let stride = (mr_addr st + mr_size st) * 4 in
       if cursor + stride \<le> length blob
       then case (read_cells blob cursor (mr_addr st), read_cells blob (cursor + mr_addr st * 4) (mr_size st)) of
           (Some base, Some n) \<Rightarrow>
             let st = st\<lparr>mr_cells := Some (blob, cursor + stride)\<rparr> in
             if n > 0 then Yield (base, n) st else Again st
         | _ \<Rightarrow> Fault
       else regions_event b f (st\<lparr>mr_cells := None\<rparr>)
   | None \<Rightarrow> regions_event b f st)"

text \<open>The loop itself may run for ever: then the result is \<open>None\<close>.\<close>

partial_function (option) regions_next :: "bytes \<Rightarrow> Fdt \<Rightarrow> MemoryRegions \<Rightarrow> round option" where
  "regions_next b f st = (case regions_round b f st of
     Again st \<Rightarrow> regions_next b f st
   | r \<Rightarrow> Some r)"

section \<open>Termination\<close>

text \<open>A round that leaves everything as it was: both cell counts are zero, so each pair is empty.\<close>

definition stuck :: "MemoryRegions \<Rightarrow> bool" where
  "stuck st \<longleftrightarrow> mr_addr st + mr_size st = 0 \<and> (\<exists>blob cursor. mr_cells st = Some (blob, cursor) \<and> cursor \<le> length blob)"

abbreviation rounds :: "bytes \<Rightarrow> Fdt \<Rightarrow> MemoryRegions \<Rightarrow> MemoryRegions \<Rightarrow> bool" where
  "rounds b f \<equiv> (\<lambda>s t. regions_round b f s = Again t)\<^sup>*\<^sup>*"

lemma stuck_round: "stuck st \<Longrightarrow> regions_round b f st = Again st"
  by (cases st) (auto simp: stuck_def regions_round_def read_cells_def Let_def)

lemma regions_event_advances:
  assumes "regions_event b f st = Again st'"
  shows "wk_pos (mr_walker st) + 4 \<le> wk_pos (mr_walker st')" and "wk_pos (mr_walker st) + 4 \<le> struct_size f"
proof -
  obtain ev w where n: "next_event b f (mr_walker st) = Some (Some ev, w)"
    using assms by (auto simp: regions_event_def split: option.splits prod.splits)
  have "mr_walker st' = w" using assms n by (auto simp: regions_event_def Let_def split: Event.splits)
  then show "wk_pos (mr_walker st) + 4 \<le> wk_pos (mr_walker st')" "wk_pos (mr_walker st) + 4 \<le> struct_size f"
    using next_event_advances [OF n] by simp_all
qed

text \<open>Any other round moves the cursor, or else the walker.\<close>

definition left_over :: "Fdt \<Rightarrow> MemoryRegions \<Rightarrow> nat \<times> nat" where
  "left_over f st = (struct_size f - wk_pos (mr_walker st), case mr_cells st of None \<Rightarrow> 0 | Some (blob, cursor) \<Rightarrow> Suc (length blob) - cursor)"

lemma round_decreases:
  assumes "regions_round b f st = Again st'" and "\<not> stuck st"
  shows "(left_over f st', left_over f st) \<in> less_than <*lex*> less_than"
proof (cases "\<exists>blob cursor. mr_cells st = Some (blob, cursor) \<and> cursor + (mr_addr st + mr_size st) * 4 \<le> length blob")
  case True
  then obtain blob cursor where c: "mr_cells st = Some (blob, cursor)" "cursor + (mr_addr st + mr_size st) * 4 \<le> length blob" by blast
  then have "st' = st\<lparr>mr_cells := Some (blob, cursor + (mr_addr st + mr_size st) * 4)\<rparr>"
    using assms(1) by (auto simp: regions_round_def Let_def split: option.splits if_splits)
  moreover have "0 < mr_addr st + mr_size st" using assms(2) c by (auto simp: stuck_def)
  ultimately show ?thesis using c by (simp add: left_over_def) linarith
next
  case False
  then have "regions_event b f (st\<lparr>mr_cells := None\<rparr>) = Again st' \<or> regions_event b f st = Again st'"
    using assms(1) by (auto simp: regions_round_def Let_def split: option.splits prod.splits)
  then have "wk_pos (mr_walker st) + 4 \<le> wk_pos (mr_walker st')" "wk_pos (mr_walker st) + 4 \<le> struct_size f"
    using regions_event_advances by fastforce+
  then have "struct_size f - wk_pos (mr_walker st') < struct_size f - wk_pos (mr_walker st)" by linarith
  then show ?thesis by (simp add: left_over_def)
qed

lemma regions_next_returns:
  assumes "\<And>st'. rounds b f st st' \<Longrightarrow> \<not> stuck st'"
  shows "regions_next b f st \<noteq> None"
  using assms
proof (induction "left_over f st" arbitrary: st rule: wf_induct_rule [OF wf_lex_prod [OF wf_less_than wf_less_than]])
  case 1
  show ?case
  proof (cases "regions_round b f st")
    case (Again st')
    have "\<not> stuck st" using "1.prems" by blast
    note less = round_decreases [OF Again this]
    have "regions_next b f st' \<noteq> None"
    proof (rule "1.hyps" [OF less])
      fix t assume "rounds b f st' t"
      then show "\<not> stuck t" using "1.prems" [of t] Again by (meson converse_rtranclp_into_rtranclp)
    qed
    then show ?thesis using Again by (subst regions_next.simps) simp
  qed (subst regions_next.simps, simp)+
qed

lemma regions_next_not_stuck:
  assumes "regions_next b f st = Some r"
  shows "\<forall>st'. rounds b f st st' \<longrightarrow> \<not> stuck st'"
proof (rule regions_next.raw_induct [OF _ assms])
  fix rec b f st r
  assume IH: "\<And>b f st y. rec b f st = Some y \<Longrightarrow> \<forall>st'. rounds b f st st' \<longrightarrow> \<not> stuck st'"
    and r: "(case regions_round b f st of Again st \<Rightarrow> rec b f st | r \<Rightarrow> Some r) = Some r"
  show "\<forall>st'. rounds b f st st' \<longrightarrow> \<not> stuck st'"
  proof (intro allI impI notI)
    fix st' assume reach: "rounds b f st st'" and s: "stuck st'"
    from reach show False
    proof (cases rule: converse_rtranclpE)
      case base
      then have "regions_round b f st = Again st" using stuck_round s by simp
      then show ?thesis using IH [of b f st r] r reach s by simp
    next
      case (step t)
      then show ?thesis using IH [of b f t r] r s by simp
    qed
  qed
qed

section \<open>Trees as the specification writes them\<close>

datatype token = T_Begin bytes | T_End | T_Prop bytes bytes | T_Nop

definition pad4 :: "bytes \<Rightarrow> bytes" where
  "pad4 bs = bs @ replicate (align4 (length bs) - length bs) 0"

definition token_bytes :: "(bytes \<Rightarrow> nat) \<Rightarrow> token \<Rightarrow> bytes" where
  "token_bytes offs t = (case t of
     T_Begin n \<Rightarrow> be_bytes 4 FDT_BEGIN_NODE @ pad4 (n @ [0])
   | T_End \<Rightarrow> be_bytes 4 FDT_END_NODE
   | T_Prop n v \<Rightarrow> be_bytes 4 FDT_PROP @ be_bytes 4 (of_nat (length v) :: u32) @ be_bytes 4 (of_nat (offs n) :: u32) @ pad4 v
   | T_Nop \<Rightarrow> be_bytes 4 FDT_NOP)"

fun token_events :: "nat \<Rightarrow> token list \<Rightarrow> Event list" where
  "token_events d [] = []"
| "token_events d (T_Begin n # ts) = BeginNode (d + 1) n # token_events (d + 1) ts"
| "token_events d (T_End # ts) = EndNode # token_events (d - 1) ts"
| "token_events d (T_Prop n v # ts) = PropEv d n v # token_events d ts"
| "token_events d (T_Nop # ts) = token_events d ts"

definition cname :: "bytes \<Rightarrow> bool" where
  "cname n \<longleftrightarrow> 0 \<notin> set n \<and> utf8_valid n"

definition token_ok :: "(bytes \<Rightarrow> nat) \<Rightarrow> token \<Rightarrow> bool" where
  "token_ok offs t = (case t of T_Begin n \<Rightarrow> cname n | T_Prop n v \<Rightarrow> cname n \<and> length v < 2 ^ 32 \<and> offs n < 2 ^ 32 | _ \<Rightarrow> True)"

definition holds :: "bytes \<Rightarrow> nat \<Rightarrow> bytes \<Rightarrow> bool" where
  "holds b at bs \<longleftrightarrow> at + length bs \<le> length b \<and> subslice b at (length bs) = bs"

text \<open>The events of the whole structure block.\<close>

definition fdt_events :: "bytes \<Rightarrow> Fdt \<Rightarrow> Walker \<Rightarrow> Event list option" where
  "fdt_events b f w = map_option (case_sum id id) (walk_events b f (\<lambda>ev evs. Some (Inr (evs @ [ev]))) w [])"

lemma holds_append: "holds b at (xs @ ys) \<longleftrightarrow> holds b at xs \<and> holds b (at + length xs) ys"
proof -
  have "subslice b at (length xs + length ys) = subslice b at (length xs) @ subslice b (at + length xs) (length ys)"
    by (simp add: subslice_def take_add drop_drop add.commute)
  then show ?thesis by (auto simp: holds_def)
qed

lemma holds_be32: "holds b at (be_bytes 4 (x :: u32)) \<Longrightarrow> be32 b at = Some x"
  by (simp add: holds_def be32_def)

lemma align4_ge: "n \<le> align4 n"
  unfolding align4_def by linarith

lemma length_pad4 [simp]: "length (pad4 bs) = align4 (length bs)"
  using align4_ge [of "length bs"] by (simp add: pad4_def)

lemma nul_at_holds: "holds b i (n @ [0]) \<Longrightarrow> 0 \<notin> set n \<Longrightarrow> nul_at b i = Some (length n)"
proof (induction n arbitrary: i)
  case Nil
  then have "i < length b \<and> b ! i = 0" by (auto simp: holds_def subslice_def take_Suc_conv_app_nth hd_drop_conv_nth)
  then show ?case by (subst nul_at.simps) simp
next
  case (Cons x n)
  have h: "holds b i [x]" "holds b (i + 1) (n @ [0])" using Cons.prems(1) holds_append [of b i "[x]" "n @ [0]"] by simp_all
  then have "i < length b \<and> b ! i = x" by (auto simp: holds_def subslice_def take_Suc_conv_app_nth hd_drop_conv_nth)
  then show ?case using Cons h(2) by (subst nul_at.simps) auto
qed

lemma cstr_holds:
  assumes "holds b i (n @ [0])" and "cname n"
  shows "cstr b i = Some (n, length n + 1)"
proof -
  have "subslice b i (length n) = n" using assms(1) holds_append [of b i n "[0]"] by (simp add: holds_def)
  then show ?thesis using nul_at_holds [OF assms(1)] assms(2) by (simp add: cstr_def cname_def)
qed

lemma walk_events_step:
  assumes "next_event b f w = Some (Some ev, w')"
  shows "walk_events b f body w s = (case body ev s of None \<Rightarrow> None | Some (Inl r) \<Rightarrow> Some (Inl r) | Some (Inr s) \<Rightarrow> walk_events b f body w' s)"
  by (subst walk_events.simps) (simp add: assms)

text \<open>The walk over a list of events, to which a walk over a blob that holds them comes down.\<close>

fun run_events :: "(Event \<Rightarrow> 's \<Rightarrow> ('r + 's) option) \<Rightarrow> Event list \<Rightarrow> 's \<Rightarrow> ('r + 's) option" where
  "run_events body [] s = Some (Inr s)"
| "run_events body (ev # evs) s = (case body ev s of None \<Rightarrow> None | Some (Inl r) \<Rightarrow> Some (Inl r) | Some (Inr s) \<Rightarrow> run_events body evs s)"

lemma run_events_append:
  "run_events body (xs @ ys) s = (case run_events body xs s of Some (Inr t) \<Rightarrow> run_events body ys t | r \<Rightarrow> r)"
  by (induction xs arbitrary: s) (auto split: option.splits sum.splits)

lemma run_events_collect: "run_events (\<lambda>ev evs. Some (Inr (evs @ [ev]))) evs acc = Some (Inr (acc @ evs))"
  by (induction evs arbitrary: acc) simp_all

lemma next_event_token:
  assumes "holds b (struct_off f + wk_pos w) (be_bytes 4 t)" and "wk_pos w + 4 \<le> struct_size f"
  shows "next_event b f w = (let w = w\<lparr>wk_pos := wk_pos w + 4\<rparr> in if t = FDT_NOP then next_event b f w else token_event b f t w)"
  using assms by (subst next_event.simps) (simp add: holds_be32)

lemma walk_tokens:
  assumes "holds b (struct_off f + wk_pos w) (concat (map (token_bytes offs) ts) @ be_bytes 4 FDT_END)"
    and "wk_pos w + length (concat (map (token_bytes offs) ts)) + 4 \<le> struct_size f"
    and "list_all (token_ok offs) ts" and "\<And>n v. T_Prop n v \<in> set ts \<Longrightarrow> holds b (strings_off f + offs n) (n @ [0])"
  shows "walk_events b f body w s = run_events body (token_events (wk_depth w) ts) s"
  using assms
proof (induction ts arbitrary: w s)
  case Nil
  then have "next_event b f w = Some (None, w\<lparr>wk_pos := wk_pos w + 4\<rparr>)"
    using next_event_token [of b f w FDT_END] by (simp add: token_event_def fdt_tokens)
  then show ?case by (subst walk_events.simps) simp
next
  case (Cons t ts)
  let ?p = "wk_pos w" and ?l = "length (token_bytes offs t)"
  have h: "holds b (struct_off f + ?p) (token_bytes offs t)"
    "holds b (struct_off f + (?p + ?l)) (concat (map (token_bytes offs) ts) @ be_bytes 4 FDT_END)"
    using Cons.prems(1) holds_append [of b "struct_off f + ?p" "token_bytes offs t"] by (simp_all add: add.assoc)
  have IH: "walk_events b f body w' s' = run_events body (token_events (wk_depth w') ts) s'" if "wk_pos w' = ?p + ?l" for w' s'
    by (rule Cons.IH) (use h(2) Cons.prems(2-4) that in \<open>auto simp: add.assoc\<close>)
  have step: "walk_events b f body w s = run_events body (ev # token_events (wk_depth w') ts) s" if "next_event b f w = Some (Some ev, w')" "wk_pos w' = ?p + ?l" for ev w'
    unfolding walk_events_step [OF that(1)] by (simp add: IH [OF that(2)] split: option.split sum.split)
  have fits: "?p + 4 \<le> struct_size f" if "4 \<le> ?l" using Cons.prems(2) that by simp
  show ?case
  proof (cases t)
    case (T_Begin n)
    then have l: "?l = 4 + align4 (length n + 1)" by (simp add: token_bytes_def)
    have hh: "holds b (struct_off f + ?p) (be_bytes 4 FDT_BEGIN_NODE)" "holds b (struct_off f + ?p + 4) (n @ [0])"
      using h(1) T_Begin unfolding token_bytes_def token.case pad4_def
      by (simp_all only: token.case holds_append [of _ _ "n @ [0]"] holds_append [of _ _ "be_bytes _ _"] length_be_bytes)
    have "cname n" using Cons.prems(3) T_Begin by (simp add: token_ok_def)
    then have "next_event b f w = Some (Some (BeginNode (wk_depth w + 1) n), w\<lparr>wk_pos := ?p + ?l, wk_depth := wk_depth w + 1, wk_node := n\<rparr>)"
      using next_event_token [OF hh(1)] fits l cstr_holds [OF hh(2)] by (simp add: token_event_def fdt_tokens add.assoc)
    from step [OF this] show ?thesis using T_Begin by simp
  next
    case T_End
    then have l: "?l = 4" by (simp add: token_bytes_def)
    have hh: "holds b (struct_off f + ?p) (be_bytes 4 FDT_END_NODE)" using h(1) T_End by (simp add: token_bytes_def)
    have "next_event b f w = Some (Some EndNode, w\<lparr>wk_pos := ?p + ?l, wk_depth := wk_depth w - 1\<rparr>)"
      using next_event_token [OF hh] fits l by (simp add: token_event_def fdt_tokens)
    from step [OF this] show ?thesis using T_End by simp
  next
    case (T_Prop n v)
    then have l: "?l = 12 + align4 (length v)" by (simp add: token_bytes_def)
    have ok: "cname n" "length v < 2 ^ 32" "offs n < 2 ^ 32" using Cons.prems(3) T_Prop by (simp_all add: token_ok_def)
    have hh: "holds b (struct_off f + ?p) (be_bytes 4 FDT_PROP)" "holds b (struct_off f + ?p + 4) (be_bytes 4 (of_nat (length v) :: u32))"
      "holds b (struct_off f + ?p + 8) (be_bytes 4 (of_nat (offs n) :: u32))" "holds b (struct_off f + ?p + 12) v"
      using h(1) T_Prop by (simp_all add: token_bytes_def pad4_def holds_append add.assoc)
    have u: "unat (of_nat (length v) :: u32) = length v" "unat (of_nat (offs n) :: u32) = offs n" using ok by (simp_all add: unat_of_nat)
    have nm: "str_at b f (offs n) = Some n" using cstr_holds [OF Cons.prems(4) [of n v] ok(1)] T_Prop by (simp add: str_at_def)
    have v: "struct_off f + ?p + 12 + length v \<le> length b" "subslice b (struct_off f + ?p + 12) (length v) = v" using hh(4) by (simp_all add: holds_def)
    have "token_event b f FDT_PROP (w\<lparr>wk_pos := ?p + 4\<rparr>) = Some (Some (PropEv (wk_depth w) n v), w\<lparr>wk_pos := ?p + ?l\<rparr>)"
      using holds_be32 [OF hh(2)] holds_be32 [OF hh(3)] u nm v l by (simp add: token_event_def fdt_tokens add.assoc)
    then have "next_event b f w = Some (Some (PropEv (wk_depth w) n v), w\<lparr>wk_pos := ?p + ?l\<rparr>)"
      using next_event_token [OF hh(1)] fits l by (simp add: fdt_tokens)
    from step [OF this] show ?thesis using T_Prop by simp
  next
    case T_Nop
    then have l: "?l = 4" by (simp add: token_bytes_def)
    have hh: "holds b (struct_off f + ?p) (be_bytes 4 FDT_NOP)" using h(1) T_Nop by (simp add: token_bytes_def)
    have "next_event b f w = next_event b f (w\<lparr>wk_pos := ?p + ?l\<rparr>)" using next_event_token [OF hh] fits l by simp
    then have "walk_events b f body w s = walk_events b f body (w\<lparr>wk_pos := ?p + ?l\<rparr>) s" by (simp add: walk_events.simps [of b f body w] walk_events.simps [of b f body "w\<lparr>wk_pos := ?p + ?l\<rparr>"])
    then show ?thesis using IH T_Nop by simp
  qed
qed

subsection \<open>Whole blobs\<close>

datatype tree = Node bytes "(bytes \<times> bytes) list" "tree list"

fun flatten :: "tree \<Rightarrow> token list" where
  "flatten (Node n ps cs) = T_Begin n # map (\<lambda>(k, v). T_Prop k v) ps @ concat (map flatten cs) @ [T_End]"

fun tree_events :: "nat \<Rightarrow> tree \<Rightarrow> Event list" where
  "tree_events d (Node n ps cs) = BeginNode d n # map (\<lambda>(k, v). PropEv d k v) ps @ concat (map (tree_events (d + 1)) cs) @ [EndNode]"

fun tree_names :: "tree \<Rightarrow> bytes list" where
  "tree_names (Node n ps cs) = map fst ps @ concat (map tree_names cs)"

fun tree_ok :: "tree \<Rightarrow> bool" where
  "tree_ok (Node n ps cs) = (cname n \<and> list_all (\<lambda>(k, v). cname k \<and> length v < 2 ^ 32) ps \<and> list_all tree_ok cs)"

definition strings_of :: "bytes list \<Rightarrow> bytes" where
  "strings_of names = concat (map (\<lambda>n. n @ [0]) names)"

definition offset_in :: "bytes list \<Rightarrow> bytes \<Rightarrow> nat" where
  "offset_in names n = length (strings_of (takeWhile (\<lambda>m. m \<noteq> n) names))"

definition struct_block :: "tree \<Rightarrow> bytes" where
  "struct_block t = concat (map (token_bytes (offset_in (tree_names t))) (flatten t)) @ be_bytes 4 FDT_END"

text \<open>
  A blob of version 17 as the specification lays it out: the ten words of the header, an empty
  reservation map, the structure block and the strings block.
\<close>

definition blob_words :: "tree \<Rightarrow> nat list" where
  "blob_words t = (let s = length (struct_block t); n = length (strings_of (tree_names t)) in
     [unat FDT_MAGIC, 56 + s + n, 56, 56 + s, 40, 17, 16, 0, n, s])"

definition blob :: "tree \<Rightarrow> bytes" where
  "blob t = concat (map (\<lambda>x. be_bytes 4 (of_nat x :: u32)) (blob_words t)) @ replicate 16 0 @ struct_block t @ strings_of (tree_names t)"

lemma tree_tokens_events: "token_events d (flatten t @ ts) = tree_events (d + 1) t @ token_events d ts"
proof (induction t arbitrary: d ts)
  case (Node n ps cs)
  have props: "token_events e (map (\<lambda>(k, v). T_Prop k v) qs @ us) = map (\<lambda>(k, v). PropEv e k v) qs @ token_events e us" for e qs us
    by (induction qs) auto
  have kids: "token_events e (concat (map flatten ks) @ us) = concat (map (tree_events (e + 1)) ks) @ token_events e us" if "set ks \<subseteq> set cs" for e ks us
    using that
  proof (induction ks)
    case (Cons k ks)
    have "token_events e (flatten k @ concat (map flatten ks) @ us) = tree_events (e + 1) k @ token_events e (concat (map flatten ks) @ us)"
      by (rule Node.IH) (use Cons.prems in auto)
    then show ?case using Cons by simp
  qed simp
  show ?case using props [of "d + 1" ps] kids [of cs "d + 1"] by simp
qed

lemma flatten_ok:
  assumes "tree_ok t" and "\<forall>n\<in>set (tree_names t). offs n < 2 ^ 32"
  shows "list_all (token_ok offs) (flatten t)"
  using assms
proof (induction t)
  case (Node n ps cs)
  then have "list_all (token_ok offs) (flatten c)" if "c \<in> set cs" for c using that by (auto simp: list_all_iff [of tree_ok])
  moreover have "token_ok offs (T_Prop k v)" if "(k, v) \<in> set ps" for k v
  proof -
    have "k \<in> set (tree_names (Node n ps cs))" using that by force
    then show ?thesis using Node.prems bspec [of "set ps" "\<lambda>(k, v). cname k \<and> length v < 2 ^ 32", OF _ that]
      by (simp add: list_all_iff token_ok_def)
  qed
  ultimately show ?case using Node.prems 
    by (simp add: token_ok_def [of _ "T_Begin _"] token_ok_def [of _ T_End]) (auto simp: list_all_iff)
qed

lemma flatten_names: "T_Prop n v \<in> set (flatten t) \<Longrightarrow> n \<in> set (tree_names t)"
  by (induction t) force

lemma strings_hold:
  assumes "n \<in> set names" and "holds b at (strings_of names)"
  shows "holds b (at + offset_in names n) (n @ [0])" and "offset_in names n < length (strings_of names)"
proof -
  obtain rest where d: "dropWhile (\<lambda>m. m \<noteq> n) names = n # rest"
    using assms(1) by (cases "dropWhile (\<lambda>m. m \<noteq> n) names") (auto simp: dropWhile_eq_Nil_conv dest: dropWhile_eq_Cons_conv [THEN iffD1])
  have e: "names = takeWhile (\<lambda>m. m \<noteq> n) names @ n # rest" using takeWhile_dropWhile_id [of "\<lambda>m. m \<noteq> n" names] d by simp
  have s: "strings_of names = strings_of (takeWhile (\<lambda>m. m \<noteq> n) names) @ (n @ [0]) @ strings_of rest" by (subst e) (simp add: strings_of_def)
  have "holds b at (strings_of (takeWhile (\<lambda>m. m \<noteq> n) names) @ (n @ [0]) @ strings_of rest)" using assms(2) s by simp
  then show "holds b (at + offset_in names n) (n @ [0])" unfolding holds_append offset_in_def by (simp only: holds_append)
  show "offset_in names n < length (strings_of names)" unfolding offset_in_def arg_cong [OF s, of length] by simp
qed

text \<open>A blob that is small enough for its own header is read as the tree it was made from.\<close>

lemma blob_holds:
  assumes "length (blob t) < 2 ^ 32"
  shows "i < 10 \<Longrightarrow> be32 (blob t @ rest) (4 * i) = Some (of_nat (blob_words t ! i))"
    and "holds (blob t @ rest) 56 (struct_block t)" and "holds (blob t @ rest) (56 + length (struct_block t)) (strings_of (tree_names t))"
proof -
  let ?b = "blob t @ rest" and ?w = "map (\<lambda>x. be_bytes 4 (of_nat x :: u32)) (blob_words t)"
  have all: "holds ?b 0 ?b" unfolding holds_def by (simp add: subslice_def)
  have b: "?b = concat ?w @ replicate 16 0 @ struct_block t @ strings_of (tree_names t) @ rest" by (simp add: blob_def)
  have l: "length (concat ?w) = 40" by (simp add: blob_words_def Let_def length_concat)
  have H: "holds ?b 0 (concat ?w)" "holds ?b 56 (struct_block t)" "holds ?b (56 + length (struct_block t)) (strings_of (tree_names t))"
    using all [unfolded b, unfolded holds_append, folded b] l by (simp_all add: b)
  show "holds ?b 56 (struct_block t)" "holds ?b (56 + length (struct_block t)) (strings_of (tree_names t))" by (rule H(2,3))+
  have word: "holds ?b (at + 4 * i) (be_bytes 4 (of_nat (xs ! i) :: u32))" if "holds ?b at (concat (map (\<lambda>x. be_bytes 4 (of_nat x :: u32)) xs))" "i < length xs" for xs at i
    using that
  proof (induction xs arbitrary: at i)
    case (Cons x xs)
    have hx: "holds ?b at (be_bytes 4 (of_nat x :: u32))" "holds ?b (at + 4) (concat (map (\<lambda>x. be_bytes 4 (of_nat x :: u32)) xs))"
      using Cons.prems(1) by (simp_all add: holds_append)
    show ?case
    proof (cases i)
      case (Suc j)
      then show ?thesis using Cons.IH [OF hx(2), of j] Cons.prems(2) by (simp add: algebra_simps)
    qed (use hx(1) in simp)
  qed simp
  have "length (blob_words t) = 10" by (simp add: blob_words_def Let_def)
  then show "be32 ?b (4 * i) = Some (of_nat (blob_words t ! i))" if "i < 10" using holds_be32 [OF word [OF H(1)], of i] that by simp
qed

definition fdt_of :: "tree \<Rightarrow> Fdt" where
  "fdt_of t = \<lparr>struct_off = 56, struct_size = length (struct_block t), strings_off = 56 + length (struct_block t), fdt_total_size = length (blob t)\<rparr>"

lemma length_blob: "length (blob t) = 56 + length (struct_block t) + length (strings_of (tree_names t))"
  by (simp add: blob_def blob_words_def Let_def)

lemma Fdt_new_blob:
  assumes "length (blob t) < 2 ^ 32" and "addr \<noteq> 0" and "addr mod 8 = 0"
  shows "Fdt_new addr (blob t @ rest) = Some (Some (fdt_of t))"
proof -
  note W = blob_holds(1) [OF assms(1), of _ rest]
  have w: "blob_words t ! 0 = unat FDT_MAGIC" "blob_words t ! 1 = length (blob t)" "blob_words t ! 2 = 56" "blob_words t ! 3 = 56 + length (struct_block t)"
    "blob_words t ! 9 = length (struct_block t)" by (simp_all add: blob_words_def Let_def length_blob)
  have u: "unat (of_nat (length (blob t)) :: u32) = length (blob t)" "unat (of_nat (56 + length (struct_block t)) :: u32) = 56 + length (struct_block t)"
    "unat (of_nat (length (struct_block t)) :: u32) = length (struct_block t)"
    using assms(1) by (auto simp: length_blob unat_of_nat simp del: of_nat_add)
  have "be32 (blob t @ rest) 0 = Some FDT_MAGIC" "be32 (blob t @ rest) 4 = Some (of_nat (length (blob t)))" "be32 (blob t @ rest) 8 = Some 56"
    "be32 (blob t @ rest) 12 = Some (of_nat (56 + length (struct_block t)))" "be32 (blob t @ rest) 36 = Some (of_nat (length (struct_block t)))"
    using W [of 0] W [of 1] W [of 2] W [of 3] W [of 9] w by simp_all
  then show ?thesis using assms(2,3) u by (simp add: Fdt_new_def fdt_of_def)
qed

lemma walk_blob:
  assumes "tree_ok t" and "length (blob t) < 2 ^ 32"
  shows "walk_events (blob t @ rest) (fdt_of t) body Walker_new s = run_events body (tree_events 1 t) s"
proof -
  let ?b = "blob t @ rest" and ?o = "offset_in (tree_names t)"
  note H = blob_holds [OF assms(2), where rest = rest]
  have offs: "\<forall>n\<in>set (tree_names t). ?o n < 2 ^ 32"
  proof
    fix n assume "n \<in> set (tree_names t)"
    from strings_hold(2) [OF this H(3)] show "?o n < 2 ^ 32" using assms(2) by (simp add: length_blob)
  qed
  have "walk_events ?b (fdt_of t) body Walker_new s = run_events body (token_events (wk_depth Walker_new) (flatten t)) s"
  proof (rule walk_tokens)
    show "holds ?b (struct_off (fdt_of t) + wk_pos Walker_new) (concat (map (token_bytes ?o) (flatten t)) @ be_bytes 4 FDT_END)"
      using H(2) by (simp add: fdt_of_def Walker_new_def struct_block_def)
    show "holds ?b (strings_off (fdt_of t) + ?o n) (n @ [0])" if "T_Prop n v \<in> set (flatten t)" for n v
      using strings_hold(1) [OF flatten_names [OF that] H(3)] by (simp add: fdt_of_def)
  qed (simp_all add: fdt_of_def Walker_new_def struct_block_def flatten_ok [OF assms(1) offs])
  then show ?thesis using tree_tokens_events [of 0 t "[]"] by (simp add: Walker_new_def)
qed

section \<open>The devices of a tree\<close>

text \<open>Of several properties of one name the last counts.\<close>

definition prop_last :: "string \<Rightarrow> (bytes \<times> bytes) list \<Rightarrow> bytes option" where
  "prop_last k ps = map_of (rev ps) (ascii k)"

definition cell_count :: "string \<Rightarrow> (bytes \<times> bytes) list \<Rightarrow> nat" where
  "cell_count k ps = fold (\<lambda>(n, v) c. if n = ascii k \<and> 4 \<le> length v then unat (be32_slice v) else c) ps 2"

definition node_device :: "bytes \<Rightarrow> nat \<Rightarrow> nat \<Rightarrow> (bytes \<times> bytes) list \<Rightarrow> DeviceNode list" where
  "node_device want ac sc ps = (case (prop_last ''compatible'' ps, prop_last ''reg'' ps) of
     (Some c, Some r) \<Rightarrow> if want \<in> set (split_nul [] c) \<and> (ac + sc) * 4 \<le> length r
       then [\<lparr>dn_base = the (read_cells r 0 ac), dn_size = the (read_cells r (ac * 4) sc),
              dn_irq = (case Option.bind (prop_last ''interrupts'' ps) gic_intid of Some i \<Rightarrow> i | None \<Rightarrow> 0)\<rparr>] else []
   | _ \<Rightarrow> [])"

fun tree_devices :: "bytes \<Rightarrow> nat \<Rightarrow> nat \<Rightarrow> tree \<Rightarrow> DeviceNode list" where
  "tree_devices want ac sc (Node n ps cs) = (if cs = [] then node_device want ac sc ps else concat (map (tree_devices want ac sc) cs))"

lemma read_cells_total:
  assumes "at + cells * 4 \<le> length r"
  shows "\<exists>v. read_cells r at cells = Some v"
  using assms
proof (induction cells)
  case (Suc n)
  then obtain v where "read_cells r at n = Some v" by auto
  moreover have "be32 r (at + n * 4) \<noteq> None" using Suc.prems by (simp add: be32_def)
  ultimately show ?case by (auto simp: read_cells_def)
qed (simp add: read_cells_def)

text \<open>What the properties of a node leave in the variables of \<open>devices\<close>.\<close>

definition after_props :: "nat \<Rightarrow> (bytes \<times> bytes) list \<Rightarrow> query_state \<Rightarrow> query_state" where
  "after_props d ps s = fold (\<lambda>(k, v). query_prop d k v) ps s"

lemma ascii_names [simp]: "(ascii ''#address-cells'' = ascii ''compatible'') = False" "(ascii ''#address-cells'' = ascii ''reg'') = False"
  "(ascii ''#address-cells'' = ascii ''interrupts'') = False" "(ascii ''#address-cells'' = ascii ''#size-cells'') = False"
  "(ascii ''#size-cells'' = ascii ''compatible'') = False" "(ascii ''#size-cells'' = ascii ''reg'') = False"
  "(ascii ''#size-cells'' = ascii ''interrupts'') = False" "(ascii ''#size-cells'' = ascii ''#address-cells'') = False"
  "(ascii ''reg'' = ascii ''compatible'') = False" "(ascii ''interrupts'' = ascii ''compatible'') = False" "(ascii ''interrupts'' = ascii ''reg'') = False"
  "(ascii ''reg'' = ascii ''interrupts'') = False" "(ascii ''compatible'' = ascii ''reg'') = False" "(ascii ''compatible'' = ascii ''interrupts'') = False"
  by (simp_all add: ascii_def)

lemma query_prop_fields:
  "q_compat (query_prop d k v s) = (if k = ascii ''compatible'' then Some v else q_compat s)"
  "q_reg (query_prop d k v s) = (if k = ascii ''reg'' then Some v else q_reg s)"
  "q_irq (query_prop d k v s) = (if k = ascii ''interrupts'' then Some v else q_irq s)"
  "q_addr (query_prop d k v s) = (if d = 1 \<and> k = ascii ''#address-cells'' \<and> 4 \<le> length v then unat (be32_slice v) else q_addr s)"
  "q_size (query_prop d k v s) = (if d = 1 \<and> k = ascii ''#size-cells'' \<and> 4 \<le> length v then unat (be32_slice v) else q_size s)"
  by (auto simp: query_prop_def root_cells_def)

lemma after_props_fields:
  "q_compat (after_props d ps s) = (case prop_last ''compatible'' ps of Some v \<Rightarrow> Some v | None \<Rightarrow> q_compat s)"
  "q_reg (after_props d ps s) = (case prop_last ''reg'' ps of Some v \<Rightarrow> Some v | None \<Rightarrow> q_reg s)"
  "q_irq (after_props d ps s) = (case prop_last ''interrupts'' ps of Some v \<Rightarrow> Some v | None \<Rightarrow> q_irq s)"
  "d \<noteq> 1 \<Longrightarrow> q_addr (after_props d ps s) = q_addr s" "d \<noteq> 1 \<Longrightarrow> q_size (after_props d ps s) = q_size s"
  "q_addr s = 2 \<Longrightarrow> q_addr (after_props 1 ps s) = cell_count ''#address-cells'' ps"
  "q_size s = 2 \<Longrightarrow> q_size (after_props 1 ps s) = cell_count ''#size-cells'' ps"
  by (induction ps rule: rev_induct; force simp: after_props_def prop_last_def cell_count_def query_prop_fields)+

text \<open>
  How the walk over part of the tree may end when the list was \<open>out\<close> and the part has the devices \<open>xs\<close>:
  with them added and nothing left in the variables that would count as a device again, or, once the
  list is full, with the query.
\<close>

definition adds :: "bytes \<Rightarrow> nat \<Rightarrow> nat \<Rightarrow> nat \<Rightarrow> DeviceNode list \<Rightarrow> DeviceNode list \<Rightarrow> (DeviceNode list + query_state \<times> DeviceNode list) option \<Rightarrow> bool" where
  "adds want cap ac sc out xs r \<longleftrightarrow>
     (\<exists>s. r = Some (Inr (s, out @ xs)) \<and> q_addr s = ac \<and> q_size s = sc \<and> device_here want s = Some None \<and> length (out @ xs) \<le> cap)
     \<or> (r = Some (Inl (take cap (out @ xs))) \<and> cap \<le> length (out @ xs))"

lemma adds_full: "length out = cap \<Longrightarrow> evs \<noteq> [] \<Longrightarrow> adds want cap ac sc out xs (run_events (devices_body want cap) evs (s, out))"
  by (cases evs) (simp_all add: devices_body_def adds_def)

lemma adds_append:
  assumes "adds want cap ac sc out xs (run_events (devices_body want cap) es (s, out))"
    and "\<And>s'. q_addr s' = ac \<Longrightarrow> q_size s' = sc \<Longrightarrow> device_here want s' = Some None \<Longrightarrow> length (out @ xs) \<le> cap \<Longrightarrow>
      adds want cap ac sc (out @ xs) ys (run_events (devices_body want cap) fs (s', out @ xs))"
  shows "adds want cap ac sc out (xs @ ys) (run_events (devices_body want cap) (es @ fs) (s, out))"
  using assms(1) unfolding adds_def [of _ _ _ _ _ xs]
proof (elim disjE exE conjE)
  fix s' assume "run_events (devices_body want cap) es (s, out) = Some (Inr (s', out @ xs))" "q_addr s' = ac" "q_size s' = sc"
    "device_here want s' = Some None" "length (out @ xs) \<le> cap"
  then show ?thesis using assms(2) [of s'] by (simp add: run_events_append adds_def)
next
  assume "run_events (devices_body want cap) es (s, out) = Some (Inl (take cap (out @ xs)))" "cap \<le> length (out @ xs)"
  then show ?thesis by (simp add: run_events_append adds_def)
qed

lemma adds_end: "q_addr s = ac \<Longrightarrow> q_size s = sc \<Longrightarrow> device_here want s = Some None \<Longrightarrow> length out \<le> cap \<Longrightarrow>
  adds want cap ac sc out [] (run_events (devices_body want cap) [EndNode] (s, out))"
  by (auto simp: adds_def devices_body_def)

lemma device_here_node:
  assumes "q_compat s = prop_last ''compatible'' ps" and "q_reg s = prop_last ''reg'' ps" and "q_irq s = prop_last ''interrupts'' ps"
  shows "device_here want s = Some (case node_device want (q_addr s) (q_size s) ps of [] \<Rightarrow> None | x # _ \<Rightarrow> Some x)"
proof (cases "prop_last ''compatible'' ps = None \<or> prop_last ''reg'' ps = None")
  case False
  then obtain c r where cr: "prop_last ''compatible'' ps = Some c" "prop_last ''reg'' ps = Some r" by auto
  have m: "compat_matches c want \<longleftrightarrow> want \<in> set (split_nul [] c)" by (simp add: compat_matches_def list_ex_iff)
  show ?thesis
  proof (cases "want \<in> set (split_nul [] c) \<and> (q_addr s + q_size s) * 4 \<le> length r")
    case True
    then obtain x y where "read_cells r 0 (q_addr s) = Some x" "read_cells r (q_addr s * 4) (q_size s) = Some y"
      using read_cells_total [of 0 "q_addr s" r] read_cells_total [of "q_addr s * 4" "q_size s" r] by (auto simp: algebra_simps)
    then show ?thesis using True cr m assms by (auto simp: device_here_def node_device_def)
  qed (use cr m assms in \<open>auto simp: device_here_def node_device_def not_le\<close>)
qed (use assms in \<open>auto simp: device_here_def node_device_def split: option.splits\<close>)

lemma adds_leaf:
  assumes "q_compat s = prop_last ''compatible'' ps" and "q_reg s = prop_last ''reg'' ps" and "q_irq s = prop_last ''interrupts'' ps"
    and "length out < cap"
  shows "adds want cap (q_addr s) (q_size s) out (node_device want (q_addr s) (q_size s) ps) (run_events (devices_body want cap) [EndNode] (s, out))"
proof -
  note d = device_here_node [OF assms(1-3), of want]
  have "device_here want (query_clear s) = Some None" by (simp add: device_here_def query_clear_def)
  moreover have "q_addr (query_clear s) = q_addr s" "q_size (query_clear s) = q_size s" by (simp_all add: query_clear_def)
  moreover have "node_device want (q_addr s) (q_size s) ps = [] \<or> (\<exists>x. node_device want (q_addr s) (q_size s) ps = [x])"
    by (auto simp: node_device_def split: option.splits)
  ultimately show ?thesis using d assms(4) by (auto simp: adds_def devices_body_def)
qed

lemma run_props: "length out < cap \<Longrightarrow>
  run_events (devices_body want cap) (map (\<lambda>(k, v). PropEv d k v) ps) (s, out) = Some (Inr (after_props d ps s, out))"
  by (induction ps arbitrary: s) (auto simp: devices_body_def after_props_def)

lemma run_head:
  assumes "length out < cap"
  shows "run_events (devices_body want cap) (BeginNode d n # map (\<lambda>(k, v). PropEv d k v) ps @ es) (s, out) =
    run_events (devices_body want cap) es (after_props d ps (query_clear s), out)"
  using run_props [OF assms, of want d ps "query_clear s"] assms by (simp add: run_events_append) (simp add: devices_body_def run_events_append)

lemma adds_kids:
  assumes "ks \<noteq> []" and "\<And>k s out. k \<in> set ks \<Longrightarrow> q_addr s = ac \<Longrightarrow> q_size s = sc \<Longrightarrow> length out \<le> cap \<Longrightarrow>
      adds want cap ac sc out (g k) (run_events (devices_body want cap) (ev k) (s, out))"
    and "q_addr s = ac" "q_size s = sc" "length out \<le> cap"
  shows "adds want cap ac sc out (concat (map g ks)) (run_events (devices_body want cap) (concat (map ev ks)) (s, out))"
  using assms
proof (induction ks arbitrary: s out rule: list_nonempty_induct)
  case (single k)
  then show ?case by simp
next
  case (cons k ks)
  have "adds want cap ac sc out (g k) (run_events (devices_body want cap) (ev k) (s, out))" using cons.prems by simp
  then show ?case using adds_append cons by (fastforce intro!: adds_append)
qed

lemma node_head_fields:
  "q_compat (after_props d ps (query_clear s)) = prop_last ''compatible'' ps" "q_reg (after_props d ps (query_clear s)) = prop_last ''reg'' ps"
  "q_irq (after_props d ps (query_clear s)) = prop_last ''interrupts'' ps"
  by (simp_all add: after_props_fields query_clear_def option.case_eq_if)

lemma adds_node:
  assumes "length out < cap" and "q_addr (after_props d ps (query_clear s)) = ac" and "q_size (after_props d ps (query_clear s)) = sc"
    and kids: "\<And>k s out. k \<in> set cs \<Longrightarrow> q_addr s = ac \<Longrightarrow> q_size s = sc \<Longrightarrow> length out \<le> cap \<Longrightarrow>
      adds want cap ac sc out (tree_devices want ac sc k) (run_events (devices_body want cap) (tree_events (d + 1) k) (s, out))"
  shows "adds want cap ac sc out (tree_devices want ac sc (Node n ps cs)) (run_events (devices_body want cap) (tree_events d (Node n ps cs)) (s, out))"
proof -
  let ?s = "after_props d ps (query_clear s)"
  show ?thesis
  proof (cases "cs = []")
    case True
    then show ?thesis using adds_leaf [OF node_head_fields assms(1), of want d ps s] run_head [OF assms(1), of want d n ps "[EndNode]" s] assms(2,3) by simp
  next
    case False
    have "adds want cap ac sc out (concat (map (tree_devices want ac sc) cs) @ []) (run_events (devices_body want cap) (concat (map (tree_events (d + 1)) cs) @ [EndNode]) (?s, out))"
    proof (rule adds_append [OF adds_kids [OF False kids]])
      show "length out \<le> cap" using assms(1) by simp
    qed (use assms(2,3) in \<open>simp_all del: run_events.simps add: adds_end\<close>)
    then show ?thesis using False run_head [OF assms(1), of want d n ps "concat (map (tree_events (d + 1)) cs) @ [EndNode]" s] by simp
  qed
qed

lemma adds_subtree:
  assumes "1 < d" and "q_addr s = ac" and "q_size s = sc" and "length out \<le> cap"
  shows "adds want cap ac sc out (tree_devices want ac sc t) (run_events (devices_body want cap) (tree_events d t) (s, out))"
  using assms
proof (induction t arbitrary: d s out)
  case (Node n ps cs)
  show ?case
  proof (cases "length out = cap")
    case True
    then show ?thesis by (rule adds_full) simp
  next
    case False
    show ?thesis by (rule adds_node) (use Node False in \<open>auto simp: after_props_fields query_clear_def\<close>)
  qed
qed

section \<open>Properties\<close>

text \<open>
  C32: The reader of the device tree always comes to an end, but for one way. Every query that walks the
  tree is a total function of the bytes, since each event moves the walker on by at least a token. The
  iterator over memory regions also returns, whatever the bytes and whatever state it is in, unless it
  is part-way through a \<open>reg\<close> property with both cell counts zero: then the stride is zero and it never
  returns, and that is the only way.
\<close>

theorem memory_regions_terminate:
  "regions_next b f st = None \<longleftrightarrow> (\<exists>st'. rounds b f st st' \<and> stuck st')"
  using regions_next_returns [of b f st] regions_next_not_stuck [of b f st] by (cases "regions_next b f st") auto

text \<open>
  C33: What the specification writes, the reader reads. For every tree whose names are UTF-8 without NUL
  and whose blob fits its own header, the blob that holds it, wherever it is and whatever follows
  it, is accepted, and walking it gives exactly the nodes and properties of the tree in order, each
  with its depth, its name out of the strings block and the bytes of its value.
\<close>

theorem dtb_roundtrip:
  assumes "tree_ok t" and "length (blob t) < 2 ^ 32" and "addr \<noteq> 0" and "addr mod 8 = 0"
  shows "\<exists>f. Fdt_new addr (blob t @ rest) = Some (Some f) \<and> fdt_total_size f = length (blob t)
    \<and> fdt_events (blob t @ rest) f Walker_new = Some (tree_events 1 t)"
proof (intro exI conjI)
  show "Fdt_new addr (blob t @ rest) = Some (Some (fdt_of t))" by (rule Fdt_new_blob [OF assms(2-4)])
  show "fdt_events (blob t @ rest) (fdt_of t) Walker_new = Some (tree_events 1 t)"
    unfolding fdt_events_def walk_blob [OF assms(1,2)] by (simp add: run_events_collect)
qed (simp add: fdt_of_def)

text \<open>A tree with a device that has a child, and one that has not.\<close>

definition demo_tree :: tree where
  "demo_tree = Node [] [(ascii ''#address-cells'', be_bytes 4 (1 :: u32)), (ascii ''#size-cells'', be_bytes 4 (1 :: u32))]
     [Node (ascii ''a'') [(ascii ''compatible'', ascii ''x''), (ascii ''reg'', be_bytes 4 (16 :: u32) @ be_bytes 4 (8 :: u32))] [Node (ascii ''c'') [] []],
      Node (ascii ''b'') [(ascii ''compatible'', ascii ''x''), (ascii ''reg'', be_bytes 4 (32 :: u32) @ be_bytes 4 (8 :: u32))] []]"

lemma demo_tree_ok: "tree_ok demo_tree" "length (blob demo_tree) < 2 ^ 32" "8 \<noteq> (0::nat)" "8 mod 8 = (0::nat)"
  by (simp_all add: demo_tree_def cname_def ascii_def length_blob struct_block_def token_bytes_def align4_def strings_of_def)

theorem dtb_roundtrip_witness:
  "\<exists>f. Fdt_new 8 (blob demo_tree @ [7]) = Some (Some f) \<and> fdt_events (blob demo_tree @ [7]) f Walker_new = Some (tree_events 1 demo_tree)
     \<and> length (tree_events 1 demo_tree) = 14"
proof -
  have "length (tree_events 1 demo_tree) = 14" by (simp add: demo_tree_def)
  then show ?thesis using dtb_roundtrip [OF demo_tree_ok, of "[7]"] by blast
qed

text \<open>
  C34: \<open>devices\<close> finds exactly the matching nodes without children. For every tree, the answer is the first
  \<open>cap\<close>, in the order of the tree, of the nodes that have no child nodes, list the wanted string in
  \<open>compatible\<close> and have a \<open>reg\<close> of at least one pair, with the base and size that the root's cell counts cut out
  of it. A matching node that does have children is never reported: its properties are forgotten at
  the first child.
\<close>

theorem devices_exact:
  assumes "Node n ps cs = t" and "tree_ok t" and "length (blob t) < 2 ^ 32"
  shows "devices (blob t @ rest) (fdt_of t) want cap =
    Some (take cap (tree_devices want (cell_count ''#address-cells'' ps) (cell_count ''#size-cells'' ps) t))"
proof -
  let ?ac = "cell_count ''#address-cells'' ps" and ?sc = "cell_count ''#size-cells'' ps"
  let ?r = "run_events (devices_body want cap) (tree_events 1 t) (query_start, [])"
  have "adds want cap ?ac ?sc [] (tree_devices want ?ac ?sc t) ?r"
  proof (cases "cap = 0")
    case True
    then show ?thesis by (intro adds_full) (simp_all flip: assms(1))
  next
    case False
    show ?thesis unfolding assms(1) [symmetric]
      by (rule adds_node)
        (use False after_props_fields(6,7) [of "query_clear query_start"] in \<open>auto simp: query_clear_def query_start_def intro: adds_subtree\<close>)
  qed
  then show ?thesis unfolding devices_def walk_blob [OF assms(2,3)] by (auto simp: adds_def)
qed

theorem devices_exact_witness:
  "devices (blob demo_tree) (fdt_of demo_tree) (ascii ''x'') 4 = Some [\<lparr>dn_base = 32, dn_size = 8, dn_irq = 0\<rparr>]"
proof -
  obtain n ps cs where t: "Node n ps cs = demo_tree" by (metis tree.exhaust)
  have "take 4 (tree_devices (ascii ''x'') (cell_count ''#address-cells'' ps) (cell_count ''#size-cells'' ps) demo_tree) = [\<lparr>dn_base = 32, dn_size = 8, dn_irq = 0\<rparr>]"
  proof -
    have "ps = [(ascii ''#address-cells'', be_bytes 4 (1 :: u32)), (ascii ''#size-cells'', be_bytes 4 (1 :: u32))]" using t by (simp add: demo_tree_def)
    then show ?thesis by (simp only:) code_simp
  qed
  then show ?thesis using devices_exact [OF t demo_tree_ok(1,2), of "[]" "ascii ''x''" 4] by simp
qed

end
