(* ===== verification/Kv_Inv.thy ===== *)
theory Kv_Inv
  imports Kv
begin

text \<open>
  The invariant of the key/value cache over memory and disk, that every operation keeps it, and what
  follows for readers and for the choice of what is evicted.
\<close>

section \<open>The view of the blocks\<close>

text \<open>What the invariant needs of a session: its id and its blocks.\<close>

type_synonym view = "(nat \<times> Block list) list"

definition kv_view :: "Cache \<Rightarrow> view" where
  "kv_view c = map (\<lambda>s. (ses_id s, ses_blocks s)) (kv_sessions c)"

definition at_block :: "view \<Rightarrow> nat \<Rightarrow> nat \<Rightarrow> Block \<Rightarrow> bool" where
  "at_block V i j b \<longleftrightarrow> i < length V \<and> j < length (snd (V ! i)) \<and> snd (V ! i) ! j = b"

definition kv_held :: "view \<Rightarrow> nat set" where
  "kv_held V = {f. \<exists>i j u. at_block V i j (Resident f u)}"

definition count_resident :: "view \<Rightarrow> nat" where
  "count_resident V = sum_list (map (\<lambda>p. length (filter in_memory (snd p))) V)"

definition content :: "nat \<Rightarrow> nat \<Rightarrow> nat \<Rightarrow> pmem \<Rightarrow> disk \<Rightarrow> Block \<Rightarrow> bool" where
  "content ident j limit m d b = (case b of
     Resident f _ \<Rightarrow> \<forall>k<BLOCK_BYTES. m (f + k) = pattern ident j k
   | Spilled s \<Rightarrow> s + SECTORS_PER_BLOCK \<le> limit \<and> (\<forall>k<BLOCK_BYTES. store d (of_nat (s + k div SECTOR_SIZE)) ! (k mod SECTOR_SIZE) = pattern ident j k)
   | Spilling _ _ \<Rightarrow> False)"

definition kv_ok :: "nat set \<Rightarrow> nat set \<Rightarrow> view \<Rightarrow> nat \<Rightarrow> nat \<Rightarrow> nat \<Rightarrow> kmem \<Rightarrow> disk \<Rightarrow> bool" where
  "kv_ok lost base V rb sn se k d \<longleftrightarrow> frames_ok (kfr k) (base \<union> kv_held V) lost \<and> base \<inter> kv_held V = {}
     \<and> (\<forall>i j f u i' j' u'. at_block V i j (Resident f u) \<and> at_block V i' j' (Resident f u') \<longrightarrow> i' = i \<and> j' = j)
     \<and> (\<forall>i j b. at_block V i j b \<longrightarrow> content (fst (V ! i)) j sn (pm k) d b)
     \<and> rb = count_resident V \<and> sn \<le> se \<and> se \<le> 2 ^ 64 \<and> (\<forall>s. length (store d s) = SECTOR_SIZE)"

lemma kv_okD:
  assumes "kv_ok lost base V rb sn se k d"
  shows "frames_ok (kfr k) (base \<union> kv_held V) lost" and "base \<inter> kv_held V = {}"
    and "at_block V i j (Resident f u) \<Longrightarrow> at_block V i' j' (Resident f u') \<Longrightarrow> i' = i \<and> j' = j"
    and "at_block V i j b \<Longrightarrow> content (fst (V ! i)) j sn (pm k) d b"
    and "rb = count_resident V" and "sn \<le> se" and "se \<le> 2 ^ 64" and "length (store d s) = SECTOR_SIZE"
  using assms unfolding kv_ok_def by blast+

text \<open>Putting a block in place of one, or behind the last.\<close>

definition put :: "view \<Rightarrow> nat \<Rightarrow> nat \<Rightarrow> Block \<Rightarrow> view" where
  "put V i j b = V[i := (fst (V ! i), take j (snd (V ! i)) @ b # drop (Suc j) (snd (V ! i)))]"

lemma put_at:
  assumes "i < length V" and "j \<le> length (snd (V ! i))"
  shows "at_block (put V i j b) i' j' b' \<longleftrightarrow> (if (i', j') = (i, j) then b' = b else at_block V i' j' b')"
proof -
  have "j' < length (take j xs @ b # drop (Suc j) xs) \<and> (take j xs @ b # drop (Suc j) xs) ! j' = b' \<longleftrightarrow>
      (if j' = j then b' = b else j' < length xs \<and> xs ! j' = b')" if "j \<le> length xs" for xs :: "Block list"
    using that by (auto simp: nth_append nth_Cons' min_def)
  then show ?thesis using assms by (cases "i' = i") (auto simp: at_block_def put_def)
qed

lemma put_fst [simp]: "fst (put V i j b ! i') = fst (V ! i')"
  by (cases "i' = i"; cases "i < length V") (simp_all add: put_def list_update_beyond)

lemma count_put:
  assumes "i < length V" and "j \<le> length (snd (V ! i))"
  shows "count_resident (put V i j b) + (if \<exists>x. at_block V i j x \<and> in_memory x then 1 else 0) = count_resident V + (if in_memory b then 1 else 0)"
proof -
  let ?xs = "snd (V ! i)" and ?c = "\<lambda>xs. length (filter in_memory xs)"
  have one: "?c (take j ?xs @ b # drop (Suc j) ?xs) + (if \<exists>x. at_block V i j x \<and> in_memory x then 1 else 0) = ?c ?xs + (if in_memory b then 1 else 0)"
  proof (cases "j < length ?xs")
    case True
    have "?c ?xs = ?c (take j ?xs @ ?xs ! j # drop (Suc j) ?xs)" using id_take_nth_drop [OF True] by simp
    then show ?thesis using True assms(1) by (simp add: at_block_def)
  qed (use assms in \<open>simp add: at_block_def\<close>)
  have "?c ?xs \<le> count_resident V" using assms(1) elem_le_sum_list [of i "map (\<lambda>p. ?c (snd p)) V"] by (simp add: count_resident_def)
  then show ?thesis using one assms(1) by (simp add: count_resident_def put_def map_update sum_list_update)
qed

text \<open>One block changes: what has to be shown of it, of memory and of the disk.\<close>

lemma kv_ok_put:
  assumes ok: "kv_ok lost base V rb sn se k d" and i: "i < length V" "j \<le> length (snd (V ! i))"
    and fr: "frames_ok (kfr k') (base \<union> kv_held (put V i j b)) lost"
    and new: "\<And>f u. b = Resident f u \<Longrightarrow> f \<notin> base \<and> (\<forall>i' j' u'. at_block V i' j' (Resident f u') \<longrightarrow> i' = i \<and> j' = j)"
    and c: "content (fst (V ! i)) j sn' (pm k') d' b"
    and others: "\<And>i' j' b'. at_block V i' j' b' \<Longrightarrow> (i', j') \<noteq> (i, j) \<Longrightarrow> content (fst (V ! i')) j' sn (pm k) d b' \<Longrightarrow> content (fst (V ! i')) j' sn' (pm k') d' b'"
    and rest: "rb' = count_resident (put V i j b)" "sn' \<le> se" "\<And>s. length (store d' s) = SECTOR_SIZE"
  shows "kv_ok lost base (put V i j b) rb' sn' se k' d'"
proof -
  note P = kv_okD [OF ok] and A = put_at [OF i, of b]
  have disj: "base \<inter> kv_held (put V i j b) = {}"
  proof (rule ccontr)
    assume "base \<inter> kv_held (put V i j b) \<noteq> {}"
    then obtain f i' j' u where f: "f \<in> base" "at_block (put V i j b) i' j' (Resident f u)" by (auto simp: kv_held_def)
    show False
    proof (cases "(i', j') = (i, j)")
      case True
      then have "b = Resident f u" using f(2) A by simp
      then show False using new f(1) by blast
    next
      case False
      then have "at_block V i' j' (Resident f u)" using f(2) A by simp
      then have "f \<in> kv_held V" by (auto simp: kv_held_def)
      then show False using f(1) P(2) by blast
    qed
  qed
  have inj: "i2 = i1 \<and> j2 = j1" if "at_block (put V i j b) i1 j1 (Resident f u)" "at_block (put V i j b) i2 j2 (Resident f u2)" for i1 j1 f u i2 j2 u2
  proof (cases "(i1, j1) = (i, j)"; cases "(i2, j2) = (i, j)")
    assume "(i1, j1) = (i, j)" "(i2, j2) \<noteq> (i, j)"
    then have "b = Resident f u" "at_block V i2 j2 (Resident f u2)" "(i1, j1) = (i, j)" using that by (simp_all add: A)
    then show ?thesis using new by blast
  next
    assume "(i1, j1) \<noteq> (i, j)" "(i2, j2) = (i, j)"
    then have "b = Resident f u2" "at_block V i1 j1 (Resident f u)" "(i2, j2) = (i, j)" using that by (simp_all add: A)
    then show ?thesis using new by blast
  next
    assume "(i1, j1) \<noteq> (i, j)" "(i2, j2) \<noteq> (i, j)"
    then have "at_block V i1 j1 (Resident f u)" "at_block V i2 j2 (Resident f u2)" using that by (simp_all add: A)
    then show ?thesis by (rule P(3))
  qed simp
  have "content (fst (V ! i1)) j1 sn' (pm k') d' b1" if "at_block (put V i j b) i1 j1 b1" for i1 j1 b1
    using that c others [OF _ _ P(4)] by (cases "(i1, j1) = (i, j)") (simp_all add: A)
  with inj fr disj rest P(7) show ?thesis unfolding kv_ok_def put_fst by blast
qed


text \<open>A block's bytes stay when its page, or the disk below the spill pointer, stays.\<close>

lemma content_frame:
  assumes "content ident j sn m d b" and "sn \<le> sn'"
    and "\<And>f u k. b = Resident f u \<Longrightarrow> k < BLOCK_BYTES \<Longrightarrow> m' (f + k) = m (f + k)"
    and "\<And>x. x < sn \<Longrightarrow> store d' (of_nat x) = store d (of_nat x)"
  shows "content ident j sn' m' d' b"
proof (cases b)
  case (Spilled s)
  have "s + k div SECTOR_SIZE < sn" if "k < BLOCK_BYTES" for k
    using assms(1) that Spilled by (auto simp: content_def SECTORS_PER_BLOCK_def BLOCK_BYTES_def PAGE_SIZE_def SECTOR_SIZE_def)
  then show ?thesis using assms Spilled by (simp add: content_def del: of_nat_add)
qed (use assms in \<open>simp_all add: content_def\<close>)

section \<open>Blocks on the disk\<close>

lemma sector_inj: "a < 2 ^ 64 \<Longrightarrow> b < 2 ^ 64 \<Longrightarrow> (of_nat a :: u64) = of_nat b \<longleftrightarrow> a = b"
  by (auto simp: word_unat_eq_iff unat_of_nat)

lemma write_out_frame:
  "write_out m f s ss d = (ok, d') \<Longrightarrow> (\<forall>x. x \<notin> (\<lambda>j. of_nat (s + j)) ` set ss \<longrightarrow> store d' x = store d x) \<and> bad d' = bad d
     \<and> ((\<forall>x. length (store d x) = SECTOR_SIZE) \<longrightarrow> (\<forall>x. length (store d' x) = SECTOR_SIZE))"
proof (induction ss arbitrary: d)
  case (Cons a ss)
  obtain r d1 where w: "write_sector (of_nat (s + a)) (mread m (f + a * SECTOR_SIZE) SECTOR_SIZE) d = (r, d1)" by fastforce
  note W = write_sector_store [OF w] write_sector_frame [OF w]
  show ?case
  proof (cases r)
    case (Done y)
    then have "write_out m f s ss d1 = (ok, d')" using Cons.prems w by simp
    from Cons.IH [OF this] W show ?thesis by auto
  qed (use Cons.prems w W in auto)
qed simp

lemma write_out_done:
  "write_out m f s ss d = (True, d') \<Longrightarrow> distinct ss \<Longrightarrow> \<forall>j\<in>set ss. s + j < 2 ^ 64 \<Longrightarrow> j \<in> set ss \<Longrightarrow>
   store d' (of_nat (s + j)) = mread m (f + j * SECTOR_SIZE) SECTOR_SIZE"
proof (induction ss arbitrary: d)
  case (Cons a ss)
  obtain r d1 where w: "write_sector (of_nat (s + a)) (mread m (f + a * SECTOR_SIZE) SECTOR_SIZE) d = (r, d1)" by fastforce
  then have r: "r = Done ()" "write_out m f s ss d1 = (True, d')" using Cons.prems(1) by (auto split: outcome.splits)
  show ?case
  proof (cases "j = a")
    case True
    have "(of_nat (s + a) :: u64) \<notin> (\<lambda>j. of_nat (s + j)) ` set ss"
      using Cons.prems(2,3) by (auto simp: sector_inj simp del: of_nat_add)
    then have "store d' (of_nat (s + a)) = store d1 (of_nat (s + a))" using write_out_frame [OF r(2)] by blast
    then show ?thesis using True write_sector_store [OF w] r(1) by simp
  qed (use Cons r in auto)
qed simp

lemma read_back_frame:
  "read_back f s ss d m = (ok, m') \<Longrightarrow> \<forall>j\<in>set ss. j < SECTORS_PER_BLOCK \<Longrightarrow> \<forall>x. length (store d x) = SECTOR_SIZE \<Longrightarrow>
   x < f \<or> f + BLOCK_BYTES \<le> x \<Longrightarrow> m' x = m x"
proof (induction ss arbitrary: m)
  case (Cons a ss)
  show ?case
  proof (cases rule: read_sector_cases [of "of_nat (s + a)" d])
    case 1
    have "mwrite m (f + a * SECTOR_SIZE) (store d (of_nat (s + a))) x = m x"
      using Cons.prems(2-4) by (auto simp: mwrite_def SECTORS_PER_BLOCK_def BLOCK_BYTES_def PAGE_SIZE_def SECTOR_SIZE_def)
    then show ?thesis using Cons 1 by (auto simp del: of_nat_add)
  next
    case (2 e)
    then show ?thesis using Cons.prems(1) by (simp del: of_nat_add)
  qed
qed simp

lemma read_back_done:
  "read_back f s ss d m = (True, m') \<Longrightarrow> distinct ss \<Longrightarrow> \<forall>x. length (store d x) = SECTOR_SIZE \<Longrightarrow> k < SECTOR_SIZE \<Longrightarrow>
   m' (f + (j * SECTOR_SIZE + k)) = (if j \<in> set ss then store d (of_nat (s + j)) ! k else m (f + (j * SECTOR_SIZE + k)))"
proof (induction ss arbitrary: m)
  case (Cons a ss)
  obtain e where r: "read_sector (of_nat (s + a)) d = (Done (store d (of_nat (s + a))), d)"
      "read_back f s ss d (mwrite m (f + a * SECTOR_SIZE) (store d (of_nat (s + a)))) = (True, m')"
    using Cons.prems(1) by (cases rule: read_sector_cases [of "of_nat (s + a)" d]) (auto simp del: of_nat_add)
  have len: "length (store d (of_nat (s + a))) = SECTOR_SIZE" using Cons.prems(3) by simp
  have "mwrite m (f + a * SECTOR_SIZE) (store d (of_nat (s + a))) (f + (j * SECTOR_SIZE + k)) =
      (if j = a then store d (of_nat (s + a)) ! k else m (f + (j * SECTOR_SIZE + k)))"
    using Cons.prems(4) len by (cases j a rule: linorder_cases) (auto simp: mwrite_def SECTOR_SIZE_def)
  then show ?case using Cons.IH [OF r(2)] Cons.prems(2-4) by auto
qed simp

lemma read_back_fails: "read_back f s ss d m = (False, m') \<Longrightarrow> \<exists>x. bad d x \<noteq> None"
proof (induction ss arbitrary: m)
  case (Cons a ss)
  then show ?case by (cases rule: read_sector_cases [of "of_nat (s + a)" d]) (auto simp del: of_nat_add)
qed simp

lemma nth_mread: "q < n \<Longrightarrow> mread m a n ! q = m (a + q)"
  by (simp add: mread_def)

text \<open>A byte of a block is a byte of one of its sectors.\<close>

lemma byte_in_sector:
  assumes "k < BLOCK_BYTES"
  shows "k div SECTOR_SIZE \<in> set [0..<SECTORS_PER_BLOCK]" and "k mod SECTOR_SIZE < SECTOR_SIZE" and "k div SECTOR_SIZE * SECTOR_SIZE + k mod SECTOR_SIZE = k"
  using assms by (auto simp: SECTORS_PER_BLOCK_def BLOCK_BYTES_def PAGE_SIZE_def SECTOR_SIZE_def)


section \<open>The steps of the operations\<close>

lemma held_put:
  assumes "i < length V" and "j \<le> length (snd (V ! i))"
  shows "kv_held (put V i j b) = {f. \<exists>i' j' u. (i', j') \<noteq> (i, j) \<and> at_block V i' j' (Resident f u)} \<union> {f. \<exists>u. b = Resident f u}"
  unfolding kv_held_def put_at [OF assms] by (auto split: if_splits)

text \<open>The frames of the other blocks, when the block in place is in memory and when it is not.\<close>

lemma held_others:
  assumes ok: "kv_ok lost base V rb sn se k d" and a: "at_block V i j (Resident f u)"
  shows "{g. \<exists>i' j' u. (i', j') \<noteq> (i, j) \<and> at_block V i' j' (Resident g u)} = kv_held V - {f}" and "f \<in> kv_held V"
proof -
  have "g \<noteq> f" if "(i', j') \<noteq> (i, j)" "at_block V i' j' (Resident g u')" for g i' j' u'
    using kv_okD(3) [OF ok a] that by auto
  moreover have "(i', j') \<noteq> (i, j)" if "g \<noteq> f" "at_block V i' j' (Resident g u')" for g i' j' u'
    using a that by (auto simp: at_block_def)
  ultimately show "{g. \<exists>i' j' u. (i', j') \<noteq> (i, j) \<and> at_block V i' j' (Resident g u)} = kv_held V - {f}" unfolding kv_held_def by blast
  show "f \<in> kv_held V" using a by (auto simp: kv_held_def)
qed

lemma held_others_out:
  assumes "\<not> (\<exists>f u. at_block V i j (Resident f u))"
  shows "{g. \<exists>i' j' u. (i', j') \<noteq> (i, j) \<and> at_block V i' j' (Resident g u)} = kv_held V"
  using assms unfolding kv_held_def by (auto; metis)

lemma pages_disjoint:
  assumes "f mod PAGE_SIZE = 0" and "g mod PAGE_SIZE = 0" and "f \<noteq> g" and "k < BLOCK_BYTES"
  shows "f + k < g \<or> g + BLOCK_BYTES \<le> f + k"
proof -
  obtain a b where "f = PAGE_SIZE * a" "g = PAGE_SIZE * b" using assms(1,2) by (metis mod_0_imp_dvd dvdE)
  then show ?thesis using assms(3,4) by (cases a b rule: linorder_cases) (auto simp: BLOCK_BYTES_def PAGE_SIZE_def)
qed

lemma held_aligned: "kv_ok lost base V rb sn se k d \<Longrightarrow> at_block V i j (Resident f u) \<Longrightarrow> f mod PAGE_SIZE = 0"
  by (rule frames_ok_owned(2) [OF kv_okD(1)]) (auto simp: kv_held_def)

lemma below_spill:
  assumes "write_out m f sn [0..<SECTORS_PER_BLOCK] d = (r, d')" and "sn + SECTORS_PER_BLOCK \<le> 2 ^ 64" and "x < sn"
  shows "store d' (of_nat x) = store d (of_nat x)"
proof -
  have "(of_nat x :: u64) \<notin> (\<lambda>j. of_nat (sn + j)) ` set [0..<SECTORS_PER_BLOCK]"
    using assms(2,3) by (auto simp: sector_inj simp del: of_nat_add)
  then show ?thesis using write_out_frame [OF assms(1)] by blast
qed

lemma kv_evict:
  assumes ok: "kv_ok lost base V rb sn se k d" and a: "at_block V i j (Resident f u)" and fit: "sn + SECTORS_PER_BLOCK \<le> se"
    and w: "write_out (pm k) f sn [0..<SECTORS_PER_BLOCK] d = (True, d')"
  shows "kv_ok lost base (put V i j (Spilled sn)) (rb - 1) (sn + SECTORS_PER_BLOCK) se (k\<lparr>kfr := frames_free f (kfr k)\<rparr>) d'"
proof (rule kv_ok_put [OF ok])
  note P = kv_okD [OF ok]
  show i: "i < length V" "j \<le> length (snd (V ! i))" using a by (simp_all add: at_block_def)
  have h: "base \<union> kv_held (put V i j (Spilled sn)) = (base \<union> kv_held V) - {f}"
    using held_others [OF ok a] P(2) unfolding held_put [OF i] by auto
  show "frames_ok (kfr (k\<lparr>kfr := frames_free f (kfr k)\<rparr>)) (base \<union> kv_held (put V i j (Spilled sn))) lost"
    unfolding h using frames_free_ok [OF P(1)] held_others(2) [OF ok a] by simp
  have top: "sn + SECTORS_PER_BLOCK \<le> 2 ^ 64" using fit P(7) [of] by simp
  have old: "pm k (f + q) = pattern (fst (V ! i)) j q" if "q < BLOCK_BYTES" for q using P(4) [OF a] that by (simp add: content_def)
  have "store d' (of_nat (sn + q div SECTOR_SIZE)) ! (q mod SECTOR_SIZE) = pattern (fst (V ! i)) j q" if q: "q < BLOCK_BYTES" for q
  proof -
    note B = byte_in_sector [OF q]
    have "store d' (of_nat (sn + q div SECTOR_SIZE)) = mread (pm k) (f + q div SECTOR_SIZE * SECTOR_SIZE) SECTOR_SIZE"
      using top by (intro write_out_done [OF w _ _ B(1)]) auto
    then have "store d' (of_nat (sn + q div SECTOR_SIZE)) ! (q mod SECTOR_SIZE) = pm k (f + (q div SECTOR_SIZE * SECTOR_SIZE + q mod SECTOR_SIZE))"
      using nth_mread [OF B(2), of "pm k" "f + q div SECTOR_SIZE * SECTOR_SIZE"] by (simp only: add.assoc)
    then show ?thesis using B(3) old [OF q] by simp
  qed
  then show "content (fst (V ! i)) j (sn + SECTORS_PER_BLOCK) (pm (k\<lparr>kfr := frames_free f (kfr k)\<rparr>)) d' (Spilled sn)"
    by (simp add: content_def del: of_nat_add)
  show "content (fst (V ! i')) j' (sn + SECTORS_PER_BLOCK) (pm (k\<lparr>kfr := frames_free f (kfr k)\<rparr>)) d' b'"
    if "content (fst (V ! i')) j' sn (pm k) d b'" for i' j' b'
    using that by (rule content_frame) (simp_all add: below_spill [OF w top])
  have "\<exists>x. at_block V i j x \<and> in_memory x" using a by (auto simp: in_memory_def)
  then show "rb - 1 = count_resident (put V i j (Spilled sn))" using count_put [OF i, of "Spilled sn"] P(5) by (simp add: in_memory_def)
  show "\<And>s. length (store d' s) = SECTOR_SIZE" using write_out_frame [OF w] P(8) by blast
qed (use fit in simp_all)

text \<open>The write failed: the block is put back, with a new time of use.\<close>

lemma kv_touch:
  assumes ok: "kv_ok lost base V rb sn se k d" and a: "at_block V i j (Resident f u)"
    and d: "\<And>x. x < sn \<Longrightarrow> store d' (of_nat x) = store d (of_nat x)" "\<And>s. length (store d' s) = SECTOR_SIZE" and sn: "sn \<le> sn'" "sn' \<le> se"
  shows "kv_ok lost base (put V i j (Resident f t)) rb sn' se k d'"
proof (rule kv_ok_put [OF ok])
  note P = kv_okD [OF ok]
  show i: "i < length V" "j \<le> length (snd (V ! i))" using a by (simp_all add: at_block_def)
  have "kv_held (put V i j (Resident f t)) = kv_held V" using held_others [OF ok a] unfolding held_put [OF i] by auto
  then show "frames_ok (kfr k) (base \<union> kv_held (put V i j (Resident f t))) lost" using P(1) by simp
  show "g \<notin> base \<and> (\<forall>i' j' u'. at_block V i' j' (Resident g u') \<longrightarrow> i' = i \<and> j' = j)" if "Resident f t = Resident g u1" for g u1
    using that P(2) P(3) [OF a] held_others(2) [OF ok a] by blast
  show "content (fst (V ! i)) j sn' (pm k) d' (Resident f t)" using P(4) [OF a] by (simp add: content_def)
  show "content (fst (V ! i')) j' sn' (pm k) d' b'" if "content (fst (V ! i')) j' sn (pm k) d b'" for i' j' b'
    using that sn(1) by (rule content_frame) (simp_all add: d(1))
  have "\<exists>x. at_block V i j x \<and> in_memory x" using a by (auto simp: in_memory_def)
  then show "rb = count_resident (put V i j (Resident f t))" using count_put [OF i, of "Resident f t"] P(5) by (simp add: in_memory_def)
qed (use d sn in simp_all)

text \<open>A block comes in on a frame that was free: behind the last, or in place of one on the disk.\<close>

lemma kv_enter:
  assumes ok: "kv_ok lost base V rb sn se k d" and i: "i < length V" "j \<le> length (snd (V ! i))" and out: "\<not> (\<exists>f u. at_block V i j (Resident f u))"
    and fr: "frames_alloc (kfr k) = (Some f, fr)"
    and m: "\<And>q. q < BLOCK_BYTES \<Longrightarrow> m (f + q) = pattern (fst (V ! i)) j q" "\<And>x. x < f \<or> f + BLOCK_BYTES \<le> x \<Longrightarrow> m x = pm k x"
  shows "kv_ok lost base (put V i j (Resident f t)) (rb + 1) sn se (k\<lparr>kfr := fr, pm := m\<rparr>) d"
proof (rule kv_ok_put [OF ok i])
  note P = kv_okD [OF ok] and O = held_others_out [OF out]
  have A: "f \<notin> base \<union> kv_held V" "frames_ok fr (insert f (base \<union> kv_held V)) lost" using frames_alloc_ok [OF P(1) fr] by simp_all
  have "kv_held (put V i j (Resident f t)) = insert f (kv_held V)" unfolding held_put [OF i] O by auto
  then show "frames_ok (kfr (k\<lparr>kfr := fr, pm := m\<rparr>)) (base \<union> kv_held (put V i j (Resident f t))) lost" using A(2) by simp
  show "g \<notin> base \<and> (\<forall>i' j' u'. at_block V i' j' (Resident g u') \<longrightarrow> i' = i \<and> j' = j)" if "Resident f t = Resident g u1" for g u1
    using that A(1) by (auto simp: kv_held_def)
  show "content (fst (V ! i)) j sn (pm (k\<lparr>kfr := fr, pm := m\<rparr>)) d (Resident f t)" using m(1) by (simp add: content_def)
  show "content (fst (V ! i')) j' sn (pm (k\<lparr>kfr := fr, pm := m\<rparr>)) d b'" if a: "at_block V i' j' b'" and c: "content (fst (V ! i')) j' sn (pm k) d b'" for i' j' b'
    using c le_refl
  proof (rule content_frame)
    fix g u q assume g: "b' = Resident g u" "q < BLOCK_BYTES"
    then have "g \<in> kv_held V" using a by (auto simp: kv_held_def)
    then have "g \<noteq> f" "g mod PAGE_SIZE = 0" using A(1) held_aligned [OF ok] a g(1) by auto
    moreover have "f mod PAGE_SIZE = 0" using frames_ok_owned(2) [OF A(2)] by simp
    ultimately show "pm (k\<lparr>kfr := fr, pm := m\<rparr>) (g + q) = pm k (g + q)" using m(2) pages_disjoint [OF _ _ _ g(2)] by simp
  qed simp
  have "\<not> (\<exists>x. at_block V i j x \<and> in_memory x)" using out by (auto simp: in_memory_def split: Block.splits)
  then show "rb + 1 = count_resident (put V i j (Resident f t))"
    using count_put [OF i, of "Resident f t"] P(5) by (simp only: if_False in_memory_def [of "Resident f t"] Block.case if_True)
qed (use kv_okD(6,8) [OF ok] in simp_all)


section \<open>Choosing what is evicted\<close>

text \<open>The two loops of the search are one loop over all blocks.\<close>

definition all_blocks :: "Session list \<Rightarrow> (nat \<times> nat \<times> Block) list" where
  "all_blocks ss = concat (map (\<lambda>(si, s). map (Pair si) (enumerate 0 (ses_blocks s))) (enumerate 0 ss))"

lemma find_victim_all: "find_victim now ss = fold (\<lambda>(si, x). worse now si x) (all_blocks ss) None"
proof -
  have "fold (\<lambda>(si, s). fold (worse now si) (enumerate 0 (ses_blocks s))) xs v =
      fold (\<lambda>(si, x). worse now si x) (concat (map (\<lambda>(si, s). map (Pair si) (enumerate 0 (ses_blocks s))) xs)) v" for xs v
    by (induction xs arbitrary: v) (auto simp: fold_map comp_def)
  then show ?thesis by (simp add: find_victim_def all_blocks_def)
qed

lemma in_all_blocks: "(i, j, b) \<in> set (all_blocks ss) \<longleftrightarrow> i < length ss \<and> j < length (ses_blocks (ss ! i)) \<and> ses_blocks (ss ! i) ! j = b"
  by (force simp: all_blocks_def in_set_enumerate_eq)

lemma worse_cases:
  obtains g u where "b = Resident g u" "worse now i (j, b) v = Some (i, j, eviction_score j u now, g)"
      "\<And>a' b' s f. v = Some (a', b', s, f) \<Longrightarrow> s \<le> eviction_score j u now"
    | "worse now i (j, b) v = v" "\<And>g u. b = Resident g u \<Longrightarrow> \<exists>a' b' s f. v = Some (a', b', s, f) \<and> eviction_score j u now \<le> s"
proof (cases b)
  case (Resident g u)
  show thesis
  proof (cases "\<exists>a' b' s f. v = Some (a', b', s, f) \<and> eviction_score j u now \<le> s")
    case True
    then show thesis using Resident by (intro that(2)) (auto simp: worse_def)
  next
    case False
    have lt: "s < eviction_score j u now" if "v = Some (a', b', s, f)" for a' b' s f using False that by (simp add: not_le)
    have "worse now i (j, b) v = Some (i, j, eviction_score j u now, g)" by (cases v) (auto simp: worse_def Resident dest: lt)
    then show thesis using Resident lt by (intro that(1) [of g u]) (auto intro: less_imp_le)
  qed
qed (use that(2) in \<open>simp_all add: worse_def\<close>)

lemma worst_of:
  "fold (\<lambda>(si, x). worse now si x) xs v = r \<Longrightarrow>
   (\<forall>i j g u. (i, j, Resident g u) \<in> set xs \<longrightarrow> (\<exists>a b s f. r = Some (a, b, s, f) \<and> eviction_score j u now \<le> s))
   \<and> (\<forall>a b s f. v = Some (a, b, s, f) \<longrightarrow> (\<exists>a' b' s' f'. r = Some (a', b', s', f') \<and> s \<le> s'))
   \<and> (r = v \<or> (\<exists>a b f u. r = Some (a, b, eviction_score b u now, f) \<and> (a, b, Resident f u) \<in> set xs))"
proof (induction xs arbitrary: v)
  case (Cons x xs)
  obtain i j b where x: "x = (i, j, b)" by (cases x)
  have I: "fold (\<lambda>(si, x). worse now si x) xs (worse now i (j, b) v) = r" using Cons.prems x by simp
  note H = Cons.IH [OF I]
  show ?case
  proof (cases rule: worse_cases [of b now i j v])
    case (1 g u)
    from H obtain a' b' s' f' where r: "r = Some (a', b', s', f')" "eviction_score j u now \<le> s'" unfolding 1(2) by blast
    have "\<forall>a b s f. v = Some (a, b, s, f) \<longrightarrow> s \<le> s'" using 1(3) r(2) order_trans by blast
    moreover have "\<exists>a b f u. r = Some (a, b, eviction_score b u now, f) \<and> (a, b, Resident f u) \<in> set (x # xs)"
      using H 1(1,2) x by auto
    ultimately show ?thesis using H r x 1(1) by auto
  next
    case 2
    show ?thesis using H x 2(2) unfolding 2(1) by (fastforce intro: order_trans)
  qed
qed simp


lemma at_view: "at_block (kv_view c) i j b \<longleftrightarrow> (i, j, b) \<in> set (all_blocks (kv_sessions c))"
  by (auto simp: at_block_def kv_view_def in_all_blocks)

lemma kv_view_update:
  assumes "i < length (kv_sessions c)" and "j < length (ses_blocks (kv_sessions c ! i))" and "kv_sessions c' = (kv_sessions c)[i := s]"
    and "ses_id s = ses_id (kv_sessions c ! i)" and "ses_blocks s = (ses_blocks (kv_sessions c ! i))[j := b]"
  shows "kv_view c' = put (kv_view c) i j b"
  using assms upd_conv_take_nth_drop [OF assms(2), of b] by (simp add: kv_view_def put_def map_update)

lemma put_put: "i < length V \<Longrightarrow> j < length (snd (V ! i)) \<Longrightarrow> put (put V i j b) i j b' = put V i j b'"
  by (simp add: put_def min_def)

lemma put_length [simp]: "length (put V i j b) = length V"
  by (simp add: put_def)

lemma choose_victim_Some:
  assumes "choose_victim want now c = Some ((si, bi, f, sector), c')"
  obtains u where "at_block (kv_view c) si bi (Resident f u)"
    "\<And>i j g v. at_block (kv_view c) i j (Resident g v) \<Longrightarrow> eviction_score j v now \<le> eviction_score bi u now"
    "sector = spill_next c" "sector + SECTORS_PER_BLOCK \<le> spill_end c" "\<not> resident_blocks c + want \<le> BUDGET_BLOCKS"
    "c' = set_block si bi (Spilling f sector) (c\<lparr>spill_next := sector + SECTORS_PER_BLOCK\<rparr>)"
proof -
  obtain score where v: "find_victim now (kv_sessions c) = Some (si, bi, score, f)"
      and r: "sector = spill_next c" "sector + SECTORS_PER_BLOCK \<le> spill_end c" "\<not> resident_blocks c + want \<le> BUDGET_BLOCKS"
      "c' = set_block si bi (Spilling f sector) (c\<lparr>spill_next := sector + SECTORS_PER_BLOCK\<rparr>)"
    using assms by (auto simp: choose_victim_def Let_def split: if_splits option.splits)
  note W = worst_of [OF v [unfolded find_victim_all]]
  from W obtain u where u: "score = eviction_score bi u now" "at_block (kv_view c) si bi (Resident f u)" by (auto simp: at_view)
  show thesis using u W r by (intro that [of u]) (auto simp: at_view)
qed

definition kv_inv :: "nat set \<Rightarrow> nat set \<Rightarrow> kv_world \<Rightarrow> bool" where
  "kv_inv lost base w = (let c = kvc w in kv_ok lost base (kv_view c) (resident_blocks c) (spill_next c) (spill_end c) (kvm w) (kvd w))"

text \<open>What making room leaves alone: the sessions, what is on the disk already, and memory.\<close>

definition roomier :: "kv_world \<Rightarrow> kv_world \<Rightarrow> bool" where
  "roomier w w' \<longleftrightarrow> map fst (kv_view (kvc w')) = map fst (kv_view (kvc w)) \<and> map (length \<circ> snd) (kv_view (kvc w')) = map (length \<circ> snd) (kv_view (kvc w))
     \<and> (\<forall>i j s. at_block (kv_view (kvc w)) i j (Spilled s) \<longrightarrow> at_block (kv_view (kvc w')) i j (Spilled s))
     \<and> bad (kvd w') = bad (kvd w) \<and> free_count (kfr (kvm w)) \<le> free_count (kfr (kvm w')) \<and> kv_next_id (kvc w') = kv_next_id (kvc w)
     \<and> resident_blocks (kvc w') \<le> resident_blocks (kvc w)"

lemma roomier_refl: "roomier w w"
  by (simp add: roomier_def)

lemma roomier_trans: "roomier w w1 \<Longrightarrow> roomier w1 w2 \<Longrightarrow> roomier w w2"
  by (auto simp: roomier_def)

lemma roomier_lens:
  assumes "roomier w w'" and "i < length (kv_view (kvc w'))"
  shows "length (snd (kv_view (kvc w') ! i)) = length (snd (kv_view (kvc w) ! i))"
proof -
  have "map (length \<circ> snd) (kv_view (kvc w')) ! i = map (length \<circ> snd) (kv_view (kvc w)) ! i" and "length (kv_view (kvc w')) = length (kv_view (kvc w))"
    using assms(1) by (auto simp: roomier_def dest: map_eq_imp_length_eq)
  then show ?thesis using assms(2) by simp
qed

lemma roomier_put:
  assumes "at_block (kv_view (kvc w)) i j (Resident f u)" and "kv_view (kvc w') = put (kv_view (kvc w)) i j b" and "kv_next_id (kvc w') = kv_next_id (kvc w)"
    and "bad (kvd w') = bad (kvd w)" and "free_count (kfr (kvm w)) \<le> free_count (kfr (kvm w'))" and "resident_blocks (kvc w') \<le> resident_blocks (kvc w)"
  shows "roomier w w'"
proof -
  let ?V = "kv_view (kvc w)"
  have i: "i < length ?V" "j < length (snd (?V ! i))" "snd (?V ! i) ! j = Resident f u" using assms(1) by (simp_all add: at_block_def)
  have "map fst (put ?V i j b) = map fst ?V" using i(1) by (simp add: put_def map_update list_update_same_conv [THEN iffD2])
  moreover have "map (length \<circ> snd) (put ?V i j b) = map (length \<circ> snd) ?V"
    using i(1,2) by (simp add: put_def map_update list_update_same_conv [THEN iffD2])
  moreover have "at_block (put ?V i j b) i' j' (Spilled s)" if "at_block ?V i' j' (Spilled s)" for i' j' s
    using that i by (simp add: put_at) (auto simp: at_block_def)
  ultimately show ?thesis using assms by (simp add: roomier_def)
qed

lemma make_room_ok: "kv_inv lost base w \<Longrightarrow> kv_inv lost base (make_room clk want w) \<and> roomier w (make_room clk want w)"
proof (induction clk want w rule: make_room.induct)
  case (1 clk want w)
  define now where "now = clk (reads w)"
  define w0 where "w0 = w\<lparr>reads := reads w + 1\<rparr>"
  have inv: "kv_inv lost base w0" and rm: "roomier w w0" using 1(2) by (simp_all add: w0_def kv_inv_def roomier_def)
  show ?case
  proof (cases "choose_victim want now (kvc w0)")
    case None
    then have "make_room clk want w = w0" by (simp add: make_room.simps [of clk want w] now_def w0_def)
    then show ?thesis using inv rm by simp
  next
    case (Some x)
    obtain si bi f sector c where x: "x = ((si, bi, f, sector), c)" by (metis prod_cases3 surj_pair)
    note C = Some [unfolded x]
    obtain u where u: "at_block (kv_view (kvc w0)) si bi (Resident f u)" "sector = spill_next (kvc w0)" "sector + SECTORS_PER_BLOCK \<le> spill_end (kvc w0)"
        "c = set_block si bi (Spilling f sector) (kvc w0\<lparr>spill_next := sector + SECTORS_PER_BLOCK\<rparr>)"
      by (rule choose_victim_Some [OF C]) blast
    have b: "si < length (kv_sessions (kvc w0))" "bi < length (ses_blocks (kv_sessions (kvc w0) ! si))" using u(1) by (auto simp: at_block_def kv_view_def)
    have view: "kv_view (evicted si bi sector c) = put (kv_view (kvc w0)) si bi (Spilled sector)"
        "kv_view (set_block si bi (Resident f now) c) = put (kv_view (kvc w0)) si bi (Resident f now)"
      using b by (auto simp: u(4) set_block_def evicted_def Let_def intro!: kv_view_update)
    have flds: "spill_next c = sector + SECTORS_PER_BLOCK" "spill_end c = spill_end (kvc w0)" "resident_blocks c = resident_blocks (kvc w0)" "kv_next_id c = kv_next_id (kvc w0)"
      by (simp_all add: u(4) set_block_def Let_def)
    obtain ok d where w: "write_out (pm (kvm w0)) f sector [0..<SECTORS_PER_BLOCK] (kvd w0) = (ok, d)" by fastforce
    note F = write_out_frame [OF w]
    note K = inv [unfolded kv_inv_def Let_def]
    show ?thesis
    proof (cases ok)
      case True
      define w1 where "w1 = w0\<lparr>kvc := evicted si bi sector c, kvm := (kvm w0)\<lparr>kfr := frames_free f (kfr (kvm w0))\<rparr>, kvd := d\<rparr>"
      have mr: "make_room clk want w = make_room clk want w1"
        using C w True by (simp add: make_room.simps [of clk want w] now_def w0_def w1_def)
      have rf: "resident_blocks (evicted si bi sector c) = resident_blocks (kvc w0) - 1" "kv_next_id (evicted si bi sector c) = kv_next_id (kvc w0)"
        by (simp_all add: evicted_def set_block_def Let_def u(4))
      have "kv_ok lost base (put (kv_view (kvc w0)) si bi (Spilled sector)) (resident_blocks (kvc w0) - 1) (sector + SECTORS_PER_BLOCK) (spill_end (kvc w0))
          ((kvm w0)\<lparr>kfr := frames_free f (kfr (kvm w0))\<rparr>) d"
        using kv_evict [OF K u(1)] w True u(2,3) by simp
      then have i1: "kv_inv lost base w1" by (simp add: kv_inv_def Let_def w1_def view flds rf)
      have "roomier w0 w1"
        by (rule roomier_put [OF u(1)]) (use F rf view in \<open>simp_all add: w1_def frames_free_def free_count_def Let_def\<close>)
      moreover have "kv_inv lost base (make_room clk want w1) \<and> roomier w1 (make_room clk want w1)"
        using 1(1) [OF now_def w0_def] C w True i1 by (simp add: w1_def)
      ultimately show ?thesis using rm roomier_trans mr by metis
    next
      case False
      define w1 where "w1 = w0\<lparr>kvc := set_block si bi (Resident f now) c, kvd := d\<rparr>"
      have mr: "make_room clk want w = w1"
        using C w False by (simp add: make_room.simps [of clk want w] now_def w0_def w1_def)
      have fl: "spill_next (set_block si bi (Resident f now) c) = sector + SECTORS_PER_BLOCK" "spill_end (set_block si bi (Resident f now) c) = spill_end (kvc w0)"
          "resident_blocks (set_block si bi (Resident f now) c) = resident_blocks (kvc w0)" "kv_next_id (set_block si bi (Resident f now) c) = kv_next_id (kvc w0)"
        by (simp_all add: set_block_def Let_def flds)
      have top: "sector + SECTORS_PER_BLOCK \<le> 2 ^ 64" using u(3) kv_okD(7) [OF K] by simp
      have "kv_ok lost base (put (kv_view (kvc w0)) si bi (Resident f now)) (resident_blocks (kvc w0)) (sector + SECTORS_PER_BLOCK) (spill_end (kvc w0)) (kvm w0) d"
        using kv_touch [OF K u(1), of d "sector + SECTORS_PER_BLOCK" now] below_spill [OF w top] F kv_okD(8) [OF K] u(2,3) by simp
      then have "kv_inv lost base w1" by (simp add: kv_inv_def Let_def w1_def view fl)
      moreover have "roomier w0 w1" by (rule roomier_put [OF u(1)]) (use F fl view in \<open>simp_all add: w1_def\<close>)
      ultimately show ?thesis using rm roomier_trans mr by metis
    qed
  qed
qed


section \<open>Opening, appending and reading\<close>

lemma at_held: "at_block V i j (Resident f u) \<Longrightarrow> f \<in> kv_held V"
  by (auto simp: kv_held_def)

lemma kv_ok_mem:
  assumes ok: "kv_ok lost base V rb sn se k d" and "frames_ok fr (base \<union> kv_held V) lost"
    and m: "\<And>g q. g \<in> kv_held V \<Longrightarrow> q < BLOCK_BYTES \<Longrightarrow> m (g + q) = pm k (g + q)"
  shows "kv_ok lost base V rb sn se (k\<lparr>kfr := fr, pm := m\<rparr>) d"
proof -
  have "content (fst (V ! i)) j sn m d b" if "at_block V i j b" for i j b
    using kv_okD(4) [OF ok that] le_refl by (rule content_frame) (use at_held [of V i j] that m in auto)
  then show ?thesis using assms(2) ok unfolding kv_ok_def by simp
qed

text \<open>A frame that was free and is free again.\<close>

lemma kv_ok_returned:
  assumes ok: "kv_ok lost base V rb sn se k d" and a: "frames_alloc (kfr k) = (Some f, fr)" and m: "\<And>x. x < f \<or> f + BLOCK_BYTES \<le> x \<Longrightarrow> m x = pm k x"
  shows "kv_ok lost base V rb sn se (k\<lparr>kfr := frames_free f fr, pm := m\<rparr>) d"
proof (rule kv_ok_mem [OF ok])
  have A: "f \<notin> base \<union> kv_held V" "frames_ok fr (insert f (base \<union> kv_held V)) lost" using frames_alloc_ok [OF kv_okD(1) [OF ok] a] by simp_all
  then show "frames_ok (frames_free f fr) (base \<union> kv_held V) lost" using frames_free_ok [OF A(2), of f] by simp
  fix g q assume g: "g \<in> kv_held V" "q < BLOCK_BYTES"
  then have "g mod PAGE_SIZE = 0" "f mod PAGE_SIZE = 0" "g \<noteq> f" using frames_ok_owned(2) [OF A(2)] A(1) by auto
  then show "m (g + q) = pm k (g + q)" using m [of "g + q"] pages_disjoint [of g f q] g(2) by simp
qed

lemma session_at_view: "session_at ident c = position (\<lambda>p. fst p = ident) (kv_view c)"
proof -
  have "position (\<lambda>s. ses_id s = ident) ss = position (\<lambda>p. fst p = ident) (map (\<lambda>s. (ses_id s, ses_blocks s)) ss)" for ss
    by (induction ss) auto
  then show ?thesis by (simp add: session_at_def kv_view_def)
qed

lemma session_at_ids: "map fst (kv_view c') = map fst (kv_view c) \<Longrightarrow> session_at ident c' = session_at ident c"
proof -
  have "position (\<lambda>p. fst p = ident) V = position (\<lambda>x. x = ident) (map fst V)" for V :: view by (induction V) auto
  then show "map fst (kv_view c') = map fst (kv_view c) \<Longrightarrow> session_at ident c' = session_at ident c" by (simp add: session_at_view)
qed

lemma session_at_Some:
  assumes "session_at ident c = Some si"
  shows "si < length (kv_sessions c)" "ses_id (kv_sessions c ! si) = ident" "si < length (kv_view c)" "kv_view c ! si = (ident, ses_blocks (kv_sessions c ! si))"
  using position_Some [OF assms [unfolded session_at_def]] by (simp_all add: kv_view_def)

lemma kv_open_ok: "kv_inv lost base w \<Longrightarrow> kv_inv lost base (snd (kv_open clk owner model w))"
proof -
  have at: "at_block (V @ [(n, [])]) i j b \<longleftrightarrow> at_block V i j b" for V n i j b by (auto simp: at_block_def nth_append)
  have h: "kv_held (V @ [(n, [])]) = kv_held V" "count_resident (V @ [(n, [])]) = count_resident V" for V n by (simp_all add: kv_held_def at count_resident_def)
  have f: "at_block V i j b \<Longrightarrow> fst ((V @ [(n, [])]) ! i) = fst (V ! i)" for V n i j b by (simp add: at_block_def nth_append)
  have "kv_ok lost base V rb sn se k d \<Longrightarrow> kv_ok lost base (V @ [(n, [])]) rb sn se k d" for V n rb sn se k d
    unfolding kv_ok_def h at by (auto simp: f)
  then show "kv_inv lost base w \<Longrightarrow> kv_inv lost base (snd (kv_open clk owner model w))"
    by (simp add: kv_inv_def kv_open_def Let_def kv_view_def)
qed

lemma kv_view_push:
  assumes "i < length (kv_sessions c)" and "kv_sessions c' = (kv_sessions c)[i := s]"
    and "ses_id s = ses_id (kv_sessions c ! i)" and "ses_blocks s = ses_blocks (kv_sessions c ! i) @ [b]"
  shows "kv_view c' = put (kv_view c) i (length (ses_blocks (kv_sessions c ! i))) b"
  using assms by (simp add: kv_view_def put_def map_update)

text \<open>A session is longer by \<open>n\<close> blocks.\<close>

definition session_grown :: "nat \<Rightarrow> nat \<Rightarrow> kv_world \<Rightarrow> kv_world \<Rightarrow> bool" where
  "session_grown ident n w w' \<longleftrightarrow> (\<exists>si. session_at ident (kvc w) = Some si \<and> session_at ident (kvc w') = Some si
     \<and> length (ses_blocks (kv_sessions (kvc w') ! si)) = length (ses_blocks (kv_sessions (kvc w) ! si)) + n)"

lemma append_one_ok:
  assumes inv: "kv_inv lost base w" and a: "append_one clk ident w = (r, w')"
  shows "kv_inv lost base w'" and "r = Inr () \<Longrightarrow> resident_blocks (kvc w') \<le> BUDGET_BLOCKS"
    and "r = Inr () \<Longrightarrow> session_grown ident 1 w w'"
proof -
  define w1 where "w1 = make_room clk 1 w"
  note a = a [unfolded append_one_def Let_def, folded w1_def]
  have I: "kv_inv lost base w1" "roomier w w1" using make_room_ok [OF inv] by (simp_all add: w1_def)
  note K = I(1) [unfolded kv_inv_def Let_def]
  have ids: "session_at ident (kvc w1) = session_at ident (kvc w)" using I(2) by (intro session_at_ids) (simp add: roomier_def)
  have lens: "length (snd (kv_view (kvc w1) ! i)) = length (snd (kv_view (kvc w) ! i))" if "i < length (kv_view (kvc w1))" for i
    using roomier_lens [OF I(2)] that by simp
  have "kv_inv lost base w' \<and> (r = Inr () \<longrightarrow> resident_blocks (kvc w') \<le> BUDGET_BLOCKS
      \<and> session_grown ident 1 w w')"
  proof (cases "resident_blocks (kvc w1) \<ge> BUDGET_BLOCKS")
    case True
    then show ?thesis using a I(1) by auto
  next
    case False
    obtain fo fr where al: "frames_alloc (kfr (kvm w1)) = (fo, fr)" by fastforce
    show ?thesis
    proof (cases fo)
      case None
      then have "frames_ok fr (base \<union> kv_held (kv_view (kvc w1))) lost" using frames_alloc_ok [OF kv_okD(1) [OF K] al] by simp
      from kv_ok_mem [OF K this refl] show ?thesis using a False al None by (auto simp: kv_inv_def)
    next
      case (Some f)
      note al = al [unfolded Some]
      show ?thesis
      proof (cases "session_at ident (kvc w1)")
        case None
        from kv_ok_returned [OF K al refl] show ?thesis using a False al None by (auto simp: kv_inv_def)
      next
        case si: (Some si)
        note S = session_at_Some [OF si]
        define s where "s = kv_sessions (kvc w1) ! si"
        define now where "now = clk (reads w1)"
        define c' where "c' = kvc w1\<lparr>kv_sessions := (kv_sessions (kvc w1))[si := s\<lparr>ses_blocks := ses_blocks s @ [Resident f now], last_tick := now\<rparr>],
            resident_blocks := resident_blocks (kvc w1) + 1\<rparr>"
        have w': "r = Inr ()" "w' = w1\<lparr>reads := reads w1 + 1, kvc := c', kvm := (kvm w1)\<lparr>kfr := fr, pm := kv_fill f (ses_id s) (length (ses_blocks s)) (pm (kvm w1))\<rparr>\<rparr>"
          using a False al si by (auto simp: s_def now_def c'_def)
        have V: "kv_view c' = put (kv_view (kvc w1)) si (length (ses_blocks s)) (Resident f now)"
          using kv_view_push [OF S(1), of c' "s\<lparr>ses_blocks := ses_blocks s @ [Resident f now], last_tick := now\<rparr>" "Resident f now"] by (simp add: c'_def s_def)
        have il: "si < length (kv_view (kvc w1))" "length (ses_blocks s) \<le> length (snd (kv_view (kvc w1) ! si))" using S by (simp_all add: s_def)
        have "kv_ok lost base (kv_view c') (resident_blocks (kvc w1) + 1) (spill_next (kvc w1)) (spill_end (kvc w1))
            ((kvm w1)\<lparr>kfr := fr, pm := kv_fill f (ses_id s) (length (ses_blocks s)) (pm (kvm w1))\<rparr>) (kvd w1)"
          unfolding V by (rule kv_enter [OF K il _ al]) (use S in \<open>auto simp: s_def at_block_def kv_fill_def mwrite_def\<close>)
        then have "kv_inv lost base w'" by (simp add: w' kv_inv_def Let_def c'_def)
        moreover have "session_at ident c' = session_at ident (kvc w1)"
          by (rule session_at_ids) (simp add: V put_def map_update list_update_same_conv [THEN iffD2] il(1))
        moreover have "length (ses_blocks (kv_sessions c' ! si)) = length (ses_blocks s) + 1" using S(1) by (simp add: c'_def)
        moreover have "length (ses_blocks (kv_sessions (kvc w) ! si)) = length (ses_blocks s)"
          using lens [OF il(1)] S(4) session_at_Some(4) [of ident "kvc w" si] ids si by (simp add: s_def)
        moreover have "resident_blocks c' \<le> BUDGET_BLOCKS" using False by (simp add: c'_def)
        moreover have "session_at ident (kvc w) = Some si" using ids si by simp
        ultimately show ?thesis using si by (simp add: w' session_grown_def)
      qed
    qed
  qed
  then show "kv_inv lost base w'" and "r = Inr () \<Longrightarrow> resident_blocks (kvc w') \<le> BUDGET_BLOCKS"
    and "r = Inr () \<Longrightarrow> session_grown ident 1 w w'" by blast+
qed


lemma kv_append_ok:
  assumes "kv_inv lost base w" and "kv_append clk ident n added w = (r, w')"
  shows "kv_inv lost base w' \<and> (\<forall>m. r = Inr m \<longrightarrow> m = added + n \<and> (n > 0 \<longrightarrow> resident_blocks (kvc w') \<le> BUDGET_BLOCKS \<and> session_grown ident n w w'))"
  using assms
proof (induction n arbitrary: added w)
  case (Suc n)
  obtain q w1 where a: "append_one clk ident w = (q, w1)" by fastforce
  note A = append_one_ok [OF Suc.prems(1) a]
  show ?case
  proof (cases q)
    case (Inl e)
    then show ?thesis using Suc.prems a A by auto
  next
    case (Inr u)
    then have k: "kv_append clk ident n (added + 1) w1 = (r, w')" using Suc.prems(2) a by simp
    note I = Suc.IH [OF A(1) k]
    show ?thesis
    proof (cases n)
      case 0
      then show ?thesis using k I A Inr by auto
    next
      case (Suc n')
      then show ?thesis using I A(3) Inr by (auto simp: session_grown_def)
    qed
  qed
qed auto

lemma touch_view:
  assumes "session_at ident c = Some si" and "idx < length (ses_blocks (kv_sessions c ! si))" and "\<And>s. ses_id (f s) = ses_id s \<and> ses_blocks (f s) = ses_blocks s"
  shows "kv_view (touch_block ident idx b f c) = put (kv_view c) si idx b"
  using kv_view_update [of si c idx "touch_block ident idx b f c" "f ((kv_sessions c ! si)\<lparr>ses_blocks := (ses_blocks (kv_sessions c ! si))[idx := b]\<rparr>)" b]
    assms session_at_Some [OF assms(1)] by (simp add: touch_block_def Let_def)

lemma touch_fields [simp]:
  "resident_blocks (touch_block ident idx b f c) = resident_blocks c" "spill_next (touch_block ident idx b f c) = spill_next c"
  "spill_end (touch_block ident idx b f c) = spill_end c"
  by (simp_all add: touch_block_def Let_def split: option.splits)

text \<open>What a read may answer.\<close>

definition read_answer :: "nat \<Rightarrow> nat \<Rightarrow> nat \<Rightarrow> Block \<Rightarrow> kv_world \<Rightarrow> (bool \<times> bytes) result \<Rightarrow> bool" where
  "read_answer ident idx n b w r = (case r of
     Inr (hit, bs) \<Rightarrow> hit = in_memory b \<and> bs = map (pattern ident idx) [0..<min n BLOCK_BYTES]
   | Inl e \<Rightarrow> \<not> in_memory b \<and> (free_count (kfr (kvm w)) = 0 \<or> (\<exists>x. bad (kvd w) x \<noteq> None)))"

lemma read_answer_cache [simp]: "read_answer ident idx n b (w\<lparr>reads := t, kvc := c\<rparr>) r = read_answer ident idx n b w r"
  by (auto simp: read_answer_def split: sum.splits)

lemma mread_pattern:
  assumes "\<And>q. q < BLOCK_BYTES \<Longrightarrow> m (f + q) = pattern ident idx q"
  shows "mread m f (min n BLOCK_BYTES) = map (pattern ident idx) [0..<min n BLOCK_BYTES]"
  using assms by (intro nth_equalityI) (simp_all add: nth_mread)

lemma restore_ok:
  assumes inv: "kv_inv lost base w" and si: "session_at ident (kvc w) = Some si" and at: "at_block (kv_view (kvc w)) si idx (Spilled sector)"
    and r: "restore clk now ident idx sector n w = (r, w')"
  shows "kv_inv lost base w' \<and> read_answer ident idx n (Spilled sector) w r"
proof -
  define w1 where "w1 = make_room clk 1 w"
  note r = r [unfolded restore_def Let_def, folded w1_def]
  have I: "kv_inv lost base w1" "roomier w w1" using make_room_ok [OF inv] by (simp_all add: w1_def)
  note K = I(1) [unfolded kv_inv_def Let_def]
  have si1: "session_at ident (kvc w1) = Some si" using I(2) si session_at_ids [of "kvc w1" "kvc w"] by (simp add: roomier_def)
  note S = session_at_Some [OF si1]
  have at1: "at_block (kv_view (kvc w1)) si idx (Spilled sector)" using I(2) at by (simp add: roomier_def)
  have fc: "free_count (kfr (kvm w)) \<le> free_count (kfr (kvm w1))" and bad: "bad (kvd w1) = bad (kvd w)" using I(2) by (simp_all add: roomier_def)
  obtain fo fr where al: "frames_alloc (kfr (kvm w1)) = (fo, fr)" by fastforce
  note A = frames_alloc_ok [OF kv_okD(1) [OF K] al]
  show ?thesis
  proof (cases fo)
    case None
    then have "frames_ok fr (base \<union> kv_held (kv_view (kvc w1))) lost" "free_count (kfr (kvm w1)) = 0" using A by simp_all
    with kv_ok_mem [OF K this(1) refl] show ?thesis using r al None fc by (auto simp: kv_inv_def read_answer_def in_memory_def)
  next
    case (Some f)
    note al = al [unfolded Some]
    obtain ok m where b: "read_back f sector [0..<SECTORS_PER_BLOCK] (kvd w1) (pm (kvm w1)) = (ok, m)" by fastforce
    have out: "m x = pm (kvm w1) x" if "x < f \<or> f + BLOCK_BYTES \<le> x" for x using read_back_frame [OF b _ _ that] kv_okD(8) [OF K] by auto
    show ?thesis
    proof (cases ok)
      case False
      have "\<exists>x. bad (kvd w) x \<noteq> None" using read_back_fails b False bad by metis
      with kv_ok_returned [OF K al out] show ?thesis using r al b False by (auto simp: kv_inv_def Let_def read_answer_def in_memory_def)
    next
      case True
      have pat: "m (f + q) = pattern (fst (kv_view (kvc w1) ! si)) idx q" if q: "q < BLOCK_BYTES" for q
      proof -
        note B = byte_in_sector [OF q]
        have "m (f + (q div SECTOR_SIZE * SECTOR_SIZE + q mod SECTOR_SIZE)) = store (kvd w1) (of_nat (sector + q div SECTOR_SIZE)) ! (q mod SECTOR_SIZE)"
          using read_back_done [OF b [unfolded eqTrueI [OF True]] distinct_upt _ B(2), of "q div SECTOR_SIZE"] kv_okD(8) [OF K] B(1) by (simp del: of_nat_add div_mult_mod_eq)
        also have "\<dots> = pattern (fst (kv_view (kvc w1) ! si)) idx q" using kv_okD(4) [OF K at1] q by (simp add: content_def del: of_nat_add)
        finally show ?thesis using B(3) by simp
      qed
      define c where "c = touch_block ident idx (Resident f now) (\<lambda>s. s\<lparr>ses_restores := ses_restores s + 1\<rparr>) (kvc w1)"
      have ix: "idx < length (ses_blocks (kv_sessions (kvc w1) ! si))" using at1 S(4) by (simp add: at_block_def)
      have V: "kv_view c = put (kv_view (kvc w1)) si idx (Resident f now)" unfolding c_def by (rule touch_view [OF si1 ix]) simp
      have w': "w' = w1\<lparr>kvc := c\<lparr>resident_blocks := resident_blocks c + 1, RESTORES := RESTORES c + 1\<rparr>, kvm := (kvm w1)\<lparr>kfr := fr, pm := m\<rparr>\<rparr>"
          "r = Inr (False, mread m f (min n BLOCK_BYTES))"
        using r al b True by (simp_all add: c_def)
      have "kv_ok lost base (put (kv_view (kvc w1)) si idx (Resident f now)) (resident_blocks (kvc w1) + 1) (spill_next (kvc w1)) (spill_end (kvc w1)) ((kvm w1)\<lparr>kfr := fr, pm := m\<rparr>) (kvd w1)"
        by (rule kv_enter [OF K _ _ _ al pat out]) (use S ix at1 in \<open>auto simp: at_block_def\<close>)
      then have "kv_inv lost base w'" unfolding V [symmetric] by (simp add: w' kv_inv_def Let_def kv_view_def) (simp add: c_def)
      then show ?thesis using mread_pattern [of m f ident idx n] pat S(4) by (simp add: w' read_answer_def in_memory_def)
    qed
  qed
qed

lemma kv_read_ok:
  assumes inv: "kv_inv lost base w" and r: "kv_read clk ident idx n w = (r, w')"
  shows "kv_inv lost base w' \<and> (case session_at ident (kvc w) of
      None \<Rightarrow> r = Some (Inl ''no such session'')
    | Some si \<Rightarrow> let bs = ses_blocks (kv_sessions (kvc w) ! si) in
        if idx < length bs then \<exists>q. r = Some q \<and> read_answer ident idx n (bs ! idx) w q else r = Some (Inl ''no such block''))"
proof (cases "session_at ident (kvc w)")
  case None
  then show ?thesis using inv r by (auto simp: kv_read_def read_state_def kv_inv_def)
next
  case (Some si)
  note S = session_at_Some [OF Some]
  define s where "s = kv_sessions (kvc w) ! si"
  define c where "c = kvc w\<lparr>kv_sessions := (kv_sessions (kvc w))[si := s\<lparr>last_tick := clk (reads w)\<rparr>]\<rparr>"
  have V: "kv_view c = kv_view (kvc w)" by (simp add: kv_view_def c_def s_def map_update list_update_same_conv [THEN iffD2] S(1))
  have sc: "session_at ident c = Some si" using Some by (simp add: session_at_view V)
  have c: "kv_sessions c ! si = s\<lparr>last_tick := clk (reads w)\<rparr>" using S(1) by (simp add: c_def)
  have flds: "resident_blocks c = resident_blocks (kvc w)" "spill_next c = spill_next (kvc w)" "spill_end c = spill_end (kvc w)" by (simp_all add: c_def)
  have ic: "kv_inv lost base (w\<lparr>reads := t, kvc := c\<rparr>)" for t using inv by (simp add: kv_inv_def Let_def V flds)
  show ?thesis
  proof (cases "idx < length (ses_blocks s)")
    case False
    then show ?thesis using r Some ic by (auto simp: kv_read_def read_state_def Let_def s_def [symmetric] c_def [symmetric])
  next
    case True
    then have rs: "read_state (clk (reads w)) ident idx (kvc w) = (Inr (ses_blocks s ! idx), c)" using Some by (simp add: read_state_def Let_def s_def c_def)
    note r = r [unfolded kv_read_def rs Let_def]
    have at: "at_block (kv_view c) si idx (ses_blocks s ! idx)" using True S by (simp add: V at_block_def s_def)
    have K: "kv_ok lost base (kv_view c) (resident_blocks c) (spill_next c) (spill_end c) (kvm w) (kvd w)" using inv by (simp add: kv_inv_def Let_def V flds)
    have cont: "content ident idx (spill_next c) (pm (kvm w)) (kvd w) (ses_blocks s ! idx)" using kv_okD(4) [OF K at] S(4) by (simp add: V)
    show ?thesis
    proof (cases "ses_blocks s ! idx")
      case (Resident f u)
      define now where "now = clk (reads w + 1)"
      have V': "kv_view (touch_block ident idx (Resident f now) (\<lambda>s. s\<lparr>ses_hits := ses_hits s + 1\<rparr>) c) = put (kv_view c) si idx (Resident f now)"
        by (rule touch_view [OF sc]) (simp_all add: c True)
      have "w' = w\<lparr>reads := reads w + 2, kvc := touch_block ident idx (Resident f now) (\<lambda>s. s\<lparr>ses_hits := ses_hits s + 1\<rparr>) c\<rparr>"
          and rr: "r = Some (Inr (True, mread (pm (kvm w)) f (min n BLOCK_BYTES)))"
        using r Resident by (auto simp: now_def)
      then have "kv_inv lost base w'" using kv_touch [OF K at [unfolded Resident], of "kvd w" "spill_next c" now] kv_okD(6,8) [OF K] V' by (simp add: kv_inv_def Let_def)
      then show ?thesis using rr Some True Resident cont mread_pattern [of "pm (kvm w)" f ident idx n] by (simp add: s_def read_answer_def in_memory_def content_def)
    next
      case (Spilling f x)
      then show ?thesis using cont by (simp add: content_def)
    next
      case (Spilled x)
      define w1 where "w1 = w\<lparr>reads := reads w + 2, kvc := c\<rparr>"
      obtain q where q: "restore clk (clk (reads w + 1)) ident idx x n w1 = (q, w')" "r = Some q"
        using r Spilled by (cases "restore clk (clk (reads w + 1)) ident idx x n w1") (auto simp: w1_def)
      have "kv_inv lost base w1" by (simp add: w1_def ic)
      from restore_ok [OF this _ _ q(1), of si] sc at Spilled q(2) show ?thesis using Some True
        by (simp add: w1_def s_def [symmetric])
    qed
  qed
qed


section \<open>Histories\<close>

text \<open>
  The cache is pointed at its region and used in any order, with any clock. In between the rest of the
  system takes and gives back frames, and writes to memory and disk, but not where the cache has its
  blocks.
\<close>

type_synonym kv_history = "kv_world \<times> nat set \<times> nat set"

inductive kv_start :: "kv_history \<Rightarrow> bool" where
  pointed: "\<lbrakk>kvc w = kv_init start sectors CACHE0; start + sectors \<le> 2 ^ 64; frames_ok (kfr (kvm w)) base lost; \<forall>s. length (store (kvd w) s) = SECTOR_SIZE\<rbrakk>
    \<Longrightarrow> kv_start (w, base, lost)"

inductive kv_step :: "kv_history \<Rightarrow> kv_history \<Rightarrow> bool" where
  opens: "kv_step (w, base, lost) (snd (kv_open clk owner model w), base, lost)"
| appends: "kv_append clk ident n 0 w = (r, w') \<Longrightarrow> kv_step (w, base, lost) (w', base, lost)"
| reads: "kv_read clk ident idx n w = (r, w') \<Longrightarrow> kv_step (w, base, lost) (w', base, lost)"
| others: "\<lbrakk>kvc w' = kvc w; frames_ok (kfr (kvm w')) (base' \<union> kv_held (kv_view (kvc w))) lost'; base' \<inter> kv_held (kv_view (kvc w)) = {};
    \<forall>f\<in>kv_held (kv_view (kvc w)). \<forall>q<BLOCK_BYTES. pm (kvm w') (f + q) = pm (kvm w) (f + q);
    \<forall>i j s. at_block (kv_view (kvc w)) i j (Spilled s) \<longrightarrow> (\<forall>x<SECTORS_PER_BLOCK. store (kvd w') (of_nat (s + x)) = store (kvd w) (of_nat (s + x)));
    \<forall>s. length (store (kvd w') s) = SECTOR_SIZE\<rbrakk>
    \<Longrightarrow> kv_step (w, base, lost) (w', base', lost')"

lemma kv_others_ok:
  assumes ok: "kv_ok lost base V rb sn se k d" and "frames_ok (kfr k') (base' \<union> kv_held V) lost'" and "base' \<inter> kv_held V = {}"
    and m: "\<forall>f\<in>kv_held V. \<forall>q<BLOCK_BYTES. pm k' (f + q) = pm k (f + q)"
    and d: "\<forall>i j s. at_block V i j (Spilled s) \<longrightarrow> (\<forall>x<SECTORS_PER_BLOCK. store d' (of_nat (s + x)) = store d (of_nat (s + x)))"
    and "\<forall>s. length (store d' s) = SECTOR_SIZE"
  shows "kv_ok lost' base' V rb sn se k' d'"
proof -
  have "content (fst (V ! i)) j sn (pm k') d' b" if at: "at_block V i j b" for i j b
  proof (cases b)
    case (Resident f u)
    then show ?thesis using kv_okD(4) [OF ok at] at_held [of V i j f u] at m by (simp add: content_def)
  next
    case (Spilled s)
    have "store d' (of_nat (s + q div SECTOR_SIZE)) = store d (of_nat (s + q div SECTOR_SIZE))" if "q < BLOCK_BYTES" for q
      using d at byte_in_sector(1) [OF that] unfolding Spilled by auto
    then show ?thesis using kv_okD(4) [OF ok at] Spilled by (simp add: content_def del: of_nat_add)
  qed (use kv_okD(4) [OF ok at] in \<open>simp add: content_def\<close>)
  then show ?thesis using assms(2,3,6) ok unfolding kv_ok_def by blast
qed

interpretation kv_hist: invariant_of kv_start kv_step "\<lambda>(w, base, lost). kv_inv lost base w"
proof
  fix s assume "kv_start s"
  then show "case s of (w, base, lost) \<Rightarrow> kv_inv lost base w"
  proof cases
    case (pointed w start sectors base lost)
    moreover have "kv_view (kvc w) = []" using pointed(2) by (simp add: kv_view_def kv_init_def CACHE0_def)
    ultimately show ?thesis by (simp add: kv_inv_def kv_ok_def kv_held_def at_block_def count_resident_def Let_def kv_init_def CACHE0_def)
  qed
next
  fix s t assume st: "kv_step s t" and ok: "case s of (w, base, lost) \<Rightarrow> kv_inv lost base w"
  from st ok show "case t of (w, base, lost) \<Rightarrow> kv_inv lost base w"
  proof cases
    case (opens w base lost)
    then show ?thesis using ok kv_open_ok by simp
  next
    case (appends clk ident n w r w' base lost)
    then show ?thesis using ok kv_append_ok by auto
  next
    case (reads clk ident idx n w r w' base lost)
    then show ?thesis using ok kv_read_ok by auto
  next
    case (others w' w base' lost' base lost)
    then show ?thesis using ok kv_others_ok by (auto simp: kv_inv_def Let_def)
  qed
qed

text \<open>Resident blocks are as many as their frames.\<close>

lemma card_kv_held:
  assumes "kv_ok lost base V rb sn se k d"
  shows "card (kv_held V) = count_resident V"
proof -
  let ?J = "\<lambda>i. {j. j < length (snd (V ! i)) \<and> in_memory (snd (V ! i) ! j)}"
  let ?P = "SIGMA i:{0..<length V}. ?J i" and ?f = "\<lambda>(i, j). case snd (V ! i) ! j of Resident f u \<Rightarrow> f"
  have at: "\<exists>u. at_block V i j (Resident (?f (i, j)) u)" if "(i, j) \<in> ?P" for i j
    using that by (auto simp: at_block_def in_memory_def split: Block.splits)
  have inj: "inj_on ?f ?P"
  proof (rule inj_onI)
    fix x y assume p: "x \<in> ?P" "y \<in> ?P" and eq: "?f x = ?f y"
    obtain i j i' j' where xy: "x = (i, j)" "y = (i', j')" by (cases x, cases y)
    obtain u u' where "at_block V i j (Resident (?f x) u)" "at_block V i' j' (Resident (?f x) u')"
      using at [OF p(1) [unfolded xy]] at [OF p(2) [unfolded xy]] eq unfolding xy by auto
    from kv_okD(3) [OF assms this] show "x = y" by (simp add: xy)
  qed
  have im: "?f ` ?P = kv_held V"
  proof (intro equalityI subsetI)
    fix f assume "f \<in> kv_held V"
    then obtain i j u where a: "at_block V i j (Resident f u)" by (auto simp: kv_held_def)
    then have "(i, j) \<in> ?P" "?f (i, j) = f" by (auto simp: at_block_def in_memory_def)
    then show "f \<in> ?f ` ?P" by (intro image_eqI [of f ?f "(i, j)"]) simp_all
  next
    fix f assume "f \<in> ?f ` ?P"
    then obtain i j where "(i, j) \<in> ?P" "f = ?f (i, j)" by auto
    with at [OF this(1)] show "f \<in> kv_held V" unfolding kv_held_def by blast
  qed
  have "card (kv_held V) = card ?P" using card_image [OF inj] unfolding im .
  also have "\<dots> = (\<Sum>i = 0..<length V. length (filter in_memory (snd (V ! i))))" by (simp add: length_filter_conv_card)
  also have "\<dots> = count_resident V" by (simp add: count_resident_def sum_list_sum_nth)
  finally show ?thesis .
qed

section \<open>An example\<close>

text \<open>One session, and one block appended to it.\<close>

definition demo_kv0 :: kv_world where
  "demo_kv0 = snd (kv_open (\<lambda>_. 0) 7 0 \<lparr>kvc = kv_init 100 64 CACHE0, kvm = demo_kmem, kvd = \<lparr>store = \<lambda>_. replicate SECTOR_SIZE 0, bad = \<lambda>_. None, power = None\<rparr>, reads = 0\<rparr>)"

definition demo_kv1 :: kv_world where
  "demo_kv1 = snd (kv_append (\<lambda>_. 0) 1 1 0 demo_kv0)"

lemma demo_kv_reach0: "reach kv_start kv_step (demo_kv0, {}, {})"
proof -
  let ?w = "\<lparr>kvc = kv_init 100 64 CACHE0, kvm = demo_kmem, kvd = \<lparr>store = \<lambda>_. replicate SECTOR_SIZE 0, bad = \<lambda>_. None, power = None\<rparr>, reads = 0\<rparr>"
  have "kv_start (?w, {}, {})" by (rule kv_start.intros [of _ 100 64]) (simp_all add: demo_frames_ok)
  then show ?thesis unfolding demo_kv0_def by (blast intro: reach_init reach_step kv_step.opens)
qed

lemma demo_kv_step:
  obtains fr where "append_one (\<lambda>_. 0) 1 demo_kv0 = (Inr (), \<lparr>kvc = (kvc demo_kv0)\<lparr>kv_sessions :=
      [\<lparr>ses_id = 1, ses_owner = 7, ses_model = 0, ses_blocks = [Resident 4096 0], created_tick = 0, last_tick = 0, ses_hits = 0, ses_spills = 0, ses_restores = 0\<rparr>], resident_blocks := 1\<rparr>,
    kvm = demo_kmem\<lparr>kfr := fr, pm := kv_fill 4096 1 0 (pm demo_kmem)\<rparr>, kvd = kvd demo_kv0, reads = 3\<rparr>)"
proof -
  have "fst (frames_alloc (kfr demo_kmem)) = Some 4096" by (simp add: demo_kmem_def frames_eval)
  then obtain fr where fr: "frames_alloc (kfr demo_kmem) = (Some 4096, fr)" by (cases "frames_alloc (kfr demo_kmem)") auto
  have "make_room (\<lambda>_. 0) 1 demo_kv0 = demo_kv0\<lparr>reads := 2\<rparr>"
    by (simp add: make_room.simps choose_victim_def demo_kv0_def kv_open_def kv_init_def CACHE0_def BUDGET_BLOCKS_def Let_def)
  then show thesis using fr
    by (intro that [of fr]) (simp add: append_one_def demo_kv0_def kv_open_def kv_init_def CACHE0_def BUDGET_BLOCKS_def session_at_def Let_def)
qed

lemma demo_kv_append: "kv_append (\<lambda>_. 0) 1 1 0 demo_kv0 = (Inr 1, demo_kv1)"
  by (rule demo_kv_step) (simp add: demo_kv1_def)

lemma demo_kv_cache: "kv_sessions (kvc demo_kv1) = [\<lparr>ses_id = 1, ses_owner = 7, ses_model = 0, ses_blocks = [Resident 4096 0], created_tick = 0, last_tick = 0, ses_hits = 0, ses_spills = 0, ses_restores = 0\<rparr>]"
  "resident_blocks (kvc demo_kv1) = 1"
  by (rule demo_kv_step, simp add: demo_kv1_def)+

lemma demo_kv_reach: "reach kv_start kv_step (demo_kv1, {}, {})"
  using demo_kv_reach0 kv_step.appends [OF demo_kv_append] by (rule reach_step)

section \<open>Properties\<close>

text \<open>
  C36: Whatever is opened, appended and read, whichever transfers fail and whatever the rest of the system
  does outside the cache's pages and sectors: the frames of resident blocks are allocated frames that
  nobody else has and no two blocks share, no frame is lost, and \<open>resident_blocks\<close> is the number of
  blocks that are resident.
\<close>

theorem kv_frames_exact:
  assumes "reach kv_start kv_step (w, base, lost)"
  shows "frames_ok (kfr (kvm w)) (base \<union> kv_held (kv_view (kvc w))) lost \<and> base \<inter> kv_held (kv_view (kvc w)) = {}
    \<and> card (kv_held (kv_view (kvc w))) = resident_blocks (kvc w) \<and> resident_blocks (kvc w) = sum_list (map ses_resident (kv_sessions (kvc w)))"
proof -
  have K: "kv_ok lost base (kv_view (kvc w)) (resident_blocks (kvc w)) (spill_next (kvc w)) (spill_end (kvc w)) (kvm w) (kvd w)"
    using kv_hist.inv_reach [OF assms] by (simp add: kv_inv_def Let_def)
  have "count_resident (kv_view (kvc w)) = sum_list (map ses_resident (kv_sessions (kvc w)))"
    by (simp add: count_resident_def kv_view_def ses_resident_def [abs_def] comp_def)
  then show ?thesis using kv_okD(1,2,5) [OF K] card_kv_held [OF K] by simp
qed

theorem kv_frames_exact_witness: "reach kv_start kv_step (demo_kv1, {}, {}) \<and> card (kv_held (kv_view (kvc demo_kv1))) = 1"
  using kv_frames_exact [OF demo_kv_reach] demo_kv_reach by (simp add: demo_kv_cache)

text \<open>
  C35: In every such history a read of a block answers with the bytes the block was filled with, out of
  memory or back from the disk, and says which of the two it was; it fails only when the block is on
  the disk and there is no free frame or a sector is bad. It never waits for a block being written.
\<close>

theorem kv_read_exact:
  assumes "reach kv_start kv_step (w, base, lost)" and "kv_read clk ident idx n w = (r, w')"
  shows "case session_at ident (kvc w) of
      None \<Rightarrow> r = Some (Inl ''no such session'')
    | Some si \<Rightarrow> let bs = ses_blocks (kv_sessions (kvc w) ! si) in
        if idx < length bs then \<exists>q. r = Some q \<and> read_answer ident idx n (bs ! idx) w q else r = Some (Inl ''no such block'')"
  using kv_read_ok [OF _ assms(2)] kv_hist.inv_reach [OF assms(1)] by simp

theorem kv_read_exact_witness:
  "\<exists>w'. reach kv_start kv_step (demo_kv1, {}, {}) \<and> kv_read (\<lambda>_. 0) 1 0 4 demo_kv1 = (Some (Inr (True, map (pattern 1 0) [0..<4])), w')"
proof -
  obtain r w' where r: "kv_read (\<lambda>_. 0) 1 0 4 demo_kv1 = (r, w')" by fastforce
  have "session_at 1 (kvc demo_kv1) = Some 0" by (simp add: demo_kv_cache session_at_def)
  with kv_read_exact [OF demo_kv_reach r] obtain q where "r = Some q" "read_answer 1 0 4 (Resident 4096 0) demo_kv1 q" by (auto simp: demo_kv_cache)
  then have "r = Some (Inr (True, map (pattern 1 0) [0..<4]))" by (cases q) (auto simp: read_answer_def in_memory_def BLOCK_BYTES_def PAGE_SIZE_def)
  then show ?thesis using r demo_kv_reach by simp
qed

text \<open>
  An append that succeeds added the blocks it was asked for, and leaves no more than the budget in
  memory.
\<close>

theorem kv_append_budget:
  assumes "reach kv_start kv_step (w, base, lost)" and "kv_append clk ident n 0 w = (Inr m, w')" and "0 < n"
  shows "m = n \<and> resident_blocks (kvc w') \<le> BUDGET_BLOCKS \<and> session_grown ident n w w'"
  using kv_append_ok [OF _ assms(2)] kv_hist.inv_reach [OF assms(1)] assms(3) by simp

theorem kv_append_budget_witness: "reach kv_start kv_step (demo_kv0, {}, {}) \<and> fst (kv_append (\<lambda>_. 0) 1 1 0 demo_kv0) = Inr 1 \<and> session_grown 1 1 demo_kv0 demo_kv1"
  using kv_append_budget [OF demo_kv_reach0 demo_kv_append] demo_kv_reach0 unfolding demo_kv_append by simp

text \<open>
  C37: A block of a conversation's prefix is chosen for eviction only when every block in memory that is
  behind a prefix is so recent that its age and 1000 more is at most an eighth of the age of the
  chosen one.
\<close>

theorem prefix_evicted_last:
  assumes "choose_victim want now c = Some ((si, bi, f, sector), c')" and "bi < PREFIX_BLOCKS"
    and "i < length (kv_sessions c)" and "j < length (ses_blocks (kv_sessions c ! i))" and "ses_blocks (kv_sessions c ! i) ! j = Resident g v" and "PREFIX_BLOCKS \<le> j"
  shows "\<exists>u. ses_blocks (kv_sessions c ! si) ! bi = Resident f u \<and> (now - v) + 1000 \<le> (now - u) div 8"
proof -
  from assms(1) obtain u where u: "at_block (kv_view c) si bi (Resident f u)"
    and le: "\<And>i j g v. at_block (kv_view c) i j (Resident g v) \<Longrightarrow> eviction_score j v now \<le> eviction_score bi u now"
    by (rule choose_victim_Some) blast
  have "at_block (kv_view c) i j (Resident g v)" using assms(3-5) by (simp add: at_block_def kv_view_def)
  from le [OF this] have "(now - v) + 1000 \<le> (now - u) div 8" using assms(2,6) by (simp add: eviction_score_def Let_def)
  moreover have "ses_blocks (kv_sessions c ! si) ! bi = Resident f u" using u by (auto simp: at_block_def kv_view_def)
  ultimately show ?thesis by blast
qed


text \<open>Two blocks are in memory: the oldest of the prefix, and one behind it that was just used.\<close>

definition demo_full :: Cache where
  "demo_full = CACHE0\<lparr>resident_blocks := 64, spill_end := 8, kv_sessions := [\<lparr>ses_id = 1, ses_owner = 7, ses_model = 0,
     ses_blocks = [Resident 4096 0, Spilled 8, Spilled 16, Spilled 24, Resident 8192 9000], created_tick = 0, last_tick = 0, ses_hits = 0, ses_spills = 0, ses_restores = 0\<rparr>]\<rparr>"

theorem prefix_evicted_last_witness: "\<exists>sector c'. choose_victim 1 9000 demo_full = Some ((0, 0, 4096, sector), c') \<and> (9000 - 9000) + 1000 \<le> (9000 - 0) div (8 :: nat)"
proof -
  have "find_victim 9000 (kv_sessions demo_full) = Some (0, 0, 1125, 4096)"
    by (simp add: demo_full_def find_victim_def worse_def eviction_score_def PREFIX_BLOCKS_def Let_def enumerate_eq_zip upt_rec)
  then obtain s c where c: "choose_victim 1 9000 demo_full = Some ((0, 0, 4096, s), c)"
    by (simp add: choose_victim_def BUDGET_BLOCKS_def SECTORS_PER_BLOCK_def BLOCK_BYTES_def PAGE_SIZE_def SECTOR_SIZE_def demo_full_def CACHE0_def Let_def)
  from prefix_evicted_last [OF c, of 0 4 8192 9000] c show ?thesis by (simp add: PREFIX_BLOCKS_def demo_full_def)
qed

end
