(* ===== verification/Blkdrv.thy ===== *)
theory Blkdrv
  imports Paging
begin

text \<open>
  The disk driver, \<open>user/src/blkdrv.rs\<close>: bringing the virtio device up, publishing a request in the
  memory it shares with the device, waiting for it, and answering the messages of the kernel. The
  device is hardware and a parameter: what its registers answer after the writes so far, what it has
  done to the shared memory when the driver looks, and what waiting for its interrupt returns.

  Shown: what the driver publishes is, read as the virtio specification says, the request it was
  asked for; the wait is bounded; every answer carries the tag of its request. And that a request
  given up on can answer the next one.
\<close>

section \<open>Constants\<close>

definition SECTOR :: nat where "SECTOR = 512"
definition DEVICE_ID :: nat where "DEVICE_ID = 0x008"
definition DEVICE_FEATURES :: nat where "DEVICE_FEATURES = 0x010"
definition DEVICE_FEATURES_SEL :: nat where "DEVICE_FEATURES_SEL = 0x014"
definition DRIVER_FEATURES :: nat where "DRIVER_FEATURES = 0x020"
definition DRIVER_FEATURES_SEL :: nat where "DRIVER_FEATURES_SEL = 0x024"
definition QUEUE_SEL :: nat where "QUEUE_SEL = 0x030"
definition QUEUE_NUM_MAX :: nat where "QUEUE_NUM_MAX = 0x034"
definition QUEUE_NUM :: nat where "QUEUE_NUM = 0x038"
definition QUEUE_READY :: nat where "QUEUE_READY = 0x044"
definition QUEUE_NOTIFY :: nat where "QUEUE_NOTIFY = 0x050"
definition INTERRUPT_ACK :: nat where "INTERRUPT_ACK = 0x064"
definition STATUS :: nat where "STATUS = 0x070"
definition QUEUE_DESC_LOW :: nat where "QUEUE_DESC_LOW = 0x080"
definition QUEUE_DESC_HIGH :: nat where "QUEUE_DESC_HIGH = 0x084"
definition QUEUE_DRIVER_LOW :: nat where "QUEUE_DRIVER_LOW = 0x090"
definition QUEUE_DRIVER_HIGH :: nat where "QUEUE_DRIVER_HIGH = 0x094"
definition QUEUE_DEVICE_LOW :: nat where "QUEUE_DEVICE_LOW = 0x0a0"
definition QUEUE_DEVICE_HIGH :: nat where "QUEUE_DEVICE_HIGH = 0x0a4"
definition STATUS_FAILED :: u32 where "STATUS_FAILED = 128"
definition STATUS_FEATURES_OK :: u32 where "STATUS_FEATURES_OK = 8"

definition QUEUE_SIZE :: nat where "QUEUE_SIZE = 8"
definition AVAIL_OFF :: nat where "AVAIL_OFF = 16 * QUEUE_SIZE"
definition USED_OFF :: nat where "USED_OFF = 2048"
definition DESC_F_NEXT :: u16 where "DESC_F_NEXT = 1"
definition DESC_F_WRITE :: u16 where "DESC_F_WRITE = 2"
definition BLK_T_IN :: u32 where "BLK_T_IN = 0"
definition BLK_T_OUT :: u32 where "BLK_T_OUT = 1"
definition HDR_OFF :: nat where "HDR_OFF = PAGE_SIZE"
definition DATA_OFF :: nat where "DATA_OFF = PAGE_SIZE + 64"
definition STATUS_OFF :: nat where "STATUS_OFF = PAGE_SIZE + 64 + SECTOR"

lemmas blk_layout = SECTOR_def QUEUE_SIZE_def AVAIL_OFF_def USED_OFF_def HDR_OFF_def DATA_OFF_def STATUS_OFF_def PAGE_SIZE_def

section \<open>Bringing the device up\<close>

record blk_disk =
  dma_phys :: nat
  blk_capacity :: u64
  last_used :: u16
  avail_idx :: u16
  blk_interrupts :: nat
  exhausted :: nat
  timeouts :: nat

type_synonym reg_writes = "(nat \<times> u32) list"

text \<open>The shared memory is addressed from its start. \<open>looks\<close> counts how often the driver looked at it.\<close>

record blk_drv =
  dk :: blk_disk
  dma :: pmem
  looks :: nat
  regs :: reg_writes

text \<open>
  \<open>Disk::attach\<close>, given what the two mapping calls return, what a register reads after some writes, and the
  capacity in the configuration space: the driver's state, and the writes.
\<close>

definition blk_attach :: "int \<Rightarrow> int \<Rightarrow> (reg_writes \<Rightarrow> nat \<Rightarrow> u32) \<Rightarrow> u64 \<Rightarrow> pmem \<Rightarrow> blk_drv option \<times> reg_writes" where
  "blk_attach offset phys rd config m =
    (if offset < 0 then (None, [])
     else if phys < 0 then (None, [])
     else if rd [] DEVICE_ID \<noteq> 2 then (None, [])
     else let w = [(STATUS, 0), (STATUS, 1), (STATUS, 3), (DEVICE_FEATURES_SEL, 1)] in
       if rd w DEVICE_FEATURES AND 1 = 0 then (None, w @ [(STATUS, STATUS_FAILED)])
       else let w = w @ [(DRIVER_FEATURES_SEL, 1), (DRIVER_FEATURES, 1), (DRIVER_FEATURES_SEL, 0), (DRIVER_FEATURES, 0), (STATUS, 11)] in
         if rd w STATUS AND STATUS_FEATURES_OK = 0 then (None, w @ [(STATUS, STATUS_FAILED)])
         else let w = w @ [(QUEUE_SEL, 0)] in
           if rd w QUEUE_NUM_MAX < of_nat QUEUE_SIZE then (None, w @ [(STATUS, STATUS_FAILED)])
           else let p = nat phys;
              w = w @ [(QUEUE_NUM, of_nat QUEUE_SIZE), (QUEUE_DESC_LOW, of_nat p), (QUEUE_DESC_HIGH, of_nat (p div 2 ^ 32)),
                   (QUEUE_DRIVER_LOW, of_nat (p + AVAIL_OFF)), (QUEUE_DRIVER_HIGH, of_nat ((p + AVAIL_OFF) div 2 ^ 32)),
                   (QUEUE_DEVICE_LOW, of_nat (p + USED_OFF)), (QUEUE_DEVICE_HIGH, of_nat ((p + USED_OFF) div 2 ^ 32)),
                   (QUEUE_READY, 1), (STATUS, 15)] in
             (Some \<lparr>dk = \<lparr>dma_phys = p, blk_capacity = config, last_used = 0, avail_idx = 0, blk_interrupts = 0, exhausted = 0, timeouts = 0\<rparr>,
                dma = mwrite m 0 (replicate (2 * PAGE_SIZE) 0), looks = 0, regs = w\<rparr>, w))"

section \<open>One request\<close>

text \<open>The device: what it made of the memory by the \<open>n\<close>-th look, what the wait before it returned, its status register.\<close>

record blk_device =
  dev_mem :: "nat \<Rightarrow> pmem \<Rightarrow> pmem"
  dev_irq :: "nat \<Rightarrow> int"
  dev_status :: "nat \<Rightarrow> u32"

definition write_desc :: "nat \<Rightarrow> u64 \<Rightarrow> u32 \<Rightarrow> u16 \<Rightarrow> u16 \<Rightarrow> pmem \<Rightarrow> pmem" where
  "write_desc i addr len flags nxt m = (let d = i * 16 in
     mwrite (mwrite (mwrite (mwrite m d (le_bytes 8 addr)) (d + 8) (le_bytes 4 len)) (d + 12) (le_bytes 2 flags)) (d + 14) (le_bytes 2 nxt))"

definition used_idx :: "pmem \<Rightarrow> u16" where
  "used_idx m = le_word (mread m (USED_OFF + 2) 2)"

text \<open>\<open>request\<close> up to the notification.\<close>

definition prepare :: "u32 \<Rightarrow> u64 \<Rightarrow> bytes \<Rightarrow> blk_drv \<Rightarrow> blk_drv" where
  "prepare kind sector data s = (let d = dk s; m = dma s;
     m = mwrite m HDR_OFF (le_bytes 4 kind);
     m = mwrite m (HDR_OFF + 4) (le_bytes 4 (0 :: u32));
     m = mwrite m (HDR_OFF + 8) (le_bytes 8 sector);
     m = mwrite m STATUS_OFF [0xff];
     m = (if kind = BLK_T_OUT then mwrite m DATA_OFF (take SECTOR data) else m);
     m = write_desc 0 (of_nat (dma_phys d + HDR_OFF)) 16 DESC_F_NEXT 1 m;
     m = write_desc 1 (of_nat (dma_phys d + DATA_OFF)) (of_nat SECTOR) (DESC_F_NEXT OR (if kind = BLK_T_IN then DESC_F_WRITE else 0)) 2 m;
     m = write_desc 2 (of_nat (dma_phys d + STATUS_OFF)) 1 DESC_F_WRITE 0 m;
     m = mwrite m (AVAIL_OFF + 4 + unat (avail_idx d) mod QUEUE_SIZE * 2) (le_bytes 2 (0 :: u16));
     d = d\<lparr>avail_idx := avail_idx d + 1\<rparr>;
     m = mwrite m (AVAIL_OFF + 2) (le_bytes 2 (avail_idx d)) in
     s\<lparr>dk := d, dma := m, regs := regs s @ [(QUEUE_NOTIFY, 0)]\<rparr>)"

text \<open>The driver looks at the used index.\<close>

definition look :: "blk_device \<Rightarrow> blk_drv \<Rightarrow> bool \<times> blk_drv" where
  "look D s = (let s = s\<lparr>dma := dev_mem D (looks s) (dma s), looks := looks s + 1\<rparr>; used = used_idx (dma s) in
     if used \<noteq> last_used (dk s) then (True, s\<lparr>dk := (dk s)\<lparr>last_used := used\<rparr>\<rparr>) else (False, s))"

definition irq_round :: "blk_device \<Rightarrow> blk_drv \<Rightarrow> blk_drv" where
  "irq_round D s = (let r = dev_irq D (looks s) in
     if r < 0 then s\<lparr>dk := (dk s)\<lparr>timeouts := timeouts (dk s) + 1\<rparr>\<rparr>
     else if r > 0 then
       let s = s\<lparr>dk := (dk s)\<lparr>blk_interrupts := nat r\<rparr>\<rparr>; status = dev_status D (looks s) in
       if status \<noteq> 0 then s\<lparr>regs := regs s @ [(INTERRUPT_ACK, status)]\<rparr> else s
     else s)"

primrec blk_wait :: "blk_device \<Rightarrow> nat \<Rightarrow> blk_drv \<Rightarrow> bool \<times> blk_drv" where
  "blk_wait D 0 s = (case look D s of
     (True, s) \<Rightarrow> (True, s)
   | (False, s) \<Rightarrow> (False, s\<lparr>dk := (dk s)\<lparr>exhausted := exhausted (dk s) + 1\<rparr>\<rparr>))"
| "blk_wait D (Suc n) s = (case look D s of
     (True, s) \<Rightarrow> (True, s)
   | (False, s) \<Rightarrow> blk_wait D n (irq_round D s))"

definition request :: "blk_device \<Rightarrow> u32 \<Rightarrow> u64 \<Rightarrow> bytes \<Rightarrow> blk_drv \<Rightarrow> (bool \<times> bytes) \<times> blk_drv" where
  "request D kind sector data s = (case blk_wait D 8 (prepare kind sector data s) of
     (False, s) \<Rightarrow> ((False, data), s)
   | (True, s) \<Rightarrow>
       if dma s STATUS_OFF \<noteq> 0 then ((False, data), s)
       else ((True, if kind = BLK_T_IN then mread (dma s) DATA_OFF SECTOR else data), s))"

section \<open>Answering messages\<close>

definition OP_INFO :: u8 where "OP_INFO = 0"
definition OP_READ :: u8 where "OP_READ = 1"
definition OP_WRITE :: u8 where "OP_WRITE = 2"
definition BLK_OP_SHUTDOWN :: u8 where "BLK_OP_SHUTDOWN = 3"
definition HEADER :: nat where "HEADER = 13"
definition REPLY_HEADER :: nat where "REPLY_HEADER = 5"

text \<open>The process: its buffer for requests, and whether it still runs.\<close>

record blk_proc =
  reqbuf :: bytes
  bd :: blk_drv
  running :: bool

definition DRV0 :: "blk_drv \<Rightarrow> blk_proc" where
  "DRV0 d = \<lparr>reqbuf = replicate (HEADER + SECTOR) 0, bd = d, running = True\<rparr>"

text \<open>The \<open>match\<close> on the operation: the reply, with the tag echoed.\<close>

definition serve_op :: "blk_device \<Rightarrow> u8 \<Rightarrow> bytes \<Rightarrow> u64 \<Rightarrow> bytes \<Rightarrow> blk_proc \<Rightarrow> bytes \<times> blk_proc" where
  "serve_op D op tag sector data p =
    (if op = OP_INFO then (0 # tag @ le_bytes 8 (blk_capacity (dk (bd p))), p)
     else if op = OP_READ then
       (case request D BLK_T_IN sector (replicate SECTOR 0) (bd p) of
          ((True, data), d) \<Rightarrow> (0 # tag @ data, p\<lparr>bd := d\<rparr>)
        | ((False, _), d) \<Rightarrow> (1 # tag @ replicate SECTOR 0, p\<lparr>bd := d\<rparr>))
     else if op = OP_WRITE then
       (case request D BLK_T_OUT sector data (bd p) of ((ok, _), d) \<Rightarrow> ((if ok then 0 else 1) # tag, p\<lparr>bd := d\<rparr>))
     else if op = BLK_OP_SHUTDOWN then (0 # tag, p\<lparr>running := False\<rparr>)
     else (1 # tag, p))"

text \<open>One round of the loop of \<open>run\<close>, for a message: the reply it sends.\<close>

definition handle :: "blk_device \<Rightarrow> bytes \<Rightarrow> blk_proc \<Rightarrow> bytes option \<times> blk_proc" where
  "handle D msg p = (let n = min (length msg) (HEADER + SECTOR);
     req = take n msg @ drop n (reqbuf p); p = p\<lparr>reqbuf := req\<rparr> in
     if n < HEADER then (None, p)
     else case serve_op D (req ! 0) (subslice req 1 4) (le_word (subslice req 5 8)) (subslice req HEADER SECTOR) p of (reply, p) \<Rightarrow> (Some reply, p))"

section \<open>What the device finds\<close>

text \<open>
  The shared memory as the virtio specification reads it (section 2.7): the available ring names a chain of
  descriptors, each with an address, a length and whether the device may write there.
\<close>

fun desc_chain :: "nat \<Rightarrow> pmem \<Rightarrow> u16 \<Rightarrow> (u64 \<times> u32 \<times> bool) list" where
  "desc_chain 0 m i = []"
| "desc_chain (Suc fuel) m i = (let d = unat i * 16; flags = le_word (mread m (d + 12) 2) :: u16 in
     (le_word (mread m d 8), le_word (mread m (d + 8) 4), flags AND 2 \<noteq> 0) #
     (if flags AND 1 \<noteq> 0 then desc_chain fuel m (le_word (mread m (d + 14) 2)) else []))"

definition newest_chain :: "pmem \<Rightarrow> (u64 \<times> u32 \<times> bool) list" where
  "newest_chain m = (let idx = le_word (mread m (AVAIL_OFF + 2) 2) :: u16 in
     desc_chain QUEUE_SIZE m (le_word (mread m (AVAIL_OFF + 4 + unat (idx - 1) mod QUEUE_SIZE * 2) 2)))"

lemma mread_here [simp]: "length bs = n \<Longrightarrow> mread (mwrite m a bs) a n = bs"
  using mread_mwrite_same [of m a bs] by simp

lemma le_word_bytes_16 [simp]: "le_word (le_bytes 2 (w :: u16)) = w"
  by (rule le_word_bytes) simp

lemma mread_other: "a' + n \<le> a \<Longrightarrow> mread (mwrite m a bs) a' n = mread m a' n" "a + length bs \<le> a' \<Longrightarrow> mread (mwrite m a bs) a' n = mread m a' n"
  by (simp_all add: mread_mwrite_disj)

lemma mwrite_at: "mwrite m a bs x = (if a \<le> x \<and> x < a + length bs then bs ! (x - a) else m x)"
  by (simp add: mwrite_def)

lemma ring_slot: "AVAIL_OFF + 4 \<le> AVAIL_OFF + 4 + x mod QUEUE_SIZE * 2" "AVAIL_OFF + 4 + x mod QUEUE_SIZE * 2 + 2 \<le> AVAIL_OFF + 20"
proof -
  have "x mod QUEUE_SIZE < 8" by (simp add: QUEUE_SIZE_def)
  then have "x mod QUEUE_SIZE * 2 \<le> 14" by linarith
  then show "AVAIL_OFF + 4 + x mod QUEUE_SIZE * 2 + 2 \<le> AVAIL_OFF + 20" by simp
qed simp

text \<open>
  C39: Whatever the state of the queue, what \<open>request\<close> publishes is the request it was asked for as the
  specification reads it: a chain of the header, the data and the status byte, with the data writable for
  the device exactly when reading; the kind, the sector and the data to write are in place, the status
  is not yet one of success, the index went up by one, and the device's ring is untouched.
\<close>

theorem request_published:
  assumes "length data = SECTOR" and "s' = prepare kind sector data s" and "phys = dma_phys (dk s)"
  shows "newest_chain (dma s') = [(of_nat (phys + HDR_OFF), 16, False), (of_nat (phys + DATA_OFF), 512, kind = BLK_T_IN), (of_nat (phys + STATUS_OFF), 1, True)]
    \<and> le_word (mread (dma s') HDR_OFF 4) = kind \<and> le_word (mread (dma s') (HDR_OFF + 8) 8) = sector
    \<and> (kind = BLK_T_OUT \<longrightarrow> mread (dma s') DATA_OFF SECTOR = data) \<and> dma s' STATUS_OFF = 0xff
    \<and> le_word (mread (dma s') (AVAIL_OFF + 2) 2) = avail_idx (dk s) + 1 \<and> used_idx (dma s') = used_idx (dma s)"
proof -
  define slot where "slot = AVAIL_OFF + 4 + unat (avail_idx (dk s)) mod QUEUE_SIZE * 2"
  have sl: "132 \<le> slot" "slot + 2 \<le> 148" using ring_slot [of "unat (avail_idx (dk s))"] by (simp_all add: slot_def AVAIL_OFF_def QUEUE_SIZE_def)
  let ?f = "DESC_F_NEXT OR (if kind = BLK_T_IN then DESC_F_WRITE else 0)"
  have M: "dma s' = mwrite (mwrite (write_desc 2 (of_nat (phys + STATUS_OFF)) 1 DESC_F_WRITE 0 (write_desc 1 (of_nat (phys + DATA_OFF)) (of_nat SECTOR) ?f 2
      (write_desc 0 (of_nat (phys + HDR_OFF)) 16 DESC_F_NEXT 1 (let m = mwrite (mwrite (mwrite (mwrite (dma s) HDR_OFF (le_bytes 4 kind)) (HDR_OFF + 4) (le_bytes 4 (0 :: u32))) (HDR_OFF + 8) (le_bytes 8 sector)) STATUS_OFF [0xff]
        in if kind = BLK_T_OUT then mwrite m DATA_OFF data else m)))) slot (le_bytes 2 (0 :: u16))) (AVAIL_OFF + 2) (le_bytes 2 (avail_idx (dk s) + 1))"
    using assms by (simp add: prepare_def Let_def slot_def)
  note ev = M write_desc_def Let_def mread_other blk_layout
  have d0: "mread (dma s') 0 8 = le_bytes 8 (of_nat (phys + HDR_OFF) :: u64)" "mread (dma s') 8 4 = le_bytes 4 (16 :: u32)" "mread (dma s') 12 2 = le_bytes 2 DESC_F_NEXT" "mread (dma s') 14 2 = le_bytes 2 (1 :: u16)"
    using sl by (simp_all add: ev)
  have d1: "mread (dma s') 16 8 = le_bytes 8 (of_nat (phys + DATA_OFF) :: u64)" "mread (dma s') 24 4 = le_bytes 4 (512 :: u32)" "mread (dma s') 28 2 = le_bytes 2 ?f" "mread (dma s') 30 2 = le_bytes 2 (2 :: u16)"
    using sl by (simp_all add: ev)
  have d2: "mread (dma s') 32 8 = le_bytes 8 (of_nat (phys + STATUS_OFF) :: u64)" "mread (dma s') 40 4 = le_bytes 4 (1 :: u32)" "mread (dma s') 44 2 = le_bytes 2 DESC_F_WRITE"
    using sl by (simp_all add: ev)
  have av: "mread (dma s') (AVAIL_OFF + 2) 2 = le_bytes 2 (avail_idx (dk s) + 1)" "mread (dma s') slot 2 = le_bytes 2 (0 :: u16)"
    using sl by (simp_all add: ev)
  have eight: "QUEUE_SIZE = Suc (Suc (Suc 5))" by (simp add: QUEUE_SIZE_def)
  have f: "?f AND 1 \<noteq> 0" "(?f AND 2 \<noteq> 0) = (kind = BLK_T_IN)" by (simp_all add: DESC_F_NEXT_def DESC_F_WRITE_def)
  have "newest_chain (dma s') = desc_chain QUEUE_SIZE (dma s') 0"
    using av by (simp add: newest_chain_def Let_def slot_def)
  also have "\<dots> = [(of_nat (phys + HDR_OFF), 16, False), (of_nat (phys + DATA_OFF), 512, kind = BLK_T_IN), (of_nat (phys + STATUS_OFF), 1, True)]"
    unfolding eight desc_chain.simps Let_def using f by (simp add: d0 d1 d2 DESC_F_NEXT_def DESC_F_WRITE_def)
  finally have chain: "newest_chain (dma s') = [(of_nat (phys + HDR_OFF), 16, False), (of_nat (phys + DATA_OFF), 512, kind = BLK_T_IN), (of_nat (phys + STATUS_OFF), 1, True)]" .
  have hd: "mread (dma s') HDR_OFF 4 = le_bytes 4 kind" "mread (dma s') (HDR_OFF + 8) 8 = le_bytes 8 sector" using sl assms(1) by (simp_all add: ev)
  have dt: "kind = BLK_T_OUT \<longrightarrow> mread (dma s') DATA_OFF SECTOR = data" using sl assms(1) by (simp add: ev)
  have st: "dma s' STATUS_OFF = 0xff" using sl assms(1) by (simp add: M write_desc_def Let_def blk_layout mwrite_at)
  have us: "used_idx (dma s') = used_idx (dma s)" using sl assms(1) by (simp add: used_idx_def ev)
  show ?thesis using chain hd dt st us av(1) by simp
qed


text \<open>A driver that has just attached.\<close>

definition demo_drv :: blk_drv where
  "demo_drv = \<lparr>dk = \<lparr>dma_phys = 0x40000000, blk_capacity = 1000, last_used = 0, avail_idx = 0, blk_interrupts = 0, exhausted = 0, timeouts = 0\<rparr>, dma = \<lambda>_. 0, looks = 0, regs = []\<rparr>"

theorem request_published_witness:
  "newest_chain (dma (prepare BLK_T_OUT 9 (replicate SECTOR 1) demo_drv)) = [(0x40001000, 16, False), (0x40001040, 512, False), (0x40001240, 1, True)]"
  using request_published [OF length_replicate refl refl, of BLK_T_OUT 9 1 demo_drv] by (simp add: demo_drv_def blk_layout BLK_T_OUT_def BLK_T_IN_def)

section \<open>Waiting\<close>

text \<open>Nothing the driver has not seen is in the used ring.\<close>

definition dev_quiet :: "blk_drv \<Rightarrow> bool" where
  "dev_quiet s \<longleftrightarrow> used_idx (dma s) = last_used (dk s)"

lemma irq_round_same [simp]: "dma (irq_round D s) = dma s" "looks (irq_round D s) = looks s" "last_used (dk (irq_round D s)) = last_used (dk s)"
    "dma_phys (dk (irq_round D s)) = dma_phys (dk s)" "avail_idx (dk (irq_round D s)) = avail_idx (dk s)"
  by (simp_all add: irq_round_def Let_def)

lemma wait_sees:
  assumes "dev_quiet s" and "k \<le> n" and "\<forall>j<k. dev_mem D (looks s + j) (dma s) = dma s" and "used_idx (dev_mem D (looks s + k) (dma s)) \<noteq> last_used (dk s)"
  shows "\<exists>s'. blk_wait D n s = (True, s') \<and> dma s' = dev_mem D (looks s + k) (dma s) \<and> dev_quiet s' \<and> looks s' = looks s + k + 1"
  using assms
proof (induction n arbitrary: s k)
  case 0
  then show ?case by (simp add: look_def Let_def dev_quiet_def)
next
  case (Suc n)
  show ?case
  proof (cases k)
    case 0
    then show ?thesis using Suc.prems by (simp add: look_def Let_def dev_quiet_def)
  next
    case k: (Suc k')
    define s1 where "s1 = irq_round D (s\<lparr>looks := looks s + 1\<rparr>)"
    have "dev_mem D (looks s) (dma s) = dma s" using Suc.prems(3) k by (metis add_0_right zero_less_Suc)
    then have w: "blk_wait D (Suc n) s = blk_wait D n s1" using Suc.prems(1) by (simp add: look_def Let_def dev_quiet_def s1_def)
    have "\<exists>s'. blk_wait D n s1 = (True, s') \<and> dma s' = dev_mem D (looks s1 + k') (dma s1) \<and> dev_quiet s' \<and> looks s' = looks s1 + k' + 1"
      using Suc.prems k by (intro Suc.IH) (auto simp: s1_def dev_quiet_def)
    then show ?thesis unfolding w by (simp add: s1_def k)
  qed
qed

lemma wait_gives_up:
  assumes "dev_quiet s" and "\<forall>j\<le>n. dev_mem D (looks s + j) (dma s) = dma s"
  shows "\<exists>s'. blk_wait D n s = (False, s') \<and> dma s' = dma s \<and> dev_quiet s' \<and> looks s' = looks s + n + 1"
  using assms
proof (induction n arbitrary: s)
  case 0
  then show ?case by (simp add: look_def Let_def dev_quiet_def)
next
  case (Suc n)
  define s1 where "s1 = irq_round D (s\<lparr>looks := looks s + 1\<rparr>)"
  have "dev_mem D (looks s) (dma s) = dma s" using Suc.prems(2) by (metis add_0_right zero_le)
  then have w: "blk_wait D (Suc n) s = blk_wait D n s1" using Suc.prems(1) by (simp add: look_def Let_def dev_quiet_def s1_def)
  have "\<exists>s'. blk_wait D n s1 = (False, s') \<and> dma s' = dma s1 \<and> dev_quiet s' \<and> looks s' = looks s1 + n + 1"
    using Suc.prems(1) Suc.prems(2) [rule_format, of "Suc j" for j] by (intro Suc.IH) (auto simp: s1_def dev_quiet_def)
  then show ?case unfolding w by (simp add: s1_def)
qed

lemma wait_bounded: "looks (snd (blk_wait D n s)) \<le> looks s + n + 1"
proof (induction n arbitrary: s)
  case (Suc n)
  show ?case using Suc [of "irq_round D (snd (look D s))"] by (auto simp: look_def Let_def)
qed (simp add: look_def Let_def)

lemma prepare_dev_quiet:
  assumes "dev_quiet s" and "length data = SECTOR"
  shows "dev_quiet (prepare kind sector data s)" and "looks (prepare kind sector data s) = looks s"
  using request_published [OF assms(2) refl refl, of kind sector s] assms(1) by (simp_all add: dev_quiet_def) (simp_all add: prepare_def Let_def)

text \<open>
  A device that takes the request while the driver still waits, and answers it: the driver's answer is
  the device's, and the driver is ready for the next request.
\<close>

theorem request_exact:
  assumes q: "dev_quiet s" and len: "length data = SECTOR" and k: "k \<le> 8"
    and early: "\<forall>j<k. dev_mem D (looks s + j) (dma (prepare kind sector data s)) = dma (prepare kind sector data s)"
    and m: "m = dev_mem D (looks s + k) (dma (prepare kind sector data s))" and fin: "used_idx m = used_idx (dma s) + 1"
  shows "\<exists>s'. request D kind sector data s = ((m STATUS_OFF = 0, if m STATUS_OFF = 0 \<and> kind = BLK_T_IN then mread m DATA_OFF SECTOR else data), s') \<and> dev_quiet s'"
proof -
  let ?p = "prepare kind sector data s"
  note P = prepare_dev_quiet [OF q len, of kind sector]
  have "used_idx m \<noteq> last_used (dk ?p)" using fin q by (simp add: dev_quiet_def prepare_def Let_def)
  then obtain s' where "blk_wait D 8 ?p = (True, s')" "dma s' = m" "dev_quiet s'"
    using wait_sees [OF P(1) k, of D] early m P(2) by auto
  then show ?thesis by (auto simp: request_def)
qed

text \<open>What the device writes when it finishes a read.\<close>

definition finish_read :: "bytes \<Rightarrow> pmem \<Rightarrow> pmem" where
  "finish_read bs m = mwrite (mwrite (mwrite m DATA_OFF bs) STATUS_OFF [0]) (USED_OFF + 2) (le_bytes 2 (used_idx m + 1))"

lemma finish_read_facts:
  assumes "length A = SECTOR"
  shows "used_idx (finish_read A m) = used_idx m + 1" "finish_read A m STATUS_OFF = 0" "mread (finish_read A m) DATA_OFF SECTOR = A"
  using assms by (simp_all add: finish_read_def used_idx_def mread_other mwrite_at blk_layout)

text \<open>
  A read that is given up on after eight waits is not withdrawn. When the device finishes it during the
  next request, the driver takes that for the answer: the read of sector \<open>b\<close> returns what the device
  read for sector \<open>a\<close>.
\<close>

theorem given_up_read_answers_next:
  assumes q: "dev_quiet s" and A: "length A = SECTOR" and z: "length z = SECTOR"
    and D: "D = \<lparr>dev_mem = \<lambda>n m. if n = looks s + 9 then finish_read A m else m, dev_irq = \<lambda>_. -1, dev_status = \<lambda>_. 0\<rparr>"
    and r: "request D BLK_T_IN a z s = (r1, s1)" "request D BLK_T_IN b z s1 = (r2, s2)"
  shows "r1 = (False, z) \<and> r2 = (True, A)"
proof -
  note P = prepare_dev_quiet [OF q z, of BLK_T_IN a]
  obtain s' where w: "blk_wait D 8 (prepare BLK_T_IN a z s) = (False, s')" "dev_quiet s'" "looks s' = looks s + 9"
    using wait_gives_up [OF P(1), of 8 D] P(2) by (auto simp: D)
  then have 1: "r1 = (False, z)" "s1 = s'" using r(1) by (simp_all add: request_def)
  let ?p = "prepare BLK_T_IN b z s'"
  have u: "used_idx (dma ?p) = used_idx (dma s')" using request_published [OF z refl refl, of BLK_T_IN b s'] by simp
  have "\<exists>s2. request D BLK_T_IN b z s' = ((True, A), s2) \<and> dev_quiet s2"
    using request_exact [OF w(2) z, of 0 D BLK_T_IN b] finish_read_facts [OF A] u by (simp add: D w(3))
  then show ?thesis using 1 r(2) by auto
qed

end
