(* ===== verification/Blk.thy ===== *)
theory Blk
  imports Blkdrv Ipc Disk
begin

text \<open>
  The kernel's side of the disk, \<open>kernel/src/blk.rs\<close>, and its protocol with the driver process: requests go
  out on one channel with a tag, replies come back on another, one request is outstanding at a time,
  and a caller that waited too long gives up while its request stays where it is. Callers, the driver
  and the clock are interleaved step by step, over the channels of \<open>Ipc\<close> and the driver of \<open>Blkdrv\<close>.

  Shown: however late the driver is and however often callers gave up, an answer a caller accepts is
  the driver's answer to that very request, which was handled after exactly the requests sent before it.
\<close>

section \<open>The client\<close>

definition REPLY_TIMEOUT_TICKS :: nat where "REPLY_TIMEOUT_TICKS = 800"

record blk_client =
  REQ_CHANNEL :: "nat option"
  REP_CHANNEL :: "nat option"
  CAPACITY :: u64
  REQUESTS :: nat
  NEXT_TAG :: u32
  STALE :: nat

definition CLIENT0 :: blk_client where
  "CLIENT0 = \<lparr>REQ_CHANNEL = None, REP_CHANNEL = None, CAPACITY = 0, REQUESTS = 0, NEXT_TAG = 1, STALE = 0\<rparr>"

definition blk_attach_channels :: "nat \<Rightarrow> nat \<Rightarrow> blk_client \<Rightarrow> blk_client" where
  "blk_attach_channels req rep c = c\<lparr>REQ_CHANNEL := Some req, REP_CHANNEL := Some rep\<rparr>"

definition blk_attached :: "blk_client \<Rightarrow> bool" where
  "blk_attached c = (REQ_CHANNEL c \<noteq> None)"

definition blk_header :: "u8 \<Rightarrow> u32 \<Rightarrow> u64 \<Rightarrow> bytes" where
  "blk_header op tag sector = op # le_bytes 4 tag @ le_bytes 8 sector"

definition reply_tag :: "bytes \<Rightarrow> u32" where
  "reply_tag bs = (if length bs < REPLY_HEADER then 0 else le_word (subslice bs 1 4))"

text \<open>The calls: a read into a buffer of some length, a write of some data.\<close>

datatype blk_call = Info | Read u64 nat | Write u64 bytes | Shutdown

definition call_check :: "blk_call \<Rightarrow> unit result" where
  "call_check call = (case call of
     Read _ n \<Rightarrow> if n \<noteq> SECTOR_SIZE then Inl ''reads are one sector'' else Inr ()
   | Write _ data \<Rightarrow> if length data \<noteq> SECTOR_SIZE then Inl ''writes are one sector'' else Inr ()
   | _ \<Rightarrow> Inr ())"

definition call_msg :: "blk_call \<Rightarrow> u32 \<Rightarrow> bytes" where
  "call_msg call tag = (case call of
     Info \<Rightarrow> blk_header OP_INFO tag 0
   | Read sector _ \<Rightarrow> blk_header OP_READ tag sector
   | Write sector data \<Rightarrow> blk_header OP_WRITE tag sector @ data
   | Shutdown \<Rightarrow> blk_header BLK_OP_SHUTDOWN tag 0)"

text \<open>\<open>next_tag\<close>, then \<open>round_trip\<close> up to its loop, one turn of the loop, and what each call makes of the reply.\<close>

definition next_tag :: "blk_client \<Rightarrow> u32 \<times> blk_client" where
  "next_tag c = (NEXT_TAG c, c\<lparr>NEXT_TAG := NEXT_TAG c + 1\<rparr>)"

definition KERNEL_PID :: nat where "KERNEL_PID = 2 ^ 64 - 1"

definition send_request :: "bytes \<Rightarrow> channels \<Rightarrow> blk_client \<Rightarrow> unit result \<times> channels \<times> blk_client" where
  "send_request msg ch c = (case REQ_CHANNEL c of
     None \<Rightarrow> (Inl ''no block driver attached'', ch, c)
   | Some req \<Rightarrow>
       (case enqueue req KERNEL_PID msg ch of
          (Inl _, ch) \<Rightarrow> (Inl ''request channel is gone'', ch, c)
        | (Inr _, ch) \<Rightarrow> (Inr (), ch, c\<lparr>REQUESTS := REQUESTS c + 1\<rparr>)))"

definition poll_reply :: "u32 \<Rightarrow> nat \<Rightarrow> nat \<Rightarrow> channels \<Rightarrow> blk_client \<Rightarrow> bytes result option \<times> channels \<times> blk_client" where
  "poll_reply tag deadline now ch c =
    (case (case REP_CHANNEL c of None \<Rightarrow> (None, ch) | Some rep \<Rightarrow> try_recv rep ch) of
       (Some m, ch) \<Rightarrow>
         if reply_tag (m_bytes m) \<noteq> tag then (None, ch, c\<lparr>STALE := STALE c + 1\<rparr>)
         else if m_bytes m \<noteq> [] \<and> hd (m_bytes m) = 0 then (Some (Inr (m_bytes m)), ch, c)
         else (Some (Inl ''driver reported an error''), ch, c)
     | (None, ch) \<Rightarrow>
         if now > deadline then (Some (Inl ''block driver did not answer''), ch, c) else (None, ch, c))"

definition call_finish :: "blk_call \<Rightarrow> bytes \<Rightarrow> blk_client \<Rightarrow> bytes result \<times> blk_client" where
  "call_finish call reply c = (case call of
     Info \<Rightarrow> if length reply < REPLY_HEADER + 8 then (Inl ''short info reply'', c)
             else (Inr (subslice reply REPLY_HEADER 8), c\<lparr>CAPACITY := le_word (subslice reply REPLY_HEADER 8)\<rparr>)
   | Read _ _ \<Rightarrow> if length reply < REPLY_HEADER + SECTOR_SIZE then (Inl ''short read reply'', c) else (Inr (subslice reply REPLY_HEADER SECTOR_SIZE), c)
   | Write _ _ \<Rightarrow> (Inr [], c)
   | Shutdown \<Rightarrow> (Inr [], c))"

definition call_result :: "blk_call \<Rightarrow> bytes result \<Rightarrow> blk_client \<Rightarrow> bytes result \<times> blk_client" where
  "call_result call r c = (case r of Inl e \<Rightarrow> (Inl e, c) | Inr reply \<Rightarrow> call_finish call reply c)"

section \<open>Callers, driver and clock\<close>

text \<open>
  A call that has its tag waits in \<open>callers\<close> until no request is outstanding (\<open>IN_FLIGHT\<close>); \<open>flight\<close> is the
  outstanding one with its deadline. The driver holds the message it works on in \<open>busy\<close>. Recorded beside
  that: the calls made, the calls sent in order, and the results.
\<close>

record blk_world =
  client :: blk_client
  bchans :: channels
  proc :: blk_proc
  busy :: "bytes option"
  callers :: "(u32 \<times> blk_call) list"
  flight :: "(u32 \<times> blk_call \<times> nat) option"
  clock :: nat
  calls :: "(u32 \<times> blk_call) list"
  started :: "(u32 \<times> blk_call) list"
  results :: "(u32 \<times> blk_call \<times> bytes result) list"

inductive blk_start :: "nat \<Rightarrow> nat \<Rightarrow> blk_drv \<Rightarrow> blk_world \<Rightarrow> bool" for req rep d where
  "\<lbrakk>req \<noteq> rep; req < length ch; rep < length ch; queue (ch ! req) = []; queue (ch ! rep) = []\<rbrakk> \<Longrightarrow>
   blk_start req rep d \<lparr>client = blk_attach_channels req rep CLIENT0, bchans = ch, proc = DRV0 d, busy = None, callers = [], flight = None, clock = t, calls = [], started = [], results = []\<rparr>"

inductive blk_step :: "nat \<Rightarrow> nat \<Rightarrow> blk_device \<Rightarrow> nat \<Rightarrow> blk_world \<Rightarrow> blk_world \<Rightarrow> bool" for req rep D pid where
  issue: "\<lbrakk>call_check call = Inr (); next_tag (client w) = (tag, c)\<rbrakk>
    \<Longrightarrow> blk_step req rep D pid w (w\<lparr>client := c, callers := callers w @ [(tag, call)], calls := calls w @ [(tag, call)]\<rparr>)"
| send: "\<lbrakk>flight w = None; (tag, call) \<in> set (callers w); send_request (call_msg call tag) (bchans w) (client w) = (Inr (), ch, c)\<rbrakk>
    \<Longrightarrow> blk_step req rep D pid w (w\<lparr>client := c, bchans := ch, callers := remove1 (tag, call) (callers w), started := started w @ [(tag, call)],
          flight := Some (tag, call, clock w + REPLY_TIMEOUT_TICKS)\<rparr>)"
| send_fails: "\<lbrakk>flight w = None; (tag, call) \<in> set (callers w); send_request (call_msg call tag) (bchans w) (client w) = (Inl e, ch, c)\<rbrakk>
    \<Longrightarrow> blk_step req rep D pid w (w\<lparr>client := c, bchans := ch, callers := remove1 (tag, call) (callers w), results := results w @ [(tag, call, Inl e)]\<rparr>)"
| poll: "\<lbrakk>flight w = Some (tag, call, deadline); poll_reply tag deadline (clock w) (bchans w) (client w) = (None, ch, c)\<rbrakk>
    \<Longrightarrow> blk_step req rep D pid w (w\<lparr>client := c, bchans := ch\<rparr>)"
| return: "\<lbrakk>flight w = Some (tag, call, deadline); poll_reply tag deadline (clock w) (bchans w) (client w) = (Some r, ch, c); call_result call r c = (q, c')\<rbrakk>
    \<Longrightarrow> blk_step req rep D pid w (w\<lparr>client := c', bchans := ch, flight := None, results := results w @ [(tag, call, q)]\<rparr>)"
| tick: "blk_step req rep D pid w (w\<lparr>clock := clock w + 1\<rparr>)"
| take: "\<lbrakk>running (proc w); busy w = None; try_recv req (bchans w) = (Some m, ch)\<rbrakk>
    \<Longrightarrow> blk_step req rep D pid w (w\<lparr>bchans := ch, busy := Some (m_bytes m)\<rparr>)"
| answer: "\<lbrakk>busy w = Some msg; handle D msg (proc w) = (Some reply, p); enqueue rep pid reply (bchans w) = (Inr n, ch)\<rbrakk>
    \<Longrightarrow> blk_step req rep D pid w (w\<lparr>bchans := ch, busy := None, proc := p\<rparr>)"
| others: "\<lbrakk>length ch \<ge> length (bchans w); queue (ch ! req) = queue (bchans w ! req); queue (ch ! rep) = queue (bchans w ! rep)\<rbrakk>
    \<Longrightarrow> blk_step req rep D pid w (w\<lparr>bchans := ch\<rparr>)"

text \<open>The driver after it has handled some messages.\<close>

definition handled :: "blk_device \<Rightarrow> (u32 \<times> blk_call) list \<Rightarrow> blk_proc \<Rightarrow> blk_proc" where
  "handled D cs p = fold (\<lambda>(tag, call) p. snd (handle D (call_msg call tag) p)) cs p"


section \<open>What the driver makes of a call\<close>

lemma sector_sizes: "SECTOR_SIZE = SECTOR" "SECTOR = 512" "HEADER = 13" "REPLY_HEADER = 5"
  by (simp_all add: SECTOR_SIZE_def SECTOR_def HEADER_def REPLY_HEADER_def)

lemmas blk_ops = OP_INFO_def OP_READ_def OP_WRITE_def BLK_OP_SHUTDOWN_def

lemma header_parts:
  "length (blk_header op tag sector @ rest) = 13 + length rest" "(blk_header op tag sector @ xs) ! 0 = op"
  "subslice (blk_header op tag sector @ xs) 1 4 = le_bytes 4 tag" "subslice (blk_header op tag sector @ xs) 5 8 = le_bytes 8 sector"
  "subslice (blk_header op tag sector @ rest @ xs) 13 (length rest) = rest"
  by (simp_all add: blk_header_def subslice_def)

lemma handle_serves:
  assumes "length rest \<le> SECTOR"
  obtains buf data where "handle D (blk_header op tag sector @ rest) p = (case serve_op D op (le_bytes 4 tag) sector data (p\<lparr>reqbuf := buf\<rparr>) of (reply, p) \<Rightarrow> (Some reply, p))"
    "length rest = SECTOR \<Longrightarrow> data = rest"
proof -
  let ?msg = "blk_header op tag sector @ rest"
  define buf where "buf = blk_header op tag sector @ rest @ drop (length ?msg) (reqbuf p)"
  have n: "min (length ?msg) (HEADER + SECTOR) = length ?msg" "\<not> length ?msg < HEADER" 
    using assms header_parts(1) [of op tag sector rest] by (simp_all add: sector_sizes del: length_append)
  have "handle D ?msg p = (case serve_op D (buf ! 0) (subslice buf 1 4) (le_word (subslice buf 5 8)) (subslice buf HEADER SECTOR) (p\<lparr>reqbuf := buf\<rparr>) of (reply, p) \<Rightarrow> (Some reply, p))"
    unfolding handle_def Let_def n(1) using n(2) by (simp add: buf_def)
  moreover have "length rest = SECTOR \<Longrightarrow> subslice buf HEADER SECTOR = rest" using header_parts(5) by (metis buf_def sector_sizes(3))
  moreover have "buf ! 0 = op" "subslice buf 1 4 = le_bytes 4 tag" "subslice buf 5 8 = le_bytes 8 sector" unfolding buf_def by (rule header_parts)+
  ultimately show thesis using that [of "subslice buf HEADER SECTOR" buf] by (simp del: One_nat_def)
qed

text \<open>That a call was carried out with an answer.\<close>

definition done_by :: "blk_device \<Rightarrow> blk_call \<Rightarrow> bytes \<Rightarrow> blk_drv \<Rightarrow> bool" where
  "done_by D call bs d = (case call of
     Info \<Rightarrow> bs = le_bytes 8 (blk_capacity (dk d))
   | Read sector _ \<Rightarrow> \<exists>d'. request D BLK_T_IN sector (replicate SECTOR 0) d = ((True, bs), d')
   | Write sector data \<Rightarrow> \<exists>x d'. request D BLK_T_OUT sector data d = ((True, x), d')
   | Shutdown \<Rightarrow> True)"

lemma request_length: "request D BLK_T_IN sector data d = ((True, bs), d') \<Longrightarrow> length bs = SECTOR"
  by (auto simp: request_def BLK_T_IN_def split: prod.splits bool.splits if_splits)

lemma handle_call:
  assumes "call_check call = Inr ()" and "handle D (call_msg call tag) p = (r, p')"
  obtains st body where "r = Some (st # le_bytes 4 tag @ body)"
    "\<And>c bs c'. st = 0 \<Longrightarrow> call_finish call (st # le_bytes 4 tag @ body) c = (Inr bs, c') \<Longrightarrow> done_by D call bs (bd p)"
proof -
  define op where "op = (case call of Info \<Rightarrow> OP_INFO | Read _ _ \<Rightarrow> OP_READ | Write _ _ \<Rightarrow> OP_WRITE | Shutdown \<Rightarrow> BLK_OP_SHUTDOWN)"
  define sector where "sector = (case call of Read s _ \<Rightarrow> s | Write s _ \<Rightarrow> s | _ \<Rightarrow> 0)"
  define rest where "rest = (case call of Write _ data \<Rightarrow> data | _ \<Rightarrow> [])"
  have len: "length rest \<le> SECTOR" using assms(1) by (auto simp: rest_def call_check_def sector_sizes split: blk_call.splits if_splits)
  have msg: "call_msg call tag = blk_header op tag sector @ rest" by (simp add: call_msg_def op_def sector_def rest_def split: blk_call.splits)
  have sub: "subslice (0 # le_bytes 4 tag @ xs) REPLY_HEADER n = take n xs" for xs :: bytes and n by (simp add: subslice_def sector_sizes)
  obtain buf data' where h: "handle D (call_msg call tag) p = (case serve_op D op (le_bytes 4 tag) sector data' (p\<lparr>reqbuf := buf\<rparr>) of (reply, p) \<Rightarrow> (Some reply, p))"
    and b: "length rest = SECTOR \<Longrightarrow> data' = rest"
    unfolding msg by (rule handle_serves [OF len, of D op tag sector p]) blast
  note h = h [unfolded assms(2)]
  show thesis
  proof (cases call)
    case Info
    then show thesis using h by (intro that [of 0 "le_bytes 8 (blk_capacity (dk (bd p)))"]) (auto simp: op_def serve_op_def done_by_def call_finish_def sub split: if_splits)
  next
    case (Read s n)
    obtain ok data d where q: "request D BLK_T_IN s (replicate SECTOR 0) (bd p) = ((ok, data), d)" by (metis surj_pair)
    show thesis
    proof (cases ok)
      case True
      then show thesis using h q Read request_length [of D s "replicate SECTOR 0" "bd p" data d]
        by (intro that [of 0 data]) (auto simp: op_def sector_def serve_op_def blk_ops done_by_def call_finish_def sub sector_sizes(1) split: if_splits)
    next
      case False
      then show thesis using h q Read by (intro that [of 1 "replicate SECTOR 0"]) (auto simp: op_def sector_def serve_op_def blk_ops)
    qed
  next
    case (Write s data)
    then have "length data = SECTOR" "rest = data" using assms(1) by (auto simp: call_check_def rest_def sector_sizes split: if_splits)
    then have bf: "data' = data" using b by simp
    obtain ok x d where q: "request D BLK_T_OUT s data (bd p) = ((ok, x), d)" by (metis surj_pair)
    then show thesis using h Write bf by (intro that [of "if ok then 0 else 1" "[]"]) (auto simp: op_def sector_def serve_op_def blk_ops done_by_def split: if_splits)
  next
    case Shutdown
    then show thesis using h by (intro that [of 0 "[]"]) (auto simp: op_def serve_op_def blk_ops done_by_def)
  qed
qed


section \<open>The invariant\<close>

lemma try_recv_Some:
  assumes "try_recv c ch = (Some m, ch')"
  shows "c < length ch" "queue (ch ! c) = m # queue (ch' ! c)" "length ch' = length ch" "i \<noteq> c \<Longrightarrow> ch' ! i = ch ! i"
  using assms by (auto simp: try_recv_def Let_def split: if_splits list.splits)

lemma try_recv_None: "try_recv c ch = (None, ch') \<Longrightarrow> ch' = ch"
  by (auto simp: try_recv_def Let_def split: if_splits list.splits)

lemma enqueue_Inr:
  assumes "enqueue c from bs ch = (Inr n, ch')"
  shows "map m_bytes (queue (ch' ! c)) = map m_bytes (queue (ch ! c)) @ [bs]" "length ch' = length ch" "i \<noteq> c \<Longrightarrow> ch' ! i = ch ! i"
  using assms by (auto simp: enqueue_def Let_def split: if_splits)

definition tags_ok :: "blk_client \<Rightarrow> (u32 \<times> blk_call) list \<Rightarrow> (u32 \<times> blk_call) list \<Rightarrow> (u32 \<times> blk_call) list \<Rightarrow> bool" where
  "tags_ok c cs st wt \<longleftrightarrow> NEXT_TAG c = of_nat (length cs + 1) \<and> map fst cs = map (\<lambda>i. of_nat (i + 1)) [0..<length cs]
     \<and> (\<forall>x\<in>set cs. call_check (snd x) = Inr ()) \<and> set st \<union> set wt \<subseteq> set cs \<and> (length cs < 2 ^ 32 - 1 \<longrightarrow> distinct (st @ wt))"

definition msg_of :: "u32 \<times> blk_call \<Rightarrow> bytes" where
  "msg_of x = call_msg (snd x) (fst x)"

text \<open>
  The driver handled the first \<open>n\<close> calls that were sent; the others are with it or in its channel; what is in
  the reply channel answers some of the first \<open>n\<close>.
\<close>

definition pipe_ok :: "nat \<Rightarrow> nat \<Rightarrow> blk_device \<Rightarrow> blk_proc \<Rightarrow> channels \<Rightarrow> bytes option \<Rightarrow> blk_proc \<Rightarrow> (u32 \<times> blk_call) list \<Rightarrow> bool" where
  "pipe_ok req rep D p0 ch b p st \<longleftrightarrow> (\<exists>n\<le>length st. map msg_of (drop n st) = (case b of None \<Rightarrow> [] | Some m \<Rightarrow> [m]) @ map m_bytes (queue (ch ! req))
     \<and> p = handled D (take n st) p0
     \<and> (\<forall>m\<in>set (queue (ch ! rep)). \<exists>k<n. fst (handle D (msg_of (st ! k)) (handled D (take k st) p0)) = Some (m_bytes m)))"

definition results_ok :: "blk_device \<Rightarrow> blk_proc \<Rightarrow> nat \<Rightarrow> (u32 \<times> blk_call) list \<Rightarrow> (u32 \<times> blk_call \<times> bytes result) list \<Rightarrow> bool" where
  "results_ok D p0 n st rs \<longleftrightarrow> (n < 2 ^ 32 - 1 \<longrightarrow> (\<forall>t call bs. (t, call, Inr bs) \<in> set rs \<longrightarrow>
     (\<exists>k<length st. st ! k = (t, call) \<and> done_by D call bs (bd (handled D (take k st) p0)))))"

definition blk_inv :: "nat \<Rightarrow> nat \<Rightarrow> blk_device \<Rightarrow> blk_proc \<Rightarrow> blk_world \<Rightarrow> bool" where
  "blk_inv req rep D p0 w \<longleftrightarrow> REQ_CHANNEL (client w) = Some req \<and> REP_CHANNEL (client w) = Some rep \<and> req \<noteq> rep
     \<and> tags_ok (client w) (calls w) (started w) (callers w) \<and> (\<forall>t call dl. flight w = Some (t, call, dl) \<longrightarrow> (t, call) \<in> set (started w))
     \<and> pipe_ok req rep D p0 (bchans w) (busy w) (proc w) (started w) \<and> results_ok D p0 (length (calls w)) (started w) (results w)"

lemma tags_distinct:
  assumes "tags_ok c cs st wt" and "length cs < 2 ^ 32 - 1"
  shows "distinct (map fst cs)" and "NEXT_TAG c \<notin> fst ` set cs"
proof -
  have inj: "(of_nat a :: u32) = of_nat b \<longleftrightarrow> a = b" if "a < 2 ^ 32" "b < 2 ^ 32" for a b using that by (auto simp: word_unat_eq_iff unat_of_nat)
  have m: "map fst cs = map (\<lambda>i. of_nat (i + 1)) [0..<length cs]" and n: "NEXT_TAG c = of_nat (length cs + 1)" using assms(1) by (simp_all add: tags_ok_def)
  show "distinct (map fst cs)" unfolding m using assms(2) by (auto simp: distinct_map inj_on_def inj simp del: of_nat_add of_nat_Suc)
  have "NEXT_TAG c \<notin> set (map fst cs)" unfolding m n using assms(2) by (auto simp: inj simp del: of_nat_add of_nat_Suc)
  then show "NEXT_TAG c \<notin> fst ` set cs" by simp
qed

lemma tags_issue:
  assumes "tags_ok c cs st wt" and "call_check call = Inr ()" and "next_tag c = (tag, c')"
  shows "tags_ok c' (cs @ [(tag, call)]) st (wt @ [(tag, call)])"
proof -
  have c: "tag = NEXT_TAG c" "c' = c\<lparr>NEXT_TAG := NEXT_TAG c + 1\<rparr>" using assms(3) by (auto simp: next_tag_def)
  have "(tag, call) \<notin> set cs" if "length cs < 2 ^ 32 - 1" using tags_distinct(2) [OF assms(1) that] c(1) by force
  then show ?thesis using assms(1,2) unfolding tags_ok_def c by auto
qed

lemma tags_send:
  assumes "tags_ok c cs st wt" and "x \<in> set wt" and "NEXT_TAG c' = NEXT_TAG c"
  shows "tags_ok c' cs (st @ [x]) (remove1 x wt)" and "tags_ok c' cs st (remove1 x wt)"
  using assms set_remove1_subset [of x wt] by (auto simp: tags_ok_def distinct_remove1 dest: in_mono)

lemma results_more:
  assumes "results_ok D p0 n st rs" and "n \<le> n'"
  shows "results_ok D p0 n' (st @ xs) rs"
  unfolding results_ok_def
proof (intro impI allI)
  fix t call bs assume n: "n' < 2 ^ 32 - 1" and r: "(t, call, Inr bs) \<in> set rs"
  then obtain k where k: "k < length st" "st ! k = (t, call)" "done_by D call bs (bd (handled D (take k st) p0))"
    using assms unfolding results_ok_def by (meson le_less_trans)
  then show "\<exists>k<length (st @ xs). (st @ xs) ! k = (t, call) \<and> done_by D call bs (bd (handled D (take k (st @ xs)) p0))"
    by (intro exI [of _ k]) (simp add: nth_append)
qed

lemma pipe_send:
  assumes "pipe_ok req rep D p0 ch b p st" and "map m_bytes (queue (ch' ! req)) = map m_bytes (queue (ch ! req)) @ [msg_of x]" and "ch' ! rep = ch ! rep"
  shows "pipe_ok req rep D p0 ch' b p (st @ [x])"
proof -
  obtain n where n: "n \<le> length st" "map msg_of (drop n st) = (case b of None \<Rightarrow> [] | Some m \<Rightarrow> [m]) @ map m_bytes (queue (ch ! req))" "p = handled D (take n st) p0"
    "\<forall>m\<in>set (queue (ch ! rep)). \<exists>k<n. fst (handle D (msg_of (st ! k)) (handled D (take k st) p0)) = Some (m_bytes m)"
    using assms(1) by (auto simp: pipe_ok_def)
  have same: "(st @ [x]) ! k = st ! k" "take k (st @ [x]) = take k st" if "k < n" for k using that n(1) by (simp_all add: nth_append)
  show ?thesis unfolding pipe_ok_def
  proof (rule exI [of _ n], intro conjI ballI)
    fix m assume "m \<in> set (queue (ch' ! rep))"
    then obtain k where "k < n" "fst (handle D (msg_of (st ! k)) (handled D (take k st) p0)) = Some (m_bytes m)" using n(4) assms(3) by auto
    then show "\<exists>k<n. fst (handle D (msg_of ((st @ [x]) ! k)) (handled D (take k (st @ [x])) p0)) = Some (m_bytes m)" using same by auto
  qed (use n assms(2) in simp_all)
qed

lemma pipe_drop_reply:
  assumes "pipe_ok req rep D p0 ch b p st" and "queue (ch' ! req) = queue (ch ! req)" and "set (queue (ch' ! rep)) \<subseteq> set (queue (ch ! rep))"
  shows "pipe_ok req rep D p0 ch' b p st"
  using assms unfolding pipe_ok_def by (metis in_mono)

lemma pipe_take:
  assumes "pipe_ok req rep D p0 ch None p st" and "queue (ch ! req) = m # queue (ch' ! req)" and "ch' ! rep = ch ! rep"
  shows "pipe_ok req rep D p0 ch' (Some (m_bytes m)) p st"
  using assms unfolding pipe_ok_def by auto

lemma pipe_answer:
  assumes "pipe_ok req rep D p0 ch (Some msg) p st" and "handle D msg p = (Some reply, p')"
    and "map m_bytes (queue (ch' ! rep)) = map m_bytes (queue (ch ! rep)) @ [reply]" and "ch' ! req = ch ! req"
  shows "pipe_ok req rep D p0 ch' None p' st"
proof -
  obtain n where n: "n \<le> length st" "map msg_of (drop n st) = msg # map m_bytes (queue (ch ! req))" "p = handled D (take n st) p0"
    "\<forall>m\<in>set (queue (ch ! rep)). \<exists>k<n. fst (handle D (msg_of (st ! k)) (handled D (take k st) p0)) = Some (m_bytes m)"
    using assms(1) by (auto simp: pipe_ok_def)
  have lt: "n < length st" using n(1,2) by (cases "n = length st") auto
  then have d: "drop n st = st ! n # drop (Suc n) st" by (simp add: Cons_nth_drop_Suc)
  have m: "msg = msg_of (st ! n)" "map msg_of (drop (Suc n) st) = map m_bytes (queue (ch ! req))" using n(2) d by simp_all
  have h: "handled D (take (Suc n) st) p0 = p'" using assms(2) m(1) lt n(3) by (simp add: take_Suc_conv_app_nth handled_def msg_of_def case_prod_beta)
  show ?thesis unfolding pipe_ok_def
  proof (rule exI [of _ "Suc n"], intro conjI ballI)
    fix x assume "x \<in> set (queue (ch' ! rep))"
    then have "m_bytes x \<in> set (map m_bytes (queue (ch ! rep)) @ [reply])" using assms(3) by (metis imageI set_map)
    then consider "m_bytes x = reply" | y where "y \<in> set (queue (ch ! rep))" "m_bytes x = m_bytes y" by auto
    then show "\<exists>k<Suc n. fst (handle D (msg_of (st ! k)) (handled D (take k st) p0)) = Some (m_bytes x)"
    proof cases
      case 1
      then show ?thesis using assms(2) m(1) n(3) by (intro exI [of _ n]) simp
    next
      case (2 y)
      then show ?thesis using n(4) less_SucI by metis
    qed
  qed (use lt m h assms(4) in simp_all)
qed


lemma poll_reply_frame:
  assumes "poll_reply tag dl now ch c = (r, ch', c')" and "REP_CHANNEL c = Some rep" and "req \<noteq> rep"
  shows "queue (ch' ! req) = queue (ch ! req)" "set (queue (ch' ! rep)) \<subseteq> set (queue (ch ! rep))"
    "REQ_CHANNEL c' = REQ_CHANNEL c" "REP_CHANNEL c' = REP_CHANNEL c" "NEXT_TAG c' = NEXT_TAG c"
    "r = Some (Inr bs) \<Longrightarrow> \<exists>m\<in>set (queue (ch ! rep)). m_bytes m = bs \<and> reply_tag bs = tag \<and> hd bs = 0"
proof -
  obtain mo ch1 where t: "try_recv rep ch = (mo, ch1)" by fastforce
  have q: "queue (ch1 ! req) = queue (ch ! req)" "set (queue (ch1 ! rep)) \<subseteq> set (queue (ch ! rep))"
    using try_recv_Some [of rep ch _ ch1] try_recv_None [of rep ch ch1] t assms(3) by (cases mo; fastforce)+
  have ch1: "ch' = ch1" and c: "c' = c \<or> c' = c\<lparr>STALE := STALE c + 1\<rparr>" using assms(1,2) t by (auto simp: poll_reply_def split: option.splits if_splits)
  show "queue (ch' ! req) = queue (ch ! req)" "set (queue (ch' ! rep)) \<subseteq> set (queue (ch ! rep))" using q ch1 by simp_all
  show "REQ_CHANNEL c' = REQ_CHANNEL c" "REP_CHANNEL c' = REP_CHANNEL c" "NEXT_TAG c' = NEXT_TAG c" using c by auto
  assume "r = Some (Inr bs)"
  then obtain m where "mo = Some m" "m_bytes m = bs" "reply_tag bs = tag" "hd bs = 0" using assms(1,2) t by (auto simp: poll_reply_def split: option.splits if_splits)
  then show "\<exists>m\<in>set (queue (ch ! rep)). m_bytes m = bs \<and> reply_tag bs = tag \<and> hd bs = 0" using try_recv_Some(2) [of rep ch m ch1] t by auto
qed

text \<open>The reply that is accepted answers the call that is outstanding.\<close>

lemma accepted_own:
  assumes pipe: "pipe_ok req rep D p0 ch b p st" and m: "m \<in> set (queue (ch ! rep))" "reply_tag (m_bytes m) = tag" "hd (m_bytes m) = 0"
    and tags: "tags_ok c cs st wt" "length cs < 2 ^ 32 - 1" and own: "(tag, call) \<in> set st" and f: "call_finish call (m_bytes m) c1 = (Inr bs, c2)"
  shows "\<exists>k<length st. st ! k = (tag, call) \<and> done_by D call bs (bd (handled D (take k st) p0))"
proof -
  obtain n where n: "n \<le> length st" "\<forall>m\<in>set (queue (ch ! rep)). \<exists>k<n. fst (handle D (msg_of (st ! k)) (handled D (take k st) p0)) = Some (m_bytes m)"
    using pipe unfolding pipe_ok_def by blast
  obtain k where "k < n" and k2: "fst (handle D (msg_of (st ! k)) (handled D (take k st) p0)) = Some (m_bytes m)" using n(2) m(1) by blast
  then have k: "k < length st" "fst (handle D (msg_of (st ! k)) (handled D (take k st) p0)) = Some (m_bytes m)" using n(1) by simp_all
  obtain t' call' where x: "st ! k = (t', call')" by (cases "st ! k")
  have cs: "set st \<subseteq> set cs" "\<forall>x\<in>set cs. call_check (snd x) = Inr ()" using tags(1) by (auto simp: tags_ok_def)
  have in_cs: "(t', call') \<in> set cs" "(tag, call) \<in> set cs" using cs(1) own nth_mem [OF k(1)] x by auto
  obtain r' p' where h: "handle D (call_msg call' t') (handled D (take k st) p0) = (r', p')" by fastforce
  have ok: "call_check call' = Inr ()" using cs(2) in_cs(1) by force
  obtain s body where r: "r' = Some (s # le_bytes 4 t' @ body)"
    and d: "\<And>c bs c'. s = 0 \<Longrightarrow> call_finish call' (s # le_bytes 4 t' @ body) c = (Inr bs, c') \<Longrightarrow> done_by D call' bs (bd (handled D (take k st) p0))"
    by (rule handle_call [OF ok h]) blast
  have bytes: "m_bytes m = s # le_bytes 4 t' @ body" using k(2) h r x by (simp add: msg_of_def)
  then have "reply_tag (m_bytes m) = t'" by (simp add: reply_tag_def sector_sizes subslice_def)
  then have "t' = tag" using m(2) by simp
  then have "call' = call" using in_cs tags_distinct(1) [OF tags] eq_key_imp_eq_value by metis
  then have "done_by D call bs (bd (handled D (take k st) p0))" using d [of c1 bs c2] f m(3) bytes by simp
  then show ?thesis using k(1) x \<open>t' = tag\<close> \<open>call' = call\<close> by blast
qed

lemma results_add:
  assumes "results_ok D p0 n st rs" and "\<And>bs. r = Inr bs \<Longrightarrow> n < 2 ^ 32 - 1 \<Longrightarrow> \<exists>k<length st. st ! k = (t, call) \<and> done_by D call bs (bd (handled D (take k st) p0))"
  shows "results_ok D p0 n st (rs @ [(t, call, r)])"
  using assms by (auto simp: results_ok_def)

lemma call_result_frame: "call_result call r c = (q, c') \<Longrightarrow> REQ_CHANNEL c' = REQ_CHANNEL c \<and> REP_CHANNEL c' = REP_CHANNEL c \<and> NEXT_TAG c' = NEXT_TAG c"
  by (auto simp: call_result_def call_finish_def split: sum.splits blk_call.splits if_splits)

lemma send_request_Inr:
  assumes "send_request msg ch c = (Inr (), ch', c')" and "REQ_CHANNEL c = Some req"
  shows "\<exists>n. enqueue req KERNEL_PID msg ch = (Inr n, ch')" and "REQ_CHANNEL c' = REQ_CHANNEL c \<and> REP_CHANNEL c' = REP_CHANNEL c \<and> NEXT_TAG c' = NEXT_TAG c"
  using assms by (auto simp: send_request_def split: prod.splits sum.splits)

lemma send_request_Inl: "send_request msg ch c = (Inl e, ch', c') \<Longrightarrow> ch' = ch \<and> c' = c"
  by (auto simp: send_request_def enqueue_def Let_def split: option.splits if_splits)

lemma blk_step_inv:
  assumes "blk_inv req rep D p0 w" and "blk_step req rep D pid w w'"
  shows "blk_inv req rep D p0 w'"
proof -
  have C: "REQ_CHANNEL (client w) = Some req" "REP_CHANNEL (client w) = Some rep" "req \<noteq> rep" and T: "tags_ok (client w) (calls w) (started w) (callers w)"
    and F: "\<And>t call dl. flight w = Some (t, call, dl) \<Longrightarrow> (t, call) \<in> set (started w)"
    and P: "pipe_ok req rep D p0 (bchans w) (busy w) (proc w) (started w)" and R: "results_ok D p0 (length (calls w)) (started w) (results w)"
    using assms(1) by (auto simp: blk_inv_def)
  from assms(2) show ?thesis
  proof cases
    case (issue call tag c)
    have "c = (client w)\<lparr>NEXT_TAG := NEXT_TAG (client w) + 1\<rparr>" using issue(3) by (auto simp: next_tag_def)
    then show ?thesis using C F P results_more [OF R, of "length (calls w) + 1" "[]"] tags_issue [OF T issue(2,3)] issue(1) by (simp add: blk_inv_def)
  next
    case (send tag call ch c)
    from send_request_Inr [OF send(4) C(1)] obtain n where e: "enqueue req KERNEL_PID (call_msg call tag) (bchans w) = (Inr n, ch)"
      and c: "REQ_CHANNEL c = REQ_CHANNEL (client w)" "REP_CHANNEL c = REP_CHANNEL (client w)" "NEXT_TAG c = NEXT_TAG (client w)" by auto
    have "pipe_ok req rep D p0 ch (busy w) (proc w) (started w @ [(tag, call)])"
      using P enqueue_Inr [OF e] C(3) by (intro pipe_send) (simp_all add: msg_of_def)
    then show ?thesis using C c results_more [OF R le_refl, of "[(tag, call)]"] tags_send(1) [OF T send(3) c(3)] send(1) by (simp add: blk_inv_def)
  next
    case (send_fails tag call e ch c)
    from send_request_Inl [OF send_fails(4)] show ?thesis
      using C F P tags_send(2) [OF T send_fails(3) refl] results_add [OF R, of "Inl e" tag call] send_fails(1) by (simp add: blk_inv_def)
  next
    case (poll tag call deadline ch c)
    note Q = poll_reply_frame [OF poll(3) C(2,3)]
    show ?thesis using C F T R Q pipe_drop_reply [OF P Q(1,2)] poll(1) by (simp add: blk_inv_def tags_ok_def)
  next
    case (return tag call deadline r ch c q c')
    note Q = poll_reply_frame [OF return(3) C(2,3)] and K = call_result_frame [OF return(4)]
    have "results_ok D p0 (length (calls w)) (started w) (results w @ [(tag, call, q)])"
    proof (rule results_add [OF R])
      fix bs assume q: "q = Inr bs" and n: "length (calls w) < 2 ^ 32 - 1"
      then obtain reply where rr: "r = Inr reply" "call_finish call reply c = (Inr bs, c')" using return(4) by (cases r) (auto simp: call_result_def)
      from Q(6) [of reply] rr(1) obtain m where "m \<in> set (queue (bchans w ! rep))" "m_bytes m = reply" "reply_tag reply = tag" "hd reply = 0" by auto
      then show "\<exists>k<length (started w). started w ! k = (tag, call) \<and> done_by D call bs (bd (handled D (take k (started w)) p0))"
        using accepted_own [OF P _ _ _ T n F [OF return(2)], of m] rr(2) by simp
    qed
    then show ?thesis using C T Q K pipe_drop_reply [OF P Q(1,2)] return(1) by (simp add: blk_inv_def tags_ok_def)
  next
    case tick
    then show ?thesis using assms(1) by (simp add: blk_inv_def)
  next
    case (take m ch)
    note Q = try_recv_Some [OF take(4)]
    show ?thesis using C T F R pipe_take [of req rep D p0 "bchans w" "proc w" "started w" m ch] P Q(2) Q(4) [of rep] take(1,3) by (simp add: blk_inv_def)
  next
    case (answer msg reply p n ch)
    note Q = enqueue_Inr [OF answer(4)]
    have "pipe_ok req rep D p0 ch None p (started w)" using P [unfolded answer(2)] answer(3) Q(1) Q(3) [of req] C(3) by (intro pipe_answer) simp_all
    then show ?thesis using C T F R answer(1) by (simp add: blk_inv_def)
  next
    case (others ch)
    then show ?thesis using C T F R pipe_drop_reply [OF P, of ch] by (simp add: blk_inv_def)
  qed
qed


interpretation blk_run: invariant_of "blk_start req rep d" "blk_step req rep D pid" "blk_inv req rep D (DRV0 d)" for req rep d D pid
proof
  fix w assume "blk_start req rep d w"
  then show "blk_inv req rep D (DRV0 d) w"
    by cases (auto simp: blk_inv_def blk_attach_channels_def CLIENT0_def tags_ok_def pipe_ok_def results_ok_def handled_def)
next
  fix w w' assume "blk_inv req rep D (DRV0 d) w" and "blk_step req rep D pid w w'"
  then show "blk_inv req rep D (DRV0 d) w'" by (rule blk_step_inv)
qed

section \<open>Properties\<close>

text \<open>
  C38: Whatever the device does and however the callers, the driver and the clock are interleaved, as long as
  tags have not come round (\<open>2 ^ 32\<close> calls): no call is sent twice, and a call that returns with an answer
  returns the driver's answer to itself. It was sent as number \<open>k\<close>, and the driver carried it out in the
  state it was in after exactly the \<open>k\<close> calls sent before it, those that were given up on included.
\<close>

theorem blk_answers_own_request:
  assumes "reach (blk_start req rep d) (blk_step req rep D pid) w" and "length (calls w) < 2 ^ 32 - 1" and "(tag, call, Inr bs) \<in> set (results w)"
  shows "distinct (started w) \<and> (\<exists>k<length (started w). started w ! k = (tag, call) \<and> done_by D call bs (bd (handled D (take k (started w)) (DRV0 d))))"
proof -
  have "blk_inv req rep D (DRV0 d) w" by (rule blk_run.inv_reach [OF assms(1)])
  then show ?thesis using assms(2,3) by (auto simp: blk_inv_def tags_ok_def results_ok_def)
qed

text \<open>A device that answers a read at once, and a run in which it is asked for a sector.\<close>

definition demo_blk :: blk_device where
  "demo_blk = \<lparr>dev_mem = \<lambda>_. finish_read (replicate SECTOR 7), dev_irq = \<lambda>_. 0, dev_status = \<lambda>_. 0\<rparr>"

lemma demo_sector_read: obtains d' where "request demo_blk BLK_T_IN 5 (replicate SECTOR 0) demo_drv = ((True, replicate SECTOR 7), d')"
proof -
  have z: "length (replicate SECTOR (0 :: u8)) = SECTOR" by simp
  have q: "dev_quiet demo_drv" by (simp add: dev_quiet_def demo_drv_def used_idx_def mread_def)
  have u: "used_idx (dma (prepare BLK_T_IN 5 (replicate SECTOR 0) demo_drv)) = used_idx (dma demo_drv)" using request_published [OF z refl refl] by blast
  show thesis using request_exact [OF q z, of 0 demo_blk BLK_T_IN 5] finish_read_facts [of "replicate SECTOR 7"] u that by (auto simp: demo_blk_def)
qed

lemma demo_handle: obtains p where "handle demo_blk (call_msg (Read 5 512) 1) (DRV0 demo_drv) = (Some (0 # le_bytes 4 (1 :: u32) @ replicate SECTOR 7), p)"
proof -
  obtain d' where d: "request demo_blk BLK_T_IN 5 (replicate SECTOR 0) demo_drv = ((True, replicate SECTOR 7), d')" by (rule demo_sector_read)
  obtain buf data where h: "handle demo_blk (blk_header OP_READ 1 5 @ []) (DRV0 demo_drv)
      = (case serve_op demo_blk OP_READ (le_bytes 4 (1 :: u32)) 5 data (DRV0 demo_drv\<lparr>reqbuf := buf\<rparr>) of (reply, p) \<Rightarrow> (Some reply, p))"
    by (rule handle_serves [of "[]" demo_blk OP_READ 1 5 "DRV0 demo_drv"]) (simp, blast)
  have b: "bd (DRV0 demo_drv) = demo_drv" by (simp add: DRV0_def)
  show thesis using h d that by (simp add: call_msg_def serve_op_def blk_ops b)
qed

theorem blk_answers_own_request_witness:
  "\<exists>w. reach (blk_start 0 1 demo_drv) (blk_step 0 1 demo_blk 3) w \<and> length (calls w) < 2 ^ 32 - 1 \<and> (1, Read 5 512, Inr (replicate SECTOR 7)) \<in> set (results w)
     \<and> started w = [(1, Read 5 512)] \<and> done_by demo_blk (Read 5 512) (replicate SECTOR 7) demo_drv"
proof -
  let ?e = "\<lparr>queue = [], sent = 0, received = 0\<rparr>" and ?call = "Read 5 512" and ?R = "reach (blk_start 0 1 demo_drv) (blk_step 0 1 demo_blk 3)"
  define c0 where "c0 = blk_attach_channels 0 1 CLIENT0"
  define w0 where "w0 = \<lparr>client = c0, bchans = [?e, ?e], proc = DRV0 demo_drv, busy = None, callers = [], flight = None, clock = 0, calls = [], started = [], results = []\<rparr>"
  define c1 where "c1 = c0\<lparr>NEXT_TAG := 2\<rparr>"
  define w1 where "w1 = w0\<lparr>client := c1, callers := [(1, ?call)], calls := [(1, ?call)]\<rparr>"
  define m where "m = call_msg ?call 1"
  define w2 where "w2 = w1\<lparr>client := c1\<lparr>REQUESTS := 1\<rparr>, bchans := [\<lparr>queue = [\<lparr>from_pid = KERNEL_PID, m_bytes = m\<rparr>], sent = 1, received = 0\<rparr>, ?e], callers := [], started := [(1, ?call)], flight := Some (1, ?call, 800)\<rparr>"
  define w3 where "w3 = w2\<lparr>bchans := [\<lparr>queue = [], sent = 1, received = 1\<rparr>, ?e], busy := Some m\<rparr>"
  obtain p where p: "handle demo_blk m (DRV0 demo_drv) = (Some (0 # le_bytes 4 (1 :: u32) @ replicate SECTOR 7), p)" unfolding m_def by (rule demo_handle)
  define r where "r = 0 # le_bytes 4 (1 :: u32) @ replicate SECTOR (7 :: u8)"
  define w4 where "w4 = w3\<lparr>bchans := [\<lparr>queue = [], sent = 1, received = 1\<rparr>, \<lparr>queue = [\<lparr>from_pid = 3, m_bytes = r\<rparr>], sent = 1, received = 0\<rparr>], busy := None, proc := p\<rparr>"
  define w5 where "w5 = w4\<lparr>bchans := [\<lparr>queue = [], sent = 1, received = 1\<rparr>, \<lparr>queue = [], sent = 1, received = 1\<rparr>], flight := None, results := [(1, ?call, Inr (replicate SECTOR 7))]\<rparr>"
  have "blk_start 0 1 demo_drv w0" unfolding w0_def c0_def by (rule blk_start.intros) simp_all
  then have 0: "?R w0" by (rule reach_init)
  have "blk_step 0 1 demo_blk 3 w0 w1"
    using blk_step.issue [of ?call w0 1 c1 0 1 demo_blk 3] by (simp add: w0_def w1_def c0_def c1_def call_check_def sector_sizes next_tag_def blk_attach_channels_def CLIENT0_def)
  with 0 have 1: "?R w1" by (rule reach_step)
  have "blk_step 0 1 demo_blk 3 w1 w2"
    using blk_step.send [of w1 1 ?call _ _ 0 1 demo_blk 3]
    by (simp add: w0_def w1_def w2_def c0_def c1_def m_def send_request_def enqueue_def blk_attach_channels_def CLIENT0_def REPLY_TIMEOUT_TICKS_def)
  with 1 have 2: "?R w2" by (rule reach_step)
  have "blk_step 0 1 demo_blk 3 w2 w3"
    using blk_step.take [of w2 0 "\<lparr>from_pid = KERNEL_PID, m_bytes = m\<rparr>" _ 1 demo_blk 3] by (simp add: w0_def w1_def w2_def w3_def try_recv_def DRV0_def)
  with 2 have 3: "?R w3" by (rule reach_step)
  have "blk_step 0 1 demo_blk 3 w3 w4"
    using blk_step.answer [of w3 m demo_blk r p 1 3] p by (simp add: w0_def w1_def w2_def w3_def w4_def enqueue_def r_def)
  with 3 have 4: "?R w4" by (rule reach_step)
  have tag: "reply_tag r = 1" "hd r = 0" "r \<noteq> []" "subslice r 5 512 = replicate SECTOR 7" "length r = 517" by (simp_all add: r_def reply_tag_def subslice_def sector_sizes)
  have "blk_step 0 1 demo_blk 3 w4 w5"
    using blk_step.return [of w4 1 ?call 800 "Inr r" "bchans w5" "client w4" "Inr (replicate SECTOR 7)" "client w4" 0 1 demo_blk 3] tag
    by (simp add: w0_def w1_def w2_def w3_def w4_def w5_def c0_def c1_def poll_reply_def try_recv_def blk_attach_channels_def CLIENT0_def call_result_def call_finish_def sector_sizes)
  with 4 have 5: "?R w5" by (rule reach_step)
  have l: "length (calls w5) < 2 ^ 32 - 1" "(1, ?call, Inr (replicate SECTOR 7)) \<in> set (results w5)" "started w5 = [(1, ?call)]"
    by (simp_all add: w5_def w4_def w3_def w2_def w1_def)
  from blk_answers_own_request [OF 5 l(1,2)] l(3) have "done_by demo_blk ?call (replicate SECTOR 7) demo_drv" by (auto simp: handled_def DRV0_def)
  then show ?thesis using 5 l by blast
qed

end
