(* ===== verification/Inputdrv.thy ===== *)
theory Inputdrv
  imports Gpudrv Blkdrv
begin

text \<open>
  The input driver, \<open>user/src/inputdrv.rs\<close>: bringing the virtio device up with all its event buffers
  offered, reading events out of the shared memory, and turning them into messages for the display
  server. Signed 32-bit values are words read with \<open>sint\<close>, so subtraction wraps as in the release build.

  Shown: after attaching every buffer is with the device; an event is read from the buffer the device
  names and that buffer is offered again; and the messages are exactly the positions a reference
  definition gives for the events, each on the screen and read back by the display server as it was meant.
\<close>

section \<open>Constants\<close>

definition INPUT_QUEUE :: nat where "INPUT_QUEUE = 64"
definition INPUT_AVAIL :: nat where "INPUT_AVAIL = 16 * INPUT_QUEUE"
definition INPUT_USED :: nat where "INPUT_USED = 2048"
definition BUF_OFF :: nat where "BUF_OFF = PAGE_SIZE"
definition EVENT_SIZE :: nat where "EVENT_SIZE = 8"
definition CFG_ABS_INFO :: u8 where "CFG_ABS_INFO = 0x12"
definition EV_SYN :: u16 where "EV_SYN = 0"
definition EV_KEY :: u16 where "EV_KEY = 1"
definition EV_ABS :: u16 where "EV_ABS = 3"
definition ABS_X :: u16 where "ABS_X = 0"
definition ABS_Y :: u16 where "ABS_Y = 1"
definition BTN_LEFT :: u16 where "BTN_LEFT = 0x110"
definition BTN_TOUCH :: u16 where "BTN_TOUCH = 0x14a"

lemmas input_layout = INPUT_QUEUE_def INPUT_AVAIL_def INPUT_USED_def BUF_OFF_def EVENT_SIZE_def PAGE_SIZE_def

section \<open>Axes\<close>

record Axis =
  ax_min :: u32
  ax_max :: u32

definition to_screen :: "Axis \<Rightarrow> u32 \<Rightarrow> nat \<Rightarrow> nat" where
  "to_screen a v extent = (let span = max (sint (ax_max a - ax_min a)) 1;
     p = min (max (sint (v - ax_min a)) 0) span in
     nat (p * (int extent - 1) div span))"

text \<open>What the configuration space holds for a selection is an argument.\<close>

definition input_config :: "(u8 \<Rightarrow> u8 \<Rightarrow> bytes) \<Rightarrow> u8 \<Rightarrow> u8 \<Rightarrow> nat \<Rightarrow> nat \<times> bytes" where
  "input_config cfg select subsel out = (let b = cfg select subsel; n = min (length b) out in (length b, take n b @ replicate (out - n) 0))"

definition input_axis :: "(u8 \<Rightarrow> u8 \<Rightarrow> bytes) \<Rightarrow> u8 \<Rightarrow> Axis" where
  "input_axis cfg code = (case input_config cfg CFG_ABS_INFO code 20 of (sz, buf) \<Rightarrow>
     let mn = le_word (subslice buf 0 4); mx = le_word (subslice buf 4 4) in
     if sz \<ge> 8 \<and> sint mx > sint (mn :: u32) then \<lparr>ax_min = mn, ax_max = mx\<rparr> else \<lparr>ax_min = 0, ax_max = 0\<rparr>)"

section \<open>The device\<close>

record Input =
  in_phys :: nat
  in_last_used :: u16
  in_avail :: u16
  x_axis :: Axis
  y_axis :: Axis
  in_events :: nat

record in_drv =
  inp :: Input
  idma :: pmem
  iregs :: reg_writes

definition in_write_desc :: "nat \<Rightarrow> u64 \<Rightarrow> u32 \<Rightarrow> u16 \<Rightarrow> pmem \<Rightarrow> pmem" where
  "in_write_desc i addr len flags m = (let d = i * 16 in
     mwrite (mwrite (mwrite (mwrite m d (le_bytes 8 addr)) (d + 8) (le_bytes 4 len)) (d + 12) (le_bytes 2 flags)) (d + 14) (le_bytes 2 (0 :: u16)))"

definition in_used_idx :: "pmem \<Rightarrow> u16" where
  "in_used_idx m = le_word (mread m (INPUT_USED + 2) 2)"

definition offer :: "nat \<Rightarrow> in_drv \<Rightarrow> in_drv" where
  "offer i s = (let slot = unat (in_avail (inp s)) mod INPUT_QUEUE;
     m = mwrite (idma s) (INPUT_AVAIL + 4 + slot * 2) (le_bytes 2 (of_nat i :: u16));
     d = (inp s)\<lparr>in_avail := in_avail (inp s) + 1\<rparr> in
     s\<lparr>inp := d, idma := mwrite m (INPUT_AVAIL + 2) (le_bytes 2 (in_avail d))\<rparr>)"

text \<open>The last loop of \<open>attach\<close>.\<close>

definition offer_new :: "nat \<Rightarrow> in_drv \<Rightarrow> in_drv" where
  "offer_new i s = offer i (s\<lparr>idma := in_write_desc i (of_nat (in_phys (inp s) + BUF_OFF + i * EVENT_SIZE)) (of_nat EVENT_SIZE) DESC_F_WRITE (idma s)\<rparr>)"

definition input_new :: "nat \<Rightarrow> (u8 \<Rightarrow> u8 \<Rightarrow> bytes) \<Rightarrow> pmem \<Rightarrow> reg_writes \<Rightarrow> in_drv" where
  "input_new p cfg m w =
    \<lparr>inp = \<lparr>in_phys = p, in_last_used = 0, in_avail = 0, x_axis = input_axis cfg (ucast ABS_X), y_axis = input_axis cfg (ucast ABS_Y), in_events = 0\<rparr>,
     idma = mwrite m 0 (replicate (2 * PAGE_SIZE) 0), iregs = w\<rparr>"

definition input_attach :: "int \<Rightarrow> int \<Rightarrow> (reg_writes \<Rightarrow> nat \<Rightarrow> u32) \<Rightarrow> (u8 \<Rightarrow> u8 \<Rightarrow> bytes) \<Rightarrow> pmem \<Rightarrow> in_drv option \<times> reg_writes" where
  "input_attach offset phys rd cfg m =
    (if offset < 0 then (None, [])
     else if phys < 0 then (None, [])
     else if rd [] DEVICE_ID \<noteq> 18 then (None, [])
     else let w = [(STATUS, 0), (STATUS, 1), (STATUS, 3), (DEVICE_FEATURES_SEL, 1)] in
       if rd w DEVICE_FEATURES AND 1 = 0 then (None, w @ [(STATUS, STATUS_FAILED)])
       else let w = w @ [(DRIVER_FEATURES_SEL, 1), (DRIVER_FEATURES, 1), (DRIVER_FEATURES_SEL, 0), (DRIVER_FEATURES, 0), (STATUS, 11)] in
         if rd w STATUS AND STATUS_FEATURES_OK = 0 then (None, w @ [(STATUS, STATUS_FAILED)])
         else let w = w @ [(QUEUE_SEL, 0)] in
           if rd w QUEUE_NUM_MAX < of_nat INPUT_QUEUE then (None, w @ [(STATUS, STATUS_FAILED)])
           else let p = nat phys;
              w = w @ [(QUEUE_NUM, of_nat INPUT_QUEUE), (QUEUE_DESC_LOW, of_nat p), (QUEUE_DESC_HIGH, of_nat (p div 2 ^ 32)),
                   (QUEUE_DRIVER_LOW, of_nat (p + INPUT_AVAIL)), (QUEUE_DRIVER_HIGH, of_nat ((p + INPUT_AVAIL) div 2 ^ 32)),
                   (QUEUE_DEVICE_LOW, of_nat (p + INPUT_USED)), (QUEUE_DEVICE_HIGH, of_nat ((p + INPUT_USED) div 2 ^ 32)),
                   (QUEUE_READY, 1)];
              s = fold offer_new [0..<INPUT_QUEUE] (input_new p cfg m w);
              w = w @ [(STATUS, 15), (QUEUE_NOTIFY, 0)] in
             (Some (s\<lparr>iregs := w\<rparr>), w))"

text \<open>\<open>next_event\<close>, on the memory as the device left it.\<close>

definition input_next :: "in_drv \<Rightarrow> (u16 \<times> u16 \<times> u32) option \<times> in_drv" where
  "input_next s = (if in_used_idx (idma s) = in_last_used (inp s) then (None, s)
     else let slot = unat (in_last_used (inp s)) mod INPUT_QUEUE;
       ident = unat (le_word (mread (idma s) (INPUT_USED + 4 + slot * 8) 4) :: u32) mod INPUT_QUEUE;
       at = BUF_OFF + ident * EVENT_SIZE;
       ev = (le_word (mread (idma s) at 2), le_word (mread (idma s) (at + 2) 2), le_word (mread (idma s) (at + 4) 4));
       s = offer ident (s\<lparr>inp := (inp s)\<lparr>in_last_used := in_last_used (inp s) + 1\<rparr>\<rparr>) in
       (Some ev, s\<lparr>iregs := iregs s @ [(QUEUE_NOTIFY, 0)], inp := (inp s)\<lparr>in_events := in_events (inp s) + 1\<rparr>\<rparr>))"

section \<open>Gestures\<close>

record hand =
  hx :: nat
  hy :: nat
  hdown :: bool
  hdirty :: bool

definition hand0 :: hand where "hand0 = \<lparr>hx = 0, hy = 0, hdown = False, hdirty = False\<rparr>"

definition input_msg :: "nat \<Rightarrow> nat \<Rightarrow> bool \<Rightarrow> bytes" where
  "input_msg x y down = [OP_INPUT, of_nat (x div 256), of_nat x, of_nat (y div 256), of_nat y, if down then 1 else 0]"

text \<open>The \<open>match\<close> in the loop of \<open>run\<close>: the new position, and the message it sends.\<close>

definition event_step :: "Axis \<Rightarrow> Axis \<Rightarrow> u16 \<times> u16 \<times> u32 \<Rightarrow> hand \<Rightarrow> bytes option \<times> hand" where
  "event_step xa ya = (\<lambda>(kind, code, value) h.
     if kind = EV_ABS \<and> code = ABS_X then (None, h\<lparr>hx := to_screen xa value WIDTH, hdirty := True\<rparr>)
     else if kind = EV_ABS \<and> code = ABS_Y then (None, h\<lparr>hy := to_screen ya value HEIGHT, hdirty := True\<rparr>)
     else if kind = EV_KEY \<and> (code = BTN_LEFT \<or> code = BTN_TOUCH) then (None, h\<lparr>hdown := value \<noteq> 0, hdirty := True\<rparr>)
     else if kind = EV_SYN \<and> hdirty h then (Some (input_msg (hx h) (hy h) (hdown h)), h\<lparr>hdirty := False\<rparr>)
     else (None, h))"

text \<open>The messages for a sequence of events, as long as the channel takes them.\<close>

primrec forward :: "Axis \<Rightarrow> Axis \<Rightarrow> (u16 \<times> u16 \<times> u32) list \<Rightarrow> hand \<Rightarrow> bytes list \<times> hand" where
  "forward xa ya [] h = ([], h)"
| "forward xa ya (e # es) h = (case event_step xa ya e h of (m, h) \<Rightarrow>
     case forward xa ya es h of (ms, h) \<Rightarrow> (case m of None \<Rightarrow> ms | Some m \<Rightarrow> m # ms, h))"


section \<open>Positions\<close>

lemma to_screen_bound: "0 < extent \<Longrightarrow> to_screen a v extent < extent"
proof -
  assume e: "0 < extent"
  define span where "span = max (sint (ax_max a - ax_min a)) 1"
  define p where "p = min (max (sint (v - ax_min a)) 0) span"
  have s: "0 < span" "0 \<le> p" "p \<le> span" by (auto simp: span_def p_def)
  have "p * (int extent - 1) \<le> span * (int extent - 1)" using s e by (intro mult_right_mono) auto
  then have "p * (int extent - 1) div span \<le> int extent - 1" using s(1) zdiv_mono1 [of _ "span * (int extent - 1)" span] by fastforce
  then show ?thesis using e by (simp add: to_screen_def Let_def span_def [symmetric] p_def [symmetric])
qed

text \<open>
  The reference: a position is that of the last event for its axis, the button is as the last event for it
  says, and a report is due at the end of a group that had something to say.
\<close>

definition is_x :: "u16 \<times> u16 \<times> u32 \<Rightarrow> bool" where "is_x e \<longleftrightarrow> fst e = EV_ABS \<and> fst (snd e) = ABS_X"
definition is_y :: "u16 \<times> u16 \<times> u32 \<Rightarrow> bool" where "is_y e \<longleftrightarrow> fst e = EV_ABS \<and> fst (snd e) = ABS_Y"
definition is_button :: "u16 \<times> u16 \<times> u32 \<Rightarrow> bool" where "is_button e \<longleftrightarrow> fst e = EV_KEY \<and> (fst (snd e) = BTN_LEFT \<or> fst (snd e) = BTN_TOUCH)"
definition is_end :: "u16 \<times> u16 \<times> u32 \<Rightarrow> bool" where "is_end e \<longleftrightarrow> fst e = EV_SYN"

definition latest :: "('e \<Rightarrow> bool) \<Rightarrow> ('e \<Rightarrow> 'a) \<Rightarrow> 'a \<Rightarrow> 'e list \<Rightarrow> 'a" where
  "latest q f d es = (case filter q (rev es) of [] \<Rightarrow> d | e # _ \<Rightarrow> f e)"

definition news :: "(u16 \<times> u16 \<times> u32) list \<Rightarrow> bool" where
  "news es = list_ex (\<lambda>e. is_x e \<or> is_y e \<or> is_button e) (takeWhile (\<lambda>e. \<not> is_end e) (rev es))"

definition report :: "Axis \<Rightarrow> Axis \<Rightarrow> (u16 \<times> u16 \<times> u32) list \<Rightarrow> bytes" where
  "report xa ya es = input_msg (latest is_x (\<lambda>e. to_screen xa (snd (snd e)) WIDTH) 0 es) (latest is_y (\<lambda>e. to_screen ya (snd (snd e)) HEIGHT) 0 es)
     (latest is_button (\<lambda>e. snd (snd e) \<noteq> 0) False es)"

lemma latest_snoc: "latest q f d (es @ [e]) = (if q e then f e else latest q f d es)"
  by (simp add: latest_def)

lemma news_snoc: "news (es @ [e]) \<longleftrightarrow> \<not> is_end e \<and> (is_x e \<or> is_y e \<or> is_button e \<or> news es)"
  by (simp add: news_def)

lemma events_differ: "\<not> (is_x e \<and> is_y e)" "is_button e \<Longrightarrow> \<not> is_x e \<and> \<not> is_y e" "is_end e \<Longrightarrow> \<not> is_x e \<and> \<not> is_y e \<and> \<not> is_button e"
  by (auto simp: is_x_def is_y_def is_button_def is_end_def EV_ABS_def EV_KEY_def EV_SYN_def ABS_X_def ABS_Y_def)

lemma event_step_cases:
  "event_step xa ya e h = (if is_x e then (None, h\<lparr>hx := to_screen xa (snd (snd e)) WIDTH, hdirty := True\<rparr>)
     else if is_y e then (None, h\<lparr>hy := to_screen ya (snd (snd e)) HEIGHT, hdirty := True\<rparr>)
     else if is_button e then (None, h\<lparr>hdown := snd (snd e) \<noteq> 0, hdirty := True\<rparr>)
     else if is_end e \<and> hdirty h then (Some (input_msg (hx h) (hy h) (hdown h)), h\<lparr>hdirty := False\<rparr>)
     else (None, h))"
  by (cases e) (simp only: event_step_def is_x_def is_y_def is_button_def is_end_def prod.case fst_conv snd_conv)

lemma forward_snoc:
  "forward xa ya (es @ [e]) h = (case forward xa ya es h of (ms, h) \<Rightarrow> case event_step xa ya e h of (m, h) \<Rightarrow> (ms @ (case m of None \<Rightarrow> [] | Some m \<Rightarrow> [m]), h))"
  by (induction es arbitrary: h) (auto split: prod.splits option.splits)

lemma forward_reports:
  "forward xa ya es hand0 = (map (\<lambda>i. report xa ya (take i es)) (filter (\<lambda>i. is_end (es ! i) \<and> news (take i es)) [0..<length es]),
     \<lparr>hx = latest is_x (\<lambda>e. to_screen xa (snd (snd e)) WIDTH) 0 es, hy = latest is_y (\<lambda>e. to_screen ya (snd (snd e)) HEIGHT) 0 es,
      hdown = latest is_button (\<lambda>e. snd (snd e) \<noteq> 0) False es, hdirty = news es\<rparr>)"
proof (induction es rule: rev_induct)
  case Nil
  then show ?case by (simp add: hand0_def latest_def news_def)
next
  case (snoc e es)
  have idx: "filter (\<lambda>i. is_end ((es @ [e]) ! i) \<and> news (take i (es @ [e]))) [0..<length (es @ [e])]
      = filter (\<lambda>i. is_end (es ! i) \<and> news (take i es)) [0..<length es] @ (if is_end e \<and> news es then [length es] else [])"
    by (auto simp: nth_append intro!: filter_cong)
  have same: "map (\<lambda>i. report xa ya (take i (es @ [e]))) (filter P [0..<length es]) = map (\<lambda>i. report xa ya (take i es)) (filter P [0..<length es])" for P
    by (rule map_cong) auto
  show ?case unfolding idx map_append same forward_snoc snoc.IH
    using events_differ [of e] by (auto simp: event_step_cases latest_snoc news_snoc report_def)
qed

lemma input_msg_fields:
  assumes "x < 65536" and "y < 65536"
  shows "be16 (input_msg x y d) 1 = Some x" "be16 (input_msg x y d) 3 = Some y" "rd8 (input_msg x y d) 5 = Some (if d then 1 else 0)"
  using assms by (simp_all add: input_msg_def be16_def rd8_def unat_of_nat)

lemma latest_bound: "d < n \<Longrightarrow> (\<And>e. f e < n) \<Longrightarrow> latest q f d es < (n :: nat)"
  by (simp add: latest_def split: list.splits)


section \<open>The ring of buffers\<close>

lemma offer_ring:
  assumes "i < 65536" and "s' = offer i s"
  shows "le_word (mread (idma s') (INPUT_AVAIL + 4 + unat (in_avail (inp s)) mod INPUT_QUEUE * 2) 2) = (of_nat i :: u16)"
    "le_word (mread (idma s') (INPUT_AVAIL + 2) 2) = in_avail (inp s) + 1" "in_avail (inp s') = in_avail (inp s) + 1"
    "x < INPUT_AVAIL + 2 \<or> INPUT_AVAIL + 4 + 2 * INPUT_QUEUE \<le> x \<Longrightarrow> idma s' x = idma s x"
    "k < INPUT_QUEUE \<Longrightarrow> k \<noteq> unat (in_avail (inp s)) mod INPUT_QUEUE \<Longrightarrow> mread (idma s') (INPUT_AVAIL + 4 + k * 2) 2 = mread (idma s) (INPUT_AVAIL + 4 + k * 2) 2"
proof -
  define slot where "slot = unat (in_avail (inp s)) mod INPUT_QUEUE"
  have sl: "slot < 64" by (simp add: slot_def INPUT_QUEUE_def)
  have m: "idma s' = mwrite (mwrite (idma s) (INPUT_AVAIL + 4 + slot * 2) (le_bytes 2 (of_nat i :: u16))) (INPUT_AVAIL + 2) (le_bytes 2 (in_avail (inp s) + 1))"
    by (simp add: assms(2) offer_def Let_def slot_def)
  show "le_word (mread (idma s') (INPUT_AVAIL + 4 + unat (in_avail (inp s)) mod INPUT_QUEUE * 2) 2) = (of_nat i :: u16)"
    unfolding m slot_def [symmetric] by (simp add: mread_other)
  show "le_word (mread (idma s') (INPUT_AVAIL + 2) 2) = in_avail (inp s) + 1" unfolding m by simp
  show "in_avail (inp s') = in_avail (inp s) + 1" by (simp add: assms(2) offer_def Let_def)
  show "idma s' x = idma s x" if "x < INPUT_AVAIL + 2 \<or> INPUT_AVAIL + 4 + 2 * INPUT_QUEUE \<le> x"
    using that sl unfolding m by (auto simp: mwrite_at INPUT_QUEUE_def)
  show "mread (idma s') (INPUT_AVAIL + 4 + k * 2) 2 = mread (idma s) (INPUT_AVAIL + 4 + k * 2) 2" if "k < INPUT_QUEUE" "k \<noteq> unat (in_avail (inp s)) mod INPUT_QUEUE"
    using that sl unfolding m slot_def [symmetric] by (cases k slot rule: linorder_cases) (simp_all add: mread_other)
qed

text \<open>
  An event is read from the buffer the device's ring names, and the buffer goes back to the device in the next
  place of the available ring; a second look without news changes nothing.
\<close>

theorem input_next_exact:
  assumes "s' = snd (input_next s)" and "in_used_idx (idma s) \<noteq> in_last_used (inp s)"
    and "ident = unat (le_word (mread (idma s) (INPUT_USED + 4 + unat (in_last_used (inp s)) mod INPUT_QUEUE * 8) 4) :: u32) mod INPUT_QUEUE"
  shows "fst (input_next s) = Some (le_word (mread (idma s) (BUF_OFF + ident * 8) 2), le_word (mread (idma s) (BUF_OFF + ident * 8 + 2) 2), le_word (mread (idma s) (BUF_OFF + ident * 8 + 4) 4))
    \<and> le_word (mread (idma s') (INPUT_AVAIL + 4 + unat (in_avail (inp s)) mod INPUT_QUEUE * 2) 2) = (of_nat ident :: u16)
    \<and> in_avail (inp s') = in_avail (inp s) + 1 \<and> in_last_used (inp s') = in_last_used (inp s) + 1 \<and> in_events (inp s') = in_events (inp s) + 1"
proof -
  let ?s = "s\<lparr>inp := (inp s)\<lparr>in_last_used := in_last_used (inp s) + 1\<rparr>\<rparr>"
  have "ident < 64" using assms(3) by (simp add: INPUT_QUEUE_def)
  then have i: "ident < 65536" by simp
  note O = offer_ring [OF i refl, where s = ?s]
  have o: "in_last_used (inp (offer ident ?s)) = in_last_used (inp s) + 1" "in_events (inp (offer ident ?s)) = in_events (inp s)" by (simp_all add: offer_def Let_def)
  show ?thesis using assms(1,2) O(1,3) o by (simp add: input_next_def Let_def assms(3) [symmetric] EVENT_SIZE_def)
qed

text \<open>Attaching: every buffer has its descriptor and is in the available ring.\<close>

definition offered :: "nat \<Rightarrow> nat \<Rightarrow> in_drv \<Rightarrow> bool" where
  "offered p n s \<longleftrightarrow> in_phys (inp s) = p \<and> in_avail (inp s) = of_nat n \<and> (\<forall>k<n. le_word (mread (idma s) (INPUT_AVAIL + 4 + k * 2) 2) = (of_nat k :: u16)
     \<and> mread (idma s) (k * 16) 14 = le_bytes 8 (of_nat (p + BUF_OFF + k * EVENT_SIZE) :: u64) @ le_bytes 4 (8 :: u32) @ le_bytes 2 DESC_F_WRITE)"

lemma mread_append: "mread m a (n + k) = mread m a n @ mread m (a + n) k"
  by (simp add: mread_def upt_add_eq_append [of a "a + n" k, simplified add.assoc] add.assoc)

lemma mread_same: "(\<And>x. a \<le> x \<Longrightarrow> x < a + n \<Longrightarrow> m' x = m x) \<Longrightarrow> mread m' a n = mread m a n"
  by (simp add: mread_def)

lemma in_write_desc_at:
  "mread (in_write_desc i addr len flags m) (i * 16) 14 = le_bytes 8 addr @ le_bytes 4 len @ le_bytes 2 flags"
  "x < i * 16 \<or> i * 16 + 16 \<le> x \<Longrightarrow> in_write_desc i addr len flags m x = m x"
proof -
  let ?m = "in_write_desc i addr len flags m"
  have "mread ?m (i * 16) 8 = le_bytes 8 addr" "mread ?m (i * 16 + 8) 4 = le_bytes 4 len" "mread ?m (i * 16 + 12) 2 = le_bytes 2 flags"
    by (simp_all add: in_write_desc_def Let_def mread_other)
  then show "mread ?m (i * 16) 14 = le_bytes 8 addr @ le_bytes 4 len @ le_bytes 2 flags"
    using mread_append [of ?m "i * 16" 8 6] mread_append [of ?m "i * 16 + 8" 4 2] by (simp add: add.commute)
qed (auto simp: in_write_desc_def Let_def mwrite_at)

lemma offered_step:
  assumes "offered p n s" and "n < INPUT_QUEUE"
  shows "offered p (Suc n) (offer_new n s)"
proof -
  define s1 where "s1 = s\<lparr>idma := in_write_desc n (of_nat (in_phys (inp s) + BUF_OFF + n * EVENT_SIZE)) (of_nat EVENT_SIZE) DESC_F_WRITE (idma s)\<rparr>"
  have n: "n < 64" "n < 65536" using assms(2) by (simp_all add: INPUT_QUEUE_def)
  note O = offer_ring [OF n(2) refl, where s = s1]
  have av: "in_avail (inp s1) = of_nat n" "in_phys (inp s) = p" using assms(1) by (simp_all add: s1_def offered_def)
  have slot: "unat (in_avail (inp s1)) mod INPUT_QUEUE = n" using n av(1) by (simp add: unat_of_nat INPUT_QUEUE_def)
  note W = in_write_desc_at(1) [of n "of_nat (p + BUF_OFF + n * EVENT_SIZE)" "of_nat EVENT_SIZE" DESC_F_WRITE "idma s"]
  have low: "mread (idma (offer n s1)) (k * 16) 14 = mread (idma s1) (k * 16) 14" if "k \<le> n" for k
    using that n(1) by (intro mread_same O(4)) (simp add: INPUT_AVAIL_def INPUT_QUEUE_def)
  have "le_word (mread (idma (offer n s1)) (INPUT_AVAIL + 4 + k * 2) 2) = (of_nat k :: u16)
      \<and> mread (idma (offer n s1)) (k * 16) 14 = le_bytes 8 (of_nat (p + BUF_OFF + k * EVENT_SIZE) :: u64) @ le_bytes 4 (8 :: u32) @ le_bytes 2 DESC_F_WRITE" if k: "k < Suc n" for k
  proof (cases "k = n")
    case True
    then show ?thesis using O(1) slot low [of n] W av(2) by (simp add: s1_def EVENT_SIZE_def)
  next
    case False
    then have lt: "k < n" using k by simp
    have "mread (idma s1) (INPUT_AVAIL + 4 + k * 2) 2 = mread (idma s) (INPUT_AVAIL + 4 + k * 2) 2" "mread (idma s1) (k * 16) 14 = mread (idma s) (k * 16) 14"
      using lt n(1) by (auto simp: s1_def INPUT_AVAIL_def INPUT_QUEUE_def intro!: mread_same in_write_desc_at(2))
    then show ?thesis using O(5) [of k] slot lt n(1) low [of k] assms(1) by (simp add: offered_def INPUT_QUEUE_def)
  qed
  moreover have "in_phys (inp (offer n s1)) = p" using av(2) by (simp add: offer_def Let_def s1_def)
  moreover have "in_avail (inp (offer n s1)) = of_nat (Suc n)" using O(3) av(1) by simp
  ultimately show ?thesis unfolding offered_def offer_new_def s1_def [symmetric] by blast
qed

theorem attach_offers_all:
  assumes "input_attach offset phys rd cfg m = (Some s, w)"
  shows "offered (nat phys) INPUT_QUEUE s"
proof -
  have "\<exists>w0 r. s = (fold offer_new [0..<INPUT_QUEUE] (input_new (nat phys) cfg m w0))\<lparr>iregs := r\<rparr>"
    using assms unfolding input_attach_def Let_def by (auto split: if_splits)
  then obtain w0 r where s: "s = (fold offer_new [0..<INPUT_QUEUE] (input_new (nat phys) cfg m w0))\<lparr>iregs := r\<rparr>" by blast
  define s0 where "s0 = input_new (nat phys) cfg m w0"
  have "offered (nat phys) n (fold offer_new [0..<n] s0)" if "n \<le> INPUT_QUEUE" for n
    using that
  proof (induction n)
    case 0
    then show ?case by (simp add: offered_def s0_def input_new_def)
  next
    case (Suc n)
    then show ?case using offered_step by simp
  qed
  then have "offered (nat phys) INPUT_QUEUE (fold offer_new [0..<INPUT_QUEUE] s0)" by simp
  then show ?thesis by (simp add: s offered_def s0_def)
qed

section \<open>Properties\<close>

text \<open>
  C40: Whatever events the device produces, the messages sent are exactly the reports the reference
  definition gives: one for each end of a group in which a position or the button changed, with the last
  position and button before it. Whatever ranges the device claims for its axes, each report is on the screen,
  and the display server reads from the message the position and button that were meant.
\<close>

theorem input_reports_exact:
  "forward xa ya es hand0 = (map (\<lambda>i. report xa ya (take i es)) (filter (\<lambda>i. is_end (es ! i) \<and> news (take i es)) [0..<length es]), snd (forward xa ya es hand0))
   \<and> (\<exists>x y d. report xa ya es = input_msg x y d \<and> x < WIDTH \<and> y < HEIGHT
        \<and> be16 (report xa ya es) 1 = Some x \<and> be16 (report xa ya es) 3 = Some y \<and> rd8 (report xa ya es) 5 = Some (if d then 1 else 0))"
proof -
  define x where "x = latest is_x (\<lambda>e. to_screen xa (snd (snd e)) WIDTH) 0 es"
  define y where "y = latest is_y (\<lambda>e. to_screen ya (snd (snd e)) HEIGHT) 0 es"
  define d where "d = latest is_button (\<lambda>e. snd (snd e) \<noteq> 0) False es"
  have b: "x < WIDTH" "y < HEIGHT" unfolding x_def y_def by (intro latest_bound to_screen_bound; simp add: WIDTH_def HEIGHT_def)+
  then have "x < 65536" "y < 65536" by (simp_all add: WIDTH_def HEIGHT_def)
  note F = input_msg_fields [OF this, of d]
  have "report xa ya es = input_msg x y d" by (simp add: report_def x_def y_def d_def)
  then show ?thesis using b F by (auto simp: forward_reports [of xa ya es])
qed

end
