(* ===== verification/Display.thy ===== *)
theory Display
  imports Gpudrv Ipc
begin

text \<open>
  The kernel's side of the display, \<open>kernel/src/display.rs\<close>: a frame is built out of drawing commands that are
  collected and sent in batches. Sending a batch and waiting for the answer is \<open>round_trip\<close>, given here as
  its start and one turn of its loop; in a frame, what it was given is recorded, and whether it was
  answered is an argument.

  Shown: batches hold whole commands in the order they were drawn, none is longer than the server's
  buffer, and the server takes every one of them as the command it was.
\<close>

section \<open>Frames\<close>

definition BATCH_LIMIT :: nat where "BATCH_LIMIT = 3600"

record Frame =
  f_ops :: bytes
  f_sent :: "bytes list"
  FRAMES :: nat

definition Frame_new :: "nat \<Rightarrow> Frame" where
  "Frame_new n = \<lparr>f_ops = [], f_sent = [], FRAMES = n\<rparr>"

definition room_for :: "nat \<Rightarrow> Frame \<Rightarrow> Frame" where
  "room_for n f = (if length (f_ops f) + n > BATCH_LIMIT then f\<lparr>f_ops := [], f_sent := f_sent f @ [f_ops f]\<rparr> else f)"

definition frame_push :: "bytes \<Rightarrow> Frame \<Rightarrow> Frame" where
  "frame_push bs f = f\<lparr>f_ops := f_ops f @ bs\<rparr>"

definition frame_clear :: "u32 \<Rightarrow> Frame \<Rightarrow> Frame" where
  "frame_clear color f = frame_push (OP_CLEAR # le_bytes 4 color) (room_for 5 f)"

definition frame_rect :: "u16 \<Rightarrow> u16 \<Rightarrow> u16 \<Rightarrow> u16 \<Rightarrow> u32 \<Rightarrow> Frame \<Rightarrow> Frame" where
  "frame_rect x y w h color f = frame_push (OP_RECT # be_bytes 2 x @ be_bytes 2 y @ be_bytes 2 w @ be_bytes 2 h @ le_bytes 4 color) (room_for 13 f)"

definition frame_text :: "u16 \<Rightarrow> u16 \<Rightarrow> u8 \<Rightarrow> u32 \<Rightarrow> bytes \<Rightarrow> Frame \<Rightarrow> Frame" where
  "frame_text x y scale color s f = (let len = min (length s) 200 in
     frame_push (OP_TEXT # be_bytes 2 x @ be_bytes 2 y @ le_bytes 4 color @ [scale, of_nat len] @ take len s) (room_for (11 + len) f))"

definition frame_present :: "bool \<Rightarrow> Frame \<Rightarrow> bool \<times> Frame" where
  "frame_present answered f = (let f = frame_push [OP_PRESENT] (room_for 1 f); f = f\<lparr>f_ops := [], f_sent := f_sent f @ [f_ops f]\<rparr> in
     (answered, if answered then f\<lparr>FRAMES := FRAMES f + 1\<rparr> else f))"

text \<open>The other messages: introducing a client, compositing, statistics, shutdown.\<close>

definition introduce_msg :: "nat \<Rightarrow> bytes" where
  "introduce_msg pid = OP_CLIENT # le_bytes 4 (of_nat pid :: u32)"

record ServerStats =
  st_frames :: nat
  st_routed :: nat
  st_nothing :: nat
  st_rejected :: nat
  st_windows :: nat

definition server_stats :: "bytes option \<Rightarrow> ServerStats option" where
  "server_stats reply = Option.bind reply (\<lambda>r. if length r < 7 then None
     else Some \<lparr>st_frames = unat (r ! 1), st_routed = unat (r ! 2), st_nothing = unat (r ! 3), st_rejected = unat (r ! 4), st_windows = unat (r ! 6)\<rparr>)"

text \<open>\<open>round_trip_reply\<close>: up to its loop, and one turn of it. Replies carry no tag.\<close>

definition display_send :: "nat option \<Rightarrow> bytes \<Rightarrow> channels \<Rightarrow> bool \<times> channels" where
  "display_send req ops ch = (case req of
     None \<Rightarrow> (False, ch)
   | Some r \<Rightarrow> if ops = [] then (False, ch)
       else (case enqueue r (2 ^ 64 - 1) ops ch of (Inl _, ch) \<Rightarrow> (False, ch) | (Inr _, ch) \<Rightarrow> (True, ch)))"

definition display_poll :: "nat \<Rightarrow> nat \<Rightarrow> nat \<Rightarrow> channels \<Rightarrow> bytes option option \<times> channels" where
  "display_poll rep deadline now ch = (case try_recv rep ch of
     (Some m, ch) \<Rightarrow> (Some (Some (m_bytes m)), ch)
   | (None, ch) \<Rightarrow> if now > deadline then (Some None, ch) else (None, ch))"

section \<open>Drawing\<close>

datatype drawing = Clear u32 | Box u16 u16 u16 u16 u32 | Words u16 u16 u8 u32 bytes

definition draw :: "drawing \<Rightarrow> Frame \<Rightarrow> Frame" where
  "draw d = (case d of Clear c \<Rightarrow> frame_clear c | Box x y w h c \<Rightarrow> frame_rect x y w h c | Words x y sc c s \<Rightarrow> frame_text x y sc c s)"

definition encode :: "drawing \<Rightarrow> bytes" where
  "encode d = (case d of
     Clear c \<Rightarrow> OP_CLEAR # le_bytes 4 c
   | Box x y w h c \<Rightarrow> OP_RECT # be_bytes 2 x @ be_bytes 2 y @ be_bytes 2 w @ be_bytes 2 h @ le_bytes 4 c
   | Words x y sc c s \<Rightarrow> let len = min (length s) 200 in OP_TEXT # be_bytes 2 x @ be_bytes 2 y @ le_bytes 4 c @ [sc, of_nat len] @ take len s)"

lemma encode_length: "0 < length (encode d)" "length (encode d) \<le> 211"
  by (cases d; simp add: encode_def Let_def)+

lemma draw_encode: "draw d f = frame_push (encode d) (room_for (length (encode d)) f)"
  by (cases d) (simp_all add: draw_def encode_def frame_clear_def frame_rect_def frame_text_def Let_def min_def)

lemma encode_whole: "whole (encode d)"
proof (cases d)
  case (Words x y sc c s)
  let ?len = "min (length s) 200"
  have n: "encode d ! 10 = of_nat ?len" "length (encode d) = 11 + ?len" by (simp_all add: Words encode_def Let_def nth_append)
  have "unat (of_nat ?len :: u8) = ?len" by (simp add: unat_of_nat)
  then show ?thesis using n by (simp add: whole_def) (simp add: Words encode_def Let_def)
qed (simp_all add: whole_def encode_def)

text \<open>The commands \<open>ds\<close> so far, in batches that were sent and one that is being filled.\<close>

definition batched :: "drawing list \<Rightarrow> Frame \<Rightarrow> bool" where
  "batched ds f \<longleftrightarrow> (\<exists>css cs. concat css @ cs = map encode ds \<and> f_sent f = map concat css \<and> f_ops f = concat cs
     \<and> length (concat cs) \<le> BATCH_LIMIT \<and> (\<forall>c\<in>set css. concat c \<noteq> [] \<and> length (concat c) \<le> BATCH_LIMIT))"

lemma batched_room:
  assumes "batched ds f" and "n \<le> BATCH_LIMIT"
  shows "batched ds (room_for n f)" and "length (f_ops (room_for n f)) + n \<le> BATCH_LIMIT"
proof -
  obtain css cs where b: "concat css @ cs = map encode ds" "f_sent f = map concat css" "f_ops f = concat cs" "length (concat cs) \<le> BATCH_LIMIT"
    "\<forall>c\<in>set css. concat c \<noteq> [] \<and> length (concat c) \<le> BATCH_LIMIT" using assms(1) by (auto simp: batched_def)
  show "batched ds (room_for n f)"
  proof (cases "length (f_ops f) + n > BATCH_LIMIT")
    case True
    then have "0 < length (concat cs)" unfolding b(3) using assms(2) by linarith
    then have "concat cs \<noteq> []" by blast
    then show ?thesis using True b unfolding batched_def by (intro exI [of _ "css @ [cs]"] exI [of _ "[]"]) (simp add: room_for_def)
  qed (use assms(1) in \<open>simp add: room_for_def\<close>)
  show "length (f_ops (room_for n f)) + n \<le> BATCH_LIMIT" using assms(2) by (simp add: room_for_def)
qed

lemma batched_draw: "batched ds f \<Longrightarrow> batched (ds @ [d]) (draw d f)"
proof -
  assume f: "batched ds f"
  let ?n = "length (encode d)"
  have n: "?n \<le> BATCH_LIMIT" using encode_length(2) [of d] by (simp add: BATCH_LIMIT_def)
  note R = batched_room [OF f n]
  obtain css cs where b: "concat css @ cs = map encode ds" "f_sent (room_for ?n f) = map concat css" "f_ops (room_for ?n f) = concat cs"
    "\<forall>c\<in>set css. concat c \<noteq> [] \<and> length (concat c) \<le> BATCH_LIMIT" using R(1) by (auto simp: batched_def)
  have "length (concat (cs @ [encode d])) \<le> BATCH_LIMIT" using R(2) b(3) by simp
  then show ?thesis using b unfolding batched_def by (intro exI [of _ css] exI [of _ "cs @ [encode d]"]) (simp add: draw_encode frame_push_def)
qed

lemma batched_all: "batched ds (fold draw ds (Frame_new n))"
proof (induction ds rule: rev_induct)
  case Nil
  show ?case unfolding batched_def by (intro exI [of _ "[]"]) (simp add: Frame_new_def)
qed (simp add: batched_draw)

section \<open>What the server makes of a batch\<close>

definition kernel_draw :: "bytes \<Rightarrow> 'h server \<Rightarrow> 'h server" where
  "kernel_draw c s = (if c ! 0 = OP_CLEAR then let s = root_append c (root_reset s) in s\<lparr>wins := dirty_all (wins s)\<rparr>
     else if c ! 0 = OP_RECT then let s = root_append c s in s\<lparr>wins := dirty \<lparr>rect_x = w16 c 1, rect_y = w16 c 3, rect_w = w16 c 5, rect_h = w16 c 7\<rparr> (wins s)\<rparr>
     else let s = root_append c s; scale = max (unat (c ! 9)) 1 in
       s\<lparr>wins := dirty \<lparr>rect_x = w16 c 1, rect_y = w16 c 3, rect_w = unat (c ! 10) * 8 * scale, rect_h = 8 * scale\<rparr> (wins s)\<rparr>)"

lemma kernel_draw_buffer [simp]: "msgbuf (kernel_draw c s) = msgbuf s"
  by (simp add: kernel_draw_def Let_def root_append_def root_reset_def)

lemma server_op_whole:
  assumes c: "whole c" and s: "subslice (msgbuf s) i (length c) = c" and n: "i + length c \<le> length (msgbuf s)"
  shows "server_op wd KERNEL i s = Some (Next (i + length c), kernel_draw c s)"
proof -
  note F = fields_at [OF s n]
  have r: "rd8 (msgbuf s) i = Some (c ! 0)" using F(1) [of 0] c by (auto simp: whole_def)
  have sl: "slice (msgbuf s) i (length c) = Some c" using s n by (simp add: slice_def)
  consider "c ! 0 = OP_CLEAR" "length c = 5" | "c ! 0 = OP_RECT" "length c = 13" | "c ! 0 = OP_TEXT" "11 \<le> length c" "length c = 11 + unat (c ! 10)"
    using c by (auto simp: whole_def)
  then show ?thesis
  proof cases
    case 1
    then show ?thesis using r sl by (simp add: server_op_def kernel_op_def kernel_draw_def opcodes Let_def)
  next
    case 2
    have "rect_at (msgbuf s) (i + 1) = Some \<lparr>rect_x = w16 c 1, rect_y = w16 c 3, rect_w = w16 c 5, rect_h = w16 c 7\<rparr>"
      using F(5) [of 1] 2 by (simp add: numeral_eq_Suc)
    then show ?thesis using 2 r sl by (simp add: server_op_def kernel_op_def kernel_draw_def opcodes Let_def)
  next
    case 3
    then show ?thesis using r sl F(2) [of 1] F(2) [of 3] F(1) [of 9] F(1) [of 10]
      by (simp add: server_op_def kernel_op_def kernel_draw_def opcodes Let_def add.assoc)
  qed
qed

lemma server_loop_whole:
  assumes "list_all whole cs" and "subslice (msgbuf s) i (length (concat cs)) = concat cs" and "i + length (concat cs) \<le> n" and "n \<le> length (msgbuf s)"
  shows "server_loop wd KERNEL n i s = server_loop wd KERNEL n (i + length (concat cs)) (fold kernel_draw cs s)"
  using assms
proof (induction cs arbitrary: i s)
  case (Cons c cs)
  have w: "whole c" "c \<noteq> []" using Cons.prems(1) by (auto simp: whole_def)
  have "take (length c) (subslice (msgbuf s) i (length (concat (c # cs)))) = take (length c) (concat (c # cs))"
    "drop (length c) (subslice (msgbuf s) i (length (concat (c # cs)))) = drop (length c) (concat (c # cs))" using Cons.prems(2) by simp_all
  then have sub: "subslice (msgbuf s) i (length c) = c" and rest: "subslice (msgbuf s) (i + length c) (length (concat cs)) = concat cs"
    by (simp_all add: subslice_def min_def drop_take add.commute)
  have "server_op wd KERNEL i s = Some (Next (i + length c), kernel_draw c s)" by (rule server_op_whole [OF w(1) sub]) (use Cons.prems in simp)
  moreover have "i < n" using Cons.prems(3) w(2) by (cases c) simp_all
  moreover have "server_loop wd KERNEL n (i + length c) (kernel_draw c s) = server_loop wd KERNEL n (i + length c + length (concat cs)) (fold kernel_draw cs (kernel_draw c s))"
    by (rule Cons.IH) (use Cons.prems rest in auto)
  ultimately show ?case by (subst server_loop.simps) (simp add: add.assoc)
qed simp

text \<open>
  However much is drawn, the batches a frame sends are its commands in order and nothing else, cut between
  commands, each short enough for the server's buffer; and the server, given such commands at the start
  of its buffer, carries out exactly these before it looks at what follows.
\<close>

theorem frame_reaches_server:
  assumes "f = snd (frame_present answered (fold draw ds (Frame_new n)))"
  shows "\<exists>css. concat css = map encode ds \<and> css \<noteq> [] \<and> f_sent f = map concat (butlast css) @ [concat (last css) @ [OP_PRESENT]]
    \<and> (\<forall>b\<in>set (f_sent f). b \<noteq> [] \<and> length b \<le> MSG_BUF)
    \<and> (\<forall>cs\<in>set css. \<forall>wd (s :: 'h server) k. length (msgbuf s) = MSG_BUF \<and> take (length (concat cs)) (msgbuf s) = concat cs \<and> length (concat cs) \<le> k \<and> k \<le> MSG_BUF \<longrightarrow>
         server_loop wd KERNEL k 0 s = server_loop wd KERNEL k (length (concat cs)) (fold kernel_draw cs s))"
proof -
  define g where "g = room_for 1 (fold draw ds (Frame_new n))"
  have lim: "1 \<le> BATCH_LIMIT" by (simp add: BATCH_LIMIT_def)
  note R = batched_room [OF batched_all [of ds n] lim, folded g_def]
  obtain css cs where b: "concat css @ cs = map encode ds" "f_sent g = map concat css" "f_ops g = concat cs"
    "\<forall>c\<in>set css. concat c \<noteq> [] \<and> length (concat c) \<le> BATCH_LIMIT" using R(1) by (auto simp: batched_def)
  have sent: "f_sent f = map concat css @ [concat cs @ [OP_PRESENT]]"
    using b(2,3) unfolding assms frame_present_def g_def [symmetric] by (simp add: frame_push_def Let_def)
  have small: "BATCH_LIMIT \<le> MSG_BUF" by (simp add: BATCH_LIMIT_def MSG_BUF_def)
  have "\<forall>x\<in>set (f_sent f). x \<noteq> [] \<and> length x \<le> MSG_BUF" using b(3,4) R(2) small unfolding sent by (auto intro: order_trans)
  moreover have "list_all whole c" if "c \<in> set (css @ [cs])" for c
  proof -
    have "set c \<subseteq> set (map encode ds)" using that unfolding b(1) [symmetric] by auto
    then show ?thesis using encode_whole by (auto simp: list_all_iff)
  qed
  then have "server_loop wd KERNEL k 0 s = server_loop wd KERNEL k (length (concat c)) (fold kernel_draw c s)"
    if "c \<in> set (css @ [cs])" "length (msgbuf s) = MSG_BUF" "take (length (concat c)) (msgbuf s) = concat c" "length (concat c) \<le> k" "k \<le> MSG_BUF" for c wd k and s :: "'h server"
    using server_loop_whole [of c s 0 k wd] that by (simp add: subslice_def)
  ultimately show ?thesis using b(1) sent by (intro exI [of _ "css @ [cs]"]) auto
qed

end
