(* ===== verification/Spec2Isabelle.thy ===== *)
theory Spec2Isabelle
  imports Intent Action_Log Ota Cap Heap Sync Sched Ipc Paging Tensor Elf Proc Time Irq Syscall Isolation Compose Weights Dtb Kv_Inv Blk Inputdrv Display
begin

text \<open>
  A verification development of jungey-os: an AArch64 kernel with capabilities, a log-structured file
  system, A/B updates and kernel support for running models, and its drivers in user space. Sources are
  named below \<open>src/\<close>; every theory opens with what it models and shows.

  \<^bold>\<open>The program and its theories.\<close>

  \<^item> \<^bold>\<open>Foundations.\<close> \<open>Prelude\<close> (integers at the width of the source, results, slices, reachable states and the
    interface \<open>invariant_of\<close>), \<open>Bytes\<close> (little and big endian, UTF-8).

  \<^item> \<^bold>\<open>Storage.\<close> \<open>Sector\<close>, \<open>Fs\<close>, \<open>Fs_Crash\<close>: \<open>kernel/src/fs.rs\<close>, the sealed sectors, the checkpoints, mount, read,
    write, unlink and the crash-consistency argument over \<open>Disk\<close>, the device as its clients see it. \<open>Intent\<close>:
    \<open>intent.rs\<close>. \<open>Action_Log\<close>: \<open>audit.rs\<close>. \<open>Sha256\<close>: \<open>sha256.rs\<close> and \<open>measure.rs\<close>. \<open>Ota\<close>: \<open>ota.rs\<close>. \<open>Blk\<close>: \<open>blk.rs\<close>, the
    kernel's side of the disk, and \<open>Blkdrv\<close>: \<open>user/src/blkdrv.rs\<close>, the driver process behind it.

  \<^item> \<^bold>\<open>Memory.\<close> \<open>Frames\<close>: \<open>mm/frames.rs\<close>. \<open>Heap\<close>: \<open>mm/heap.rs\<close>. \<open>Paging\<close>: \<open>mm/paging.rs\<close> and \<open>mm/uaccess.rs\<close>, page tables as
    words in physical memory. \<open>Elf\<close>: \<open>elf.rs\<close>. \<open>Reach\<close>: what operations on an address space can touch.

  \<^item> \<^bold>\<open>Execution.\<close> \<open>Sync\<close>: \<open>sync.rs\<close>. \<open>Sched\<close>: \<open>sched/mod.rs\<close> with the per-core record of \<open>smp.rs\<close>. \<open>Ipc\<close>: \<open>ipc.rs\<close>.
    \<open>Time\<close>: \<open>time.rs\<close>. \<open>Irq\<close>: \<open>irq.rs\<close>. \<open>Dtb\<close>: \<open>dtb.rs\<close>.

  \<^item> \<^bold>\<open>Authority.\<close> \<open>Cap\<close>: \<open>cap.rs\<close>. \<open>Proc\<close>: \<open>proc.rs\<close>. \<open>Syscall\<close>: \<open>syscall.rs\<close>, all eighteen calls over the state of the
    components they reach. \<open>Isolation\<close>: what they guarantee together.

  \<^item> \<^bold>\<open>Models.\<close> \<open>Tensor\<close>: \<open>tensor.rs\<close>. \<open>Model\<close>, \<open>Weights\<close>: \<open>model.rs\<close> and the demand fault of \<open>mm/mod.rs\<close>. \<open>Kv\<close>,
    \<open>Kv_Inv\<close>: \<open>kv.rs\<close>.

  \<^item> \<^bold>\<open>Display.\<close> \<open>Wm\<close>: \<open>user/src/wm.rs\<close>. \<open>Gpudrv\<close>: \<open>user/src/gpudrv.rs\<close> and \<open>font.rs\<close>. \<open>Compose\<close>: the server as a whole.
    \<open>Display\<close>: \<open>display.rs\<close>, the kernel's frames. \<open>Inputdrv\<close>: \<open>user/src/inputdrv.rs\<close>.

  \<^bold>\<open>How state and operations correspond.\<close> A struct, and the statics of a module, are a record with a field
  for each; an enum is a datatype; an operation is a function that returns the new state, with
  \<open>Result\<close> as a sum whose left side is the message. Lists stand for vectors and queues, functions for
  memory and for disks. Where cores, interrupts or processes run into each other (\<open>Sync\<close>, \<open>Sched\<close>, \<open>Ipc\<close>,
  \<open>Tensor\<close>, \<open>Weights\<close>, \<open>Blk\<close>, the two-core part of \<open>Frames\<close>) the parts of an operation that hold a lock, or
  the single accesses, are the steps of an \<open>inductive\<close> relation, and statements hold in every reachable
  state. Functions are executable. Loops are structural or have a measure; where
  the source's loop has none, it is a \<open>partial_function\<close>, and that it returns is a theorem (\<open>Cap\<close>, \<open>Sha256\<close>),
  or the theorem says exactly when it does (\<open>regions_next\<close> of \<open>Dtb\<close>). No fuel is used in a model.

  \<^bold>\<open>Interfaces\<close> are locales, interpreted on the model: \<open>block_store\<close> (what the file system, the log and the
  updates rely on), \<open>frame_source\<close> (what page tables, heap and caches rely on), \<open>mixer\<close> (checksums that
  detect a changed byte), \<open>invariant_of\<close> (a property kept by every step), and those of the components.

  \<^bold>\<open>What is shown.\<close>

  \<^item> \<^emph>\<open>Storage.\<close> After any end of a write, errors and power cuts included, the next mount finds the old or the
    new file system; every history refines a map from names to contents. Undo restores what an intent
    wrote. The log reports the record in which a byte was changed. An update never leaves the device
    without an image that boots, and one that does not report success is rolled back. A caller of the
    disk gets the answer to its own request however late the driver is, and the driver publishes the
    request it was asked for.

  \<^item> \<^emph>\<open>Memory.\<close> Frames and heap blocks are never shared; \<open>map\<close> and \<open>unmap\<close> change exactly the translations they
    should; copies move exactly the bytes; loading a program yields exactly what its headers say.

  \<^item> \<^emph>\<open>Execution.\<close> Locks exclude; no thread runs on two cores or starves; channels lose nothing and no wakeup
    is lost; the timer is never late; interrupts are ended once and in order; the device tree that was
    written is the one that is read.

  \<^item> \<^emph>\<open>Authority.\<close> Derived capabilities never widen; revoking ends exactly the descendants; and no system call,
    whatever its arguments, changes another process's translations or memory it could not reach.

  \<^item> \<^emph>\<open>Models and display.\<close> An admitted deadline is met; a page fault maps the file's page and sharing is exact,
    and a reclaimed frame is mapped nowhere; a block of the cache that was spilled comes back with its
    bytes. Compositing only what was damaged draws what drawing everything would, a client can change
    only its own windows, and a tap goes to what is seen. The kernel's frames reach the server command by
    command, and the input driver reports exactly what its device said, on the screen.

  Where the code does not do what it means to, a theorem states what it does instead; there are such
  theorems in \<open>Heap\<close>, \<open>Frames\<close>, \<open>Paging\<close>, \<open>Ota\<close>, \<open>Action_Log\<close>, \<open>Compose\<close>, \<open>Weights\<close>, \<open>Dtb\<close> and \<open>Blkdrv\<close>.

  \<^bold>\<open>Assumptions and bounds.\<close> Integers with a layout are words and wrap; lengths, indices, ticks and addresses
  below \<open>2 ^ 48\<close> are natural numbers. A sector is written whole or not at all, which \<open>fs.rs\<close> states; \<open>Disk\<close>
  also takes a write that reports an error as not done: a write that timed out in \<open>Blk\<close>, and is carried
  out later, is not covered there. Clocks, hardware registers and the contents of images are arguments. \<open>Kv\<close> treats the
  operations of the cache one at a time.

  \<^bold>\<open>Not modelled.\<close> \<open>kernel/src/main.rs\<close> (the boot sequence and the exit tests, which only call what is modelled
  and print), \<open>smp.rs\<close> but for its record, \<open>gic.rs\<close>, \<open>uart.rs\<close>, \<open>exceptions.rs\<close> and \<open>devices.rs\<close> (device and
  system registers), the polling loops of \<open>display.rs\<close>, the assembly and the build scripts; of the user
  programs \<open>app.rs\<close>, \<open>main.rs\<close> (demonstrations) and \<open>sys.rs\<close> (one instruction per call); of \<open>gpudrv.rs\<close> the
  bring-up of the device.
\<close>

end
